(* ===== verification/Prelude.thy ===== *)
theory Prelude
  imports
    Main
    "HOL-Library.AList"
    "HOL-Library.Multiset"
    "HOL-Library.Char_ord"
    "HOL-Library.List_Lexorder"
    "HOL-Library.Sublist"
    "HOL-Library.Product_Lexorder"
    "HOL-Library.Word"
    "HOL-Library.While_Combinator"
    "HOL-Library.Log_Nat"
begin

section \<open>Shared vocabulary of the development\<close>

text \<open>
  What every component theory uses: Go's machine integers and time values, Go maps as
  association lists, the sorting helper of package \<open>sort\<close>, the string helpers of package
  \<open>strings\<close>, and the lemma collections that carry the component proofs.

  \<^item> \<open>i64\<close> wraps an \<open>int\<close> to the range of Go's \<open>int64\<close> (and \<open>int\<close>, which is 64 bits wide on
    every platform the services are built for).
  \<^item> A \<open>time.Time\<close> is the number of nanoseconds since Go's zero time, so the zero value is 0.
    \<open>t.Sub(u)\<close> saturates at the extreme values of \<open>time.Duration\<close>, as in package \<open>time\<close>.
  \<^item> A Go map is an association list with distinct keys whose order stands for one iteration
    order of \<open>range\<close>. A write is \<open>AList.update\<close> and a delete is \<open>AList.delete\<close>. Where
    a function ranges over a map, the theory of that function proves that its result does not
    depend on the order, or takes the order as part of its input.
\<close>

named_theorems inv_intros \<open>introduction rules of component invariants\<close>
named_theorems op_defs \<open>definitions of component operations\<close>

subsection \<open>Machine integers\<close>

definition i64 :: "int \<Rightarrow> int" where
  "i64 x = (x + 2 ^ 63) mod 2 ^ 64 - 2 ^ 63"

definition in_i64 :: "int \<Rightarrow> bool" where
  "in_i64 x \<longleftrightarrow> - (2 ^ 63) \<le> x \<and> x < 2 ^ 63"

lemma i64_id [simp]: "in_i64 x \<Longrightarrow> i64 x = x"
  by (simp add: i64_def in_i64_def)

lemma i64_range: "in_i64 (i64 x)"
proof -
  have "0 \<le> (x + 2 ^ 63) mod 2 ^ 64" "(x + 2 ^ 63) mod 2 ^ 64 < (2 ^ 64 :: int)"
    by simp_all
  then show ?thesis by (simp add: i64_def in_i64_def)
qed

lemma i64_add_left: "i64 (i64 x + y) = i64 (x + y)"
proof -
  have "(i64 x + y + 2 ^ 63) mod 2 ^ 64 = ((x + 2 ^ 63) mod 2 ^ 64 + y) mod 2 ^ 64"
    by (simp add: i64_def)
  also have "\<dots> = (x + y + 2 ^ 63) mod 2 ^ 64"
    by (simp only: mod_add_left_eq) (simp only: ac_simps)
  finally show ?thesis by (simp only: i64_def)
qed

lemma in_i64_mono: "in_i64 b \<Longrightarrow> 0 \<le> x \<Longrightarrow> x \<le> b \<Longrightarrow> in_i64 x"
  by (simp add: in_i64_def)

lemma mod_wrap_once: "m \<le> a \<Longrightarrow> a < m + m \<Longrightarrow> a mod m = a - (m :: nat)"
  by (simp add: le_mod_geq)

text \<open>Go's \<open>%\<close> truncates towards zero, so the result has the sign of the dividend.\<close>

definition go_quot :: "int \<Rightarrow> int \<Rightarrow> int" where
  "go_quot a b = (if a < 0 then - ((- a) div b) else a div b)"

definition go_rem :: "int \<Rightarrow> int \<Rightarrow> int" where
  "go_rem a b = (if 0 \<le> a then a mod b else - ((- a) mod b))"

text \<open>A sum accumulated by \<open>+=\<close> in a loop.\<close>

definition i64_sum :: "int list \<Rightarrow> int" where
  "i64_sum xs = foldl (\<lambda>acc x. i64 (acc + x)) 0 xs"

lemma foldl_i64: "foldl (\<lambda>acc x. i64 (acc + x)) (i64 a) xs = i64 (a + sum_list xs)"
  by (induction xs arbitrary: a) (simp_all add: i64_add_left add.assoc)

lemma i64_sum_eq: "i64_sum xs = i64 (sum_list xs)"
  using foldl_i64 [of 0 xs] by (simp add: i64_sum_def in_i64_def)

subsection \<open>Time\<close>

type_synonym time = int
type_synonym duration = int

abbreviation (input) zero_time :: time where "zero_time \<equiv> 0"

definition is_zero :: "time \<Rightarrow> bool" where
  "is_zero t \<longleftrightarrow> t = 0"

text \<open>\<open>t.UnixNano()\<close>: the Unix epoch is 62135596800 seconds after the zero time.\<close>

definition unix_nano :: "time \<Rightarrow> int" where
  "unix_nano t = i64 (t - 62135596800 * 1000000000)"

definition time_sub :: "time \<Rightarrow> time \<Rightarrow> duration" where
  "time_sub t u = max (- (2 ^ 63)) (min (2 ^ 63 - 1) (t - u))"

abbreviation (input) millisecond :: duration where "millisecond \<equiv> 1000000"
abbreviation (input) second :: duration where "second \<equiv> 1000000000"
abbreviation (input) minute :: duration where "minute \<equiv> 60 * 1000000000"
abbreviation (input) hour :: duration where "hour \<equiv> 3600 * 1000000000"

lemma time_sub_exact: "in_i64 (t - u) \<Longrightarrow> time_sub t u = t - u"
  by (simp add: time_sub_def in_i64_def)

lemma time_sub_ge_iff: "in_i64 d \<Longrightarrow> d \<le> time_sub t u \<longleftrightarrow> d \<le> t - u \<or> d = - (2 ^ 63)"
  by (auto simp: time_sub_def in_i64_def)

lemma time_sub_gt_iff: "in_i64 d \<Longrightarrow> d < time_sub t u \<longleftrightarrow> d < t - u \<and> d < 2 ^ 63 - 1"
  by (auto simp: time_sub_def in_i64_def)

lemma time_sub_lt_iff: "in_i64 d \<Longrightarrow> time_sub t u < d \<longleftrightarrow> t - u < d \<and> - (2 ^ 63) < d"
  by (auto simp: time_sub_def in_i64_def)

subsection \<open>Maps as association lists\<close>

lemma set_update_distinct:
  "distinct (map fst m) \<Longrightarrow>
   set (AList.update k v m) = insert (k, v) {p \<in> set m. fst p \<noteq> k}"
  by (induction m) (auto simp: image_iff)

lemma map_of_update [simp]: "map_of (AList.update k v m) = (map_of m)(k \<mapsto> v)"
  by (rule update_conv')

lemma map_of_delete [simp]: "map_of (AList.delete k m) = (map_of m)(k := None)"
  by (rule delete_conv')

declare map_of_eq_Some_iff [simp del] Some_eq_map_of_iff [simp del]

lemma in_set_map_of: "distinct (map fst m) \<Longrightarrow> (k, v) \<in> set m \<longleftrightarrow> map_of m k = Some v"
  by (simp add: map_of_eq_Some_iff)

text \<open>The sum of a measure over the values of a map: the total a \<open>range\<close> loop accumulates.\<close>

definition vsum :: "('v \<Rightarrow> int) \<Rightarrow> ('k \<times> 'v) list \<Rightarrow> int" where
  "vsum f m = sum_list (map (f \<circ> snd) m)"

lemma vsum_Nil [simp]: "vsum f [] = 0"
  by (simp add: vsum_def)

lemma vsum_Cons [simp]: "vsum f (p # m) = f (snd p) + vsum f m"
  by (simp add: vsum_def)

lemma vsum_update:
  "distinct (map fst m) \<Longrightarrow>
   vsum f (AList.update k v m) = vsum f m + f v - (case map_of m k of None \<Rightarrow> 0 | Some w \<Rightarrow> f w)"
proof (induction m)
  case (Cons p m)
  then show ?case by (cases p) auto
qed simp

lemma vsum_delete:
  "distinct (map fst m) \<Longrightarrow>
   vsum f (AList.delete k m) = vsum f m - (case map_of m k of None \<Rightarrow> 0 | Some w \<Rightarrow> f w)"
proof (induction m)
  case (Cons p m)
  then have "fst p \<notin> fst ` set m" by simp
  then have "fst p = k \<Longrightarrow> AList.delete k m = m" by (auto intro: delete_id)
  with Cons show ?case by (cases p) auto
qed simp

lemma vsum_perm: "mset m = mset m' \<Longrightarrow> vsum f m = vsum f m'"
  unfolding vsum_def by (metis mset_map sum_mset_sum_list)

lemma vsum_nonneg: "(\<And>k v. (k, v) \<in> set m \<Longrightarrow> 0 \<le> f v) \<Longrightarrow> 0 \<le> vsum f m"
  by (induction m) (force intro!: add_nonneg_nonneg)+

lemma perm_map_of:
  assumes "distinct (map fst m)" "mset m = mset m'"
  shows "map_of m = map_of m'"
proof -
  have "mset (map fst m) = mset (map fst m')" using assms(2) by simp
  then have "distinct (map fst m')" using assms(1) by (metis mset_eq_imp_distinct_iff)
  moreover have "set m = set m'" using assms(2) by (rule mset_eq_setD)
  ultimately show ?thesis using assms(1) by (intro map_of_inject_set [THEN iffD2]) auto
qed

subsection \<open>Sorting with a less function (package sort)\<close>

fun ins_by :: "('a \<Rightarrow> 'a \<Rightarrow> bool) \<Rightarrow> 'a \<Rightarrow> 'a list \<Rightarrow> 'a list" where
  "ins_by lt x [] = [x]"
| "ins_by lt x (y # ys) = (if lt y x then y # ins_by lt x ys else x # y # ys)"

definition sort_by :: "('a \<Rightarrow> 'a \<Rightarrow> bool) \<Rightarrow> 'a list \<Rightarrow> 'a list" where
  "sort_by lt xs = foldr (ins_by lt) xs []"

lemma mset_ins_by [simp]: "mset (ins_by lt x xs) = {#x#} + mset xs"
  by (induction xs) auto

lemma mset_sort_by [simp]: "mset (sort_by lt xs) = mset xs"
  by (induction xs) (auto simp: sort_by_def)

lemma set_sort_by [simp]: "set (sort_by lt xs) = set xs"
  by (metis mset_sort_by set_mset_mset)

lemma set_ins_by [simp]: "set (ins_by lt x xs) = insert x (set xs)"
  by (induction xs) auto

lemma sort_by_Nil [simp]: "sort_by lt [] = []"
  by (simp add: sort_by_def)

lemma sort_by_Nil_iff [simp]: "sort_by lt xs = [] \<longleftrightarrow> xs = []"
  by (metis mset_sort_by mset_zero_iff)

lemma sort_by_Cons [simp]: "sort_by lt (x # xs) = ins_by lt x (sort_by lt xs)"
  by (simp add: sort_by_def)

lemma hd_ins_by: "hd (ins_by lt x ys) = (if ys \<noteq> [] \<and> lt (hd ys) x then hd ys else x)"
  by (cases ys) auto

text \<open>
  The first element after sorting is a minimum, for a less function whose complement is
  transitive (a strict weak order).
\<close>

lemma hd_sort_by_least:
  assumes trans: "\<And>a b c. \<not> lt b a \<Longrightarrow> \<not> lt c b \<Longrightarrow> \<not> lt c a"
    and asym: "\<And>a b. lt a b \<Longrightarrow> \<not> lt b a"
    and "x \<in> set xs"
  shows "\<not> lt x (hd (sort_by lt xs))"
  using assms(3)
proof (induction xs)
  case (Cons y ys)
  have irr: "\<not> lt a a" for a using asym by blast
  show ?case
  proof (cases "sort_by lt ys")
    case Nil
    then show ?thesis using Cons.prems irr by (auto simp: hd_ins_by)
  next
    case (Cons z zs)
    have min: "x \<in> set ys \<Longrightarrow> \<not> lt x z" using Cons.IH \<open>sort_by lt ys = z # zs\<close> by simp
    show ?thesis
    proof (cases "lt z y")
      case True
      then have "\<not> lt x z" using Cons.prems min asym by auto
      with True show ?thesis by (simp add: \<open>sort_by lt ys = z # zs\<close>)
    next
      case False
      then have "\<not> lt x y" using Cons.prems min irr trans [of z y x] by auto
      with False show ?thesis by (simp add: \<open>sort_by lt ys = z # zs\<close>)
    qed
  qed
qed simp

lemma hd_sort_by_in: "xs \<noteq> [] \<Longrightarrow> hd (sort_by lt xs) \<in> set xs"
  by (metis hd_in_set set_sort_by sort_by_Nil_iff)

text \<open>A less function given by a key in a linear order: the head has the least key.\<close>

lemma hd_sort_by_key:
  fixes k :: "'a \<Rightarrow> 'k :: linorder"
  assumes "\<And>a b. lt a b \<longleftrightarrow> k a < k b" "x \<in> set xs"
  shows "k (hd (sort_by lt xs)) \<le> k x"
proof -
  have "\<not> lt x (hd (sort_by lt xs))"
    by (rule hd_sort_by_least [OF _ _ assms(2)]) (auto simp: assms(1))
  then show ?thesis by (simp add: assms(1) not_less)
qed

text \<open>If in addition the key tells the elements apart, the head depends on the multiset only.\<close>

lemma hd_sort_by_perm:
  fixes k :: "'a \<Rightarrow> 'k :: linorder"
  assumes key: "\<And>a b. lt a b \<longleftrightarrow> k a < k b" and "mset xs = mset ys" "xs \<noteq> []"
    and inj: "inj_on k (set xs)"
  shows "hd (sort_by lt xs) = hd (sort_by lt ys)"
proof -
  have s: "set xs = set ys" "ys \<noteq> []" using assms(2,3) by (auto dest: mset_eq_setD)
  have "k (hd (sort_by lt xs)) = k (hd (sort_by lt ys))"
    using hd_sort_by_key [of lt k, OF key] hd_sort_by_in assms(3) s by (metis antisym)
  then show ?thesis using inj hd_sort_by_in assms(3) s by (metis inj_onD)
qed

lemma sorted_ins_by:
  fixes k :: "'a \<Rightarrow> 'k :: linorder"
  assumes "\<And>a b. lt a b \<longleftrightarrow> k a < k b"
  shows "sorted (map k xs) \<Longrightarrow> sorted (map k (ins_by lt x xs))"
proof (induction xs)
  case (Cons y ys)
  then show ?case by (auto simp: assms)
qed simp

lemma sorted_sort_by:
  fixes k :: "'a \<Rightarrow> 'k :: linorder"
  assumes "\<And>a b. lt a b \<longleftrightarrow> k a < k b"
  shows "sorted (map k (sort_by lt xs))"
  by (induction xs) (auto intro: sorted_ins_by [OF assms])

text \<open>A list whose keys increase strictly is what sorting any list with the same elements gives.\<close>

lemma sort_by_strict:
  fixes k :: "'a \<Rightarrow> 'k :: linorder"
  assumes key: "\<And>a b. lt a b \<longleftrightarrow> k a < k b" and "sorted_wrt (<) (map k ys)"
    and "mset xs = mset ys"
  shows "sort_by lt xs = ys"
proof (rule map_sorted_distinct_set_unique [of k])
  have ms: "mset (sort_by lt xs) = mset ys" using assms(3) by simp
  then have s: "set (sort_by lt xs) = set ys" by (metis set_mset_mset)
  have d: "distinct (map k ys)" using assms(2) by (simp add: strict_sorted_iff)
  from ms have "mset (map k (sort_by lt xs)) = mset (map k ys)" by (simp only: mset_map)
  then show "distinct (map k (sort_by lt xs))" using d mset_eq_imp_distinct_iff by blast
  show "inj_on k (set (sort_by lt xs) \<union> set ys)" using d s by (simp add: distinct_map)
  show "sorted (map k (sort_by lt xs))" by (rule sorted_sort_by [OF key])
  show "sorted (map k ys)" using assms(2) by (simp add: strict_sorted_iff)
qed (use assms in \<open>auto simp: strict_sorted_iff dest: mset_eq_setD\<close>)

lemma nth_in_take: "i < k \<Longrightarrow> k \<le> length xs \<Longrightarrow> xs ! i \<in> set (take k xs)"
  by (metis in_set_conv_nth length_take min.absorb2 nth_take)

lemma in_dropD_nth: "x \<in> set (drop k xs) \<Longrightarrow> \<exists>i. k \<le> i \<and> i < length xs \<and> x = xs ! i"
  by (auto simp: in_set_conv_nth) (metis add.commute le_add1 less_diff_conv)

lemma nth_in_drop: "k \<le> i \<Longrightarrow> i < length xs \<Longrightarrow> xs ! i \<in> set (drop k xs)"
  by (auto simp: in_set_conv_nth intro!: exI [of _ "i - k"])

lemma sorted_dropWhile_gt:
  fixes f :: "'a \<Rightarrow> 'k :: linorder"
  shows "sorted (map f xs) \<Longrightarrow> x \<in> set (dropWhile (\<lambda>x. f x \<le> up) xs) \<Longrightarrow> up < f x"
  by (induction xs) (auto split: if_splits)

text \<open>\<open>sort.Search\<close>: binary search for the first index below n at which \<open>f\<close> holds.\<close>

function search_loop :: "(nat \<Rightarrow> bool) \<Rightarrow> nat \<Rightarrow> nat \<Rightarrow> nat" where
  "search_loop f i j =
     (if i < j then
        let h = (i + j) div 2 in
        if \<not> f h then search_loop f (h + 1) j else search_loop f i h
      else i)"
  by pat_completeness auto
termination
  by (relation "measure (\<lambda>(f, i, j). j - i)") auto

declare search_loop.simps [simp del]

definition search :: "nat \<Rightarrow> (nat \<Rightarrow> bool) \<Rightarrow> nat" where
  "search n f = search_loop f 0 n"

lemma search_loop_split:
  assumes "\<And>k. k < m \<Longrightarrow> \<not> f k" "\<And>k. m \<le> k \<Longrightarrow> k < n \<Longrightarrow> f k"
  shows "i \<le> m \<Longrightarrow> m \<le> j \<Longrightarrow> j \<le> n \<Longrightarrow> search_loop f i j = m"
proof (induction "j - i" arbitrary: i j rule: less_induct)
  case less
  show ?case
  proof (cases "i < j")
    case True
    let ?h = "(i + j) div 2"
    have h: "i \<le> ?h" "?h < j" using True by auto
    show ?thesis
    proof (cases "f ?h")
      case True
      then have "m \<le> ?h" using assms(1) by (meson not_less)
      with True \<open>i < j\<close> h less show ?thesis by (subst search_loop.simps) (simp add: Let_def)
    next
      case False
      then have "?h < m" using assms(2) [of ?h] h less.prems by (meson leI less_le_trans)
      with False \<open>i < j\<close> h less show ?thesis by (subst search_loop.simps) (simp add: Let_def)
    qed
  next
    case False
    with less.prems show ?thesis by (subst search_loop.simps) simp
  qed
qed

lemma search_split:
  assumes "m \<le> n" "\<And>k. k < m \<Longrightarrow> \<not> f k" "\<And>k. m \<le> k \<Longrightarrow> k < n \<Longrightarrow> f k"
  shows "search n f = m"
  unfolding search_def by (rule search_loop_split [where n = n]) (use assms in auto)

subsection \<open>Strings (package strings)\<close>

definition has_prefix :: "string \<Rightarrow> string \<Rightarrow> bool" where
  "has_prefix s p \<longleftrightarrow> length p \<le> length s \<and> take (length p) s = p"

lemma has_prefix_iff: "has_prefix s p \<longleftrightarrow> prefix p s"
proof
  assume "has_prefix s p"
  then have "s = p @ drop (length p) s"
    by (metis append_take_drop_id has_prefix_def)
  then show "prefix p s" by (rule prefixI)
next
  assume "prefix p s"
  then show "has_prefix s p" by (auto simp: prefix_def has_prefix_def)
qed

definition lower_char :: "char \<Rightarrow> char" where
  "lower_char c = (if CHR ''A'' \<le> c \<and> c \<le> CHR ''Z'' then char_of (of_char c + 32 :: nat) else c)"

definition to_lower :: "string \<Rightarrow> string" where
  "to_lower s = map lower_char s"

definition replace_char :: "char \<Rightarrow> char \<Rightarrow> string \<Rightarrow> string" where
  "replace_char a b s = map (\<lambda>c. if c = a then b else c) s"

text \<open>\<open>strings.Split(s, sep)\<close> for a separator of one byte: always at least one part.\<close>

fun split_on :: "char \<Rightarrow> string \<Rightarrow> string list" where
  "split_on d [] = [[]]"
| "split_on d (c # cs) =
     (if c = d then [] # split_on d cs
      else (case split_on d cs of [] \<Rightarrow> [[c]] | p # ps \<Rightarrow> (c # p) # ps))"

lemma split_on_nonempty [simp]: "split_on d s \<noteq> []"
  by (induction s) (auto split: list.splits)

lemma split_on_no_sep: "d \<notin> set s \<Longrightarrow> split_on d s = [s]"
  by (induction s) auto

lemma split_on_append:
  "d \<notin> set a \<Longrightarrow> split_on d (a @ d # b) = a # split_on d b"
  by (induction a) auto

lemma filter_key_single: "distinct (map key xs) \<Longrightarrow> x \<in> set xs \<Longrightarrow> filter (\<lambda>y. key y = key x) xs = [x]"
  by (induction xs) (auto simp: filter_empty_conv image_iff)

text \<open>The search for a text in another one, which several services carry a copy of.\<close>

fun str_index :: "string \<Rightarrow> string \<Rightarrow> nat \<Rightarrow> int" where
  "str_index [] sub i = (if sub = [] then int i else - 1)"
| "str_index (c # cs) sub i = (if has_prefix (c # cs) sub then int i else str_index cs sub (Suc i))"

definition str_contains :: "string \<Rightarrow> string \<Rightarrow> bool" where
  "str_contains s sub \<longleftrightarrow> length sub \<le> length s \<and> (s = sub \<or> 0 \<le> str_index s sub 0)"

text \<open>Digits, as printed by \<open>%d\<close> and \<open>%x\<close>.\<close>

definition digit_char :: "nat \<Rightarrow> char" where
  "digit_char n = char_of (if n < 10 then 48 + n else 87 + n)"

fun digits :: "nat \<Rightarrow> nat \<Rightarrow> string" where
  "digits b n = (if b < 2 then [] else if n < b then [digit_char n]
                 else digits b (n div b) @ [digit_char (n mod b)])"

declare digits.simps [simp del]

definition print_int :: "int \<Rightarrow> string" where
  "print_int i = (if i < 0 then ''-'' else []) @ digits 10 (nat \<bar>i\<bar>)"

text \<open>\<open>hex.EncodeToString\<close> of a byte string.\<close>

definition hex_char :: "char \<Rightarrow> string" where
  "hex_char c = [digit_char (of_char c div 16), digit_char (of_char c mod 16)]"

definition hex_string :: "string \<Rightarrow> string" where
  "hex_string b = concat (map hex_char b)"

definition is_digit :: "char \<Rightarrow> bool" where
  "is_digit c \<longleftrightarrow> 48 \<le> (of_char c :: nat) \<and> (of_char c :: nat) \<le> 57"

definition digits_value :: "string \<Rightarrow> int" where
  "digits_value s = foldl (\<lambda>acc c. acc * 10 + (int (of_char c) - 48)) 0 s"

text \<open>\<open>strconv.Atoi\<close>: an optional sign and decimal digits, in the range of \<open>int\<close>.\<close>

definition atoi :: "string \<Rightarrow> int option" where
  "atoi s =
     (let neg = (s \<noteq> [] \<and> hd s = CHR ''-'');
          ds = (if s \<noteq> [] \<and> (hd s = CHR ''-'' \<or> hd s = CHR ''+'') then tl s else s);
          v = (if neg then - digits_value ds else digits_value ds) in
      if ds \<noteq> [] \<and> list_all is_digit ds \<and> in_i64 v then Some v else None)"

lemma digits_nonempty: "2 \<le> b \<Longrightarrow> digits b n \<noteq> []"
  by (subst digits.simps) simp

lemma digit_char_inj: "digit_char n = digit_char m \<Longrightarrow> n < 36 \<Longrightarrow> m < 36 \<Longrightarrow> n = m"
proof -
  assume a: "digit_char n = digit_char m" "n < 36" "m < 36"
  have v: "of_char (digit_char k) = (if k < 10 then 48 + k else 87 + k)" if "k < 36" for k :: nat
  proof -
    have "(if k < 10 then 48 + k else 87 + k) mod 256 = (if k < 10 then 48 + k else 87 + k)"
      using that by (intro mod_less) simp
    then show ?thesis unfolding digit_char_def of_char_of by simp
  qed
  have "(if n < 10 then 48 + n else 87 + n) = (if m < 10 then 48 + m else 87 + m)"
    using v [OF a(2)] v [OF a(3)] a(1) by (simp only:)
  then show "n = m" using a(2,3) by (simp split: if_splits)
qed

text \<open>Different numbers are printed differently.\<close>

lemma digits_inj: "2 \<le> b \<Longrightarrow> b \<le> 36 \<Longrightarrow> digits b n = digits b m \<Longrightarrow> n = m"
proof (induction n arbitrary: m rule: less_induct)
  case (less n)
  have unfold: "digits b k = (if k < b then [digit_char k] else digits b (k div b) @ [digit_char (k mod b)])" for k
    using less.prems(1) by (subst digits.simps) simp
  have lt: "k mod b < 36" for k using less.prems(1,2) mod_less_divisor [of b k] by linarith
  have eq: "(if n < b then [digit_char n] else digits b (n div b) @ [digit_char (n mod b)]) =
      (if m < b then [digit_char m] else digits b (m div b) @ [digit_char (m mod b)])"
    using less.prems(3) unfolding unfold [of n] unfold [of m] .
  show ?case
  proof (cases "n < b \<or> m < b")
    case True
    then have "n < b" "m < b" "digit_char n = digit_char m"
      using eq digits_nonempty [OF less.prems(1), THEN not_sym] digits_nonempty [OF less.prems(1)]
      by (auto split: if_splits)
    then show ?thesis using digit_char_inj less.prems(2) by simp
  next
    case False
    then have "digits b (n div b) = digits b (m div b)" "digit_char (n mod b) = digit_char (m mod b)"
      using eq by simp_all
    moreover have "n div b < n" using False less.prems(1) by (intro div_less_dividend) auto
    ultimately have "n div b = m div b" "n mod b = m mod b"
      using less.IH [of "n div b" "m div b"] less.prems(1,2) digit_char_inj [OF _ lt lt] by auto
    then show ?thesis by (metis div_mult_mod_eq)
  qed
qed

end
