(* ===== verification/GpuLedger.thy ===== *)
theory GpuLedger
  imports Prelude
begin

section \<open>gpu-scheduler: the reservation ledger\<close>

text \<open>
  Model of \<open>services/gpu-scheduler/internal/ledger/ledger.go\<close> and of the service layer above it
  (\<open>services/gpu-scheduler/internal/service/service.go\<close>). The ledger's three Go maps are the
  three association lists of \<open>ledger\<close>; the mutex makes every operation atomic, so an operation
  is a function from ledger to ledger. \<open>time.Now\<close> is an argument: \<open>now\<close> is the ledger's clock
  and \<open>ns\<close> the \<open>UnixNano\<close> reading that ends up in the reservation id.
\<close>

record mig_profile =
  prof_name :: string
  vram_bytes :: int
  slices_used :: int

record gpu =
  gpu_id :: string
  sku :: string
  total_vram :: int
  total_slices :: int
  numa_node :: int
  nvlink_group :: string
  gpu_tenant :: string

record reservation =
  res_id :: string
  res_gpu :: string
  res_model :: string
  model_ver :: string
  res_profile :: mig_profile
  hold_for :: duration
  started_at :: time
  res_tenant :: string
  res_pipeline :: string

record ledger =
  gpus :: "(string \<times> gpu) list"
  resv :: "(string \<times> reservation) list"
  by_gpu :: "(string \<times> (string \<times> reservation) list) list"

record placement_request =
  req_model :: string
  req_version :: string
  req_tenant :: string
  req_pipeline :: string
  req_profile :: mig_profile
  prefer_nvlink :: string
  prefer_sku :: string
  req_hold_for :: duration

datatype ledger_error =
  GpuIdRequired | TotalVramRequired | ModelRequired | VramBytesRequired
| NoCapacity | UnknownGpu string | NilMapWrite

definition new_ledger :: ledger where
  "new_ledger = \<lparr>gpus = [], resv = [], by_gpu = []\<rparr>"

definition register_gpu :: "gpu \<Rightarrow> ledger \<Rightarrow> ledger_error + ledger" where
  "register_gpu g l =
     (if gpu_id g = [] then Inl GpuIdRequired
      else if total_vram g \<le> 0 then Inl TotalVramRequired
      else let g' = (if total_slices g \<le> 0 then g\<lparr>total_slices := 1\<rparr> else g) in
        Inr (l\<lparr>gpus := AList.update (gpu_id g') g' (gpus l),
               by_gpu := (case map_of (by_gpu l) (gpu_id g') of
                  None \<Rightarrow> AList.update (gpu_id g') [] (by_gpu l)
                | Some _ \<Rightarrow> by_gpu l)\<rparr>))"

text \<open>Reading a missing inner map in Go gives the nil map, which ranges over nothing.\<close>

definition bucket :: "ledger \<Rightarrow> string \<Rightarrow> (string \<times> reservation) list" where
  "bucket l gid = (case map_of (by_gpu l) gid of None \<Rightarrow> [] | Some m \<Rightarrow> m)"

abbreviation res_vram :: "reservation \<Rightarrow> int" where
  "res_vram r \<equiv> vram_bytes (res_profile r)"

abbreviation res_slices :: "reservation \<Rightarrow> int" where
  "res_slices r \<equiv> slices_used (res_profile r)"

definition loop_sum :: "(reservation \<Rightarrow> int) \<Rightarrow> (string \<times> reservation) list \<Rightarrow> int" where
  "loop_sum f m = i64_sum (map (f \<circ> snd) m)"

type_synonym cand = "gpu \<times> int \<times> int"

text \<open>The body of the loop over the GPUs in \<open>Place\<close>: None where it continues.\<close>

definition candidate :: "placement_request \<Rightarrow> ledger \<Rightarrow> gpu \<Rightarrow> cand option" where
  "candidate req l g =
     (if gpu_tenant g \<noteq> [] \<and> gpu_tenant g \<noteq> req_tenant req then None
      else if prefer_sku req \<noteq> [] \<and> sku g \<noteq> prefer_sku req then None
      else
        let used_vram = loop_sum res_vram (bucket l (gpu_id g));
            used_slots = loop_sum res_slices (bucket l (gpu_id g));
            free_vram = i64 (total_vram g - used_vram);
            free_slots = i64 (total_slices g - used_slots)
        in if free_vram < vram_bytes (req_profile req) then None
           else if free_slots < slices_used (req_profile req) then None
           else Some (g, free_vram, free_slots))"

definition candidates :: "placement_request \<Rightarrow> ledger \<Rightarrow> cand list" where
  "candidates req l = List.map_filter (candidate req l \<circ> snd) (gpus l)"

definition cand_less :: "placement_request \<Rightarrow> cand \<Rightarrow> cand \<Rightarrow> bool" where
  "cand_less req a b =
     (let ai = nvlink_group (fst a) = prefer_nvlink req;
          aj = nvlink_group (fst b) = prefer_nvlink req
      in if prefer_nvlink req \<noteq> [] \<and> ai \<noteq> aj then ai
         else if fst (snd a) \<noteq> fst (snd b) then fst (snd a) < fst (snd b)
         else gpu_id (fst a) < gpu_id (fst b))"

definition new_res_id :: "string \<Rightarrow> string \<Rightarrow> nat \<Rightarrow> string" where
  "new_res_id model g ns =
     to_lower (replace_char (CHR '' '') (CHR ''-'') (model @ ''-on-'' @ g)) @ ''-'' @ digits 16 ns"

definition mk_reservation ::
    "placement_request \<Rightarrow> gpu \<Rightarrow> time \<Rightarrow> nat \<Rightarrow> reservation" where
  "mk_reservation req g now ns =
     \<lparr>res_id = new_res_id (req_model req) (gpu_id g) ns, res_gpu = gpu_id g,
      res_model = req_model req, model_ver = req_version req, res_profile = req_profile req,
      hold_for = req_hold_for req, started_at = now, res_tenant = req_tenant req,
      res_pipeline = req_pipeline req\<rparr>"

definition place ::
    "placement_request \<Rightarrow> time \<Rightarrow> nat \<Rightarrow> ledger \<Rightarrow> ledger_error + (reservation \<times> ledger)" where
  "place req now ns l =
     (if req_model req = [] then Inl ModelRequired
      else if vram_bytes (req_profile req) \<le> 0 then Inl VramBytesRequired
      else case sort_by (cand_less req) (candidates req l) of
        [] \<Rightarrow> Inl NoCapacity
      | c # _ \<Rightarrow>
          let g = fst c; r = mk_reservation req g now ns in
          (case map_of (by_gpu l) (gpu_id g) of
             None \<Rightarrow> Inl NilMapWrite
           | Some m \<Rightarrow>
               Inr (r, l\<lparr>resv := AList.update (res_id r) r (resv l),
                         by_gpu := AList.update (gpu_id g) (AList.update (res_id r) r m) (by_gpu l)\<rparr>)))"

definition release :: "string \<Rightarrow> ledger \<Rightarrow> ledger" where
  "release rid l =
     (case map_of (resv l) rid of
        None \<Rightarrow> l
      | Some r \<Rightarrow>
          let l' = l\<lparr>resv := AList.delete rid (resv l)\<rparr> in
          (case map_of (by_gpu l) (res_gpu r) of
             None \<Rightarrow> l'
           | Some m \<Rightarrow> l'\<lparr>by_gpu := AList.update (res_gpu r) (AList.delete rid m) (by_gpu l)\<rparr>))"

definition free_vram :: "string \<Rightarrow> ledger \<Rightarrow> ledger_error + int" where
  "free_vram gid l =
     (case map_of (gpus l) gid of
        None \<Rightarrow> Inl (UnknownGpu gid)
      | Some g \<Rightarrow> Inr (i64 (total_vram g - loop_sum res_vram (bucket l gid))))"

definition snapshot :: "ledger \<Rightarrow> gpu list \<times> reservation list" where
  "snapshot l =
     (sort_by (\<lambda>a b. gpu_id a < gpu_id b) (map snd (gpus l)),
      sort_by (\<lambda>a b. res_id a < res_id b) (map snd (resv l)))"

subsection \<open>The service layer\<close>

datatype service_error =
  TenantIdRequired | SvcModelRequired | SvcVramRequired | ReservationIdRequired
| PlaceFailed ledger_error

record outcome =
  out_reservation :: reservation
  placed_at :: time

definition service_place ::
    "placement_request \<Rightarrow> time \<Rightarrow> nat \<Rightarrow> time \<Rightarrow> ledger \<Rightarrow> service_error + (outcome \<times> ledger)" where
  "service_place req now ns later l =
     (if req_tenant req = [] then Inl TenantIdRequired
      else if req_model req = [] then Inl SvcModelRequired
      else if vram_bytes (req_profile req) \<le> 0 then Inl SvcVramRequired
      else case place req now ns l of
        Inl e \<Rightarrow> Inl (PlaceFailed e)
      | Inr (r, l') \<Rightarrow> Inr (\<lparr>out_reservation = r, placed_at = later\<rparr>, l'))"

definition service_release :: "string \<Rightarrow> ledger \<Rightarrow> service_error + ledger" where
  "service_release rid l = (if rid = [] then Inl ReservationIdRequired else Inr (release rid l))"

subsection \<open>The representation invariant\<close>

definition gpu_ok :: "string \<Rightarrow> gpu \<Rightarrow> bool" where
  "gpu_ok gid g \<longleftrightarrow> gpu_id g = gid \<and> 0 < total_vram g \<and> in_i64 (total_vram g) \<and>
     0 < total_slices g \<and> in_i64 (total_slices g)"

definition gpus_ok :: "ledger \<Rightarrow> bool" where
  "gpus_ok l \<longleftrightarrow> distinct (map fst (gpus l)) \<and> (\<forall>gid g. map_of (gpus l) gid = Some g \<longrightarrow> gpu_ok gid g)"

definition ledger_inv :: "ledger \<Rightarrow> bool" where
  "ledger_inv l \<longleftrightarrow>
     distinct (map fst (gpus l)) \<and> distinct (map fst (resv l)) \<and> distinct (map fst (by_gpu l)) \<and>
     (\<forall>gid g. map_of (gpus l) gid = Some g \<longrightarrow> gpu_ok gid g \<and> map_of (by_gpu l) gid \<noteq> None) \<and>
     (\<forall>gid m. map_of (by_gpu l) gid = Some m \<longrightarrow> distinct (map fst m) \<and>
        (\<forall>rid r. map_of m rid = Some r \<longleftrightarrow> map_of (resv l) rid = Some r \<and> res_gpu r = gid)) \<and>
     (\<forall>rid r. map_of (resv l) rid = Some r \<longrightarrow>
        res_id r = rid \<and> 0 < res_vram r \<and> map_of (by_gpu l) (res_gpu r) \<noteq> None)"

definition used_vram :: "ledger \<Rightarrow> string \<Rightarrow> int" where
  "used_vram l gid = vsum res_vram (bucket l gid)"

definition used_slices :: "ledger \<Rightarrow> string \<Rightarrow> int" where
  "used_slices l gid = vsum res_slices (bucket l gid)"

lemmas ledger_defs = register_gpu_def place_def release_def

subsection \<open>Operations seen through the buckets\<close>

lemma register_gpu_InrD:
  assumes "register_gpu g l = Inr l'"
  obtains g' where "g' = (if total_slices g \<le> 0 then g\<lparr>total_slices := 1\<rparr> else g)"
    "gpu_id g \<noteq> []" "0 < total_vram g" "gpus l' = AList.update (gpu_id g) g' (gpus l)"
    "resv l' = resv l" "bucket l' = bucket l"
    "by_gpu l' = (case map_of (by_gpu l) (gpu_id g) of None \<Rightarrow> AList.update (gpu_id g) [] (by_gpu l)
       | Some _ \<Rightarrow> by_gpu l)"
  using assms that
  by (auto simp: register_gpu_def bucket_def fun_eq_iff Let_def split: if_splits option.splits)

lemma place_InrD:
  assumes "place req now ns l = Inr (r, l')"
  obtains c m where "c \<in> set (candidates req l)" "hd (sort_by (cand_less req) (candidates req l)) = c"
    "r = mk_reservation req (fst c) now ns" "map_of (by_gpu l) (gpu_id (fst c)) = Some m"
    "0 < vram_bytes (req_profile req)" "req_model req \<noteq> []"
    "l' = l\<lparr>resv := AList.update (res_id r) r (resv l),
            by_gpu := AList.update (gpu_id (fst c)) (AList.update (res_id r) r m) (by_gpu l)\<rparr>"
proof -
  from assms obtain c cs m where s: "sort_by (cand_less req) (candidates req l) = c # cs"
    and "map_of (by_gpu l) (gpu_id (fst c)) = Some m" "r = mk_reservation req (fst c) now ns"
      "0 < vram_bytes (req_profile req)" "req_model req \<noteq> []"
      "l' = l\<lparr>resv := AList.update (res_id r) r (resv l),
         by_gpu := AList.update (gpu_id (fst c)) (AList.update (res_id r) r m) (by_gpu l)\<rparr>"
    by (auto simp: place_def Let_def split: if_splits list.splits option.splits)
  moreover from s have "c \<in> set (candidates req l)" by (metis list.set_intros(1) set_sort_by)
  moreover from s have "hd (sort_by (cand_less req) (candidates req l)) = c" by simp
  ultimately show ?thesis using that by blast
qed

lemma mk_reservation_simps [simp]:
  "res_gpu (mk_reservation req g now ns) = gpu_id g"
  "res_profile (mk_reservation req g now ns) = req_profile req"
  "res_id (mk_reservation req g now ns) = new_res_id (req_model req) (gpu_id g) ns"
  "res_model (mk_reservation req g now ns) = req_model req"
  "res_tenant (mk_reservation req g now ns) = req_tenant req"
  by (simp_all add: mk_reservation_def)

lemma bucket_place:
  assumes "place req now ns l = Inr (r, l')"
  shows "bucket l' = (bucket l)(res_gpu r := AList.update (res_id r) r (bucket l (res_gpu r)))"
    and "gpus l' = gpus l"
  using assms by (auto elim!: place_InrD simp: bucket_def fun_eq_iff)

lemma bucket_release:
  assumes "map_of (resv l) rid = Some r"
  shows "bucket (release rid l) =
     (bucket l)(res_gpu r := AList.delete rid (bucket l (res_gpu r)))"
    and "gpus (release rid l) = gpus l"
  using assms by (auto simp: bucket_def release_def fun_eq_iff Let_def split: option.splits)

lemma release_unknown [simp]: "map_of (resv l) rid = None \<Longrightarrow> release rid l = l"
  by (simp add: release_def)

lemma resv_place:
  "place req now ns l = Inr (r, l') \<Longrightarrow> map_of (resv l') = (map_of (resv l))(res_id r \<mapsto> r)"
  by (auto elim!: place_InrD)

lemma resv_release: "map_of (resv (release rid l)) = (map_of (resv l))(rid := None)"
  by (auto simp: release_def Let_def fun_eq_iff split: option.splits)

lemma candidates_memD:
  assumes "c \<in> set (candidates req l)"
  obtains gid g where "(gid, g) \<in> set (gpus l)" "candidate req l g = Some c" "fst c = g"
proof -
  from assms obtain gid g where "(gid, g) \<in> set (gpus l)" "candidate req l g = Some c"
    by (auto simp: candidates_def map_filter_def)
  then show ?thesis using that by (auto simp: candidate_def Let_def split: if_splits)
qed

subsection \<open>The ledger invariant is kept\<close>

lemma ledger_invD:
  assumes "ledger_inv l"
  shows "distinct (map fst (gpus l))" "distinct (map fst (resv l))" "distinct (map fst (by_gpu l))"
    "map_of (gpus l) gid = Some g \<Longrightarrow> gpu_ok gid g"
    "map_of (gpus l) gid = Some g \<Longrightarrow> \<exists>m. map_of (by_gpu l) gid = Some m"
    "map_of (by_gpu l) gid = Some m \<Longrightarrow> distinct (map fst m)"
    "map_of (by_gpu l) gid = Some m \<Longrightarrow>
       map_of m rid = Some r \<longleftrightarrow> map_of (resv l) rid = Some r \<and> res_gpu r = gid"
    "map_of (resv l) rid = Some r \<Longrightarrow> res_id r = rid"
    "map_of (resv l) rid = Some r \<Longrightarrow> 0 < res_vram r"
    "map_of (resv l) rid = Some r \<Longrightarrow> \<exists>m. map_of (by_gpu l) (res_gpu r) = Some m"
  using assms unfolding ledger_inv_def by blast+

lemma distinct_bucket: "ledger_inv l \<Longrightarrow> distinct (map fst (bucket l gid))"
  using ledger_invD(6) [of l gid] by (auto simp: bucket_def split: option.splits)

lemma map_of_bucket:
  "ledger_inv l \<Longrightarrow> map_of (bucket l gid) rid = Some r \<longleftrightarrow> map_of (resv l) rid = Some r \<and> res_gpu r = gid"
  using ledger_invD(7) [of l gid] ledger_invD(10) [of l rid r]
  by (auto simp: bucket_def split: option.splits)

lemma in_bucketD:
  assumes "ledger_inv l" "(rid, r) \<in> set (bucket l gid)"
  shows "map_of (resv l) rid = Some r" "res_gpu r = gid"
proof -
  have "map_of (bucket l gid) rid = Some r"
    using assms(2) by (rule map_of_is_SomeI [OF distinct_bucket [OF assms(1)]])
  then show "map_of (resv l) rid = Some r" "res_gpu r = gid"
    using map_of_bucket [OF assms(1)] by blast+
qed

lemma ledger_inv_new: "ledger_inv new_ledger"
  by (simp add: ledger_inv_def new_ledger_def)

lemma ledger_inv_register:
  assumes "ledger_inv l" "register_gpu g l = Inr l'" "in_i64 (total_vram g)" "in_i64 (total_slices g)"
  shows "ledger_inv l'"
  using assms(2)
proof (rule register_gpu_InrD)
  fix g'
  assume r: "g' = (if total_slices g \<le> 0 then g\<lparr>total_slices := 1\<rparr> else g)"
    "0 < total_vram g" "gpus l' = AList.update (gpu_id g) g' (gpus l)" "resv l' = resv l"
    "by_gpu l' = (case map_of (by_gpu l) (gpu_id g) of None \<Rightarrow> AList.update (gpu_id g) [] (by_gpu l)
       | Some _ \<Rightarrow> by_gpu l)"
  have ok: "gpu_ok (gpu_id g) g'"
    using r assms(3,4) by (auto simp: gpu_ok_def in_i64_def)
  have empty: "map_of (by_gpu l) (gpu_id g) = None \<Longrightarrow>
      \<not> (map_of (resv l) rid = Some x \<and> res_gpu x = gpu_id g)" for rid x
    using ledger_invD(10) [OF assms(1), of rid x] by auto
  show ?thesis
    using assms(1) ok empty unfolding ledger_inv_def r(3,4,5)
    by (auto simp: distinct_update split: option.splits if_splits)
qed

lemma ledger_inv_place:
  assumes inv: "ledger_inv l" and pl: "place req now ns l = Inr (r, l')"
    and fresh: "map_of (resv l) (res_id r) = None"
  shows "ledger_inv l'"
  using pl
proof (rule place_InrD)
  fix c m
  assume r: "r = mk_reservation req (fst c) now ns" "map_of (by_gpu l) (gpu_id (fst c)) = Some m"
    "0 < vram_bytes (req_profile req)"
    "l' = l\<lparr>resv := AList.update (res_id r) r (resv l),
            by_gpu := AList.update (gpu_id (fst c)) (AList.update (res_id r) r m) (by_gpu l)\<rparr>"
  show ?thesis
    using inv fresh r(2,3) ledger_invD(7) [OF inv r(2)]
    unfolding ledger_inv_def r(4) by (auto simp: distinct_update r(1))
qed

lemma ledger_inv_release:
  assumes inv: "ledger_inv l"
  shows "ledger_inv (release rid l)"
proof (cases "map_of (resv l) rid")
  case (Some r)
  then obtain m where m: "map_of (by_gpu l) (res_gpu r) = Some m"
    using ledger_invD(10) [OF inv] by blast
  show ?thesis
    using inv Some m ledger_invD(7) [OF inv m]
    unfolding ledger_inv_def release_def
    by (auto simp: distinct_update distinct_delete split: if_splits)
qed (simp add: inv)

subsection \<open>Capacity\<close>

lemma used_vram_nonneg: "ledger_inv l \<Longrightarrow> 0 \<le> used_vram l gid"
  unfolding used_vram_def by (rule vsum_nonneg) (metis in_bucketD(1) ledger_invD(9) less_imp_le)

text \<open>A sum between 0 and the largest integer is the sum of the loop.\<close>

lemma loop_sum_exact: "0 \<le> vsum f m \<Longrightarrow> vsum f m < 2 ^ 63 \<Longrightarrow> loop_sum f m = vsum f m"
  by (simp add: loop_sum_def i64_sum_eq vsum_def in_i64_def)

text \<open>What the GPU chosen by \<open>Place\<close> had free.\<close>

lemma place_fits:
  assumes "gpus_ok l" "place req now ns l = Inr (r, l')"
  obtains g where "map_of (gpus l) (res_gpu r) = Some g" "res_profile r = req_profile req"
    "gpu_tenant g = [] \<or> gpu_tenant g = req_tenant req"
    "prefer_sku req = [] \<or> sku g = prefer_sku req"
    "res_vram r \<le> i64 (total_vram g - loop_sum res_vram (bucket l (res_gpu r)))"
    "res_slices r \<le> i64 (total_slices g - loop_sum res_slices (bucket l (res_gpu r)))"
    "0 < res_vram r"
  using assms(2)
proof (rule place_InrD)
  fix c m
  assume c: "c \<in> set (candidates req l)" "r = mk_reservation req (fst c) now ns" "0 < vram_bytes (req_profile req)"
  from c(1) obtain gid g where g: "(gid, g) \<in> set (gpus l)" "candidate req l g = Some c" "fst c = g"
    by (rule candidates_memD)
  from g(1) have m: "map_of (gpus l) gid = Some g"
    using assms(1) map_of_is_SomeI unfolding gpus_ok_def by metis
  moreover from this have "gpu_id g = gid"
    using assms(1) by (simp add: gpus_ok_def gpu_ok_def)
  ultimately show ?thesis
    using that [of g] g(2,3) c(2,3) by (auto simp: candidate_def Let_def split: if_splits)
qed

lemma used_vram_place:
  assumes "ledger_inv l" "place req now ns l = Inr (r, l')" "map_of (resv l) (res_id r) = None"
  shows "used_vram l' gid = used_vram l gid + (if gid = res_gpu r then res_vram r else 0)"
    and "used_slices l' gid = used_slices l gid + (if gid = res_gpu r then res_slices r else 0)"
proof -
  have "map_of (bucket l (res_gpu r)) (res_id r) = None"
    using assms(1,3) map_of_bucket by (metis not_Some_eq option.distinct(1))
  then show "used_vram l' gid = used_vram l gid + (if gid = res_gpu r then res_vram r else 0)"
    "used_slices l' gid = used_slices l gid + (if gid = res_gpu r then res_slices r else 0)"
    by (auto simp: used_vram_def used_slices_def bucket_place(1) [OF assms(2)] vsum_update
        distinct_bucket [OF assms(1)])
qed

lemma used_vram_release:
  assumes "ledger_inv l" "map_of (resv l) rid = Some r"
  shows "used_vram (release rid l) gid = used_vram l gid - (if gid = res_gpu r then res_vram r else 0)"
    and "used_slices (release rid l) gid = used_slices l gid - (if gid = res_gpu r then res_slices r else 0)"
proof -
  have "map_of (bucket l (res_gpu r)) rid = Some r"
    using assms map_of_bucket by blast
  then show "used_vram (release rid l) gid = used_vram l gid - (if gid = res_gpu r then res_vram r else 0)"
    "used_slices (release rid l) gid = used_slices l gid - (if gid = res_gpu r then res_slices r else 0)"
    by (auto simp: used_vram_def used_slices_def bucket_release(1) [OF assms(2)] vsum_delete
        distinct_bucket [OF assms(1)])
qed

subsection \<open>The placement order\<close>

definition cand_key :: "placement_request \<Rightarrow> cand \<Rightarrow> nat \<times> int \<times> string" where
  "cand_key req c =
     (if prefer_nvlink req \<noteq> [] \<and> nvlink_group (fst c) \<noteq> prefer_nvlink req then 1 else 0,
      fst (snd c), gpu_id (fst c))"

lemma cand_less_key: "cand_less req a b \<longleftrightarrow> cand_key req a < cand_key req b"
  by (auto simp: cand_less_def cand_key_def Let_def)

lemma candidates_inj:
  assumes "gpus_ok l"
  shows "inj_on (cand_key req) (set (candidates req l))"
proof (rule inj_onI)
  fix c d assume cd: "c \<in> set (candidates req l)" "d \<in> set (candidates req l)"
    and k: "cand_key req c = cand_key req d"
  have at: "map_of (gpus l) (gpu_id (fst e)) = Some (fst e) \<and> candidate req l (fst e) = Some e"
    if e: "e \<in> set (candidates req l)" for e
  proof -
    from e obtain gid g where g: "(gid, g) \<in> set (gpus l)" "candidate req l g = Some e" "fst e = g"
      by (rule candidates_memD)
    then have m: "map_of (gpus l) gid = Some g"
      using assms map_of_is_SomeI unfolding gpus_ok_def by metis
    then have "gpu_id g = gid" using assms by (simp add: gpus_ok_def gpu_ok_def)
    with m g show ?thesis by simp
  qed
  from k have "gpu_id (fst c) = gpu_id (fst d)" by (simp add: cand_key_def)
  then have "fst c = fst d" using at [OF cd(1)] at [OF cd(2)] by (metis option.inject)
  then show "c = d" using at [OF cd(1)] at [OF cd(2)] by (metis option.inject)
qed

text \<open>Two ledgers that hold the same maps, whatever order Go ranges over them in.\<close>

definition same_maps :: "ledger \<Rightarrow> ledger \<Rightarrow> bool" where
  "same_maps l k \<longleftrightarrow> mset (gpus l) = mset (gpus k) \<and> mset (resv l) = mset (resv k) \<and>
     dom (map_of (by_gpu l)) = dom (map_of (by_gpu k)) \<and>
     (\<forall>gid. mset (bucket l gid) = mset (bucket k gid))"

lemma loop_sum_perm: "mset m = mset m' \<Longrightarrow> loop_sum f m = loop_sum f m'"
  using vsum_perm [of m m' f] by (simp add: loop_sum_def i64_sum_eq vsum_def)

lemma candidates_same_maps:
  assumes "same_maps l k"
  shows "mset (candidates req l) = mset (candidates req k)"
proof -
  have "loop_sum f (bucket l gid) = loop_sum f (bucket k gid)" for f gid
    using assms by (intro loop_sum_perm) (simp add: same_maps_def)
  then have "candidate req l = candidate req k"
    by (simp add: fun_eq_iff candidate_def)
  moreover have "mset (List.map_filter f (gpus l)) = mset (List.map_filter f (gpus k))" for f :: "_ \<Rightarrow> cand option"
    using assms by (simp add: same_maps_def map_filter_def)
  ultimately show ?thesis by (simp only: candidates_def)
qed

subsection \<open>Any sequence of calls\<close>

text \<open>
  One operation per call that changes the state, with nothing required of it but that its integers are 64-bit integers: a GPU may be
  registered again with other totals, a request may have a negative slice count, and a placement may get the id of a
  live reservation. A call that fails changes nothing.
\<close>

datatype ledger_op = Register gpu | Placement placement_request time nat | Release string

definition ledger_exec :: "ledger_op \<Rightarrow> ledger \<Rightarrow> ledger" where
  "ledger_exec x l =
     (case x of
        Register g \<Rightarrow> (case register_gpu g l of Inl _ \<Rightarrow> l | Inr l' \<Rightarrow> l')
      | Placement req now ns \<Rightarrow> (case place req now ns l of Inl _ \<Rightarrow> l | Inr (r, l') \<Rightarrow> l')
      | Release rid \<Rightarrow> release rid l)"

definition typed_op :: "ledger_op \<Rightarrow> bool" where
  "typed_op x =
     (case x of
        Register g \<Rightarrow> in_i64 (total_vram g) \<and> in_i64 (total_slices g)
      | Placement req now ns \<Rightarrow> in_i64 (vram_bytes (req_profile req)) \<and> in_i64 (slices_used (req_profile req))
      | Release _ \<Rightarrow> True)"

text \<open>The books: buckets with distinct keys and positive amounts of VRAM. Unlike \<open>ledger_inv\<close> this survives an id that is given twice.\<close>

definition books_ok :: "ledger \<Rightarrow> bool" where
  "books_ok l \<longleftrightarrow> gpus_ok l \<and> (\<forall>gid g. map_of (gpus l) gid = Some g \<longrightarrow> map_of (by_gpu l) gid \<noteq> None) \<and>
     (\<forall>gid. distinct (map fst (bucket l gid)) \<and> (\<forall>p \<in> set (bucket l gid). 0 < res_vram (snd p)))"

definition within_totals :: "(gpu \<Rightarrow> int) \<Rightarrow> (reservation \<Rightarrow> int) \<Rightarrow> (string \<Rightarrow> int) \<Rightarrow> ledger \<Rightarrow> bool" where
  "within_totals tot use cap l \<longleftrightarrow> (\<forall>gid. 0 \<le> vsum use (bucket l gid) \<and> vsum use (bucket l gid) \<le> cap gid \<and> cap gid < 2 ^ 63) \<and>
     (\<forall>gid g. map_of (gpus l) gid = Some g \<longrightarrow> tot g \<le> cap gid)"

definition slices_ok :: "ledger \<Rightarrow> bool" where
  "slices_ok l \<longleftrightarrow> (\<forall>gid. \<forall>p \<in> set (bucket l gid). 0 \<le> res_slices (snd p))"

lemma vsum_update_le:
  "distinct (map fst m) \<Longrightarrow> (\<And>p. p \<in> set m \<Longrightarrow> 0 \<le> f (snd p)) \<Longrightarrow> vsum f (AList.update k v m) \<le> vsum f m + f v"
  by (auto simp: vsum_update split: option.split dest!: map_of_SomeD)

lemma vsum_delete_le:
  "distinct (map fst m) \<Longrightarrow> (\<And>p. p \<in> set m \<Longrightarrow> 0 \<le> f (snd p)) \<Longrightarrow> vsum f (AList.delete k m) \<le> vsum f m"
  by (auto simp: vsum_delete split: option.split dest!: map_of_SomeD)

lemma set_delete_sub: "p \<in> set (AList.delete k m) \<Longrightarrow> p \<in> set m"
  by (induction m) (auto split: if_splits)

lemma set_update_cases: "p \<in> set (AList.update k v m) \<Longrightarrow> p = (k, v) \<or> p \<in> set m"
  by (induction m) (auto split: if_splits)

lemma gpus_register:
  assumes "gpus_ok l" "register_gpu g l = Inr l'" "in_i64 (total_vram g)" "in_i64 (total_slices g)"
  shows "gpus_ok l'"
  using assms(2)
proof (rule register_gpu_InrD)
  fix g'
  assume r: "g' = (if total_slices g \<le> 0 then g\<lparr>total_slices := 1\<rparr> else g)" "0 < total_vram g" "gpus l' = AList.update (gpu_id g) g' (gpus l)"
  then have "gpu_ok (gpu_id g) g'" using assms(3,4) by (auto simp: gpu_ok_def in_i64_def)
  then show ?thesis using assms(1) r(3) by (auto simp: gpus_ok_def distinct_update)
qed

text \<open>What a call does to the buckets: a placement adds an entry that fits, a release removes one, a registration changes none.\<close>

lemma books_register:
  assumes "books_ok l" "register_gpu g l = Inr l'" "in_i64 (total_vram g)" "in_i64 (total_slices g)"
  shows "books_ok l'" "bucket l' = bucket l"
    "map_of (gpus l') = (map_of (gpus l))(gpu_id g \<mapsto> (if total_slices g \<le> 0 then g\<lparr>total_slices := 1\<rparr> else g))"
proof -
  have g: "gpus_ok l'" using gpus_register assms by (auto simp: books_ok_def)
  show b: "bucket l' = bucket l" and m: "map_of (gpus l') = (map_of (gpus l))(gpu_id g \<mapsto> (if total_slices g \<le> 0 then g\<lparr>total_slices := 1\<rparr> else g))"
    using assms(2) by (auto elim!: register_gpu_InrD)
  have "map_of (by_gpu l') gid \<noteq> None" if "map_of (gpus l') gid = Some h" for gid h
    using assms(1,2) that by (auto elim!: register_gpu_InrD simp: books_ok_def split: if_splits option.splits)
  then show "books_ok l'" using assms(1) g b by (simp add: books_ok_def)
qed

lemma books_place:
  assumes "books_ok l" "place req now ns l = Inr (r, l')"
  shows "books_ok l'"
proof -
  have v: "0 < res_vram r"
  proof (rule place_fits [OF _ assms(2)])
    show "gpus_ok l" using assms(1) by (simp add: books_ok_def)
  qed
  have "map_of (by_gpu l') gid \<noteq> None" if "map_of (gpus l') gid = Some h" for gid h
    using assms that by (auto elim!: place_InrD simp: books_ok_def)
  then show ?thesis
    using assms(1) v by (auto simp: books_ok_def gpus_ok_def bucket_place [OF assms(2)] distinct_update dest!: set_update_cases)
qed

lemma books_release: "books_ok l \<Longrightarrow> books_ok (release rid l)"
proof (cases "map_of (resv l) rid")
  case (Some r)
  assume b: "books_ok l"
  have "map_of (by_gpu (release rid l)) gid \<noteq> None" if "map_of (by_gpu l) gid \<noteq> None" for gid
    using that Some by (auto simp: release_def Let_def split: option.splits)
  then show ?thesis
    using b by (auto simp: books_ok_def gpus_ok_def bucket_release [OF Some] distinct_delete dest!: set_delete_sub)
qed simp

text \<open>Within bounds the loop of \<open>Place\<close> computes the plain sums, so a placement adds only what is left.\<close>

lemma within_exact:
  assumes "within_totals tot use cap l" "map_of (gpus l) gid = Some g" "0 < tot g" "in_i64 (tot g)"
  shows "loop_sum use (bucket l gid) = vsum use (bucket l gid)"
    "i64 (tot g - vsum use (bucket l gid)) = tot g - vsum use (bucket l gid)"
proof -
  have b: "0 \<le> vsum use (bucket l gid)" "vsum use (bucket l gid) < 2 ^ 63"
    using assms(1) by (auto simp: within_totals_def intro: le_less_trans)
  then show "loop_sum use (bucket l gid) = vsum use (bucket l gid)" by (rule loop_sum_exact)
  show "i64 (tot g - vsum use (bucket l gid)) = tot g - vsum use (bucket l gid)"
    using b assms(3,4) by (intro i64_id) (simp add: in_i64_def)
qed

lemma within_place:
  assumes "within_totals tot use cap l" "books_ok l" "place req now ns l = Inr (r, l')" "map_of (gpus l) (res_gpu r) = Some g"
    and "use r \<le> i64 (tot g - loop_sum use (bucket l (res_gpu r)))" "0 < tot g" "in_i64 (tot g)"
    and "0 \<le> use r" "\<And>gid p. p \<in> set (bucket l gid) \<Longrightarrow> 0 \<le> use (snd p)"
  shows "within_totals tot use cap l'" "vsum use (bucket l' (res_gpu r)) \<le> tot g"
proof -
  let ?m = "bucket l (res_gpu r)"
  have d: "distinct (map fst ?m)" using assms(2) by (simp add: books_ok_def)
  have "vsum use (AList.update (res_id r) r ?m) \<le> vsum use ?m + use r" using d assms(9) by (rule vsum_update_le)
  also have "\<dots> \<le> tot g" using assms(5) within_exact [OF assms(1,4,6,7)] by simp
  finally have u: "vsum use (AList.update (res_id r) r ?m) \<le> tot g" .
  then show "vsum use (bucket l' (res_gpu r)) \<le> tot g" by (simp add: bucket_place(1) [OF assms(3)])
  have "0 \<le> vsum use (AList.update (res_id r) r ?m)" using assms(8,9) by (intro vsum_nonneg) (auto dest!: set_update_cases)
  moreover have "tot g \<le> cap (res_gpu r)" using assms(1,4) by (simp add: within_totals_def)
  ultimately show "within_totals tot use cap l'"
    using u assms(1) by (auto simp: within_totals_def bucket_place [OF assms(3)])
qed

lemma within_release:
  assumes "within_totals tot use cap l" "books_ok l" "\<And>gid p. p \<in> set (bucket l gid) \<Longrightarrow> 0 \<le> use (snd p)"
  shows "within_totals tot use cap (release rid l)"
proof (cases "map_of (resv l) rid")
  case (Some r)
  let ?m = "bucket l (res_gpu r)"
  have d: "distinct (map fst ?m)" using assms(2) by (simp add: books_ok_def)
  have "vsum use (AList.delete rid ?m) \<le> vsum use ?m" using d assms(3) by (rule vsum_delete_le)
  also have "\<dots> \<le> cap (res_gpu r)" using assms(1) by (simp add: within_totals_def)
  finally have "vsum use (AList.delete rid ?m) \<le> cap (res_gpu r)" .
  moreover have "0 \<le> vsum use (AList.delete rid ?m)" using assms(3) by (intro vsum_nonneg) (auto dest!: set_delete_sub)
  ultimately show ?thesis
    using assms(1) by (simp add: within_totals_def bucket_release [OF Some])
qed (simp add: assms(1))

text \<open>The bounds \<open>cv\<close> and \<open>cs\<close> are any that no registration of a GPU exceeds.\<close>

definition op_bounded :: "(string \<Rightarrow> int) \<Rightarrow> (string \<Rightarrow> int) \<Rightarrow> ledger_op \<Rightarrow> bool" where
  "op_bounded cv cs x = (case x of Register g \<Rightarrow> total_vram g \<le> cv (gpu_id g) \<and> max 1 (total_slices g) \<le> cs (gpu_id g) | _ \<Rightarrow> True)"

definition whole_slices :: "ledger_op \<Rightarrow> bool" where
  "whole_slices x = (case x of Placement req now ns \<Rightarrow> 0 \<le> slices_used (req_profile req) | _ \<Rightarrow> True)"

lemma exec_books: "books_ok l \<Longrightarrow> typed_op x \<Longrightarrow> books_ok (ledger_exec x l)"
proof (cases x)
  case (Register g)
  assume "books_ok l" "typed_op x"
  then show ?thesis
    using Register books_register(1) [of l g] by (cases "register_gpu g l") (simp_all add: ledger_exec_def typed_op_def)
next
  case (Placement req now ns)
  assume "books_ok l"
  then show ?thesis
    using Placement books_place [of l req now ns]
    by (cases "place req now ns l") (auto simp: ledger_exec_def)
qed (simp add: ledger_exec_def books_release)

lemma gpu_okD: "books_ok l \<Longrightarrow> map_of (gpus l) gid = Some g \<Longrightarrow> 0 < total_vram g \<and> in_i64 (total_vram g) \<and> 0 < total_slices g \<and> in_i64 (total_slices g)"
  by (simp add: books_ok_def gpus_ok_def gpu_ok_def)

lemma books_positive: "books_ok l \<Longrightarrow> p \<in> set (bucket l gid) \<Longrightarrow> 0 \<le> res_vram (snd p)"
  unfolding books_ok_def by (simp add: less_imp_le)

lemma within_register:
  assumes "within_totals tot use cap l" "bucket l' = bucket l" "map_of (gpus l') = (map_of (gpus l))(i \<mapsto> g)" "tot g \<le> cap i"
  shows "within_totals tot use cap l'"
  using assms by (simp add: within_totals_def)

lemma exec_vram:
  assumes "books_ok l" "within_totals total_vram res_vram cv l" "typed_op x" "op_bounded cv cs x"
  shows "within_totals total_vram res_vram cv (ledger_exec x l)"
proof (cases x)
  case (Register g)
  show ?thesis
  proof (cases "register_gpu g l")
    case (Inr l')
    have t: "in_i64 (total_vram g)" "in_i64 (total_slices g)" using assms(3) Register by (simp_all add: typed_op_def)
    note b = books_register [OF assms(1) Inr t]
    show ?thesis
      using within_register [OF assms(2) b(2,3)] assms(4) Register Inr by (auto simp: ledger_exec_def op_bounded_def)
  qed (use assms(2) Register in \<open>simp add: ledger_exec_def\<close>)
next
  case (Placement req now ns)
  show ?thesis
  proof (cases "place req now ns l")
    case (Inr p)
    obtain r l' where p: "place req now ns l = Inr (r, l')" using Inr by (cases p) auto
    obtain g where g: "map_of (gpus l) (res_gpu r) = Some g" "res_vram r \<le> i64 (total_vram g - loop_sum res_vram (bucket l (res_gpu r)))" "0 < res_vram r"
      by (rule place_fits [OF _ p]) (use assms(1) in \<open>auto simp: books_ok_def\<close>)
    show ?thesis
      using within_place(1) [OF assms(2,1) p g(1,2)] gpu_okD [OF assms(1) g(1)] g(3) books_positive [OF assms(1)] p Placement
      by (simp add: ledger_exec_def)
  qed (use assms(2) Placement in \<open>simp add: ledger_exec_def\<close>)
next
  case (Release rid)
  then show ?thesis using within_release [OF assms(2,1) books_positive [OF assms(1)]] by (simp add: ledger_exec_def)
qed

lemma exec_slices:
  assumes "books_ok l" "within_totals total_slices res_slices cs l" "slices_ok l" "typed_op x" "op_bounded cv cs x" "whole_slices x"
  shows "within_totals total_slices res_slices cs (ledger_exec x l) \<and> slices_ok (ledger_exec x l)"
proof (cases x)
  case (Register g)
  show ?thesis
  proof (cases "register_gpu g l")
    case (Inr l')
    have t: "in_i64 (total_vram g)" "in_i64 (total_slices g)" using assms(4) Register by (simp_all add: typed_op_def)
    note b = books_register [OF assms(1) Inr t]
    show ?thesis
      using within_register [OF assms(2) b(2,3)] assms(3,5) Register Inr by (auto simp: ledger_exec_def op_bounded_def slices_ok_def b(2))
  qed (use assms(2,3) Register in \<open>simp add: ledger_exec_def\<close>)
next
  case (Placement req now ns)
  show ?thesis
  proof (cases "place req now ns l")
    case (Inr p)
    obtain r l' where p: "place req now ns l = Inr (r, l')" using Inr by (cases p) auto
    obtain g where g: "map_of (gpus l) (res_gpu r) = Some g" "res_profile r = req_profile req"
        "res_slices r \<le> i64 (total_slices g - loop_sum res_slices (bucket l (res_gpu r)))"
      by (rule place_fits [OF _ p]) (use assms(1) in \<open>auto simp: books_ok_def\<close>)
    have n: "0 \<le> res_slices r" using assms(6) Placement g(2) by (simp add: whole_slices_def)
    have old: "\<And>gid p. p \<in> set (bucket l gid) \<Longrightarrow> 0 \<le> res_slices (snd p)" using assms(3) by (simp add: slices_ok_def)
    have "slices_ok l'" using assms(3) n by (auto simp: slices_ok_def bucket_place(1) [OF p] dest!: set_update_cases)
    then show ?thesis
      using within_place(1) [OF assms(2,1) p g(1,3) _ _ n old] gpu_okD [OF assms(1) g(1)] p Placement by (simp add: ledger_exec_def)
  qed (use assms(2,3) Placement in \<open>simp add: ledger_exec_def\<close>)
next
  case (Release rid)
  have old: "\<And>gid p. p \<in> set (bucket l gid) \<Longrightarrow> 0 \<le> res_slices (snd p)" using assms(3) by (simp add: slices_ok_def)
  have "slices_ok (release rid l)"
  proof (cases "map_of (resv l) rid")
    case (Some r)
    then show ?thesis using assms(3) by (auto simp: slices_ok_def bucket_release(1) [OF Some] dest!: set_delete_sub)
  qed (simp add: assms(3))
  then show ?thesis using within_release [OF assms(2,1) old] Release by (simp add: ledger_exec_def)
qed

lemma books_new: "books_ok new_ledger" "slices_ok new_ledger"
  "(\<And>gid. 0 \<le> cap gid \<and> cap gid < 2 ^ 63) \<Longrightarrow> within_totals tot use cap new_ledger"
  by (simp_all add: books_ok_def gpus_ok_def slices_ok_def within_totals_def new_ledger_def bucket_def)

lemma run_books:
  "\<forall>x \<in> set ops. typed_op x \<Longrightarrow> books_ok (fold ledger_exec ops new_ledger)"
  by (induction ops rule: rev_induct) (simp_all add: books_new exec_books)

lemma run_vram:
  "\<forall>x \<in> set ops. typed_op x \<and> op_bounded cv cs x \<Longrightarrow> (\<And>gid. 0 \<le> cv gid \<and> cv gid < 2 ^ 63) \<Longrightarrow>
   within_totals total_vram res_vram cv (fold ledger_exec ops new_ledger)"
proof (induction ops rule: rev_induct)
  case (snoc x ops)
  then show ?case using exec_vram [of "fold ledger_exec ops new_ledger" cv x cs] run_books [of ops] by simp
qed (simp add: books_new)

lemma run_slices:
  "\<forall>x \<in> set ops. typed_op x \<and> op_bounded cv cs x \<and> whole_slices x \<Longrightarrow> (\<And>gid. 0 \<le> cs gid \<and> cs gid < 2 ^ 63) \<Longrightarrow>
   within_totals total_slices res_slices cs (fold ledger_exec ops new_ledger) \<and> slices_ok (fold ledger_exec ops new_ledger)"
proof (induction ops rule: rev_induct)
  case (snoc x ops)
  then show ?case using exec_slices [of "fold ledger_exec ops new_ledger" cs x cv] run_books [of ops] by simp
qed (simp add: books_new)

text \<open>Every registration is below the largest integer.\<close>

definition top_bound :: "string \<Rightarrow> int" where "top_bound gid = 2 ^ 63 - 1"

lemma typed_bounded: "typed_op x \<Longrightarrow> op_bounded top_bound top_bound x"
  by (auto simp: typed_op_def op_bounded_def top_bound_def in_i64_def split: ledger_op.splits)

lemma bounded_at:
  "typed_op x \<Longrightarrow> (\<And>g. x = Register g \<Longrightarrow> gpu_id g = gid \<Longrightarrow> total_vram g \<le> a \<and> max 1 (total_slices g) \<le> b) \<Longrightarrow>
   op_bounded (top_bound(gid := min a (2 ^ 63 - 1))) (top_bound(gid := min b (2 ^ 63 - 1))) x"
  using typed_bounded [of x] by (auto simp: op_bounded_def top_bound_def split: ledger_op.splits)

subsection \<open>The interface the service layer relies on\<close>

text \<open>
  What \<open>service.go\<close> and its HTTP clients expect of a ledger: a placement records one
  reservation and takes its cost from one device, a release gives exactly that back and is
  idempotent. \<open>spare\<close> is what is left on a device.
\<close>

locale placement_backend =
  fixes inv :: "'s \<Rightarrow> bool"
    and place_op :: "'q \<Rightarrow> 's \<Rightarrow> 'e + ('r \<times> 's)"
    and release_op :: "string \<Rightarrow> 's \<Rightarrow> 's"
    and live :: "'s \<Rightarrow> string \<Rightarrow> 'r option"
    and spare :: "'s \<Rightarrow> string \<Rightarrow> int"
    and rid :: "'r \<Rightarrow> string"
    and dev :: "'r \<Rightarrow> string"
    and cost :: "'r \<Rightarrow> int"
  assumes inv_place: "inv s \<Longrightarrow> place_op q s = Inr (r, s') \<Longrightarrow> live s (rid r) = None \<Longrightarrow> inv s'"
    and inv_release: "inv s \<Longrightarrow> inv (release_op i s)"
    and live_place: "place_op q s = Inr (r, s') \<Longrightarrow> live s' = (live s)(rid r \<mapsto> r)"
    and spare_place: "inv s \<Longrightarrow> place_op q s = Inr (r, s') \<Longrightarrow> live s (rid r) = None \<Longrightarrow>
          spare s' = (spare s)(dev r := spare s (dev r) - cost r)"
    and live_release: "live (release_op i s) = (live s)(i := None)"
    and spare_release: "inv s \<Longrightarrow> live s i = Some r \<Longrightarrow>
          spare (release_op i s) = (spare s)(dev r := spare s (dev r) + cost r)"
    and release_absent: "live s i = None \<Longrightarrow> release_op i s = s"
begin

lemma place_release:
  assumes "inv s" "place_op q s = Inr (r, s')" "live s (rid r) = None"
  shows "spare (release_op (rid r) s') = spare s" "live (release_op (rid r) s') = live s"
proof -
  have "inv s'" "live s' (rid r) = Some r"
    using assms inv_place live_place by auto
  then show "spare (release_op (rid r) s') = spare s"
    using spare_release spare_place [OF assms] by (simp add: fun_eq_iff)
  show "live (release_op (rid r) s') = live s"
    using assms(3) live_place [OF assms(2)] by (auto simp: live_release)
qed

lemma release_again: "release_op i (release_op i s) = release_op i s"
  by (rule release_absent) (simp add: live_release)

end

definition spare_vram :: "ledger \<Rightarrow> string \<Rightarrow> int" where
  "spare_vram l gid =
     (case map_of (gpus l) gid of None \<Rightarrow> 0 | Some g \<Rightarrow> total_vram g) - used_vram l gid"

interpretation lg: placement_backend ledger_inv
  "\<lambda>(req, now, ns). place req now ns" release "\<lambda>l. map_of (resv l)" spare_vram res_id res_gpu res_vram
proof (unfold_locales, goal_cases)
  case (4 l q r l')
  then show ?case
    by (auto simp: fun_eq_iff spare_vram_def used_vram_place bucket_place(2) split: prod.splits)
next
  case (6 l i r)
  then show ?case
    by (auto simp: fun_eq_iff spare_vram_def used_vram_release bucket_release(2))
qed (auto simp: resv_place resv_release intro: ledger_inv_place ledger_inv_release split: prod.splits)

subsection \<open>What Place promises\<close>

text \<open>
  The contract of \<open>Place\<close> over plain integers: which GPUs can take a request, and the key by
  which the best of them is chosen (preferred NVLink group first, then the tightest fit by free
  VRAM, then the smallest id).
\<close>

definition eligible :: "placement_request \<Rightarrow> ledger \<Rightarrow> gpu \<Rightarrow> bool" where
  "eligible req l g \<longleftrightarrow> map_of (gpus l) (gpu_id g) = Some g \<and>
     (gpu_tenant g = [] \<or> gpu_tenant g = req_tenant req) \<and>
     (prefer_sku req = [] \<or> sku g = prefer_sku req) \<and>
     used_vram l (gpu_id g) + vram_bytes (req_profile req) \<le> total_vram g \<and>
     used_slices l (gpu_id g) + slices_used (req_profile req) \<le> total_slices g"

definition fit_key :: "placement_request \<Rightarrow> ledger \<Rightarrow> gpu \<Rightarrow> nat \<times> int \<times> string" where
  "fit_key req l g =
     (if prefer_nvlink req \<noteq> [] \<and> nvlink_group g \<noteq> prefer_nvlink req then 1 else 0,
      total_vram g - used_vram l (gpu_id g), gpu_id g)"

lemma candidates_eligible:
  assumes "books_ok l" "within_totals total_vram res_vram cv l" "within_totals total_slices res_slices cs l"
  shows "c \<in> set (candidates req l) \<Longrightarrow> eligible req l (fst c) \<and> cand_key req c = fit_key req l (fst c)"
    and "eligible req l g \<Longrightarrow> \<exists>c. c \<in> set (candidates req l) \<and> fst c = g"
proof -
  have body: "candidate req l g = (if eligible req l g
      then Some (g, total_vram g - used_vram l (gpu_id g), total_slices g - used_slices l (gpu_id g))
      else None)" if m: "map_of (gpus l) (gpu_id g) = Some g" for g
    using m gpu_okD [OF assms(1) m] within_exact [OF assms(2) m] within_exact [OF assms(3) m]
    by (auto simp: candidate_def eligible_def Let_def used_vram_def used_slices_def)
  have d: "distinct (map fst (gpus l))" and i: "map_of (gpus l) gid = Some g \<Longrightarrow> gpu_id g = gid" for gid g
    using assms(1) by (simp_all add: books_ok_def gpus_ok_def gpu_ok_def)
  have key: "map_of (gpus l) (gpu_id g) = Some g \<and> gid = gpu_id g" if "(gid, g) \<in> set (gpus l)" for gid g
    using map_of_is_SomeI [OF d that] i by auto
  show "c \<in> set (candidates req l) \<Longrightarrow> eligible req l (fst c) \<and> cand_key req c = fit_key req l (fst c)"
    by (erule candidates_memD, cases c)
      (auto dest!: key simp: body cand_key_def fit_key_def split: if_splits)
  show "\<exists>c. c \<in> set (candidates req l) \<and> fst c = g" if e: "eligible req l g"
  proof -
    from e have m: "map_of (gpus l) (gpu_id g) = Some g" by (simp add: eligible_def)
    then have "(gpu_id g, g) \<in> set (gpus l)" by (rule map_of_SomeD)
    then show ?thesis using body [OF m] e by (force simp: candidates_def map_filter_def)
  qed
qed

lemma books_bucket:
  "books_ok l \<Longrightarrow> eligible req l g \<Longrightarrow> \<exists>m. map_of (by_gpu l) (gpu_id g) = Some m"
  by (auto simp: books_ok_def eligible_def)

lemma top_bound_range: "0 \<le> top_bound gid \<and> top_bound gid < 2 ^ 63"
  by (simp add: top_bound_def)

lemma run_candidates:
  assumes "\<forall>x \<in> set ops. typed_op x \<and> whole_slices x"
  shows "c \<in> set (candidates req (fold ledger_exec ops new_ledger)) \<Longrightarrow>
      eligible req (fold ledger_exec ops new_ledger) (fst c) \<and> cand_key req c = fit_key req (fold ledger_exec ops new_ledger) (fst c)"
    and "eligible req (fold ledger_exec ops new_ledger) g \<Longrightarrow> \<exists>c. c \<in> set (candidates req (fold ledger_exec ops new_ledger)) \<and> fst c = g"
proof -
  have b: "books_ok (fold ledger_exec ops new_ledger)" using assms by (intro run_books) simp
  have v: "within_totals total_vram res_vram top_bound (fold ledger_exec ops new_ledger)"
    by (rule run_vram [OF _ top_bound_range]) (use assms typed_bounded in auto)
  have s: "within_totals total_slices res_slices top_bound (fold ledger_exec ops new_ledger)"
    using run_slices [of ops top_bound top_bound, OF _ top_bound_range] assms typed_bounded by auto
  show "c \<in> set (candidates req (fold ledger_exec ops new_ledger)) \<Longrightarrow>
      eligible req (fold ledger_exec ops new_ledger) (fst c) \<and> cand_key req c = fit_key req (fold ledger_exec ops new_ledger) (fst c)"
    by (rule candidates_eligible(1) [OF b v s])
  show "eligible req (fold ledger_exec ops new_ledger) g \<Longrightarrow> \<exists>c. c \<in> set (candidates req (fold ledger_exec ops new_ledger)) \<and> fst c = g"
    by (rule candidates_eligible(2) [OF b v s])
qed

subsection \<open>Properties\<close>

text \<open>
  C31: after any sequence of calls (registrations and re-registrations with whatever totals, placements, releases, failing ones
  included), for a GPU on the ledger whose every registration declared at most \<open>cap\<close> bytes and \<open>slots\<close> slices: the VRAM of the
  reservations in its bucket is between 0 and \<open>cap\<close>; \<open>FreeVRAM\<close> reports exactly what its current total leaves, negative when the
  GPU was registered again with less, with no int64 wrap-around; the next placement that is put on it leaves at most its
  current total reserved; and its slices are between 0 and \<open>slots\<close> if no placement asked for a negative number of them.
  So a GPU is over-committed only by registering it again with smaller totals (\<open>shrunk_gpu_is_overcommitted\<close>). The bucket is
  keyed by reservation id: a reservation whose id is given a second time is counted once (\<open>id_collision_loses_reservation\<close>).
\<close>

theorem ledger_capacity:
  assumes "\<forall>x \<in> set ops. typed_op x" "l = fold ledger_exec ops new_ledger" "map_of (gpus l) gid = Some g"
    and "\<forall>x \<in> set ops. case x of Register h \<Rightarrow> gpu_id h = gid \<longrightarrow> total_vram h \<le> cap \<and> max 1 (total_slices h) \<le> slots | _ \<Rightarrow> True"
  shows "0 \<le> used_vram l gid \<and> used_vram l gid \<le> cap \<and> free_vram gid l = Inr (total_vram g - used_vram l gid) \<and>
    (\<forall>req now ns r l'. place req now ns l = Inr (r, l') \<and> res_gpu r = gid \<longrightarrow> used_vram l' gid \<le> total_vram g) \<and>
    ((\<forall>x \<in> set ops. whole_slices x) \<longrightarrow> 0 \<le> used_slices l gid \<and> used_slices l gid \<le> slots)"
proof -
  let ?cv = "top_bound(gid := max 0 (min cap (2 ^ 63 - 1)))" and ?cs = "top_bound(gid := max 0 (min slots (2 ^ 63 - 1)))"
  have b: "books_ok l" using run_books assms(1,2) by simp
  have bd: "op_bounded ?cv ?cs x" if "x \<in> set ops" for x
  proof -
    have "op_bounded (top_bound(gid := min cap (2 ^ 63 - 1))) (top_bound(gid := min slots (2 ^ 63 - 1))) x"
    proof (rule bounded_at)
      fix h
      assume "x = Register h" "gpu_id h = gid"
      then show "total_vram h \<le> cap \<and> max 1 (total_slices h) \<le> slots" using assms(4) that by fastforce
    qed (use assms(1) that in blast)
    then show ?thesis by (auto simp: op_bounded_def split: ledger_op.splits if_splits)
  qed
  have r: "0 \<le> ?cv i \<and> ?cv i < 2 ^ 63" "0 \<le> ?cs i \<and> ?cs i < 2 ^ 63" for i
    using top_bound_range by auto
  have v: "within_totals total_vram res_vram ?cv l"
    unfolding assms(2) using run_vram [of ops ?cv ?cs, OF _ r(1)] assms(1) bd by simp
  note ok = gpu_okD [OF b assms(3)]
  have tot: "total_vram g \<le> max 0 cap" using v assms(3) unfolding within_totals_def by fastforce
  have vram: "0 \<le> used_vram l gid \<and> used_vram l gid \<le> cap"
    using v tot ok unfolding within_totals_def used_vram_def by (auto dest: spec [of _ gid])
  have free: "free_vram gid l = Inr (total_vram g - used_vram l gid)"
    using within_exact [OF v assms(3)] ok by (simp add: free_vram_def assms(3) used_vram_def)
  have nxt: "used_vram l' gid \<le> total_vram g" if p: "place req now ns l = Inr (r, l')" "res_gpu r = gid" for req now ns r l'
  proof (rule place_fits [OF _ p(1)])
    show "gpus_ok l" using b by (simp add: books_ok_def)
    fix h
    assume "map_of (gpus l) (res_gpu r) = Some h" "res_vram r \<le> i64 (total_vram h - loop_sum res_vram (bucket l (res_gpu r)))" "0 < res_vram r"
    then show ?thesis
      using within_place(2) [OF v b p(1), of h] gpu_okD [OF b] books_positive [OF b] p(2) assms(3) by (simp add: used_vram_def)
  qed
  have slices: "0 \<le> used_slices l gid \<and> used_slices l gid \<le> slots" if "\<forall>x \<in> set ops. whole_slices x"
  proof -
    have s: "within_totals total_slices res_slices ?cs l"
      using run_slices [of ops ?cv ?cs, OF _ r(2)] assms(1,2) bd that by auto
    then have "total_slices g \<le> max 0 slots" using assms(3) unfolding within_totals_def by fastforce
    then show ?thesis using s ok unfolding within_totals_def used_slices_def by (auto dest: spec [of _ gid])
  qed
  show ?thesis using vram free nxt slices by blast
qed

text \<open>
  C32: after any sequence of calls in which no placement asked for a negative number of slices, a well-formed request either gets
  the best eligible GPU, by the key (outside the preferred NVLink group, free VRAM, id), or fails with \<open>ErrNoCapacity\<close>
  exactly when no GPU is eligible; it never panics. This is the order the code sorts by, not the one the comment above \<open>Place\<close>
  announces: a GPU locked to the tenant has no precedence over a shared one, and equal candidates do not go round-robin but to
  the smallest id.
\<close>

theorem place_picks_best:
  assumes "\<forall>x \<in> set ops. typed_op x \<and> whole_slices x" "l = fold ledger_exec ops new_ledger"
    and "req_model req \<noteq> []" "0 < vram_bytes (req_profile req)"
  shows "case place req now ns l of
      Inl e \<Rightarrow> e = NoCapacity \<and> (\<nexists>g. eligible req l g)
    | Inr (r, l') \<Rightarrow> \<exists>g. eligible req l g \<and> res_gpu r = gpu_id g \<and> res_profile r = req_profile req \<and>
        (\<forall>h. eligible req l h \<longrightarrow> fit_key req l g \<le> fit_key req l h)"
proof -
  note run = run_candidates [OF assms(1), folded assms(2)]
  show ?thesis
  proof (cases "sort_by (cand_less req) (candidates req l)")
    case Nil
    then have "candidates req l = []" by simp
    then have "\<nexists>g. eligible req l g" using run(2) by fastforce
    with Nil show ?thesis using assms(3,4) by (simp add: place_def)
  next
    case (Cons c cs)
    then have c: "c \<in> set (candidates req l)" by (metis list.set_intros(1) set_sort_by)
    have b: "books_ok l" using run_books assms(1,2) by simp
    obtain m where m: "map_of (by_gpu l) (gpu_id (fst c)) = Some m"
      using books_bucket [OF b] run(1) [OF c] by blast
    have "fit_key req l (fst c) \<le> fit_key req l h" if h: "eligible req l h" for h
    proof -
      obtain d where d: "d \<in> set (candidates req l)" "fst d = h" using run(2) [OF h] by blast
      have "cand_key req c \<le> cand_key req d"
        using hd_sort_by_key [of "cand_less req" "cand_key req", OF cand_less_key d(1)] Cons by simp
      then show ?thesis using run(1) [OF c] run(1) [OF d(1)] d(2) by simp
    qed
    then show ?thesis using run(1) [OF c] Cons m assms(3,4) by (auto simp: place_def Let_def)
  qed
qed

text \<open>
  The placement does not depend on the order in which Go ranges over the ledger's maps.
\<close>

theorem place_order_independent:
  assumes "gpus_ok l" "same_maps l k"
  shows "map_sum id fst (place req now ns l) = map_sum id fst (place req now ns k)"
proof (cases "candidates req l = []")
  case True
  then have "candidates req k = []" using candidates_same_maps [OF assms(2), of req] by simp
  with True show ?thesis by (simp add: place_def)
next
  case False
  have hd: "hd (sort_by (cand_less req) (candidates req l)) = hd (sort_by (cand_less req) (candidates req k))"
    by (rule hd_sort_by_perm [of _ "cand_key req", OF cand_less_key candidates_same_maps [OF assms(2)] False])
      (simp add: candidates_inj [OF assms(1)])
  have "candidates req k \<noteq> []" using False candidates_same_maps [OF assms(2), of req] by auto
  then obtain c cs ds where cd: "sort_by (cand_less req) (candidates req l) = c # cs"
    "sort_by (cand_less req) (candidates req k) = c # ds"
    using hd False by (metis list.collapse sort_by_Nil_iff)
  have "map_of (by_gpu l) (gpu_id (fst c)) = None \<longleftrightarrow> map_of (by_gpu k) (gpu_id (fst c)) = None"
    using assms(2) unfolding same_maps_def by (metis domIff)
  then show ?thesis
    using cd by (auto simp: place_def Let_def split: option.splits)
qed

text \<open>
  Releasing a reservation right after it was placed gives back the ledger's view from
  before: the same live reservations and the same free VRAM on every GPU; releasing it a second
  time changes nothing.
\<close>

theorem place_release_roundtrip:
  assumes "ledger_inv l" "place req now ns l = Inr (r, l')" "map_of (resv l) (res_id r) = None"
  shows "map_of (resv (release (res_id r) l')) = map_of (resv l) \<and>
    spare_vram (release (res_id r) l') = spare_vram l \<and>
    release (res_id r) (release (res_id r) l') = release (res_id r) l'"
  using lg.place_release [of l "(req, now, ns)" r l'] lg.release_again assms by simp

subsection \<open>A concrete ledger\<close>

definition demo_gpu :: "string \<Rightarrow> int \<Rightarrow> string \<Rightarrow> gpu" where
  "demo_gpu i v t = \<lparr>gpu_id = i, sku = ''L4'', total_vram = v, total_slices = 7, numa_node = 0,
     nvlink_group = [], gpu_tenant = t\<rparr>"

definition demo_request :: "string \<Rightarrow> int \<Rightarrow> int \<Rightarrow> placement_request" where
  "demo_request t v n = \<lparr>req_model = ''m'', req_version = ''1'', req_tenant = t, req_pipeline = ''p'',
     req_profile = \<lparr>prof_name = ''1g'', vram_bytes = v, slices_used = n\<rparr>, prefer_nvlink = [],
     prefer_sku = [], req_hold_for = 0\<rparr>"

definition demo_ops :: "ledger_op list" where
  "demo_ops = [Register (demo_gpu ''a'' 100 ''t''), Register (demo_gpu ''b'' 80 [])]"

definition demo_placed_ops :: "ledger_op list" where
  "demo_placed_ops = demo_ops @ [Placement (demo_request ''t'' 40 2) 5 9]"

definition demo_ledger :: ledger where
  "demo_ledger = fold ledger_exec demo_ops new_ledger"

definition demo_placed :: ledger where
  "demo_placed = snd (projr (place (demo_request ''t'' 40 2) 5 9 demo_ledger))"

lemma demo_place: "place (demo_request ''t'' 40 2) 5 9 demo_ledger =
    Inr (fst (projr (place (demo_request ''t'' 40 2) 5 9 demo_ledger)), demo_placed)"
  by code_simp

lemma demo_inv: "ledger_inv demo_ledger"
proof -
  have r1: "register_gpu (demo_gpu ''a'' 100 ''t'') new_ledger = Inr (ledger_exec (Register (demo_gpu ''a'' 100 ''t'')) new_ledger)"
    by code_simp
  have r2: "register_gpu (demo_gpu ''b'' 80 []) (ledger_exec (Register (demo_gpu ''a'' 100 ''t'')) new_ledger) = Inr demo_ledger"
    by code_simp
  show ?thesis
    by (rule ledger_inv_register [OF ledger_inv_register [OF ledger_inv_new r1] r2]; code_simp)
qed

text \<open>
  Two registrations and a placement of 40 of GPU \<open>b\<close>'s 80: 40 are left, and a second placement of 40 fills it.
\<close>

theorem ledger_capacity_witness:
  "used_vram demo_placed ''b'' \<le> 80 \<and> free_vram ''b'' demo_placed = Inr 40 \<and> used_slices demo_placed ''b'' \<le> 7 \<and>
   used_vram (snd (projr (place (demo_request ''x'' 40 1) 5 10 demo_placed))) ''b'' \<le> 80"
proof -
  have t: "\<forall>x \<in> set demo_placed_ops. typed_op x" by code_simp
  have l: "demo_placed = fold ledger_exec demo_placed_ops new_ledger" by code_simp
  have g: "map_of (gpus demo_placed) ''b'' = Some (demo_gpu ''b'' 80 [])" by code_simp
  have r: "\<forall>x \<in> set demo_placed_ops. case x of Register h \<Rightarrow> gpu_id h = ''b'' \<longrightarrow> total_vram h \<le> 80 \<and> max 1 (total_slices h) \<le> 7 | _ \<Rightarrow> True"
    by code_simp
  have w: "\<forall>x \<in> set demo_placed_ops. whole_slices x" by code_simp
  have u: "used_vram demo_placed ''b'' = 40" by code_simp
  have p: "place (demo_request ''x'' 40 1) 5 10 demo_placed =
      Inr (fst (projr (place (demo_request ''x'' 40 1) 5 10 demo_placed)), snd (projr (place (demo_request ''x'' 40 1) 5 10 demo_placed)))"
    "res_gpu (fst (projr (place (demo_request ''x'' 40 1) 5 10 demo_placed))) = ''b''"
    by code_simp+
  have tv: "total_vram (demo_gpu ''b'' 80 []) = 80" by (simp add: demo_gpu_def)
  note c = ledger_capacity [OF t l g r, simplified tv u, simplified]
  have s: "used_slices demo_placed ''b'' \<le> 7" using c w by blast
  have n: "used_vram (snd (projr (place (demo_request ''x'' 40 1) 5 10 demo_placed))) ''b'' \<le> 80"
    by (rule c [THEN conjunct2, THEN conjunct1, rule_format]) (rule conjI [OF p])
  show ?thesis using c s n u by simp
qed

text \<open>
  The tenant's own GPU \<open>a\<close> has more free VRAM than the shared GPU \<open>b\<close>: the tightest fit wins, so
  the request of tenant \<open>t\<close> goes to \<open>b\<close>, not to the tenant-locked GPU.
\<close>

theorem place_picks_best_witness:
  "\<exists>r l'. place (demo_request ''t'' 40 2) 5 9 demo_ledger = Inr (r, l') \<and> res_gpu r = ''b''"
proof -
  have q: "req_model (demo_request ''t'' 40 2) \<noteq> []" "0 < vram_bytes (req_profile (demo_request ''t'' 40 2))"
    by (simp_all add: demo_request_def)
  have t: "\<forall>x \<in> set demo_ops. typed_op x \<and> whole_slices x" by code_simp
  note b = place_picks_best [OF t demo_ledger_def q, of 5 9]
  have "eligible (demo_request ''t'' 40 2) demo_ledger (demo_gpu ''b'' 80 [])" by code_simp
  then obtain r l' where r: "place (demo_request ''t'' 40 2) 5 9 demo_ledger = Inr (r, l')"
    using b by (auto split: sum.splits)
  have "res_gpu (fst (projr (place (demo_request ''t'' 40 2) 5 9 demo_ledger))) = ''b''" by code_simp
  with r show ?thesis by simp
qed

theorem place_order_independent_witness:
  "map_sum id fst (place (demo_request ''t'' 40 2) 5 9 demo_ledger) =
   map_sum id fst (place (demo_request ''t'' 40 2) 5 9
     (demo_ledger\<lparr>gpus := rev (gpus demo_ledger), by_gpu := rev (by_gpu demo_ledger)\<rparr>))"
proof -
  have d: "distinct (map fst (by_gpu demo_ledger))" by code_simp
  have "map_of (rev (by_gpu demo_ledger)) = map_of (by_gpu demo_ledger)"
    by (rule perm_map_of [symmetric]) (simp_all add: d)
  then have m: "same_maps demo_ledger
      (demo_ledger\<lparr>gpus := rev (gpus demo_ledger), by_gpu := rev (by_gpu demo_ledger)\<rparr>)"
    by (simp add: same_maps_def bucket_def)
  have "gpus_ok demo_ledger"
    using demo_inv unfolding ledger_inv_def gpus_ok_def by blast
  then show ?thesis using m by (rule place_order_independent)
qed

theorem place_release_roundtrip_witness:
  "spare_vram (release (res_id (fst (projr (place (demo_request ''t'' 40 2) 5 9 demo_ledger)))) demo_placed)
   = spare_vram demo_ledger"
proof -
  have "map_of (resv demo_ledger)
      (res_id (fst (projr (place (demo_request ''t'' 40 2) 5 9 demo_ledger)))) = None"
    by code_simp
  then show ?thesis using place_release_roundtrip [OF demo_inv demo_place] by blast
qed

text \<open>
  Nothing compares a second registration of a GPU with what is reserved on it: the GPU is then over-committed, and
  \<open>FreeVRAM\<close> reports a negative amount.
\<close>

lemma shrunk_gpu_is_overcommitted:
  "free_vram ''b'' (ledger_exec (Register (demo_gpu ''b'' 30 [])) demo_placed) = Inr (- 10)"
  by code_simp

text \<open>
  Without the guard on slice counts the over-commitment is real: a profile with a negative slice
  count is accepted, makes room for one that is larger than the GPU, and its release leaves the
  GPU with 14 of 7 slices reserved.
\<close>

lemma negative_slices_overcommit:
  "let l1 = snd (projr (place (demo_request ''x'' 1 (- 7)) 5 1 demo_ledger));
       rid = res_id (fst (projr (place (demo_request ''x'' 1 (- 7)) 5 1 demo_ledger)));
       l2 = snd (projr (place (demo_request ''x'' 1 14) 5 2 l1))
   in used_slices (release rid l2) ''b'' = 14"
  by code_simp

text \<open>
  Two placements whose ids collide (models that differ in letter case only, in the same
  nanosecond) leave one live reservation: the VRAM of the first is given away twice.
\<close>

lemma id_collision_loses_reservation:
  "let l1 = snd (projr (place (demo_request ''x'' 40 1) 5 1 demo_ledger));
       l2 = snd (projr (place ((demo_request ''x'' 40 1)\<lparr>req_model := ''M''\<rparr>) 5 1 l1))
   in length (resv l2) = 1 \<and> used_vram l2 ''b'' = 40"
  by code_simp

end
