(* ===== verification/BoundedLog.thy ===== *)
theory BoundedLog
  imports Prelude
begin

section \<open>The interface of a bounded log\<close>

text \<open>
  Two components keep only the most recent part of what is appended to them: the edge queue (by
  item count and bytes) and the event ring (by event count). Their common contract is that an
  append leaves the longest suffix that fits the bounds; the client's view of many appends is
  proved once, here.
\<close>

fun longest_suffix :: "('x list \<Rightarrow> bool) \<Rightarrow> 'x list \<Rightarrow> 'x list" where
  "longest_suffix fits [] = []"
| "longest_suffix fits (x # xs) = (if fits (x # xs) then x # xs else longest_suffix fits xs)"

lemma longest_suffix_suffix: "suffix (longest_suffix fits xs) xs"
  by (induction xs) (auto intro: suffix_ConsI)

lemma longest_suffix_fits: "fits [] \<Longrightarrow> fits (longest_suffix fits xs)"
  by (induction xs) auto

lemma longest_suffix_id: "fits xs \<Longrightarrow> longest_suffix fits xs = xs"
  by (cases xs) auto

lemma longest_suffix_longest: "suffix ys xs \<Longrightarrow> fits ys \<Longrightarrow> length ys \<le> length (longest_suffix fits xs)"
  by (induction xs) (auto simp: suffix_Cons dest: suffix_length_le)

lemma longest_suffix_drop: "\<exists>k. longest_suffix fits xs = drop k xs \<and> k \<le> length xs"
  using longest_suffix_suffix [of fits xs] by (metis suffix_def append_eq_conv_conj le_add1 length_append)

lemma longest_suffix_map: "longest_suffix fits (map f xs) = map f (longest_suffix (\<lambda>ys. fits (map f ys)) xs)"
  by (induction xs) auto

locale bounded_log =
  fixes inv :: "'s \<Rightarrow> bool"
    and append_op :: "'x \<Rightarrow> 's \<Rightarrow> 's"
    and contents :: "'s \<Rightarrow> 'x list"
    and fits :: "'s \<Rightarrow> 'x list \<Rightarrow> bool"
  assumes inv_append: "inv s \<Longrightarrow> inv (append_op x s)"
    and append_contents: "inv s \<Longrightarrow> contents (append_op x s) = longest_suffix (fits s) (contents s @ [x])"
    and append_bounds: "inv s \<Longrightarrow> fits (append_op x s) = fits s"
    and fits_Nil: "inv s \<Longrightarrow> fits s []"
    and fits_prefix: "inv s \<Longrightarrow> fits s (xs @ ys) \<Longrightarrow> fits s xs"
begin

lemma longest_suffix_again:
  assumes "inv s"
  shows "longest_suffix (fits s) (longest_suffix (fits s) xs @ ys) = longest_suffix (fits s) (xs @ ys)"
proof (induction xs)
  case (Cons x xs)
  then show ?case using fits_prefix [OF assms, of "x # xs" ys] by auto
qed simp

lemma append_all:
  "inv s \<Longrightarrow> xs \<noteq> [] \<Longrightarrow>
   inv (fold append_op xs s) \<and> fits (fold append_op xs s) = fits s \<and>
   contents (fold append_op xs s) = longest_suffix (fits s) (contents s @ xs)"
proof (induction xs arbitrary: s)
  case (Cons x xs)
  let ?s = "append_op x s"
  have s: "inv ?s" "fits ?s = fits s" "contents ?s = longest_suffix (fits s) (contents s @ [x])"
    using Cons.prems inv_append append_bounds append_contents by auto
  show ?case
  proof (cases "xs = []")
    case False
    have "contents (fold append_op xs ?s) = longest_suffix (fits s) (contents ?s @ xs)"
      using Cons.IH [OF s(1) False] s(2) by simp
    also have "\<dots> = longest_suffix (fits s) ((contents s @ [x]) @ xs)"
      using longest_suffix_again [OF Cons.prems(1), of "contents s @ [x]" xs] s(3) by simp
    finally show ?thesis using Cons.IH [OF s(1) False] s(2) by simp
  qed (use s in simp)
qed simp

end

end
