(* ===== verification/EdgeQueue.thy ===== *)
theory EdgeQueue
  imports BoundedLog
begin

section \<open>edge-gateway: the store-and-forward queue\<close>

text \<open>
  Model of \<open>services/edge-gateway/internal/queue/queue.go\<close>: a disk-backed FIFO with item and
  byte caps. Every exported method holds the queue's mutex, so it is one function from state to
  state. The directory is the map \<open>disk\<close> from sequence numbers to file contents: the names are
  the zero-padded sequence numbers, so the order of \<open>sort.Strings\<close> on them is the numeric order,
  and the directory is taken to hold the queue's own files only. A byte is a \<open>char\<close>.

  Failures of the file system are inputs: \<open>fault\<close> says whether opening fails, or a write or the
  final sync fails after a prefix of the file has been written. A slice expression that Go would
  refuse at run time gives \<open>None\<close> (a panic). \<open>os.ReadFile\<close> may return a slice with spare capacity
  and Go bounds a slice expression by the capacity, so the capacity is the parameter \<open>cap\<close>, a
  function of the file's length; the spare bytes are zero. Sequence numbers and byte counts are
  unbounded here: 2^64 calls of \<open>Put\<close> and 2^63 bytes of queued data are out of reach.
\<close>

type_synonym bytes = string

record item =
  seq :: nat
  subject :: string
  data :: bytes
  added_at :: time

record queue =
  next_seq :: nat
  items :: "item list"
  max_items :: nat
  max_bytes :: int
  cur_bytes :: int
  disk :: "(nat \<times> bytes) list"

datatype fault = NoFault | OpenFails | WriteFails nat

datatype queue_error = DirRequired | FileExists | OpenError | WriteError

subsection \<open>File format: [u16 subjectLen][subject][u32 dataLen][data]\<close>

definition u16 :: "nat \<Rightarrow> nat" where "u16 n = n mod 2 ^ 16"

definition byte_of :: "nat \<Rightarrow> char" where "byte_of n = char_of (n mod 256)"

definition be16 :: "nat \<Rightarrow> bytes" where
  "be16 n = [byte_of (n div 256), byte_of n]"

definition be32 :: "nat \<Rightarrow> bytes" where
  "be32 n = [byte_of (n div 2 ^ 24), byte_of (n div 2 ^ 16), byte_of (n div 2 ^ 8), byte_of n]"

definition be_value :: "bytes \<Rightarrow> nat" where
  "be_value bs = foldl (\<lambda>acc b. acc * 256 + of_char b) 0 bs"

definition encode_item :: "string \<Rightarrow> bytes \<Rightarrow> bytes" where
  "encode_item s d = be16 (length s) @ s @ be32 (length d) @ d"

definition persist :: "fault \<Rightarrow> item \<Rightarrow> (nat \<times> bytes) list \<Rightarrow> queue_error option \<times> (nat \<times> bytes) list" where
  "persist fl it d =
     (let body = encode_item (subject it) (data it) in
      if fl = OpenFails then (Some OpenError, d)
      else if map_of d (seq it) \<noteq> None then (Some FileExists, d)
      else case fl of
        WriteFails k \<Rightarrow> (Some WriteError, AList.update (seq it) (take k body) d)
      | _ \<Rightarrow> (None, AList.update (seq it) body d))"

definition slice :: "(nat \<Rightarrow> nat) \<Rightarrow> bytes \<Rightarrow> nat \<Rightarrow> nat \<Rightarrow> bytes option" where
  "slice cap b lo hi =
     (let n = max (length b) (cap (length b)) in
      if lo \<le> hi \<and> hi \<le> n
      then Some (take (hi - lo) (drop lo (b @ replicate (n - length b) (CHR 0x00))))
      else None)"

subsection \<open>Operations\<close>

fun drop_excess :: "nat \<Rightarrow> int \<Rightarrow> item list \<Rightarrow> int \<Rightarrow> (nat \<times> bytes) list
    \<Rightarrow> item list \<times> int \<times> (nat \<times> bytes) list" where
  "drop_excess mi mb [] cb d = ([], cb, d)"
| "drop_excess mi mb (v # its) cb d =
     (if mi < length (v # its) \<or> mb < cb
      then drop_excess mi mb its (cb - int (length (data v))) (AList.delete (seq v) d)
      else (v # its, cb, d))"

definition drop_excess_locked :: "queue \<Rightarrow> queue" where
  "drop_excess_locked q =
     (case drop_excess (max_items q) (max_bytes q) (items q) (cur_bytes q) (disk q) of
        (its, cb, d) \<Rightarrow> q\<lparr>items := its, cur_bytes := cb, disk := d\<rparr>)"

definition put :: "fault \<Rightarrow> time \<Rightarrow> string \<Rightarrow> bytes \<Rightarrow> queue \<Rightarrow> (queue_error + nat) \<times> queue" where
  "put fl now s b q =
     (let n = next_seq q + 1;
          it = \<lparr>seq = n, subject = s, data = b, added_at = now\<rparr> in
      case persist fl it (disk q) of
        (Some e, d) \<Rightarrow> (Inl e, q\<lparr>disk := d\<rparr>)
      | (None, d) \<Rightarrow>
          (Inr n, drop_excess_locked
             (q\<lparr>next_seq := n, items := items q @ [it],
                cur_bytes := cur_bytes q + int (length b), disk := d\<rparr>)))"

definition peek :: "int \<Rightarrow> queue \<Rightarrow> item list" where
  "peek n q = take (nat (if n \<le> 0 then 32 else n)) (items q)"

definition ack_through :: "nat \<Rightarrow> queue \<Rightarrow> queue" where
  "ack_through up q =
     (let idx = search (length (items q)) (\<lambda>i. up < seq (items q ! i));
          gone = take idx (items q) in
      q\<lparr>items := drop idx (items q),
        cur_bytes := foldl (\<lambda>c it. c - int (length (data it))) (cur_bytes q) gone,
        disk := foldl (\<lambda>d it. AList.delete (seq it) d) (disk q) gone\<rparr>)"

definition depth :: "queue \<Rightarrow> nat" where
  "depth q = length (items q)"

text \<open>
  \<open>Drain\<close>. The context and the forwarding function are inputs that may answer differently on
  every call: they see the items forwarded so far. The result is the error (None for nil), the
  items forwarded successfully, and the queue. The loop runs until the queue is empty or an
  error ends it; a run that does not return is \<open>None\<close>.
\<close>

fun drain_batch :: "(item list \<Rightarrow> 'e option) \<Rightarrow> (item list \<Rightarrow> item \<Rightarrow> 'e option) \<Rightarrow>
    item list \<Rightarrow> nat \<Rightarrow> item list \<Rightarrow> 'e option \<times> nat \<times> item list" where
  "drain_batch ctx fn [] last_ack sent = (None, last_ack, sent)"
| "drain_batch ctx fn (it # its) last_ack sent =
     (case ctx sent of
        Some e \<Rightarrow> (Some e, last_ack, sent)
      | None \<Rightarrow>
          (case fn sent it of
             Some e \<Rightarrow> (Some e, last_ack, sent)
           | None \<Rightarrow> drain_batch ctx fn its (seq it) (sent @ [it])))"

partial_function (option) drain :: "(item list \<Rightarrow> 'e option) \<Rightarrow> (item list \<Rightarrow> item \<Rightarrow> 'e option) \<Rightarrow>
    item list \<Rightarrow> queue \<Rightarrow> ('e option \<times> item list \<times> queue) option" where
  "drain ctx fn sent q =
     (case peek 64 q of
        [] \<Rightarrow> Some (None, sent, q)
      | b # bs \<Rightarrow>
          (case drain_batch ctx fn (b # bs) 0 sent of
             (Some e, last_ack, sent') \<Rightarrow> Some (Some e, sent', ack_through last_ack q)
           | (None, last_ack, sent') \<Rightarrow> drain ctx fn sent' (ack_through last_ack q)))"

subsection \<open>Boot\<close>

fun replay_file :: "(nat \<Rightarrow> nat) \<Rightarrow> queue \<Rightarrow> nat \<times> bytes \<Rightarrow> queue option" where
  "replay_file cap q (n, body) =
     (if length body < 6 then Some q
      else
        let sl = be_value (take 2 body) in
        if length body < u16 (u16 (2 + sl) + 4) then Some q
        else case slice cap body 2 (u16 (2 + sl)) of None \<Rightarrow> None | Some subj \<Rightarrow>
          (case slice cap body (u16 (2 + sl)) (u16 (6 + sl)) of None \<Rightarrow> None | Some lb \<Rightarrow>
            let dl = be_value lb in
            (case slice cap body (u16 (6 + sl)) (u16 (u16 (6 + sl) + u16 dl)) of None \<Rightarrow> None | Some d \<Rightarrow>
               Some (q\<lparr>items := items q @ [\<lparr>seq = n, subject = subj, data = d, added_at = 0\<rparr>],
                       cur_bytes := cur_bytes q + int (length d),
                       next_seq := (if next_seq q < n then n else next_seq q)\<rparr>))))"

fun replay :: "(nat \<Rightarrow> nat) \<Rightarrow> queue \<Rightarrow> (nat \<times> bytes) list \<Rightarrow> queue option" where
  "replay cap q [] = Some q"
| "replay cap q (f # fs) =
     (case replay_file cap q f of None \<Rightarrow> None | Some q' \<Rightarrow> replay cap q' fs)"

definition new_queue :: "(nat \<Rightarrow> nat) \<Rightarrow> string \<Rightarrow> int \<Rightarrow> int \<Rightarrow> (nat \<times> bytes) list
    \<Rightarrow> queue_error + queue option" where
  "new_queue cap dir mi mb d =
     (if dir = [] then Inl DirRequired
      else Inr (replay cap
        \<lparr>next_seq = 0, items = [], max_items = nat (if mi \<le> 0 then 100000 else mi),
         max_bytes = (if mb \<le> 0 then 2 ^ 30 else mb), cur_bytes = 0, disk = d\<rparr>
        (sort_by (\<lambda>a b. fst a < fst b) d)))"

subsection \<open>Numbers and slices\<close>

lemma of_char_byte_of [simp]: "(of_char (byte_of n) :: nat) = n mod 256"
  by (simp add: byte_of_def)

lemma be16_value [simp]: "be_value (be16 n) = n mod 2 ^ 16"
proof -
  have "n mod 65536 = n div 256 mod 256 * 256 + n mod 256"
    using mod_mult2_eq [of n 256 256] by (simp add: mult.commute)
  then show ?thesis by (simp add: be_value_def be16_def)
qed

lemma be32_value [simp]: "be_value (be32 n) = n mod 2 ^ 32"
proof -
  have a: "n mod (256 * 16777216) = 16777216 * (n div 16777216 mod 256) + n mod 16777216" for n :: nat
    using mod_mult2_eq [of n 16777216 256] by (simp add: mult.commute)
  have b: "n mod (256 * 65536) = 65536 * (n div 65536 mod 256) + n mod 65536" for n :: nat
    using mod_mult2_eq [of n 65536 256] by (simp add: mult.commute)
  have c: "n mod (256 * 256) = 256 * (n div 256 mod 256) + n mod 256" for n :: nat
    by (rule mod_mult2_eq [of n 256 256])
  from a [of n] b [of n] c [of n] show ?thesis by (simp add: be_value_def be32_def)
qed

lemma length_be [simp]: "length (be16 n) = 2" "length (be32 n) = 4"
  by (simp_all add: be16_def be32_def)

lemma slice_inside:
  "lo \<le> hi \<Longrightarrow> hi \<le> length b \<Longrightarrow> slice cap b lo hi = Some (take (hi - lo) (drop lo b))"
  by (simp add: slice_def Let_def)

lemma slice_panics: "hi < lo \<Longrightarrow> slice cap b lo hi = None"
  by (simp add: slice_def)

lemma length_encode_item [simp]: "length (encode_item s d) = 6 + length s + length d"
  by (simp add: encode_item_def)

lemma encode_item_parts:
  "take 2 (encode_item s d) = be16 (length s)"
  "drop 2 (encode_item s d) = s @ be32 (length d) @ d"
  "drop (2 + length s) (encode_item s d) = be32 (length d) @ d"
  "drop (6 + length s) (encode_item s d) = d"
proof -
  show d2: "drop 2 (encode_item s d) = s @ be32 (length d) @ d"
    "take 2 (encode_item s d) = be16 (length s)"
    by (simp_all add: encode_item_def)
  have "drop (2 + length s) (encode_item s d) = drop (length s) (drop 2 (encode_item s d))"
    by (simp add: add.commute)
  then show d3: "drop (2 + length s) (encode_item s d) = be32 (length d) @ d" by (simp add: d2)
  have "6 + length s = 4 + (2 + length s)" by simp
  then have "drop (6 + length s) (encode_item s d) = drop 4 (drop (2 + length s) (encode_item s d))"
    by (simp only: drop_drop)
  then show "drop (6 + length s) (encode_item s d) = d" unfolding d3 by simp
qed

text \<open>The three behaviours of the boot scan on a file that was written completely.\<close>

lemma replay_file_encoded:
  assumes "6 + length s < 2 ^ 16" "length d < 2 ^ 32"
  shows "replay_file cap q (n, encode_item s d) =
    (if 6 + length s + length d mod 2 ^ 16 < 2 ^ 16 then
       Some (q\<lparr>items := items q @ [\<lparr>seq = n, subject = s, data = take (length d mod 2 ^ 16) d, added_at = 0\<rparr>],
               cur_bytes := cur_bytes q + int (length d mod 2 ^ 16),
               next_seq := max (next_seq q) n\<rparr>)
     else None)"
proof -
  let ?b = "encode_item s d" and ?l = "length d mod 2 ^ 16"
  have sl: "length s mod 2 ^ 16 = length s" "length s mod 65536 = length s"
    and dl: "length d mod 2 ^ 32 = length d" "length d mod 4294967296 = length d" using assms by auto
  have u: "u16 (2 + length s) = 2 + length s" "u16 (2 + length s + 4) = 6 + length s"
    "u16 (6 + length s) = 6 + length s" "u16 (length d) = ?l"
    using assms(1) by (simp_all add: u16_def)
  have le: "?l \<le> length d" by (rule mod_less_eq_dividend)
  have s1: "slice cap ?b 2 (2 + length s) = Some s"
    by (subst slice_inside) (auto simp: encode_item_parts)
  have s2: "slice cap ?b (2 + length s) (6 + length s) = Some (be32 (length d))"
    by (subst slice_inside, simp, simp, unfold encode_item_parts(3)) simp
  have s3: "slice cap ?b (6 + length s) (u16 (6 + length s + ?l)) =
      (if 6 + length s + ?l < 2 ^ 16 then Some (take ?l d) else None)"
  proof (cases "6 + length s + ?l < 2 ^ 16")
    case True
    then have "u16 (6 + length s + ?l) = 6 + length s + ?l" by (simp add: u16_def)
    with True le show ?thesis by (simp add: slice_inside encode_item_parts)
  next
    case False
    have "?l < 2 ^ 16" by simp
    then have "6 + length s + ?l < 2 ^ 16 + 2 ^ 16" using assms(1) by linarith
    then have "u16 (6 + length s + ?l) = 6 + length s + ?l - 2 ^ 16"
      unfolding u16_def by (intro mod_wrap_once) (use False in linarith)+
    then have "u16 (6 + length s + ?l) < 6 + length s" using \<open>?l < 2 ^ 16\<close> False by linarith
    with False show ?thesis by (simp add: slice_panics)
  qed
  have sv: "be_value (take 2 ?b) = length s" using sl by (simp add: encode_item_parts)
  have dv: "be_value (be32 (length d)) = length d" using dl by simp
  show ?thesis
    using s1 s2 s3 le unfolding replay_file.simps Let_def sv u dv
    by (auto simp: dl u max_def)
qed

subsection \<open>The queue invariant\<close>

definition bytes_of :: "item list \<Rightarrow> int" where
  "bytes_of its = sum_list (map (\<lambda>it. int (length (data it))) its)"

lemma bytes_of_simps [simp]:
  "bytes_of [] = 0" "bytes_of (it # its) = int (length (data it)) + bytes_of its"
  "bytes_of (its @ jts) = bytes_of its + bytes_of jts"
  by (simp_all add: bytes_of_def)

lemma bytes_of_nonneg [simp]: "0 \<le> bytes_of its"
  by (induction its) auto

definition fits_caps :: "nat \<Rightarrow> int \<Rightarrow> item list \<Rightarrow> bool" where
  "fits_caps mi mb its \<longleftrightarrow> length its \<le> mi \<and> bytes_of its \<le> mb"

definition erase :: "item list \<Rightarrow> (nat \<times> bytes) list \<Rightarrow> (nat \<times> bytes) list" where
  "erase its d = foldl (\<lambda>d it. AList.delete (seq it) d) d its"

lemma erase_simps [simp]:
  "erase [] d = d" "erase (it # its) d = erase its (AList.delete (seq it) d)"
  by (simp_all add: erase_def)

lemma map_of_erase: "map_of (erase its d) n = (if n \<in> seq ` set its then None else map_of d n)"
  by (induction its arbitrary: d) auto

lemma distinct_erase: "distinct (map fst d) \<Longrightarrow> distinct (map fst (erase its d))"
  by (induction its arbitrary: d) (auto simp: distinct_delete)

lemma foldl_bytes: "foldl (\<lambda>c it. c - int (length (data it))) cb its = cb - bytes_of its"
  by (induction its arbitrary: cb) auto

lemma drop_excess_eq:
  "cb = bytes_of its \<Longrightarrow> 0 \<le> mb \<Longrightarrow>
   \<exists>k \<le> length its. drop k its = longest_suffix (fits_caps mi mb) its \<and>
     drop_excess mi mb its cb d = (drop k its, bytes_of (drop k its), erase (take k its) d)"
proof (induction its arbitrary: cb d)
  case (Cons v its)
  show ?case
  proof (cases "fits_caps mi mb (v # its)")
    case True
    with Cons.prems show ?thesis by (intro exI [of _ 0]) (auto simp: fits_caps_def)
  next
    case False
    then have "mi < length (v # its) \<or> mb < cb" using Cons.prems(1) by (auto simp: fits_caps_def)
    moreover obtain k where "k \<le> length its" "drop k its = longest_suffix (fits_caps mi mb) its"
      "drop_excess mi mb its (cb - int (length (data v))) (AList.delete (seq v) d)
        = (drop k its, bytes_of (drop k its), erase (take k its) (AList.delete (seq v) d))"
      using Cons.IH [of "cb - int (length (data v))" "AList.delete (seq v) d"] Cons.prems by auto
    ultimately show ?thesis using False by (intro exI [of _ "Suc k"]) auto
  qed
qed auto

definition queue_inv :: "queue \<Rightarrow> bool" where
  "queue_inv q \<longleftrightarrow> sorted_wrt (<) (map seq (items q)) \<and>
     (\<forall>it \<in> set (items q). 0 < seq it \<and> seq it \<le> next_seq q \<and>
        map_of (disk q) (seq it) = Some (encode_item (subject it) (data it))) \<and>
     cur_bytes q = bytes_of (items q) \<and> 0 \<le> max_bytes q \<and> distinct (map fst (disk q))"

text \<open>No file is left over from a failed write; every file belongs to a queued item.\<close>

definition clean :: "queue \<Rightarrow> bool" where
  "clean q \<longleftrightarrow> fst ` set (disk q) = seq ` set (items q)"

definition within_caps :: "queue \<Rightarrow> bool" where
  "within_caps q \<longleftrightarrow> fits_caps (max_items q) (max_bytes q) (items q)"

lemma queue_inv_drop:
  assumes "queue_inv q" "k \<le> length (items q)"
  shows "queue_inv (q\<lparr>items := drop k (items q), cur_bytes := bytes_of (drop k (items q)),
    disk := erase (take k (items q)) (disk q)\<rparr>)"
proof -
  have srt: "sorted_wrt (<) (map seq (take k (items q) @ drop k (items q)))"
    using assms(1) by (simp add: queue_inv_def)
  have "seq it \<notin> seq ` set (take k (items q))" if "it \<in> set (drop k (items q))" for it
    using srt that unfolding map_append sorted_wrt_append by force
  then show ?thesis
    using assms srt unfolding queue_inv_def map_append sorted_wrt_append
    by (auto simp: map_of_erase distinct_erase dest: in_set_dropD)
qed

lemma clean_drop:
  assumes "queue_inv q" "clean q"
  shows "clean (q\<lparr>items := drop k (items q), cur_bytes := c, disk := erase (take k (items q)) (disk q)\<rparr>)"
proof -
  have srt: "sorted_wrt (<) (map seq (take k (items q) @ drop k (items q)))"
    using assms(1) by (simp add: queue_inv_def)
  have "seq ` set (drop k (items q)) \<inter> seq ` set (take k (items q)) = {}"
    using srt unfolding map_append sorted_wrt_append by force
  moreover have "seq ` set (items q) = seq ` set (take k (items q)) \<union> seq ` set (drop k (items q))"
    by (metis append_take_drop_id image_Un set_append)
  moreover have "fst ` set d = dom (map_of d)" for d :: "(nat \<times> bytes) list"
    by (rule dom_map_of_conv_image_fst [symmetric])
  ultimately show ?thesis
    using assms(2) by (auto simp: clean_def map_of_erase dom_def)
qed

lemma drop_excess_locked_eq:
  assumes "queue_inv q"
  obtains k where "k \<le> length (items q)"
    "drop k (items q) = longest_suffix (fits_caps (max_items q) (max_bytes q)) (items q)"
    "drop_excess_locked q = q\<lparr>items := drop k (items q), cur_bytes := bytes_of (drop k (items q)),
       disk := erase (take k (items q)) (disk q)\<rparr>"
  using assms drop_excess_eq [of "cur_bytes q" "items q" "max_bytes q" "max_items q" "disk q"] that
  by (auto simp: queue_inv_def drop_excess_locked_def)

subsection \<open>Put\<close>

text \<open>A file already present under the next number makes every later \<open>Put\<close> fail.\<close>

definition blocked :: "queue \<Rightarrow> bool" where
  "blocked q \<longleftrightarrow> map_of (disk q) (next_seq q + 1) \<noteq> None"

lemma put_blocked:
  assumes "blocked q"
  shows "\<exists>e. put fl now s b q = (Inl e, q)"
  using assms by (cases fl) (auto simp: put_def persist_def blocked_def Let_def)

lemma put_error:
  assumes "fst (put fl now s b q) = Inl e"
  shows "next_seq (snd (put fl now s b q)) = next_seq q" "items (snd (put fl now s b q)) = items q"
  using assms by (auto simp: put_def Let_def split: prod.splits option.splits)

lemma put_ok:
  assumes "queue_inv q" "\<not> blocked q"
  obtains q1 where "q1 = q\<lparr>next_seq := next_seq q + 1,
      items := items q @ [\<lparr>seq = next_seq q + 1, subject = s, data = b, added_at = now\<rparr>],
      cur_bytes := cur_bytes q + int (length b),
      disk := AList.update (next_seq q + 1) (encode_item s b) (disk q)\<rparr>"
    "queue_inv q1" "put NoFault now s b q = (Inr (next_seq q + 1), drop_excess_locked q1)"
proof -
  let ?q = "q\<lparr>next_seq := next_seq q + 1,
      items := items q @ [\<lparr>seq = next_seq q + 1, subject = s, data = b, added_at = now\<rparr>],
      cur_bytes := cur_bytes q + int (length b),
      disk := AList.update (next_seq q + 1) (encode_item s b) (disk q)\<rparr>"
  have "put NoFault now s b q = (Inr (next_seq q + 1), drop_excess_locked ?q)"
    using assms(2) by (simp add: put_def persist_def blocked_def Let_def)
  moreover have "queue_inv ?q"
    using assms(1) by (fastforce simp: queue_inv_def sorted_wrt_append distinct_update)
  ultimately show ?thesis using that by blast
qed

lemma put_ok_items:
  assumes "queue_inv q" "\<not> blocked q" "put NoFault now s b q = (r, q')"
  shows "queue_inv q'" "r = Inr (next_seq q + 1)" "next_seq q' = next_seq q + 1"
    "max_items q' = max_items q" "max_bytes q' = max_bytes q"
    "items q' = longest_suffix (fits_caps (max_items q) (max_bytes q))
       (items q @ [\<lparr>seq = next_seq q + 1, subject = s, data = b, added_at = now\<rparr>])"
    "clean q \<Longrightarrow> clean q'"
    "fst ` set (disk q') \<subseteq> insert (next_seq q + 1) (fst ` set (disk q))"
proof -
  obtain q1 where q1: "q1 = q\<lparr>next_seq := next_seq q + 1,
      items := items q @ [\<lparr>seq = next_seq q + 1, subject = s, data = b, added_at = now\<rparr>],
      cur_bytes := cur_bytes q + int (length b),
      disk := AList.update (next_seq q + 1) (encode_item s b) (disk q)\<rparr>"
    and inv1: "queue_inv q1" and put: "put NoFault now s b q = (Inr (next_seq q + 1), drop_excess_locked q1)"
    using assms(1,2) by (rule put_ok)
  obtain k where k: "k \<le> length (items q1)"
    "drop k (items q1) = longest_suffix (fits_caps (max_items q1) (max_bytes q1)) (items q1)"
    "drop_excess_locked q1 = q1\<lparr>items := drop k (items q1), cur_bytes := bytes_of (drop k (items q1)),
       disk := erase (take k (items q1)) (disk q1)\<rparr>"
    using inv1 by (rule drop_excess_locked_eq)
  have q': "q' = drop_excess_locked q1" "r = Inr (next_seq q + 1)" using assms(3) put by auto
  show "queue_inv q'" unfolding q' k(3) by (rule queue_inv_drop [OF inv1 k(1)])
  show "r = Inr (next_seq q + 1)" by (rule q')
  show "next_seq q' = next_seq q + 1" "max_items q' = max_items q" "max_bytes q' = max_bytes q"
    unfolding q' k(3) by (simp_all add: q1)
  show "items q' = longest_suffix (fits_caps (max_items q) (max_bytes q))
       (items q @ [\<lparr>seq = next_seq q + 1, subject = s, data = b, added_at = now\<rparr>])"
    using k(2) unfolding q' k(3) by (simp add: q1)
  show "clean q'" if "clean q"
  proof -
    have "clean q1" using that by (auto simp: clean_def q1 dom_map_of_conv_image_fst [symmetric] dom_def)
    then show ?thesis unfolding q' k(3) by (rule clean_drop [OF inv1])
  qed
  show "fst ` set (disk q') \<subseteq> insert (next_seq q + 1) (fst ` set (disk q))"
    unfolding q' k(3) by (auto simp: q1 dom_map_of_conv_image_fst [symmetric] map_of_erase dom_def
        split: if_splits)
qed

subsection \<open>Acknowledging\<close>

lemma ack_through_eq:
  assumes "queue_inv q" "k \<le> length (items q)"
    "\<forall>it \<in> set (take k (items q)). seq it \<le> up" "\<forall>it \<in> set (drop k (items q)). up < seq it"
  shows "ack_through up q = q\<lparr>items := drop k (items q), cur_bytes := bytes_of (drop k (items q)),
    disk := erase (take k (items q)) (disk q)\<rparr>"
proof -
  have "\<not> up < seq (items q ! i)" if "i < k" for i
    using assms(3) nth_in_take [OF that assms(2)] by (auto simp: not_less)
  moreover have "up < seq (items q ! i)" if "k \<le> i" "i < length (items q)" for i
    using assms(4) nth_in_drop [OF that] by blast
  ultimately have "search (length (items q)) (\<lambda>i. up < seq (items q ! i)) = k"
    by (intro search_split [OF assms(2)]) auto
  moreover have "cur_bytes q = bytes_of (take k (items q)) + bytes_of (drop k (items q))"
    using assms(1) by (metis append_take_drop_id bytes_of_simps(3) queue_inv_def)
  ultimately show ?thesis
    by (simp add: ack_through_def Let_def foldl_bytes erase_def)
qed

lemma split_at_seq:
  assumes "queue_inv q"
  obtains k where "k \<le> length (items q)" "\<forall>it \<in> set (take k (items q)). seq it \<le> up"
    "\<forall>it \<in> set (drop k (items q)). up < seq it"
proof -
  let ?k = "length (takeWhile (\<lambda>it. seq it \<le> up) (items q))"
  have s: "sorted (map seq (items q))"
    using assms by (simp add: queue_inv_def strict_sorted_iff)
  show ?thesis
    using that [of ?k] length_takeWhile_le [of _ "items q"] sorted_dropWhile_gt [OF s]
    by (auto simp: takeWhile_eq_take [symmetric] dropWhile_eq_drop [symmetric] dest: set_takeWhileD)
qed

lemma ack_through_drop:
  assumes "queue_inv q"
  obtains k where "k \<le> length (items q)"
    "ack_through up q = q\<lparr>items := drop k (items q), cur_bytes := bytes_of (drop k (items q)),
       disk := erase (take k (items q)) (disk q)\<rparr>"
  using split_at_seq [OF assms, of up thesis] ack_through_eq [OF assms] by blast

lemma ack_through_inv: "queue_inv q \<Longrightarrow> queue_inv (ack_through up q)"
  by (rule ack_through_drop [of q up]) (simp_all add: queue_inv_drop)

lemma ack_through_clean: "queue_inv q \<Longrightarrow> clean q \<Longrightarrow> clean (ack_through up q)"
  by (rule ack_through_drop [of q up]) (simp_all add: clean_drop)

lemma ack_through_simps [simp]:
  "next_seq (ack_through up q) = next_seq q" "max_items (ack_through up q) = max_items q"
  "max_bytes (ack_through up q) = max_bytes q"
  by (simp_all add: ack_through_def Let_def)

lemma ack_through_items:
  assumes "queue_inv q"
  shows "items (ack_through up q) = filter (\<lambda>it. up < seq it) (items q)"
  using assms
proof (rule split_at_seq [where up = up])
  fix k assume a: "k \<le> length (items q)" "\<forall>it \<in> set (take k (items q)). seq it \<le> up"
    "\<forall>it \<in> set (drop k (items q)). up < seq it"
  have "filter (\<lambda>it. up < seq it) (take k (items q) @ drop k (items q)) = drop k (items q)"
    using a(2,3) unfolding filter_append by (simp add: filter_empty_conv not_less)
  with ack_through_eq [OF assms a] show ?thesis by simp
qed

text \<open>Acknowledging up to the last of the first k items removes exactly these.\<close>

definition ack_number :: "item list \<Rightarrow> nat \<Rightarrow> nat" where
  "ack_number its k = (if k = 0 then 0 else seq (its ! (k - 1)))"

lemma ack_through_prefix:
  assumes "queue_inv q" "k \<le> length (items q)"
  shows "items (ack_through (ack_number (items q) k) q) = drop k (items q)"
proof -
  let ?up = "ack_number (items q) k"
  have lt: "seq (items q ! i) < seq (items q ! j)" if "i < j" "j < length (items q)" for i j
    using assms(1) that by (auto simp: queue_inv_def sorted_wrt_iff_nth_less)
  have "seq it \<le> ?up" if "it \<in> set (take k (items q))" for it
  proof -
    from that obtain i where "i < k" "it = items q ! i" using assms(2) by (auto simp: in_set_conv_nth)
    moreover from this have "i = k - 1 \<or> i < k - 1 \<and> k - 1 < length (items q)"
      using assms(2) by linarith
    then have "seq (items q ! i) \<le> seq (items q ! (k - 1))" using lt less_imp_le order_refl by metis
    ultimately show ?thesis by (simp add: ack_number_def)
  qed
  moreover have "?up < seq it" if "it \<in> set (drop k (items q))" for it
  proof -
    from in_dropD_nth [OF that] obtain i where i: "k \<le> i" "i < length (items q)" "it = items q ! i"
      by auto
    have pos: "\<forall>it \<in> set (items q). 0 < seq it" using assms(1) by (simp add: queue_inv_def)
    have "0 < seq it" unfolding i(3) by (rule bspec [OF pos]) (rule nth_mem [OF i(2)])
    moreover from i have "k \<noteq> 0 \<Longrightarrow> seq (items q ! (k - 1)) < seq it" using lt by simp
    ultimately show ?thesis by (cases "k = 0") (simp_all add: ack_number_def)
  qed
  ultimately show ?thesis using ack_through_eq [OF assms] by simp
qed

subsection \<open>Drain\<close>

lemma drain_batch_prefix:
  "\<exists>k \<le> length its. \<exists>e. drain_batch ctx fn its la sent
      = (e, (if k = 0 then la else seq (its ! (k - 1))), sent @ take k its) \<and>
    (case e of None \<Rightarrow> k = length its
     | Some x \<Rightarrow> k < length its \<and>
        (ctx (sent @ take k its) = Some x \<or> fn (sent @ take k its) (its ! k) = Some x))"
proof (induction its arbitrary: la sent)
  case (Cons it its)
  consider (stop) x where "ctx sent = Some x \<or> (ctx sent = None \<and> fn sent it = Some x)"
    | (go) "ctx sent = None" "fn sent it = None"
    by (cases "ctx sent"; cases "fn sent it") auto
  then show ?case
  proof cases
    case stop
    then show ?thesis by (intro exI [of _ 0] conjI exI [of _ "Some x"]) auto
  next
    case go
    obtain k e where k: "k \<le> length its" "drain_batch ctx fn its (seq it) (sent @ [it])
      = (e, (if k = 0 then seq it else seq (its ! (k - 1))), (sent @ [it]) @ take k its)"
      "case e of None \<Rightarrow> k = length its
       | Some x \<Rightarrow> k < length its \<and> (ctx ((sent @ [it]) @ take k its) = Some x
           \<or> fn ((sent @ [it]) @ take k its) (its ! k) = Some x)"
      using Cons.IH by blast
    show ?thesis
      using go k by (intro exI [of _ "Suc k"] conjI exI [of _ e]) (auto split: option.splits)
  qed
qed simp

lemma drain_prefix:
  "queue_inv q \<Longrightarrow> \<exists>k e q'. drain ctx fn sent q = Some (e, sent @ take k (items q), q') \<and>
     k \<le> length (items q) \<and> items q' = drop k (items q) \<and> queue_inv q' \<and>
     (case e of None \<Rightarrow> k = length (items q)
      | Some x \<Rightarrow> k < length (items q) \<and> (ctx (sent @ take k (items q)) = Some x
          \<or> fn (sent @ take k (items q)) (items q ! k) = Some x))"
proof (induction "length (items q)" arbitrary: q sent rule: less_induct)
  case less
  let ?b = "take 64 (items q)"
  have pk: "peek 64 q = ?b" by (simp add: peek_def)
  show ?case
  proof (cases "items q = []")
    case True
    then show ?thesis using pk less.prems by (subst drain.simps) auto
  next
    case False
    obtain k e where k0: "k \<le> length ?b" "drain_batch ctx fn ?b 0 sent
        = (e, (if k = 0 then 0 else seq (?b ! (k - 1))), sent @ take k ?b)"
      "case e of None \<Rightarrow> k = length ?b
       | Some x \<Rightarrow> k < length ?b \<and>
          (ctx (sent @ take k ?b) = Some x \<or> fn (sent @ take k ?b) (?b ! k) = Some x)"
      using drain_batch_prefix [of ?b ctx fn 0 sent] by blast
    have "k \<le> 64" using k0(1) by simp
    then have conv: "take k ?b = take k (items q)"
      "(if k = 0 then 0 else seq (?b ! (k - 1))) = ack_number (items q) k"
      by (simp_all add: ack_number_def min_def)
    have k: "k \<le> length ?b" "drain_batch ctx fn ?b 0 sent
        = (e, ack_number (items q) k, sent @ take k (items q))"
      "case e of None \<Rightarrow> k = length ?b
       | Some x \<Rightarrow> k < length ?b \<and> (ctx (sent @ take k (items q)) = Some x
           \<or> fn (sent @ take k (items q)) (items q ! k) = Some x)"
      using k0 unfolding conv by (auto split: option.splits)
    have kl: "k \<le> length (items q)" using k(1) by simp
    let ?q = "ack_through (ack_number (items q) k) q"
    have q1: "queue_inv ?q" "items ?q = drop k (items q)"
      using ack_through_inv ack_through_prefix less.prems kl by blast+
    obtain b bs where bb: "?b = b # bs" using False by (cases ?b) auto
    show ?thesis
    proof (cases e)
      case (Some x)
      then have "drain ctx fn sent q = Some (Some x, sent @ take k (items q), ?q)"
        using k(2) bb pk by (subst drain.simps) simp
      with Some k(3) q1 kl show ?thesis by (intro exI [of _ k] exI [of _ "Some x"] exI [of _ ?q]) auto
    next
      case None
      then have kb: "k = length ?b" "0 < k" using k(3) False by auto
      have step: "drain ctx fn sent q = drain ctx fn (sent @ take k (items q)) ?q"
        using k(2) bb pk None by (subst drain.simps) simp
      have "length (items ?q) < length (items q)" using q1(2) kb(2) False by simp
      then obtain j e' q' where j: "drain ctx fn (sent @ take k (items q)) ?q
          = Some (e', (sent @ take k (items q)) @ take j (items ?q), q')"
        "j \<le> length (items ?q)" "items q' = drop j (items ?q)" "queue_inv q'"
        "case e' of None \<Rightarrow> j = length (items ?q)
         | Some x \<Rightarrow> j < length (items ?q) \<and>
            (ctx ((sent @ take k (items q)) @ take j (items ?q)) = Some x
             \<or> fn ((sent @ take k (items q)) @ take j (items ?q)) (items ?q ! j) = Some x)"
        using less.hyps [OF _ q1(1), of "sent @ take k (items q)"] by blast
      have tk: "take k (items q) @ take j (drop k (items q)) = take (k + j) (items q)"
        by (simp add: take_add)
      show ?thesis
        using j step kl unfolding q1(2) append_assoc tk
        by (intro exI [of _ "k + j"] exI [of _ e'] exI [of _ q'])
          (auto simp: add.commute split: option.splits)
    qed
  qed
qed

subsection \<open>Boot\<close>

definition small :: "item \<Rightarrow> bool" where
  "small it \<longleftrightarrow> 6 + length (subject it) + length (data it) < 2 ^ 16"

abbreviation file_of :: "item \<Rightarrow> nat \<times> bytes" where
  "file_of it \<equiv> (seq it, encode_item (subject it) (data it))"

lemma replay_small:
  "\<forall>it \<in> set its. small it \<Longrightarrow> sorted_wrt (<) (next_seq q # map seq its) \<Longrightarrow>
   replay cap q (map file_of its) =
     Some (q\<lparr>items := items q @ map (\<lambda>it. it\<lparr>added_at := 0\<rparr>) its,
             cur_bytes := cur_bytes q + bytes_of its,
             next_seq := (if its = [] then next_seq q else seq (last its))\<rparr>)"
proof (induction its arbitrary: q)
  case (Cons it its)
  then have sm: "6 + length (subject it) + length (data it) < 2 ^ 16" "next_seq q < seq it"
    by (simp_all add: small_def)
  let ?q = "q\<lparr>items := items q @ [it\<lparr>added_at := 0\<rparr>], cur_bytes := cur_bytes q + int (length (data it)),
    next_seq := seq it\<rparr>"
  have md: "length (data it) mod 2 ^ 16 = length (data it)" using sm(1) by simp
  have "length (data it) < 2 ^ 32" "6 + length (subject it) < 2 ^ 16" using sm(1) by simp_all
  from replay_file_encoded [OF this(2,1), of cap q "seq it"]
  have "replay_file cap q (file_of it) = Some ?q"
    using sm unfolding md by (simp add: max_def del: replay_file.simps)
  then have "replay cap q (map file_of (it # its)) = replay cap ?q (map file_of its)"
    by (simp del: replay_file.simps)
  also have "\<dots> = Some (?q\<lparr>items := items ?q @ map (\<lambda>it. it\<lparr>added_at := 0\<rparr>) its,
      cur_bytes := cur_bytes ?q + bytes_of its,
      next_seq := (if its = [] then next_seq ?q else seq (last its))\<rparr>)"
    by (rule Cons.IH) (use Cons.prems in auto)
  finally show ?case by (simp add: add.assoc)
qed simp

lemma disk_sorted:
  assumes "queue_inv q" "clean q"
  shows "sort_by (\<lambda>a b. fst a < fst b) (disk q) = map file_of (items q)"
proof (rule sort_by_strict [of _ fst])
  have srt: "sorted_wrt (<) (map seq (items q))" and dd: "distinct (map fst (disk q))"
    and en: "\<forall>it \<in> set (items q). map_of (disk q) (seq it) = Some (encode_item (subject it) (data it))"
    using assms(1) by (simp_all add: queue_inv_def)
  show s2: "sorted_wrt (<) (map fst (map file_of (items q)))" using srt by (simp add: comp_def)
  have "set (disk q) = set (map file_of (items q))"
  proof (intro equalityI subsetI)
    fix p assume p: "p \<in> set (disk q)"
    then have "fst p \<in> seq ` set (items q)" using assms(2) unfolding clean_def by blast
    then obtain it where it: "it \<in> set (items q)" "fst p = seq it" by auto
    then have "map_of (disk q) (fst p) = Some (encode_item (subject it) (data it))" using en by simp
    moreover have "map_of (disk q) (fst p) = Some (snd p)"
      using p map_of_is_SomeI [OF dd] by (metis prod.collapse)
    ultimately have "p = file_of it" using it(2) by (metis option.inject prod.collapse)
    then show "p \<in> set (map file_of (items q))" using it(1) by auto
  next
    fix p assume "p \<in> set (map file_of (items q))"
    then show "p \<in> set (disk q)" using en by (auto dest: map_of_SomeD)
  qed
  moreover have "distinct (disk q)" using dd by (simp add: distinct_map)
  moreover have "distinct (map file_of (items q))"
    using s2 by (metis distinct_map strict_sorted_iff)
  ultimately show "mset (disk q) = mset (map file_of (items q))"
    by (metis set_eq_iff_mset_eq_distinct)
qed simp

subsection \<open>A failed write wedges the queue\<close>

datatype queue_op = PutOp fault time string bytes | AckOp nat

fun run_ops :: "queue_op list \<Rightarrow> queue \<Rightarrow> (queue_error + nat) list \<times> queue" where
  "run_ops [] q = ([], q)"
| "run_ops (PutOp fl now s b # ops) q =
     (case put fl now s b q of (r, q') \<Rightarrow> (case run_ops ops q' of (rs, q'') \<Rightarrow> (r # rs, q'')))"
| "run_ops (AckOp up # ops) q = run_ops ops (ack_through up q)"

lemma ack_blocked:
  assumes "queue_inv q" "blocked q"
  shows "blocked (ack_through up q)"
  using assms(1)
proof (rule ack_through_drop [where up = up])
  fix k assume k: "ack_through up q = q\<lparr>items := drop k (items q), cur_bytes := bytes_of (drop k (items q)),
       disk := erase (take k (items q)) (disk q)\<rparr>"
  have "next_seq q + 1 \<notin> seq ` set (take k (items q))"
    using assms(1) by (fastforce simp: queue_inv_def dest: in_set_takeD)
  then show ?thesis using assms(2) unfolding k by (simp add: blocked_def map_of_erase)
qed

lemma run_blocked:
  "queue_inv q \<Longrightarrow> blocked q \<Longrightarrow> r \<in> set (fst (run_ops ops q)) \<Longrightarrow> \<exists>e. r = Inl e"
proof (induction ops arbitrary: q)
  case (Cons op ops)
  show ?case
  proof (cases op)
    case (PutOp fl now s b)
    obtain e where "put fl now s b q = (Inl e, q)" using put_blocked [OF Cons.prems(2)] by blast
    then show ?thesis using Cons PutOp by (auto split: prod.splits)
  next
    case (AckOp up)
    then show ?thesis
      using Cons.IH [of "ack_through up q"] Cons.prems ack_blocked ack_through_inv by auto
  qed
qed simp

lemma failed_write_blocks:
  assumes "queue_inv q" "\<not> blocked q" "put (WriteFails k) now s b q = (r, q')"
  shows "r = Inl WriteError" "queue_inv q'" "blocked q'" "items q' = items q"
proof -
  have q': "q' = q\<lparr>disk := AList.update (next_seq q + 1) (take k (encode_item s b)) (disk q)\<rparr>"
    and r: "r = Inl WriteError"
    using assms(2,3) by (auto simp: put_def persist_def blocked_def Let_def)
  show "r = Inl WriteError" by (rule r)
  show "items q' = items q" "blocked q'" by (simp_all add: q' blocked_def)
  show "queue_inv q'"
    using assms(1) by (force simp: q' queue_inv_def distinct_update)
qed

subsection \<open>The queue as a bounded log\<close>

definition payload :: "item \<Rightarrow> time \<times> string \<times> bytes" where
  "payload it = (added_at it, subject it, data it)"

definition fits_payload :: "queue \<Rightarrow> (time \<times> string \<times> bytes) list \<Rightarrow> bool" where
  "fits_payload q xs \<longleftrightarrow> length xs \<le> max_items q \<and>
     sum_list (map (\<lambda>(t, s, b). int (length b)) xs) \<le> max_bytes q"

lemma fits_payload_map: "fits_payload q (map payload its) \<longleftrightarrow> fits_caps (max_items q) (max_bytes q) its"
  by (simp add: fits_payload_def fits_caps_def payload_def bytes_of_def comp_def)

definition put_payload :: "time \<times> string \<times> bytes \<Rightarrow> queue \<Rightarrow> queue" where
  "put_payload x q = snd (put NoFault (fst x) (fst (snd x)) (snd (snd x)) q)"

definition writable :: "queue \<Rightarrow> bool" where
  "writable q \<longleftrightarrow> queue_inv q \<and> (\<forall>n \<in> fst ` set (disk q). n \<le> next_seq q)"

lemma writable_not_blocked: "writable q \<Longrightarrow> \<not> blocked q"
  by (force simp: writable_def blocked_def dest: map_of_SomeD)

lemma put_payload_props:
  assumes "writable q"
  shows "writable (put_payload x q)" "max_items (put_payload x q) = max_items q"
    "max_bytes (put_payload x q) = max_bytes q"
    "map payload (items (put_payload x q)) = longest_suffix (fits_payload q) (map payload (items q) @ [x])"
proof -
  obtain now s b where x: "x = (now, s, b)" by (cases x)
  obtain r q' where put: "put NoFault now s b q = (r, q')" by fastforce
  note p = put_ok_items [OF _ writable_not_blocked [OF assms] put]
  have inv: "queue_inv q" using assms by (simp add: writable_def)
  have q': "put_payload x q = q'" by (simp add: put_payload_def x put)
  show "writable (put_payload x q)"
    using assms p(1,3,8) [OF inv] unfolding q' writable_def by fastforce
  show "max_items (put_payload x q) = max_items q" "max_bytes (put_payload x q) = max_bytes q"
    using p(4,5) [OF inv] by (simp_all add: q')
  have "map payload (items q @ [\<lparr>seq = next_seq q + 1, subject = s, data = b, added_at = now\<rparr>])
      = map payload (items q) @ [x]" by (simp add: payload_def x)
  from longest_suffix_map [of "fits_payload q" payload, unfolded fits_payload_map, symmetric] this
  show "map payload (items (put_payload x q)) = longest_suffix (fits_payload q) (map payload (items q) @ [x])"
    unfolding q' p(6) [OF inv] by (simp only:)
qed

interpretation eq: bounded_log writable put_payload "\<lambda>q. map payload (items q)" fits_payload
proof (unfold_locales, goal_cases)
  case (4 q)
  then show ?case by (simp add: fits_payload_def writable_def queue_inv_def)
next
  case (5 q xs ys)
  have "0 \<le> sum_list (map (\<lambda>(t, s, b). int (length b)) zs)" for zs :: "(time \<times> string \<times> bytes) list"
    by (rule sum_list_nonneg) auto
  from this [of ys] 5(2) show ?case
    unfolding fits_payload_def map_append sum_list_append length_append by linarith
qed (simp_all add: put_payload_props fits_payload_def [abs_def])

subsection \<open>Queues reached without disk failures\<close>

definition empty_queue :: "nat \<Rightarrow> int \<Rightarrow> queue" where
  "empty_queue mi mb = \<lparr>next_seq = 0, items = [], max_items = mi, max_bytes = mb, cur_bytes = 0, disk = []\<rparr>"

text \<open>A restart may come with other caps; the scan keeps what is on the disk and the next put drops what is over them.\<close>

inductive queue_reachable :: "queue \<Rightarrow> bool" where
  init: "0 < mb \<Longrightarrow> queue_reachable (empty_queue mi mb)"
| put: "queue_reachable q \<Longrightarrow> put NoFault now s b q = (r, q') \<Longrightarrow> queue_reachable q'"
| ack: "queue_reachable q \<Longrightarrow> queue_reachable (ack_through up q)"
| reboot: "queue_reachable q \<Longrightarrow> \<forall>it \<in> set (items q). small it \<Longrightarrow> new_queue cap dir mi mb (disk q) = Inr (Some q') \<Longrightarrow> queue_reachable q'"

lemma boot_queue:
  assumes "queue_inv q" "clean q" "\<forall>it \<in> set (items q). small it" "dir \<noteq> []"
  shows "new_queue cap dir mi mb (disk q) = Inr (Some
    \<lparr>next_seq = (if items q = [] then 0 else seq (last (items q))),
     items = map (\<lambda>it. it\<lparr>added_at := 0\<rparr>) (items q),
     max_items = nat (if mi \<le> 0 then 100000 else mi), max_bytes = (if mb \<le> 0 then 2 ^ 30 else mb),
     cur_bytes = cur_bytes q, disk = disk q\<rparr>)"
proof -
  let ?q0 = "\<lparr>next_seq = 0, items = [], max_items = nat (if mi \<le> 0 then 100000 else mi),
     max_bytes = (if mb \<le> 0 then 2 ^ 30 else mb), cur_bytes = 0, disk = disk q\<rparr>"
  have "sorted_wrt (<) (next_seq ?q0 # map seq (items q))" "cur_bytes q = bytes_of (items q)"
    using assms(1) by (auto simp: queue_inv_def)
  with replay_small [OF assms(3), of ?q0 cap]
  show ?thesis
    unfolding new_queue_def disk_sorted [OF assms(1,2)] using assms(4) by simp
qed

lemma boot_keeps:
  assumes "queue_inv q" "clean q" "\<forall>it \<in> set (items q). small it" "new_queue cap dir mi mb (disk q) = Inr (Some q')"
  shows "queue_inv q' \<and> clean q'"
proof -
  have d: "dir \<noteq> []" using assms(4) by (auto simp: new_queue_def)
  have srt: "seq it \<le> seq (last (items q))" if "it \<in> set (items q)" for it
    using that assms(1) by (cases "items q" rule: rev_cases) (auto simp: queue_inv_def sorted_wrt_append)
  have c: "seq \<circ> added_at_update (\<lambda>_. 0) = seq" "(\<lambda>it. seq (it\<lparr>added_at := 0\<rparr>)) = seq" by (auto simp: fun_eq_iff)
  have b: "bytes_of (map (\<lambda>it. it\<lparr>added_at := 0\<rparr>) xs) = bytes_of xs" for xs
    by (simp add: bytes_of_def comp_def)
  have q': "q' = \<lparr>next_seq = (if items q = [] then 0 else seq (last (items q))), items = map (\<lambda>it. it\<lparr>added_at := 0\<rparr>) (items q),
     max_items = nat (if mi \<le> 0 then 100000 else mi), max_bytes = (if mb \<le> 0 then 2 ^ 30 else mb),
     cur_bytes = cur_bytes q, disk = disk q\<rparr>"
    using assms(4) unfolding boot_queue [OF assms(1-3) d] by simp
  have "queue_inv q'" using assms(1) srt b by (auto simp: q' queue_inv_def c)
  moreover have "clean q'" using assms(2) unfolding q' clean_def by (simp add: image_image)
  ultimately show ?thesis ..
qed

lemma clean_writable: "queue_inv q \<Longrightarrow> clean q \<Longrightarrow> writable q"
  unfolding writable_def clean_def queue_inv_def by auto

lemma queue_reachable_inv: "queue_reachable q \<Longrightarrow> queue_inv q \<and> clean q \<and> writable q"
proof (induction rule: queue_reachable.induct)
  case (init mb mi)
  then show ?case by (simp add: empty_queue_def queue_inv_def clean_def writable_def)
next
  case (put q now s b r q')
  note p = put_ok_items [OF _ writable_not_blocked put.hyps(2)]
  from put.IH p(1,7) show ?case by (simp add: clean_writable)
next
  case (ack q up)
  then show ?case by (simp add: ack_through_inv ack_through_clean clean_writable)
next
  case (reboot q cap dir mi mb q')
  then show ?case using boot_keeps [of q cap dir mi mb q'] clean_writable by blast
qed

text \<open>
  The deduplication number is not durable: when everything was acknowledged before a restart, the
  numbering starts again at 1.
\<close>

lemma reboot_reuses_numbers:
  assumes "queue_reachable q" "items q = []" "dir \<noteq> []"
  shows "\<exists>q'. new_queue cap dir (int (max_items q)) (max_bytes q) (disk q) = Inr (Some q') \<and> next_seq q' = 0"
proof -
  have "disk q = []" using queue_reachable_inv [OF assms(1)] assms(2) by (simp add: clean_def)
  then show ?thesis using assms(3) by (simp add: new_queue_def)
qed

subsection \<open>Properties\<close>

text \<open>
  C37: after any sequence of puts, with no disk failure, on a queue reached by puts, acknowledgements and restarts, the queue holds
  exactly the longest suffix of everything queued that respects the item cap and the byte cap, in order; so a full queue accepts
  what is put and drops its oldest items, never more than needed. The README of the gateway announces the opposite for the byte cap: that a
  full outbox refuses.
\<close>

theorem puts_keep_longest_suffix:
  assumes "queue_reachable q" "xs \<noteq> []"
  shows "map payload (items (fold put_payload xs q)) =
    longest_suffix (fits_payload q) (map payload (items q) @ xs)"
  using eq.append_all [of q xs] queue_reachable_inv [OF assms(1)] assms(2) by blast

text \<open>
  \<open>Drain\<close> always returns. It forwards a prefix of the queue in order, each item once, removes
  exactly the forwarded items, and stops early only where the context or the forwarding function
  reported the error it returns.
\<close>

theorem drain_forwards_prefix:
  assumes "queue_reachable q"
  shows "\<exists>k e q'. drain ctx fn [] q = Some (e, take k (items q), q') \<and>
     k \<le> length (items q) \<and> items q' = drop k (items q) \<and>
     (case e of None \<Rightarrow> k = length (items q)
      | Some x \<Rightarrow> k < length (items q) \<and>
         (ctx (take k (items q)) = Some x \<or> fn (take k (items q)) (items q ! k) = Some x))"
  using drain_prefix [of q ctx fn "[]", unfolded append_Nil] queue_reachable_inv [OF assms] by blast

text \<open>
  C38: a restart rebuilds the queue from the disk: if every item fits the 16-bit offsets of the
  scan, the same items come back in the same order with the same byte count, with their
  timestamps lost; the next number is the largest one on disk.
\<close>

theorem reboot_restores:
  assumes "queue_reachable q" "\<forall>it \<in> set (items q). small it" "dir \<noteq> []"
  shows "new_queue cap dir (int (max_items q)) (max_bytes q) (disk q) = Inr (Some
    \<lparr>next_seq = (if items q = [] then 0 else seq (last (items q))),
     items = map (\<lambda>it. it\<lparr>added_at := 0\<rparr>) (items q),
     max_items = (if max_items q = 0 then 100000 else max_items q),
     max_bytes = (if max_bytes q = 0 then 2 ^ 30 else max_bytes q),
     cur_bytes = cur_bytes q, disk = disk q\<rparr>)"
proof -
  have inv: "queue_inv q" "clean q" using queue_reachable_inv [OF assms(1)] by auto
  have "nat (if int (max_items q) \<le> 0 then 100000 else int (max_items q))
      = (if max_items q = 0 then 100000 else max_items q)"
    "(if max_bytes q \<le> 0 then 2 ^ 30 else max_bytes q) = (if max_bytes q = 0 then 2 ^ 30 else max_bytes q)"
    using inv(1) by (auto simp: queue_inv_def)
  then show ?thesis using boot_queue [OF inv assms(2,3), of cap "int (max_items q)" "max_bytes q"] by simp
qed

text \<open>
  What the boot scan makes of a completely written file whose subject is shorter than 64 KiB:
  it keeps only the payload length modulo 65536, and it panics when subject and that remainder
  together pass the 16-bit offset range. So a payload of exactly 65536 bytes comes back empty.
\<close>

lemma replay_truncates_payload:
  assumes "6 + length s < 2 ^ 16" "length d < 2 ^ 32"
  shows "map_option items (replay_file cap q (n, encode_item s d)) =
    (if 6 + length s + length d mod 2 ^ 16 < 2 ^ 16
     then Some (items q @ [\<lparr>seq = n, subject = s, data = take (length d mod 2 ^ 16) d, added_at = 0\<rparr>])
     else None)"
  using replay_file_encoded [OF assms, of cap q n] by (simp del: replay_file.simps)

text \<open>
  One write that fails after the file was created wedges the queue for good: the rolled-back
  number is handed out again, its file already exists, and every later \<open>Put\<close> returns an error,
  whatever is acknowledged in between.
\<close>

theorem failed_write_wedges_queue:
  assumes "queue_reachable q" "put (WriteFails k) now s b q = (r, q')" "r' \<in> set (fst (run_ops ops q'))"
  shows "r = Inl WriteError \<and> items q' = items q \<and> (\<exists>e. r' = Inl e)"
proof -
  have "queue_inv q" "\<not> blocked q"
    using queue_reachable_inv [OF assms(1)] writable_not_blocked by auto
  note f = failed_write_blocks [OF this assms(2)]
  from f(1,4) run_blocked [OF f(2,3) assms(3)] show ?thesis by simp
qed

subsection \<open>Concrete queues\<close>

definition demo_queue :: queue where
  "demo_queue = snd (put NoFault 7 ''det'' ''abc'' (empty_queue 2 100))"

lemma demo_queue_reachable: "queue_reachable demo_queue"
  unfolding demo_queue_def
  by (rule queue_reachable.put [OF queue_reachable.init prod.collapse [symmetric]]) simp

lemma demo_queue_eq:
  "demo_queue = \<lparr>next_seq = 1, items = [\<lparr>seq = 1, subject = ''det'', data = ''abc'', added_at = 7\<rparr>],
     max_items = 2, max_bytes = 100, cur_bytes = 3, disk = [(1, encode_item ''det'' ''abc'')]\<rparr>"
  by (simp add: demo_queue_def put_def persist_def empty_queue_def drop_excess_locked_def)

theorem puts_keep_longest_suffix_witness:
  "map payload (items (fold put_payload [(8, ''det'', ''d''), (9, ''det'', ''e'')] demo_queue)) =
   [(8, ''det'', ''d''), (9, ''det'', ''e'')]"
proof -
  have "longest_suffix (fits_payload demo_queue) (map payload (items demo_queue) @ [(8, ''det'', ''d''), (9, ''det'', ''e'')])
      = [(8, ''det'', ''d''), (9, ''det'', ''e'')]"
    by (simp add: demo_queue_eq fits_payload_def payload_def)
  then show ?thesis
    using puts_keep_longest_suffix [OF demo_queue_reachable, of "[(8, ''det'', ''d''), (9, ''det'', ''e'')]"]
    by simp
qed

theorem drain_forwards_prefix_witness:
  "\<exists>q'. drain (\<lambda>_. None :: string option) (\<lambda>_ _. None) [] demo_queue = Some (None, items demo_queue, q') \<and>
     items q' = []"
proof -
  obtain k e q' where d: "drain (\<lambda>_. None :: string option) (\<lambda>_ _. None) [] demo_queue
      = Some (e, take k (items demo_queue), q')" "items q' = drop k (items demo_queue)"
    and e: "case e of None \<Rightarrow> k = length (items demo_queue) | Some x \<Rightarrow> False"
    using drain_forwards_prefix [OF demo_queue_reachable, of "\<lambda>_. None :: string option" "\<lambda>_ _. None"]
    by (auto cong: option.case_cong)
  from e have "e = None" "k = length (items demo_queue)" by (auto split: option.splits)
  with d show ?thesis by simp
qed

theorem reboot_restores_witness:
  "\<exists>q'. new_queue (\<lambda>n. n) ''dir'' (int (max_items demo_queue)) (max_bytes demo_queue) (disk demo_queue)
     = Inr (Some q') \<and> next_seq q' = 1 \<and> cur_bytes q' = 3"
proof -
  have sm: "\<forall>it \<in> set (items demo_queue). small it" by (simp add: demo_queue_eq small_def)
  have v: "items demo_queue \<noteq> [] \<and> seq (last (items demo_queue)) = 1 \<and> cur_bytes demo_queue = 3"
    by (simp add: demo_queue_eq)
  have "(''dir'' :: string) \<noteq> []" by simp
  from reboot_restores [OF demo_queue_reachable sm this, of "\<lambda>n. n"] v show ?thesis
    by (simp only: sum.inject option.inject queue.simps simp_thms ex_simps if_False)
qed

lemma replay_truncates_payload_witness:
  "map_option items (replay_file (\<lambda>n. n) (empty_queue 5 100) (1, encode_item ''det'' (replicate 65536 (CHR ''x''))))
   = Some [\<lparr>seq = 1, subject = ''det'', data = [], added_at = 0\<rparr>]"
  by (subst replay_truncates_payload) (simp_all add: empty_queue_def)

theorem failed_write_wedges_queue_witness:
  "\<exists>e. fst (put NoFault 1 ''det'' ''y'' (snd (put (WriteFails 4) 1 ''det'' ''x'' demo_queue))) = Inl e"
  using failed_write_wedges_queue [OF demo_queue_reachable prod.collapse [symmetric],
      where k = 4 and now = 1 and s = "''det''" and b = "''x''" and
         r' = "fst (put NoFault 1 ''det'' ''y'' (snd (put (WriteFails 4) 1 ''det'' ''x'' demo_queue)))" and
         ops = "[PutOp NoFault 1 ''det'' ''y'']"]
  by (simp split: prod.splits)

end
