(* ===== verification/GoFloat.thy ===== *)
theory GoFloat
  imports Prelude
begin

section \<open>Go's floating-point numbers\<close>

text \<open>
  \<open>float64\<close> and \<open>float32\<close> as IEEE 754 binary formats with round-to-nearest-even: an operation
  is the exact rational operation followed by one rounding. A finite value is the rational it
  denotes; the two zeros are one value, since no modelled code divides by a zero it has not
  excluded or looks at the sign of a zero. Go may fuse a multiplication and an addition on some
  architectures; the model is the unfused evaluation that amd64 uses.
\<close>

datatype fl = Fin rat | Inf bool | NaN

record fformat =
  prec :: nat
  emin :: int
  emax :: int

definition f64 :: fformat where "f64 = \<lparr>prec = 53, emin = - 1022, emax = 1023\<rparr>"
definition f32 :: fformat where "f32 = \<lparr>prec = 24, emin = - 126, emax = 127\<rparr>"

subsection \<open>Rounding\<close>

definition ilog2 :: "rat \<Rightarrow> int" where
  "ilog2 x = (case quotient_of x of (n, d) \<Rightarrow>
     let k = bitlen n - bitlen d in if 2 powi k \<le> x then k else k - 1)"

definition round_half_even :: "rat \<Rightarrow> int" where
  "round_half_even y =
     (let f = \<lfloor>y\<rfloor>; d = y - of_int f in
      if d < 1 / 2 then f else if 1 / 2 < d then f + 1 else if even f then f else f + 1)"

definition quantum :: "fformat \<Rightarrow> rat \<Rightarrow> rat" where
  "quantum F x = 2 powi (max (ilog2 x) (emin F) - int (prec F) + 1)"

definition rnd_pos :: "fformat \<Rightarrow> rat \<Rightarrow> rat" where
  "rnd_pos F x = quantum F x * of_int (round_half_even (x / quantum F x))"

definition rnd :: "fformat \<Rightarrow> rat \<Rightarrow> rat" where
  "rnd F x = (if x = 0 then 0 else if x < 0 then - rnd_pos F (- x) else rnd_pos F x)"

definition fl_round :: "fformat \<Rightarrow> rat \<Rightarrow> fl" where
  "fl_round F x =
     (let r = rnd F x in
      if 2 powi (emax F + 1) \<le> r then Inf False
      else if r \<le> - (2 powi (emax F + 1)) then Inf True else Fin r)"

subsection \<open>Arithmetic and comparison\<close>

fun fl_neg :: "fl \<Rightarrow> fl" where
  "fl_neg (Fin a) = Fin (- a)"
| "fl_neg (Inf s) = Inf (\<not> s)"
| "fl_neg NaN = NaN"

fun fl_add :: "fformat \<Rightarrow> fl \<Rightarrow> fl \<Rightarrow> fl" where
  "fl_add F (Fin a) (Fin b) = fl_round F (a + b)"
| "fl_add F NaN _ = NaN"
| "fl_add F _ NaN = NaN"
| "fl_add F (Inf s) (Inf t) = (if s = t then Inf s else NaN)"
| "fl_add F (Inf s) (Fin _) = Inf s"
| "fl_add F (Fin _) (Inf t) = Inf t"

definition fl_sub :: "fformat \<Rightarrow> fl \<Rightarrow> fl \<Rightarrow> fl" where
  "fl_sub F a b = fl_add F a (fl_neg b)"

fun fl_mul :: "fformat \<Rightarrow> fl \<Rightarrow> fl \<Rightarrow> fl" where
  "fl_mul F (Fin a) (Fin b) = fl_round F (a * b)"
| "fl_mul F NaN _ = NaN"
| "fl_mul F _ NaN = NaN"
| "fl_mul F (Inf s) (Inf t) = Inf (s \<noteq> t)"
| "fl_mul F (Inf s) (Fin b) = (if b = 0 then NaN else Inf (s \<noteq> (b < 0)))"
| "fl_mul F (Fin a) (Inf t) = (if a = 0 then NaN else Inf ((a < 0) \<noteq> t))"

fun fl_div :: "fformat \<Rightarrow> fl \<Rightarrow> fl \<Rightarrow> fl" where
  "fl_div F (Fin a) (Fin b) =
     (if b = 0 then (if a = 0 then NaN else Inf (a < 0)) else fl_round F (a / b))"
| "fl_div F NaN _ = NaN"
| "fl_div F _ NaN = NaN"
| "fl_div F (Inf s) (Inf t) = NaN"
| "fl_div F (Inf s) (Fin b) = Inf (s \<noteq> (b < 0))"
| "fl_div F (Fin a) (Inf t) = Fin 0"

fun fl_lt :: "fl \<Rightarrow> fl \<Rightarrow> bool" where
  "fl_lt (Fin a) (Fin b) = (a < b)"
| "fl_lt (Inf s) (Inf t) = (s \<and> \<not> t)"
| "fl_lt (Inf s) (Fin _) = s"
| "fl_lt (Fin _) (Inf t) = (\<not> t)"
| "fl_lt _ _ = False"

fun fl_eq :: "fl \<Rightarrow> fl \<Rightarrow> bool" where
  "fl_eq (Fin a) (Fin b) = (a = b)"
| "fl_eq (Inf s) (Inf t) = (s = t)"
| "fl_eq _ _ = False"

definition fl_le :: "fl \<Rightarrow> fl \<Rightarrow> bool" where
  "fl_le a b \<longleftrightarrow> fl_lt a b \<or> fl_eq a b"

definition is_number :: "fl \<Rightarrow> bool" where
  "is_number x = (case x of Fin _ \<Rightarrow> True | _ \<Rightarrow> False)"

definition fl_of_int :: "fformat \<Rightarrow> int \<Rightarrow> fl" where
  "fl_of_int F i = fl_round F (of_int i)"

text \<open>\<open>math.Sqrt\<close> is correctly rounded: the integer square root of the scaled argument decides.\<close>

function isqrt :: "int \<Rightarrow> int" where
  "isqrt n = (if n \<le> 0 then 0 else
     let r = 2 * isqrt (n div 4) in if (r + 1) * (r + 1) \<le> n then r + 1 else r)"
  by pat_completeness auto
termination
  by (relation "measure nat") auto

declare isqrt.simps [simp del]

definition sqrt_quantum :: "fformat \<Rightarrow> rat \<Rightarrow> rat" where
  "sqrt_quantum F x = 2 powi (ilog2 x div 2 - int (prec F) + 1)"

fun fl_sqrt :: "fformat \<Rightarrow> fl \<Rightarrow> fl" where
  "fl_sqrt F (Fin a) =
     (if a < 0 then NaN else if a = 0 then Fin 0
      else
        let q = sqrt_quantum F a; s = a / (q * q); f = isqrt \<lfloor>s\<rfloor>; h = (2 * of_int f + 1) / 2 in
        Fin (q * (if s < h * h then of_int f else if h * h < s then of_int (f + 1)
                  else if even f then of_int f else of_int (f + 1))))"
| "fl_sqrt F (Inf s) = (if s then NaN else Inf False)"
| "fl_sqrt F NaN = NaN"

subsection \<open>Facts about rounding\<close>

lemma powi2_pos [simp]: "(0 :: rat) < 2 powi k"
  by simp

lemma powi2_mono: "k \<le> j \<Longrightarrow> (2 :: rat) powi k \<le> 2 powi j"
  by (rule power_int_increasing) auto

lemma powi2_less_imp: "(2 :: rat) powi k < 2 powi j \<Longrightarrow> k < j"
  using powi2_mono [of j k] by (simp add: not_le [symmetric]) (metis not_le)

lemma powi2_nat: "(2 :: rat) powi int n = of_int (2 ^ n)"
  by simp

lemma bitlen_pos: "0 < n \<Longrightarrow> 0 < bitlen n"
  using bitlen_bounds [of n] by (cases "0 < bitlen n") auto

lemma ilog2_bounds:
  assumes "0 < x"
  shows "2 powi ilog2 x \<le> x" "x < 2 powi (ilog2 x + 1)"
proof -
  obtain n d where q: "quotient_of x = (n, d)" by fastforce
  have d: "0 < d" using quotient_of_denom_pos [OF q] .
  have x: "x = of_int n / of_int d" using quotient_of_div [OF q] .
  have n: "0 < n" using assms d unfolding x by (simp add: zero_less_divide_iff)
  have bn: "2 ^ nat (bitlen n - 1) \<le> n" "n < 2 ^ nat (bitlen n)" "0 < bitlen n"
    using bitlen_bounds [of n] bitlen_pos [of n] n by auto
  have bd: "2 ^ nat (bitlen d - 1) \<le> d" "d < 2 ^ nat (bitlen d)" "0 < bitlen d"
    using bitlen_bounds [of d] bitlen_pos [of d] d by auto
  have pw: "(2 :: rat) powi k = of_int (2 ^ nat k)" if "0 \<le> k" for k
    using that by (simp add: power_int_def)
  have rn: "2 powi (bitlen n - 1) \<le> (of_int n :: rat)" "(of_int n :: rat) < 2 powi bitlen n"
    using bn by (simp_all only: pw of_int_le_iff of_int_less_iff)
  have rd: "2 powi (bitlen d - 1) \<le> (of_int d :: rat)" "(of_int d :: rat) < 2 powi bitlen d"
    using bd by (simp_all only: pw of_int_le_iff of_int_less_iff)
  let ?k = "bitlen n - bitlen d"
  have "x < 2 powi bitlen n / 2 powi (bitlen d - 1)"
    unfolding x by (rule frac_less) (use rn rd n d in auto)
  also have "\<dots> = 2 powi (bitlen n - (bitlen d - 1))" by (subst power_int_diff) simp_all
  finally have up: "x < 2 powi (?k + 1)" by (simp add: algebra_simps)
  have "2 powi (bitlen n - 1) / 2 powi bitlen d \<le> x"
    unfolding x by (rule frac_le) (use rn rd n d in auto)
  moreover have "2 powi (bitlen n - 1) / 2 powi bitlen d = (2 :: rat) powi (bitlen n - 1 - bitlen d)"
    by (subst power_int_diff) simp_all
  ultimately have lo: "2 powi (?k - 1) \<le> x" by (simp add: algebra_simps)
  have "ilog2 x = (if 2 powi ?k \<le> x then ?k else ?k - 1)" by (simp add: ilog2_def q Let_def)
  then show "2 powi ilog2 x \<le> x" "x < 2 powi (ilog2 x + 1)" using up lo by auto
qed

lemma ilog2_mono: "0 < x \<Longrightarrow> x \<le> y \<Longrightarrow> ilog2 x \<le> ilog2 y"
proof -
  assume a: "0 < x" "x \<le> y"
  then have "(2 :: rat) powi ilog2 x < 2 powi (ilog2 y + 1)"
    using ilog2_bounds(1) [of x] ilog2_bounds(2) [of y] by linarith
  then show ?thesis using powi2_less_imp by fastforce
qed

lemma round_half_even_mono: "x \<le> y \<Longrightarrow> round_half_even x \<le> round_half_even y"
proof (cases "\<lfloor>x\<rfloor> = \<lfloor>y\<rfloor>")
  case False
  assume "x \<le> y"
  then have "\<lfloor>x\<rfloor> + 1 \<le> \<lfloor>y\<rfloor>" using False floor_mono [of x y] by linarith
  then show ?thesis by (auto simp: round_half_even_def Let_def)
qed (auto simp: round_half_even_def Let_def)

lemma round_half_even_int [simp]: "round_half_even (of_int i) = i"
  by (simp add: round_half_even_def)

lemma quantum_pos [simp]: "0 < quantum F x"
  by (simp add: quantum_def)

lemma rnd_pos_mono:
  assumes "0 < x" "x \<le> y" "0 < prec F"
  shows "rnd_pos F x \<le> rnd_pos F y"
proof (cases "max (ilog2 x) (emin F) = max (ilog2 y) (emin F)")
  case True
  then have q: "quantum F x = quantum F y" by (simp add: quantum_def)
  have "x / quantum F y \<le> y / quantum F y"
    using assms(2) by (simp add: divide_right_mono less_imp_le)
  then show ?thesis
    using round_half_even_mono unfolding rnd_pos_def q by (simp add: mult_left_mono less_imp_le)
next
  case False
  let ?ex = "max (ilog2 x) (emin F)" and ?p = "int (prec F)"
  have e: "?ex < ilog2 y" "max (ilog2 y) (emin F) = ilog2 y"
    using False ilog2_mono [OF assms(1,2)] by (auto simp: max_def split: if_splits)
  have qx: "quantum F x * 2 powi ?p = 2 powi (?ex + 1)"
    unfolding quantum_def by (subst power_int_add [symmetric]) (auto intro!: arg_cong [where f = "(powi) 2"])
  have qy: "quantum F y * 2 powi (?p - 1) = 2 powi ilog2 y"
    unfolding quantum_def e by (subst power_int_add [symmetric]) (auto intro!: arg_cong [where f = "(powi) 2"])
  have "int (prec F - 1) = ?p - 1" using assms(3) by simp
  then have p1: "(2 :: rat) powi (?p - 1) = of_int (2 ^ (prec F - 1))"
    using powi2_nat [of "prec F - 1"] by (simp only:)
  have "x \<le> quantum F x * 2 powi ?p"
    unfolding qx using ilog2_bounds(2) [OF assms(1)] powi2_mono [of "ilog2 x + 1" "?ex + 1"] by simp
  then have "x / quantum F x \<le> of_int (2 ^ prec F)" by (simp add: divide_le_eq mult.commute)
  then have "round_half_even (x / quantum F x) \<le> 2 ^ prec F"
    using round_half_even_mono round_half_even_int by metis
  then have "rnd_pos F x \<le> quantum F x * of_int (2 ^ prec F)"
    unfolding rnd_pos_def by (intro mult_left_mono) (simp_all only: of_int_le_iff quantum_pos less_imp_le)
  also have "\<dots> = 2 powi (?ex + 1)" unfolding qx [symmetric] powi2_nat ..
  also have "\<dots> \<le> 2 powi ilog2 y" using e(1) by (intro powi2_mono) linarith
  also have "\<dots> = quantum F y * of_int (2 ^ (prec F - 1))"
    unfolding qy [symmetric] p1 ..
  also have "\<dots> \<le> rnd_pos F y"
  proof -
    have "quantum F y * 2 powi (?p - 1) \<le> y" unfolding qy using ilog2_bounds(1) assms by simp
    then have "of_int (2 ^ (prec F - 1)) \<le> y / quantum F y"
      unfolding p1 by (simp add: le_divide_eq mult.commute)
    then have "2 ^ (prec F - 1) \<le> round_half_even (y / quantum F y)"
      using round_half_even_mono round_half_even_int by metis
    then show ?thesis
      unfolding rnd_pos_def by (intro mult_left_mono) (simp_all only: of_int_le_iff quantum_pos less_imp_le)
  qed
  finally show ?thesis .
qed

lemma rnd_pos_nonneg: "0 < x \<Longrightarrow> 0 \<le> rnd_pos F x"
proof -
  assume "0 < x"
  then have "of_int 0 \<le> x / quantum F x" by (simp add: less_imp_le)
  then have "0 \<le> round_half_even (x / quantum F x)"
    using round_half_even_mono round_half_even_int by metis
  then show ?thesis by (simp add: rnd_pos_def less_imp_le)
qed

lemma rnd_mono: "0 < prec F \<Longrightarrow> x \<le> y \<Longrightarrow> rnd F x \<le> rnd F y"
  using rnd_pos_mono [of x y F] rnd_pos_mono [of "- y" "- x" F] rnd_pos_nonneg [of y F]
    rnd_pos_nonneg [of "- x" F]
  by (auto simp: rnd_def)

lemma rnd_0 [simp]: "rnd F 0 = 0"
  by (simp add: rnd_def)

lemma rnd_minus: "rnd F (- x) = - rnd F x"
  by (simp add: rnd_def)

text \<open>A multiple of its own quantum is representable.\<close>

lemma rnd_exact:
  assumes "x = of_int m * quantum F x" "0 < x"
  shows "rnd F x = x"
proof -
  have "x / quantum F x = of_int m" using assms(1) quantum_pos [of F x] by (metis nonzero_mult_div_cancel_right less_irrefl)
  then show ?thesis using assms by (simp add: rnd_def rnd_pos_def mult.commute)
qed

lemma rnd_int:
  assumes "\<bar>i\<bar> < 2 ^ prec F" "emin F \<le> int (prec F) - 1"
  shows "rnd F (of_int i) = of_int i"
proof -
  have pos: "rnd F (of_int j) = of_int j" if j: "0 < j" "j < 2 ^ prec F" for j
  proof (rule rnd_exact)
    have "2 powi ilog2 (of_int j) \<le> (of_int j :: rat)" using j by (intro ilog2_bounds) simp
    also have "\<dots> < 2 powi int (prec F)" unfolding powi2_nat using j(2) by (simp only: of_int_less_iff)
    finally have "ilog2 (of_int j) < int (prec F)" by (rule powi2_less_imp)
    then have e: "0 \<le> - (max (ilog2 (of_int j)) (emin F) - int (prec F) + 1)" (is "0 \<le> ?e")
      using assms(2) by simp
    have "quantum F (of_int j) = 2 powi (- ?e)" unfolding quantum_def by (rule arg_cong) linarith
    moreover have "(of_int (2 ^ nat ?e) :: rat) = 2 powi ?e"
      using powi2_nat [of "nat ?e"] e by simp
    moreover have "(2 :: rat) powi (- ?e) * 2 powi ?e = 1"
      by (subst power_int_add [symmetric]) simp_all
    ultimately have "quantum F (of_int j) * of_int (2 ^ nat ?e) = 1" by metis
    then have "of_int j = of_int (j * 2 ^ nat ?e) * quantum F (of_int j)" by (simp add: mult_ac)
    then show "(of_int j :: rat) = of_int (j * 2 ^ nat ?e) * quantum F (of_int j)" .
  qed (use j in simp)
  show ?thesis
    using pos [of i] pos [of "- i"] assms(1) rnd_minus [of F "of_int (- i)"]
    by (cases i "0 :: int" rule: linorder_cases) auto
qed

lemma rnd_nonneg: "0 < prec F \<Longrightarrow> 0 \<le> x \<Longrightarrow> 0 \<le> rnd F x"
  using rnd_mono [of F 0 x] by simp

text \<open>Every multiple of a power of two that is at least the quantum is representable.\<close>

lemma rnd_multiple:
  assumes "x = of_int m * 2 powi k" "max (ilog2 x) (emin F) - int (prec F) + 1 \<le> k" "0 < x"
  shows "rnd F x = x"
proof (rule rnd_exact)
  let ?j = "nat (k - (max (ilog2 x) (emin F) - int (prec F) + 1))"
  have "(2 :: rat) powi k = 2 powi (int ?j + (max (ilog2 x) (emin F) - int (prec F) + 1))"
    using assms(2) by (intro arg_cong [where f = "(powi) 2"]) simp
  also have "\<dots> = of_int (2 ^ ?j) * quantum F x"
    unfolding quantum_def powi2_nat [symmetric] by (rule power_int_add) simp
  finally show "x = of_int (m * 2 ^ ?j) * quantum F x" using assms(1) by simp
qed (use assms in simp)

lemma ilog2_less: "0 < x \<Longrightarrow> x < 2 powi k \<Longrightarrow> ilog2 x < k"
  using ilog2_bounds(1) [of x] powi2_less_imp [of "ilog2 x" k] by simp

lemma ilog2_powi [simp]: "ilog2 (2 powi k) = k"
proof -
  have "ilog2 (2 powi k) < k + 1"
    by (rule ilog2_less) (simp_all add: power_int_add)
  moreover have "(2 :: rat) powi k < 2 powi (ilog2 (2 powi k) + 1)" by (rule ilog2_bounds) simp
  then have "k < ilog2 (2 powi k) + 1" by (rule powi2_less_imp)
  ultimately show ?thesis by simp
qed

lemma rnd_powi: "0 < prec F \<Longrightarrow> emin F - int (prec F) + 1 \<le> k \<Longrightarrow> rnd F (2 powi k) = 2 powi k"
  by (rule rnd_multiple [where m = 1 and k = k]) auto

lemma rnd_idem:
  assumes p: "0 < prec F"
  shows "rnd F (rnd F x) = rnd F x"
proof -
  have pos: "rnd F (rnd_pos F x) = rnd_pos F x" if x: "0 < x" for x
  proof -
    define e where "e = max (ilog2 x) (emin F)"
    define m where "m = round_half_even (x / quantum F x)"
    define k where "k = e - int (prec F) + 1"
    have q: "quantum F x = 2 powi k" by (simp add: quantum_def e_def k_def)
    have y: "rnd_pos F x = of_int m * 2 powi k" unfolding rnd_pos_def m_def q by simp
    have "x < 2 powi (e + 1)"
      using ilog2_bounds(2) [OF x] powi2_mono [of "ilog2 x + 1" "e + 1"] by (simp add: e_def)
    also have "(2 :: rat) powi (e + 1) = of_int (2 ^ prec F) * 2 powi k"
      unfolding powi2_nat [symmetric] k_def
      by (subst power_int_add [symmetric]) (auto intro!: arg_cong [where f = "(powi) 2"])
    finally have "x / quantum F x \<le> of_int (2 ^ prec F)"
      unfolding q by (simp add: divide_le_eq less_imp_le)
    then have m: "m \<le> 2 ^ prec F"
      unfolding m_def using round_half_even_mono round_half_even_int by metis
    show ?thesis
    proof (cases "rnd_pos F x = 0")
      case True
      then show ?thesis by (simp add: rnd_def)
    next
      case False
      with rnd_pos_nonneg [OF x, of F] have y0: "0 < rnd_pos F x" by simp
      show ?thesis
      proof (cases "m = 2 ^ prec F")
        case True
        have "rnd_pos F x = 2 powi (int (prec F) + k)"
          unfolding y True powi2_nat [symmetric] by (rule power_int_add [symmetric]) simp
        moreover have "emin F - int (prec F) + 1 \<le> int (prec F) + k"
          using p by (simp add: k_def e_def)
        ultimately show ?thesis using rnd_powi [OF p] by simp
      next
        case False
        then have "m < 2 ^ prec F" using m by simp
        then have "(of_int m :: rat) < of_int (2 ^ prec F)" by (simp only: of_int_less_iff)
        then have "rnd_pos F x < of_int (2 ^ prec F) * 2 powi k"
          unfolding y by (rule mult_strict_right_mono) simp
        also have "of_int (2 ^ prec F) * 2 powi k = (2 :: rat) powi (e + 1)"
          unfolding powi2_nat [symmetric] k_def
          by (subst power_int_add [symmetric]) (auto intro!: arg_cong [where f = "(powi) 2"])
        finally have "ilog2 (rnd_pos F x) < e + 1" using y0 by (intro ilog2_less)
        then have "max (ilog2 (rnd_pos F x)) (emin F) - int (prec F) + 1 \<le> k"
          by (simp add: k_def e_def)
        from rnd_multiple [OF y this y0] show ?thesis .
      qed
    qed
  qed
  show ?thesis
  proof (cases x "0 :: rat" rule: linorder_cases)
    case less
    then have "rnd F x = - rnd_pos F (- x)" by (simp add: rnd_def)
    then show ?thesis using pos [of "- x"] less by (simp add: rnd_minus)
  next
    case greater
    then have "rnd F x = rnd_pos F x" by (simp add: rnd_def)
    then show ?thesis using pos [OF greater] by simp
  qed (simp add: rnd_def)
qed

text \<open>Below the largest power of two nothing overflows.\<close>

lemma fl_round_bounded:
  assumes "0 < prec F" "\<bar>x\<bar> \<le> 2 powi k" "emin F - int (prec F) + 1 \<le> k" "k \<le> emax F"
  shows "fl_round F x = Fin (rnd F x)" "\<bar>rnd F x\<bar> \<le> 2 powi k"
proof -
  have "rnd F x \<le> rnd F (2 powi k)" "rnd F (- (2 powi k)) \<le> rnd F x"
    using assms(1,2) by (auto intro!: rnd_mono)
  then have b: "rnd F x \<le> 2 powi k" "- (2 powi k) \<le> rnd F x"
    using rnd_powi [OF assms(1,3)] by (simp_all add: rnd_minus)
  then show "\<bar>rnd F x\<bar> \<le> 2 powi k" by simp
  have "(2 :: rat) powi k < 2 powi (emax F + 1)"
    using assms(4) by (intro power_int_strict_increasing) auto
  with b show "fl_round F x = Fin (rnd F x)" by (simp add: fl_round_def Let_def)
qed

lemma f64_simps [simp]: "prec f64 = 53" "emin f64 = - 1022" "emax f64 = 1023"
  by (simp_all add: f64_def)

lemma f64_round:
  assumes "\<bar>x\<bar> \<le> 2 ^ 100"
  shows "fl_round f64 x = Fin (rnd f64 x)" "\<bar>rnd f64 x\<bar> \<le> 2 ^ 100"
  using fl_round_bounded [of f64 x 100] assms by (simp_all add: power_int_def)

lemma f64_round_nonneg: "0 \<le> x \<Longrightarrow> x \<le> 2 ^ 100 \<Longrightarrow> fl_round f64 x = Fin (rnd f64 x)"
  by (rule f64_round(1)) (simp only: abs_of_nonneg)

lemma f64_int: "\<bar>i\<bar> < 2 ^ 53 \<Longrightarrow> rnd f64 (of_int i) = of_int i"
  by (rule rnd_int) simp_all

lemma f64_mono: "x \<le> y \<Longrightarrow> rnd f64 x \<le> rnd f64 y"
  by (rule rnd_mono) simp

lemma f64_nonneg: "0 \<le> x \<Longrightarrow> 0 \<le> rnd f64 x"
  by (rule rnd_nonneg) simp

lemma f64_idem [simp]: "rnd f64 (rnd f64 x) = rnd f64 x"
  by (rule rnd_idem) simp

lemma f64_1 [simp]: "rnd f64 1 = 1"
  using f64_int [of 1] by simp

lemma isqrt_nonneg: "0 \<le> isqrt n"
proof (induction n rule: isqrt.induct)
  case (1 n)
  then show ?case by (subst isqrt.simps) (auto simp: Let_def)
qed

lemma isqrt_bounds: "0 \<le> n \<Longrightarrow> isqrt n * isqrt n \<le> n \<and> n < (isqrt n + 1) * (isqrt n + 1)"
proof (induction n rule: isqrt.induct)
  case (1 n)
  show ?case
  proof (cases "n \<le> 0")
    case False
    let ?s = "isqrt (n div 4)" let ?r = "2 * ?s"
    have IH: "?s * ?s \<le> n div 4" "n div 4 < (?s + 1) * (?s + 1)" using 1 False by auto
    have "?r * ?r \<le> n" using IH(1) by simp
    moreover have "n div 4 + 1 \<le> (?s + 1) * (?s + 1)" using IH(2) by simp
    then have "n < 4 * ((?s + 1) * (?s + 1))" by simp
    then have "n < (?r + 2) * (?r + 2)" by (simp add: algebra_simps)
    ultimately show ?thesis using False by (subst (1 2 3 4) isqrt.simps) (auto simp: Let_def algebra_simps)
  qed (use 1 in \<open>simp add: isqrt.simps\<close>)
qed

lemma fl_sqrt_nonneg:
  assumes "0 \<le> a"
  obtains s where "fl_sqrt F (Fin a) = Fin s" "0 \<le> s"
proof -
  have "\<exists>s. fl_sqrt F (Fin a) = Fin s \<and> 0 \<le> s"
    using assms isqrt_nonneg by (auto simp: Let_def sqrt_quantum_def intro!: mult_nonneg_nonneg add_nonneg_nonneg)
  then show ?thesis using that by blast
qed

subsection \<open>time.Duration.Seconds\<close>

text \<open>Go's integer division truncates toward zero.\<close>

definition seconds :: "duration \<Rightarrow> fl" where
  "seconds d =
     (let s = sgn d * (\<bar>d\<bar> div second); n = sgn d * (\<bar>d\<bar> mod second) in
      fl_add f64 (fl_of_int f64 s) (fl_div f64 (fl_of_int f64 n) (Fin (10 ^ 9))))"

lemma seconds_value:
  assumes "0 \<le> d" "in_i64 d"
  shows "seconds d = Fin (rnd f64 (of_int (d div second) + rnd f64 (of_int (d mod second) / 10 ^ 9)))"
    (is "_ = Fin (rnd f64 (?s + rnd f64 ?f))")
proof -
  have d: "0 \<le> d div second" "d div second < 2 ^ 34" "0 \<le> d mod second" "d mod second < second"
    using assms by (auto simp: in_i64_def)
  have f: "0 \<le> ?f" "?f \<le> 1" using d(3,4) by (auto simp: divide_le_eq)
  have rf: "0 \<le> rnd f64 ?f" "rnd f64 ?f \<le> 1"
    using f64_nonneg [OF f(1)] f64_mono [OF f(2)] by simp_all
  have s: "0 \<le> ?s" "?s \<le> 2 ^ 34" using d(1,2) by (auto simp flip: of_int_power)
  have "fl_of_int f64 (d div second) = Fin ?s" "fl_of_int f64 (d mod second) = Fin (of_int (d mod second))"
    using d f64_round(1) [of "of_int (d div second)"] f64_round(1) [of "of_int (d mod second)"] s
      f64_int [of "d div second"] f64_int [of "d mod second"]
    by (auto simp: fl_of_int_def)
  moreover have e: "sgn d * (\<bar>d\<bar> div second) = d div second" "sgn d * (\<bar>d\<bar> mod second) = d mod second"
    using assms(1) by (cases "d = 0"; simp)+
  ultimately show ?thesis
    using f64_round(1) [of ?f] f64_round(1) [of "?s + rnd f64 ?f"] f rf s
    unfolding seconds_def e Let_def by simp
qed

text \<open>
  Comparing with a whole number of seconds: never late, and at most one second early (the sum may
  round up to the next whole second).
\<close>

lemma seconds_ge:
  assumes "0 \<le> h" "h < 2 ^ 53" "h * second \<le> d" "in_i64 d"
  shows "fl_le (fl_of_int f64 h) (seconds d)"
proof -
  have h: "fl_of_int f64 h = Fin (of_int h)"
    using assms f64_round(1) [of "of_int h"] f64_int [of h]
    by (simp add: fl_of_int_def flip: of_int_power) 
  have "h \<le> d div second" using assms(3) by (simp add: zdiv_mono1 [of "h * second", simplified])
  then have "(of_int h :: rat) \<le> of_int (d div second) + rnd f64 (of_int (d mod second) / 10 ^ 9)"
    using f64_nonneg [of "of_int (d mod second) / 10 ^ 9"] by (simp add: add_increasing2)
  then have "rnd f64 (of_int h) \<le> rnd f64 (of_int (d div second) + rnd f64 (of_int (d mod second) / 10 ^ 9))"
    by (rule f64_mono)
  moreover have "0 \<le> d" using assms(1,3) by (meson mult_nonneg_nonneg order_trans zero_le_numeral)
  ultimately show ?thesis
    using assms h f64_int [of h] seconds_value [of d] by (simp add: fl_le_def) linarith
qed

lemma seconds_ge_imp:
  assumes "0 \<le> h" "h < 2 ^ 53" "fl_le (fl_of_int f64 h) (seconds d)" "0 \<le> d" "in_i64 d"
  shows "(h - 1) * second \<le> d"
proof -
  have h: "fl_of_int f64 h = Fin (of_int h)"
    using assms f64_round(1) [of "of_int h"] f64_int [of h]
    by (simp add: fl_of_int_def flip: of_int_power)
  let ?s = "d div second" and ?f = "of_int (d mod second) / 10 ^ 9 :: rat"
  have "?f \<le> 1" by (simp add: divide_le_eq less_imp_le)
  then have "rnd f64 ?f \<le> 1" using f64_mono [of ?f 1] by simp
  then have "rnd f64 (of_int ?s + rnd f64 ?f) \<le> rnd f64 (of_int (?s + 1))"
    by (intro f64_mono) simp
  also have "\<dots> = of_int (?s + 1)" using assms by (intro f64_int) (auto simp: in_i64_def)
  finally have "(of_int h :: rat) \<le> of_int (?s + 1)"
    using assms h seconds_value [of d] by (auto simp: fl_le_def)
  then have "h \<le> ?s + 1" by (simp only: of_int_le_iff)
  then show ?thesis by simp
qed

end
