(* ===== verification/Canary.thy ===== *)
theory Canary
  imports GoFloat
begin

section \<open>Canary analysis: traffic split, regression test, state machine\<close>

text \<open>
  Model of \<open>pkg/canary/split.go\<close> and \<open>pkg/canary/state.go\<close> with the plan data of
  \<open>pkg/intelligence/autonomy.go\<close>. The rates and the Wilson bound are computed in \<open>float64\<close>
  (theory \<open>GoFloat\<close>), in the order of operations of the source.
\<close>

datatype canary_status =
  Draft | Ramping | Holding | Promoted | RolledBack | CanaryFailed | Paused | OtherStatus string

record canary_step =
  candidate_percent :: int
  hold_seconds :: int
  min_samples :: int

record canary_plan =
  plan_id :: string
  plan_tenant :: string
  resource_urn :: string
  baseline_urn :: string
  candidate_urn :: string
  ladder :: "canary_step list"
  max_proportion_delta :: fl
  max_latency_delta :: int
  auto_promote :: bool
  plan_status :: canary_status
  current_step :: int
  last_step_at :: time
  failure_reason :: string
  plan_created_at :: time
  plan_updated_at :: time

subsection \<open>Deterministic traffic split\<close>

definition fnv1a :: "string \<Rightarrow> 32 word" where
  "fnv1a s = foldl (\<lambda>h c. xor h (word_of_nat (of_char c)) * 16777619) 2166136261 s"

definition variant :: "string \<Rightarrow> int \<Rightarrow> string" where
  "variant split_key pct =
     (if pct \<le> 0 then ''baseline''
      else if 100 \<le> pct then ''candidate''
      else let bucket = int (unat (fnv1a split_key mod 100)) in
        if bucket < pct then ''candidate'' else ''baseline'')"

subsection \<open>Regression test\<close>

record canary_counts =
  successes :: int
  failures :: int
  p95_latency_ms :: int

record regression_input =
  in_baseline :: canary_counts
  in_candidate :: canary_counts
  in_max_delta :: fl
  in_max_latency :: int
  in_min_samples :: int

record verdict =
  healthy :: bool
  reason :: string
  baseline_rate :: fl
  candidate_rate :: fl
  candidate_lower_bound :: fl

definition safe_rate :: "int \<Rightarrow> int \<Rightarrow> fl" where
  "safe_rate success tot =
     (if tot = 0 then Fin 0 else fl_div f64 (fl_of_int f64 success) (fl_of_int f64 tot))"

definition wilson_z :: fl where "wilson_z = fl_round f64 (196 / 100)"
definition wilson_z2 :: fl where "wilson_z2 = fl_round f64 (196 / 100 * (196 / 100))"

definition wilson_lower_bound :: "int \<Rightarrow> int \<Rightarrow> fl" where
  "wilson_lower_bound success tot =
     (if tot \<le> 0 then Fin 0
      else
        let n = fl_of_int f64 tot;
            p = fl_div f64 (fl_of_int f64 success) n;
            denom = fl_add f64 (Fin 1) (fl_div f64 wilson_z2 n);
            center = fl_add f64 p (fl_div f64 wilson_z2 (fl_mul f64 (Fin 2) n));
            margin = fl_mul f64 wilson_z (fl_sqrt f64
              (fl_div f64
                (fl_add f64 (fl_mul f64 p (fl_sub f64 (Fin 1) p))
                            (fl_div f64 wilson_z2 (fl_mul f64 (Fin 4) n)))
                n));
            lb = fl_div f64 (fl_sub f64 center margin) denom
        in if fl_lt lb (Fin 0) then Fin 0 else lb)"

definition assess_regression :: "regression_input \<Rightarrow> verdict" where
  "assess_regression inp =
     (let b = in_baseline inp; c = in_candidate inp;
          bn = i64 (successes b + failures b);
          cn = i64 (successes c + failures c) in
      if bn < in_min_samples inp \<or> cn < in_min_samples inp
      then \<lparr>healthy = False, reason = ''insufficient_samples'',
            baseline_rate = Fin 0, candidate_rate = Fin 0, candidate_lower_bound = Fin 0\<rparr>
      else
        let br = safe_rate (successes b) bn;
            cr = safe_rate (successes c) cn;
            lo = wilson_lower_bound (successes c) cn;
            v = \<lparr>healthy = True, reason = ''non_inferior'',
                 baseline_rate = br, candidate_rate = cr, candidate_lower_bound = lo\<rparr> in
        if fl_lt (in_max_delta inp) (fl_sub f64 br lo)
        then v\<lparr>healthy := False, reason := ''proportion_regression''\<rparr>
        else if 0 < in_max_latency inp \<and> 0 < p95_latency_ms c \<and> 0 < p95_latency_ms b \<and>
                in_max_latency inp < i64 (p95_latency_ms c - p95_latency_ms b)
        then v\<lparr>healthy := False, reason := ''latency_regression''\<rparr>
        else v)"

subsection \<open>State machine\<close>

record decision =
  new_status :: canary_status
  new_step :: int
  dec_failure :: string
  gate_required :: bool
  human_readable :: string

abbreviation (input) dec :: "canary_status \<Rightarrow> int \<Rightarrow> string \<Rightarrow> decision" where
  "dec s k h \<equiv> \<lparr>new_status = s, new_step = k, dec_failure = [], gate_required = False, human_readable = h\<rparr>"

definition canary_next :: "canary_plan \<Rightarrow> verdict \<Rightarrow> time \<Rightarrow> decision" where
  "canary_next plan v now =
     (if plan_status plan \<in> {Promoted, RolledBack, CanaryFailed, Paused}
      then dec (plan_status plan) (- 1) ''terminal''
      else if ladder plan = []
      then (dec CanaryFailed (- 1) ''empty ladder'')\<lparr>dec_failure := ''empty_ladder''\<rparr>
      else
        let step = (if current_step plan < 0 then 0 else current_step plan);
            len = int (length (ladder plan)) in
        if len \<le> step
        then (if auto_promote plan
              then (dec Promoted step ''auto_promote at end of ladder (gated)'')\<lparr>gate_required := True\<rparr>
              else dec Holding step ''holding at last step; awaiting manual promote'')
        else
          let current = ladder plan ! nat step in
          if \<not> healthy v \<and> reason v \<noteq> ''insufficient_samples''
          then (dec RolledBack 0 (''regression detected: '' @ reason v))\<lparr>dec_failure := reason v\<rparr>
          else if reason v = ''insufficient_samples''
          then dec Holding step ''awaiting more samples at step''
          else if \<not> is_zero (last_step_at plan) \<and>
                  fl_le (fl_of_int f64 (hold_seconds current)) (seconds (time_sub now (last_step_at plan)))
          then
            let nxt = step + 1 in
            if len \<le> nxt
            then (if auto_promote plan
                  then (dec Promoted nxt ''advancing to PROMOTED (gated)'')\<lparr>gate_required := True\<rparr>
                  else dec Holding nxt ''advancing to last step; holding for manual promote'')
            else dec Ramping nxt ''advancing to next step''
          else dec Holding step ''holding until window elapses'')"

subsection \<open>Facts about the split\<close>

lemma variant_cases: "variant k p = ''baseline'' \<or> variant k p = ''candidate''"
  by (simp add: variant_def Let_def)

lemma bucket_range: "int (unat (fnv1a k mod 100)) < 100"
proof -
  have "fnv1a k mod 100 < 100" by (rule word_mod_less_divisor) (simp add: word_gt_0)
  then have "unat (fnv1a k mod 100) < unat (100 :: 32 word)" by (simp only: word_less_nat_alt)
  then have "unat (fnv1a k mod 100) < 100" by simp
  then have "int (unat (fnv1a k mod 100)) < int 100" by (simp only: of_nat_less_iff)
  then show ?thesis by simp
qed

lemma variant_candidate_iff: "variant k p = ''candidate'' \<longleftrightarrow> int (unat (fnv1a k mod 100)) < p"
proof -
  define b where "b = int (unat (fnv1a k mod 100))"
  have "0 \<le> b" "b < 100" using bucket_range [of k] by (simp_all only: b_def of_nat_0_le_iff)
  then show ?thesis unfolding variant_def Let_def b_def [symmetric] by auto
qed

subsection \<open>Facts about the Wilson bound\<close>

lemma count_f64:
  assumes "0 \<le> s" "in_i64 s"
  shows "fl_of_int f64 s = Fin (rnd f64 (of_int s))" "0 \<le> rnd f64 (of_int s)"
    "rnd f64 (of_int s) \<le> 2 ^ 63"
proof -
  have b: "(of_int s :: rat) \<le> 2 ^ 63"
    using assms(2) by (auto simp: in_i64_def simp flip: of_int_power)
  have s: "(0 :: rat) \<le> of_int s" using assms(1) by simp
  have "(2 :: rat) ^ 63 \<le> 2 ^ 100" by simp
  then have "\<bar>of_int s :: rat\<bar> \<le> 2 ^ 100" using b s by linarith
  then show "fl_of_int f64 s = Fin (rnd f64 (of_int s))" by (simp add: fl_of_int_def f64_round(1))
  show "0 \<le> rnd f64 (of_int s)" by (rule f64_nonneg [OF s])
  have "rnd f64 (2 ^ 63) = 2 ^ 63" using rnd_powi [of f64 63] by (simp add: power_int_def)
  then show "rnd f64 (of_int s) \<le> 2 ^ 63" using f64_mono [OF b] by simp
qed

lemma rate_f64:
  assumes "0 \<le> s" "s \<le> n" "0 < n" "in_i64 n"
  shows "fl_div f64 (fl_of_int f64 s) (fl_of_int f64 n) = Fin (rnd f64 (rnd f64 (of_int s) / rnd f64 (of_int n)))"
    "0 \<le> rnd f64 (rnd f64 (of_int s) / rnd f64 (of_int n))"
    "rnd f64 (rnd f64 (of_int s) / rnd f64 (of_int n)) \<le> 1" "1 \<le> rnd f64 (of_int n)"
proof -
  let ?S = "rnd f64 (of_int s)" and ?N = "rnd f64 (of_int n)"
  have si: "in_i64 s" using in_i64_mono [OF assms(4,1,2)] .
  have N: "1 \<le> ?N" using f64_mono [of 1 "of_int n"] assms(3) by simp
  have S: "0 \<le> ?S" "?S \<le> ?N" using count_f64(2) [OF assms(1) si] f64_mono assms(2) by simp_all
  have q: "0 \<le> ?S / ?N" "?S / ?N \<le> 1" using S N by (simp_all add: divide_le_eq)
  have "?S / ?N \<le> 2 ^ 100" by (rule order_trans [OF q(2)]) simp
  then have "fl_round f64 (?S / ?N) = Fin (rnd f64 (?S / ?N))" by (rule f64_round_nonneg [OF q(1)])
  then show "fl_div f64 (fl_of_int f64 s) (fl_of_int f64 n) = Fin (rnd f64 (?S / ?N))"
    using count_f64(1) [OF assms(1) si] count_f64(1) [of n] assms N by simp
  show "0 \<le> rnd f64 (?S / ?N)" "rnd f64 (?S / ?N) \<le> 1" "1 \<le> ?N"
    using f64_nonneg [OF q(1)] f64_mono [OF q(2)] N by simp_all
qed

lemma safe_rate_bounds:
  assumes "0 \<le> s" "s \<le> n" "in_i64 n"
  obtains x where "safe_rate s n = Fin x" "0 \<le> x" "x \<le> 1"
  using rate_f64 [of s n] assms that by (cases "n = 0") (auto simp: safe_rate_def)

lemma wilson_z_values: obtains z z2 where "wilson_z = Fin z" "wilson_z2 = Fin z2"
  "0 \<le> z" "z \<le> 2" "0 \<le> z2" "z2 \<le> 4"
proof -
  have z: "(196 / 100 :: rat) \<le> of_int 2" "(196 / 100 * (196 / 100) :: rat) \<le> of_int 4" by simp_all
  show ?thesis
    by (rule that [of "rnd f64 (196 / 100)" "rnd f64 (196 / 100 * (196 / 100))"])
      (use f64_mono [OF z(1)] f64_mono [OF z(2)] f64_int [of 2] f64_int [of 4] in
        \<open>auto simp: wilson_z_def wilson_z2_def f64_round(1) f64_nonneg\<close>)
qed

lemma fl_round_nonneg: "0 \<le> x \<Longrightarrow> (\<exists>r. fl_round f64 x = Fin r \<and> 0 \<le> r) \<or> fl_round f64 x = Inf False"
  using f64_nonneg [of x] powi2_pos [of 1024] by (auto simp: fl_round_def Let_def)

lemma fl_round_le_8: "x \<le> 8 \<Longrightarrow> fl_round f64 x = Fin (rnd f64 x) \<or> fl_round f64 x = Inf True"
  using f64_mono [of x 8] f64_int [of 8] powi2_mono [of 4 1024]
  by (auto simp: fl_round_def Let_def power_int_def)

lemma wilson_bounds:
  assumes "0 \<le> s" "s \<le> n" "in_i64 n"
  obtains x where "wilson_lower_bound s n = Fin x" "0 \<le> x" "x \<le> 1"
proof (cases "n = 0")
  case False
  then have n: "0 < n" using assms by simp
  let ?N = "rnd f64 (of_int n)" and ?P = "rnd f64 (rnd f64 (of_int s) / rnd f64 (of_int n))"
  note rate = rate_f64 [OF assms(1,2) n assms(3)]
  note N = count_f64 [of n]
  obtain z z2 where z: "wilson_z = Fin z" "wilson_z2 = Fin z2" "0 \<le> z" "z \<le> 2" "0 \<le> z2" "z2 \<le> 4"
    by (rule wilson_z_values)
  have N63: "?N \<le> 2 ^ 63" using N(3) n assms(3) by simp
  have big: "2 * ?N \<le> 2 ^ 100" "4 * ?N \<le> 2 ^ 100" using N63 by simp_all
  have N2: "?N \<le> rnd f64 (2 * ?N)" "?N \<le> rnd f64 (4 * ?N)"
    using f64_mono [of ?N "2 * ?N"] f64_mono [of ?N "4 * ?N"] rate(4) by simp_all
  have n2: "fl_mul f64 (Fin 2) (Fin ?N) = Fin (rnd f64 (2 * ?N))"
    "fl_mul f64 (Fin 4) (Fin ?N) = Fin (rnd f64 (4 * ?N))"
    using rate(4) big by (simp_all add: f64_round(1))
  have quot: "fl_div f64 wilson_z2 (Fin d) = Fin (rnd f64 (z2 / d)) \<and> 0 \<le> rnd f64 (z2 / d) \<and> rnd f64 (z2 / d) \<le> 4"
    if d: "1 \<le> d" for d
  proof -
    have q: "0 \<le> z2 / d" "z2 / d \<le> of_int 4" using z d by (simp_all add: divide_le_eq)
    have "z2 / d \<le> 2 ^ 100" by (rule order_trans [OF q(2)]) simp
    then have "fl_round f64 (z2 / d) = Fin (rnd f64 (z2 / d))" by (rule f64_round_nonneg [OF q(1)])
    moreover have "d \<noteq> 0" using d by auto
    ultimately have "fl_div f64 (Fin z2) (Fin d) = Fin (rnd f64 (z2 / d))" by simp
    then show ?thesis
      using f64_nonneg [OF q(1)] f64_mono [OF q(2)] f64_int [of 4] unfolding z(2) by simp
  qed
  let ?A = "rnd f64 (z2 / ?N)" and ?B = "rnd f64 (z2 / rnd f64 (2 * ?N))" and ?C = "rnd f64 (z2 / rnd f64 (4 * ?N))"
  have A: "fl_div f64 wilson_z2 (Fin ?N) = Fin ?A" "0 \<le> ?A" "?A \<le> 4" using quot [OF rate(4)] by auto
  have B: "fl_div f64 wilson_z2 (Fin (rnd f64 (2 * ?N))) = Fin ?B" "0 \<le> ?B" "?B \<le> 4"
    using quot [of "rnd f64 (2 * ?N)"] N2 rate(4) by auto
  have C: "fl_div f64 wilson_z2 (Fin (rnd f64 (4 * ?N))) = Fin ?C" "0 \<le> ?C" "?C \<le> 4"
    using quot [of "rnd f64 (4 * ?N)"] N2 rate(4) by auto
  have BA: "?B \<le> ?A"
    by (rule f64_mono, rule divide_left_mono) (use z N2(1) rate(4) in auto)
  let ?D = "rnd f64 (1 + ?A)" and ?E = "rnd f64 (?P + ?B)"
  have D: "fl_add f64 (Fin 1) (Fin ?A) = Fin ?D" "1 \<le> ?D"
    using A f64_mono [of 1 "1 + ?A"] by (simp_all add: f64_round(1))
  have E: "fl_add f64 (Fin ?P) (Fin ?B) = Fin ?E" "0 \<le> ?E" "?E \<le> ?D" "?E \<le> 8"
    using B BA rate(2,3) f64_mono [of "?P + ?B" "1 + ?A"] f64_mono [of "?P + ?B" 8] f64_int [of 8]
    by (simp_all add: f64_round(1) f64_nonneg)
  let ?Q = "rnd f64 (1 - ?P)"
  have Q: "fl_sub f64 (Fin 1) (Fin ?P) = Fin ?Q" "0 \<le> ?Q" "?Q \<le> 1"
    using rate(2,3) f64_mono [of "1 - ?P" 1] by (simp_all add: fl_sub_def f64_round(1) f64_nonneg)
  let ?R = "rnd f64 (?P * ?Q)"
  have pq: "0 \<le> ?P * ?Q" "?P * ?Q \<le> 1"
    using Q rate(2,3) by (simp_all add: mult_le_one)
  have R: "fl_mul f64 (Fin ?P) (Fin ?Q) = Fin ?R" "0 \<le> ?R" "?R \<le> 1"
    using pq f64_mono [OF pq(2)] by (simp_all add: f64_round(1) f64_nonneg)
  let ?T = "rnd f64 (?R + ?C)"
  have T: "fl_add f64 (Fin ?R) (Fin ?C) = Fin ?T" "0 \<le> ?T" "?T \<le> 8"
    using R C f64_mono [of "?R + ?C" 8] f64_int [of 8] by (simp_all add: f64_round(1) f64_nonneg)
  let ?U = "rnd f64 (?T / ?N)"
  have tn: "0 \<le> ?T / ?N" "?T / ?N \<le> 8" using T rate(4) by (simp_all add: divide_le_eq)
  have U: "fl_div f64 (Fin ?T) (Fin ?N) = Fin ?U" "0 \<le> ?U"
    using tn rate(4) by (simp_all add: f64_round(1) f64_nonneg)
  obtain s' where s': "fl_sqrt f64 (Fin ?U) = Fin s'" "0 \<le> s'"
    by (rule fl_sqrt_nonneg [OF U(2)])
  have zs: "0 \<le> z * s'" using z s' by simp
  have M: "(\<exists>m. fl_mul f64 wilson_z (Fin s') = Fin m \<and> 0 \<le> m) \<or> fl_mul f64 wilson_z (Fin s') = Inf False"
    unfolding z(1) using fl_round_nonneg [OF zs] by auto
  define num where "num = fl_sub f64 (Fin ?E) (fl_mul f64 wilson_z (Fin s'))"
  have num: "(\<exists>w. num = Fin w \<and> w \<le> ?D) \<or> num = Inf True"
    using M
  proof
    assume "\<exists>m. fl_mul f64 wilson_z (Fin s') = Fin m \<and> 0 \<le> m"
    then obtain m where m: "fl_mul f64 wilson_z (Fin s') = Fin m" "0 \<le> m" by blast
    have "num = fl_round f64 (?E - m)" by (simp add: num_def m(1) fl_sub_def)
    moreover have "?E - m \<le> ?E" using m(2) by simp
    ultimately show ?thesis using fl_round_le_8 [of "?E - m"] E(3,4) f64_mono [of "?E - m" ?E] by auto
  qed (simp add: num_def fl_sub_def)
  define lb where "lb = fl_div f64 num (Fin ?D)"
  have lb: "(\<exists>r. lb = Fin r \<and> r \<le> 1) \<or> lb = Inf True"
    using num
  proof
    assume "\<exists>w. num = Fin w \<and> w \<le> ?D"
    then obtain w where w: "num = Fin w" "w \<le> ?D" by blast
    then have "w / ?D \<le> 1" using D(2) by (simp add: divide_le_eq)
    moreover have "lb = fl_round f64 (w / ?D)" using D(2) w by (simp add: lb_def)
    ultimately show ?thesis using fl_round_le_8 [of "w / ?D"] f64_mono [of "w / ?D" 1] by auto
  qed (use D in \<open>simp add: lb_def\<close>)
  have "wilson_lower_bound s n = (if fl_lt lb (Fin 0) then Fin 0 else lb)"
    using n unfolding wilson_lower_bound_def Let_def lb_def num_def
    by (simp only: N(1) [OF less_imp_le [OF n] assms(3)] rate(1) [unfolded N(1) [OF less_imp_le [OF n] assms(3)]]
        n2 A(1) B(1) C(1) D(1) E(1) Q(1) R(1) T(1) U(1) s'(1)) simp
  then show ?thesis using lb that by (auto split: if_splits)
qed (use that in \<open>simp add: wilson_lower_bound_def\<close>)

subsection \<open>Facts about verdicts and decisions\<close>

lemma assess_cases:
  obtains "reason (assess_regression inp) = ''insufficient_samples''" "\<not> healthy (assess_regression inp)"
  | "reason (assess_regression inp) \<in> {''proportion_regression'', ''latency_regression''}"
    "\<not> healthy (assess_regression inp)"
  | "reason (assess_regression inp) = ''non_inferior''" "healthy (assess_regression inp)"
proof -
  have "(reason (assess_regression inp) = ''insufficient_samples'' \<and> \<not> healthy (assess_regression inp)) \<or>
    (reason (assess_regression inp) \<in> {''proportion_regression'', ''latency_regression''} \<and>
      \<not> healthy (assess_regression inp)) \<or>
    (reason (assess_regression inp) = ''non_inferior'' \<and> healthy (assess_regression inp))"
    by (simp add: assess_regression_def Let_def)
  then show ?thesis using that by blast
qed

definition regressed :: "verdict \<Rightarrow> bool" where
  "regressed v \<longleftrightarrow> \<not> healthy v \<and> reason v \<noteq> ''insufficient_samples''"

definition held :: "canary_plan \<Rightarrow> time \<Rightarrow> bool" where
  "held p now \<longleftrightarrow> \<not> is_zero (last_step_at p) \<and>
     fl_le (fl_of_int f64 (hold_seconds (ladder p ! nat (current_step p))))
           (seconds (time_sub now (last_step_at p)))"

definition running :: "canary_plan \<Rightarrow> bool" where
  "running p \<longleftrightarrow> plan_status p = Ramping \<or> plan_status p = Holding"

definition on_ladder :: "canary_plan \<Rightarrow> bool" where
  "on_ladder p \<longleftrightarrow> 0 \<le> current_step p \<and> current_step p < int (length (ladder p))"

text \<open>The step of the state machine on a running plan that stands on its ladder.\<close>

lemma canary_next_running:
  assumes "running p" "on_ladder p"
  shows "canary_next p v now =
    (if regressed v
     then \<lparr>new_status = RolledBack, new_step = 0, dec_failure = reason v, gate_required = False,
           human_readable = ''regression detected: '' @ reason v\<rparr>
     else if reason v \<noteq> ''insufficient_samples'' \<and> held p now
     then (if current_step p + 1 < int (length (ladder p)) then dec Ramping (current_step p + 1) ''advancing to next step''
           else if auto_promote p
           then (dec Promoted (current_step p + 1) ''advancing to PROMOTED (gated)'')\<lparr>gate_required := True\<rparr>
           else dec Holding (current_step p + 1) ''advancing to last step; holding for manual promote'')
     else dec Holding (current_step p)
       (if reason v = ''insufficient_samples'' then ''awaiting more samples at step'' else ''holding until window elapses''))"
proof -
  have "ladder p \<noteq> []" using assms(2) by (auto simp: on_ladder_def)
  moreover have "\<not> plan_status p \<in> {Promoted, RolledBack, CanaryFailed, Paused}"
    using assms(1) by (auto simp: running_def)
  ultimately show ?thesis
    using assms(2) by (simp add: canary_next_def Let_def on_ladder_def held_def regressed_def not_le)
qed

subsection \<open>Properties\<close>

text \<open>
  The split is a threshold per key: every key has a fixed bucket from 0 to 99 and is on the
  candidate exactly at the percentages above it. So 0 percent is all baseline, 100 percent all
  candidate, and raising the percentage never moves a key back to the baseline.
\<close>

theorem split_is_threshold:
  "\<exists>b :: int. 0 \<le> b \<and> b < 100 \<and>
     (\<forall>pct. variant key pct = (if b < pct then ''candidate'' else ''baseline''))"
proof (intro exI conjI allI)
  let ?b = "int (unat (fnv1a key mod 100))"
  show "0 \<le> ?b" by (rule of_nat_0_le_iff)
  show "?b < 100" by (rule bucket_range)
  show "variant key pct = (if ?b < pct then ''candidate'' else ''baseline'')" for pct
    using variant_candidate_iff [of key pct] variant_cases [of key pct] by auto
qed

text \<open>
  On plausible counts (no negative count, sums within int64) the verdict is computed from
  proper numbers: both rates and the Wilson lower bound are finite \<open>float64\<close> values between 0 and
  1, never NaN, and a healthy verdict means that the rounded difference of the baseline rate and
  the bound is within the tolerance.
\<close>

theorem assess_rates:
  assumes "0 \<le> successes (in_baseline inp)" "0 \<le> failures (in_baseline inp)"
    "in_i64 (successes (in_baseline inp) + failures (in_baseline inp))"
    "0 \<le> successes (in_candidate inp)" "0 \<le> failures (in_candidate inp)"
    "in_i64 (successes (in_candidate inp) + failures (in_candidate inp))"
  shows "\<exists>x y z. {x, y, z} \<subseteq> {0..1} \<and>
    baseline_rate (assess_regression inp) = Fin x \<and>
    candidate_rate (assess_regression inp) = Fin y \<and>
    candidate_lower_bound (assess_regression inp) = Fin z \<and>
    (healthy (assess_regression inp) \<longrightarrow> fl_le (Fin (rnd f64 (x - z))) (in_max_delta inp) \<or> in_max_delta inp = NaN)"
proof -
  let ?b = "in_baseline inp" and ?c = "in_candidate inp"
  let ?bn = "successes ?b + failures ?b" and ?cn = "successes ?c + failures ?c"
  obtain x where x: "safe_rate (successes ?b) ?bn = Fin x" "0 \<le> x" "x \<le> 1"
    by (rule safe_rate_bounds [of "successes ?b" ?bn]) (use assms in auto)
  obtain y where y: "safe_rate (successes ?c) ?cn = Fin y" "0 \<le> y" "y \<le> 1"
    by (rule safe_rate_bounds [of "successes ?c" ?cn]) (use assms in auto)
  obtain z where z: "wilson_lower_bound (successes ?c) ?cn = Fin z" "0 \<le> z" "z \<le> 1"
    by (rule wilson_bounds [of "successes ?c" ?cn]) (use assms in auto)
  have "\<bar>x - z\<bar> \<le> 2 ^ 100" using x z by simp
  then have d: "fl_sub f64 (Fin x) (Fin z) = Fin (rnd f64 (x - z))"
    by (simp add: fl_sub_def f64_round(1))
  have tot: "fl_lt a b \<or> fl_le b a \<or> a = NaN \<or> b = NaN" for a b
    by (cases a; cases b) (auto simp: fl_le_def)
  show ?thesis
  proof (cases "?bn < in_min_samples inp \<or> ?cn < in_min_samples inp")
    case True
    then show ?thesis
      using assms by (intro exI [of _ 0]) (auto simp: assess_regression_def Let_def)
  next
    case False
    have "healthy (assess_regression inp) \<longrightarrow> \<not> fl_lt (in_max_delta inp) (Fin (rnd f64 (x - z)))"
      using False assms d x z by (auto simp: assess_regression_def Let_def)
    then have "healthy (assess_regression inp) \<longrightarrow>
        fl_le (Fin (rnd f64 (x - z))) (in_max_delta inp) \<or> in_max_delta inp = NaN"
      using tot [of "in_max_delta inp" "Fin (rnd f64 (x - z))"] by auto
    moreover have "baseline_rate (assess_regression inp) = Fin x" "candidate_rate (assess_regression inp) = Fin y"
      "candidate_lower_bound (assess_regression inp) = Fin z"
      using False assms x y z by (auto simp: assess_regression_def Let_def)
    ultimately show ?thesis using x y z by (intro exI [of _ x] exI [of _ y] exI [of _ z]) auto
  qed
qed

definition demo_input :: regression_input where
  "demo_input = \<lparr>in_baseline = \<lparr>successes = 95, failures = 5, p95_latency_ms = 10\<rparr>,
     in_candidate = \<lparr>successes = 90, failures = 10, p95_latency_ms = 12\<rparr>,
     in_max_delta = Fin 0, in_max_latency = 50, in_min_samples = 50\<rparr>"

theorem assess_rates_witness:
  "\<exists>x. 0 \<le> x \<and> x \<le> 1 \<and> candidate_lower_bound (assess_regression demo_input) = Fin x"
  using assess_rates [of demo_input] by (auto simp: demo_input_def in_i64_def)

text \<open>
  With a sample floor of zero, no traffic at all is enough: the rates of an arm without samples
  are 0, so the test finds no difference and reports a healthy candidate.
\<close>

lemma no_traffic_is_healthy:
  assumes "in_baseline inp = \<lparr>successes = 0, failures = 0, p95_latency_ms = 0\<rparr>"
    "in_candidate inp = \<lparr>successes = 0, failures = 0, p95_latency_ms = 0\<rparr>"
    "in_min_samples inp \<le> 0" "in_max_delta inp = Fin d" "0 \<le> d"
  shows "healthy (assess_regression inp)"
  using assms
  by (simp add: assess_regression_def safe_rate_def wilson_lower_bound_def fl_sub_def
      f64_round(1) in_i64_def Let_def)

end
