(* ===== verification/CanaryController.thy ===== *)
theory CanaryController
  imports Canary
begin

section \<open>canary-controller: plans, observations, reconciliation loop\<close>

text \<open>
  Model of \<open>services/canary-controller\<close>: the tables of \<open>internal/store/store.go\<close>, the loop of
  \<open>internal/loop/loop.go\<close> and the request handlers of \<open>cmd/canary-controller/main.go\<close>.

  A table is an association list from its primary key to the row; the order stands for the order
  in which the database scans it. A row of \<open>canary_plans\<close> is the plan that \<open>scanPlan\<close> reads back:
  the ladder's JSON and the nullable timestamp are read as they were written. A database call may
  fail: \<open>fails\<close> tells which calls of a tick do. \<open>wall\<close> is the clock that \<open>ApplyDecision\<close> reads
  when it writes a plan. A panic of the loop's goroutine, which ends the process, is \<open>None\<close>.
\<close>

type_synonym obs_key = "string \<times> string \<times> time"

record canary_window =
  win_end :: time
  win_successes :: int
  win_failures :: int
  win_p50 :: int
  win_p95 :: int
  win_p99 :: int

record canary_observation =
  obs_plan :: string
  obs_variant :: string
  obs_start :: time
  obs_window :: canary_window

record canary_event =
  ev_subject :: string
  ev_plan :: string
  ev_tenant :: string
  ev_resource :: string
  ev_from :: canary_status
  ev_to :: canary_status
  ev_step :: int
  ev_reason :: string
  ev_failure :: string

record controller =
  plans :: "(string \<times> canary_plan) list"
  windows :: "(obs_key \<times> canary_window) list"
  published :: "canary_event list"

datatype db_call = AggregateBaseline | AggregateCandidate | Apply

subsection \<open>Store\<close>

text \<open>The rewriting of \<open>?\<close> placeholders for Postgres.\<close>

fun ph_loop :: "nat \<Rightarrow> string \<Rightarrow> string" where
  "ph_loop n [] = []"
| "ph_loop n (c # cs) =
     (if c = CHR ''?'' then CHR ''$'' # digits 10 (n + 1) @ ph_loop (n + 1) cs else c # ph_loop n cs)"

definition ph :: "bool \<Rightarrow> string \<Rightarrow> string" where
  "ph postgres q = (if postgres then ph_loop 0 q else q)"

definition create_plan :: "time \<Rightarrow> canary_plan \<Rightarrow> controller \<Rightarrow> controller option" where
  "create_plan now p c =
     (if map_of (plans c) (plan_id p) \<noteq> None then None
      else Some (c\<lparr>plans := plans c @ [(plan_id p,
        p\<lparr>plan_created_at := (if is_zero (plan_created_at p) then now else plan_created_at p),
          plan_updated_at := now, failure_reason := []\<rparr>)]\<rparr>))"

definition get_plan :: "string \<Rightarrow> controller \<Rightarrow> canary_plan option" where
  "get_plan pid c = map_of (plans c) pid"

definition list_plans :: "string \<Rightarrow> canary_status \<Rightarrow> controller \<Rightarrow> canary_plan list" where
  "list_plans tenant st c =
     take 200 (sort_by (\<lambda>p q. plan_created_at q < plan_created_at p)
       (filter (\<lambda>p. plan_tenant p = tenant \<and> (st = OtherStatus [] \<or> plan_status p = st))
         (map snd (plans c))))"

definition list_active :: "controller \<Rightarrow> canary_plan list" where
  "list_active c =
     take 500 (filter (\<lambda>p. plan_status p \<in> {Draft, Ramping, Holding, Paused}) (map snd (plans c)))"

definition apply_row :: "time \<Rightarrow> decision \<Rightarrow> canary_plan \<Rightarrow> canary_plan" where
  "apply_row now d p =
     (if new_step d < 0
      then p\<lparr>plan_status := new_status d, failure_reason := dec_failure d, plan_updated_at := now\<rparr>
      else p\<lparr>plan_status := new_status d, current_step := new_step d, last_step_at := now,
             failure_reason := dec_failure d, plan_updated_at := now\<rparr>)"

definition apply_decision :: "time \<Rightarrow> string \<Rightarrow> decision \<Rightarrow> controller \<Rightarrow> controller" where
  "apply_decision now pid d c = c\<lparr>plans := AList.map_entry pid (apply_row now d) (plans c)\<rparr>"

definition merge_window :: "canary_window \<Rightarrow> canary_window \<Rightarrow> canary_window" where
  "merge_window old new =
     old\<lparr>win_successes := win_successes old + win_successes new,
         win_failures := win_failures old + win_failures new,
         win_p50 := max (win_p50 old) (win_p50 new),
         win_p95 := max (win_p95 old) (win_p95 new),
         win_p99 := max (win_p99 old) (win_p99 new)\<rparr>"

definition ingest_observation :: "canary_observation \<Rightarrow> controller \<Rightarrow> controller" where
  "ingest_observation o1 c =
     (let k = (obs_plan o1, obs_variant o1, obs_start o1) in
      c\<lparr>windows := (case map_of (windows c) k of
           None \<Rightarrow> windows c @ [(k, obs_window o1)]
         | Some w \<Rightarrow> AList.update k (merge_window w (obs_window o1)) (windows c))\<rparr>)"

definition arm_windows :: "controller \<Rightarrow> string \<Rightarrow> string \<Rightarrow> time \<Rightarrow> canary_window list" where
  "arm_windows c pid var since =
     map snd (filter (\<lambda>((p, v, _), w). p = pid \<and> v = var \<and> since \<le> win_end w) (windows c))"

definition aggregate_since :: "controller \<Rightarrow> string \<Rightarrow> string \<Rightarrow> time \<Rightarrow> canary_counts option" where
  "aggregate_since c pid var since =
     (let ws = arm_windows c pid var since;
          s = sum_list (map win_successes ws); f = sum_list (map win_failures ws);
          l = (case map win_p95 ws of [] \<Rightarrow> 0 | x # xs \<Rightarrow> fold max xs x) in
      if in_i64 s \<and> in_i64 f then Some \<lparr>successes = s, failures = f, p95_latency_ms = l\<rparr> else None)"

subsection \<open>Reconciliation loop\<close>

definition lookback_or_default :: "duration \<Rightarrow> duration" where
  "lookback_or_default d = (if 0 < d then d else 5 * minute)"

definition emit_transition :: "canary_plan \<Rightarrow> decision \<Rightarrow> controller \<Rightarrow> controller" where
  "emit_transition p d c =
     c\<lparr>published := published c @
       [\<lparr>ev_subject = (case new_status d of
            RolledBack \<Rightarrow> ''canary.rollback.v1'' | Promoted \<Rightarrow> ''canary.promote.v1''
          | _ \<Rightarrow> ''canary.transition.v1''),
         ev_plan = plan_id p, ev_tenant = plan_tenant p, ev_resource = resource_urn p,
         ev_from = plan_status p, ev_to = new_status d, ev_step = new_step d,
         ev_reason = human_readable d, ev_failure = dec_failure d\<rparr>]\<rparr>"

definition plan_verdict :: "canary_plan \<Rightarrow> canary_counts \<Rightarrow> canary_counts \<Rightarrow> verdict" where
  "plan_verdict p b cd = assess_regression
     \<lparr>in_baseline = b, in_candidate = cd, in_max_delta = max_proportion_delta p,
      in_max_latency = max_latency_delta p,
      in_min_samples = min_samples (ladder p ! nat (current_step p))\<rparr>"

text \<open>The result of one plan's tick: None is an error, \<open>Some changed\<close> the returned flag.\<close>

definition tick_one :: "(string \<Rightarrow> db_call \<Rightarrow> bool) \<Rightarrow> duration \<Rightarrow> time \<Rightarrow> (string \<Rightarrow> time) \<Rightarrow>
    canary_plan \<Rightarrow> controller \<Rightarrow> (bool option \<times> controller) option" where
  "tick_one fails lookback now wall p c =
     (if ladder p = [] \<or> int (length (ladder p)) \<le> current_step p then Some (Some False, c)
      else if current_step p < 0 then None
      else
        let since = now - lookback_or_default lookback in
        if fails (plan_id p) AggregateBaseline then Some (None, c)
        else case aggregate_since c (plan_id p) ''baseline'' since of
          None \<Rightarrow> Some (None, c)
        | Some b \<Rightarrow>
            if fails (plan_id p) AggregateCandidate then Some (None, c)
            else case aggregate_since c (plan_id p) ''candidate'' since of
              None \<Rightarrow> Some (None, c)
            | Some cd \<Rightarrow>
                let d = canary_next p (plan_verdict p b cd) now in
                if new_status d = plan_status p \<and> new_step d = current_step p then Some (Some False, c)
                else if fails (plan_id p) Apply then Some (None, c)
                else Some (Some True, emit_transition p d (apply_decision (wall (plan_id p)) (plan_id p) d c)))"

fun tick_plans :: "(string \<Rightarrow> db_call \<Rightarrow> bool) \<Rightarrow> duration \<Rightarrow> time \<Rightarrow> (string \<Rightarrow> time) \<Rightarrow>
    canary_plan list \<Rightarrow> nat \<Rightarrow> controller \<Rightarrow> (nat \<times> controller) option" where
  "tick_plans fails lookback now wall [] n c = Some (n, c)"
| "tick_plans fails lookback now wall (p # ps) n c =
     (if plan_status p = Draft \<or> plan_status p = Paused then tick_plans fails lookback now wall ps n c
      else case tick_one fails lookback now wall p c of
        None \<Rightarrow> None
      | Some (r, c') \<Rightarrow>
          tick_plans fails lookback now wall ps (if r = Some True then n + 1 else n) c')"

definition tick :: "(string \<Rightarrow> db_call \<Rightarrow> bool) \<Rightarrow> duration \<Rightarrow> time \<Rightarrow> (string \<Rightarrow> time) \<Rightarrow>
    controller \<Rightarrow> (nat \<times> controller) option" where
  "tick fails lookback now wall c = tick_plans fails lookback now wall (list_active c) 0 c"

subsection \<open>Request handlers\<close>

definition post_plan :: "time \<Rightarrow> string \<Rightarrow> canary_plan \<Rightarrow> controller \<Rightarrow> controller option" where
  "post_plan now tenant p c =
     (let p1 = p\<lparr>plan_tenant := tenant,
                 plan_id := (if plan_id p = [] then ''cp-'' @ print_int (unix_nano now) else plan_id p),
                 plan_status := (if plan_status p = OtherStatus [] then Ramping else plan_status p),
                 last_step_at := (if is_zero (last_step_at p) then now else last_step_at p)\<rparr>
      in create_plan now p1 c)"

definition post_observation :: "time \<Rightarrow> canary_observation \<Rightarrow> controller \<Rightarrow> controller" where
  "post_observation now o1 c =
     (let e = (if is_zero (win_end (obs_window o1)) then now else win_end (obs_window o1));
          s = (if is_zero (obs_start o1) then e - minute else obs_start o1) in
      ingest_observation (o1\<lparr>obs_start := s, obs_window := (obs_window o1)\<lparr>win_end := e\<rparr>\<rparr>) c)"

definition post_observations :: "time \<Rightarrow> canary_observation list \<Rightarrow> controller \<Rightarrow> controller" where
  "post_observations now os c = fold (post_observation now) os c"

definition pause :: "time \<Rightarrow> string \<Rightarrow> controller \<Rightarrow> controller" where
  "pause now pid c = apply_decision now pid (dec Paused (- 1) ''operator pause'') c"

definition resume :: "time \<Rightarrow> string \<Rightarrow> controller \<Rightarrow> controller" where
  "resume now pid c = apply_decision now pid (dec Ramping (- 1) ''operator resume'') c"

datatype read_result = PlanFound canary_plan | PlanNotFound | PlanForbidden

definition read_plan :: "string \<Rightarrow> string \<Rightarrow> controller \<Rightarrow> read_result" where
  "read_plan tenant pid c =
     (case get_plan pid c of
        None \<Rightarrow> PlanNotFound
      | Some p \<Rightarrow> if tenant \<noteq> [] \<and> tenant \<noteq> plan_tenant p then PlanForbidden else PlanFound p)"

subsection \<open>What a tick decides for one plan\<close>

definition tick_verdict :: "controller \<Rightarrow> duration \<Rightarrow> time \<Rightarrow> canary_plan \<Rightarrow> verdict option" where
  "tick_verdict c lookback now p =
     (case (aggregate_since c (plan_id p) ''baseline'' (now - lookback_or_default lookback),
            aggregate_since c (plan_id p) ''candidate'' (now - lookback_or_default lookback)) of
        (Some b, Some cd) \<Rightarrow> Some (plan_verdict p b cd)
      | _ \<Rightarrow> None)"

definition tick_decision :: "(string \<Rightarrow> db_call \<Rightarrow> bool) \<Rightarrow> duration \<Rightarrow> time \<Rightarrow> controller \<Rightarrow>
    canary_plan \<Rightarrow> decision option" where
  "tick_decision fails lookback now c p =
     (if \<not> on_ladder p \<or> plan_status p = Draft \<or> plan_status p = Paused \<or>
         fails (plan_id p) AggregateBaseline \<or> fails (plan_id p) AggregateCandidate then None
      else case tick_verdict c lookback now p of
        None \<Rightarrow> None
      | Some v \<Rightarrow>
          let d = canary_next p v now in
          if new_status d = plan_status p \<and> new_step d = current_step p \<or> fails (plan_id p) Apply
          then None else Some d)"

definition off_ladder_panic :: "canary_plan \<Rightarrow> bool" where
  "off_ladder_panic p \<longleftrightarrow> ladder p \<noteq> [] \<and> current_step p < 0"

definition tick_effect :: "(string \<Rightarrow> time) \<Rightarrow> canary_plan \<Rightarrow> decision option \<Rightarrow> controller \<Rightarrow> controller" where
  "tick_effect wall p od c =
     (case od of None \<Rightarrow> c
      | Some d \<Rightarrow> emit_transition p d (apply_decision (wall (plan_id p)) (plan_id p) d c))"

lemma tick_one_spec:
  assumes "plan_status p \<noteq> Draft" "plan_status p \<noteq> Paused"
  shows "map_option snd (tick_one fails lb now wall p c) =
    (if off_ladder_panic p then None else Some (tick_effect wall p (tick_decision fails lb now c p) c))"
  "\<not> off_ladder_panic p \<Longrightarrow>
     fst (the (tick_one fails lb now wall p c)) = Some True \<longleftrightarrow> tick_decision fails lb now c p \<noteq> None"
  using assms
  by (auto simp: tick_one_def off_ladder_panic_def tick_effect_def tick_decision_def on_ladder_def
      tick_verdict_def Let_def split: option.splits)

lemma tick_effect_windows [simp]: "windows (tick_effect wall p od c) = windows c"
  by (cases od) (simp_all add: tick_effect_def emit_transition_def apply_decision_def)

lemma map_entry_keys [simp]: "map fst (AList.map_entry k f m) = map fst m"
  by (induction m) auto

lemma tick_effect_rows:
  "map_of (plans (tick_effect wall p od c)) k =
     (case od of None \<Rightarrow> map_of (plans c) k
      | Some d \<Rightarrow> if k = plan_id p then map_option (apply_row (wall k) d) (map_of (plans c) k)
                  else map_of (plans c) k)"
  "map fst (plans (tick_effect wall p od c)) = map fst (plans c)"
  by (auto simp: tick_effect_def emit_transition_def apply_decision_def map_of_map_entry
      map_entry_keys split: option.splits)

lemma tick_decision_windows:
  "windows c = windows c' \<Longrightarrow> tick_decision fails lb now c p = tick_decision fails lb now c' p"
  by (simp add: tick_decision_def tick_verdict_def aggregate_since_def arm_windows_def)

lemma tick_plans_invariant:
  assumes "\<And>p od c. I c \<Longrightarrow> I (tick_effect wall p od c)"
  shows "tick_plans fails lb now wall ps n c = Some (m, c') \<Longrightarrow> I c \<Longrightarrow> I c'"
proof (induction ps arbitrary: n c)
  case (Cons p ps)
  show ?case
  proof (cases "plan_status p = Draft \<or> plan_status p = Paused")
    case False
    then obtain r c1 where t: "tick_one fails lb now wall p c = Some (r, c1)"
      "tick_plans fails lb now wall ps (if r = Some True then n + 1 else n) c1 = Some (m, c')"
      using Cons.prems(1) by (auto split: option.splits)
    then have "c1 = tick_effect wall p (tick_decision fails lb now c p) c"
      using tick_one_spec(1) [of p fails lb now wall c] False by (auto split: if_splits)
    then show ?thesis using Cons.IH [OF t(2)] assms [OF Cons.prems(2)] by simp
  qed (use Cons in auto)
qed simp

lemma tick_plans_rows:
  assumes "tick_plans fails lb now wall ps n c = Some (m, c')" "distinct (map plan_id ps)"
  shows "windows c' = windows c \<and> map fst (plans c') = map fst (plans c) \<and>
    map_of (plans c') k =
      (case find (\<lambda>p. plan_id p = k) ps of
         None \<Rightarrow> map_of (plans c) k
       | Some p \<Rightarrow> (case tick_decision fails lb now c p of
           None \<Rightarrow> map_of (plans c) k
         | Some d \<Rightarrow> map_option (apply_row (wall k) d) (map_of (plans c) k)))"
  using assms
proof (induction ps arbitrary: n c)
  case (Cons p ps)
  have nf: "find (\<lambda>q. plan_id q = plan_id p) ps = None"
    using Cons.prems(2) by (auto simp: find_None_iff image_iff)
  show ?case
  proof (cases "plan_status p = Draft \<or> plan_status p = Paused")
    case True
    then have "tick_decision fails lb now c p = None" by (auto simp: tick_decision_def)
    then show ?thesis using Cons.IH [of n c] Cons.prems True nf by auto
  next
    case False
    then obtain r c1 where t: "tick_one fails lb now wall p c = Some (r, c1)"
      "tick_plans fails lb now wall ps (if r = Some True then n + 1 else n) c1 = Some (m, c')"
      using Cons.prems(1) by (auto split: option.splits)
    then have c1: "c1 = tick_effect wall p (tick_decision fails lb now c p) c"
      using tick_one_spec(1) [of p fails lb now wall c] False by (auto split: if_splits)
    have w: "windows c1 = windows c" by (simp add: c1)
    note IH = Cons.IH [OF t(2)] tick_decision_windows [OF w, of fails lb now]
    show ?thesis
      using IH Cons.prems(2) nf w by (auto simp: c1 tick_effect_rows split: option.splits)
  qed
qed simp

subsection \<open>Reachable controllers\<close>

inductive canary_step_rel :: "controller \<Rightarrow> controller \<Rightarrow> bool" where
  post: "post_plan now tenant p c = Some c' \<Longrightarrow> canary_step_rel c c'"
| observe: "canary_step_rel c (post_observations now os c)"
| pause: "canary_step_rel c (pause now pid c)"
| resume: "canary_step_rel c (resume now pid c)"
| tick: "tick fails lb now wall c = Some (n, c') \<Longrightarrow> canary_step_rel c c'"

inductive canary_reachable :: "controller \<Rightarrow> bool" where
  init: "canary_reachable \<lparr>plans = [], windows = [], published = []\<rparr>"
| step: "canary_reachable c \<Longrightarrow> canary_step_rel c c' \<Longrightarrow> canary_reachable c'"

text \<open>The primary key is the plan's id, and no two rows share one.\<close>

definition plans_keyed :: "controller \<Rightarrow> bool" where
  "plans_keyed c \<longleftrightarrow> distinct (map fst (plans c)) \<and> (\<forall>(k, p) \<in> set (plans c). plan_id p = k)"

lemma plans_keyed_ids: "plans_keyed c \<Longrightarrow> map plan_id (map snd (plans c)) = map fst (plans c)"
  by (auto simp: plans_keyed_def)

lemma plans_keyed_lookup:
  "plans_keyed c \<Longrightarrow> p \<in> set (map snd (plans c)) \<longleftrightarrow> map_of (plans c) (plan_id p) = Some p"
  unfolding plans_keyed_def using in_set_map_of [of "plans c" "plan_id p" p] by force

lemma apply_row_id [simp]: "plan_id (apply_row now d p) = plan_id p"
  by (simp add: apply_row_def)

lemma map_entry_keyed:
  "(\<forall>(k, p) \<in> set m. plan_id p = k) \<Longrightarrow> (\<forall>(k, p) \<in> set (AList.map_entry pid (apply_row now d) m). plan_id p = k)"
  by (induction m) auto

lemma apply_decision_keyed: "plans_keyed c \<Longrightarrow> plans_keyed (apply_decision now pid d c)"
  using map_entry_keyed [of "plans c" pid now d] by (simp add: plans_keyed_def apply_decision_def)

lemma tick_effect_keyed: "plans_keyed c \<Longrightarrow> plans_keyed (tick_effect wall p od c)"
  by (cases od) (simp_all add: tick_effect_def emit_transition_def plans_keyed_def apply_decision_keyed [unfolded plans_keyed_def])

lemma tick_plans_keyed:
  "tick_plans fails lb now wall ps n c = Some (m, c') \<Longrightarrow> plans_keyed c \<Longrightarrow> plans_keyed c'"
  by (rule tick_plans_invariant [of plans_keyed]) (auto intro: tick_effect_keyed)

lemma canary_reachable_keyed: "canary_reachable c \<Longrightarrow> plans_keyed c"
proof (induction rule: canary_reachable.induct)
  case (step c c')
  from step(2,3) show ?case
  proof (cases rule: canary_step_rel.cases)
    case (post now tenant p)
    then show ?thesis using step.IH
      by (auto simp: post_plan_def create_plan_def Let_def plans_keyed_def map_of_eq_None_iff split: if_splits)
  next
    case (observe now os)
    have "plans (post_observations now os c) = plans c"
      unfolding post_observations_def
      by (induction os arbitrary: c) (simp_all add: post_observation_def ingest_observation_def Let_def)
    then show ?thesis using step.IH observe by (simp add: plans_keyed_def)
  next
    case (tick fails lb now wall n)
    then show ?thesis using step.IH unfolding tick_def by (rule tick_plans_keyed)
  qed (use step.IH in \<open>auto simp: pause_def resume_def intro: apply_decision_keyed\<close>)
qed (simp add: plans_keyed_def)

text \<open>What one tick does to the row of a plan.\<close>

lemma find_by_id:
  "p \<in> set ps \<Longrightarrow> distinct (map plan_id ps) \<Longrightarrow> find (\<lambda>q. plan_id q = plan_id p) ps = Some p"
  by (induction ps) (auto simp: image_iff)

lemma list_active_distinct: "plans_keyed c \<Longrightarrow> distinct (map plan_id (list_active c))"
proof -
  assume k: "plans_keyed c"
  then have "distinct (map plan_id (map snd (plans c)))"
    unfolding plans_keyed_ids [OF k] using k by (simp add: plans_keyed_def)
  then have "distinct (map plan_id (filter P (map snd (plans c))))" for P
    by (rule distinct_map_filter)
  then show ?thesis unfolding list_active_def by (simp only: take_map [symmetric] distinct_take)
qed

lemma list_active_lookup:
  "plans_keyed c \<Longrightarrow> p \<in> set (list_active c) \<Longrightarrow> map_of (plans c) (plan_id p) = Some p"
  using plans_keyed_lookup [of c p] by (auto simp: list_active_def dest: in_set_takeD)

lemma tick_row:
  assumes "canary_reachable c" "tick fails lb now wall c = Some (n, c')" "map_of (plans c) pid = Some p"
  shows "map_of (plans c') pid = Some
    (case (if p \<in> set (list_active c) then tick_decision fails lb now c p else None) of
       None \<Rightarrow> p | Some d \<Rightarrow> apply_row (wall pid) d p)"
    "windows c' = windows c" "map fst (plans c') = map fst (plans c)"
proof -
  have k: "plans_keyed c" using canary_reachable_keyed [OF assms(1)] .
  note r = tick_plans_rows [OF assms(2) [unfolded tick_def] list_active_distinct [OF k], of pid]
  have pid: "plan_id p = pid"
    using k assms(3) by (auto simp: plans_keyed_def dest!: map_of_SomeD)
  have f: "find (\<lambda>q. plan_id q = pid) (list_active c) = (if p \<in> set (list_active c) then Some p else None)"
  proof (cases "p \<in> set (list_active c)")
    case True
    then show ?thesis using find_by_id [OF True list_active_distinct [OF k]] pid by simp
  next
    case False
    then have "plan_id q \<noteq> pid" if "q \<in> set (list_active c)" for q
      using that list_active_lookup [OF k that] assms(3) by auto
    then show ?thesis using False by (auto simp: find_None_iff)
  qed
  show "windows c' = windows c" "map fst (plans c') = map fst (plans c)" using r by auto
  show "map_of (plans c') pid = Some
    (case (if p \<in> set (list_active c) then tick_decision fails lb now c p else None) of
       None \<Rightarrow> p | Some d \<Rightarrow> apply_row (wall pid) d p)"
    using r assms(3) unfolding f by (auto split: option.splits)
qed

definition transition_event :: "canary_plan \<Rightarrow> decision \<Rightarrow> canary_event" where
  "transition_event p d = last (published (emit_transition p d \<lparr>plans = [], windows = [], published = []\<rparr>))"

lemma tick_effect_published:
  "published (tick_effect wall p od c) =
     published c @ (case od of None \<Rightarrow> [] | Some d \<Rightarrow> [transition_event p d])"
  by (cases od) (simp_all add: tick_effect_def emit_transition_def apply_decision_def transition_event_def)

lemma tick_plans_published:
  assumes "tick_plans fails lb now wall ps n c = Some (m, c')"
  shows "published c' = published c @
    concat (map (\<lambda>p. case tick_decision fails lb now c p of None \<Rightarrow> [] | Some d \<Rightarrow> [transition_event p d]) ps)"
  using assms
proof (induction ps arbitrary: n c)
  case (Cons p ps)
  show ?case
  proof (cases "plan_status p = Draft \<or> plan_status p = Paused")
    case True
    then have "tick_decision fails lb now c p = None" by (auto simp: tick_decision_def)
    then show ?thesis using Cons True by auto
  next
    case False
    then obtain r c1 where t: "tick_one fails lb now wall p c = Some (r, c1)"
      "tick_plans fails lb now wall ps (if r = Some True then n + 1 else n) c1 = Some (m, c')"
      using Cons.prems(1) by (auto split: option.splits)
    then have c1: "c1 = tick_effect wall p (tick_decision fails lb now c p) c"
      using tick_one_spec(1) [of p fails lb now wall c] False by (auto split: if_splits)
    have w: "windows c1 = windows c" by (simp add: c1)
    show ?thesis
      using Cons.IH [OF t(2)] unfolding tick_decision_windows [OF w] by (simp add: c1 tick_effect_published)
  qed
qed simp

lemma tick_plans_panic:
  "tick_plans fails lb now wall ps n c = None \<longleftrightarrow>
     (\<exists>p \<in> set ps. plan_status p \<noteq> Draft \<and> plan_status p \<noteq> Paused \<and> off_ladder_panic p)"
proof (induction ps arbitrary: n c)
  case (Cons p ps)
  show ?case
  proof (cases "plan_status p = Draft \<or> plan_status p = Paused")
    case False
    then show ?thesis
      using Cons.IH tick_one_spec(1) [of p fails lb now wall c]
      by (cases "tick_one fails lb now wall p c") (auto split: if_splits)
  qed (use Cons.IH in auto)
qed simp

lemma running_iff_active:
  "plan_status p \<in> {Draft, Ramping, Holding, Paused} \<Longrightarrow> plan_status p \<noteq> Draft \<Longrightarrow> plan_status p \<noteq> Paused \<Longrightarrow> running p"
  by (auto simp: running_def)

lemma list_active_status: "p \<in> set (list_active c) \<Longrightarrow> plan_status p \<in> {Draft, Ramping, Holding, Paused}"
  unfolding list_active_def by (drule in_set_takeD) simp

lemma plan_verdict_reason:
  "healthy (plan_verdict p b cd) \<longleftrightarrow> \<not> regressed (plan_verdict p b cd) \<and> reason (plan_verdict p b cd) \<noteq> ''insufficient_samples''"
  unfolding plan_verdict_def regressed_def by (rule assess_cases) auto

text \<open>
  The evidence that a healthy verdict rests on: enough samples in both arms, and the lower
  confidence bound of the candidate not further below the baseline than the plan tolerates.
\<close>

definition evidence :: "canary_plan \<Rightarrow> canary_counts \<Rightarrow> canary_counts \<Rightarrow> bool" where
  "evidence p b cd \<longleftrightarrow>
     (let m = min_samples (ladder p ! nat (current_step p));
          bn = i64 (successes b + failures b); cn = i64 (successes cd + failures cd) in
      m \<le> bn \<and> m \<le> cn \<and>
      \<not> fl_lt (max_proportion_delta p)
          (fl_sub f64 (safe_rate (successes b) bn) (wilson_lower_bound (successes cd) cn)) \<and>
      \<not> (0 < max_latency_delta p \<and> 0 < p95_latency_ms cd \<and> 0 < p95_latency_ms b \<and>
         max_latency_delta p < i64 (p95_latency_ms cd - p95_latency_ms b)))"

lemma healthy_iff_evidence: "healthy (plan_verdict p b cd) \<longleftrightarrow> evidence p b cd"
  by (auto simp: plan_verdict_def assess_regression_def evidence_def Let_def)

subsection \<open>A healthy plan climbs its ladder\<close>

text \<open>
  A run of the controller: the requests served before each tick, the tick's clock and the clock of its writes. No database call fails.
\<close>

datatype request = PostPlan time string canary_plan | PostObservations time "canary_observation list" | PausePlan time string | ResumePlan time string

definition serve :: "request \<Rightarrow> controller \<Rightarrow> controller" where
  "serve r c =
     (case r of
        PostPlan now tenant p \<Rightarrow> (case post_plan now tenant p c of None \<Rightarrow> c | Some c' \<Rightarrow> c')
      | PostObservations now os \<Rightarrow> post_observations now os c
      | PausePlan now pid \<Rightarrow> pause now pid c
      | ResumePlan now pid \<Rightarrow> resume now pid c)"

type_synonym round = "request list \<times> time \<times> time"

fun run_ticks :: "duration \<Rightarrow> round list \<Rightarrow> controller \<Rightarrow> controller option" where
  "run_ticks lb [] c = Some c"
| "run_ticks lb ((rs, now, w) # ts) c =
     (case tick (\<lambda>_ _. False) lb now (\<lambda>_. w) (fold serve rs c) of
        None \<Rightarrow> None | Some (n, c') \<Rightarrow> run_ticks lb ts c')"

fun clocked :: "time \<Rightarrow> round list \<Rightarrow> bool" where
  "clocked a [] \<longleftrightarrow> True"
| "clocked a ((rs, now, w) # ts) \<longleftrightarrow> a \<le> now \<and> now \<le> w \<and> w < 2 ^ 62 \<and> clocked w ts"

text \<open>What the tick at \<open>now\<close> finds for the plan: the counts of both arms, and evidence for it on the step it stands on.\<close>

definition healthy_now :: "controller \<Rightarrow> duration \<Rightarrow> string \<Rightarrow> time \<Rightarrow> bool" where
  "healthy_now c lb pid now \<longleftrightarrow>
     (case map_of (plans c) pid of
        None \<Rightarrow> False
      | Some p \<Rightarrow> \<not> on_ladder p \<or>
          (case (aggregate_since c pid ''baseline'' (now - lookback_or_default lb),
                 aggregate_since c pid ''candidate'' (now - lookback_or_default lb)) of
             (Some b, Some cd) \<Rightarrow> evidence p b cd
           | _ \<Rightarrow> False))"

text \<open>Requests that leave the plan alone and post no plan at a negative step, which would make the loop panic.\<close>

definition leaves_alone :: "string \<Rightarrow> request \<Rightarrow> bool" where
  "leaves_alone pid r =
     (case r of PostPlan now tenant p \<Rightarrow> 0 \<le> current_step p | PostObservations now os \<Rightarrow> True
      | PausePlan now i \<Rightarrow> i \<noteq> pid | ResumePlan now i \<Rightarrow> i \<noteq> pid)"

text \<open>Every tick of the run finds the plan healthy, and few enough plans for it to be among those it reads.\<close>

fun healthy_run :: "duration \<Rightarrow> string \<Rightarrow> round list \<Rightarrow> controller \<Rightarrow> bool" where
  "healthy_run lb pid [] c = True"
| "healthy_run lb pid ((rs, now, w) # ts) c =
     (let c1 = fold serve rs c in
      list_all (leaves_alone pid) rs \<and> length (plans c1) \<le> 500 \<and> healthy_now c1 lb pid now \<and>
      (case tick (\<lambda>_ _. False) lb now (\<lambda>_. w) c1 of None \<Rightarrow> True | Some (n, c') \<Rightarrow> healthy_run lb pid ts c'))"

definition holds_ok :: "canary_plan \<Rightarrow> bool" where
  "holds_ok p \<longleftrightarrow> (\<forall>s \<in> set (ladder p). 0 \<le> hold_seconds s \<and> hold_seconds s < 2 ^ 53)"

definition same_config :: "canary_plan \<Rightarrow> canary_plan \<Rightarrow> bool" where
  "same_config p q \<longleftrightarrow> plan_id q = plan_id p \<and> ladder q = ladder p \<and> auto_promote q = auto_promote p \<and>
     max_proportion_delta q = max_proportion_delta p \<and> max_latency_delta q = max_latency_delta p"

definition at_end :: "canary_plan \<Rightarrow> bool" where
  "at_end p \<longleftrightarrow> current_step p = int (length (ladder p)) \<and>
     plan_status p = (if auto_promote p then Promoted else Holding)"

definition climbing :: "time \<Rightarrow> canary_plan \<Rightarrow> bool" where
  "climbing a p \<longleftrightarrow> 0 < last_step_at p \<and> last_step_at p \<le> a \<and> (running p \<and> on_ladder p \<or> at_end p)"

lemma healthy_now_evidence:
  assumes "healthy_now c lb (plan_id p) now" "map_of (plans c) (plan_id p) = Some p" "on_ladder p"
  obtains b cd where "aggregate_since c (plan_id p) ''baseline'' (now - lookback_or_default lb) = Some b"
    "aggregate_since c (plan_id p) ''candidate'' (now - lookback_or_default lb) = Some cd" "evidence p b cd"
  using assms by (auto simp: healthy_now_def split: option.splits)

lemma serve_reachable: "canary_reachable c \<Longrightarrow> canary_reachable (serve r c)"
  by (cases r) (auto simp: serve_def intro: canary_reachable.step canary_step_rel.intros split: option.split)

lemma post_observations_plans [simp]: "plans (post_observations now os c) = plans c"
  unfolding post_observations_def
  by (induction os arbitrary: c) (simp_all add: post_observation_def ingest_observation_def Let_def)

lemma serve_row:
  "leaves_alone pid r \<Longrightarrow> map_of (plans c) pid = Some p \<Longrightarrow> map_of (plans (serve r c)) pid = Some p"
  by (cases r) (auto simp: serve_def leaves_alone_def post_plan_def create_plan_def pause_def resume_def apply_decision_def
      map_of_map_entry map_add_def Let_def split: option.split)

lemma serve_all:
  "canary_reachable c \<Longrightarrow> canary_reachable (fold serve rs c)"
  "list_all (leaves_alone pid) rs \<Longrightarrow> map_of (plans c) pid = Some p \<Longrightarrow> map_of (plans (fold serve rs c)) pid = Some p"
  by (induction rs arbitrary: c) (simp_all add: serve_reachable serve_row)

lemma held_if:
  assumes "holds_ok p" "on_ladder p" "0 < last_step_at p" "now < 2 ^ 62"
    "hold_seconds (ladder p ! nat (current_step p)) * second \<le> now - last_step_at p"
  shows "held p now"
proof -
  let ?h = "hold_seconds (ladder p ! nat (current_step p))"
  have "ladder p ! nat (current_step p) \<in> set (ladder p)" using assms(2) by (auto simp: on_ladder_def)
  then have h: "0 \<le> ?h" "?h < 2 ^ 53" using assms(1) by (auto simp: holds_ok_def)
  then have "0 \<le> now - last_step_at p" using assms(5) by (meson mult_nonneg_nonneg order_trans zero_le_numeral)
  then have "in_i64 (now - last_step_at p)" using assms(3,4) by (simp add: in_i64_def)
  with seconds_ge [OF h assms(5)] assms(3) show ?thesis by (simp add: held_def is_zero_def time_sub_exact)
qed

text \<open>One healthy tick, seen from the row of the plan.\<close>

definition climbed :: "time \<Rightarrow> time \<Rightarrow> canary_plan \<Rightarrow> canary_plan \<Rightarrow> bool" where
  "climbed now w p q \<longleftrightarrow>
     (if at_end p then q = p
      else if held p now
      then current_step q = current_step p + 1 \<and> last_step_at q = w \<and>
           (if current_step q < int (length (ladder p)) then plan_status q = Ramping else at_end q)
      else current_step q = current_step p \<and> plan_status q = Holding \<and>
           last_step_at q = (if plan_status p = Ramping then w else last_step_at p))"

lemma tick_climbs:
  assumes "canary_reachable c" "length (plans c) \<le> 500" "map_of (plans c) pid = Some p"
    "tick (\<lambda>_ _. False) lb now (\<lambda>_. w) c = Some (n, c')" "climbing a p" "healthy_now c lb pid now"
  obtains q where "map_of (plans c') pid = Some q" "same_config p q" "climbed now w p q"
proof (cases "at_end p")
  case True
  have "tick_decision (\<lambda>_ _. False) lb now c p = None"
    using True by (auto simp: tick_decision_def on_ladder_def at_end_def)
  then have "map_of (plans c') pid = Some p" using tick_row(1) [OF assms(1,4,3)] by simp
  then show ?thesis using that True by (simp add: same_config_def climbed_def)
next
  case False
  then have on: "running p" "on_ladder p" using assms(5) by (auto simp: climbing_def)
  have k: "plans_keyed c" by (rule canary_reachable_keyed [OF assms(1)])
  have pid: "plan_id p = pid" using k assms(3) by (auto simp: plans_keyed_def dest!: map_of_SomeD)
  have "p \<in> set (map snd (plans c))" using plans_keyed_lookup [OF k, of p] assms(3) pid by simp
  moreover have "list_active c = filter (\<lambda>p. plan_status p \<in> {Draft, Ramping, Holding, Paused}) (map snd (plans c))"
    unfolding list_active_def using assms(2)
    by (intro take_all order_trans [OF length_filter_le]) simp
  ultimately have act: "p \<in> set (list_active c)" using on(1) by (auto simp: running_def)
  obtain b cd where v: "aggregate_since c (plan_id p) ''baseline'' (now - lookback_or_default lb) = Some b"
    "aggregate_since c (plan_id p) ''candidate'' (now - lookback_or_default lb) = Some cd" "evidence p b cd"
    by (rule healthy_now_evidence [OF _ _ on(2)]) (use assms(3,6) pid in auto)
  let ?v = "plan_verdict p b cd" let ?d = "canary_next p ?v now"
  have hv: "\<not> regressed ?v" "reason ?v \<noteq> ''insufficient_samples''"
    using v(3) plan_verdict_reason healthy_iff_evidence by auto
  have td: "tick_decision (\<lambda>_ _. False) lb now c p =
      (if new_status ?d = plan_status p \<and> new_step ?d = current_step p then None else Some ?d)"
    using on v(1,2) by (auto simp: tick_decision_def tick_verdict_def running_def Let_def)
  let ?q = "case tick_decision (\<lambda>_ _. False) lb now c p of None \<Rightarrow> p | Some d \<Rightarrow> apply_row w d p"
  have row: "map_of (plans c') pid = Some ?q" using tick_row(1) [OF assms(1,4,3)] act by simp
  have "same_config p ?q" by (simp add: same_config_def apply_row_def split: option.split)
  moreover have "climbed now w p ?q"
    using False on hv canary_next_running [OF on, of ?v now]
    unfolding td climbed_def
    by (auto simp: apply_row_def on_ladder_def running_def at_end_def)
  ultimately show ?thesis using that row by blast
qed

lemma climbed_climbing:
  assumes "climbed now w p q" "same_config p q" "climbing a p" "a \<le> now" "now \<le> w"
  shows "climbing w q" "current_step p \<le> current_step q"
  using assms by (auto simp: climbed_def climbing_def same_config_def on_ladder_def running_def at_end_def split: if_splits)

lemma same_config_trans: "same_config p q \<Longrightarrow> same_config q r \<Longrightarrow> same_config p r"
  by (simp add: same_config_def)

definition end_clock :: "time \<Rightarrow> round list \<Rightarrow> time" where
  "end_clock a ts = (if ts = [] then a else snd (snd (last ts)))"

lemma clocked_append: "clocked a (xs @ ys) \<longleftrightarrow> clocked a xs \<and> clocked (end_clock a xs) ys"
  by (induction xs arbitrary: a) (auto simp: end_clock_def)

lemma run_ticks_append:
  "run_ticks lb (xs @ ys) c = (case run_ticks lb xs c of None \<Rightarrow> None | Some c' \<Rightarrow> run_ticks lb ys c')"
  by (induction xs arbitrary: c) (auto split: option.splits)

lemma healthy_run_append:
  "healthy_run lb pid (xs @ ys) c \<Longrightarrow> healthy_run lb pid xs c \<and> (\<forall>c'. run_ticks lb xs c = Some c' \<longrightarrow> healthy_run lb pid ys c')"
  by (induction lb pid xs c rule: healthy_run.induct) (auto simp: Let_def split: option.splits)

text \<open>The length of a step: a plan that waits on a step leaves it once the hold time has passed.\<close>

definition waits :: "canary_plan \<Rightarrow> round list \<Rightarrow> bool" where
  "waits p ts \<longleftrightarrow> plan_status p = Holding \<and> on_ladder p \<and>
     (\<exists>(rs, n, w) \<in> set ts. hold_seconds (ladder p ! nat (current_step p)) * second \<le> n - last_step_at p)"

text \<open>One round: the requests, then the tick.\<close>

lemma round_climbs:
  assumes "canary_reachable c" "map_of (plans c) pid = Some p" "climbing a p"
    "clocked a ((rs, now, w) # ts)" "healthy_run lb pid ((rs, now, w) # ts) c" "run_ticks lb ((rs, now, w) # ts) c = Some c'"
  obtains c1 q where "canary_reachable c1" "map_of (plans c1) pid = Some q" "same_config p q" "climbed now w p q"
    "climbing w q" "current_step p \<le> current_step q" "clocked w ts" "healthy_run lb pid ts c1" "run_ticks lb ts c1 = Some c'"
proof -
  let ?c = "fold serve rs c"
  obtain n c1 where c1: "tick (\<lambda>_ _. False) lb now (\<lambda>_. w) ?c = Some (n, c1)" "run_ticks lb ts c1 = Some c'"
    using assms(6) by (auto split: option.splits)
  have h: "list_all (leaves_alone pid) rs" "length (plans ?c) \<le> 500" "healthy_now ?c lb pid now" "healthy_run lb pid ts c1"
    using assms(5) c1(1) by (simp_all add: Let_def)
  have r: "canary_reachable ?c" "map_of (plans ?c) pid = Some p" using serve_all assms(1,2) h(1) by blast+
  have clk: "a \<le> now" "now \<le> w" "clocked w ts" using assms(4) by auto
  obtain q where q: "map_of (plans c1) pid = Some q" "same_config p q" "climbed now w p q"
    by (rule tick_climbs [OF r(1) h(2) r(2) c1(1) assms(3) h(3)])
  have "climbing w q" "current_step p \<le> current_step q"
    using climbed_climbing [OF q(3,2) assms(3) clk(1,2)] by auto
  moreover have "canary_reachable c1" by (rule canary_reachable.step [OF r(1) canary_step_rel.tick [OF c1(1)]])
  ultimately show ?thesis using that q clk(3) h(4) c1(2) by blast
qed

lemma run_climbs:
  assumes "canary_reachable c" "map_of (plans c) pid = Some p" "climbing a p" "holds_ok p" "clocked a ts"
    "healthy_run lb pid ts c" "run_ticks lb ts c = Some c'"
  shows "canary_reachable c' \<and>
    (\<exists>q. map_of (plans c') pid = Some q \<and> same_config p q \<and> climbing (end_clock a ts) q \<and>
       current_step p \<le> current_step q \<and> (waits p ts \<longrightarrow> current_step p < current_step q))"
  using assms
proof (induction ts arbitrary: a c p)
  case Nil
  then show ?case by (simp add: end_clock_def same_config_def waits_def)
next
  case (Cons t ts)
  obtain rs now w where t: "t = (rs, now, w)" by (cases t)
  obtain c1 q where q: "canary_reachable c1" "map_of (plans c1) pid = Some q" "same_config p q" "climbed now w p q"
      "climbing w q" "current_step p \<le> current_step q" "clocked w ts" "healthy_run lb pid ts c1" "run_ticks lb ts c1 = Some c'"
    by (rule round_climbs [OF Cons.prems(1-3,5-7) [unfolded t]])
  have clk: "now < 2 ^ 62" using Cons.prems(5) t by auto
  have hok: "holds_ok q" using Cons.prems(4) q(3) by (simp add: holds_ok_def same_config_def)
  note IH = Cons.IH [OF q(1,2,5) hok q(7-9)]
  from IH obtain r where r: "map_of (plans c') pid = Some r" "same_config q r"
    "climbing (end_clock w ts) r" "current_step q \<le> current_step r"
    "waits q ts \<longrightarrow> current_step q < current_step r" by blast
  have "current_step p < current_step r" if "waits p (t # ts)"
  proof (cases "current_step p < current_step q")
    case False
    have p: "plan_status p = Holding" "on_ladder p" "0 < last_step_at p"
      using that Cons.prems(3) by (auto simp: waits_def climbing_def)
    then have "\<not> held p now" "\<not> at_end p"
      using False q(4) by (auto simp: climbed_def on_ladder_def at_end_def split: if_splits)
    moreover from this have "last_step_at q = last_step_at p" "current_step q = current_step p" "plan_status q = Holding"
      using q(4) p(1) by (auto simp: climbed_def)
    ultimately have "waits q ts"
      using that t p held_if [OF Cons.prems(4) p(2,3) clk] q(3)
      by (auto simp: waits_def on_ladder_def same_config_def)
    then show ?thesis using r(5) q(6) by simp
  qed (use r(4) in simp)
  moreover have "end_clock a (t # ts) = end_clock w ts" by (simp add: end_clock_def t)
  ultimately show ?case
    using IH r same_config_trans [OF q(3) r(2)] q(6) by force
qed

text \<open>A block of ticks that lasts as long as the longest hold, counted from its first write.\<close>

definition spans :: "canary_plan \<Rightarrow> round list \<Rightarrow> bool" where
  "spans p b \<longleftrightarrow> (case b of [] \<Rightarrow> False
     | (rs1, n1, w1) # rest \<Rightarrow> \<exists>(rs2, n2, w2) \<in> set rest. \<forall>s \<in> set (ladder p). hold_seconds s * second \<le> n2 - w1)"

lemma block_climbs:
  assumes "canary_reachable c" "map_of (plans c) pid = Some p" "climbing a p" "holds_ok p" "clocked a b"
    "healthy_run lb pid b c" "run_ticks lb b c = Some c'" "spans p b"
  shows "canary_reachable c' \<and>
    (\<exists>q. map_of (plans c') pid = Some q \<and> same_config p q \<and> climbing (end_clock a b) q \<and>
       (at_end q \<or> current_step p < current_step q))"
proof -
  obtain rs1 n1 w1 rest where b: "b = (rs1, n1, w1) # rest" using assms(8) by (auto simp: spans_def split: list.splits)
  obtain c1 q where q: "canary_reachable c1" "map_of (plans c1) pid = Some q" "same_config p q" "climbed n1 w1 p q"
      "climbing w1 q" "current_step p \<le> current_step q" "clocked w1 rest" "healthy_run lb pid rest c1" "run_ticks lb rest c1 = Some c'"
    by (rule round_climbs [OF assms(1-3,5-7) [unfolded b]])
  have clk: "a \<le> n1" "n1 \<le> w1" using assms(5) b by auto
  have hok: "holds_ok q" using assms(4) q(3) by (simp add: holds_ok_def same_config_def)
  from run_climbs [OF q(1,2,5) hok q(7-9)] obtain r where
    r: "canary_reachable c'" "map_of (plans c') pid = Some r" "same_config q r" "climbing (end_clock w1 rest) r"
      "current_step q \<le> current_step r" "waits q rest \<longrightarrow> current_step q < current_step r" by blast
  have e: "end_clock a b = end_clock w1 rest" by (simp add: b end_clock_def)
  have "at_end r \<or> current_step p < current_step r"
  proof (cases "at_end q \<or> current_step p < current_step q")
    case True
    then show ?thesis
    proof
      assume q_end: "at_end q"
      then have "current_step q = int (length (ladder r))" using r(3) by (simp add: at_end_def same_config_def)
      then show ?thesis using r(4,5) by (auto simp: climbing_def on_ladder_def)
    qed (use r(5) in simp)
  next
    case False
    have p: "\<not> at_end p" "running p" "on_ladder p"
      using False q(4) assms(3) by (auto simp: climbed_def climbing_def)
    have st: "\<not> held p n1" "current_step q = current_step p" "plan_status q = Holding" "last_step_at q \<le> w1"
      using False q(4) p assms(3) clk by (auto simp: climbed_def climbing_def split: if_splits)
    obtain rs2 n2 w2 where n2: "(rs2, n2, w2) \<in> set rest" "\<forall>s \<in> set (ladder p). hold_seconds s * second \<le> n2 - w1"
      using assms(8) b by (auto simp: spans_def)
    have on: "on_ladder q" using p(3) st(2) q(3) by (simp add: on_ladder_def same_config_def)
    then have "ladder q ! nat (current_step q) \<in> set (ladder p)"
      using q(3) by (auto simp: on_ladder_def same_config_def)
    then have "hold_seconds (ladder q ! nat (current_step q)) * second \<le> n2 - w1" using n2(2) by blast
    then have "hold_seconds (ladder q ! nat (current_step q)) * second \<le> n2 - last_step_at q"
      using st(4) by linarith
    then have "waits q rest"
      unfolding waits_def using on st(3) n2(1) by blast
    then show ?thesis using r(6) st(2) by simp
  qed
  then show ?thesis using r e same_config_trans [OF q(3) r(3)] by auto
qed

lemma blocks_climb:
  assumes "canary_reachable c" "map_of (plans c) pid = Some p" "climbing a p" "holds_ok p" "clocked a (concat bs)"
    "\<And>b. b \<in> set bs \<Longrightarrow> spans p b" "healthy_run lb pid (concat bs) c"
    "run_ticks lb (concat bs) c = Some c'" "int (length (ladder p)) \<le> current_step p + int (length bs)"
  shows "\<exists>q. map_of (plans c') pid = Some q \<and> same_config p q \<and> at_end q"
  using assms
proof (induction bs arbitrary: a c p)
  case Nil
  then show ?case by (auto simp: climbing_def on_ladder_def same_config_def)
next
  case (Cons b bs)
  obtain c1 where c1: "run_ticks lb b c = Some c1" "run_ticks lb (concat bs) c1 = Some c'"
    using Cons.prems(8) by (auto simp: run_ticks_append split: option.splits)
  have clk: "clocked a b" "clocked (end_clock a b) (concat bs)" using Cons.prems(5) by (simp_all add: clocked_append)
  have hb: "healthy_run lb pid b c" "healthy_run lb pid (concat bs) c1"
    using healthy_run_append [of lb pid b "concat bs" c] Cons.prems(7) c1(1) by simp_all
  from block_climbs [OF Cons.prems(1-4) clk(1) hb(1) c1(1) Cons.prems(6)] obtain q where
    q: "canary_reachable c1" "map_of (plans c1) pid = Some q"
      "same_config p q" "climbing (end_clock a b) q" "at_end q \<or> current_step p < current_step q"
    by auto
  have hok: "holds_ok q" using Cons.prems(4) q(3) by (simp add: holds_ok_def same_config_def)
  have sp: "spans q b'" if "b' \<in> set bs" for b'
    using Cons.prems(6) [of b'] that q(3) by (auto simp: spans_def same_config_def split: list.splits)
  have len: "int (length (ladder q)) \<le> current_step q + int (length bs)"
    using q(3,5) Cons.prems(9) by (auto simp: same_config_def at_end_def)
  show ?case
    using Cons.IH [OF q(1,2,4) hok clk(2) sp hb(2) c1(2) len] same_config_trans [OF q(3)] by blast
qed

subsection \<open>Observation counts\<close>

fun is_arm :: "string \<Rightarrow> string \<Rightarrow> obs_key \<Rightarrow> bool" where
  "is_arm pid var (p, v, start) \<longleftrightarrow> p = pid \<and> v = var"

definition arm_total :: "(canary_window \<Rightarrow> int) \<Rightarrow> string \<Rightarrow> string \<Rightarrow> controller \<Rightarrow> int" where
  "arm_total f pid var c = vsum f (filter (\<lambda>e. is_arm pid var (fst e)) (windows c))"

definition posted :: "(canary_window \<Rightarrow> int) \<Rightarrow> string \<Rightarrow> string \<Rightarrow> canary_observation list \<Rightarrow> int" where
  "posted f pid var os =
     sum_list (map (f \<circ> obs_window) (filter (\<lambda>o1. obs_plan o1 = pid \<and> obs_variant o1 = var) os))"

lemma filter_update_key:
  "filter (\<lambda>e. P (fst e)) (AList.update k v m) =
     (if P k then AList.update k v (filter (\<lambda>e. P (fst e)) m) else filter (\<lambda>e. P (fst e)) m)"
  by (induction m) auto

lemma map_of_filter_key: "map_of (filter (\<lambda>e. P (fst e)) m) k = (if P k then map_of m k else None)"
  by (induction m) auto

lemma vsum_append [simp]: "vsum f (xs @ ys) = vsum f xs + vsum f ys"
  by (simp add: vsum_def)

lemma ingest_total:
  assumes "distinct (map fst (windows c))"
    "\<And>old new. f (merge_window old new) = f old + f new"
  shows "arm_total f pid var (ingest_observation o1 c) = arm_total f pid var c +
      (if obs_plan o1 = pid \<and> obs_variant o1 = var then f (obs_window o1) else 0)"
    "distinct (map fst (windows (ingest_observation o1 c)))"
proof -
  let ?k = "(obs_plan o1, obs_variant o1, obs_start o1)" and ?P = "is_arm pid var"
  have d: "distinct (map fst (filter (\<lambda>e. ?P (fst e)) (windows c)))"
    using assms(1) by (rule distinct_map_filter)
  have k: "?P ?k \<longleftrightarrow> obs_plan o1 = pid \<and> obs_variant o1 = var" by simp
  show "arm_total f pid var (ingest_observation o1 c) = arm_total f pid var c +
      (if obs_plan o1 = pid \<and> obs_variant o1 = var then f (obs_window o1) else 0)"
  proof (cases "map_of (windows c) ?k")
    case None
    then show ?thesis by (simp add: arm_total_def ingest_observation_def Let_def)
  next
    case (Some w)
    then have "windows (ingest_observation o1 c) = AList.update ?k (merge_window w (obs_window o1)) (windows c)"
      by (simp add: ingest_observation_def Let_def)
    then show ?thesis
      using Some vsum_update [OF d, of f ?k "merge_window w (obs_window o1)"] assms(2)
      by (cases "obs_plan o1 = pid \<and> obs_variant o1 = var")
        (auto simp: arm_total_def filter_update_key map_of_filter_key)
  qed
  show "distinct (map fst (windows (ingest_observation o1 c)))"
    using assms(1) by (auto simp: ingest_observation_def Let_def map_of_eq_None_iff intro: distinct_update split: option.splits)
qed

lemma post_observations_total:
  assumes "distinct (map fst (windows c))"
    "\<And>old new. f (merge_window old new) = f old + f new" "\<And>w e. f (w\<lparr>win_end := e\<rparr>) = f w"
  shows "arm_total f pid var (post_observations now os c) = arm_total f pid var c + posted f pid var os \<and>
    distinct (map fst (windows (post_observations now os c)))"
  using assms(1)
proof (induction os arbitrary: c)
  case Nil
  then show ?case by (simp add: post_observations_def posted_def)
next
  case (Cons o1 os)
  let ?c = "post_observation now o1 c"
  have "distinct (map fst (windows ?c))"
    "arm_total f pid var ?c = arm_total f pid var c +
      (if obs_plan o1 = pid \<and> obs_variant o1 = var then f (obs_window o1) else 0)"
    unfolding post_observation_def Let_def
    by (simp_all add: ingest_total [OF Cons.prems assms(2)] assms(3))
  moreover have "post_observations now (o1 # os) c = post_observations now os ?c"
    by (simp add: post_observations_def)
  ultimately show ?case using Cons.IH [of ?c] by (simp add: posted_def)
qed

lemma tick_plans_windows:
  "tick_plans fails lb now wall ps n c = Some (m, c') \<Longrightarrow> windows c' = windows c"
  using tick_plans_invariant [of "\<lambda>d. windows d = windows c"] by auto

lemma canary_reachable_windows: "canary_reachable c \<Longrightarrow> distinct (map fst (windows c))"
proof (induction rule: canary_reachable.induct)
  case (step c c')
  from step(2,3) show ?case
  proof (cases rule: canary_step_rel.cases)
    case (post now tenant p)
    then show ?thesis using step.IH by (auto simp: post_plan_def create_plan_def Let_def split: if_splits)
  next
    case (observe now os)
    then show ?thesis using post_observations_total [of c win_successes] step.IH by (simp add: merge_window_def)
  next
    case (tick fails lb now wall n)
    then show ?thesis using step.IH tick_plans_windows unfolding tick_def by metis
  qed (use step.IH in \<open>auto simp: pause_def resume_def apply_decision_def\<close>)
qed simp

subsection \<open>No panic from a plan that started on its ladder\<close>

definition steps_nonneg :: "controller \<Rightarrow> bool" where
  "steps_nonneg c \<longleftrightarrow> (\<forall>p \<in> set (map snd (plans c)). 0 \<le> current_step p)"

lemma tick_effect_steps: "steps_nonneg c \<Longrightarrow> steps_nonneg (tick_effect wall p od c)"
proof -
  have "(\<forall>p \<in> snd ` set m. 0 \<le> current_step p) \<Longrightarrow>
      (\<forall>p \<in> snd ` set (AList.map_entry k (apply_row now d) m). 0 \<le> current_step p)" for m k now d
    by (induction m) (auto simp: apply_row_def)
  then show "steps_nonneg c \<Longrightarrow> ?thesis"
    by (cases od) (simp_all add: tick_effect_def emit_transition_def apply_decision_def steps_nonneg_def)
qed

lemma tick_no_panic:
  assumes "steps_nonneg c"
  obtains n c' where "tick fails lb now wall c = Some (n, c')" "steps_nonneg c'"
proof -
  have "set (list_active c) \<subseteq> set (map snd (plans c))"
    unfolding list_active_def by (meson filter_is_subset order_trans set_take_subset)
  then have "tick fails lb now wall c \<noteq> None"
    using assms unfolding tick_def tick_plans_panic steps_nonneg_def off_ladder_panic_def
    by (meson not_le subsetD)
  then obtain n c' where t: "tick fails lb now wall c = Some (n, c')" by auto
  moreover have "steps_nonneg c'"
    using tick_plans_invariant [of steps_nonneg, OF tick_effect_steps t [unfolded tick_def] assms] by simp
  ultimately show ?thesis using that by blast
qed

lemma serve_steps: "leaves_alone pid r \<Longrightarrow> steps_nonneg c \<Longrightarrow> steps_nonneg (serve r c)"
proof -
  have old: "(\<forall>p \<in> snd ` set m. 0 \<le> current_step p) \<Longrightarrow>
      (\<forall>p \<in> snd ` set (AList.map_entry k (apply_row now d) m). 0 \<le> current_step p)" for m k now d
    by (induction m) (auto simp: apply_row_def)
  assume "leaves_alone pid r" "steps_nonneg c"
  then show "steps_nonneg (serve r c)"
    by (cases r) (auto simp: serve_def leaves_alone_def steps_nonneg_def post_plan_def create_plan_def pause_def resume_def
        apply_decision_def Let_def old [unfolded ball_simps] split: option.split dest: old [rule_format, rotated])
qed

lemma serve_all_steps: "list_all (leaves_alone pid) rs \<Longrightarrow> steps_nonneg c \<Longrightarrow> steps_nonneg (fold serve rs c)"
  by (induction rs arbitrary: c) (auto intro: serve_steps)

lemma run_ticks_no_panic: "steps_nonneg c \<Longrightarrow> healthy_run lb pid ts c \<Longrightarrow> \<exists>c'. run_ticks lb ts c = Some c'"
proof (induction ts arbitrary: c)
  case (Cons t ts)
  obtain rs now w where t: "t = (rs, now, w)" by (cases t)
  have "steps_nonneg (fold serve rs c)" using serve_all_steps [of pid] Cons.prems t by (simp add: Let_def)
  then obtain n c1 where "tick (\<lambda>_ _. False) lb now (\<lambda>_. w) (fold serve rs c) = Some (n, c1)" "steps_nonneg c1"
    by (rule tick_no_panic)
  then show ?case using Cons.IH [of c1] Cons.prems(2) t by (simp add: Let_def)
qed simp

subsection \<open>Properties\<close>

lemma tick_moves:
  assumes "canary_reachable c" "tick fails lb now wall c = Some (n, c')"
    "map_of (plans c) pid = Some p" "map_of (plans c') pid = Some p'" "p' \<noteq> p"
  shows "running p \<and> on_ladder p \<and> last_step_at p' = wall pid \<and>
    (\<exists>b cd. aggregate_since c pid ''baseline'' (now - lookback_or_default lb) = Some b \<and>
       aggregate_since c pid ''candidate'' (now - lookback_or_default lb) = Some cd \<and>
       (if evidence p b cd \<and> held p now
        then current_step p' = current_step p + 1 \<and>
          plan_status p' = (if current_step p + 1 < int (length (ladder p)) then Ramping
                            else if auto_promote p then Promoted else Holding)
        else if regressed (plan_verdict p b cd) then current_step p' = 0 \<and> plan_status p' = RolledBack
        else current_step p' = current_step p \<and> plan_status p = Ramping \<and> plan_status p' = Holding))"
proof -
  have pid: "plan_id p = pid"
    using canary_reachable_keyed [OF assms(1)] assms(3) by (auto simp: plans_keyed_def dest!: map_of_SomeD)
  obtain d where d: "p \<in> set (list_active c)" "tick_decision fails lb now c p = Some d"
    "p' = apply_row (wall pid) d p"
    using tick_row(1) [OF assms(1-3)] assms(4,5) by (auto split: if_splits option.splits)
  have on: "on_ladder p" "plan_status p \<noteq> Draft" "plan_status p \<noteq> Paused"
    using d(2) by (auto simp: tick_decision_def split: if_splits)
  then have run: "running p" using running_iff_active list_active_status [OF d(1)] by blast
  from d(2) obtain b cd where v: "aggregate_since c pid ''baseline'' (now - lookback_or_default lb) = Some b"
      "aggregate_since c pid ''candidate'' (now - lookback_or_default lb) = Some cd"
    and nx: "d = canary_next p (plan_verdict p b cd) now"
      "new_status d \<noteq> plan_status p \<or> new_step d \<noteq> current_step p"
    by (auto simp: tick_decision_def tick_verdict_def Let_def pid split: if_splits option.splits)
  note next_eq = canary_next_running [OF run on(1), of "plan_verdict p b cd" now, folded nx(1)]
  have ev: "evidence p b cd \<longleftrightarrow> \<not> regressed (plan_verdict p b cd) \<and>
      reason (plan_verdict p b cd) \<noteq> ''insufficient_samples''"
    using plan_verdict_reason healthy_iff_evidence by simp
  have pos: "0 \<le> current_step p" using on(1) by (simp add: on_ladder_def)
  have "last_step_at p' = wall pid" using d(3) pos next_eq by (auto simp: apply_row_def split: if_splits)
  moreover have "if evidence p b cd \<and> held p now
        then current_step p' = current_step p + 1 \<and>
          plan_status p' = (if current_step p + 1 < int (length (ladder p)) then Ramping
                            else if auto_promote p then Promoted else Holding)
        else if regressed (plan_verdict p b cd) then current_step p' = 0 \<and> plan_status p' = RolledBack
        else current_step p' = current_step p \<and> plan_status p = Ramping \<and> plan_status p' = Holding"
    using d(3) pos next_eq nx(2) run by (auto simp: apply_row_def ev running_def split: if_splits)
  ultimately show ?thesis using run on(1) v by blast
qed

text \<open>
  A tick changes a plan only in three ways, and never a draft, paused or finished one. It goes
  up one step only on evidence: enough samples in both arms inside the look-back window, the
  candidate not worse than tolerated, and the hold time of the step elapsed. A regression sends it
  back to step 0 as rolled back. Otherwise a ramping plan starts holding on its step.
\<close>

theorem tick_moves_on_evidence:
  assumes "canary_reachable c" "tick fails lb now wall c = Some (n, c')"
    "map_of (plans c) pid = Some p" "map_of (plans c') pid = Some p'" "p' \<noteq> p"
  shows "running p \<and> on_ladder p \<and> last_step_at p' = wall pid \<and>
    (\<exists>b cd. aggregate_since c pid ''baseline'' (now - lookback_or_default lb) = Some b \<and>
       aggregate_since c pid ''candidate'' (now - lookback_or_default lb) = Some cd \<and>
       (if evidence p b cd \<and> held p now
        then current_step p' = current_step p + 1 \<and>
          plan_status p' = (if current_step p + 1 < int (length (ladder p)) then Ramping
                            else if auto_promote p then Promoted else Holding)
        else if regressed (plan_verdict p b cd) then current_step p' = 0 \<and> plan_status p' = RolledBack
        else current_step p' = current_step p \<and> plan_status p = Ramping \<and> plan_status p' = Holding))"
  by (rule tick_moves [OF assms])

text \<open>
  C35: for a ramping or holding plan among those the loop reads and a tick whose database calls for it succeed: on its ladder, a
  candidate that has regressed is rolled back to step 0 by that tick, whatever its hold time and however bad the
  regression (there is no pause for review), and the rollback is published. At the end of its ladder, where a plan without
  automatic promotion waits at full exposure, the tick does not look at it: the row stays and nothing is
  published for it, regressed or not.
\<close>

theorem regression_rolls_back:
  assumes "canary_reachable c" "tick fails lb now wall c = Some (n, c')"
    "p \<in> set (list_active c)" "running p" "\<And>call. \<not> fails (plan_id p) call"
    "aggregate_since c (plan_id p) ''baseline'' (now - lookback_or_default lb) = Some b"
    "aggregate_since c (plan_id p) ''candidate'' (now - lookback_or_default lb) = Some cd"
  shows "if on_ladder p
    then regressed (plan_verdict p b cd) \<longrightarrow>
      map_of (plans c') (plan_id p) = Some (p\<lparr>plan_status := RolledBack, current_step := 0,
        last_step_at := wall (plan_id p), failure_reason := reason (plan_verdict p b cd),
        plan_updated_at := wall (plan_id p)\<rparr>) \<and>
      (\<exists>e \<in> set (published c'). ev_subject e = ''canary.rollback.v1'' \<and> ev_plan e = plan_id p \<and>
         ev_failure e = reason (plan_verdict p b cd))
    else map_of (plans c') (plan_id p) = Some p \<and>
      (\<exists>es. published c' = published c @ es \<and> (\<forall>e \<in> set es. ev_plan e \<noteq> plan_id p))"
proof -
  have k: "plans_keyed c" by (rule canary_reachable_keyed [OF assms(1)])
  have row: "map_of (plans c) (plan_id p) = Some p" by (rule list_active_lookup [OF k assms(3)])
  note pub = tick_plans_published [OF assms(2) [unfolded tick_def]]
  show ?thesis
  proof (cases "on_ladder p")
    case True
    let ?d = "canary_next p (plan_verdict p b cd) now"
    have "map_of (plans c') (plan_id p) = Some (apply_row (wall (plan_id p)) ?d p) \<and> transition_event p ?d \<in> set (published c') \<and>
        ?d = \<lparr>new_status = RolledBack, new_step = 0, dec_failure = reason (plan_verdict p b cd),
          gate_required = False, human_readable = ''regression detected: '' @ reason (plan_verdict p b cd)\<rparr>"
      if r: "regressed (plan_verdict p b cd)"
    proof -
      have d: "?d = \<lparr>new_status = RolledBack, new_step = 0, dec_failure = reason (plan_verdict p b cd),
          gate_required = False, human_readable = ''regression detected: '' @ reason (plan_verdict p b cd)\<rparr>"
        using canary_next_running [OF assms(4) True] r by simp
      have td: "tick_decision fails lb now c p = Some ?d"
        using assms(4-7) True d by (auto simp: tick_decision_def tick_verdict_def running_def Let_def)
      show ?thesis
        using tick_row(1) [OF assms(1,2) row] pub assms(3) td d by force
    qed
    then show ?thesis
      using True by (auto simp: apply_row_def transition_event_def emit_transition_def intro!: bexI)
  next
    case False
    then have td: "tick_decision fails lb now c p = None" by (simp add: tick_decision_def)
    have other: "plan_id q \<noteq> plan_id p" if "q \<in> set (list_active c)" "q \<noteq> p" for q
      using that list_active_lookup [OF k that(1)] row by auto
    have "\<forall>e \<in> set (concat (map (\<lambda>q. case tick_decision fails lb now c q of None \<Rightarrow> [] | Some d \<Rightarrow> [transition_event q d]) (list_active c))).
        ev_plan e \<noteq> plan_id p"
      using other td by (force simp: transition_event_def emit_transition_def split: option.splits)
    then show ?thesis using False pub td tick_row(1) [OF assms(1,2) row] by auto
  qed
qed

text \<open>
  The loop panics exactly when it reads a plan that is neither a draft nor paused and stands at
  a negative step of a nonempty ladder.
\<close>

theorem tick_panics_iff:
  "tick fails lb now wall c = None \<longleftrightarrow>
     (\<exists>p \<in> set (list_active c). plan_status p \<notin> {Draft, Paused} \<and> ladder p \<noteq> [] \<and> current_step p < 0)"
  using tick_plans_panic [of fails lb now wall "list_active c" 0 c] by (auto simp: tick_def off_ladder_panic_def)

text \<open>
  C34: a healthy plan climbs its whole ladder. Between the ticks any observations, plans and pauses and resumes of other plans may be
  posted (no plan at a negative step, at most 500 plans in all). If no database call fails, the clock does not run
  backwards and every tick finds the evidence for the step the plan is on, then the loop does not panic, every block of ticks that
  lasts as long as the longest hold time takes the plan up at least one step, and after as many blocks as there are steps left the plan is at
  the end of its ladder: holding for the operator, or promoted if it promotes itself. The loop promotes it on its own: no gate is opened
  or asked for (\<open>unobserved_plan_promoted\<close> for what counts as evidence).
\<close>

theorem healthy_plan_completes:
  assumes "canary_reachable c" "steps_nonneg c" "map_of (plans c) pid = Some p"
    "running p" "on_ladder p" "0 < last_step_at p" "holds_ok p"
    "clocked (last_step_at p) (concat bs)" "\<forall>b \<in> set bs. spans p b"
    "healthy_run lb pid (concat bs) c" "int (length (ladder p)) \<le> current_step p + int (length bs)"
  shows "\<exists>c' q. run_ticks lb (concat bs) c = Some c' \<and> map_of (plans c') pid = Some q \<and>
    current_step q = int (length (ladder p)) \<and> plan_status q = (if auto_promote p then Promoted else Holding)"
proof -
  have "climbing (last_step_at p) p" using assms(4-6) by (simp add: climbing_def)
  moreover obtain c' where c': "run_ticks lb (concat bs) c = Some c'" using run_ticks_no_panic [OF assms(2,10)] by blast
  ultimately obtain q where "map_of (plans c') pid = Some q" "same_config p q" "at_end q"
    using blocks_climb [OF assms(1,3) _ assms(7,8) _ assms(10) c' assms(11)] assms(9) by blast
  then show ?thesis using c' by (auto simp: at_end_def same_config_def)
qed

text \<open>
  Promotion needs neither traffic nor a gate. A plan on its last step that promotes itself, with
  no sample floor and nothing observed, is promoted by the first tick after its hold time: the same
  tick writes the promoted status and publishes the promotion.
\<close>

lemma unobserved_plan_promoted:
  assumes "canary_reachable c" "tick (\<lambda>_ _. False) lb now wall c = Some (n, c')" "windows c = []"
    "p \<in> set (list_active c)" "running p" "current_step p = int (length (ladder p)) - 1" "ladder p \<noteq> []"
    "auto_promote p" "min_samples (last (ladder p)) \<le> 0" "max_proportion_delta p = Fin d" "0 \<le> d"
    "held p now"
  shows "(\<exists>q. map_of (plans c') (plan_id p) = Some q \<and> plan_status q = Promoted) \<and>
    (\<exists>e \<in> set (published c'). ev_subject e = ''canary.promote.v1'' \<and> ev_plan e = plan_id p)"
proof -
  let ?z = "\<lparr>successes = 0, failures = 0, p95_latency_ms = 0\<rparr>"
  have on: "on_ladder p" using assms(6,7) by (simp add: on_ladder_def Suc_le_eq)
  have agg: "aggregate_since c i v s = Some ?z" for i v s
    using assms(3) by (simp add: aggregate_since_def arm_windows_def in_i64_def)
  have "nat (current_step p) = length (ladder p) - 1" using assms(6) by simp
  then have "ladder p ! nat (current_step p) = last (ladder p)" using assms(7) by (simp add: last_conv_nth)
  then have "healthy (plan_verdict p ?z ?z)"
    using assms(9-11) no_traffic_is_healthy [where d = d] by (simp add: plan_verdict_def)
  then have v: "\<not> regressed (plan_verdict p ?z ?z)" "reason (plan_verdict p ?z ?z) \<noteq> ''insufficient_samples''"
    using plan_verdict_reason by blast+
  let ?d = "canary_next p (plan_verdict p ?z ?z) now"
  have d: "new_status ?d = Promoted" "0 \<le> new_step ?d"
    using canary_next_running [OF assms(5) on, of "plan_verdict p ?z ?z" now] v assms(6,8,12) on
    by (auto simp: on_ladder_def)
  have td: "tick_decision (\<lambda>_ _. False) lb now c p = Some ?d"
    using assms(5) on d agg by (auto simp: tick_decision_def tick_verdict_def running_def Let_def)
  have row: "map_of (plans c) (plan_id p) = Some p"
    using list_active_lookup [OF canary_reachable_keyed [OF assms(1)] assms(4)] .
  have "map_of (plans c') (plan_id p) = Some (apply_row (wall (plan_id p)) ?d p)"
    using tick_row(1) [OF assms(1,2) row] assms(4) td by simp
  moreover have "transition_event p ?d \<in> set (published c')"
    using tick_plans_published [OF assms(2) [unfolded tick_def]] assms(4) td by force
  ultimately show ?thesis
    using d by (auto simp: apply_row_def transition_event_def emit_transition_def intro!: bexI [of _ "transition_event p ?d"])
qed

text \<open>
  Ingesting observations loses no count. Whatever windows were posted before, and however many
  rows of the list fall into the same window, the total successes and failures recorded for an arm
  of a plan grow by exactly what the list reports for it.
\<close>

theorem ingest_conserves_counts:
  assumes "canary_reachable c"
  shows "arm_total win_successes pid var (post_observations now os c) =
      arm_total win_successes pid var c + posted win_successes pid var os \<and>
    arm_total win_failures pid var (post_observations now os c) =
      arm_total win_failures pid var c + posted win_failures pid var os"
  using post_observations_total [OF canary_reachable_windows [OF assms], of win_successes]
    post_observations_total [OF canary_reachable_windows [OF assms], of win_failures]
  by (simp add: merge_window_def)

subsection \<open>A concrete plan\<close>

definition demo_start :: time where "demo_start = 10 ^ 18"

definition demo_plan :: canary_plan where
  "demo_plan = \<lparr>plan_id = ''cp'', plan_tenant = [], resource_urn = ''urn'', baseline_urn = ''b'',
     candidate_urn = ''c'', ladder = [\<lparr>candidate_percent = 10, hold_seconds = 60, min_samples = 0\<rparr>],
     max_proportion_delta = Fin 0, max_latency_delta = 0, auto_promote = True,
     plan_status = OtherStatus [], current_step = 0, last_step_at = 0, failure_reason = [],
     plan_created_at = 0, plan_updated_at = 0\<rparr>"

definition demo_row :: canary_plan where
  "demo_row = demo_plan\<lparr>plan_tenant := ''t'', plan_status := Ramping, last_step_at := demo_start,
     plan_created_at := demo_start, plan_updated_at := demo_start\<rparr>"

definition demo_controller :: controller where
  "demo_controller = \<lparr>plans = [(''cp'', demo_row)], windows = [], published = []\<rparr>"

lemma demo_posted:
  "post_plan demo_start ''t'' demo_plan \<lparr>plans = [], windows = [], published = []\<rparr> = Some demo_controller"
  by (simp add: post_plan_def create_plan_def demo_controller_def demo_row_def demo_plan_def
      demo_start_def is_zero_def)

lemma demo_canary_reachable: "canary_reachable demo_controller"
  by (rule canary_reachable.step [OF canary_reachable.init canary_step_rel.post [OF demo_posted]])

lemma demo_facts:
  "steps_nonneg demo_controller" "list_active demo_controller = [demo_row]" "running demo_row"
  "on_ladder demo_row" "holds_ok demo_row" "map_of (plans demo_controller) ''cp'' = Some demo_row"
  "plan_id demo_row = ''cp''" "length (plans demo_controller) \<le> 500" "last_step_at demo_row = demo_start"
  "ladder demo_row = [\<lparr>candidate_percent = 10, hold_seconds = 60, min_samples = 0\<rparr>]"
  "auto_promote demo_row" "current_step demo_row = 0" "max_proportion_delta demo_row = Fin 0"
  "windows demo_controller = []"
  by (simp_all add: steps_nonneg_def list_active_def running_def on_ladder_def holds_ok_def
      demo_controller_def demo_row_def demo_plan_def)

lemma demo_held: "held demo_row (demo_start + minute)"
  by (rule held_if) (simp_all add: demo_facts, simp_all add: demo_start_def)

lemma demo_aggregate:
  "aggregate_since demo_controller i v s = Some \<lparr>successes = 0, failures = 0, p95_latency_ms = 0\<rparr>"
  by (simp add: aggregate_since_def arm_windows_def demo_facts in_i64_def)

lemma demo_evidence:
  "ladder q = ladder demo_row \<Longrightarrow> max_proportion_delta q = Fin 0 \<Longrightarrow> max_latency_delta q = d \<Longrightarrow> x - y \<le> d \<Longrightarrow> in_i64 (x - y) \<Longrightarrow>
   current_step q = 0 \<Longrightarrow> evidence q \<lparr>successes = 0, failures = 0, p95_latency_ms = y\<rparr> \<lparr>successes = 0, failures = 0, p95_latency_ms = x\<rparr>"
  by (simp add: evidence_def demo_facts safe_rate_def wilson_lower_bound_def fl_sub_def f64_round(1) in_i64_def i64_id Let_def)

lemma demo_healthy: "healthy_now demo_controller lb ''cp'' now"
  using demo_evidence [of demo_row 0 0 0]
  by (simp add: healthy_now_def demo_aggregate demo_facts) (simp add: demo_row_def demo_plan_def in_i64_def)

text \<open>The same plan with a bound on the latency, and an observation for each arm.\<close>

definition demo_slow_row :: canary_plan where
  "demo_slow_row = demo_row\<lparr>max_latency_delta := 50\<rparr>"

definition demo_window :: "int \<Rightarrow> canary_window" where
  "demo_window p95 = \<lparr>win_end = demo_start, win_successes = 0, win_failures = 0,
     win_p50 = 0, win_p95 = p95, win_p99 = 0\<rparr>"

definition demo_tolerant :: controller where
  "demo_tolerant = \<lparr>plans = [(''cp'', demo_slow_row)], windows = [], published = []\<rparr>"

definition demo_watched :: "int \<Rightarrow> controller" where
  "demo_watched l = \<lparr>plans = [(''cp'', demo_slow_row)],
     windows = [((''cp'', ''baseline'', 1), demo_window 10), ((''cp'', ''candidate'', 1), demo_window l)],
     published = []\<rparr>"

definition demo_posts :: "int \<Rightarrow> request list" where
  "demo_posts l = [PostObservations 5
      [\<lparr>obs_plan = ''cp'', obs_variant = ''baseline'', obs_start = 1, obs_window = demo_window 10\<rparr>,
       \<lparr>obs_plan = ''cp'', obs_variant = ''candidate'', obs_start = 1, obs_window = demo_window l\<rparr>]]"

lemma demo_tolerant_reachable: "canary_reachable demo_tolerant"
proof -
  have "post_plan demo_start ''t'' (demo_plan\<lparr>max_latency_delta := 50\<rparr>)
      \<lparr>plans = [], windows = [], published = []\<rparr> = Some demo_tolerant"
    by (simp add: post_plan_def create_plan_def demo_tolerant_def demo_slow_row_def demo_row_def demo_plan_def
        demo_start_def is_zero_def)
  then show ?thesis by (rule canary_reachable.step [OF canary_reachable.init canary_step_rel.post])
qed

lemma demo_observed: "fold serve (demo_posts l) demo_tolerant = demo_watched l"
  by (simp add: demo_posts_def serve_def post_observations_def post_observation_def ingest_observation_def demo_watched_def
      demo_tolerant_def demo_window_def demo_start_def is_zero_def)

lemma demo_watched_reachable: "canary_reachable (demo_watched l)"
  using serve_all(1) [OF demo_tolerant_reachable, of "demo_posts l"] by (simp only: demo_observed)

lemma demo_slow_facts:
  "list_active (demo_watched l) = [demo_slow_row]" "running demo_slow_row" "on_ladder demo_slow_row" "holds_ok demo_slow_row"
  "plan_id demo_slow_row = ''cp''" "map_of (plans (demo_watched l)) ''cp'' = Some demo_slow_row" "steps_nonneg (demo_watched l)"
  "map_of (plans demo_tolerant) ''cp'' = Some demo_slow_row" "steps_nonneg demo_tolerant" "length (plans (demo_watched l)) = 1"
  "ladder demo_slow_row = ladder demo_row" "max_proportion_delta demo_slow_row = Fin 0" "max_latency_delta demo_slow_row = 50"
  "current_step demo_slow_row = 0" "auto_promote demo_slow_row" "last_step_at demo_slow_row = demo_start"
  by (simp_all add: steps_nonneg_def list_active_def running_def on_ladder_def holds_ok_def demo_watched_def demo_tolerant_def
      demo_slow_row_def demo_row_def demo_plan_def)

lemma demo_counts:
  assumes "windows c = windows (demo_watched l)" "now = demo_start \<or> now = demo_start + minute"
  shows "aggregate_since c ''cp'' ''baseline'' (now - lookback_or_default 0) = Some \<lparr>successes = 0, failures = 0, p95_latency_ms = 10\<rparr>"
    "aggregate_since c ''cp'' ''candidate'' (now - lookback_or_default 0) = Some \<lparr>successes = 0, failures = 0, p95_latency_ms = l\<rparr>"
  using assms(2)
  by (auto simp: aggregate_since_def arm_windows_def assms(1) demo_watched_def demo_window_def demo_start_def lookback_or_default_def in_i64_def)

lemma demo_fine:
  assumes "windows c = windows (demo_watched 40)" "now = demo_start \<or> now = demo_start + minute"
    "map_of (plans c) ''cp'' = Some q" "same_config demo_slow_row q" "0 \<le> current_step q"
  shows "healthy_now c 0 ''cp'' now"
proof -
  have "current_step q = 0" if "on_ladder q"
    using that assms(4,5) by (simp add: on_ladder_def same_config_def demo_slow_facts demo_facts)
  then show ?thesis
    using demo_evidence [of q 50 40 10] assms(4)
    by (auto simp: healthy_now_def assms(3) demo_counts [OF assms(1,2)] same_config_def demo_slow_facts in_i64_def)
qed

lemma demo_rounds_healthy:
  "healthy_run 0 ''cp'' [(demo_posts 40, demo_start, demo_start), ([], demo_start + minute, demo_start + minute)] demo_tolerant"
proof -
  have h1: "healthy_now (demo_watched 40) 0 ''cp'' demo_start"
    by (rule demo_fine [where q = demo_slow_row]) (simp_all add: demo_slow_facts same_config_def)
  obtain n c1 where t: "tick (\<lambda>_ _. False) 0 demo_start (\<lambda>_. demo_start) (demo_watched 40) = Some (n, c1)" "steps_nonneg c1"
    by (rule tick_no_panic [OF demo_slow_facts(7)])
  have cl: "climbing demo_start demo_slow_row"
    by (simp add: climbing_def demo_slow_facts) (simp add: demo_start_def)
  have len: "length (plans (demo_watched 40)) \<le> 500" by (simp add: demo_slow_facts)
  obtain q where q: "map_of (plans c1) ''cp'' = Some q" "same_config demo_slow_row q" "climbed demo_start demo_start demo_slow_row q"
    by (rule tick_climbs [OF demo_watched_reachable len demo_slow_facts(6) t(1) cl h1])
  have w: "windows c1 = windows (demo_watched 40)" "length (plans c1) = 1"
    using tick_row(2,3) [OF demo_watched_reachable t(1) demo_slow_facts(6)] demo_slow_facts(10) [of 40]
    by (auto dest: arg_cong [where f = length])
  have "0 \<le> current_step q" using climbed_climbing(2) [OF q(3,2) cl order_refl order_refl] by (simp add: demo_slow_facts)
  then have h2: "healthy_now c1 0 ''cp'' (demo_start + minute)" using demo_fine [OF w(1) _ q(1,2)] by simp
  have la: "list_all (leaves_alone ''cp'') (demo_posts 40)" by (simp add: demo_posts_def leaves_alone_def)
  show ?thesis
    using h1 h2 len w(2) la t(1) by (simp add: demo_observed Let_def split: option.split)
qed

theorem healthy_plan_completes_witness:
  "\<exists>c' q. run_ticks 0 [(demo_posts 40, demo_start, demo_start), ([], demo_start + minute, demo_start + minute)] demo_tolerant
     = Some c' \<and> map_of (plans c') ''cp'' = Some q \<and> plan_status q = Promoted"
proof -
  let ?b = "[(demo_posts 40, demo_start, demo_start), ([], demo_start + minute, demo_start + minute)]"
  have p: "0 < last_step_at demo_slow_row" "clocked (last_step_at demo_slow_row) (concat [?b])"
    "\<forall>b \<in> set [?b]. spans demo_slow_row b" "healthy_run 0 ''cp'' (concat [?b]) demo_tolerant"
    "int (length (ladder demo_slow_row)) \<le> current_step demo_slow_row + int (length [?b])"
    using demo_rounds_healthy
    by (simp_all add: demo_slow_facts demo_facts spans_def del: healthy_run.simps) (simp_all add: demo_start_def)
  from healthy_plan_completes [OF demo_tolerant_reachable demo_slow_facts(9,8,2,3) p(1) demo_slow_facts(4) p(2-5)]
  show ?thesis using demo_slow_facts(15) by auto
qed

lemma unobserved_plan_promoted_witness:
  "\<exists>n c' q. tick (\<lambda>_ _. False) 0 (demo_start + minute) (\<lambda>_. demo_start) demo_controller = Some (n, c') \<and>
     map_of (plans c') ''cp'' = Some q \<and> plan_status q = Promoted"
proof -
  obtain n c' where t: "tick (\<lambda>_ _. False) 0 (demo_start + minute) (\<lambda>_. demo_start) demo_controller = Some (n, c')"
    by (rule tick_no_panic [OF demo_facts(1)])
  show ?thesis
    using unobserved_plan_promoted [OF demo_canary_reachable t demo_facts(14) _ demo_facts(3) _ _ demo_facts(11) _ demo_facts(13) _ demo_held]
      t by (simp add: demo_facts)
qed

theorem tick_moves_on_evidence_witness:
  "\<exists>n c' p'. tick (\<lambda>_ _. False) 0 demo_start (\<lambda>_. demo_start) demo_controller = Some (n, c') \<and>
     map_of (plans c') ''cp'' = Some p' \<and> last_step_at p' = demo_start"
proof -
  obtain n c' where t: "tick (\<lambda>_ _. False) 0 demo_start (\<lambda>_. demo_start) demo_controller = Some (n, c')"
    by (rule tick_no_panic [OF demo_facts(1)])
  have "climbing demo_start demo_row" by (simp add: climbing_def demo_facts) (simp add: demo_start_def)
  then obtain q where q: "map_of (plans c') ''cp'' = Some q" "climbed demo_start demo_start demo_row q"
    using tick_climbs [OF demo_canary_reachable demo_facts(8,6) t _ demo_healthy, of demo_start] by blast
  have "q \<noteq> demo_row"
    using q(2) by (auto simp: climbed_def at_end_def demo_facts split: if_splits) (simp add: demo_row_def)
  from tick_moves_on_evidence [OF demo_canary_reachable t demo_facts(6) q(1) this] t q(1) show ?thesis by blast
qed

theorem ingest_conserves_counts_witness:
  "arm_total win_successes ''cp'' ''candidate''
     (post_observations 7 [\<lparr>obs_plan = ''cp'', obs_variant = ''candidate'', obs_start = 1, obs_window =
        \<lparr>win_end = 2, win_successes = 5, win_failures = 1, win_p50 = 0, win_p95 = 0, win_p99 = 0\<rparr>\<rparr>] demo_controller) = 5"
  using ingest_conserves_counts [OF demo_canary_reachable] by (simp add: posted_def arm_total_def demo_facts)

theorem regression_rolls_back_witness:
  "\<exists>n c' q. tick (\<lambda>_ _. False) 0 demo_start (\<lambda>_. demo_start) (demo_watched 90) = Some (n, c') \<and>
     map_of (plans c') ''cp'' = Some q \<and> plan_status q = RolledBack"
proof -
  obtain n c' where t: "tick (\<lambda>_ _. False) 0 demo_start (\<lambda>_. demo_start) (demo_watched 90) = Some (n, c')"
    by (rule tick_no_panic [OF demo_slow_facts(7)])
  let ?b = "\<lambda>l. \<lparr>successes = 0, failures = 0, p95_latency_ms = l\<rparr>"
  have a: "demo_slow_row \<in> set (list_active (demo_watched 90))" by (simp add: demo_slow_facts)
  have g: "aggregate_since (demo_watched 90) (plan_id demo_slow_row) ''baseline'' (demo_start - lookback_or_default 0) = Some (?b 10)"
    "aggregate_since (demo_watched 90) (plan_id demo_slow_row) ''candidate'' (demo_start - lookback_or_default 0) = Some (?b 90)"
    using demo_counts [of "demo_watched 90" 90 demo_start] by (simp_all add: demo_slow_facts)
  have r: "regressed (plan_verdict demo_slow_row (?b 10) (?b 90))"
    by (simp add: regressed_def plan_verdict_def assess_regression_def demo_slow_row_def demo_row_def demo_plan_def
        safe_rate_def wilson_lower_bound_def fl_sub_def f64_round(1) in_i64_def Let_def)
  have "\<not> (\<lambda>_ _. False) (plan_id demo_slow_row) call" for call :: db_call by simp
  from regression_rolls_back [OF demo_watched_reachable t a demo_slow_facts(2) this g] t r
  show ?thesis by (simp add: demo_slow_facts)
qed

end
