(* ===== verification/EventRing.thy ===== *)
theory EventRing
  imports BoundedLog
begin

section \<open>event-service: the ring of recent events\<close>

text \<open>
  Model of \<open>services/event-service/internal/store/ring.go\<close>. An event is what the ring looks at,
  its tenant and its stream, with an identity. A subscriber's channel is its buffer: the events sent
  and not yet received, oldest first, with the capacity of the channel; a send is dropped when the
  buffer is full. The map of subscribers is ranged over in an order that does not matter, since each
  channel is served on its own.
\<close>

record event =
  event_id :: string
  event_tenant :: string
  event_stream :: string
  event_summary :: string
  event_class :: string
  event_rule :: string

record subscription =
  sub_tenant :: string
  sub_stream :: string
  sub_capacity :: nat
  sub_buffer :: "event list"
  sub_closed :: bool

record ring =
  ring_events :: "event list"
  ring_capacity :: int
  ring_subs :: "(nat \<times> subscription) list"
  next_sub :: nat
  ring_detached :: "(nat \<times> subscription) list"

text \<open>
  \<open>ring_detached\<close> holds the channels that are no longer in the map: their consumers can still
  receive what was buffered before the channel was closed.
\<close>

definition new_ring :: "int \<Rightarrow> ring" where
  "new_ring cap = \<lparr>ring_events = [], ring_capacity = cap, ring_subs = [], next_sub = 0, ring_detached = []\<rparr>"

definition event_matches :: "string \<Rightarrow> string \<Rightarrow> event \<Rightarrow> bool" where
  "event_matches tenant stream ev \<longleftrightarrow>
     \<not> (tenant \<noteq> [] \<and> event_tenant ev \<noteq> tenant) \<and> \<not> (stream \<noteq> [] \<and> event_stream ev \<noteq> stream)"

definition deliver :: "event \<Rightarrow> subscription \<Rightarrow> subscription" where
  "deliver ev s =
     (if sub_tenant s \<noteq> [] \<and> event_tenant ev \<noteq> sub_tenant s then s
      else if sub_stream s \<noteq> [] \<and> event_stream ev \<noteq> sub_stream s then s
      else if length (sub_buffer s) < sub_capacity s then s\<lparr>sub_buffer := sub_buffer s @ [ev]\<rparr>
      else s)"

definition append_event :: "event \<Rightarrow> ring \<Rightarrow> ring" where
  "append_event ev r =
     (let evs = (if 0 < ring_capacity r then
                   let l = ring_events r @ [ev] in
                   if ring_capacity r < int (length l) then drop (length l - nat (ring_capacity r)) l else l
                 else ring_events r) in
      r\<lparr>ring_events := evs, ring_subs := map (\<lambda>(k, s). (k, deliver ev s)) (ring_subs r)\<rparr>)"

fun list_loop :: "string \<Rightarrow> string \<Rightarrow> nat \<Rightarrow> event list \<Rightarrow> nat \<Rightarrow> event list \<Rightarrow> event list" where
  "list_loop tenant stream limit evs 0 out = out"
| "list_loop tenant stream limit evs (Suc i) out =
     (if \<not> length out < limit then out
      else let ev = evs ! i in
        if tenant \<noteq> [] \<and> event_tenant ev \<noteq> tenant then list_loop tenant stream limit evs i out
        else if stream \<noteq> [] \<and> event_stream ev \<noteq> stream then list_loop tenant stream limit evs i out
        else list_loop tenant stream limit evs i (out @ [ev]))"

definition list_events :: "string \<Rightarrow> string \<Rightarrow> int \<Rightarrow> ring \<Rightarrow> event list" where
  "list_events tenant stream limit r =
     list_loop tenant stream (nat (if limit \<le> 0 then 100 else limit)) (ring_events r) (length (ring_events r)) []"

definition subscribe :: "string \<Rightarrow> string \<Rightarrow> int \<Rightarrow> ring \<Rightarrow> nat \<times> ring" where
  "subscribe tenant stream capacity r =
     (let cap = nat (if capacity \<le> 0 then 64 else capacity); sid = next_sub r in
      (sid, r\<lparr>next_sub := sid + 1, ring_subs := AList.update sid
         \<lparr>sub_tenant = tenant, sub_stream = stream, sub_capacity = cap, sub_buffer = [], sub_closed = False\<rparr>
         (ring_subs r)\<rparr>))"

definition cancel :: "nat \<Rightarrow> ring \<Rightarrow> ring" where
  "cancel sid r =
     (case map_of (ring_subs r) sid of
        None \<Rightarrow> r
      | Some s \<Rightarrow> r\<lparr>ring_subs := AList.delete sid (ring_subs r),
                    ring_detached := (sid, s\<lparr>sub_closed := True\<rparr>) # ring_detached r\<rparr>)"

text \<open>A receive on a subscriber's channel: what the consumer gets and the channel after it.\<close>

datatype received = Got event | Closed | Blocks

definition receive :: "subscription \<Rightarrow> received \<times> subscription" where
  "receive s =
     (case sub_buffer s of
        [] \<Rightarrow> (if sub_closed s then Closed else Blocks, s)
      | ev # evs \<Rightarrow> (Got ev, s\<lparr>sub_buffer := evs\<rparr>))"

definition ring_receive :: "nat \<Rightarrow> ring \<Rightarrow> ring" where
  "ring_receive sid r = r\<lparr>ring_subs := AList.map_entry sid (snd \<circ> receive) (ring_subs r)\<rparr>"

subsection \<open>Search over the ring (internal/server/search.go)\<close>

fun contains_from :: "string \<Rightarrow> string \<Rightarrow> bool" where
  "contains_from nl hl =
     (if length hl < length nl then False
      else if take (length nl) hl = nl then True
      else (case hl of [] \<Rightarrow> False | c # cs \<Rightarrow> contains_from nl cs))"

declare contains_from.simps [simp del]

definition contains_fold :: "string \<Rightarrow> string \<Rightarrow> bool" where
  "contains_fold haystack needle_lower =
     (let hl = to_lower haystack in
      if length hl < length needle_lower then False else contains_from needle_lower hl)"

definition filter_by_query :: "event list \<Rightarrow> string \<Rightarrow> event list" where
  "filter_by_query evs q =
     (if q = [] then evs
      else let ql = to_lower q in
        filter (\<lambda>ev. contains_fold (event_summary ev) ql \<or> contains_fold (event_class ev) ql \<or>
                      contains_fold (event_rule ev) ql) evs)"

text \<open>\<open>limit_arg\<close> is the value of the query parameter when it is present and parses as a number.\<close>

definition search_limit :: "int option \<Rightarrow> int" where
  "search_limit limit_arg =
     (case limit_arg of None \<Rightarrow> 50 | Some n \<Rightarrow> if 0 < n then if 500 < n then 500 else n else 50)"

definition search_events :: "string \<Rightarrow> string \<Rightarrow> string \<Rightarrow> int option \<Rightarrow> ring \<Rightarrow> event list option" where
  "search_events tenant stream q limit_arg r =
     (if tenant = [] then None
      else Some (let evs = list_events tenant stream (search_limit limit_arg) r in
        if q \<noteq> [] then filter_by_query evs q else evs))"

lemma contains_from_iff: "contains_from nl hl \<longleftrightarrow> sublist nl hl"
proof (induction hl rule: contains_from.induct)
  case (1 nl hl)
  have pre: "take (length nl) hl = nl \<longleftrightarrow> prefix nl hl" if "length nl \<le> length hl"
    by (metis append_eq_conv_conj prefixE prefixI append_take_drop_id)
  show ?case
  proof (cases "length hl < length nl")
    case True
    then show ?thesis by (subst contains_from.simps) (auto dest: sublist_length_le)
  next
    case False
    then show ?thesis
      using 1 pre by (subst contains_from.simps) (auto simp: sublist_Cons_right split: list.splits)
  qed
qed

subsection \<open>The ring is a bounded log\<close>

definition fits_capacity :: "ring \<Rightarrow> event list \<Rightarrow> bool" where
  "fits_capacity r evs \<longleftrightarrow> int (length evs) \<le> max 0 (ring_capacity r)"

definition ring_ok :: "ring \<Rightarrow> bool" where
  "ring_ok r \<longleftrightarrow> fits_capacity r (ring_events r)"

lemma longest_suffix_length:
  "longest_suffix (\<lambda>xs. length xs \<le> n) xs = drop (length xs - n) xs"
  by (induction xs) (auto simp: Suc_diff_le)

lemma fits_capacity_eq: "fits_capacity r = (\<lambda>evs. length evs \<le> nat (ring_capacity r))"
  by (auto simp: fits_capacity_def fun_eq_iff)

lemma append_event_contents:
  "ring_ok r \<Longrightarrow> ring_events (append_event ev r) = longest_suffix (fits_capacity r) (ring_events r @ [ev])"
  unfolding fits_capacity_eq longest_suffix_length ring_ok_def
  by (cases "0 < ring_capacity r") (auto simp: append_event_def Let_def)

lemma append_event_simps [simp]:
  "ring_capacity (append_event ev r) = ring_capacity r"
  "ring_subs (append_event ev r) = map (\<lambda>(k, s). (k, deliver ev s)) (ring_subs r)"
  by (simp_all add: append_event_def Let_def)

interpretation er: bounded_log ring_ok append_event ring_events fits_capacity
proof
  show "ring_ok (append_event x s)" if "ring_ok s" for x s
  proof -
    have "fits_capacity s []" by (simp add: fits_capacity_def)
    then show ?thesis
      using append_event_contents [OF that, of x] longest_suffix_fits [of "fits_capacity s"]
      by (simp add: ring_ok_def fits_capacity_def)
  qed
qed (auto simp: append_event_contents fits_capacity_def fun_eq_iff)

subsection \<open>Listing\<close>

lemma list_loop_eq:
  "i \<le> length evs \<Longrightarrow> length out \<le> limit \<Longrightarrow>
   list_loop tenant stream limit evs i out =
     take limit (out @ filter (event_matches tenant stream) (rev (take i evs)))"
proof (induction i arbitrary: out)
  case (Suc i)
  have t: "take (Suc i) evs = take i evs @ [evs ! i]" using Suc.prems(1) by (simp add: take_Suc_conv_app_nth)
  show ?case
  proof (cases "length out < limit")
    case True
    then show ?thesis using Suc by (auto simp: t Let_def event_matches_def take_Cons')
  next
    case False
    then show ?thesis using Suc.prems by simp
  qed
qed simp

subsection \<open>Fan-out\<close>

definition sends :: "string \<Rightarrow> string \<Rightarrow> event list \<Rightarrow> event list" where
  "sends tenant stream evs = filter (event_matches tenant stream) evs"

lemma deliver_all:
  "length (sub_buffer s) \<le> sub_capacity s \<Longrightarrow>
   sub_buffer (fold deliver evs s) =
     sub_buffer s @ take (sub_capacity s - length (sub_buffer s)) (sends (sub_tenant s) (sub_stream s) evs)"
proof (induction evs arbitrary: s)
  case (Cons ev evs)
  have "sub_capacity (deliver ev s) = sub_capacity s" "sub_tenant (deliver ev s) = sub_tenant s"
    "sub_stream (deliver ev s) = sub_stream s"
    by (simp_all add: deliver_def)
  moreover have "length (sub_buffer (deliver ev s)) \<le> sub_capacity s" using Cons.prems by (simp add: deliver_def)
  ultimately show ?case
    using Cons.IH [of "deliver ev s"] Cons.prems
    by (auto simp: deliver_def sends_def event_matches_def take_Cons split: nat.splits)
      (metis Suc_diff_Suc diff_Suc_Suc nat.inject)+
qed (simp add: sends_def)

lemma fold_append_subs:
  "map_of (ring_subs (fold append_event evs r)) sid = map_option (fold deliver evs) (map_of (ring_subs r) sid)"
proof (induction evs arbitrary: r)
  case (Cons ev evs)
  have "map_of (map (\<lambda>(k, s). (k, deliver ev s)) m) sid = map_option (deliver ev) (map_of m sid)" for m
    by (induction m) auto
  then show ?case using Cons.IH [of "append_event ev r"] by (simp add: option.map_comp comp_def)
qed (simp add: option.map_ident id_def)

inductive ring_reachable :: "ring \<Rightarrow> bool" where
  init: "ring_reachable (new_ring cap)"
| append: "ring_reachable r \<Longrightarrow> ring_reachable (append_event ev r)"
| subscribe: "ring_reachable r \<Longrightarrow> ring_reachable (snd (subscribe tenant stream cap r))"
| cancel: "ring_reachable r \<Longrightarrow> ring_reachable (cancel sid r)"
| receive: "ring_reachable r \<Longrightarrow> ring_reachable (ring_receive sid r)"

text \<open>Identifiers are fresh, buffers never overflow, and no buffer holds an event of another tenant.\<close>

definition sub_ok :: "subscription \<Rightarrow> bool" where
  "sub_ok s \<longleftrightarrow> length (sub_buffer s) \<le> sub_capacity s \<and> 0 < sub_capacity s \<and>
     (\<forall>ev \<in> set (sub_buffer s). event_matches (sub_tenant s) (sub_stream s) ev)"

definition ring_inv :: "ring \<Rightarrow> bool" where
  "ring_inv r \<longleftrightarrow> ring_ok r \<and> distinct (map fst (ring_subs r)) \<and>
     (\<forall>(k, s) \<in> set (ring_subs r). k < next_sub r \<and> sub_ok s \<and> \<not> sub_closed s)"

lemma sub_ok_deliver: "sub_ok s \<Longrightarrow> sub_ok (deliver ev s)"
  by (auto simp: sub_ok_def deliver_def event_matches_def)

lemma sub_ok_receive: "sub_ok s \<Longrightarrow> sub_ok (snd (receive s)) \<and> sub_closed (snd (receive s)) = sub_closed s"
  by (auto simp: sub_ok_def receive_def split: list.splits)

lemma map_entry_subs:
  "(\<forall>(k, s) \<in> set m. P k s) \<Longrightarrow> (\<And>k s. P k s \<Longrightarrow> P k (f s)) \<Longrightarrow>
   (\<forall>(k, s) \<in> set (AList.map_entry sid f m). P k s) \<and> map fst (AList.map_entry sid f m) = map fst m"
  by (induction m) auto

lemma set_delete_mem: "e \<in> set (AList.delete k m) \<Longrightarrow> e \<in> set m"
  by (induction m) (auto split: if_splits)

lemma ring_reachable_inv: "ring_reachable r \<Longrightarrow> ring_inv r"
proof (induction rule: ring_reachable.induct)
  case (append r ev)
  then show ?case
    using er.inv_append [of r ev] sub_ok_deliver
    by (auto simp: ring_inv_def comp_def case_prod_beta deliver_def) (auto simp: append_event_def Let_def)
next
  case (subscribe r tenant stream cap)
  then show ?case
    by (auto simp: ring_inv_def subscribe_def Let_def ring_ok_def fits_capacity_def sub_ok_def
        set_update_distinct distinct_update)
next
  case (cancel r sid)
  then show ?case
    by (auto simp: ring_inv_def cancel_def ring_ok_def fits_capacity_def distinct_delete
        dest: set_delete_mem split: option.splits)
next
  case (receive r sid)
  let ?P = "\<lambda>k s. k < next_sub r \<and> sub_ok s \<and> \<not> sub_closed s"
  have "\<forall>(k, s) \<in> set (ring_subs r). ?P k s" using receive.IH by (auto simp: ring_inv_def)
  from map_entry_subs [OF this, of "snd \<circ> receive" sid] sub_ok_receive receive.IH
  show ?case by (auto simp: ring_inv_def ring_receive_def ring_ok_def fits_capacity_def)
qed (simp add: new_ring_def ring_inv_def ring_ok_def fits_capacity_def)

subsection \<open>Properties\<close>

text \<open>
  Listing the ring gives the newest events first: of everything appended, the last
  \<open>capacity\<close> events are retained (none for a capacity of zero or less), and a list call returns the
  newest of those that match its tenant and stream, at most \<open>limit\<close> of them (100 by default).
\<close>

theorem ring_lists_newest:
  assumes "ring_reachable r" "evs \<noteq> []"
  shows "let all = ring_events r @ evs; kept = drop (length all - nat (ring_capacity r)) all in
    list_events tenant stream limit (fold append_event evs r) =
      take (nat (if limit \<le> 0 then 100 else limit)) (filter (event_matches tenant stream) (rev kept))"
proof -
  have "ring_ok r" using ring_reachable_inv [OF assms(1)] by (simp add: ring_inv_def)
  from er.append_all [OF this assms(2)]
  have "ring_events (fold append_event evs r) =
      drop (length (ring_events r @ evs) - nat (ring_capacity r)) (ring_events r @ evs)"
    by (simp only: fits_capacity_eq longest_suffix_length)
  moreover have "list_loop tenant stream n l (length l) [] = take n (filter (event_matches tenant stream) (rev l))"
    for n l using list_loop_eq [of "length l" l "[]" n] by simp
  ultimately show ?thesis by (simp only: list_events_def Let_def)
qed

text \<open>
  A live subscriber gets exactly the matching events that are appended after it subscribed, in
  order and each once, until its buffer is full; what does not fit is dropped. It never gets an event
  of another tenant or stream than it asked for.
\<close>

theorem subscriber_gets_matching:
  assumes "ring_reachable r" "map_of (ring_subs r) sid = Some s"
  shows "\<exists>s'. map_of (ring_subs (fold append_event evs r)) sid = Some s' \<and>
    sub_buffer s' = sub_buffer s @
      take (sub_capacity s - length (sub_buffer s)) (filter (event_matches (sub_tenant s) (sub_stream s)) evs) \<and>
    (\<forall>ev \<in> set (sub_buffer s'). event_matches (sub_tenant s) (sub_stream s) ev)"
proof -
  have "sub_ok s"
    using ring_reachable_inv [OF assms(1)] assms(2) by (auto simp: ring_inv_def dest!: map_of_SomeD)
  then have "sub_buffer (fold deliver evs s) = sub_buffer s @
      take (sub_capacity s - length (sub_buffer s)) (filter (event_matches (sub_tenant s) (sub_stream s)) evs)"
    "\<forall>ev \<in> set (sub_buffer s). event_matches (sub_tenant s) (sub_stream s) ev"
    using deliver_all [of s evs] by (simp_all add: sub_ok_def sends_def)
  then show ?thesis using fold_append_subs [of evs r sid] assms(2) by (auto dest!: in_set_takeD)
qed

subsection \<open>A concrete ring\<close>

definition demo_event :: "string \<Rightarrow> string \<Rightarrow> string \<Rightarrow> event" where
  "demo_event i t c = \<lparr>event_id = i, event_tenant = t, event_stream = ''s'', event_summary = [],
     event_class = c, event_rule = []\<rparr>"

definition demo_ring :: ring where
  "demo_ring = snd (subscribe ''t'' [] 1 (new_ring 2))"

lemma demo_ring_reachable: "ring_reachable demo_ring"
  unfolding demo_ring_def by (intro ring_reachable.intros)

lemma demo_ring_eq:
  "demo_ring = \<lparr>ring_events = [], ring_capacity = 2, ring_subs = [(0, \<lparr>sub_tenant = ''t'', sub_stream = [],
     sub_capacity = 1, sub_buffer = [], sub_closed = False\<rparr>)], next_sub = 1, ring_detached = []\<rparr>"
  by (simp add: demo_ring_def subscribe_def new_ring_def)

theorem ring_lists_newest_witness:
  "list_events ''t'' [] 0 (fold append_event
     [demo_event ''1'' ''t'' ''car'', demo_event ''2'' ''t'' ''car'', demo_event ''3'' ''u'' ''car''] demo_ring) =
   [demo_event ''2'' ''t'' ''car'']"
  by (subst ring_lists_newest [OF demo_ring_reachable, unfolded Let_def])
    (simp_all add: demo_ring_eq demo_event_def event_matches_def)

theorem subscriber_gets_matching_witness:
  "\<exists>s. map_of (ring_subs (fold append_event
     [demo_event ''1'' ''u'' ''car'', demo_event ''2'' ''t'' ''car'', demo_event ''3'' ''t'' ''car''] demo_ring)) 0 = Some s \<and>
     sub_buffer s = [demo_event ''2'' ''t'' ''car'']"
  using subscriber_gets_matching [OF demo_ring_reachable, of 0 _
      "[demo_event ''1'' ''u'' ''car'', demo_event ''2'' ''t'' ''car'', demo_event ''3'' ''t'' ''car'']"]
  by (simp add: demo_ring_eq demo_event_def event_matches_def)

text \<open>
  The text query is applied after the limit: a search can come back empty although a retained event
  of the tenant matches it.
\<close>

lemma search_limits_before_filtering:
  "let r = fold append_event [demo_event ''1'' ''t'' ''Truck'', demo_event ''2'' ''t'' ''car''] demo_ring
   in search_events ''t'' [] ''truck'' (Some 1) r = Some [] \<and>
      search_events ''t'' [] ''truck'' (Some 2) r = Some [demo_event ''1'' ''t'' ''Truck'']"
  by code_simp

end
