(* ===== verification/GoUtf8.thy ===== *)
theory GoUtf8
  imports Prelude
begin

section \<open>Go strings as UTF-8\<close>

text \<open>
  A Go string is its bytes; converting it to \<open>[]rune\<close> decodes UTF-8, where a byte that starts no
  valid encoding counts as one rune, the replacement character U+FFFD. The functions follow
  \<open>unicode/utf8\<close>. \<open>truncate_runes\<close> is \<open>Truncate\<close> of \<open>pkg/llm/safety.go\<close>.
\<close>

abbreviation (input) replacement :: nat where "replacement \<equiv> 65533"

definition cont :: "nat \<Rightarrow> nat \<Rightarrow> string \<Rightarrow> nat \<Rightarrow> bool" where
  "cont lo hi s i \<longleftrightarrow> i < length s \<and> lo \<le> of_char (s ! i) \<and> of_char (s ! i) \<le> hi"

text \<open>The first rune of a nonempty string and the number of bytes it takes.\<close>

definition decode_rune :: "string \<Rightarrow> nat \<times> nat" where
  "decode_rune s =
     (let b = (\<lambda>i. of_char (s ! i) :: nat); n = b 0 in
      if n < 128 then (n, 1)
      else if n < 194 \<or> 244 < n then (replacement, 1)
      else if n < 224 then
        (if cont 128 191 s 1 then ((n - 192) * 64 + (b 1 - 128), 2) else (replacement, 1))
      else if n < 240 then
        (if cont (if n = 224 then 160 else 128) (if n = 237 then 159 else 191) s 1 \<and> cont 128 191 s 2
         then ((n - 224) * 4096 + (b 1 - 128) * 64 + (b 2 - 128), 3) else (replacement, 1))
      else
        (if cont (if n = 240 then 144 else 128) (if n = 244 then 143 else 191) s 1 \<and>
            cont 128 191 s 2 \<and> cont 128 191 s 3
         then ((n - 240) * 262144 + (b 1 - 128) * 4096 + (b 2 - 128) * 64 + (b 3 - 128), 4)
         else (replacement, 1)))"

lemma decode_rune_size: "0 < snd (decode_rune s)"
  by (simp add: decode_rune_def Let_def)

function runes :: "string \<Rightarrow> nat list" where
  "runes s = (if s = [] then [] else case decode_rune s of (r, n) \<Rightarrow> r # runes (drop n s))"
  by pat_completeness auto
termination
proof (relation "measure length", simp, goal_cases)
  case (1 s r n)
  then have "0 < n" using decode_rune_size [of s] by (metis snd_conv)
  then show ?case using 1(1) by simp
qed

declare runes.simps [simp del]

definition encode_rune :: "nat \<Rightarrow> string" where
  "encode_rune r =
     (let r = (if 55296 \<le> r \<and> r \<le> 57343 \<or> 1114111 < r then replacement else r) in
      if r < 128 then [char_of r]
      else if r < 2048 then [char_of (192 + r div 64), char_of (128 + r mod 64)]
      else if r < 65536
      then [char_of (224 + r div 4096), char_of (128 + r div 64 mod 64), char_of (128 + r mod 64)]
      else [char_of (240 + r div 262144), char_of (128 + r div 4096 mod 64),
            char_of (128 + r div 64 mod 64), char_of (128 + r mod 64)])"

definition of_runes :: "nat list \<Rightarrow> string" where
  "of_runes rs = concat (map encode_rune rs)"

definition truncate_runes :: "string \<Rightarrow> int \<Rightarrow> string" where
  "truncate_runes s max_runes =
     (if max_runes \<le> 0 then []
      else let r = runes s in
        if int (length r) \<le> max_runes then s
        else of_runes (take (nat max_runes) r) @ encode_rune 8230)"

lemma runes_Nil [simp]: "runes [] = []"
  by (simp add: runes.simps)

text \<open>ASCII text is its own list of runes.\<close>

lemma runes_ascii: "\<forall>c \<in> set s. of_char c < (128 :: nat) \<Longrightarrow> runes s = map of_char s"
proof (induction s)
  case (Cons c s)
  then have "decode_rune (c # s) = (of_char c, 1)" by (simp add: decode_rune_def)
  then show ?case using Cons by (subst runes.simps) simp
qed simp

text \<open>Decoding what was encoded: a list of valid runes survives the round trip.\<close>

definition valid_rune :: "nat \<Rightarrow> bool" where
  "valid_rune r \<longleftrightarrow> r \<le> 1114111 \<and> \<not> (55296 \<le> r \<and> r \<le> 57343)"

lemma of_char_small [simp]: "n < 256 \<Longrightarrow> of_char (char_of n) = (n :: nat)"
  by simp

lemma decode_3:
  assumes "a < 16" "b < 64" "c < 64" "a = 0 \<longrightarrow> 32 \<le> b" "a = 13 \<longrightarrow> b \<le> 31"
  shows "decode_rune (char_of (224 + a) # char_of (128 + b) # char_of (128 + c) # s) =
    (a * 4096 + b * 64 + c, 3)"
proof -
  have "of_char (char_of (224 + a)) = 224 + a" "of_char (char_of (128 + b)) = 128 + b"
    "of_char (char_of (128 + c)) = 128 + c"
    using assms by simp_all
  then show ?thesis using assms unfolding decode_rune_def cont_def Let_def by simp
qed

lemma decode_4:
  assumes "a < 5" "b < 64" "c < 64" "d < 64" "a = 0 \<longrightarrow> 16 \<le> b" "a = 4 \<longrightarrow> b \<le> 15"
  shows "decode_rune (char_of (240 + a) # char_of (128 + b) # char_of (128 + c) # char_of (128 + d) # s) =
    (a * 262144 + b * 4096 + c * 64 + d, 4)"
proof -
  have "of_char (char_of (240 + a)) = 240 + a" "of_char (char_of (128 + b)) = 128 + b"
    "of_char (char_of (128 + c)) = 128 + c" "of_char (char_of (128 + d)) = 128 + d"
    using assms by simp_all
  then show ?thesis using assms unfolding decode_rune_def cont_def Let_def by simp
qed

lemma decode_encode:
  assumes "valid_rune r"
  shows "decode_rune (encode_rune r @ s) = (r, length (encode_rune r))"
proof -
  consider "r < 128" | "128 \<le> r" "r < 2048" | "2048 \<le> r" "r < 65536" | "65536 \<le> r" "r \<le> 1114111"
    using assms unfolding valid_rune_def by linarith
  then show ?thesis
  proof cases
    case 1
    then show ?thesis by (simp add: encode_rune_def decode_rune_def)
  next
    case 2
    then have "r div 64 < 32" "2 \<le> r div 64" by auto
    moreover have "r div 64 * 64 + r mod 64 = r" by simp
    ultimately show ?thesis using 2 by (auto simp: encode_rune_def decode_rune_def cont_def Let_def)
  next
    case 3
    have d: "r div 4096 < 16" "r div 64 mod 64 < 64" "r mod 64 < 64" using 3 by auto
    have e: "r div 4096 * 4096 + r div 64 mod 64 * 64 + r mod 64 = r"
    proof -
      have "r div 64 div 64 * 64 + r div 64 mod 64 = r div 64" "r div 64 * 64 + r mod 64 = r"
        by (rule div_mult_mod_eq)+
      moreover have "r div 64 div 64 = r div 4096" by (simp add: div_mult2_eq [symmetric])
      ultimately show ?thesis by linarith
    qed
    have lo: "32 \<le> r div 64 mod 64" if "r div 4096 = 0"
      using that 3(1) e d by linarith
    have hi: "r div 64 mod 64 \<le> 31" if "r div 4096 = 13"
    proof -
      have "r < 55296" using assms that 3 e d by (auto simp: valid_rune_def) 
      then show ?thesis using that e d by linarith
    qed
    have "encode_rune r = [char_of (224 + r div 4096), char_of (128 + r div 64 mod 64), char_of (128 + r mod 64)]"
      using 3 assms by (auto simp: encode_rune_def valid_rune_def Let_def)
    then show ?thesis using decode_3 [OF d, of s] lo hi e by simp
  next
    case 4
    have d: "r div 262144 < 5" "r div 4096 mod 64 < 64" "r div 64 mod 64 < 64" "r mod 64 < 64" using 4 by auto
    have e: "r div 262144 * 262144 + r div 4096 mod 64 * 4096 + r div 64 mod 64 * 64 + r mod 64 = r"
    proof -
      have "r div 4096 div 64 * 64 + r div 4096 mod 64 = r div 4096"
        "r div 64 div 64 * 64 + r div 64 mod 64 = r div 64" "r div 64 * 64 + r mod 64 = r"
        by (rule div_mult_mod_eq)+
      moreover have "r div 64 div 64 = r div 4096" "r div 4096 div 64 = r div 262144"
        by (simp_all add: div_mult2_eq [symmetric])
      ultimately show ?thesis by linarith
    qed
    have lo: "16 \<le> r div 4096 mod 64" if "r div 262144 = 0" using that 4(1) e d by linarith
    have hi: "r div 4096 mod 64 \<le> 15" if "r div 262144 = 4" using that 4(2) e d by linarith
    have "encode_rune r = [char_of (240 + r div 262144), char_of (128 + r div 4096 mod 64),
        char_of (128 + r div 64 mod 64), char_of (128 + r mod 64)]"
      using 4 assms by (auto simp: encode_rune_def valid_rune_def Let_def)
    then show ?thesis using decode_4 [OF d, of s] lo hi e by simp
  qed
qed

lemma runes_of_runes: "\<forall>r \<in> set rs. valid_rune r \<Longrightarrow> runes (of_runes rs) = rs"
proof (induction rs)
  case (Cons r rs)
  have "encode_rune r @ of_runes rs \<noteq> []" by (simp add: encode_rune_def Let_def)
  then show ?case
    using Cons decode_encode [of r "of_runes rs"]
    by (subst runes.simps) (simp add: of_runes_def)
qed (simp add: of_runes_def)

end
