(* ===== verification/Agent.thy ===== *)
theory Agent
  imports GoUtf8 GoFloat
begin

section \<open>The bounded-autonomy agent loop\<close>

text \<open>
  Model of \<open>pkg/agent/agent.go\<close>. The agent's state is \<open>agent\<close>: registry, configuration, step
  counter, history, and the states of the two interfaces it talks to, the gateway and the session
  sink. What is outside, the language model, the tools, the context, the gateway and the sink, is the
  environment \<open>agent_env\<close>: functions that may answer differently in every state, since they see the
  whole history, which grows with every call. JSON values are the texts \<open>json.Marshal\<close> gives. The
  \<open>CreatedAt\<close> stamps of the steps, which nothing reads, are left out.

  Two fields only observe the run: \<open>executed\<close> lists the tools run so far with their arguments and
  \<open>chats\<close> counts the calls of the language model.
\<close>

type_synonym json = string

subsection \<open>Data\<close>

record tool_call =
  tc_id :: string
  tc_name :: string
  tc_args :: json

record message =
  msg_role :: string
  msg_content :: string
  msg_images :: "(string \<times> string) list"
  msg_tool_calls :: "tool_call list"
  msg_tool_call_id :: string
  msg_name :: string

record tool_schema =
  schema_name :: string
  schema_description :: string
  schema_params :: json
  risk_tier :: int

record tool =
  tool_schema_of :: tool_schema
  tool_run :: "message list \<Rightarrow> json \<Rightarrow> string + json"

record chat_request =
  cr_tenant :: string
  cr_model :: string
  cr_messages :: "message list"
  cr_tools :: "tool_schema list"
  cr_tool_choice :: string
  cr_temperature :: fl

record gate_request =
  gr_session :: string
  gr_tenant :: string
  gr_tool :: string
  gr_summary :: string
  gr_args :: json
  gr_blast :: string

datatype payload = NoPayload | CallPayload string json | ResultPayload json

record agent_step =
  st_index :: int
  st_kind :: string
  st_summary :: string
  st_payload :: payload
  st_gate :: string

record agent_config =
  max_steps :: int
  max_autonomy_tier :: int
  step_timeout :: duration
  temperature :: fl
  cfg_model :: string
  system_prompt :: string

record agent_outcome =
  final :: string
  oc_gate :: string
  oc_steps :: "agent_step list"
  oc_status :: string
  oc_error :: string

record ('g, 's) agent_env =
  chat :: "chat_request \<Rightarrow> string + message"
  ctx_err :: "message list \<Rightarrow> string option"
  open_gate :: "gate_request \<Rightarrow> 'g \<Rightarrow> (string + string) \<times> 'g"
  append_step :: "string \<Rightarrow> agent_step \<Rightarrow> 's \<Rightarrow> 's"
  set_status :: "string \<Rightarrow> string \<Rightarrow> 's \<Rightarrow> 's"
  error_json :: "string \<Rightarrow> json"

record ('g, 's) agent =
  ag_registry :: "(string \<times> tool) list"
  ag_config :: agent_config
  ag_tenant :: string
  ag_session :: string
  ag_step :: int
  ag_history :: "message list"
  ag_gate :: string
  ag_gateway :: 'g
  ag_sink :: "'s option"
  executed :: "(string \<times> json) list"
  chats :: nat

subsection \<open>Registry and configuration\<close>

definition register_tool :: "tool \<Rightarrow> (string \<times> tool) list \<Rightarrow> (string \<times> tool) list" where
  "register_tool t reg = AList.update (schema_name (tool_schema_of t)) t reg"

definition get_tool :: "string \<Rightarrow> (string \<times> tool) list \<Rightarrow> tool option" where
  "get_tool name reg = map_of reg name"

definition schemas :: "(string \<times> tool) list \<Rightarrow> tool_schema list" where
  "schemas reg = map (tool_schema_of \<circ> snd) reg"

abbreviation (input) risk_tier_reversible :: int where "risk_tier_reversible \<equiv> 2"
abbreviation (input) risk_tier_consequential :: int where "risk_tier_consequential \<equiv> 3"

definition config_defaults :: "agent_config \<Rightarrow> agent_config" where
  "config_defaults c =
     c\<lparr>max_steps := (if max_steps c = 0 then 12 else max_steps c),
       max_autonomy_tier := (if max_autonomy_tier c = 0 then risk_tier_reversible else max_autonomy_tier c),
       step_timeout := (if step_timeout c = 0 then 60 * second else step_timeout c),
       temperature := (if fl_eq (temperature c) (Fin 0) then fl_round f64 (2 / 10) else temperature c)\<rparr>"

definition new_agent :: "(string \<times> tool) list \<Rightarrow> 'g \<Rightarrow> 's option \<Rightarrow> agent_config \<Rightarrow> string \<Rightarrow> string
    \<Rightarrow> ('g, 's) agent" where
  "new_agent reg g s c tenant session =
     \<lparr>ag_registry = reg, ag_config = config_defaults c, ag_tenant = tenant, ag_session = session,
      ag_step = 0, ag_history = [], ag_gate = [], ag_gateway = g, ag_sink = s, executed = [], chats = 0\<rparr>"

subsection \<open>The loop\<close>

definition text_message :: "string \<Rightarrow> string \<Rightarrow> message" where
  "text_message role content = \<lparr>msg_role = role, msg_content = content, msg_images = [],
     msg_tool_calls = [], msg_tool_call_id = [], msg_name = []\<rparr>"

definition blast_radius_for :: "int \<Rightarrow> string" where
  "blast_radius_for tier = (if tier = risk_tier_consequential then ''high'' else ''low'')"

definition empty_outcome :: agent_outcome where
  "empty_outcome = \<lparr>final = [], oc_gate = [], oc_steps = [], oc_status = [], oc_error = []\<rparr>"

definition record_step :: "('g, 's) agent_env \<Rightarrow> agent_step \<Rightarrow> ('g, 's) agent \<times> agent_outcome
    \<Rightarrow> ('g, 's) agent \<times> agent_outcome" where
  "record_step env st ao = (case ao of (a, out) \<Rightarrow>
     (a\<lparr>ag_sink := map_option (append_step env (ag_session a) st) (ag_sink a)\<rparr>,
      out\<lparr>oc_steps := oc_steps out @ [st]\<rparr>))"

definition sink_status :: "('g, 's) agent_env \<Rightarrow> string \<Rightarrow> ('g, 's) agent \<Rightarrow> ('g, 's) agent" where
  "sink_status env status a = a\<lparr>ag_sink := map_option (set_status env (ag_session a) status) (ag_sink a)\<rparr>"

definition plain_step :: "int \<Rightarrow> string \<Rightarrow> string \<Rightarrow> string \<Rightarrow> agent_step" where
  "plain_step i kind summary gate =
     \<lparr>st_index = i, st_kind = kind, st_summary = summary, st_payload = NoPayload, st_gate = gate\<rparr>"

type_synonym ('g, 's) run_result = "('g, 's) agent \<times> agent_outcome \<times> string option"

definition fail :: "('g, 's) agent_env \<Rightarrow> string \<Rightarrow> ('g, 's) agent \<Rightarrow> agent_outcome \<Rightarrow> ('g, 's) run_result" where
  "fail env why a out =
     (case record_step env (plain_step (ag_step a) ''final'' (''failed: '' @ why) [])
             (a, out\<lparr>oc_status := ''failed'', oc_error := why\<rparr>) of
        (a', out') \<Rightarrow> (sink_status env ''failed'' a', out', Some why))"

text \<open>The tool calls of one answer: a finished run is \<open>Inl\<close>, otherwise the loop goes on.\<close>

fun dispatch :: "('g, 's) agent_env \<Rightarrow> tool_call list \<Rightarrow> ('g, 's) agent \<Rightarrow> agent_outcome
    \<Rightarrow> ('g, 's) run_result + ('g, 's) agent \<times> agent_outcome" where
  "dispatch env [] a out = Inr (a, out)"
| "dispatch env (tc # tcs) a out =
     (case get_tool (tc_name tc) (ag_registry a) of
        None \<Rightarrow> Inl (fail env (''unknown tool: '' @ tc_name tc) a out)
      | Some t \<Rightarrow>
          let tier = risk_tier (tool_schema_of t) in
          (case record_step env
                  \<lparr>st_index = ag_step a, st_kind = ''tool_call'',
                   st_summary = tc_name tc @ '' (risk='' @ print_int tier @ '')'',
                   st_payload = CallPayload (tc_name tc) (tc_args tc), st_gate = []\<rparr> (a, out) of
             (a1, out1) \<Rightarrow>
               let a2 = a1\<lparr>ag_step := ag_step a1 + 1\<rparr> in
               if max_autonomy_tier (ag_config a2) < tier then
                 (case open_gate env
                         \<lparr>gr_session = ag_session a2, gr_tenant = ag_tenant a2, gr_tool = tc_name tc,
                          gr_summary = schema_description (tool_schema_of t), gr_args = tc_args tc,
                          gr_blast = blast_radius_for tier\<rparr> (ag_gateway a2) of
                    (Inl e, g) \<Rightarrow> Inl (fail env (''open gate: '' @ e) (a2\<lparr>ag_gateway := g\<rparr>) out1)
                  | (Inr gid, g) \<Rightarrow>
                      (case record_step env
                              (plain_step (ag_step a2) ''gate_requested'' (''gate opened for '' @ tc_name tc) gid)
                              (a2\<lparr>ag_gateway := g, ag_gate := gid\<rparr>, out1) of
                         (a3, out3) \<Rightarrow>
                           Inl (sink_status env ''awaiting_gate'' (a3\<lparr>ag_step := ag_step a3 + 1\<rparr>),
                                out3\<lparr>oc_gate := gid, oc_status := ''awaiting_gate''\<rparr>, None)))
               else
                 let result = (case tool_run t (ag_history a2) (tc_args tc) of
                                 Inl e \<Rightarrow> error_json env e | Inr j \<Rightarrow> j) in
                 (case record_step env
                         \<lparr>st_index = ag_step a2, st_kind = ''tool_result'', st_summary = truncate_runes result 240,
                          st_payload = ResultPayload result, st_gate = []\<rparr>
                         (a2\<lparr>executed := executed a2 @ [(tc_name tc, tc_args tc)],
                             ag_history := ag_history a2 @
                               [(text_message ''tool'' result)\<lparr>msg_tool_call_id := tc_id tc\<rparr>]\<rparr>, out1) of
                    (a3, out3) \<Rightarrow> dispatch env tcs (a3\<lparr>ag_step := ag_step a3 + 1\<rparr>) out3)))"

declare dispatch.simps(2) [simp del]

lemma record_step_simps [simp]:
  "record_step env st (a, out) =
     (a\<lparr>ag_sink := map_option (append_step env (ag_session a) st) (ag_sink a)\<rparr>, out\<lparr>oc_steps := oc_steps out @ [st]\<rparr>)"
  by (simp add: record_step_def)

lemma dispatch_step:
  "dispatch env tcs a out = Inr (a', out') \<Longrightarrow>
     ag_step a' = ag_step a + 2 * int (length tcs) \<and> ag_config a' = ag_config a"
proof (induction tcs arbitrary: a out)
  case (Cons tc tcs)
  from Cons.prems show ?case
    unfolding dispatch.simps(2)
    by (auto simp: Let_def split: option.splits if_splits sum.splits prod.splits dest!: Cons.IH)
qed simp

function agent_loop :: "('g, 's) agent_env \<Rightarrow> ('g, 's) agent \<Rightarrow> agent_outcome \<Rightarrow> ('g, 's) run_result" where
  "agent_loop env a out =
     (if \<not> ag_step a < max_steps (ag_config a) then fail env ''max steps exceeded'' a out
      else case ctx_err env (ag_history a) of
        Some e \<Rightarrow> fail env e a out
      | None \<Rightarrow>
          (case chat env \<lparr>cr_tenant = ag_tenant a, cr_model = cfg_model (ag_config a),
                  cr_messages = ag_history a, cr_tools = schemas (ag_registry a),
                  cr_tool_choice = ''auto'', cr_temperature = temperature (ag_config a)\<rparr> of
             Inl e \<Rightarrow> fail env (''llm chat: '' @ e) (a\<lparr>chats := chats a + 1\<rparr>) out
           | Inr msg \<Rightarrow>
               let a1 = a\<lparr>chats := chats a + 1, ag_history := ag_history a @ [msg]\<rparr> in
               (case msg_tool_calls msg of
                  [] \<Rightarrow>
                    (case record_step env
                            (plain_step (ag_step a1) ''final'' (truncate_runes (msg_content msg) 240) []) (a1, out) of
                       (a2, out2) \<Rightarrow>
                         (sink_status env ''completed'' (a2\<lparr>ag_step := ag_step a2 + 1\<rparr>),
                          out2\<lparr>final := msg_content msg, oc_status := ''completed''\<rparr>, None))
                | tc # tcs \<Rightarrow>
                    (case dispatch env (tc # tcs) a1 out of
                       Inl res \<Rightarrow> res
                     | Inr (a2, out2) \<Rightarrow> agent_loop env a2 out2))))"
  by pat_completeness auto
termination
proof (relation "measure (\<lambda>(env, a, out). nat (max_steps (ag_config a) - ag_step a))", simp, goal_cases)
  case (1 env a out msg a1 tc tcs x a2 out2)
  then show ?case using dispatch_step [of env "tc # tcs" a1 out a2 out2] by auto
qed

declare agent_loop.simps [simp del]

definition with_goal :: "string \<Rightarrow> ('g, 's) agent \<Rightarrow> ('g, 's) agent" where
  "with_goal goal a =
     (if ag_history a = [] then
        a\<lparr>ag_history :=
           (if system_prompt (ag_config a) \<noteq> []
            then [text_message ''system'' (system_prompt (ag_config a))] else []) @
           [text_message ''user'' goal]\<rparr>
      else a)"

definition run :: "('g, 's) agent_env \<Rightarrow> string \<Rightarrow> ('g, 's) agent \<Rightarrow> ('g, 's) run_result" where
  "run env goal a = agent_loop env (with_goal goal a) empty_outcome"

lemma with_goal_simps [simp]:
  "ag_registry (with_goal goal a) = ag_registry a" "ag_config (with_goal goal a) = ag_config a"
  "ag_session (with_goal goal a) = ag_session a" "ag_step (with_goal goal a) = ag_step a"
  "ag_gateway (with_goal goal a) = ag_gateway a" "ag_sink (with_goal goal a) = ag_sink a"
  "executed (with_goal goal a) = executed a" "chats (with_goal goal a) = chats a"
  by (simp_all add: with_goal_def)

definition resume_run :: "('g, 's) agent_env \<Rightarrow> string \<Rightarrow> json \<Rightarrow> ('g, 's) agent \<Rightarrow> ('g, 's) run_result" where
  "resume_run env gid tool_result a =
     (case record_step env (plain_step (ag_step a) ''gate_resolved'' (''gate '' @ gid @ '' resolved'') gid)
             (a\<lparr>ag_history := ag_history a @ [(text_message ''tool'' tool_result)\<lparr>msg_tool_call_id := gid\<rparr>]\<rparr>,
              empty_outcome) of
        (a1, out1) \<Rightarrow> agent_loop env (a1\<lparr>ag_step := ag_step a1 + 1\<rparr>) out1)"

subsection \<open>The in-memory sink and gateway\<close>

record memory_sink =
  ms_steps :: "(string \<times> agent_step list) list"
  ms_status :: "(string \<times> string) list"

definition new_memory_sink :: memory_sink where
  "new_memory_sink = \<lparr>ms_steps = [], ms_status = []\<rparr>"

definition memory_steps :: "memory_sink \<Rightarrow> string \<Rightarrow> agent_step list" where
  "memory_steps m sid = (case map_of (ms_steps m) sid of None \<Rightarrow> [] | Some sts \<Rightarrow> sts)"

definition memory_append_step :: "string \<Rightarrow> agent_step \<Rightarrow> memory_sink \<Rightarrow> memory_sink" where
  "memory_append_step sid st m = m\<lparr>ms_steps := AList.update sid (memory_steps m sid @ [st]) (ms_steps m)\<rparr>"

definition memory_set_status :: "string \<Rightarrow> string \<Rightarrow> memory_sink \<Rightarrow> memory_sink" where
  "memory_set_status sid status m = m\<lparr>ms_status := AList.update sid status (ms_status m)\<rparr>"

record memory_gate =
  mg_id :: string
  mg_decision :: string
  mg_decided_by :: string
  mg_reason :: string

record memory_gateway =
  mg_next :: nat
  mg_gates :: "(string \<times> memory_gate) list"

definition new_memory_gateway :: memory_gateway where
  "new_memory_gateway = \<lparr>mg_next = 0, mg_gates = []\<rparr>"

definition memory_open_gate :: "gate_request \<Rightarrow> memory_gateway \<Rightarrow> (string + string) \<times> memory_gateway" where
  "memory_open_gate req g =
     (let n = mg_next g + 1; gid = ''gate-'' @ digits 10 n in
      (Inr gid, g\<lparr>mg_next := n, mg_gates := AList.update gid
         \<lparr>mg_id = gid, mg_decision = ''pending'', mg_decided_by = [], mg_reason = []\<rparr> (mg_gates g)\<rparr>))"

definition memory_get_gate :: "string \<Rightarrow> memory_gateway \<Rightarrow> memory_gate option" where
  "memory_get_gate gid g = map_of (mg_gates g) gid"

definition memory_decide :: "string \<Rightarrow> string \<Rightarrow> string \<Rightarrow> string \<Rightarrow> memory_gateway \<Rightarrow> memory_gateway" where
  "memory_decide gid decision by reason g =
     (case map_of (mg_gates g) gid of
        None \<Rightarrow> g
      | Some gt \<Rightarrow> g\<lparr>mg_gates := AList.update gid
          (gt\<lparr>mg_decision := decision, mg_decided_by := by, mg_reason := reason\<rparr>) (mg_gates g)\<rparr>)"

subsection \<open>Facts about a run that need no law of the environment\<close>

text \<open>A relation between the agent before and after, kept by every action of a run.\<close>

definition allowed :: "('g, 's) agent \<Rightarrow> string \<times> json \<Rightarrow> bool" where
  "allowed a e \<longleftrightarrow> (\<exists>t. get_tool (fst e) (ag_registry a) = Some t \<and>
     risk_tier (tool_schema_of t) \<le> max_autonomy_tier (ag_config a))"

definition within_ceiling :: "('g, 's) agent \<Rightarrow> ('g, 's) agent \<Rightarrow> bool" where
  "within_ceiling a b \<longleftrightarrow> ag_registry b = ag_registry a \<and> ag_config b = ag_config a \<and>
     (\<exists>new. executed b = executed a @ new \<and> (\<forall>e \<in> set new. allowed a e))"

lemma within_ceiling_trans: "within_ceiling a b \<Longrightarrow> within_ceiling b c \<Longrightarrow> within_ceiling a c"
  by (fastforce simp: within_ceiling_def allowed_def)

lemma within_ceiling_same:
  "executed b = executed a \<Longrightarrow> ag_registry b = ag_registry a \<Longrightarrow> ag_config b = ag_config a \<Longrightarrow> within_ceiling a b"
  by (simp add: within_ceiling_def)

lemma fail_simps [simp]:
  "fail env why a out =
     (sink_status env ''failed'' (a\<lparr>ag_sink := map_option (append_step env (ag_session a)
        (plain_step (ag_step a) ''final'' (''failed: '' @ why) [])) (ag_sink a)\<rparr>),
      out\<lparr>oc_status := ''failed'', oc_error := why,
          oc_steps := oc_steps out @ [plain_step (ag_step a) ''final'' (''failed: '' @ why) []]\<rparr>, Some why)"
  by (simp add: fail_def)

text \<open>The states after each action of a dispatch, and the case rules every proof below uses.\<close>

definition call_step :: "tool_call \<Rightarrow> tool \<Rightarrow> ('g, 's) agent \<Rightarrow> agent_step" where
  "call_step tc t a = \<lparr>st_index = ag_step a, st_kind = ''tool_call'',
     st_summary = tc_name tc @ '' (risk='' @ print_int (risk_tier (tool_schema_of t)) @ '')'',
     st_payload = CallPayload (tc_name tc) (tc_args tc), st_gate = []\<rparr>"

definition logged :: "('g, 's) agent_env \<Rightarrow> agent_step \<Rightarrow> ('g, 's) agent \<Rightarrow> ('g, 's) agent" where
  "logged env st a = a\<lparr>ag_sink := map_option (append_step env (ag_session a) st) (ag_sink a), ag_step := ag_step a + 1\<rparr>"

definition add_step :: "agent_step \<Rightarrow> agent_outcome \<Rightarrow> agent_outcome" where
  "add_step st out = out\<lparr>oc_steps := oc_steps out @ [st]\<rparr>"

definition gate_request_of :: "tool_call \<Rightarrow> tool \<Rightarrow> ('g, 's) agent \<Rightarrow> gate_request" where
  "gate_request_of tc t a = \<lparr>gr_session = ag_session a, gr_tenant = ag_tenant a, gr_tool = tc_name tc,
     gr_summary = schema_description (tool_schema_of t), gr_args = tc_args tc,
     gr_blast = blast_radius_for (risk_tier (tool_schema_of t))\<rparr>"

definition call_result :: "('g, 's) agent_env \<Rightarrow> tool_call \<Rightarrow> tool \<Rightarrow> ('g, 's) agent \<Rightarrow> json" where
  "call_result env tc t a = (case tool_run t (ag_history a) (tc_args tc) of Inl e \<Rightarrow> error_json env e | Inr j \<Rightarrow> j)"

definition result_step :: "json \<Rightarrow> ('g, 's) agent \<Rightarrow> agent_step" where
  "result_step j a = \<lparr>st_index = ag_step a, st_kind = ''tool_result'', st_summary = truncate_runes j 240,
     st_payload = ResultPayload j, st_gate = []\<rparr>"

definition after_tool :: "tool_call \<Rightarrow> json \<Rightarrow> ('g, 's) agent \<Rightarrow> ('g, 's) agent" where
  "after_tool tc j a = a\<lparr>executed := executed a @ [(tc_name tc, tc_args tc)],
     ag_history := ag_history a @ [(text_message ''tool'' j)\<lparr>msg_tool_call_id := tc_id tc\<rparr>]\<rparr>"

definition gated_step :: "tool_call \<Rightarrow> string \<Rightarrow> ('g, 's) agent \<Rightarrow> agent_step" where
  "gated_step tc gid a = plain_step (ag_step a) ''gate_requested'' (''gate opened for '' @ tc_name tc) gid"

lemmas action_defs = call_step_def logged_def add_step_def gate_request_of_def call_result_def
  result_step_def after_tool_def gated_step_def plain_step_def

lemma dispatch_rule:
  assumes "\<And>a out. P a out (Inr (a, out))"
    "\<And>a out why. P a out (Inl (fail env why a out))"
    "\<And>a out tc t e g. get_tool (tc_name tc) (ag_registry a) = Some t \<Longrightarrow>
       open_gate env (gate_request_of tc t a) (ag_gateway a) = (Inl e, g) \<Longrightarrow>
       P a out (Inl (fail env (''open gate: '' @ e) ((logged env (call_step tc t a) a)\<lparr>ag_gateway := g\<rparr>)
         (add_step (call_step tc t a) out)))"
    "\<And>a out tc t gid g b. get_tool (tc_name tc) (ag_registry a) = Some t \<Longrightarrow>
       max_autonomy_tier (ag_config a) < risk_tier (tool_schema_of t) \<Longrightarrow>
       open_gate env (gate_request_of tc t a) (ag_gateway a) = (Inr gid, g) \<Longrightarrow>
       b = (logged env (call_step tc t a) a)\<lparr>ag_gateway := g, ag_gate := gid\<rparr> \<Longrightarrow>
       P a out (Inl (sink_status env ''awaiting_gate'' (logged env (gated_step tc gid b) b),
         (add_step (gated_step tc gid b) (add_step (call_step tc t a) out))
           \<lparr>oc_gate := gid, oc_status := ''awaiting_gate''\<rparr>, None))"
    "\<And>a out tc t b j r. get_tool (tc_name tc) (ag_registry a) = Some t \<Longrightarrow>
       risk_tier (tool_schema_of t) \<le> max_autonomy_tier (ag_config a) \<Longrightarrow>
       b = logged env (call_step tc t a) a \<Longrightarrow> j = call_result env tc t a \<Longrightarrow>
       P (logged env (result_step j b) (after_tool tc j b)) (add_step (result_step j b) (add_step (call_step tc t a) out)) r \<Longrightarrow>
       P a out r"
  shows "P a out (dispatch env tcs a out)"
proof (induction tcs arbitrary: a out)
  case Nil
  show ?case using assms(1) by simp
next
  case (Cons tc tcs)
  show ?case
  proof (cases "get_tool (tc_name tc) (ag_registry a)")
    case None
    then show ?thesis using assms(2) by (simp add: dispatch.simps(2) del: fail_simps)
  next
    case t: (Some t)
    define b where "b = logged env (call_step tc t a) a"
    show ?thesis
    proof (cases "max_autonomy_tier (ag_config a) < risk_tier (tool_schema_of t)")
      case True
      obtain r g where r: "open_gate env (gate_request_of tc t a) (ag_gateway a) = (r, g)" by fastforce
      show ?thesis
      proof (cases r)
        case (Inl e)
        then show ?thesis using assms(3) [OF t r [unfolded Inl], of out] t True r
          by (simp add: dispatch.simps(2) Let_def action_defs)
      next
        case (Inr gid)
        then show ?thesis using assms(4) [OF t True r [unfolded Inr] refl, of out] t True r
          by (simp add: dispatch.simps(2) Let_def action_defs)
      qed
    next
      case False
      let ?j = "call_result env tc t a"
      have "dispatch env (tc # tcs) a out = dispatch env tcs
          (logged env (result_step ?j b) (after_tool tc ?j b))
          (add_step (result_step ?j b) (add_step (call_step tc t a) out))"
        using t False by (simp add: dispatch.simps(2) Let_def action_defs b_def)
      then show ?thesis
        using assms(5) [OF t _ b_def refl Cons.IH, of out] False by simp
    qed
  qed
qed

definition request_of :: "('g, 's) agent \<Rightarrow> chat_request" where
  "request_of a = \<lparr>cr_tenant = ag_tenant a, cr_model = cfg_model (ag_config a), cr_messages = ag_history a,
     cr_tools = schemas (ag_registry a), cr_tool_choice = ''auto'', cr_temperature = temperature (ag_config a)\<rparr>"

definition answered :: "message \<Rightarrow> ('g, 's) agent \<Rightarrow> ('g, 's) agent" where
  "answered msg a = a\<lparr>chats := chats a + 1, ag_history := ag_history a @ [msg]\<rparr>"

definition final_step :: "message \<Rightarrow> ('g, 's) agent \<Rightarrow> agent_step" where
  "final_step msg a = plain_step (ag_step a) ''final'' (truncate_runes (msg_content msg) 240) []"

lemma loop_rule:
  assumes "\<And>a out why. P a out (fail env why a out)"
    "\<And>a out why. ag_step a < max_steps (ag_config a) \<Longrightarrow> P a out (fail env why (a\<lparr>chats := chats a + 1\<rparr>) out)"
    "\<And>a out msg. ag_step a < max_steps (ag_config a) \<Longrightarrow> msg_tool_calls msg = [] \<Longrightarrow>
       P a out (sink_status env ''completed'' (logged env (final_step msg a) (answered msg a)),
         (add_step (final_step msg a) out)\<lparr>final := msg_content msg, oc_status := ''completed''\<rparr>, None)"
    "\<And>a out msg res. ag_step a < max_steps (ag_config a) \<Longrightarrow> chat env (request_of a) = Inr msg \<Longrightarrow>
       msg_tool_calls msg \<noteq> [] \<Longrightarrow>
       dispatch env (msg_tool_calls msg) (answered msg a) out = Inl res \<Longrightarrow> P a out res"
    "\<And>a out msg a2 out2 r. ag_step a < max_steps (ag_config a) \<Longrightarrow> msg_tool_calls msg \<noteq> [] \<Longrightarrow>
       dispatch env (msg_tool_calls msg) (answered msg a) out = Inr (a2, out2) \<Longrightarrow> P a2 out2 r \<Longrightarrow> P a out r"
  shows "P a out (agent_loop env a out)"
  using assms
proof (induction env a out rule: agent_loop.induct)
  case (1 env a out)
  show ?case
  proof (cases "\<not> ag_step a < max_steps (ag_config a) \<or> ctx_err env (ag_history a) \<noteq> None")
    case True
    then show ?thesis using 1(2) by (subst agent_loop.simps) (auto simp del: fail_simps)
  next
    case run: False
    then have lt: "ag_step a < max_steps (ag_config a)" by simp
    show ?thesis
    proof (cases "chat env (request_of a)")
      case (Inl e)
      then have "agent_loop env a out = fail env (''llm chat: '' @ e) (a\<lparr>chats := chats a + 1\<rparr>) out"
        using run by (subst agent_loop.simps) (simp add: request_of_def del: fail_simps)
      then show ?thesis using 1(3) [OF lt] by simp
    next
      case (Inr msg)
      show ?thesis
      proof (cases "msg_tool_calls msg")
        case Nil
        have "agent_loop env a out = (sink_status env ''completed'' (logged env (final_step msg a) (answered msg a)),
            (add_step (final_step msg a) out)\<lparr>final := msg_content msg, oc_status := ''completed''\<rparr>, None)"
          using run Inr Nil
          by (subst agent_loop.simps) (simp add: request_of_def final_step_def answered_def action_defs)
        then show ?thesis using 1(4) [OF lt Nil, of out] by simp
      next
        case (Cons tc tcs)
        then have ne: "msg_tool_calls msg \<noteq> []" by simp
        show ?thesis
        proof (cases "dispatch env (msg_tool_calls msg) (answered msg a) out")
          case r: (Inl res)
          then have "agent_loop env a out = res"
            using run Inr Cons by (subst agent_loop.simps) (simp add: request_of_def answered_def)
          then show ?thesis using 1(5) [OF lt Inr ne r] by simp
        next
          case r: (Inr ao)
          obtain a2 out2 where ao: "ao = (a2, out2)" by (cases ao)
          have e: "agent_loop env a out = agent_loop env a2 out2"
            using run Inr Cons r ao by (subst agent_loop.simps) (simp add: request_of_def answered_def)
          have "P a2 out2 (agent_loop env a2 out2)"
            by (rule 1(1) [of msg "answered msg a" tc tcs ao a2 out2])
              (use run Inr Cons r ao 1(2-6) in \<open>simp_all add: request_of_def answered_def\<close>)
          then show ?thesis using 1(6) [OF lt ne r [unfolded ao]] e by simp
        qed
      qed
    qed
  qed
qed

fun agent_after :: "('g, 's) run_result + ('g, 's) agent \<times> agent_outcome \<Rightarrow> ('g, 's) agent" where
  "agent_after (Inl (a, out, e)) = a"
| "agent_after (Inr (a, out)) = a"

lemma dispatch_within:
  fixes a :: "('g, 's) agent"
  shows "within_ceiling a (agent_after (dispatch env tcs a out))"
proof (rule dispatch_rule [where P = "\<lambda>a out r. within_ceiling a (agent_after r)"])
  fix a b :: "('g, 's) agent" and tc t j r
  assume e: "get_tool (tc_name tc) (ag_registry a) = Some t"
    "risk_tier (tool_schema_of t) \<le> max_autonomy_tier (ag_config a)" "b = logged env (call_step tc t a) a"
    "within_ceiling (logged env (result_step j b) (after_tool tc j b)) (agent_after r)"
  have "within_ceiling a (logged env (result_step j b) (after_tool tc j b))"
    using e by (simp add: within_ceiling_def allowed_def action_defs)
  then show "within_ceiling a (agent_after r)" using within_ceiling_trans e(4) by blast
qed (auto simp: within_ceiling_same sink_status_def logged_def)

lemma loop_within:
  fixes a :: "('g, 's) agent"
  shows "within_ceiling a (fst (agent_loop env a out))"
proof (rule loop_rule [where P = "\<lambda>a out r. within_ceiling a (fst r)"])
  have d: "within_ceiling a (agent_after (dispatch env (msg_tool_calls msg) (answered msg a) out))"
    for a :: "('g, 's) agent" and msg out
    by (rule within_ceiling_trans [OF _ dispatch_within]) (simp add: within_ceiling_same answered_def)
  show "within_ceiling a (fst res)"
    if "dispatch env (msg_tool_calls msg) (answered msg a) out = Inl res" for a :: "('g, 's) agent" and msg out res
    using d [of a msg out] that by (cases res) simp
  show "within_ceiling a (fst r)"
    if "dispatch env (msg_tool_calls msg) (answered msg a) out = Inr (a2, out2)" "within_ceiling a2 (fst r)"
    for a a2 :: "('g, 's) agent" and msg out out2 r
    using d [of a msg out] that within_ceiling_trans by fastforce
qed (simp_all add: within_ceiling_same sink_status_def logged_def answered_def)

subsection \<open>Invariants of the sink and of the gateway\<close>

text \<open>
  A run changes the sink by the operations of its session only, and the gateway by opening gates. Only
  a resumed run has a step of the kind \<open>gate_resolved\<close>, its first.
\<close>

definition sink_kept :: "('s \<Rightarrow> bool) \<Rightarrow> ('g, 's) agent \<Rightarrow> ('g, 's) agent \<Rightarrow> bool" where
  "sink_kept I a b \<longleftrightarrow> ag_session b = ag_session a \<and> (ag_sink b = None \<longleftrightarrow> ag_sink a = None) \<and>
     (pred_option I (ag_sink a) \<longrightarrow> pred_option I (ag_sink b))"

lemma sink_kept_trans: "sink_kept I a b \<Longrightarrow> sink_kept I b c \<Longrightarrow> sink_kept I a c"
  by (simp add: sink_kept_def)

lemma sink_kept_same: "ag_session b = ag_session a \<Longrightarrow> ag_sink b = ag_sink a \<Longrightarrow> sink_kept I a b"
  by (simp add: sink_kept_def)

definition sink_ops_keep :: "('g, 's) agent_env \<Rightarrow> string \<Rightarrow> ('s \<Rightarrow> bool) \<Rightarrow> bool" where
  "sink_ops_keep env sid I \<longleftrightarrow>
     (\<forall>st s. st_kind st \<noteq> ''gate_resolved'' \<longrightarrow> I s \<longrightarrow> I (append_step env sid st s)) \<and> (\<forall>x s. I s \<longrightarrow> I (set_status env sid x s))"

lemma sink_ops_kept:
  fixes a :: "('g, 's) agent"
  assumes "sink_ops_keep env (ag_session a) I"
  shows "st_kind st \<noteq> ''gate_resolved'' \<Longrightarrow> sink_kept I a (logged env st a)" "sink_kept I a (sink_status env x a)"
    "sink_kept I a (fst (fail env why a out))"
  using assms by (simp_all add: plain_step_def sink_kept_def sink_ops_keep_def logged_def sink_status_def option.pred_map comp_def
      option.pred_mono_strong split: option.splits)

lemma dispatch_sink:
  fixes a :: "('g, 's) agent"
  shows "sink_ops_keep env (ag_session a) I \<longrightarrow> sink_kept I a (agent_after (dispatch env tcs a out))"
proof (rule dispatch_rule [where P = "\<lambda>a out r. sink_ops_keep env (ag_session a) I \<longrightarrow> sink_kept I a (agent_after r)"])
  show "sink_ops_keep env (ag_session a) I \<longrightarrow> sink_kept I a (agent_after (Inl (fail env why a out)))"
    for a :: "('g, 's) agent" and out why
    using sink_ops_kept(3) [of env a I why out] by (simp add: fail_def split: prod.splits)
next
  fix a :: "('g, 's) agent" and out tc t e g
  let ?b = "(logged env (call_step tc t a) a)\<lparr>ag_gateway := g\<rparr>"
  show "sink_ops_keep env (ag_session a) I \<longrightarrow> sink_kept I a (agent_after
      (Inl (fail env (''open gate: '' @ e) ?b (add_step (call_step tc t a) out))))"
  proof
    assume k: "sink_ops_keep env (ag_session a) I"
    have "sink_kept I a ?b" using sink_ops_kept(1) [OF k, of "call_step tc t a"] by (simp add: sink_kept_def call_step_def)
    moreover have "sink_kept I ?b (fst (fail env (''open gate: '' @ e) ?b (add_step (call_step tc t a) out)))"
      by (rule sink_ops_kept(3)) (simp add: k logged_def)
    ultimately show "sink_kept I a (agent_after (Inl (fail env (''open gate: '' @ e) ?b (add_step (call_step tc t a) out))))"
      using sink_kept_trans by (auto simp: fail_def simp del: fail_simps split: prod.splits)
  qed
next
  fix a b :: "('g, 's) agent" and out out' tc t gid g
  assume b: "b = (logged env (call_step tc t a) a)\<lparr>ag_gateway := g, ag_gate := gid\<rparr>"
  show "sink_ops_keep env (ag_session a) I \<longrightarrow> sink_kept I a (agent_after
      (Inl (sink_status env ''awaiting_gate'' (logged env (gated_step tc gid b) b), (add_step (gated_step tc gid b)
        (add_step (call_step tc t a) out))\<lparr>oc_gate := gid, oc_status := ''awaiting_gate''\<rparr>, None)))"
  proof
    assume k: "sink_ops_keep env (ag_session a) I"
    let ?c = "logged env (gated_step tc gid b) b"
    have 1: "sink_kept I a b" using sink_ops_kept(1) [OF k, of "call_step tc t a"] by (simp add: b sink_kept_def call_step_def)
    have 2: "sink_kept I b ?c" by (rule sink_ops_kept(1)) (simp_all add: k b logged_def gated_step_def plain_step_def)
    have 3: "sink_kept I ?c (sink_status env ''awaiting_gate'' ?c)" by (rule sink_ops_kept(2)) (simp add: k b logged_def)
    show "sink_kept I a (agent_after (Inl (sink_status env ''awaiting_gate'' ?c, (add_step (gated_step tc gid b)
        (add_step (call_step tc t a) out))\<lparr>oc_gate := gid, oc_status := ''awaiting_gate''\<rparr>, None)))"
      using sink_kept_trans [OF sink_kept_trans [OF 1 2] 3] by simp
  qed
next
  fix a b :: "('g, 's) agent" and tc t j r
  assume b: "b = logged env (call_step tc t a) a"
  let ?c = "logged env (result_step j b) (after_tool tc j b)"
  assume r: "sink_ops_keep env (ag_session ?c) I \<longrightarrow> sink_kept I ?c (agent_after r)"
  show "sink_ops_keep env (ag_session a) I \<longrightarrow> sink_kept I a (agent_after r)"
  proof
    assume k: "sink_ops_keep env (ag_session a) I"
    have 1: "sink_kept I a b" using sink_ops_kept(1) [OF k, of "call_step tc t a"] by (simp add: b call_step_def)
    have 2: "sink_kept I b (after_tool tc j b)" by (simp add: sink_kept_same after_tool_def)
    have 3: "sink_kept I (after_tool tc j b) ?c" by (rule sink_ops_kept(1)) (simp_all add: k b logged_def after_tool_def result_step_def)
    have "ag_session ?c = ag_session a" by (simp add: b logged_def after_tool_def)
    then have 4: "sink_kept I ?c (agent_after r)" using r k by simp
    show "sink_kept I a (agent_after r)"
      using sink_kept_trans [OF sink_kept_trans [OF 1 2] sink_kept_trans [OF 3 4]] .
  qed
qed (simp add: sink_kept_same)

lemma loop_sink:
  fixes a :: "('g, 's) agent"
  shows "sink_ops_keep env (ag_session a) I \<longrightarrow> sink_kept I a (fst (agent_loop env a out))"
proof (rule loop_rule [where P = "\<lambda>a out r. sink_ops_keep env (ag_session a) I \<longrightarrow> sink_kept I a (fst r)"])
  show "sink_ops_keep env (ag_session a) I \<longrightarrow> sink_kept I a (fst (fail env why a out))"
    for a :: "('g, 's) agent" and out why using sink_ops_kept(3) [of env a I why out] by blast
  show "sink_ops_keep env (ag_session a) I \<longrightarrow> sink_kept I a (fst (fail env why (a\<lparr>chats := chats a + 1\<rparr>) out))"
    for a :: "('g, 's) agent" and out why
    using sink_ops_kept(3) [of env "a\<lparr>chats := chats a + 1\<rparr>" I why out] by (simp add: sink_kept_def)
  show "sink_ops_keep env (ag_session a) I \<longrightarrow> sink_kept I a (fst (sink_status env ''completed''
      (logged env (final_step msg a) (answered msg a)), (add_step (final_step msg a) out)
        \<lparr>final := msg_content msg, oc_status := ''completed''\<rparr>, None))"
    for a :: "('g, 's) agent" and out msg
  proof
    assume k: "sink_ops_keep env (ag_session a) I"
    have 1: "sink_kept I a (answered msg a)" by (simp add: sink_kept_same answered_def)
    have 2: "sink_kept I (answered msg a) (logged env (final_step msg a) (answered msg a))"
      by (rule sink_ops_kept(1)) (simp_all add: k answered_def final_step_def plain_step_def)
    have 3: "sink_kept I (logged env (final_step msg a) (answered msg a))
        (sink_status env ''completed'' (logged env (final_step msg a) (answered msg a)))"
      by (rule sink_ops_kept(2)) (simp add: k answered_def logged_def)
    show "sink_kept I a (fst (sink_status env ''completed''
      (logged env (final_step msg a) (answered msg a)), (add_step (final_step msg a) out)
        \<lparr>final := msg_content msg, oc_status := ''completed''\<rparr>, None))"
      using sink_kept_trans [OF sink_kept_trans [OF 1 2] 3] by simp
  qed
  have d: "sink_ops_keep env (ag_session a) I \<longrightarrow>
      sink_kept I a (agent_after (dispatch env (msg_tool_calls msg) (answered msg a) out))"
    for a :: "('g, 's) agent" and msg out
    using dispatch_sink [of env "answered msg a" I "msg_tool_calls msg" out]
      sink_kept_trans [OF sink_kept_same [of "answered msg a" a I]] by (simp add: answered_def)
  show "sink_ops_keep env (ag_session a) I \<longrightarrow> sink_kept I a (fst res)"
    if "dispatch env (msg_tool_calls msg) (answered msg a) out = Inl res" for a :: "('g, 's) agent" and out msg res
    using d [of a msg out] that by (cases res) simp
  show "sink_ops_keep env (ag_session a) I \<longrightarrow> sink_kept I a (fst r)"
    if "dispatch env (msg_tool_calls msg) (answered msg a) out = Inr (a2, out2)"
      "sink_ops_keep env (ag_session a2) I \<longrightarrow> sink_kept I a2 (fst r)" for a a2 :: "('g, 's) agent" and out out2 msg r
  proof
    assume k: "sink_ops_keep env (ag_session a) I"
    then have 1: "sink_kept I a a2" using d [of a msg out] that(1) by simp
    then have "sink_kept I a2 (fst r)" using that(2) k by (simp add: sink_kept_def)
    then show "sink_kept I a (fst r)" using sink_kept_trans [OF 1] by blast
  qed
qed

lemma run_sink:
  fixes a :: "('g, 's) agent"
  shows "sink_ops_keep env (ag_session a) I \<Longrightarrow> sink_kept I a (fst (run env goal a))"
  using loop_sink [of env "with_goal goal a" I empty_outcome] by (simp add: run_def sink_kept_def)

lemma resume_sink:
  fixes a :: "('g, 's) agent"
  assumes "sink_ops_keep env (ag_session a) I"
    "\<And>s st. I s \<Longrightarrow> st_index st = ag_step a \<Longrightarrow> I (append_step env (ag_session a) st s)"
  shows "sink_kept I a (fst (resume_run env gid result a))"
proof -
  let ?st = "plain_step (ag_step a) ''gate_resolved'' (''gate '' @ gid @ '' resolved'') gid"
  let ?b = "logged env ?st (a\<lparr>ag_history := ag_history a @ [(text_message ''tool'' result)\<lparr>msg_tool_call_id := gid\<rparr>]\<rparr>)"
  have "sink_kept I a ?b"
    using assms(2) by (auto simp: sink_kept_def logged_def plain_step_def option.pred_map elim!: option.pred_mono_strong)
  moreover have "resume_run env gid result a = agent_loop env ?b (empty_outcome\<lparr>oc_steps := [?st]\<rparr>)"
    by (simp add: resume_run_def logged_def empty_outcome_def)
  ultimately show ?thesis
    using loop_sink [of env ?b I] assms(1) sink_kept_trans [of I a ?b] by (simp add: logged_def)
qed

text \<open>Without a gate that can be opened, a run neither changes the gateway's invariant nor awaits a gate.\<close>

definition never_opens :: "('g, 's) agent_env \<Rightarrow> ('g \<Rightarrow> bool) \<Rightarrow> bool" where
  "never_opens env K \<longleftrightarrow> (\<forall>req g. K g \<longrightarrow> (\<exists>e g'. open_gate env req g = (Inl e, g') \<and> K g'))"

fun run_of :: "('g, 's) run_result + ('g, 's) agent \<times> agent_outcome \<Rightarrow> ('g, 's) agent \<times> string" where
  "run_of (Inl (a, out, e)) = (a, oc_status out)"
| "run_of (Inr (a, out)) = (a, [])"

lemma dispatch_never_opens:
  fixes a :: "('g, 's) agent"
  assumes "never_opens env K"
  shows "K (ag_gateway a) \<longrightarrow> K (ag_gateway (fst (run_of (dispatch env tcs a out)))) \<and>
    snd (run_of (dispatch env tcs a out)) \<noteq> ''awaiting_gate''"
proof (rule dispatch_rule [where P = "\<lambda>a out r. K (ag_gateway a) \<longrightarrow> K (ag_gateway (fst (run_of r))) \<and>
    snd (run_of r) \<noteq> ''awaiting_gate''"])
  fix a :: "('g, 's) agent" and out tc t e g
  assume "open_gate env (gate_request_of tc t a) (ag_gateway a) = (Inl e, g)"
  then have "K (ag_gateway a) \<longrightarrow> K g" using assms unfolding never_opens_def by (metis Pair_inject)
  then show "K (ag_gateway a) \<longrightarrow> K (ag_gateway (fst (run_of (Inl (fail env (''open gate: '' @ e)
      ((logged env (call_step tc t a) a)\<lparr>ag_gateway := g\<rparr>) (add_step (call_step tc t a) out)))))) \<and>
    snd (run_of (Inl (fail env (''open gate: '' @ e)
      ((logged env (call_step tc t a) a)\<lparr>ag_gateway := g\<rparr>) (add_step (call_step tc t a) out)))) \<noteq> ''awaiting_gate''"
    by (simp add: sink_status_def)
next
  fix a b :: "('g, 's) agent" and out tc t gid g
  assume "open_gate env (gate_request_of tc t a) (ag_gateway a) = (Inr gid, g)"
  then have "\<not> K (ag_gateway a)" using assms unfolding never_opens_def by (metis Pair_inject sum.distinct(1))
  then show "K (ag_gateway a) \<longrightarrow> K (ag_gateway (fst (run_of (Inl (sink_status env ''awaiting_gate''
      (logged env (gated_step tc gid b) b), (add_step (gated_step tc gid b) (add_step (call_step tc t a) out))
        \<lparr>oc_gate := gid, oc_status := ''awaiting_gate''\<rparr>, None))))) \<and>
    snd (run_of (Inl (sink_status env ''awaiting_gate''
      (logged env (gated_step tc gid b) b), (add_step (gated_step tc gid b) (add_step (call_step tc t a) out))
        \<lparr>oc_gate := gid, oc_status := ''awaiting_gate''\<rparr>, None))) \<noteq> ''awaiting_gate''" by blast
qed (simp_all add: sink_status_def logged_def after_tool_def)

lemma loop_never_opens:
  fixes a :: "('g, 's) agent"
  assumes "never_opens env K"
  shows "K (ag_gateway a) \<longrightarrow> K (ag_gateway (fst (agent_loop env a out))) \<and>
    oc_status (fst (snd (agent_loop env a out))) \<noteq> ''awaiting_gate''"
proof (rule loop_rule [where P = "\<lambda>a out r. K (ag_gateway a) \<longrightarrow> K (ag_gateway (fst r)) \<and>
    oc_status (fst (snd r)) \<noteq> ''awaiting_gate''"])
  note d = dispatch_never_opens [OF assms, of "answered msg a" "msg_tool_calls msg" out for msg a out]
  show "K (ag_gateway a) \<longrightarrow> K (ag_gateway (fst res)) \<and> oc_status (fst (snd res)) \<noteq> ''awaiting_gate''"
    if "dispatch env (msg_tool_calls msg) (answered msg a) out = Inl res" for a :: "('g, 's) agent" and out msg res
    using d [of msg a out] that by (cases res) (simp add: answered_def)
  show "K (ag_gateway a) \<longrightarrow> K (ag_gateway (fst r)) \<and> oc_status (fst (snd r)) \<noteq> ''awaiting_gate''"
    if "dispatch env (msg_tool_calls msg) (answered msg a) out = Inr (a2, out2)"
      "K (ag_gateway a2) \<longrightarrow> K (ag_gateway (fst r)) \<and> oc_status (fst (snd r)) \<noteq> ''awaiting_gate''"
    for a a2 :: "('g, 's) agent" and out out2 msg r
    using d [of msg a out] that by (simp add: answered_def)
qed (simp_all add: sink_status_def logged_def answered_def)

subsection \<open>The session sink\<close>

text \<open>
  What the loop relies on from the sink that stores the trail: a step whose index is accepted is
  appended to the steps of its session and makes every larger index acceptable; setting a status
  changes the status of a known session only. The in-memory sink accepts every index, the SQL store
  of agent-service only indices above those it has.
\<close>

locale session_sink =
  fixes append_op :: "string \<Rightarrow> agent_step \<Rightarrow> 's \<Rightarrow> 's"
    and status_op :: "string \<Rightarrow> string \<Rightarrow> 's \<Rightarrow> 's"
    and steps_of :: "'s \<Rightarrow> string \<Rightarrow> agent_step list"
    and status_of :: "'s \<Rightarrow> string \<Rightarrow> string option"
    and accepts :: "'s \<Rightarrow> string \<Rightarrow> int \<Rightarrow> bool"
    and known :: "'s \<Rightarrow> string \<Rightarrow> bool"
  assumes append_steps: "accepts s sid (st_index st) \<Longrightarrow> steps_of (append_op sid st s) sid = steps_of s sid @ [st]"
    and append_accepts: "accepts s sid (st_index st) \<Longrightarrow> st_index st < i \<Longrightarrow> accepts (append_op sid st s) sid i"
    and append_known: "known s sid \<Longrightarrow> known (append_op sid st s) sid"
    and status_steps: "steps_of (status_op sid x s) = steps_of s"
    and status_get: "known s sid \<Longrightarrow> status_of (status_op sid x s) sid = Some x"
begin

definition logs :: "('g, 's) agent \<Rightarrow> agent_outcome \<Rightarrow> ('g, 's) agent \<Rightarrow> agent_outcome \<Rightarrow> nat \<Rightarrow> bool" where
  "logs a out b out' n \<longleftrightarrow> ag_session b = ag_session a \<and>
     (\<forall>s. ag_sink a = Some s \<longrightarrow> known s (ag_session a) \<longrightarrow> accepts s (ag_session a) (ag_step a) \<longrightarrow>
       (\<exists>s' new. ag_sink b = Some s' \<and> length new = n \<and> known s' (ag_session a) \<and>
          accepts s' (ag_session a) (ag_step a + int n) \<and> oc_steps out' = oc_steps out @ new \<and>
          steps_of s' (ag_session a) = steps_of s (ag_session a) @ new \<and>
          map st_index new = map (\<lambda>k. ag_step a + int k) [0..<n]))"

lemma logs_refl:
  "ag_sink b = ag_sink a \<Longrightarrow> ag_session b = ag_session a \<Longrightarrow> oc_steps out' = oc_steps out \<Longrightarrow> logs a out b out' 0"
  by (simp add: logs_def)

lemma logs_one:
  assumes "ag_session b = ag_session a" "ag_sink b = map_option (append_op (ag_session a) st) (ag_sink a)"
    "oc_steps out' = oc_steps out @ [st]" "st_index st = ag_step a"
  shows "logs a out b out' 1"
  using assms append_steps append_known append_accepts [of _ _ st] by (auto simp: logs_def)

lemma logs_trans:
  assumes "logs a out b out1 n" "ag_step b = ag_step a + int n" "logs b out1 c out2 m"
  shows "logs a out c out2 (n + m)"
  unfolding logs_def
proof (intro conjI allI impI)
  show "ag_session c = ag_session a" using assms(1,3) by (simp add: logs_def)
  fix s assume s: "ag_sink a = Some s" "known s (ag_session a)" "accepts s (ag_session a) (ag_step a)"
  then obtain s1 new where 1: "ag_sink b = Some s1" "length new = n" "known s1 (ag_session a)"
    "accepts s1 (ag_session a) (ag_step a + int n)" "oc_steps out1 = oc_steps out @ new"
    "steps_of s1 (ag_session a) = steps_of s (ag_session a) @ new"
    "map st_index new = map (\<lambda>k. ag_step a + int k) [0..<n]" "ag_session b = ag_session a"
    using assms(1) unfolding logs_def by blast
  then obtain s2 new2 where 2: "ag_sink c = Some s2" "length new2 = m" "known s2 (ag_session a)"
    "accepts s2 (ag_session a) (ag_step b + int m)" "oc_steps out2 = oc_steps out1 @ new2"
    "steps_of s2 (ag_session a) = steps_of s1 (ag_session a) @ new2"
    "map st_index new2 = map (\<lambda>k. ag_step b + int k) [0..<m]"
    using assms(2,3) unfolding logs_def by (metis 1)
  have "map st_index (new @ new2) = map (\<lambda>k. ag_step a + int k) [0..<n + m]"
    using 1(2,7) 2(2,7) assms(2)
    by (auto intro!: nth_equalityI simp: nth_append list_eq_iff_nth_eq)
  then show "\<exists>s' new'. ag_sink c = Some s' \<and> length new' = n + m \<and> known s' (ag_session a) \<and>
      accepts s' (ag_session a) (ag_step a + int (n + m)) \<and> oc_steps out2 = oc_steps out @ new' \<and>
      steps_of s' (ag_session a) = steps_of s (ag_session a) @ new' \<and>
      map st_index new' = map (\<lambda>k. ag_step a + int k) [0..<n + m]"
    using 1 2 assms(2) by (intro exI [of _ s2] exI [of _ "new @ new2"]) (simp add: add.assoc)
qed

definition ended :: "('g, 's) agent_env \<Rightarrow> ('g, 's) agent \<Rightarrow> agent_outcome \<Rightarrow> ('g, 's) run_result \<Rightarrow> bool" where
  "ended env a out r \<longleftrightarrow> (case r of (b, out', e) \<Rightarrow>
     \<exists>n b0. logs a out b0 out' n \<and> b = sink_status env (oc_status out') b0)"

lemma ended_trans:
  assumes "logs a out b out1 n" "ag_step b = ag_step a + int n" "ended env b out1 r"
  shows "ended env a out r"
proof -
  obtain c out2 e where r: "r = (c, out2, e)" by (cases r)
  then obtain m c0 where "logs b out1 c0 out2 m" "c = sink_status env (oc_status out2) c0"
    using assms(3) by (auto simp: ended_def)
  then show ?thesis using logs_trans [OF assms(1,2)] unfolding ended_def r prod.case by blast
qed

lemma fail_ended:
  fixes a :: "('g, 's) agent"
  assumes "append_step env = append_op"
  shows "ended env a out (fail env why a out)"
proof -
  let ?st = "plain_step (ag_step a) ''final'' (''failed: '' @ why) []"
  let ?out = "out\<lparr>oc_status := ''failed'', oc_error := why, oc_steps := oc_steps out @ [?st]\<rparr>"
  let ?b = "a\<lparr>ag_sink := map_option (append_step env (ag_session a) ?st) (ag_sink a)\<rparr>"
  have "logs a out ?b ?out 1" by (rule logs_one [of _ _ ?st]) (simp_all add: assms plain_step_def)
  then show ?thesis
    unfolding ended_def fail_simps prod.case by (intro exI [of _ 1] exI [of _ ?b] conjI) simp_all
qed

lemma dispatch_logs:
  fixes a :: "('g, 's) agent"
  assumes "append_step env = append_op"
  shows "case dispatch env tcs a out of Inl res \<Rightarrow> ended env a out res
    | Inr (b, out') \<Rightarrow> \<exists>n. logs a out b out' n \<and> ag_step b = ag_step a + int n"
proof (rule dispatch_rule [where P = "\<lambda>a out r. case r of Inl res \<Rightarrow> ended env a out res
    | Inr (b, out') \<Rightarrow> \<exists>n. logs a out b out' n \<and> ag_step b = ag_step a + int n"])
  show "case Inr (a, out) of Inl res \<Rightarrow> ended env a out res
    | Inr (b, out') \<Rightarrow> \<exists>n. logs a out b out' n \<and> ag_step b = ag_step a + int n" for a :: "('g, 's) agent" and out
    by (auto intro!: exI [of _ 0] logs_refl)
next
  show "case Inl (fail env why a out) of Inl res \<Rightarrow> ended env a out res
    | Inr (b, out') \<Rightarrow> \<exists>n. logs a out b out' n \<and> ag_step b = ag_step a + int n" for a :: "('g, 's) agent" and out why
    using fail_ended [OF assms] by (simp del: fail_simps)
next
  fix a :: "('g, 's) agent" and out tc t e g
  let ?b = "(logged env (call_step tc t a) a)\<lparr>ag_gateway := g\<rparr>"
  have "logs a out ?b (add_step (call_step tc t a) out) 1"
    by (rule logs_one [where st = "call_step tc t a"]) (simp_all add: action_defs assms)
  then have "ended env a out (fail env (''open gate: '' @ e) ?b (add_step (call_step tc t a) out))"
    by (rule ended_trans) (simp_all add: logged_def fail_ended [OF assms] del: fail_simps)
  then show "case Inl (fail env (''open gate: '' @ e) ?b (add_step (call_step tc t a) out)) of
      Inl res \<Rightarrow> ended env a out res
    | Inr (b, out') \<Rightarrow> \<exists>n. logs a out b out' n \<and> ag_step b = ag_step a + int n"
    by (simp del: fail_simps)
next
  fix a b :: "('g, 's) agent" and out tc t gid g
  assume b: "b = (logged env (call_step tc t a) a)\<lparr>ag_gateway := g, ag_gate := gid\<rparr>"
  let ?out = "add_step (call_step tc t a) out"
  let ?c = "logged env (gated_step tc gid b) b"
  let ?out' = "(add_step (gated_step tc gid b) ?out)\<lparr>oc_gate := gid, oc_status := ''awaiting_gate''\<rparr>"
  have 1: "logs a out b ?out 1" by (rule logs_one [where st = "call_step tc t a"]) (simp_all add: b action_defs assms)
  have 2: "logs b ?out ?c ?out' 1"
    by (rule logs_one [where st = "gated_step tc gid b"]) (simp_all add: action_defs assms)
  have "logs a out ?c ?out' (1 + 1)" by (rule logs_trans [OF 1 _ 2]) (simp add: b logged_def)
  then have "ended env a out (sink_status env ''awaiting_gate'' ?c, ?out', None)"
    unfolding ended_def by auto
  then show "case Inl (sink_status env ''awaiting_gate'' ?c, ?out', None) of
      Inl res \<Rightarrow> ended env a out res
    | Inr (b, out') \<Rightarrow> \<exists>n. logs a out b out' n \<and> ag_step b = ag_step a + int n" by simp
next
  fix a b :: "('g, 's) agent" and out tc t j r
  assume b: "b = logged env (call_step tc t a) a"
  let ?out = "add_step (call_step tc t a) out"
  let ?c = "logged env (result_step j b) (after_tool tc j b)"
  let ?out' = "add_step (result_step j b) ?out"
  assume r: "case r of Inl res \<Rightarrow> ended env ?c ?out' res
    | Inr (b, out') \<Rightarrow> \<exists>n. logs ?c ?out' b out' n \<and> ag_step b = ag_step ?c + int n"
  have 1: "logs a out b ?out 1" by (rule logs_one [where st = "call_step tc t a"]) (simp_all add: b action_defs assms)
  have 2: "logs b ?out ?c ?out' 1"
    by (rule logs_one [where st = "result_step j b"]) (simp_all add: action_defs assms)
  have 3: "logs a out ?c ?out' (1 + 1)" by (rule logs_trans [OF 1 _ 2]) (simp add: b logged_def)
  have 4: "ag_step ?c = ag_step a + int (1 + 1)" by (simp add: b logged_def after_tool_def)
  show "case r of Inl res \<Rightarrow> ended env a out res
    | Inr (b, out') \<Rightarrow> \<exists>n. logs a out b out' n \<and> ag_step b = ag_step a + int n"
  proof (cases r)
    case (Inl res)
    then show ?thesis using r ended_trans [OF 3 4] by simp
  next
    case (Inr x)
    obtain d out2 where x: "x = (d, out2)" by (cases x)
    with r Inr obtain n where n: "logs ?c ?out' d out2 n" "ag_step d = ag_step ?c + int n" by auto
    then have "logs a out d out2 (1 + 1 + n)" "ag_step d = ag_step a + int (1 + 1 + n)"
      using logs_trans [OF 3 4 n(1)] 4 by simp_all
    then show ?thesis unfolding Inr x by auto
  qed
qed

lemma loop_logs:
  fixes a :: "('g, 's) agent"
  assumes "append_step env = append_op"
  shows "ended env a out (agent_loop env a out)"
proof (rule loop_rule [where P = "\<lambda>a out r. ended env a out r"])
  have ans: "logs a out (answered msg a) out 0" "ag_step (answered msg a) = ag_step a + int 0"
    for a :: "('g, 's) agent" and out msg
    by (auto intro: logs_refl simp: answered_def)
  show "ended env a out (fail env why a out)" for a :: "('g, 's) agent" and out why by (rule fail_ended [OF assms])
  show "ended env a out (fail env why (a\<lparr>chats := chats a + 1\<rparr>) out)" for a :: "('g, 's) agent" and out why
    by (rule ended_trans [OF logs_refl [of "a\<lparr>chats := chats a + 1\<rparr>" a out out] _ fail_ended [OF assms]]) simp_all
  show "ended env a out (sink_status env ''completed'' (logged env (final_step msg a) (answered msg a)),
      (add_step (final_step msg a) out)\<lparr>final := msg_content msg, oc_status := ''completed''\<rparr>, None)"
    for a :: "('g, 's) agent" and out msg
  proof -
    have "logs a out (logged env (final_step msg a) (answered msg a))
        ((add_step (final_step msg a) out)\<lparr>final := msg_content msg, oc_status := ''completed''\<rparr>) 1"
      by (rule logs_one [where st = "final_step msg a"]) (simp_all add: action_defs answered_def final_step_def assms)
    then show ?thesis unfolding ended_def by auto
  qed
  show "ended env a out res" if "dispatch env (msg_tool_calls msg) (answered msg a) out = Inl res"
    for a :: "('g, 's) agent" and out msg res
    using dispatch_logs [OF assms, where tcs = "msg_tool_calls msg" and a = "answered msg a" and out = out] that ended_trans [OF ans] by simp
  show "ended env a out r"
    if dl: "dispatch env (msg_tool_calls msg) (answered msg a) out = Inr (a2, out2)" and el: "ended env a2 out2 r"
    for a a2 :: "('g, 's) agent" and out out2 msg r
  proof -
    obtain n where n: "logs (answered msg a) out a2 out2 n" "ag_step a2 = ag_step (answered msg a) + int n"
      using dispatch_logs [OF assms, where tcs = "msg_tool_calls msg" and a = "answered msg a" and out = out] dl by auto
    show ?thesis
      by (rule ended_trans [OF ans(1) ans(2) ended_trans [OF n el]])
  qed
qed

lemma loop_persists:
  assumes "append_step env = append_op" "set_status env = status_op"
    "ag_sink a = Some s" "known s (ag_session a)" "accepts s (ag_session a) (ag_step a)"
    "agent_loop env a out = (b, out', e)"
  shows "\<exists>s' new. ag_sink b = Some s' \<and> oc_steps out' = oc_steps out @ new \<and>
    steps_of s' (ag_session a) = steps_of s (ag_session a) @ new \<and>
    map st_index new = map (\<lambda>k. ag_step a + int k) [0..<length new] \<and>
    status_of s' (ag_session a) = Some (oc_status out')"
proof -
  obtain n b0 where b: "logs a out b0 out' n" "b = sink_status env (oc_status out') b0"
    using loop_logs [OF assms(1), of a out] assms(6) by (auto simp: ended_def)
  then obtain s' new where n: "ag_sink b0 = Some s'" "length new = n" "known s' (ag_session a)"
    "oc_steps out' = oc_steps out @ new" "steps_of s' (ag_session a) = steps_of s (ag_session a) @ new"
    "map st_index new = map (\<lambda>k. ag_step a + int k) [0..<n]" "ag_session b0 = ag_session a"
    using assms(3-5) unfolding logs_def by blast
  then show ?thesis
    using b(2) assms(2) status_steps status_get [OF n(3)]
    by (intro exI [of _ "status_op (ag_session a) (oc_status out') s'"] exI [of _ new]) (simp add: sink_status_def)
qed

end

interpretation ms: session_sink memory_append_step memory_set_status memory_steps
    "\<lambda>m sid. map_of (ms_status m) sid" "\<lambda>_ _ _. True" "\<lambda>_ _. True"
  by unfold_locales (auto simp: memory_append_step_def memory_set_status_def memory_steps_def fun_eq_iff)

subsection \<open>The gateway\<close>

text \<open>
  What the loop relies on from the gateway: an opened gate is new and pending, and a call that fails
  may have opened gates but decided none.
\<close>

locale gateway =
  fixes open_op :: "gate_request \<Rightarrow> 'g \<Rightarrow> (string + string) \<times> 'g"
    and decision_of :: "'g \<Rightarrow> string \<Rightarrow> string option"
    and ginv :: "'g \<Rightarrow> bool"
  assumes open_inv: "ginv g \<Longrightarrow> ginv (snd (open_op req g))"
    and open_fresh: "ginv g \<Longrightarrow> open_op req g = (Inr gid, g') \<Longrightarrow>
      decision_of g gid = None \<and> decision_of g' gid = Some ''pending''"
    and open_keeps: "ginv g \<Longrightarrow> decision_of g gid = Some d \<Longrightarrow> decision_of (snd (open_op req g)) gid = Some d"
begin

definition gates_kept :: "'g \<Rightarrow> 'g \<Rightarrow> bool" where
  "gates_kept g g' \<longleftrightarrow> ginv g' \<and> (\<forall>gid d. decision_of g gid = Some d \<longrightarrow> decision_of g' gid = Some d)"

definition gated_end :: "('g, 's) agent \<Rightarrow> ('g, 's) run_result \<Rightarrow> bool" where
  "gated_end a r \<longleftrightarrow> (case r of (b, out, e) \<Rightarrow>
     ginv (ag_gateway a) \<longrightarrow> gates_kept (ag_gateway a) (ag_gateway b) \<and>
       (if oc_status out = ''awaiting_gate''
        then e = None \<and> decision_of (ag_gateway a) (oc_gate out) = None \<and>
          decision_of (ag_gateway b) (oc_gate out) = Some ''pending'' \<and>
          oc_steps out \<noteq> [] \<and> st_kind (last (oc_steps out)) = ''gate_requested'' \<and>
          st_gate (last (oc_steps out)) = oc_gate out
        else oc_status out = ''completed'' \<and> e = None \<or> oc_status out = ''failed'' \<and> e = Some (oc_error out)))"

lemma gated_end_cong: "ag_gateway a = ag_gateway b \<Longrightarrow> gated_end a r = gated_end b r"
  by (simp only: gated_end_def)

lemma gates_kept_refl: "ginv g \<Longrightarrow> gates_kept g g"
  by (simp add: gates_kept_def)

lemma fail_gated:
  assumes "ginv (ag_gateway a) \<Longrightarrow> gates_kept (ag_gateway a) (ag_gateway b)"
  shows "gated_end a (fail env why b out)"
  using assms by (simp add: gated_end_def sink_status_def)

lemma dispatch_gated:
  fixes a :: "('g, 's) agent"
  assumes "open_gate env = open_op"
  shows "case dispatch env tcs a out of Inl res \<Rightarrow> gated_end a res | Inr (b, out') \<Rightarrow> ag_gateway b = ag_gateway a"
proof (rule dispatch_rule [where P = "\<lambda>a out r. case r of Inl res \<Rightarrow> gated_end a res
    | Inr (b, out') \<Rightarrow> ag_gateway b = ag_gateway a"])
  show "case Inl (fail env why a out) of Inl res \<Rightarrow> gated_end a res | Inr (b, out') \<Rightarrow> ag_gateway b = ag_gateway a"
    for a :: "('g, 's) agent" and out why
    using fail_gated [OF gates_kept_refl] by (simp del: fail_simps)
next
  fix a :: "('g, 's) agent" and out tc t e g
  assume o: "open_gate env (gate_request_of tc t a) (ag_gateway a) = (Inl e, g)"
  let ?b = "(logged env (call_step tc t a) a)\<lparr>ag_gateway := g\<rparr>"
  have "gates_kept (ag_gateway a) (ag_gateway ?b)" if "ginv (ag_gateway a)"
    using open_inv [OF that, of "gate_request_of tc t a"] open_keeps [OF that, of _ _ "gate_request_of tc t a"] o assms
    by (simp add: gates_kept_def)
  then show "case Inl (fail env (''open gate: '' @ e) ?b (add_step (call_step tc t a) out)) of
      Inl res \<Rightarrow> gated_end a res | Inr (b, out') \<Rightarrow> ag_gateway b = ag_gateway a"
    using fail_gated [of a ?b] by (simp del: fail_simps)
next
  fix a b :: "('g, 's) agent" and out tc t gid g
  assume o: "open_gate env (gate_request_of tc t a) (ag_gateway a) = (Inr gid, g)"
    and b: "b = (logged env (call_step tc t a) a)\<lparr>ag_gateway := g, ag_gate := gid\<rparr>"
  have "gates_kept (ag_gateway a) g \<and> decision_of (ag_gateway a) gid = None \<and> decision_of g gid = Some ''pending''"
    if "ginv (ag_gateway a)"
    using open_inv [OF that, of "gate_request_of tc t a"] open_keeps [OF that, of _ _ "gate_request_of tc t a"]
      open_fresh [OF that o [unfolded assms]] o assms by (simp add: gates_kept_def)
  then show "case Inl (sink_status env ''awaiting_gate'' (logged env (gated_step tc gid b) b),
      (add_step (gated_step tc gid b) (add_step (call_step tc t a) out))\<lparr>oc_gate := gid, oc_status := ''awaiting_gate''\<rparr>, None)
    of Inl res \<Rightarrow> gated_end a res | Inr (b, out') \<Rightarrow> ag_gateway b = ag_gateway a"
    by (simp add: gated_end_def sink_status_def logged_def b add_step_def gated_step_def plain_step_def)
next
  fix a b :: "('g, 's) agent" and tc t j r
  let ?c = "logged env (result_step j b) (after_tool tc j b)"
  assume b: "b = logged env (call_step tc t a) a"
    and r: "case r of Inl res \<Rightarrow> gated_end ?c res | Inr (d, out') \<Rightarrow> ag_gateway d = ag_gateway ?c"
  have "ag_gateway ?c = ag_gateway a" by (simp add: b logged_def after_tool_def)
  then show "case r of Inl res \<Rightarrow> gated_end a res | Inr (d, out') \<Rightarrow> ag_gateway d = ag_gateway a"
    using r gated_end_cong [of ?c a] by (cases r) auto
qed simp

lemma loop_gated:
  fixes a :: "('g, 's) agent"
  assumes "open_gate env = open_op"
  shows "gated_end a (agent_loop env a out)"
proof (rule loop_rule [where P = "\<lambda>a out r. gated_end a r"])
  note d = dispatch_gated [OF assms]
  show "gated_end a res" if "dispatch env (msg_tool_calls msg) (answered msg a) out = Inl res"
    for a :: "('g, 's) agent" and out msg res
    using d [where tcs = "msg_tool_calls msg" and a = "answered msg a" and out = out] that
      gated_end_cong [of "answered msg a" a] by (simp add: answered_def)
  show "gated_end a r"
    if "dispatch env (msg_tool_calls msg) (answered msg a) out = Inr (a2, out2)" "gated_end a2 r"
    for a a2 :: "('g, 's) agent" and out out2 msg r
    using d [where tcs = "msg_tool_calls msg" and a = "answered msg a" and out = out] that
      gated_end_cong [of a2 a] by (simp add: answered_def)
qed (simp_all add: fail_gated gates_kept_refl del: fail_simps,
    simp add: gated_end_def sink_status_def logged_def answered_def gates_kept_refl)

end

definition memory_gateway_ok :: "memory_gateway \<Rightarrow> bool" where
  "memory_gateway_ok g \<longleftrightarrow> (\<forall>n > mg_next g. map_of (mg_gates g) (''gate-'' @ digits 10 n) = None)"

interpretation mg: gateway memory_open_gate "\<lambda>g gid. map_option mg_decision (map_of (mg_gates g) gid)" memory_gateway_ok
  by unfold_locales (auto simp: memory_open_gate_def memory_gateway_ok_def Let_def dest: digits_inj [rotated 2])

subsection \<open>The number of model calls\<close>

lemma dispatch_chats:
  fixes a :: "('g, 's) agent"
  shows "chats (agent_after (dispatch env tcs a out)) = chats a"
  by (rule dispatch_rule [where P = "\<lambda>a out r. chats (agent_after r) = chats a"])
    (simp_all add: sink_status_def logged_def after_tool_def)

definition budget :: "('g, 's) agent \<Rightarrow> int" where
  "budget a = max 0 (max_steps (ag_config a) - ag_step a + 1)"

lemma loop_chats:
  fixes a :: "('g, 's) agent"
  shows "2 * int (chats (fst (agent_loop env a out))) \<le> 2 * int (chats a) + budget a"
proof (rule loop_rule [where P = "\<lambda>a out r. 2 * int (chats (fst r)) \<le> 2 * int (chats a) + budget a"])
  show "2 * int (chats (fst res)) \<le> 2 * int (chats a) + budget a"
    if "ag_step a < max_steps (ag_config a)" "dispatch env (msg_tool_calls msg) (answered msg a) out = Inl res"
    for a :: "('g, 's) agent" and out msg res
    using dispatch_chats [of env "msg_tool_calls msg" "answered msg a" out] that
    by (cases res) (simp add: answered_def budget_def)
  show "2 * int (chats (fst r)) \<le> 2 * int (chats a) + budget a"
    if "ag_step a < max_steps (ag_config a)" "msg_tool_calls msg \<noteq> []"
      "dispatch env (msg_tool_calls msg) (answered msg a) out = Inr (a2, out2)"
      "2 * int (chats (fst r)) \<le> 2 * int (chats a2) + budget a2"
    for a a2 :: "('g, 's) agent" and out out2 msg r
  proof -
    have "chats a2 = chats a + 1"
      using dispatch_chats [of env "msg_tool_calls msg" "answered msg a" out] that(3) by (simp add: answered_def)
    moreover have "ag_step a2 = ag_step a + 2 * int (length (msg_tool_calls msg))" "ag_config a2 = ag_config a"
      using dispatch_step [OF that(3)] by (simp_all add: answered_def)
    moreover have "1 \<le> int (length (msg_tool_calls msg))" using that(2) by (simp add: Suc_le_eq)
    ultimately show ?thesis using that(1,4) by (simp add: budget_def max_def split: if_splits)
  qed
qed (simp_all add: budget_def sink_status_def logged_def answered_def)

subsection \<open>How a run ends\<close>

definition proper_end :: "('g, 's) run_result \<Rightarrow> bool" where
  "proper_end r \<longleftrightarrow> (case r of (b, out, e) \<Rightarrow>
     oc_status out \<in> {''completed'', ''failed'', ''awaiting_gate''} \<and> (e = None \<longleftrightarrow> oc_status out \<noteq> ''failed'') \<and>
     oc_steps out \<noteq> [])"

lemma dispatch_ends:
  fixes a :: "('g, 's) agent"
  shows "dispatch env tcs a out = Inl res \<Longrightarrow> proper_end res"
  by (rule dispatch_rule [where P = "\<lambda>a out r. \<forall>res. r = Inl res \<longrightarrow> proper_end res", rule_format])
    (auto simp: proper_end_def add_step_def)

lemma loop_ends:
  fixes a :: "('g, 's) agent"
  shows "proper_end (agent_loop env a out)"
  by (rule loop_rule [where P = "\<lambda>a out r. proper_end r"])
    (auto intro: dispatch_ends, auto simp: proper_end_def add_step_def)

subsection \<open>Properties\<close>

text \<open>
  C1: the agent never runs a tool above its autonomy ceiling. Every tool that a run or a resumed run
  executes is registered under its name with a risk tier that does not exceed the ceiling of the
  configuration, which no run changes.
\<close>

theorem tools_within_ceiling:
  assumes "b = fst (run env goal a) \<or> b = fst (resume_run env gid tool_result a)"
  shows "\<exists>new. executed b = executed a @ new \<and> ag_config b = ag_config a \<and>
    (\<forall>(name, args) \<in> set new. \<exists>t. get_tool name (ag_registry a) = Some t \<and>
       risk_tier (tool_schema_of t) \<le> max_autonomy_tier (ag_config a))"
proof -
  have "within_ceiling a b"
    using assms
  proof
    assume b: "b = fst (run env goal a)"
    have "within_ceiling a (with_goal goal a)" by (simp add: within_ceiling_same)
    then show ?thesis using within_ceiling_trans loop_within unfolding b run_def by blast
  next
    assume b: "b = fst (resume_run env gid tool_result a)"
    show ?thesis
      unfolding b resume_run_def
      by (auto intro!: within_ceiling_trans [OF _ loop_within] within_ceiling_same)
  qed
  then show ?thesis by (fastforce simp: within_ceiling_def allowed_def)
qed

text \<open>
  C2: a run always ends, as completed, failed or awaiting a gate, with an error exactly when it failed,
  and it calls the language model at most \<open>(MaxSteps + 1) / 2\<close> times, whatever the model answers:
  every answer with tool calls uses at least two steps.
\<close>

theorem run_is_bounded:
  "case run env goal (new_agent reg g s c tenant session) of (b, out, e) \<Rightarrow>
     oc_status out \<in> {''completed'', ''failed'', ''awaiting_gate''} \<and>
     (e = None \<longleftrightarrow> oc_status out \<noteq> ''failed'') \<and>
     2 * int (chats b) \<le> max 0 (max_steps (config_defaults c) + 1)"
proof -
  let ?a = "with_goal goal (new_agent reg g s c tenant session)"
  have "2 * int (chats (fst (agent_loop env ?a empty_outcome))) \<le> max 0 (max_steps (config_defaults c) + 1)"
    using loop_chats [of env ?a empty_outcome] by (simp add: budget_def new_agent_def)
  then show ?thesis
    using loop_ends [of env ?a empty_outcome] unfolding run_def
    by (simp add: proper_end_def split: prod.splits)
qed

text \<open>
  With the in-memory sink the audit trail of a run is complete: the session's stored steps grow by
  exactly the steps the outcome reports, numbered consecutively from the agent's step counter, and the
  stored status is the outcome's.
\<close>

theorem trail_is_complete:
  assumes "set_status env = memory_set_status" "append_step env = memory_append_step" "ag_sink a = Some m"
    "run env goal a = (b, out, e)"
  shows "\<exists>m'. ag_sink b = Some m' \<and>
    memory_steps m' (ag_session a) = memory_steps m (ag_session a) @ oc_steps out \<and>
    map st_index (oc_steps out) = map (\<lambda>k. ag_step a + int k) [0..<length (oc_steps out)] \<and>
    map_of (ms_status m') (ag_session a) = Some (oc_status out)"
  using ms.loop_persists [OF assms(2,1) _ TrueI TrueI, of "with_goal goal a" m empty_outcome b out e] assms(3,4)
  by (auto simp: run_def empty_outcome_def)

text \<open>
  C3: with every gateway that keeps the contract \<open>gateway\<close> (an opened gate is new and pending, opening changes no other gate), the
  in-memory one and the HTTP client of the service among them: a run or a resumed run that stops for a gate leaves exactly the gate it
  names, new, pending, requested by the last recorded step; and no run or resumed run changes the decision of a gate that was
  there before.
\<close>

theorem gate_is_pending:
  fixes a :: "('g, 's) agent"
  assumes "gateway (open_gate env) dec ok" "ok (ag_gateway a)"
    "run env goal a = (b, out, e) \<or> resume_run env gid tool_result a = (b, out, e)"
  shows "(\<forall>i d. dec (ag_gateway a) i = Some d \<longrightarrow> dec (ag_gateway b) i = Some d) \<and>
    (oc_status out = ''awaiting_gate'' \<longrightarrow>
      dec (ag_gateway a) (oc_gate out) = None \<and> dec (ag_gateway b) (oc_gate out) = Some ''pending'' \<and>
      oc_steps out \<noteq> [] \<and> st_kind (last (oc_steps out)) = ''gate_requested'' \<and> st_gate (last (oc_steps out)) = oc_gate out)"
proof -
  note loop = gateway.loop_gated [OF assms(1) refl] and cong = gateway.gated_end_cong [OF assms(1)]
  have "gateway.gated_end dec ok a (run env goal a)"
    using loop cong [of a "with_goal goal a"] unfolding run_def by simp
  moreover have "gateway.gated_end dec ok a (resume_run env gid tool_result a)"
    unfolding resume_run_def record_step_simps prod.case by (rule cong [THEN iffD2, OF _ loop]) simp
  ultimately show ?thesis
    using assms(2,3) by (auto simp: gateway.gated_end_def [OF assms(1)] gateway.gates_kept_def [OF assms(1)] split: if_splits)
qed

text \<open>
  A ceiling of 0 cannot be configured. An agent made with \<open>MaxAutonomyTier\<close> 0 executes a tool of
  tier 2 that the model asks for.
\<close>

lemma zero_ceiling_executes:
  fixes g :: 'g and s :: "'s option"
  assumes "max_autonomy_tier c = 0" "0 \<le> max_steps c" "get_tool name reg = Some t"
    "risk_tier (tool_schema_of t) = 2" "\<And>h. ctx_err env h = None"
    "\<And>req. chat env req = Inr ((text_message ''assistant'' [])\<lparr>msg_tool_calls :=
       [\<lparr>tc_id = i, tc_name = name, tc_args = args\<rparr>]\<rparr>)"
  shows "(name, args) \<in> set (executed (fst (run env goal (new_agent reg g s c tenant session))))"
proof -
  let ?msg = "(text_message ''assistant'' [])\<lparr>msg_tool_calls := [\<lparr>tc_id = i, tc_name = name, tc_args = args\<rparr>]\<rparr>"
  let ?a = "with_goal goal (new_agent reg g s c tenant session)"
  have a: "ag_step ?a = 0" "max_autonomy_tier (ag_config ?a) = 2" "0 < max_steps (ag_config ?a)"
    "ag_registry ?a = reg" "executed ?a = []"
    using assms(1,2) by (auto simp: new_agent_def config_defaults_def)
  obtain b out where d: "dispatch env [\<lparr>tc_id = i, tc_name = name, tc_args = args\<rparr>] (answered ?msg ?a) empty_outcome = Inr (b, out)"
    "executed b = [(name, args)]"
    using a assms(3,4) by (auto simp: dispatch.simps(2) answered_def Let_def)
  have "agent_loop env ?a empty_outcome = agent_loop env b out"
    using a assms(5,6) d(1) by (subst agent_loop.simps) (simp add: answered_def text_message_def)
  then show ?thesis
    using loop_within [of b env out] d(2) by (auto simp: within_ceiling_def run_def)
qed

subsection \<open>A concrete agent\<close>

definition demo_tool :: "string \<Rightarrow> int \<Rightarrow> tool" where
  "demo_tool name tier = \<lparr>tool_schema_of = \<lparr>schema_name = name, schema_description = ''does it'',
     schema_params = [], risk_tier = tier\<rparr>, tool_run = (\<lambda>_ _. Inr ''ok'')\<rparr>"

definition demo_registry :: "(string \<times> tool) list" where
  "demo_registry = register_tool (demo_tool ''erase'' 3) (register_tool (demo_tool ''move'' 2) [])"

text \<open>A model that asks for \<open>move\<close> first and for \<open>erase\<close> when it has seen the result.\<close>

definition demo_chat :: "chat_request \<Rightarrow> string + message" where
  "demo_chat req = Inr ((text_message ''assistant'' [])\<lparr>msg_tool_calls := [\<lparr>tc_id = ''1'',
     tc_name = (if length (cr_messages req) < 3 then ''move'' else ''erase''), tc_args = ''{}''\<rparr>]\<rparr>)"

definition demo_agent_env :: "(memory_gateway, memory_sink) agent_env" where
  "demo_agent_env = \<lparr>chat = demo_chat, ctx_err = (\<lambda>_. None), open_gate = memory_open_gate,
     append_step = memory_append_step, set_status = memory_set_status, error_json = (\<lambda>e. e)\<rparr>"

definition demo_config :: "int \<Rightarrow> agent_config" where
  "demo_config tier = \<lparr>max_steps = 12, max_autonomy_tier = tier, step_timeout = 1, temperature = Fin 1,
     cfg_model = [], system_prompt = []\<rparr>"

definition demo_agent :: "(memory_gateway, memory_sink) agent" where
  "demo_agent = new_agent demo_registry new_memory_gateway (Some new_memory_sink) (demo_config 2) ''t'' ''sess''"

lemma demo_run:
  "executed (fst (run demo_agent_env ''go'' demo_agent)) = [(''move'', ''{}'')]"
  "oc_status (fst (snd (run demo_agent_env ''go'' demo_agent))) = ''awaiting_gate''"
  "oc_gate (fst (snd (run demo_agent_env ''go'' demo_agent))) = ''gate-1''"
  "length (oc_steps (fst (snd (run demo_agent_env ''go'' demo_agent)))) = 4"
  "executed demo_agent = []" "ag_sink demo_agent = Some new_memory_sink" "ag_session demo_agent = ''sess''"
  by code_simp+

theorem tools_within_ceiling_witness:
  "executed (fst (run demo_agent_env ''go'' demo_agent)) = [(''move'', ''{}'')] \<and>
   (\<exists>t. get_tool ''move'' (ag_registry demo_agent) = Some t \<and>
      risk_tier (tool_schema_of t) \<le> max_autonomy_tier (ag_config demo_agent))"
  using tools_within_ceiling [of "fst (run demo_agent_env ''go'' demo_agent)" demo_agent_env "''go''" demo_agent]
  by (auto simp: demo_run)

theorem trail_is_complete_witness:
  "\<exists>m'. ag_sink (fst (run demo_agent_env ''go'' demo_agent)) = Some m' \<and>
     length (memory_steps m' ''sess'') = 4 \<and> map_of (ms_status m') ''sess'' = Some ''awaiting_gate''"
proof -
  obtain b out e where r: "run demo_agent_env ''go'' demo_agent = (b, out, e)" by (cases "run demo_agent_env ''go'' demo_agent")
  have "length (memory_steps new_memory_sink ''sess'') = 0" by (simp add: memory_steps_def new_memory_sink_def)
  moreover have "length (oc_steps out) = 4" "oc_status out = ''awaiting_gate''" using demo_run(2,4) r by simp_all
  ultimately show ?thesis
    using trail_is_complete [OF _ _ demo_run(6) r] demo_run(7) r by (auto simp: demo_agent_env_def)
qed

theorem gate_is_pending_witness:
  "map_option mg_decision (memory_get_gate ''gate-1'' (ag_gateway (fst (run demo_agent_env ''go'' demo_agent)))) =
     Some ''pending''"
proof -
  obtain b out e where r: "run demo_agent_env ''go'' demo_agent = (b, out, e)" by (cases "run demo_agent_env ''go'' demo_agent")
  have o: "open_gate demo_agent_env = memory_open_gate" and ok: "memory_gateway_ok (ag_gateway demo_agent)"
    by (simp_all add: demo_agent_env_def demo_agent_def new_agent_def new_memory_gateway_def memory_gateway_ok_def)
  from gate_is_pending [OF mg.gateway_axioms [folded o] ok disjI1 [OF r]] show ?thesis
    using demo_run(2,3) r by (simp add: memory_get_gate_def)
qed

lemma zero_ceiling_executes_witness:
  "(''move'', ''{}'') \<in> set (executed (fst (run
     (demo_agent_env\<lparr>chat := \<lambda>_. Inr ((text_message ''assistant'' [])\<lparr>msg_tool_calls :=
        [\<lparr>tc_id = ''1'', tc_name = ''move'', tc_args = ''{}''\<rparr>]\<rparr>)\<rparr>) ''go''
     (new_agent demo_registry new_memory_gateway (Some new_memory_sink) (demo_config 0) ''t'' ''sess''))))"
  by (rule zero_ceiling_executes [where t = "demo_tool ''move'' 2" and i = "''1''"])
    (simp_all add: demo_config_def demo_registry_def register_tool_def get_tool_def demo_tool_def demo_agent_env_def)

text \<open>
  The step budget is checked between answers only: one answer with three tool calls runs all three
  although one step was allowed.
\<close>

lemma one_answer_exceeds_the_budget:
  "length (executed (fst (run
     (demo_agent_env\<lparr>chat := \<lambda>_. Inr ((text_message ''assistant'' [])\<lparr>msg_tool_calls :=
        replicate 3 \<lparr>tc_id = ''1'', tc_name = ''move'', tc_args = ''{}''\<rparr>\<rparr>)\<rparr>) ''go''
     (new_agent demo_registry new_memory_gateway (Some new_memory_sink)
        ((demo_config 2)\<lparr>max_steps := 1\<rparr>) ''t'' ''sess'')))) = 3"
  by code_simp

end
