(* ===== verification/Http.thy ===== *)
theory Http
  imports Prelude
begin

section \<open>Requests, responses and problem documents\<close>

text \<open>
  The shared HTTP vocabulary: \<open>pkg/platform/problem/problem.go\<close> and the part of \<open>net/http\<close> its users
  rely on. Headers have canonical names and one value each. What a handler does to its
  \<open>ResponseWriter\<close> is the list of its calls; \<open>respond\<close> is the response the server makes of them.
  A JSON body keeps the value that was encoded. Codes outside 100..999, for which the server panics,
  are not used by any handler.
\<close>

type_synonym headers = "(string \<times> string) list"

definition header_get :: "headers \<Rightarrow> string \<Rightarrow> string" where
  "header_get h k = (case map_of h k of None \<Rightarrow> [] | Some v \<Rightarrow> v)"

subsection \<open>Problems\<close>

record problem =
  pb_title :: string
  pb_status :: int
  pb_detail :: string
  pb_code :: string

definition problem_error :: "problem \<Rightarrow> string" where
  "problem_error p = (if pb_detail p \<noteq> [] then pb_title p @ '': '' @ pb_detail p else pb_title p)"

definition bad_request :: "string \<Rightarrow> problem" where
  "bad_request d = \<lparr>pb_title = ''Bad Request'', pb_status = 400, pb_detail = d, pb_code = ''bad_request''\<rparr>"

definition unauthorized :: "string \<Rightarrow> problem" where
  "unauthorized d = \<lparr>pb_title = ''Unauthorized'', pb_status = 401, pb_detail = d, pb_code = ''unauthorized''\<rparr>"

definition forbidden :: "string \<Rightarrow> problem" where
  "forbidden d = \<lparr>pb_title = ''Forbidden'', pb_status = 403, pb_detail = d, pb_code = ''forbidden''\<rparr>"

definition not_found :: "string \<Rightarrow> problem" where
  "not_found d = \<lparr>pb_title = ''Not Found'', pb_status = 404, pb_detail = d, pb_code = ''not_found''\<rparr>"

definition conflict :: "string \<Rightarrow> problem" where
  "conflict d = \<lparr>pb_title = ''Conflict'', pb_status = 409, pb_detail = d, pb_code = ''conflict''\<rparr>"

definition unprocessable :: "string \<Rightarrow> problem" where
  "unprocessable d = \<lparr>pb_title = ''Unprocessable Entity'', pb_status = 422, pb_detail = d, pb_code = ''unprocessable_entity''\<rparr>"

definition too_many_requests :: "string \<Rightarrow> problem" where
  "too_many_requests d = \<lparr>pb_title = ''Too Many Requests'', pb_status = 429, pb_detail = d, pb_code = ''too_many_requests''\<rparr>"

definition internal :: "string \<Rightarrow> problem" where
  "internal d = \<lparr>pb_title = ''Internal Server Error'', pb_status = 500, pb_detail = d, pb_code = ''internal''\<rparr>"

definition service_unavailable :: "string \<Rightarrow> problem" where
  "service_unavailable d = \<lparr>pb_title = ''Service Unavailable'', pb_status = 503, pb_detail = d, pb_code = ''service_unavailable''\<rparr>"

subsection \<open>The response writer of the server\<close>

datatype chunk = Bytes string | Encoded problem

datatype writer_act = SetHeader string string | WriteHeader int | Write chunk | Flush

record writer =
  wr_headers :: headers
  wr_sent :: "(int \<times> headers) option"
  wr_body :: "chunk list"

definition body_allowed :: "int \<Rightarrow> bool" where
  "body_allowed c \<longleftrightarrow> \<not> (100 \<le> c \<and> c \<le> 199 \<or> c = 204 \<or> c = 304)"

definition send_header :: "int \<Rightarrow> writer \<Rightarrow> writer" where
  "send_header c w = (case wr_sent w of Some _ \<Rightarrow> w | None \<Rightarrow> w\<lparr>wr_sent := Some (c, wr_headers w)\<rparr>)"

fun writer_step :: "writer_act \<Rightarrow> writer \<Rightarrow> writer" where
  "writer_step (SetHeader k v) w = w\<lparr>wr_headers := AList.update k v (wr_headers w)\<rparr>"
| "writer_step (WriteHeader c) w = (if 100 \<le> c \<and> c \<le> 199 \<and> c \<noteq> 101 then w else send_header c w)"
| "writer_step (Write b) w =
     (let w1 = send_header 200 w in
      if body_allowed (fst (the (wr_sent w1))) then w1\<lparr>wr_body := wr_body w1 @ [b]\<rparr> else w1)"
| "writer_step Flush w = send_header 200 w"

record response =
  rs_status :: int
  rs_headers :: headers
  rs_body :: "chunk list"

definition new_writer :: "headers \<Rightarrow> writer" where
  "new_writer h = \<lparr>wr_headers = h, wr_sent = None, wr_body = []\<rparr>"

definition finish :: "writer \<Rightarrow> response" where
  "finish w = (let w1 = send_header 200 w in
     \<lparr>rs_status = fst (the (wr_sent w1)), rs_headers = snd (the (wr_sent w1)), rs_body = wr_body w1\<rparr>)"

definition respond :: "headers \<Rightarrow> writer_act list \<Rightarrow> response" where
  "respond h acts = finish (fold writer_step acts (new_writer h))"

text \<open>The header map a handler sees after its calls, whether or not it was sent.\<close>

definition headers_after :: "headers \<Rightarrow> writer_act list \<Rightarrow> headers" where
  "headers_after h acts = wr_headers (fold writer_step acts (new_writer h))"

definition problem_write :: "problem \<Rightarrow> writer_act list" where
  "problem_write p =
     [SetHeader ''Content-Type'' ''application/problem+json'',
      WriteHeader (if pb_status p = 0 then 500 else pb_status p), Write (Encoded p)]"

lemma respond_problem:
  "pb_status p \<in> {400..599} \<Longrightarrow>
   respond h (problem_write p) =
     \<lparr>rs_status = pb_status p, rs_headers = AList.update ''Content-Type'' ''application/problem+json'' h,
      rs_body = [Encoded p]\<rparr>"
  by (simp add: respond_def problem_write_def new_writer_def finish_def send_header_def body_allowed_def Let_def)

subsection \<open>Trimming\<close>

text \<open>
  \<open>strings.TrimSpace\<close> removes Unicode white space. Its UTF-8 encodings are listed; since no encoding
  is a part of another character's, trimming runes is trimming these byte sequences.
\<close>

definition space_encodings :: "string list" where
  "space_encodings =
     [[CHR 0x09], [CHR 0x0A], [CHR 0x0B], [CHR 0x0C], [CHR 0x0D], [CHR 0x20], [CHR 0xC2, CHR 0x85],
      [CHR 0xC2, CHR 0xA0], [CHR 0xE1, CHR 0x9A, CHR 0x80]] @
     map (\<lambda>b. [CHR 0xE2, CHR 0x80, char_of (b :: nat)]) ([0x80..<0x8B] @ [0xA8, 0xA9, 0xAF]) @
     [[CHR 0xE2, CHR 0x81, CHR 0x9F], [CHR 0xE3, CHR 0x80, CHR 0x80]]"

fun trim_prefix :: "string list \<Rightarrow> nat \<Rightarrow> string \<Rightarrow> string" where
  "trim_prefix ps 0 s = s"
| "trim_prefix ps (Suc n) s =
     (case find (\<lambda>p. prefix p s) ps of None \<Rightarrow> s | Some p \<Rightarrow> trim_prefix ps n (drop (length p) s))"

definition trim_left :: "string \<Rightarrow> string" where
  "trim_left s = trim_prefix space_encodings (length s) s"

definition trim_right :: "string \<Rightarrow> string" where
  "trim_right s = rev (trim_prefix (map rev space_encodings) (length s) (rev s))"

definition trim_space :: "string \<Rightarrow> string" where
  "trim_space s = trim_right (trim_left s)"

lemma trim_prefix_plain:
  "(\<And>p. p \<in> set ps \<Longrightarrow> \<not> prefix p s) \<Longrightarrow> trim_prefix ps n s = s"
proof (cases n)
  case (Suc m)
  assume "\<And>p. p \<in> set ps \<Longrightarrow> \<not> prefix p s"
  then have "find (\<lambda>p. prefix p s) ps = None" by (simp add: find_None_iff)
  then show ?thesis by (simp add: Suc)
qed simp

text \<open>A string of printable ASCII characters is not changed.\<close>

definition graphic :: "string \<Rightarrow> bool" where
  "graphic s \<longleftrightarrow> (\<forall>c \<in> set s. (0x21 :: nat) \<le> of_char c \<and> of_char c < (0x7F :: nat))"

lemma space_encodings_not_graphic: "p \<in> set space_encodings \<Longrightarrow> p \<noteq> [] \<and> (\<forall>c \<in> set p. \<not> graphic [c])"
proof -
  have "\<forall>p \<in> set space_encodings. p \<noteq> [] \<and> (\<forall>c \<in> set p. \<not> graphic [c])"
    by code_simp
  then show "p \<in> set space_encodings \<Longrightarrow> p \<noteq> [] \<and> (\<forall>c \<in> set p. \<not> graphic [c])" by blast
qed

lemma trim_space_graphic [simp]: "graphic s \<Longrightarrow> trim_space s = s"
proof -
  assume g: "graphic s"
  have n: "\<not> prefix p s" if "p \<in> set space_encodings" for p
    using space_encodings_not_graphic [OF that] g
    by (cases p) (auto simp: graphic_def prefix_def)
  have m: "\<not> prefix p (rev s)" if "p \<in> set (map rev space_encodings)" for p
  proof
    assume pre: "prefix p (rev s)"
    from that obtain q where q: "q \<in> set space_encodings" "p = rev q" by auto
    have "suffix q s" using pre q(2) by (simp add: suffix_to_prefix)
    note q = q this
    then have "q \<noteq> []" "\<forall>c \<in> set q. \<not> graphic [c]" using space_encodings_not_graphic by auto
    then show False using q(3) g by (cases q) (auto simp: graphic_def suffix_def)
  qed
  show ?thesis
    using trim_prefix_plain [of space_encodings, OF n, where n = "length s"]
      trim_prefix_plain [of "map rev space_encodings", OF m, where n = "length s"]
    by (simp add: trim_space_def trim_left_def trim_right_def)
qed

definition tenant_header :: "headers \<Rightarrow> string" where
  "tenant_header h = trim_space (header_get h ''X-Tenant-Id'')"

text \<open>A typed handler behind \<open>TenantFromHeader\<close>: it runs with the tenant of the header or not at all.\<close>

definition with_tenant :: "headers \<Rightarrow> (string \<Rightarrow> 's \<Rightarrow> (problem + 'r) \<times> 's) \<Rightarrow> 's \<Rightarrow> (problem + 'r) \<times> 's" where
  "with_tenant h f s =
     (if tenant_header h = [] then (Inl (unauthorized ''X-Tenant-Id is required''), s) else f (tenant_header h) s)"

end
