(* ===== verification/Middleware.thy ===== *)
theory Middleware
  imports Http
begin

section \<open>The HTTP middleware chain\<close>

text \<open>
  Model of \<open>pkg/platform/middleware/middleware.go\<close> and \<open>pkg/platform/idempotency/store.go\<close>. A
  handler gets the request, the header map of its response writer and the state of the service; it
  gives its calls of the writer in order, whether it ended by a panic, and the new state. A middleware
  maps handlers to handlers. Contexts carry the tenant and the request id. The fingerprint of a body is
  the injection \<open>fp\<close> the code computes by SHA-256; log lines are left out.
\<close>

record request =
  rq_method :: string
  rq_path :: string
  rq_headers :: headers
  rq_body :: "string option"
  ctx_tenant :: string
  ctx_request_id :: string

type_synonym 's handler = "request \<Rightarrow> headers \<Rightarrow> 's \<Rightarrow> (writer_act list \<times> bool) \<times> 's"

text \<open>Calls made before the next handler, whose header map they change.\<close>

definition before :: "writer_act list \<Rightarrow> 's handler \<Rightarrow> 's handler" where
  "before acts next rq h s =
     (case next rq (headers_after h acts) s of ((as, p), s') \<Rightarrow> ((acts @ as, p), s'))"

definition answer :: "problem \<Rightarrow> 's \<Rightarrow> (writer_act list \<times> bool) \<times> 's" where
  "answer p s = ((problem_write p, False), s)"

subsection \<open>Recovery, request ids, logging\<close>

definition recovery :: "'s handler \<Rightarrow> 's handler" where
  "recovery next rq h s =
     (case next rq h s of ((acts, panicked), s') \<Rightarrow>
        ((if panicked then acts @ problem_write (internal ''internal server error'') else acts, False), s'))"

definition request_id :: "string \<Rightarrow> 's handler \<Rightarrow> 's handler" where
  "request_id fresh next rq h s =
     (let given = header_get (rq_headers rq) ''X-Request-Id''; rid = (if given = [] then fresh else given)
      in before [SetHeader ''X-Request-Id'' rid] next (rq\<lparr>ctx_request_id := rid\<rparr>) h s)"

text \<open>
  The two wrappers of the response writer. Both pass on the first status only; the capturing one keeps
  the body and hides the flusher.
\<close>

record capture =
  cap_status :: int
  cap_wrote :: bool
  cap_buf :: "chunk list"
  cap_out :: "writer_act list"

definition new_capture :: capture where
  "new_capture = \<lparr>cap_status = 200, cap_wrote = False, cap_buf = [], cap_out = []\<rparr>"

definition forward :: "writer_act \<Rightarrow> capture \<Rightarrow> capture" where
  "forward a c = c\<lparr>cap_out := cap_out c @ [a]\<rparr>"

fun recorder_step :: "writer_act \<Rightarrow> capture \<Rightarrow> capture" where
  "recorder_step (WriteHeader code) c =
     (if cap_wrote c then c else forward (WriteHeader code) (c\<lparr>cap_status := code, cap_wrote := True\<rparr>))"
| "recorder_step (Write b) c = forward (Write b) (c\<lparr>cap_wrote := True\<rparr>)"
| "recorder_step a c = forward a c"

fun capture_step :: "writer_act \<Rightarrow> capture \<Rightarrow> capture" where
  "capture_step (WriteHeader code) c =
     (if cap_wrote c then c else forward (WriteHeader code) (c\<lparr>cap_status := code, cap_wrote := True\<rparr>))"
| "capture_step (Write b) c = forward (Write b) (c\<lparr>cap_wrote := True, cap_buf := cap_buf c @ [b]\<rparr>)"
| "capture_step Flush c = c"
| "capture_step (SetHeader k v) c = forward (SetHeader k v) c"

definition logging :: "'s handler \<Rightarrow> 's handler" where
  "logging next rq h s =
     (case next rq h s of ((acts, p), s') \<Rightarrow> ((cap_out (fold recorder_step acts new_capture), p), s'))"

subsection \<open>Idempotency\<close>

record entry =
  en_status :: int
  en_content_type :: string
  en_body :: "chunk list"
  en_fingerprint :: string
  en_stored :: time
  en_expires :: time

definition is_mutating :: "string \<Rightarrow> bool" where
  "is_mutating m \<longleftrightarrow> m = ''POST'' \<or> m = ''PUT'' \<or> m = ''PATCH'' \<or> m = ''DELETE''"

definition fingerprint :: "(string \<Rightarrow> string) \<Rightarrow> string \<Rightarrow> string" where
  "fingerprint sha b = (if b = [] then ''empty'' else sha b)"

text \<open>
  The store is the pair of its operations. The state is that of the store and that of the handler; the
  two instants are those of the lookup and of the insertion.
\<close>

record 'm idem_ops =
  idem_get :: "time \<Rightarrow> string \<Rightarrow> string \<Rightarrow> 'm \<Rightarrow> (string + entry option) \<times> 'm"
  idem_put :: "string \<Rightarrow> string \<Rightarrow> entry \<Rightarrow> 'm \<Rightarrow> 'm"

definition replay_acts :: "entry \<Rightarrow> writer_act list" where
  "replay_acts e =
     (if en_content_type e \<noteq> [] then [SetHeader ''Content-Type'' (en_content_type e)] else []) @
     [SetHeader ''Idempotent-Replay'' ''true'', WriteHeader (en_status e)] @ map Write (en_body e)"

definition idempotency ::
  "'m idem_ops \<Rightarrow> (string \<Rightarrow> string) \<Rightarrow> duration \<Rightarrow> time \<Rightarrow> time \<Rightarrow> 's handler \<Rightarrow> ('m \<times> 's) handler" where
  "idempotency ops sha ttl0 t1 t2 next rq h ms =
     (case ms of (m, s) \<Rightarrow>
      let ttl = (if ttl0 \<le> 0 then 24 * hour else ttl0) in
      if \<not> is_mutating (rq_method rq) then (case next rq h s of (r, s') \<Rightarrow> (r, (m, s')))
      else let key = header_get (rq_headers rq) ''Idempotency-Key'' in
      if key = [] then (case next rq h s of (r, s') \<Rightarrow> (r, (m, s')))
      else case rq_body rq of
        None \<Rightarrow> answer (bad_request ''could not read request body'') (m, s)
      | Some body \<Rightarrow>
          let fp = fingerprint sha body in
          (case idem_get ops t1 (ctx_tenant rq) key m of
             (Inr (Some e), m1) \<Rightarrow>
               if en_fingerprint e \<noteq> fp
               then answer (conflict ''idempotency-key reused with a different body'') (m1, s)
               else ((replay_acts e, False), (m1, s))
           | (_, m1) \<Rightarrow>
               (case next rq h s of ((acts, panicked), s') \<Rightarrow>
                  let c = fold capture_step acts new_capture in
                  if panicked then ((cap_out c, True), (m1, s'))
                  else if 200 \<le> cap_status c \<and> cap_status c < 300 then
                    ((cap_out c, False),
                     (idem_put ops (ctx_tenant rq) key
                        \<lparr>en_status = cap_status c,
                         en_content_type = header_get (headers_after h (cap_out c)) ''Content-Type'',
                         en_body = cap_buf c, en_fingerprint = fp, en_stored = t2, en_expires = t2 + ttl\<rparr> m1, s'))
                  else ((cap_out c, False), (m1, s')))))"

subsection \<open>The in-memory store\<close>

record memory_store =
  mem_entries :: "(string \<times> entry) list"
  max_items :: nat

definition new_memory_store :: "int \<Rightarrow> memory_store" where
  "new_memory_store n = \<lparr>mem_entries = [], max_items = nat (if n \<le> 0 then 10000 else n)\<rparr>"

definition mem_key :: "string \<Rightarrow> string \<Rightarrow> string" where
  "mem_key tenant key = tenant @ ''|'' @ key"

definition mem_get :: "time \<Rightarrow> string \<Rightarrow> string \<Rightarrow> memory_store \<Rightarrow> (string + entry option) \<times> memory_store" where
  "mem_get now tenant key m =
     (case map_of (mem_entries m) (mem_key tenant key) of
        None \<Rightarrow> (Inr None, m)
      | Some e \<Rightarrow>
          if en_expires e < now
          then (Inr None, m\<lparr>mem_entries := AList.delete (mem_key tenant key) (mem_entries m)\<rparr>)
          else (Inr (Some e), m))"

fun victim_loop :: "(string \<times> entry) list \<Rightarrow> string \<Rightarrow> time \<Rightarrow> string" where
  "victim_loop [] victim oldest = victim"
| "victim_loop ((k, v) # es) victim oldest =
     (if victim = [] \<or> en_expires v < oldest then victim_loop es k (en_expires v) else victim_loop es victim oldest)"

definition evict_one :: "memory_store \<Rightarrow> memory_store" where
  "evict_one m =
     (let victim = victim_loop (mem_entries m) [] 0 in
      if victim \<noteq> [] then m\<lparr>mem_entries := AList.delete victim (mem_entries m)\<rparr> else m)"

definition mem_put :: "string \<Rightarrow> string \<Rightarrow> entry \<Rightarrow> memory_store \<Rightarrow> memory_store" where
  "mem_put tenant key e m =
     (let m1 = (if max_items m \<le> length (mem_entries m) then evict_one m else m) in
      m1\<lparr>mem_entries := AList.update (mem_key tenant key) e (mem_entries m1)\<rparr>)"

definition memory_ops :: "memory_store idem_ops" where
  "memory_ops = \<lparr>idem_get = mem_get, idem_put = mem_put\<rparr>"

subsection \<open>CORS, tenant, authorization\<close>

definition cors :: "string list \<Rightarrow> 's handler \<Rightarrow> 's handler" where
  "cors allowed next rq h s =
     (let origin = header_get (rq_headers rq) ''Origin'';
          asked = header_get (rq_headers rq) ''Access-Control-Request-Headers'';
          acts =
            (if origin \<noteq> [] \<and> (''*'' \<in> set allowed \<or> origin \<in> set allowed)
             then [SetHeader ''Access-Control-Allow-Origin'' origin, SetHeader ''Vary'' ''Origin''] else []) @
            [SetHeader ''Access-Control-Allow-Credentials'' ''true'',
             SetHeader ''Access-Control-Allow-Methods'' ''GET, POST, PUT, PATCH, DELETE, OPTIONS'',
             SetHeader ''Access-Control-Allow-Headers''
               (if asked = [] then ''Accept, Content-Type, Authorization, X-Tenant-Id, X-Aegis-Tenant, Idempotency-Key, X-Request-Id''
                else asked),
             SetHeader ''Access-Control-Expose-Headers'' ''X-Request-Id, Idempotent-Replay'',
             SetHeader ''Access-Control-Max-Age'' ''600'']
      in if rq_method rq = ''OPTIONS'' then ((acts @ [WriteHeader 204], False), s)
         else before acts next rq h s)"

definition tenant_from_header :: "'s handler \<Rightarrow> 's handler" where
  "tenant_from_header next rq h s =
     (let t = tenant_header (rq_headers rq) in
      if t = [] then answer (unauthorized ''X-Tenant-Id is required'') s
      else next (rq\<lparr>ctx_tenant := t\<rparr>) h s)"

record authz_input =
  az_tenant :: string
  az_method :: string
  az_path :: string
  az_action :: string

definition action_from_method :: "string \<Rightarrow> string" where
  "action_from_method m =
     (if m = ''GET'' \<or> m = ''HEAD'' then ''read'' else if m = ''POST'' then ''create''
      else if m = ''PUT'' \<or> m = ''PATCH'' then ''update'' else if m = ''DELETE'' then ''delete'' else ''unknown'')"

datatype authz_answer = Decided bool | EngineUnavailable | DeciderError

definition authz :: "(authz_input \<Rightarrow> authz_answer) \<Rightarrow> 's handler \<Rightarrow> 's handler" where
  "authz decider next rq h s =
     (case decider \<lparr>az_tenant = ctx_tenant rq, az_method = rq_method rq, az_path = rq_path rq,
              az_action = action_from_method (rq_method rq)\<rparr> of
        EngineUnavailable \<Rightarrow> answer (service_unavailable ''authorization engine unavailable'') s
      | DeciderError \<Rightarrow> answer (forbidden ''authorization decision error'') s
      | Decided ok \<Rightarrow> if \<not> ok then answer (forbidden ''not allowed'') s else next rq h s)"

subsection \<open>Rate limiting (middleware/ratelimit.go)\<close>

record rl_entry =
  rl_count :: int
  rl_expire :: time

type_synonym rl_store = "(string \<times> rl_entry) list"

definition incr_and_check :: "duration \<Rightarrow> time \<Rightarrow> time \<Rightarrow> string \<Rightarrow> string \<Rightarrow> rl_store \<Rightarrow> (int \<times> duration) \<times> rl_store" where
  "incr_and_check window now now2 tenant metric st =
     (let key = tenant @ '':'' @ metric;
          e = (case map_of st key of
                 None \<Rightarrow> \<lparr>rl_count = 0, rl_expire = now + window\<rparr>
               | Some e \<Rightarrow> if rl_expire e < now then \<lparr>rl_count = 0, rl_expire = now + window\<rparr> else e);
          e1 = e\<lparr>rl_count := i64 (rl_count e + 1)\<rparr> in
      ((rl_count e1, rl_expire e1 - now2), AList.update key e1 st))"

text \<open>
  \<open>int(resetIn.Seconds())\<close> truncates a float64, which is exact to the second for windows below 48 days.
\<close>

definition whole_seconds :: "duration \<Rightarrow> int" where
  "whole_seconds d = (if 0 \<le> d then d div second else - ((- d) div second))"

text \<open>\<open>quota\<close> is the provider: None when it fails. The state is that of the counters and the handler's.\<close>

definition rate_limit :: "(string \<Rightarrow> string \<Rightarrow> int option) \<Rightarrow> string \<Rightarrow> duration \<Rightarrow> time \<Rightarrow> time
    \<Rightarrow> 's handler \<Rightarrow> (rl_store \<times> 's) handler" where
  "rate_limit quota metric window0 now now2 next rq h ms =
     (case ms of (st, s) \<Rightarrow>
      let window = (if window0 = 0 then minute else window0);
          pass = (\<lambda>acts st. case before acts next rq h s of (r, s') \<Rightarrow> (r, (st, s'))) in
      if ctx_tenant rq = [] then pass [] st
      else case quota (ctx_tenant rq) metric of
        None \<Rightarrow> pass [] st
      | Some limit \<Rightarrow>
          if limit \<le> 0 then pass [] st
          else case incr_and_check window now now2 (ctx_tenant rq) metric st of
            ((used, reset), st') \<Rightarrow>
              if limit < used then
                (([SetHeader ''Retry-After'' (print_int (whole_seconds reset + 1)),
                   SetHeader ''X-RateLimit-Limit'' (print_int limit),
                   SetHeader ''X-RateLimit-Remaining'' ''0''] @
                  problem_write (too_many_requests ''tenant quota exceeded''), False), (st', s))
              else pass [SetHeader ''X-RateLimit-Limit'' (print_int limit),
                         SetHeader ''X-RateLimit-Remaining'' (print_int (limit - used))] st')"

subsection \<open>What the client of an idempotent endpoint sees\<close>

text \<open>
  The status and the body that the capturing writer stores are those the server sends, if the handler
  sends no informational status.
\<close>

definition mirrors :: "capture \<Rightarrow> writer \<Rightarrow> bool" where
  "mirrors c w \<longleftrightarrow>
     (if cap_wrote c then map_option fst (wr_sent w) = Some (cap_status c) \<and>
        wr_body w = (if body_allowed (cap_status c) then cap_buf c else [])
      else wr_sent w = None \<and> cap_status c = 200 \<and> wr_body w = [] \<and> cap_buf c = [])"

lemma mirrors_step:
  "mirrors c w \<Longrightarrow> (\<And>code. a = WriteHeader code \<Longrightarrow> \<not> cap_wrote c \<Longrightarrow> 200 \<le> code) \<Longrightarrow>
   \<exists>new. cap_out (capture_step a c) = cap_out c @ new \<and> mirrors (capture_step a c) (fold writer_step new w)"
  by (cases a; cases "cap_wrote c")
    (auto simp: mirrors_def forward_def send_header_def body_allowed_def Let_def split: option.splits if_splits)

lemma capture_mirrors:
  "\<forall>code. WriteHeader code \<in> set (cap_out (fold capture_step acts new_capture)) \<longrightarrow> 200 \<le> code \<Longrightarrow>
   mirrors (fold capture_step acts new_capture) (fold writer_step (cap_out (fold capture_step acts new_capture)) (new_writer h))"
proof (induction acts rule: rev_induct)
  case Nil
  show ?case by (simp add: mirrors_def new_capture_def new_writer_def)
next
  case (snoc a acts)
  let ?c = "fold capture_step acts new_capture"
  have "set (cap_out ?c) \<subseteq> set (cap_out (capture_step a ?c))" by (cases a) (auto simp: forward_def)
  then have IH: "mirrors ?c (fold writer_step (cap_out ?c) (new_writer h))"
    by (intro snoc.IH) (use snoc.prems in auto)
  have "200 \<le> code" if "a = WriteHeader code" "\<not> cap_wrote ?c" for code
    using snoc.prems that by (simp add: forward_def)
  then show ?case using mirrors_step [OF IH, of a] by auto
qed

lemma capture_response:
  assumes "c = fold capture_step acts new_capture" "\<forall>code. WriteHeader code \<in> set (cap_out c) \<longrightarrow> 200 \<le> code"
  shows "rs_status (respond h (cap_out c)) = cap_status c"
    "rs_body (respond h (cap_out c)) = (if body_allowed (cap_status c) then cap_buf c else [])"
  using capture_mirrors [of acts h] assms
  by (auto simp: mirrors_def respond_def finish_def send_header_def Let_def split: option.splits if_splits)

lemma capture_status_ok:
  assumes "c = fold capture_step acts new_capture" "\<forall>code. WriteHeader code \<in> set (cap_out c) \<longrightarrow> 200 \<le> code"
  shows "200 \<le> cap_status c"
proof -
  have "cap_status (fold capture_step as c0) = cap_status c0 \<or>
      WriteHeader (cap_status (fold capture_step as c0)) \<in> set (cap_out (fold capture_step as c0))" for as c0
  proof (induction as rule: rev_induct)
    case (snoc a as)
    then show ?case by (cases a) (auto simp: forward_def)
  qed simp
  from this [where as = acts and ?c0.0 = new_capture] show ?thesis using assms by (auto simp: new_capture_def)
qed

lemma fold_write_body:
  "wr_sent w = Some (c, h0) \<Longrightarrow> fold writer_step (map Write bs) w =
     (if body_allowed c then w\<lparr>wr_body := wr_body w @ bs\<rparr> else w)"
  by (induction bs arbitrary: w) (auto simp: send_header_def Let_def)

lemma replay_response:
  assumes "200 \<le> en_status e"
  shows "rs_status (respond h (replay_acts e)) = en_status e"
    "rs_body (respond h (replay_acts e)) = (if body_allowed (en_status e) then en_body e else [])"
    "header_get (rs_headers (respond h (replay_acts e))) ''Idempotent-Replay'' = ''true''"
    "en_content_type e \<noteq> [] \<Longrightarrow>
       header_get (rs_headers (respond h (replay_acts e))) ''Content-Type'' = en_content_type e"
  using assms
  by (simp_all add: respond_def replay_acts_def finish_def send_header_def Let_def fold_write_body
      new_writer_def header_get_def)

subsection \<open>Requests in flight\<close>

text \<open>
  Each request has its own goroutine, so a request is three steps, between which those of other requests may come: the lookup, the handler
  with the writer that captures its answer, and the insertion of what was captured. The handler is one step.
\<close>

datatype idem_verdict = IdAnswer "writer_act list" | IdPlain | IdKeyed string string

definition idem_begin :: "'m idem_ops \<Rightarrow> (string \<Rightarrow> string) \<Rightarrow> time \<Rightarrow> request \<Rightarrow> 'm \<Rightarrow> idem_verdict \<times> 'm" where
  "idem_begin ops sha t1 rq m =
     (let key = header_get (rq_headers rq) ''Idempotency-Key'' in
      if \<not> is_mutating (rq_method rq) \<or> key = [] then (IdPlain, m)
      else case rq_body rq of
        None \<Rightarrow> (IdAnswer (problem_write (bad_request ''could not read request body'')), m)
      | Some body \<Rightarrow>
          (case idem_get ops t1 (ctx_tenant rq) key m of
             (Inr (Some e), m1) \<Rightarrow>
               (IdAnswer (if en_fingerprint e \<noteq> fingerprint sha body
                  then problem_write (conflict ''idempotency-key reused with a different body'') else replay_acts e), m1)
           | (_, m1) \<Rightarrow> (IdKeyed key (fingerprint sha body), m1)))"

text \<open>A request in flight: before its handler, or with a captured answer to insert under its key.\<close>

datatype idem_job = InHandler request headers idem_verdict | ToStore request headers string string capture

definition idem_ran :: "request \<Rightarrow> headers \<Rightarrow> idem_verdict \<Rightarrow> writer_act list \<Rightarrow> bool \<Rightarrow> idem_job option" where
  "idem_ran rq h v acts panicked =
     (case v of
        IdKeyed key fp \<Rightarrow>
          let c = fold capture_step acts new_capture in
          if \<not> panicked \<and> 200 \<le> cap_status c \<and> cap_status c < 300 then Some (ToStore rq h key fp c) else None
      | _ \<Rightarrow> None)"

definition idem_entry :: "duration \<Rightarrow> time \<Rightarrow> headers \<Rightarrow> string \<Rightarrow> capture \<Rightarrow> entry" where
  "idem_entry ttl0 t2 h fp c =
     \<lparr>en_status = cap_status c, en_content_type = header_get (headers_after h (cap_out c)) ''Content-Type'',
      en_body = cap_buf c, en_fingerprint = fp, en_stored = t2, en_expires = t2 + (if ttl0 \<le> 0 then 24 * hour else ttl0)\<rparr>"

text \<open>The steps name the request by a number. A step that is not the request's next one does nothing.\<close>

datatype idem_event = IdBegin nat request headers time | IdRun nat | IdStore nat time

type_synonym ('m, 's) idem_world = "'m \<times> 's \<times> (nat \<Rightarrow> idem_job option)"

fun idem_step :: "'m idem_ops \<Rightarrow> (string \<Rightarrow> string) \<Rightarrow> duration \<Rightarrow> 's handler \<Rightarrow> idem_event \<Rightarrow> ('m, 's) idem_world \<Rightarrow> ('m, 's) idem_world" where
  "idem_step ops sha ttl next (IdBegin n rq h t) (m, s, js) =
     (if js n \<noteq> None then (m, s, js)
      else case idem_begin ops sha t rq m of
        (IdAnswer _, m1) \<Rightarrow> (m1, s, js)
      | (v, m1) \<Rightarrow> (m1, s, js(n \<mapsto> InHandler rq h v)))"
| "idem_step ops sha ttl next (IdRun n) (m, s, js) =
     (case js n of
        Some (InHandler rq h v) \<Rightarrow> (case next rq h s of ((acts, p), s1) \<Rightarrow> (m, s1, js(n := idem_ran rq h v acts p)))
      | _ \<Rightarrow> (m, s, js))"
| "idem_step ops sha ttl next (IdStore n t) (m, s, js) =
     (case js n of
        Some (ToStore rq h key fp c) \<Rightarrow> (idem_put ops (ctx_tenant rq) key (idem_entry ttl t h fp c) m, s, js(n := None))
      | _ \<Rightarrow> (m, s, js))"

text \<open>A request whose steps no other comes between is the middleware's function.\<close>

lemma steps_are_request:
  "case fold (idem_step ops sha ttl next) [IdBegin n rq h t1, IdRun n, IdStore n t2] (m, s, (\<lambda>_. None)) of
     (m', s', js) \<Rightarrow> snd (idempotency ops sha ttl t1 t2 next rq h (m, s)) = (m', s') \<and> js = (\<lambda>_. None)"
proof -
  obtain acts p s' where n: "next rq h s = ((acts, p), s')" by (metis surj_pair)
  obtain g m1 where g: "idem_get ops t1 (ctx_tenant rq) (header_get (rq_headers rq) ''Idempotency-Key'') m = (g, m1)" by (metis surj_pair)
  show ?thesis
    by (cases "rq_body rq"; cases g)
      (auto simp: idempotency_def idem_begin_def idem_ran_def idem_entry_def answer_def n g fun_eq_iff Let_def split: option.split)
qed

subsection \<open>The contract of an idempotency store\<close>

text \<open>
  What the middleware relies on: entries are kept in slots, which several (tenant, key) pairs may share; a lookup gives the live entry of
  the slot and loses none, an entry is live until it expires, and an insertion into another slot loses no entry while there is room.
\<close>

definition store_events :: "idem_event list \<Rightarrow> nat" where
  "store_events es = length (filter (\<lambda>e. case e of IdStore n t \<Rightarrow> True | _ \<Rightarrow> False) es)"

definition begins_by :: "time \<Rightarrow> idem_event \<Rightarrow> bool" where
  "begins_by T e = (case e of IdBegin n rq h t \<Rightarrow> t \<le> T | _ \<Rightarrow> True)"

text \<open>The slot a request in flight will insert into.\<close>

fun job_slot :: "(string \<Rightarrow> string \<Rightarrow> string) \<Rightarrow> idem_job \<Rightarrow> string option" where
  "job_slot slot (InHandler rq h (IdKeyed key fp)) = Some (slot (ctx_tenant rq) key)"
| "job_slot slot (InHandler rq h _) = None"
| "job_slot slot (ToStore rq h key fp c) = Some (slot (ctx_tenant rq) key)"

definition no_job :: "(string \<Rightarrow> string \<Rightarrow> string) \<Rightarrow> string \<Rightarrow> (nat \<Rightarrow> idem_job option) \<Rightarrow> bool" where
  "no_job slot k js \<longleftrightarrow> (\<forall>n j. js n = Some j \<longrightarrow> job_slot slot j \<noteq> Some k)"

lemma no_job_upd: "no_job slot k js \<Longrightarrow> (\<And>j. x = Some j \<Longrightarrow> job_slot slot j \<noteq> Some k) \<Longrightarrow> no_job slot k (js(n := x))"
  by (simp add: no_job_def)

locale idem_store =
  fixes ops :: "'m idem_ops"
    and live :: "'m \<Rightarrow> string \<Rightarrow> string \<Rightarrow> time \<Rightarrow> entry option"
    and room :: "'m \<Rightarrow> nat"
    and slot :: "string \<Rightarrow> string \<Rightarrow> string"
  assumes get_live: "fst (idem_get ops t tenant key m) = Inr (live m tenant key t)"
    and get_keeps: "live m tenant' key' t' = Some e \<Longrightarrow> t \<le> t' \<Longrightarrow>
      live (snd (idem_get ops t tenant key m)) tenant' key' t' = Some e"
    and get_room: "room m \<le> room (snd (idem_get ops t tenant key m))"
    and live_slot: "slot tenant key = slot tenant' key' \<Longrightarrow> live m tenant key t = live m tenant' key' t"
    and live_before: "live m tenant key t' = Some e \<Longrightarrow> t \<le> t' \<Longrightarrow> live m tenant key t = Some e"
    and put_live: "t \<le> en_expires e \<Longrightarrow> live (idem_put ops tenant key e m) tenant key t = Some e"
    and put_keeps: "0 < room m \<Longrightarrow> slot tenant key \<noteq> slot tenant' key' \<Longrightarrow>
      live m tenant' key' t' = Some e' \<Longrightarrow> live (idem_put ops tenant key e m) tenant' key' t' = Some e'"
    and put_room: "room m \<le> Suc (room (idem_put ops tenant key e m))"
begin

text \<open>With a live entry in its slot a request is answered without the handler.\<close>

lemma begin_keeps:
  assumes "live m tenant key T = Some e" "t \<le> T" "idem_begin ops sha t rq m = (v, m1)"
  shows "live m1 tenant key T = Some e" "room m \<le> room m1" "v = IdKeyed key' fp \<Longrightarrow> slot (ctx_tenant rq) key' \<noteq> slot tenant key"
proof -
  let ?k = "header_get (rq_headers rq) ''Idempotency-Key''"
  obtain m0 where g: "idem_get ops t (ctx_tenant rq) ?k m = (Inr (live m (ctx_tenant rq) ?k t), m0)"
    using get_live by (metis prod.collapse)
  then have m0: "m0 = snd (idem_get ops t (ctx_tenant rq) ?k m)" by simp
  have m1: "m1 = m \<or> m1 = m0"
    using assms(3) by (auto simp: idem_begin_def g Let_def split: if_splits option.splits)
  have "live m0 tenant key T = Some e" "room m \<le> room m0"
    using get_keeps [OF assms(1,2)] get_room unfolding m0 by simp_all
  then show "live m1 tenant key T = Some e" "room m \<le> room m1" using m1 assms(1) by auto
  show "slot (ctx_tenant rq) key' \<noteq> slot tenant key" if v: "v = IdKeyed key' fp"
  proof
    assume s: "slot (ctx_tenant rq) key' = slot tenant key"
    have k: "key' = ?k" "live m (ctx_tenant rq) ?k t = None"
      using assms(3) v by (auto simp: idem_begin_def g Let_def split: if_splits option.splits)
    then show False using live_slot [OF s, of m t] live_before [OF assms(1,2)] by simp
  qed
qed

lemma step_keeps:
  assumes "live m tenant key T = Some e" "no_job slot (slot tenant key) js" "begins_by T x"
    "store_events [x] \<le> room m" "idem_step ops sha ttl next x (m, s, js) = (m', s', js')"
  shows "live m' tenant key T = Some e \<and> no_job slot (slot tenant key) js' \<and> room m \<le> room m' + store_events [x]"
proof (cases x)
  case (IdBegin n rq h t)
  obtain v m1 where b: "idem_begin ops sha t rq m = (v, m1)" by (metis surj_pair)
  have k: "live m1 tenant key T = Some e" "room m \<le> room m1" "\<And>key' fp. v = IdKeyed key' fp \<Longrightarrow> slot (ctx_tenant rq) key' \<noteq> slot tenant key"
    using begin_keeps [OF assms(1) _ b] assms(3) IdBegin by (auto simp: begins_by_def)
  have "no_job slot (slot tenant key) (js(n \<mapsto> InHandler rq h v))"
    using k(3) by (intro no_job_upd [OF assms(2)]) (cases v; auto)
  then show ?thesis
    using assms(1,2,5) k(1,2) by (cases v) (auto simp: IdBegin b split: if_splits)
next
  case (IdRun n)
  show ?thesis
  proof (cases "\<exists>rq h v. js n = Some (InHandler rq h v)")
    case True
    then obtain rq h v acts p s1 where r: "js n = Some (InHandler rq h v)" "next rq h s = ((acts, p), s1)" by (metis surj_pair)
    have "job_slot slot (InHandler rq h v) \<noteq> Some (slot tenant key)" using assms(2) r(1) unfolding no_job_def by blast
    then have "no_job slot (slot tenant key) (js(n := idem_ran rq h v acts p))"
      by (intro no_job_upd [OF assms(2)]) (auto simp: idem_ran_def Let_def split: idem_verdict.splits if_splits)
    then show ?thesis using assms(1,5) by (auto simp: IdRun r)
  next
    case False
    then have "m' = m \<and> js' = js" using assms(5) by (auto simp: IdRun split: option.splits idem_job.splits)
    then show ?thesis using assms(1,2) by simp
  qed
next
  case (IdStore n t)
  show ?thesis
  proof (cases "\<exists>rq h k fp c. js n = Some (ToStore rq h k fp c)")
    case True
    then obtain rq h k fp c where r: "js n = Some (ToStore rq h k fp c)" by blast
    have o: "job_slot slot (ToStore rq h k fp c) \<noteq> Some (slot tenant key)" using assms(2) r unfolding no_job_def by blast
    have rm: "0 < room m" "store_events [x] = 1" using assms(4) by (auto simp: IdStore store_events_def)
    have m': "m' = idem_put ops (ctx_tenant rq) k (idem_entry ttl t h fp c) m" "js' = js(n := None)"
      using assms(5) by (auto simp: IdStore r)
    have "no_job slot (slot tenant key) js'" unfolding m' by (intro no_job_upd [OF assms(2)]) simp
    then show ?thesis
      using put_keeps [OF rm(1) _ assms(1)] put_room o rm(2) by (simp add: m')
  next
    case False
    then have "m' = m \<and> js' = js" using assms(5) by (auto simp: IdStore split: option.splits idem_job.splits)
    then show ?thesis using assms(1,2) by simp
  qed
qed

lemma steps_keep:
  "live m tenant key T = Some e \<Longrightarrow> no_job slot (slot tenant key) js \<Longrightarrow> \<forall>x \<in> set es. begins_by T x \<Longrightarrow> store_events es \<le> room m \<Longrightarrow>
   fold (idem_step ops sha ttl next) es (m, s, js) = (m', s', js') \<Longrightarrow>
   live m' tenant key T = Some e \<and> no_job slot (slot tenant key) js'"
proof (induction es arbitrary: m s js)
  case (Cons x es)
  obtain m1 s1 js1 where x: "idem_step ops sha ttl next x (m, s, js) = (m1, s1, js1)" by (metis prod_cases3)
  have st: "store_events (x # es) = store_events [x] + store_events es" by (simp add: store_events_def)
  have "live m1 tenant key T = Some e \<and> no_job slot (slot tenant key) js1 \<and> room m \<le> room m1 + store_events [x]"
    using step_keeps [OF Cons.prems(1,2) _ _ x] Cons.prems(3,4) st by simp
  then show ?case using Cons.IH [of m1 js1 s1] Cons.prems(3-5) st x by simp
qed simp

lemma stored_is_live:
  assumes "c = fold capture_step acts new_capture" "\<forall>code. WriteHeader code \<in> set (cap_out c) \<longrightarrow> 200 \<le> code"
    "T \<le> t2 + (if ttl \<le> 0 then 24 * hour else ttl)"
  shows "\<exists>e. live (idem_put ops tenant key (idem_entry ttl t2 h fp c) m) tenant key T = Some e \<and> en_fingerprint e = fp \<and>
     en_status e = rs_status (respond h (cap_out c)) \<and> (if body_allowed (en_status e) then en_body e else []) = rs_body (respond h (cap_out c))"
  using put_live [of T "idem_entry ttl t2 h fp c" tenant key m] capture_response [OF assms(1,2), of h] assms(3)
  by (simp add: idem_entry_def)

lemma live_is_replayed:
  assumes "is_mutating (rq_method rq)" "header_get (rq_headers rq) ''Idempotency-Key'' = key" "key \<noteq> []"
    "rq_body rq = Some body" "live m (ctx_tenant rq) key t1 = Some e"
  shows "fst (idempotency ops sha ttl t1 t2 next rq h (m, s)) =
      (if en_fingerprint e = fingerprint sha body then (replay_acts e, False)
       else (problem_write (conflict ''idempotency-key reused with a different body''), False))"
    "snd (snd (idempotency ops sha ttl t1 t2 next rq h (m, s))) = s"
  using assms get_live [of t1 "ctx_tenant rq" key m]
  by (cases "idem_get ops t1 (ctx_tenant rq) key m"; simp add: idempotency_def answer_def Let_def)+

end

subsection \<open>The in-memory store keeps the contract\<close>

definition mem_live :: "memory_store \<Rightarrow> string \<Rightarrow> string \<Rightarrow> time \<Rightarrow> entry option" where
  "mem_live m tenant key t =
     (case map_of (mem_entries m) (mem_key tenant key) of
        None \<Rightarrow> None | Some e \<Rightarrow> if en_expires e < t then None else Some e)"

definition mem_room :: "memory_store \<Rightarrow> nat" where
  "mem_room m = max_items m - length (mem_entries m)"

lemma length_alist_delete: "length (AList.delete k m) \<le> length m"
  by (induction m) auto

lemma length_alist_update: "length (AList.update k v m) \<le> Suc (length m)"
  by (induction m) auto

interpretation mem: idem_store memory_ops mem_live mem_room mem_key
proof
  show "fst (idem_get memory_ops t tenant key m) = Inr (mem_live m tenant key t)" for t tenant key m
    by (auto simp: memory_ops_def mem_get_def mem_live_def split: option.splits)
  show "mem_room m \<le> mem_room (snd (idem_get memory_ops t tenant key m))" for m t tenant key
    by (auto simp: memory_ops_def mem_get_def mem_room_def split: option.splits
        intro: diff_le_mono2 length_alist_delete)
  show "mem_room m \<le> Suc (mem_room (idem_put memory_ops tenant key e m))" for m tenant key e
    using length_alist_update [of "mem_key tenant key" e "mem_entries m"]
    by (cases "max_items m \<le> length (mem_entries m)") (auto simp: memory_ops_def mem_put_def mem_room_def Let_def)
qed (auto simp: memory_ops_def mem_get_def mem_put_def mem_live_def mem_room_def Let_def
    split: option.splits if_splits)

subsection \<open>Rate limiting windows\<close>

text \<open>The requests of one tenant at the given instants: the counts the store gives, with the window's end.\<close>

fun rl_trace :: "duration \<Rightarrow> string \<Rightarrow> string \<Rightarrow> time list \<Rightarrow> rl_store \<Rightarrow> (time \<times> int \<times> time) list" where
  "rl_trace window tenant metric [] st = []"
| "rl_trace window tenant metric (t # ts) st =
     (case incr_and_check window t t tenant metric st of
        ((used, reset), st') \<Rightarrow> (t, used, t + reset) # rl_trace window tenant metric ts st')"

definition admitted :: "int \<Rightarrow> (time \<times> int \<times> time) list \<Rightarrow> (time \<times> int \<times> time) list" where
  "admitted limit tr = filter (\<lambda>(t, used, e). used \<le> limit) tr"

text \<open>
  The windows of a trace: the first request of a window has count 1 and comes later than the end of the
  window before, the others count on in the same window.
\<close>

fun windows_from :: "duration \<Rightarrow> int \<Rightarrow> time \<Rightarrow> (time \<times> int \<times> time) list \<Rightarrow> bool" where
  "windows_from w n e [] = True"
| "windows_from w n e ((t, used, e') # tr) =
     ((if t \<le> e then used = n + 1 \<and> e' = e else used = 1 \<and> e' = t + w) \<and> windows_from w used e' tr)"

lemma rl_trace_windows:
  "map_of st (tenant @ '':'' @ metric) = Some \<lparr>rl_count = n, rl_expire = e\<rparr> \<Longrightarrow>
   0 \<le> n \<Longrightarrow> in_i64 (n + int (length ts)) \<Longrightarrow> windows_from w n e (rl_trace w tenant metric ts st)"
proof (induction ts arbitrary: st n e)
  case (Cons t ts)
  have r: "in_i64 (n + 1)" "in_i64 1" "in_i64 (1 + int (length ts))" "in_i64 (n + 1 + int (length ts))"
    using Cons.prems(2,3) by (auto simp: in_i64_def)
  show ?case
  proof (cases "e < t")
    case True
    then show ?thesis
      using Cons.prems r by (simp add: incr_and_check_def Let_def Cons.IH)
  next
    case False
    then show ?thesis
      using Cons.prems r by (simp add: incr_and_check_def Let_def Cons.IH)
  qed
qed simp

text \<open>
  At most \<open>limit\<close> requests are admitted in what is left of the current window, and at most \<open>limit\<close> in each
  later one; a window that starts at \<open>u\<close> or later ends after \<open>u + w\<close>.
\<close>

lemma window_count:
  assumes "windows_from w n e tr" "sorted (map fst tr)" "0 \<le> n" "0 \<le> limit"
  shows "int (length (filter (\<lambda>(t, used, e'). used \<le> limit \<and> t \<le> e) tr)) \<le> max 0 (limit - n)"
  using assms
proof (induction tr arbitrary: n)
  case (Cons x tr)
  obtain t used e' where x: "x = (t, used, e')" by (cases x)
  show ?case
  proof (cases "t \<le> e")
    case True
    then have "windows_from w (n + 1) e tr" "used = n + 1" using Cons.prems(1) x by auto
    then show ?thesis using Cons.IH [of "n + 1"] Cons.prems True x by auto
  next
    case False
    then have "\<forall>y \<in> set (x # tr). e < fst y" using Cons.prems(2) x by auto
    then have none: "filter (\<lambda>(t, used, e'). used \<le> limit \<and> t \<le> e) (x # tr) = []" by (fastforce simp: filter_empty_conv)
    show ?thesis unfolding none by simp
  qed
qed simp

lemma window_admits:
  assumes "windows_from w n e tr" "sorted (map fst tr)" "0 \<le> n" "0 \<le> limit" "0 \<le> w"
  shows "int (length (filter (\<lambda>(t, used, e'). used \<le> limit \<and> t \<le> u + w) (filter (\<lambda>(t, _). u \<le> t) tr))) \<le>
    (if e < u then 2 * limit else max 0 (limit - n) + limit)"
  using assms
proof (induction tr arbitrary: n e)
  case (Cons x tr)
  obtain t used e' where x: "x = (t, used, e')" by (cases x)
  let ?F = "\<lambda>tr. filter (\<lambda>(t, used, e'). used \<le> limit \<and> t \<le> u + w) (filter (\<lambda>(t, _). u \<le> t) tr)"
  have wf: "windows_from w used e' tr" "sorted (map fst tr)" "0 \<le> used" using Cons.prems x by (auto split: if_splits)
  have tr: "\<forall>y \<in> set tr. t \<le> fst y" using Cons.prems(2) x by auto
  show ?case
  proof (cases "t < u")
    case True
    then have F: "?F (x # tr) = ?F tr" by (simp add: x)
    show ?thesis
      unfolding F using Cons.IH [OF wf(1-3) Cons.prems(4,5)] Cons.prems(1,4) True x by (auto split: if_splits)
  next
    case u: False
    show ?thesis
    proof (cases "t \<le> e")
      case True
      then have s: "used = n + 1" "e' = e" using Cons.prems(1) x by auto
      have "int (length (?F tr)) \<le> max 0 (limit - used) + limit"
        using Cons.IH [OF wf(1-3) Cons.prems(4,5)] s True u by auto
      then show ?thesis using True u s x Cons.prems(3,4) by auto
    next
      case False
      then have s: "used = 1" "e' = t + w" using Cons.prems(1) x by auto
      have "length (?F tr) \<le> length (filter (\<lambda>(t, used, e''). used \<le> limit \<and> t \<le> e') tr)"
        using s u by (induction tr) auto
      also have "int \<dots> \<le> max 0 (limit - 1)"
        using window_count [OF wf(1,2,3) Cons.prems(4)] s by simp
      finally show ?thesis using x s Cons.prems(4) by (auto split: if_splits)
    qed
  qed
qed (use assms(4) in auto)


text \<open>The limiter in front of a handler that counts its calls: when the requests come and which are passed on.\<close>

fun limited :: "(string \<Rightarrow> string \<Rightarrow> int option) \<Rightarrow> string \<Rightarrow> duration \<Rightarrow> request \<Rightarrow> time list \<Rightarrow> rl_store \<Rightarrow> (time \<times> bool) list" where
  "limited quota metric window rq [] st = []"
| "limited quota metric window rq (t # ts) st =
     (case rate_limit quota metric window t t (\<lambda>_ _ n. (([], False), Suc n)) rq [] (st, 0) of
        (_, (st', n)) \<Rightarrow> (t, n = 1) # limited quota metric window rq ts st')"

lemma limited_trace:
  "ctx_tenant rq \<noteq> [] \<Longrightarrow> quota (ctx_tenant rq) metric = Some limit \<Longrightarrow> 0 < limit \<Longrightarrow> 0 < window \<Longrightarrow>
   limited quota metric window rq ts st =
     map (\<lambda>(t, used, e). (t, used \<le> limit)) (rl_trace window (ctx_tenant rq) metric ts st)"
  by (induction ts arbitrary: st)
    (auto simp: rate_limit_def before_def Let_def split: prod.splits)

subsection \<open>Properties\<close>

text \<open>
  C40: the rate limiter passes at most \<open>limit\<close> requests of a tenant to the handler in each of its
  windows, so at most \<open>2 * limit\<close> in any interval of the window's length, however the requests arrive.
\<close>

theorem limiter_admits_at_most:
  assumes "ctx_tenant rq \<noteq> []" "quota (ctx_tenant rq) metric = Some limit" "0 < limit" "0 < window"
    "sorted ts" "length ts < 2 ^ 62"
  shows "int (length (filter (\<lambda>(t, passed). passed \<and> u \<le> t \<and> t \<le> u + window)
      (limited quota metric window rq ts []))) \<le> 2 * limit"
proof (cases ts)
  case (Cons t0 ts')
  let ?tr = "rl_trace window (ctx_tenant rq) metric ts []"
  have times: "map fst (rl_trace window tenant metric xs st) = xs" for tenant xs st
    by (induction xs arbitrary: st) (simp_all add: incr_and_check_def Let_def)
  have i: "in_i64 1" "in_i64 (1 + int (length ts'))" using assms(6) Cons by (auto simp: in_i64_def)
  have "windows_from window 0 (t0 - 1) ?tr"
    using i by (simp add: Cons incr_and_check_def Let_def rl_trace_windows)
  from window_admits [OF this, of limit u] assms(3-5)
  have b: "int (length (filter (\<lambda>(t, used, e'). used \<le> limit \<and> t \<le> u + window) (filter (\<lambda>(t, _). u \<le> t) ?tr))) \<le> 2 * limit"
    by (simp add: times split: if_splits)
  have "length (filter (\<lambda>(t, passed). passed \<and> u \<le> t \<and> t \<le> u + window) (map (\<lambda>(t, used, e). (t, used \<le> limit)) tr)) =
      length (filter (\<lambda>(t, used, e'). used \<le> limit \<and> t \<le> u + window) (filter (\<lambda>(t, _). u \<le> t) tr))"
    for tr :: "(time \<times> int \<times> time) list"
    by (induction tr) auto
  then show ?thesis using b limited_trace [of rq quota metric limit window ts] assms(1-4) by simp
qed (use assms in simp)

text \<open>
  C36: a keyed request that succeeded is not executed again. At the moment its answer is inserted into the in-memory
  store let no other request of the same key be in flight (past its lookup and not yet inserted). Then, whatever steps of other requests
  come after, interleaved in any way, as long as the store has room for one entry per insertion among them and the entry has
  not expired: no request of the key gets to the handler, and a later one is answered with the first response's status and body, marked as
  a replay, if its body is the same, and with a 409 if it differs. Requests that are in flight together are all executed
  (\<open>concurrent_requests_both_run\<close>).
\<close>

theorem successful_request_runs_once:
  assumes first: "js n = Some (ToStore rq h key (fingerprint sha body) c)" "c = fold capture_step acts new_capture" "key \<noteq> []"
      "\<forall>code. WriteHeader code \<in> set (cap_out c) \<longrightarrow> 200 \<le> code"
      "no_job mem_key (mem_key (ctx_tenant rq) key) (js(n := None))"
      "idem_step memory_ops sha ttl next (IdStore n t2) (m, s, js) = (m1, s1, js1)"
    and between: "\<forall>x \<in> set es. begins_by T x" "store_events es \<le> mem_room m1"
      "fold (idem_step memory_ops sha ttl next) es (m1, s1, js1) = (m2, s2, js2)"
    and again: "is_mutating (rq_method rq')" "header_get (rq_headers rq') ''Idempotency-Key'' = key"
      "ctx_tenant rq' = ctx_tenant rq" "rq_body rq' = Some body'" "T \<le> t2 + (if ttl \<le> 0 then 24 * hour else ttl)"
      "idempotency memory_ops sha ttl T t4 next rq' h' (m2, s2) = ((acts', panicked), (m3, s3))"
  shows "no_job mem_key (mem_key (ctx_tenant rq) key) js2 \<and> s3 = s2 \<and> \<not> panicked \<and>
    (if fingerprint sha body' = fingerprint sha body
     then rs_status (respond h' acts') = rs_status (respond h (cap_out c)) \<and>
          rs_body (respond h' acts') = rs_body (respond h (cap_out c)) \<and>
          header_get (rs_headers (respond h' acts')) ''Idempotent-Replay'' = ''true''
     else rs_status (respond h' acts') = 409)"
proof -
  have m1: "m1 = idem_put memory_ops (ctx_tenant rq) key (idem_entry ttl t2 h (fingerprint sha body) c) m" "js1 = js(n := None)"
    using first(1,6) by auto
  obtain e where e: "mem_live m1 (ctx_tenant rq) key T = Some e" "en_fingerprint e = fingerprint sha body"
      "en_status e = rs_status (respond h (cap_out c))"
      "(if body_allowed (en_status e) then en_body e else []) = rs_body (respond h (cap_out c))"
    using mem.stored_is_live [OF first(2,4) again(5)] unfolding m1 by blast
  have k: "mem_live m2 (ctx_tenant rq) key T = Some e" "no_job mem_key (mem_key (ctx_tenant rq) key) js2"
    using mem.steps_keep [OF e(1) _ between] first(5) m1(2) by simp_all
  note r = mem.live_is_replayed [OF again(1,2) first(3) again(4), of m2 T e sha ttl t4 "next" h' s2, unfolded again(3,6), OF k(1)]
  have "200 \<le> en_status e"
    using e(3) capture_response(1) [OF first(2,4)] capture_status_ok [OF first(2,4)] by simp
  note p = replay_response [OF this, of h']
  have "rs_status (respond h' (problem_write (conflict d))) = 409" for d
    by (simp add: respond_problem conflict_def)
  then show ?thesis using r e p k(2) by (auto split: if_splits)
qed

subsection \<open>Concrete requests\<close>

definition demo_request :: "string \<Rightarrow> string \<Rightarrow> string \<Rightarrow> request" where
  "demo_request tenant key body = \<lparr>rq_method = ''POST'', rq_path = ''/v1/x'',
     rq_headers = [(''Idempotency-Key'', key)], rq_body = Some body, ctx_tenant = tenant, ctx_request_id = []\<rparr>"

text \<open>A handler that answers with the number of its calls so far.\<close>

definition demo_handler :: "nat handler" where
  "demo_handler rq h n = (([WriteHeader 201, Write (Bytes (digits 10 n))], False), Suc n)"

definition demo_store :: memory_store where
  "demo_store = new_memory_store 2"

theorem limiter_admits_at_most_witness:
  "int (length (filter (\<lambda>(t, passed). passed \<and> 5 \<le> t \<and> t \<le> 15)
     (limited (\<lambda>_ _. Some 1) ''m'' 10 (demo_request ''t'' ''k'' []) [0, 5, 11, 12] []))) \<le> 2"
  using limiter_admits_at_most [of "demo_request ''t'' ''k'' []" "\<lambda>_ _. Some 1" "''m''" 1 10 "[0, 5, 11, 12]" 5]
  by (simp add: demo_request_def)

definition demo_entry :: entry where
  "demo_entry = \<lparr>en_status = 201, en_content_type = [], en_body = [Bytes ''0''], en_fingerprint = ''b'', en_stored = 1, en_expires = 101\<rparr>"

definition demo_capture :: capture where
  "demo_capture = fold capture_step [WriteHeader 201, Write (Bytes ''0'')] new_capture"

text \<open>
  Request 0 of key \<open>k\<close> has run and is inserted, then request 1 of key \<open>j\<close> is looked up, and request 2 of \<open>k\<close>, which does not get to the handler.
\<close>

definition demo_jobs :: "nat \<Rightarrow> idem_job option" where
  "demo_jobs = (\<lambda>_. None)(0 \<mapsto> ToStore (demo_request ''t'' ''k'' ''b'') [] ''k'' ''b'' demo_capture)"

definition demo_events :: "idem_event list" where
  "demo_events = [IdBegin 1 (demo_request ''t'' ''j'' ''b'') [] 10, IdBegin 2 (demo_request ''t'' ''k'' ''b'') [] 20, IdRun 1, IdRun 2, IdStore 1 30]"

definition demo_full :: memory_store where
  "demo_full = \<lparr>mem_entries = [(''t|k'', demo_entry), (''t|j'', demo_entry\<lparr>en_body := [Bytes ''1''], en_stored := 30, en_expires := 130\<rparr>)], max_items = 2\<rparr>"

lemma demo_inserted:
  "idem_step memory_ops id 100 demo_handler (IdStore 0 1) (demo_store, 1, demo_jobs) =
     (\<lparr>mem_entries = [(''t|k'', demo_entry)], max_items = 2\<rparr>, 1, demo_jobs(0 := None))"
  by (simp add: demo_jobs_def) code_simp

definition demo_world :: "(memory_store, nat) idem_world" where
  "demo_world = fold (idem_step memory_ops id 100 demo_handler) demo_events (\<lparr>mem_entries = [(''t|k'', demo_entry)], max_items = 2\<rparr>, 1, demo_jobs(0 := None))"

lemma demo_interleaved:
  "fold (idem_step memory_ops id 100 demo_handler) demo_events (\<lparr>mem_entries = [(''t|k'', demo_entry)], max_items = 2\<rparr>, 1, demo_jobs(0 := None)) =
     (demo_full, 2, snd (snd demo_world))"
proof -
  have "fst demo_world = demo_full" "fst (snd demo_world) = 2" by code_simp+
  then show ?thesis unfolding demo_world_def [symmetric] by (simp add: prod_eq_iff)
qed

lemma demo_again:
  "idempotency memory_ops id 100 50 51 demo_handler (demo_request ''t'' ''k'' ''b'') [] (demo_full, 2) =
     (([SetHeader ''Idempotent-Replay'' ''true'', WriteHeader 201, Write (Bytes ''0'')], False), (demo_full, 2))"
  by code_simp

theorem successful_request_runs_once_witness:
  "rs_body (respond [] [SetHeader ''Idempotent-Replay'' ''true'', WriteHeader 201, Write (Bytes ''0'')]) =
   rs_body (respond [] (cap_out demo_capture))"
proof -
  have f: "demo_jobs 0 = Some (ToStore (demo_request ''t'' ''k'' ''b'') [] ''k'' (fingerprint id ''b'') demo_capture)"
    by (simp add: demo_jobs_def fingerprint_def)
  have o: "\<forall>code. WriteHeader code \<in> set (cap_out demo_capture) \<longrightarrow> 200 \<le> code"
    by (simp add: demo_capture_def new_capture_def forward_def)
  have j: "no_job mem_key (mem_key (ctx_tenant (demo_request ''t'' ''k'' ''b'')) ''k'') (demo_jobs(0 := None))"
    by (simp add: no_job_def demo_jobs_def)
  have b: "\<forall>x \<in> set demo_events. begins_by 50 x" "store_events demo_events \<le> mem_room \<lparr>mem_entries = [(''t|k'', demo_entry)], max_items = 2\<rparr>"
    by (simp_all add: demo_events_def begins_by_def store_events_def mem_room_def)
  from successful_request_runs_once [OF f demo_capture_def _ o j demo_inserted b demo_interleaved _ _ _ _ _ demo_again, of "''b''"]
  show ?thesis by (simp add: demo_request_def header_get_def is_mutating_def)
qed

text \<open>Two requests with one key that are looked up before either is inserted are both executed.\<close>

lemma concurrent_requests_both_run:
  "fst (snd (fold (idem_step memory_ops id 100 demo_handler)
     [IdBegin 0 (demo_request ''t'' ''k'' ''b'') [] 0, IdBegin 1 (demo_request ''t'' ''k'' ''b'') [] 1, IdRun 0, IdStore 0 2, IdRun 1, IdStore 1 3]
     (demo_store, 0, (\<lambda>_. None)))) = 2"
  by code_simp

text \<open>
  The composed key \<open>tenant|key\<close> is not injective: a tenant \<open>a\<close> with key \<open>b|c\<close> is shown the response that
  was made for the tenant \<open>a|b\<close> with key \<open>c\<close>.
\<close>

lemma idempotency_crosses_tenants:
  "let ms = snd (idempotency memory_ops id 100 0 1 demo_handler (demo_request ''a|b'' ''c'' ''x'') [] (demo_store, 0))
   in fst (idempotency memory_ops id 100 2 3 demo_handler (demo_request ''a'' ''b|c'' ''x'') [] ms) =
        ([SetHeader ''Idempotent-Replay'' ''true'', WriteHeader 201, Write (Bytes ''0'')], False)"
  by code_simp

text \<open>The key is not bound to the endpoint: the response of one path is replayed on another.\<close>

lemma idempotency_crosses_paths:
  "let ms = snd (idempotency memory_ops id 100 0 1 demo_handler (demo_request ''t'' ''k'' ''x'') [] (demo_store, 0))
   in fst (idempotency memory_ops id 100 2 3 demo_handler ((demo_request ''t'' ''k'' ''x'')\<lparr>rq_path := ''/v1/y''\<rparr>) [] ms) =
        ([SetHeader ''Idempotent-Replay'' ''true'', WriteHeader 201, Write (Bytes ''0'')], False)"
  by code_simp

text \<open>Headers other than the content type, such as \<open>Location\<close>, are not replayed.\<close>

lemma replay_drops_headers:
  "let next = (\<lambda>rq h n. (([SetHeader ''Location'' ''/v1/x/1'', WriteHeader 201], False), Suc n));
       ms = snd (idempotency memory_ops id 100 0 1 next (demo_request ''t'' ''k'' ''x'') [] (demo_store, 0));
       r = fst (fst (idempotency memory_ops id 100 2 3 next (demo_request ''t'' ''k'' ''x'') [] ms))
   in rs_headers (respond [] r) = [(''Idempotent-Replay'', ''true'')]"
  by code_simp

end
