(* ===== verification/PolicyGate.thy ===== *)
theory PolicyGate
  imports Http
begin

section \<open>policy-gate-service\<close>

text \<open>
  Model of \<open>services/policy-gate-service\<close>: the table \<open>policy_gates\<close> (\<open>internal/store/store.go\<close>), the
  request handlers of \<open>cmd/policy-gate-service/main.go\<close> and what they publish. The request bodies are
  decoded values, None for a body that is no JSON object of the expected shape. The database does not
  fail except on a duplicate key, and every published message is counted. An unset \<open>decided_at\<close> is NULL.
\<close>

record pg_request =
  pr_id :: string
  pr_session :: string
  pr_tenant :: string
  pr_tool :: string
  pr_summary :: string
  pr_args :: string
  pr_blast :: string
  pr_requested :: time

record pg_gate =
  gt_request :: pg_request
  gt_decision :: string
  gt_by :: string
  gt_reason :: string
  gt_decided :: "time option"

record gate_message =
  gm_subject :: string
  gm_kind :: string
  gm_gate :: pg_gate
  gm_tenant :: string
  gm_session :: string

record gate_service =
  gate_rows :: "(string \<times> pg_gate) list"
  gate_bus :: "gate_message list"

definition new_gate_service :: gate_service where
  "new_gate_service = \<lparr>gate_rows = [], gate_bus = []\<rparr>"

subsection \<open>Store\<close>

definition store_open :: "time \<Rightarrow> pg_gate \<Rightarrow> gate_service \<Rightarrow> (string + string) \<times> gate_service" where
  "store_open now g s =
     (let r = gt_request g in
      if pr_id r = [] then (Inl ''gate id required'', s)
      else let r1 = (if is_zero (pr_requested r) then r\<lparr>pr_requested := now\<rparr> else r) in
      if map_of (gate_rows s) (pr_id r) \<noteq> None then (Inl ''UNIQUE constraint failed: policy_gates.id'', s)
      else (Inr (pr_id r), s\<lparr>gate_rows := gate_rows s @ [(pr_id r,
              \<lparr>gt_request = r1, gt_decision = ''pending'', gt_by = [], gt_reason = [], gt_decided = None\<rparr>)]\<rparr>))"

definition store_get :: "string \<Rightarrow> gate_service \<Rightarrow> pg_gate option" where
  "store_get gid s = map_of (gate_rows s) gid"

definition list_pending :: "string \<Rightarrow> int \<Rightarrow> gate_service \<Rightarrow> pg_gate list" where
  "list_pending tenant limit s =
     take (nat (if limit \<le> 0 \<or> 200 < limit then 50 else limit))
       (sort_by (\<lambda>a b. pr_requested (gt_request b) < pr_requested (gt_request a))
         (filter (\<lambda>g. pr_tenant (gt_request g) = tenant \<and> gt_decision g = ''pending'') (map snd (gate_rows s))))"

definition decide_row :: "time \<Rightarrow> string \<Rightarrow> string \<Rightarrow> string \<Rightarrow> pg_gate \<Rightarrow> pg_gate" where
  "decide_row now decision by reason g =
     (if gt_decision g = ''pending''
      then g\<lparr>gt_decision := decision, gt_by := by, gt_reason := reason, gt_decided := Some now\<rparr> else g)"

definition rows_affected :: "string \<Rightarrow> gate_service \<Rightarrow> nat" where
  "rows_affected gid s =
     (case map_of (gate_rows s) gid of None \<Rightarrow> 0 | Some g \<Rightarrow> if gt_decision g = ''pending'' then 1 else 0)"

definition store_decide :: "time \<Rightarrow> string \<Rightarrow> string \<Rightarrow> string \<Rightarrow> string \<Rightarrow> gate_service
    \<Rightarrow> (string + pg_gate \<times> bool) \<times> gate_service" where
  "store_decide now gid decision by reason s =
     (if decision \<noteq> ''approved'' \<and> decision \<noteq> ''rejected'' \<and> decision \<noteq> ''expired''
      then (Inl ''invalid decision'', s)
      else let n = rows_affected gid s;
               s1 = s\<lparr>gate_rows := AList.map_entry gid (decide_row now decision by reason) (gate_rows s)\<rparr> in
      case store_get gid s1 of
        None \<Rightarrow> (Inl ''sql: no rows in result set'', s1)
      | Some g \<Rightarrow> (Inr (g, 0 < n), s1))"

subsection \<open>Handlers\<close>

definition publish_gate :: "string \<Rightarrow> string \<Rightarrow> string \<Rightarrow> string \<Rightarrow> pg_gate \<Rightarrow> gate_service \<Rightarrow> gate_service" where
  "publish_gate subject kind tenant session g s = s\<lparr>gate_bus := gate_bus s @
     [\<lparr>gm_subject = subject, gm_kind = kind, gm_gate = g, gm_tenant = tenant, gm_session = session\<rparr>]\<rparr>"

definition gate_audit :: "string \<Rightarrow> string \<Rightarrow> pg_gate \<Rightarrow> gate_service \<Rightarrow> gate_service" where
  "gate_audit tenant kind g s = publish_gate ''audit.v1'' kind tenant [] g s"

definition post_gate :: "time \<Rightarrow> headers \<Rightarrow> pg_request option \<Rightarrow> gate_service \<Rightarrow> (problem + pg_gate) \<times> gate_service" where
  "post_gate now hdrs body =
     with_tenant hdrs (\<lambda>tenant s.
       case body of
         None \<Rightarrow> (Inl (bad_request ''invalid JSON''), s)
       | Some req \<Rightarrow>
           if pr_id req = [] \<or> pr_session req = [] \<or> pr_tool req = []
           then (Inl (bad_request ''id, session_id, tool_name required''), s)
           else let req1 = req\<lparr>pr_tenant := tenant, pr_blast := (if pr_blast req = [] then ''medium'' else pr_blast req)\<rparr>;
                    gate = \<lparr>gt_request = req1, gt_decision = ''pending'', gt_by = [], gt_reason = [], gt_decided = None\<rparr> in
           (case store_open now gate s of
              (Inl e, s1) \<Rightarrow> (Inl (internal e), s1)
            | (Inr _, s1) \<Rightarrow> (Inr gate, gate_audit tenant ''gate.opened'' gate s1)))"

definition get_gates :: "headers \<Rightarrow> gate_service \<Rightarrow> (problem + pg_gate list) \<times> gate_service" where
  "get_gates hdrs = with_tenant hdrs (\<lambda>tenant s. (Inr (list_pending tenant 50 s), s))"

definition get_gate :: "headers \<Rightarrow> string \<Rightarrow> gate_service \<Rightarrow> (problem + pg_gate) \<times> gate_service" where
  "get_gate hdrs gid =
     with_tenant hdrs (\<lambda>tenant s.
       case store_get gid s of
         None \<Rightarrow> (Inl (not_found ''gate not found''), s)
       | Some g \<Rightarrow>
           if tenant \<noteq> [] \<and> tenant \<noteq> pr_tenant (gt_request g)
           then (Inl (forbidden ''cross-tenant read denied''), s) else (Inr g, s))"

text \<open>
  \<open>strings.ToLower\<close> as far as its result can be a decision: two other characters have an ASCII lower
  case, the capital I with a dot and the Kelvin sign.
\<close>

fun lower_text :: "string \<Rightarrow> string" where
  "lower_text [] = []"
| "lower_text (c # cs) =
     (if c = CHR 0xC4 \<and> take 1 cs = [CHR 0xB0] then CHR ''i'' # lower_text (drop 1 cs)
      else if c = CHR 0xE2 \<and> take 2 cs = [CHR 0x84, CHR 0xAA] then CHR ''k'' # lower_text (drop 2 cs)
      else lower_char c # lower_text cs)"

definition announce :: "pg_gate \<Rightarrow> gate_service \<Rightarrow> gate_service" where
  "announce g s =
     publish_gate (''gate.resolved.'' @ pr_id (gt_request g)) [] (pr_tenant (gt_request g))
       (pr_session (gt_request g)) g (gate_audit (pr_tenant (gt_request g)) ''gate.decided'' g s)"

definition post_decision :: "time \<Rightarrow> headers \<Rightarrow> string \<Rightarrow> (string \<times> string) option \<Rightarrow> gate_service
    \<Rightarrow> (problem + pg_gate) \<times> gate_service" where
  "post_decision now hdrs gid body =
     with_tenant hdrs (\<lambda>tenant s.
       case body of
         None \<Rightarrow> (Inl (bad_request ''invalid JSON''), s)
       | Some (dec, reason) \<Rightarrow>
           let decision = lower_text dec; by = header_get hdrs ''X-Aegis-Subject'' in
           if by = [] then (Inl (forbidden ''no identity for decision''), s)
           else (case store_decide now gid decision by reason s of
               (Inl e, s1) \<Rightarrow> (Inl (bad_request e), s1)
             | (Inr (g, changed), s1) \<Rightarrow>
                 (Inr g, if changed then announce g s1 else s1)))"

subsection \<open>Histories\<close>

inductive gate_step :: "gate_service \<Rightarrow> gate_service \<Rightarrow> bool" where
  opened: "gate_step s (snd (post_gate now hdrs req s))"
| listed: "gate_step s (snd (get_gates hdrs s))"
| read: "gate_step s (snd (get_gate hdrs gid s))"
| decided: "gate_step s (snd (post_decision now hdrs gid body s))"

abbreviation gate_reachable :: "gate_service \<Rightarrow> gate_service \<Rightarrow> bool" where
  "gate_reachable \<equiv> gate_step\<^sup>*\<^sup>*"

definition resolutions :: "gate_service \<Rightarrow> string \<Rightarrow> pg_gate list" where
  "resolutions s gid = map gm_gate (filter (\<lambda>m. gm_subject m = ''gate.resolved.'' @ gid) (gate_bus s))"

text \<open>Every row is filed under its id, and has been announced exactly if it is decided.\<close>

definition row_ok :: "gate_service \<Rightarrow> string \<Rightarrow> pg_gate option \<Rightarrow> bool" where
  "row_ok s gid og =
     (case og of
        None \<Rightarrow> resolutions s gid = []
      | Some g \<Rightarrow> pr_id (gt_request g) = gid \<and>
          (if gt_decision g = ''pending'' then resolutions s gid = [] \<and> gt_decided g = None
           else gt_decision g \<in> {''approved'', ''rejected'', ''expired''} \<and> gt_by g \<noteq> [] \<and>
             gt_decided g \<noteq> None \<and> resolutions s gid = [g]))"

definition gates_ok :: "gate_service \<Rightarrow> bool" where
  "gates_ok s \<longleftrightarrow> (\<forall>gid. row_ok s gid (store_get gid s))"

lemma resolved_not_audit [simp]: "''audit.v1'' \<noteq> ''gate.resolved.'' @ gid"
  by simp

lemma with_tenant_snd:
  "(\<And>t. snd (f t s) = s \<or> P (snd (f t s))) \<Longrightarrow> snd (with_tenant h f s) = s \<or> P (snd (with_tenant h f s))"
  by (simp add: with_tenant_def)

text \<open>What a step does: nothing, a new pending row with its audit record, or one decision.\<close>

definition opens :: "gate_service \<Rightarrow> gate_service \<Rightarrow> bool" where
  "opens s s' \<longleftrightarrow> (\<exists>g m. store_get (pr_id (gt_request g)) s = None \<and> gt_decision g = ''pending'' \<and> gt_decided g = None \<and>
     gate_rows s' = gate_rows s @ [(pr_id (gt_request g), g)] \<and> gate_bus s' = gate_bus s @ [m] \<and> gm_subject m = ''audit.v1'')"

definition decides :: "gate_service \<Rightarrow> gate_service \<Rightarrow> bool" where
  "decides s s' \<longleftrightarrow> (\<exists>gid g g' m m'. store_get gid s = Some g \<and> gt_decision g = ''pending'' \<and>
     gt_decision g' \<in> {''approved'', ''rejected'', ''expired''} \<and> gt_by g' \<noteq> [] \<and> gt_decided g' \<noteq> None \<and>
     gt_request g' = gt_request g \<and> gate_rows s' = AList.map_entry gid (\<lambda>_. g') (gate_rows s) \<and>
     gate_bus s' = gate_bus s @ [m, m'] \<and> gm_subject m = ''audit.v1'' \<and>
     gm_subject m' = ''gate.resolved.'' @ pr_id (gt_request g) \<and> gm_gate m' = g')"

lemma post_gate_step: "snd (post_gate now hdrs req s) = s \<or> opens s (snd (post_gate now hdrs req s))"
  unfolding post_gate_def
proof (rule with_tenant_snd, goal_cases)
  case (1 tenant)
  show ?case
    by (cases req)
      (auto simp: store_open_def opens_def store_get_def gate_audit_def publish_gate_def Let_def
        intro: exI [of _ "\<lparr>gt_request = _, gt_decision = _, gt_by = _, gt_reason = _, gt_decided = _\<rparr>"])
qed

lemma map_entry_id: "map_of m k = Some v \<Longrightarrow> f v = v \<Longrightarrow> AList.map_entry k f m = m"
  by (induction m) auto

lemma map_entry_none: "map_of m k = None \<Longrightarrow> AList.map_entry k f m = m"
  by (induction m) auto

lemma map_entry_const: "map_of m k = Some v \<Longrightarrow> AList.map_entry k f m = AList.map_entry k (\<lambda>_. f v) m"
  by (induction m) auto

lemma post_decision_step:
  "snd (post_decision now hdrs gid body s) = s \<or> decides s (snd (post_decision now hdrs gid body s))"
  unfolding post_decision_def
proof (rule with_tenant_snd, goal_cases)
  case (1 tenant)
  show ?case
  proof (cases body)
    case (Some b)
    obtain dec reason where b: "b = (dec, reason)" by (cases b)
    let ?by = "header_get hdrs ''X-Aegis-Subject''"
    show ?thesis
    proof (cases "map_of (gate_rows s) gid")
      case None
      then show ?thesis
        by (simp add: Some b store_decide_def store_get_def rows_affected_def Let_def map_entry_none)
    next
      case g: (Some g)
      let ?f = "decide_row now (lower_text dec) ?by reason"
      show ?thesis
      proof (cases "gt_decision g = ''pending''")
        case True
        let ?d = "lower_text dec"
        show ?thesis
        proof (cases "?by \<noteq> [] \<and> ?d \<in> {''approved'', ''rejected'', ''expired''}")
          case ok: True
          have e: "AList.map_entry gid ?f (gate_rows s) = AList.map_entry gid (\<lambda>_. ?f g) (gate_rows s)"
            by (rule map_entry_const [OF g])
          let ?s = "s\<lparr>gate_rows := AList.map_entry gid (\<lambda>_. ?f g) (gate_rows s)\<rparr>"
          have "store_decide now gid ?d ?by reason s = (Inr (?f g, True), ?s)"
            using ok True by (auto simp: store_decide_def store_get_def rows_affected_def g e Let_def map_of_map_entry)
          moreover have "decides s (announce (?f g) ?s)"
            unfolding decides_def
            by (rule exI [of _ gid], rule exI [of _ g], rule exI [of _ "?f g"])
              (use g True ok in \<open>simp add: announce_def publish_gate_def gate_audit_def store_get_def decide_row_def\<close>)
          ultimately show ?thesis using ok by (simp add: Some b Let_def)
        next
          case False
          then show ?thesis by (auto simp: Some b store_decide_def Let_def)
        qed
      next
        case False
        then have "?f g = g" by (simp add: decide_row_def)
        then show ?thesis
          using False
          by (simp add: Some b g store_decide_def store_get_def rows_affected_def Let_def map_of_map_entry
              map_entry_id [OF g])
      qed
    qed
  qed simp
qed

lemma gate_step_cases: "gate_step s s' \<Longrightarrow> s' = s \<or> opens s s' \<or> decides s s'"
proof (induction rule: gate_step.induct)
  case (opened s now hdrs req)
  then show ?case using post_gate_step by blast
next
  case (decided s now hdrs gid body)
  then show ?case using post_decision_step by blast
qed (auto simp: get_gates_def get_gate_def with_tenant_def split: option.splits)


lemma step_ok: "gate_step s s' \<Longrightarrow> gates_ok s \<Longrightarrow> gates_ok s'"
proof (drule gate_step_cases, elim disjE)
  assume "gates_ok s" "s' = s"
  then show "gates_ok s'" by simp
next
  assume ok: "gates_ok s" and "opens s s'"
  then obtain g m where o: "store_get (pr_id (gt_request g)) s = None" "gt_decision g = ''pending''" "gt_decided g = None"
    "gate_rows s' = gate_rows s @ [(pr_id (gt_request g), g)]" "gate_bus s' = gate_bus s @ [m]" "gm_subject m = ''audit.v1''"
    by (auto simp: opens_def)
  have rows: "store_get k s' = (if k = pr_id (gt_request g) then Some g else store_get k s)" for k
    using o(1,4) by (auto simp: store_get_def map_add_def split: option.splits)
  have res: "resolutions s' k = resolutions s k" for k
    using o(5,6) by (simp add: resolutions_def)
  show "gates_ok s'"
    unfolding gates_ok_def
  proof
    fix k
    have "row_ok s k (store_get k s)" using ok by (simp add: gates_ok_def)
    then show "row_ok s' k (store_get k s')" using o(1-3) by (auto simp: row_ok_def rows res split: option.splits)
  qed
next
  assume ok: "gates_ok s" and ds: "decides s s'"
  from ds obtain gid g g' m m' where d: "store_get gid s = Some g" "gt_decision g = ''pending''"
    "gt_decision g' \<in> {''approved'', ''rejected'', ''expired''}" "gt_by g' \<noteq> []" "gt_decided g' \<noteq> None"
    "gt_request g' = gt_request g" "gate_rows s' = AList.map_entry gid (\<lambda>_. g') (gate_rows s)"
    "gate_bus s' = gate_bus s @ [m, m']" "gm_subject m = ''audit.v1''"
    "gm_subject m' = ''gate.resolved.'' @ pr_id (gt_request g)" "gm_gate m' = g'"
    unfolding decides_def by (elim exE conjE) (rule that; assumption)
  have i: "pr_id (gt_request g) = gid" "resolutions s gid = []"
    using ok d(1,2) by (auto simp: gates_ok_def row_ok_def dest: spec [of _ gid])
  have rows: "store_get k s' = (if k = gid then Some g' else store_get k s)" for k
    using d(1,7) by (simp add: store_get_def map_of_map_entry)
  have res: "resolutions s' k = (if k = gid then [g'] else resolutions s k)" for k
    using d(8-11) i by (auto simp: resolutions_def)
  have "gt_decision g' \<noteq> ''pending''" using d(3) by auto
  show "gates_ok s'"
    unfolding gates_ok_def
  proof
    fix k
    show "row_ok s' k (store_get k s')"
    proof (cases "k = gid")
      case True
      then show ?thesis using d i \<open>gt_decision g' \<noteq> ''pending''\<close> by (simp add: row_ok_def rows res)
    next
      case False
      then have "row_ok s k (store_get k s)" using ok by (simp add: gates_ok_def)
      then show ?thesis using False by (auto simp: row_ok_def rows res split: option.splits)
    qed
  qed
qed

lemma reachable_ok: "gate_reachable s s' \<Longrightarrow> gates_ok s \<Longrightarrow> gates_ok s'"
  by (induction rule: rtranclp_induct) (auto intro: step_ok)

lemma new_service_ok: "gates_ok new_gate_service"
  by (simp add: gates_ok_def row_ok_def store_get_def resolutions_def new_gate_service_def)

lemma step_final:
  "gate_step s s' \<Longrightarrow> store_get gid s = Some g \<Longrightarrow>
   \<exists>g'. store_get gid s' = Some g' \<and> gt_request g' = gt_request g \<and> (gt_decision g \<noteq> ''pending'' \<longrightarrow> g' = g)"
  by (drule gate_step_cases, elim disjE)
    (auto simp: opens_def decides_def store_get_def map_of_map_entry)

subsection \<open>Properties\<close>

text \<open>
  C4: the request of a gate never changes, and a decided gate is final: whatever requests follow, its
  row, with the decision, who took it and when, stays as it is.
\<close>

theorem decided_gate_is_final:
  assumes "store_get gid s = Some g" "gate_reachable s s'"
  shows "\<exists>g'. store_get gid s' = Some g' \<and> gt_request g' = gt_request g \<and> (gt_decision g \<noteq> ''pending'' \<longrightarrow> g' = g)"
  using assms(2,1)
proof (induction rule: rtranclp_induct)
  case (step s1 s2)
  then show ?case using step_final by metis
qed simp

text \<open>
  Every decided gate is announced on the bus exactly once, with the decided row, and a pending
  gate is not announced; decisions are approvals, rejections and expiries with a named author.
\<close>

theorem decision_announced_once:
  assumes "gate_reachable new_gate_service s"
  shows "resolutions s gid =
      (case store_get gid s of None \<Rightarrow> [] | Some g \<Rightarrow> if gt_decision g = ''pending'' then [] else [g]) \<and>
    (\<forall>g. store_get gid s = Some g \<longrightarrow> gt_decision g \<noteq> ''pending'' \<longrightarrow>
       gt_decision g \<in> {''approved'', ''rejected'', ''expired''} \<and> gt_by g \<noteq> [])"
  using reachable_ok [OF assms new_service_ok]
  by (auto simp: gates_ok_def row_ok_def split: option.splits dest!: spec [of _ gid])

subsection \<open>A concrete gate\<close>

definition demo_gate_request :: pg_request where
  "demo_gate_request = \<lparr>pr_id = ''g1'', pr_session = ''s1'', pr_tenant = [], pr_tool = ''erase'', pr_summary = [],
     pr_args = [], pr_blast = [], pr_requested = 0\<rparr>"

definition tenant_headers :: "string \<Rightarrow> headers" where
  "tenant_headers t = [(''X-Tenant-Id'', t), (''X-Aegis-Subject'', ''bob'')]"

definition demo_gates :: gate_service where
  "demo_gates = snd (post_gate 7 (tenant_headers ''t'') (Some demo_gate_request) new_gate_service)"

definition demo_decided :: gate_service where
  "demo_decided = snd (post_decision 9 (tenant_headers ''u'') ''g1'' (Some (''Approved'', ''ok'')) demo_gates)"

lemma demo_gates_reachable: "gate_reachable new_gate_service demo_gates" "gate_reachable new_gate_service demo_decided"
proof -
  show g: "gate_reachable new_gate_service demo_gates"
    unfolding demo_gates_def by (rule r_into_rtranclp) (rule gate_step.opened)
  show "gate_reachable new_gate_service demo_decided"
    unfolding demo_decided_def by (rule rtranclp.rtrancl_into_rtrancl [OF g]) (rule gate_step.decided)
qed

lemma tenant_header_demo [simp]: "tenant_header (tenant_headers t) = trim_space t"
  "header_get (tenant_headers t) ''X-Aegis-Subject'' = ''bob''"
  by (simp_all add: tenant_header_def tenant_headers_def header_get_def)

lemma demo_gates_eq:
  "demo_gates = \<lparr>gate_rows = [(''g1'', \<lparr>gt_request = demo_gate_request\<lparr>pr_tenant := ''t'', pr_blast := ''medium'', pr_requested := 7\<rparr>,
       gt_decision = ''pending'', gt_by = [], gt_reason = [], gt_decided = None\<rparr>)],
     gate_bus = gate_bus demo_gates\<rparr>"
  by (simp add: demo_gates_def post_gate_def with_tenant_def graphic_def demo_gate_request_def new_gate_service_def
      store_open_def gate_audit_def publish_gate_def is_zero_def Let_def)

definition demo_row :: pg_gate where
  "demo_row = \<lparr>gt_request = demo_gate_request\<lparr>pr_tenant := ''t'', pr_blast := ''medium'', pr_requested := 7\<rparr>,
     gt_decision = ''approved'', gt_by = ''bob'', gt_reason = ''ok'', gt_decided = Some 9\<rparr>"

lemma lower_demo: "lower_text ''Approved'' = ''approved''"
  by (simp add: lower_char_def less_eq_char_def char_of_eq_iff)

lemma demo_store_decide:
  "store_decide 9 ''g1'' ''approved'' ''bob'' ''ok'' demo_gates = (Inr (demo_row, True), demo_gates\<lparr>gate_rows := [(''g1'', demo_row)]\<rparr>)"
  by (subst (1 2) demo_gates_eq)
    (simp add: store_decide_def store_get_def rows_affected_def decide_row_def Let_def demo_row_def)

lemma demo_decision:
  "post_decision 9 (tenant_headers ''u'') ''g1'' (Some (''Approved'', ''ok'')) demo_gates =
     (Inr demo_row, announce demo_row (demo_gates\<lparr>gate_rows := [(''g1'', demo_row)]\<rparr>))"
  by (simp add: post_decision_def with_tenant_def graphic_def lower_demo demo_store_decide del: lower_text.simps)

lemma demo_decided_row: "store_get ''g1'' demo_decided = Some demo_row"
  by (simp add: demo_decided_def demo_decision store_get_def announce_def gate_audit_def publish_gate_def)

text \<open>A member of another tenant decides the gate: the decision handler does not compare the tenants.\<close>

lemma decision_crosses_tenants:
  "\<exists>g. fst (post_decision 9 (tenant_headers ''u'') ''g1'' (Some (''Approved'', ''ok'')) demo_gates) = Inr g \<and>
     pr_tenant (gt_request g) = ''t'' \<and> gt_decision g = ''approved''"
  by (simp add: demo_decision demo_row_def)

lemma read_stays_in_tenant:
  "fst (get_gate hdrs gid s) = Inr g \<Longrightarrow> pr_tenant (gt_request g) = tenant_header hdrs"
  by (auto simp: get_gate_def with_tenant_def split: if_splits option.splits)

theorem decided_gate_is_final_witness:
  "\<exists>g'. store_get ''g1'' (snd (post_decision 10 (tenant_headers ''t'') ''g1'' (Some (''rejected'', [])) demo_decided)) = Some g' \<and>
     gt_decision g' = ''approved''"
proof -
  obtain g where g: "store_get ''g1'' demo_decided = Some g" "gt_decision g = ''approved''"
    using demo_decided_row by (simp add: demo_row_def)
  show ?thesis
    using decided_gate_is_final [OF g(1) r_into_rtranclp [of gate_step,
        OF gate_step.decided [of demo_decided 10 "tenant_headers ''t''" "''g1''" "Some (''rejected'', [])"]]] g(2) by auto
qed

theorem decision_announced_once_witness: "length (resolutions demo_decided ''g1'') = 1"
  using decision_announced_once [OF demo_gates_reachable(2), of "''g1''"] demo_decided_row by (simp add: demo_row_def)

end
