(* ===== verification/AgentService.thy ===== *)
theory AgentService
  imports Agent PolicyGate
begin

section \<open>agent-service: stored sessions over the agent loop and the policy gates\<close>

text \<open>
  Model of \<open>services/agent-service\<close>: the tables \<open>agent_sessions\<close> and \<open>agent_steps\<close>
  (\<open>internal/store/store.go\<close>), the HTTP gateway to policy-gate-service
  (\<open>internal/gateway/gateway.go\<close>) and the handlers and the bus subscription of
  \<open>cmd/agent-service/main.go\<close>, over the agent of \<open>pkg/agent\<close> and the handlers of policy-gate-service.
  A stored step keeps its payload as a value. \<open>db_now\<close> is the instant of the request being served.
  Request bodies are decoded values; the database fails on duplicate keys only.
\<close>

subsection \<open>Store\<close>

record session_row =
  ses_id :: string
  ses_tenant :: string
  ses_role :: string
  ses_goal :: string
  ses_status :: string
  ses_step_count :: int
  ses_max_steps :: int
  ses_gate :: string
  ses_created :: time
  ses_updated :: time

record agent_db =
  db_sessions :: "(string \<times> session_row) list"
  db_steps :: "((string \<times> int) \<times> agent_step) list"
  db_now :: time

definition create_session :: "session_row \<Rightarrow> agent_db \<Rightarrow> (string + unit) \<times> agent_db" where
  "create_session ses db =
     (let ses1 = ses\<lparr>ses_created := (if is_zero (ses_created ses) then db_now db else ses_created ses),
                      ses_updated := db_now db, ses_gate := []\<rparr> in
      if map_of (db_sessions db) (ses_id ses) \<noteq> None
      then (Inl ''UNIQUE constraint failed: agent_sessions.id'', db)
      else (Inr (), db\<lparr>db_sessions := db_sessions db @ [(ses_id ses, ses1)]\<rparr>))"

definition get_session_row :: "string \<Rightarrow> agent_db \<Rightarrow> (session_row \<times> string) option" where
  "get_session_row sid db = map_option (\<lambda>ses. (ses, ses_gate ses)) (map_of (db_sessions db) sid)"

definition store_set_status :: "string \<Rightarrow> string \<Rightarrow> string \<Rightarrow> agent_db \<Rightarrow> agent_db" where
  "store_set_status sid status gid db =
     db\<lparr>db_sessions := AList.map_entry sid
          (\<lambda>ses. ses\<lparr>ses_status := status, ses_gate := gid, ses_updated := db_now db\<rparr>) (db_sessions db)\<rparr>"

definition store_append_step :: "string \<Rightarrow> agent_step \<Rightarrow> agent_db \<Rightarrow> agent_db" where
  "store_append_step sid st db =
     (if map_of (db_steps db) (sid, st_index st) \<noteq> None then db
      else db\<lparr>db_steps := db_steps db @ [((sid, st_index st), st)],
               db_sessions := AList.map_entry sid
                 (\<lambda>ses. ses\<lparr>ses_step_count := st_index st + 1, ses_updated := db_now db\<rparr>) (db_sessions db)\<rparr>)"

definition step_rows :: "agent_db \<Rightarrow> string \<Rightarrow> agent_step list" where
  "step_rows db sid = map snd (filter (\<lambda>((s, i), st). s = sid) (db_steps db))"

definition list_steps :: "agent_db \<Rightarrow> string \<Rightarrow> agent_step list" where
  "list_steps db sid = sort_by (\<lambda>a b. st_index a < st_index b) (step_rows db sid)"

definition list_sessions :: "string \<Rightarrow> int \<Rightarrow> agent_db \<Rightarrow> session_row list" where
  "list_sessions tenant limit db =
     take (nat (if limit \<le> 0 \<or> 200 < limit then 50 else limit))
       (sort_by (\<lambda>a b. ses_created b < ses_created a)
         (filter (\<lambda>ses. ses_tenant ses = tenant) (map snd (db_sessions db))))"

definition sink_append_step :: "string \<Rightarrow> agent_step \<Rightarrow> agent_db \<Rightarrow> agent_db" where
  "sink_append_step sid st db = store_append_step sid st db"

definition sink_set_status :: "string \<Rightarrow> string \<Rightarrow> agent_db \<Rightarrow> agent_db" where
  "sink_set_status sid status db = store_set_status sid status [] db"

subsection \<open>The HTTP gateway\<close>

text \<open>
  The other end is policy-gate-service. \<open>hc_via\<close> is what lies between them, which may change headers;
  \<open>hc_down\<close> gives the transport error of a call, \<open>hc_clock\<close> its instant, \<open>hc_encode\<close> the JSON text of a
  problem.
\<close>

record http_conf =
  hc_via :: "headers \<Rightarrow> headers"
  hc_clock :: "nat \<Rightarrow> time"
  hc_down :: "nat \<Rightarrow> string option"
  hc_encode :: "problem \<Rightarrow> string"
  hc_auth :: string

record gate_world =
  gw_service :: gate_service
  gw_calls :: nat

definition gate_headers :: "http_conf \<Rightarrow> string \<Rightarrow> headers" where
  "gate_headers hc tenant =
     hc_via hc ([(''Content-Type'', ''application/json''), (''X-Aegis-Tenant'', tenant)] @
       (if hc_auth hc \<noteq> [] then [(''Authorization'', hc_auth hc)] else []))"

definition status_line :: "problem \<Rightarrow> string" where
  "status_line p = print_int (pb_status p) @ '' '' @ pb_title p"

definition http_open_gate :: "http_conf \<Rightarrow> gate_request \<Rightarrow> gate_world \<Rightarrow> (string + string) \<times> gate_world" where
  "http_open_gate hc req gw =
     (let now = hc_clock hc (gw_calls gw); gw1 = gw\<lparr>gw_calls := gw_calls gw + 1\<rparr>;
          body = \<lparr>pr_id = ''gate-'' @ print_int (unix_nano now), pr_session = gr_session req, pr_tenant = gr_tenant req,
                  pr_tool = gr_tool req, pr_summary = gr_summary req, pr_args = gr_args req,
                  pr_blast = gr_blast req, pr_requested = now\<rparr> in
      case hc_down hc (gw_calls gw) of
        Some e \<Rightarrow> (Inl e, gw1)
      | None \<Rightarrow>
          (case post_gate now (gate_headers hc (gr_tenant req)) (Some body) (gw_service gw) of
             (Inl p, svc) \<Rightarrow> (Inl (''open gate: '' @ status_line p @ '': '' @ hc_encode hc p), gw1\<lparr>gw_service := svc\<rparr>)
           | (Inr g, svc) \<Rightarrow> (Inr (pr_id (gt_request g)), gw1\<lparr>gw_service := svc\<rparr>)))"

definition http_get_gate :: "http_conf \<Rightarrow> string \<Rightarrow> string \<Rightarrow> gate_world \<Rightarrow> string + memory_gate" where
  "http_get_gate hc tenant gid gw =
     (case hc_down hc (gw_calls gw) of
        Some e \<Rightarrow> Inl e
      | None \<Rightarrow>
          (case fst (get_gate (hc_via hc ([(''X-Aegis-Tenant'', tenant)] @
              (if hc_auth hc \<noteq> [] then [(''Authorization'', hc_auth hc)] else []))) gid (gw_service gw)) of
             Inl p \<Rightarrow> if pb_status p = 404 then Inl ''gate not found''
                      else Inl (''get gate: '' @ status_line p @ '': '' @ hc_encode hc p)
           | Inr g \<Rightarrow> Inr \<lparr>mg_id = pr_id (gt_request g), mg_decision = gt_decision g, mg_decided_by = gt_by g,
                           mg_reason = gt_reason g\<rparr>))"

subsection \<open>Handlers\<close>

record service_conf =
  sc_chat :: "chat_request \<Rightarrow> string + message"
  sc_ctx :: "message list \<Rightarrow> string option"
  sc_registry :: "(string \<times> tool) list"
  sc_http :: http_conf
  sc_max_steps :: int
  sc_max_tier :: int
  sc_prompt :: string
  sc_error_json :: "string \<Rightarrow> json"

record agent_world =
  aw_db :: agent_db
  aw_gates :: gate_world

definition service_env :: "service_conf \<Rightarrow> (gate_world, agent_db) agent_env" where
  "service_env sc = \<lparr>chat = sc_chat sc, ctx_err = sc_ctx sc, open_gate = http_open_gate (sc_http sc),
     append_step = sink_append_step, set_status = sink_set_status, error_json = sc_error_json sc\<rparr>"

definition service_agent :: "service_conf \<Rightarrow> int \<Rightarrow> string \<Rightarrow> string \<Rightarrow> agent_world \<Rightarrow> (gate_world, agent_db) agent" where
  "service_agent sc steps tenant sid w =
     new_agent (sc_registry sc) (aw_gates w) (Some (aw_db w))
       \<lparr>max_steps = steps, max_autonomy_tier = sc_max_tier sc, step_timeout = 0, temperature = Fin 0,
        cfg_model = [], system_prompt = sc_prompt sc\<rparr> tenant sid"

definition world_after :: "(gate_world, agent_db) agent \<Rightarrow> agent_world" where
  "world_after a = \<lparr>aw_db = the (ag_sink a), aw_gates = ag_gateway a\<rparr>"

definition set_world_status :: "string \<Rightarrow> string \<Rightarrow> string \<Rightarrow> agent_world \<Rightarrow> agent_world" where
  "set_world_status sid status gid w = w\<lparr>aw_db := store_set_status sid status gid (aw_db w)\<rparr>"

record session_reply =
  sr_session :: string
  sr_status :: string
  sr_gate :: string
  sr_final :: string
  sr_error :: string

record session_body =
  sb_role :: string
  sb_goal :: string
  sb_max_steps :: int

definition post_session :: "service_conf \<Rightarrow> time \<Rightarrow> headers \<Rightarrow> session_body option \<Rightarrow> agent_world
    \<Rightarrow> (problem + session_reply) \<times> agent_world" where
  "post_session sc now hdrs body =
     with_tenant hdrs (\<lambda>tenant w0.
       let w = w0\<lparr>aw_db := (aw_db w0)\<lparr>db_now := now\<rparr>\<rparr> in
       case body of
         None \<Rightarrow> (Inl (bad_request ''invalid JSON''), w)
       | Some b \<Rightarrow>
           if sb_goal b = [] then (Inl (bad_request ''goal required''), w)
           else let role = (if sb_role b = [] then ''operator'' else sb_role b);
                    steps = (if sb_max_steps b = 0 then sc_max_steps sc else sb_max_steps b);
                    sid = ''sess-'' @ print_int (unix_nano now) in
           (case create_session \<lparr>ses_id = sid, ses_tenant = tenant, ses_role = role, ses_goal = sb_goal b,
                    ses_status = ''active'', ses_step_count = 0, ses_max_steps = steps, ses_gate = [],
                    ses_created = 0, ses_updated = 0\<rparr> (aw_db w) of
              (Inl e, db) \<Rightarrow> (Inl (internal e), w)
            | (Inr _, db) \<Rightarrow>
                (case run (service_env sc) (sb_goal b) (service_agent sc steps tenant sid (w\<lparr>aw_db := db\<rparr>)) of
                   (a, out, e) \<Rightarrow>
                     let w1 = world_after a;
                         w2 = (if oc_status out = ''awaiting_gate''
                               then set_world_status sid ''awaiting_gate'' (oc_gate out) w1 else w1) in
                     if e \<noteq> None \<and> oc_status out \<noteq> ''failed'' then (Inl (internal (the e)), w2)
                     else (Inr \<lparr>sr_session = sid, sr_status = oc_status out, sr_gate = oc_gate out,
                                sr_final = final out, sr_error = oc_error out\<rparr>, w2))))"

definition get_sessions :: "headers \<Rightarrow> agent_world \<Rightarrow> (problem + session_row list) \<times> agent_world" where
  "get_sessions hdrs = with_tenant hdrs (\<lambda>tenant w. (Inr (list_sessions tenant 50 (aw_db w)), w))"

definition get_session :: "headers \<Rightarrow> string \<Rightarrow> agent_world
    \<Rightarrow> (problem + session_row \<times> string \<times> agent_step list) \<times> agent_world" where
  "get_session hdrs sid =
     with_tenant hdrs (\<lambda>tenant w.
       case get_session_row sid (aw_db w) of
         None \<Rightarrow> (Inl (not_found ''session not found''), w)
       | Some (ses, gid) \<Rightarrow>
           if tenant \<noteq> [] \<and> tenant \<noteq> ses_tenant ses then (Inl (forbidden ''cross-tenant read denied''), w)
           else (Inr (ses, gid, list_steps (aw_db w) sid), w))"

text \<open>What the resume handler and the bus subscription share: a fresh agent, the resumed run, the status.\<close>

definition resume_agent :: "service_conf \<Rightarrow> session_row \<Rightarrow> string \<Rightarrow> json \<Rightarrow> agent_world
    \<Rightarrow> agent_outcome \<times> string option \<times> agent_world" where
  "resume_agent sc ses gid result w =
     (case resume_run (service_env sc) gid result
             (service_agent sc (ses_max_steps ses) (ses_tenant ses) (ses_id ses) w) of
        (a, out, e) \<Rightarrow> (out, e, set_world_status (ses_id ses) (oc_status out) [] (world_after a)))"

definition post_resume :: "service_conf \<Rightarrow> time \<Rightarrow> headers \<Rightarrow> string \<Rightarrow> (string \<times> json) option \<Rightarrow> agent_world
    \<Rightarrow> (problem + session_reply) \<times> agent_world" where
  "post_resume sc now hdrs sid body =
     with_tenant hdrs (\<lambda>tenant w0.
       let w = w0\<lparr>aw_db := (aw_db w0)\<lparr>db_now := now\<rparr>\<rparr> in
       case body of
         None \<Rightarrow> (Inl (bad_request ''invalid JSON''), w)
       | Some (gid, result) \<Rightarrow>
           if gid = [] then (Inl (bad_request ''gate_id required''), w)
           else case get_session_row sid (aw_db w) of
             None \<Rightarrow> (Inl (not_found ''session not found''), w)
           | Some (ses, waiting) \<Rightarrow>
               if waiting \<noteq> gid then (Inl (bad_request ''gate id mismatch''), w)
               else (case resume_agent sc ses gid result w of
                   (out, e, w1) \<Rightarrow>
                     if e \<noteq> None \<and> oc_status out \<noteq> ''failed'' then (Inl (internal (the e)), w1)
                     else (Inr \<lparr>sr_session = ses_id ses, sr_status = oc_status out, sr_gate = [],
                                sr_final = final out, sr_error = oc_error out\<rparr>, w1)))"

text \<open>
  The subscription to \<open>gate.resolved.>\<close>. The message's gate is None when its data is no gate; \<open>verdict\<close>
  is the JSON text of the decision, its author and reason.
\<close>

definition auto_resume :: "service_conf \<Rightarrow> (pg_gate \<Rightarrow> json) \<Rightarrow> time \<Rightarrow> string \<Rightarrow> string \<Rightarrow> pg_gate option \<Rightarrow> agent_world
    \<Rightarrow> agent_world" where
  "auto_resume sc verdict now tenant session gate w0 =
     (let w = w0\<lparr>aw_db := (aw_db w0)\<lparr>db_now := now\<rparr>\<rparr> in
      case gate of
        None \<Rightarrow> w
      | Some g \<Rightarrow>
          let sid = (if session = [] then
                (case find (\<lambda>ses. ses_status ses = ''awaiting_gate'') (list_sessions tenant 50 (aw_db w)) of
                   None \<Rightarrow> [] | Some ses \<Rightarrow> ses_id ses) else session) in
          if sid = [] then w
          else case get_session_row sid (aw_db w) of
            None \<Rightarrow> w
          | Some (ses, waiting) \<Rightarrow>
              if waiting \<noteq> pr_id (gt_request g) then w
              else snd (snd (resume_agent sc ses (pr_id (gt_request g)) (verdict g) w)))"

subsection \<open>The gateway keeps the contract the agent relies on\<close>

lemma post_gate_done:
  assumes "post_gate now hdrs (Some req) s = (Inr g, s')"
  shows "pr_id (gt_request g) = pr_id req \<and> store_get (pr_id req) s = None \<and>
    (\<exists>g'. gate_rows s' = gate_rows s @ [(pr_id req, g')] \<and> gt_decision g' = ''pending'')"
  using assms
  by (auto simp: post_gate_def with_tenant_def store_open_def store_get_def gate_audit_def publish_gate_def Let_def
      split: if_splits)

definition world_decision :: "gate_world \<Rightarrow> string \<Rightarrow> string option" where
  "world_decision gw gid = map_option gt_decision (store_get gid (gw_service gw))"

lemma post_gate_keeps:
  "store_get gid s = Some g \<Longrightarrow> store_get gid (snd (post_gate now hdrs req s)) = Some g"
  using post_gate_step [of now hdrs req s] by (auto simp: opens_def store_get_def)

interpretation hg: gateway "http_open_gate hc" world_decision "\<lambda>_. True" for hc
proof
  show "world_decision g gid = None \<and> world_decision g' gid = Some ''pending''"
    if "http_open_gate hc req g = (Inr gid, g')" for req g gid g'
    using that post_gate_done
    by (auto simp: http_open_gate_def world_decision_def Let_def store_get_def map_add_def
        split: option.splits prod.splits sum.splits dest!: post_gate_done)
  show "world_decision (snd (http_open_gate hc req g)) gid = Some d" if d: "world_decision g gid = Some d" for g gid d req
  proof -
    obtain row where "store_get gid (gw_service g) = Some row" "gt_decision row = d"
      using d by (auto simp: world_decision_def)
    then have "store_get gid (snd (post_gate now hdrs b (gw_service g))) = Some row" for now hdrs b
      by (intro post_gate_keeps)
    then show ?thesis
      using \<open>gt_decision row = d\<close> d
      by (auto simp: http_open_gate_def world_decision_def Let_def split: option.splits prod.splits sum.splits)
        (metis snd_conv)+
  qed
qed simp

subsection \<open>The SQL trail keeps the contract of a session sink\<close>

definition db_accepts :: "agent_db \<Rightarrow> string \<Rightarrow> int \<Rightarrow> bool" where
  "db_accepts db sid i \<longleftrightarrow> (\<forall>((s, j), st) \<in> set (db_steps db). s = sid \<longrightarrow> j = st_index st \<and> j < i)"

definition db_knows :: "agent_db \<Rightarrow> string \<Rightarrow> bool" where
  "db_knows db sid \<longleftrightarrow> map_of (db_sessions db) sid \<noteq> None"

lemma ins_by_append: "\<not> lt x y \<Longrightarrow> ins_by lt y (xs @ [x]) = ins_by lt y xs @ [x]"
  by (induction xs) auto

lemma sort_by_append: "(\<And>y. y \<in> set xs \<Longrightarrow> \<not> lt x y) \<Longrightarrow> sort_by lt (xs @ [x]) = sort_by lt xs @ [x]"
  by (induction xs) (auto simp: ins_by_append)

lemma map_of_map_entry_some:
  "map_of (AList.map_entry k f m) k' = (if k' = k then map_option f (map_of m k) else map_of m k')"
  by (induction m) auto

interpretation db: session_sink sink_append_step sink_set_status list_steps
  "\<lambda>db sid. map_option ses_status (map_of (db_sessions db) sid)" db_accepts db_knows
proof
  fix db sid and st :: agent_step
  assume acc: "db_accepts db sid (st_index st)"
  have new: "map_of (db_steps db) (sid, st_index st) = None"
  proof (rule ccontr)
    assume "map_of (db_steps db) (sid, st_index st) \<noteq> None"
    then obtain st' where "((sid, st_index st), st') \<in> set (db_steps db)" by (auto dest: map_of_SomeD)
    then show False using acc by (auto simp: db_accepts_def)
  qed
  then have steps: "db_steps (sink_append_step sid st db) = db_steps db @ [((sid, st_index st), st)]"
    by (simp add: sink_append_step_def store_append_step_def)
  have later: "\<not> st_index st < st_index y" if "y \<in> set (step_rows db sid)" for y
    using that acc by (fastforce simp: step_rows_def db_accepts_def)
  have rows: "step_rows (sink_append_step sid st db) sid = step_rows db sid @ [st]" by (simp add: step_rows_def steps)
  show "list_steps (sink_append_step sid st db) sid = list_steps db sid @ [st]"
    unfolding list_steps_def rows by (rule sort_by_append) (rule later)
  show "db_accepts (sink_append_step sid st db) sid i" if "st_index st < i" for i
    using acc that by (auto simp: db_accepts_def steps)
qed (auto simp: sink_append_step_def store_append_step_def sink_set_status_def store_set_status_def db_knows_def
    map_of_map_entry_some list_steps_def step_rows_def fun_eq_iff)

subsection \<open>Reachable worlds\<close>

text \<open>Sessions are filed under their ids and every step belongs to a session and is filed under its index.\<close>

definition db_ok :: "agent_db \<Rightarrow> bool" where
  "db_ok db \<longleftrightarrow> (\<forall>sid ses. map_of (db_sessions db) sid = Some ses \<longrightarrow> ses_id ses = sid) \<and>
     (\<forall>((sid, i), st) \<in> set (db_steps db). st_index st = i \<and> db_knows db sid)"

text \<open>What a run of the session \<open>sid\<close> leaves of the tables it started with.\<close>

definition extends_db :: "string \<Rightarrow> agent_db \<Rightarrow> agent_db \<Rightarrow> bool" where
  "extends_db sid db0 db \<longleftrightarrow> (db_ok db0 \<longrightarrow> db_ok db) \<and> (\<forall>s. db_knows db s = db_knows db0 s) \<and>
     (\<forall>k st. map_of (db_steps db0) k = Some st \<longrightarrow> map_of (db_steps db) k = Some st) \<and>
     (\<forall>s. s \<noteq> sid \<longrightarrow> map_of (db_sessions db) s = map_of (db_sessions db0) s \<and> step_rows db s = step_rows db0 s) \<and>
     (\<forall>ses. map_of (db_sessions db0) sid = Some ses \<longrightarrow> (\<exists>ses'. map_of (db_sessions db) sid = Some ses' \<and>
        ses_id ses' = ses_id ses \<and> ses_tenant ses' = ses_tenant ses \<and> ses_goal ses' = ses_goal ses \<and>
        ses_max_steps ses' = ses_max_steps ses \<and> (ses_gate ses' = ses_gate ses \<or> ses_gate ses' = [])))"

definition unresolved :: "agent_db \<Rightarrow> bool" where
  "unresolved db \<longleftrightarrow> (\<forall>(k, st) \<in> set (db_steps db). st_kind st \<noteq> ''gate_resolved'')"

definition started :: "agent_db \<Rightarrow> bool" where
  "started db \<longleftrightarrow> (\<forall>sid. db_knows db sid \<longrightarrow> map_of (db_steps db) (sid, 0) \<noteq> None)"

lemma extends_refl [simp]: "extends_db sid db db"
  by (simp add: extends_db_def)

lemma map_of_append_keep: "map_of m k = Some v \<Longrightarrow> map_of (m @ m') k = Some v"
  by (simp add: map_add_Some_iff)

lemma extends_trans: 
  assumes "extends_db sid db0 db1" "extends_db sid db1 db2"
  shows "extends_db sid db0 db2"
  unfolding extends_db_def
proof (intro conjI allI impI)
  fix ses assume "map_of (db_sessions db0) sid = Some ses"
  then obtain s1 where s1: "map_of (db_sessions db1) sid = Some s1" "ses_id s1 = ses_id ses" "ses_tenant s1 = ses_tenant ses"
    "ses_goal s1 = ses_goal ses" "ses_max_steps s1 = ses_max_steps ses" "ses_gate s1 = ses_gate ses \<or> ses_gate s1 = []"
    using assms(1) unfolding extends_db_def by blast
  then obtain s2 where "map_of (db_sessions db2) sid = Some s2" "ses_id s2 = ses_id s1" "ses_tenant s2 = ses_tenant s1"
    "ses_goal s2 = ses_goal s1" "ses_max_steps s2 = ses_max_steps s1" "ses_gate s2 = ses_gate s1 \<or> ses_gate s2 = []"
    using assms(2) unfolding extends_db_def by blast
  then show "\<exists>ses'. map_of (db_sessions db2) sid = Some ses' \<and> ses_id ses' = ses_id ses \<and>
      ses_tenant ses' = ses_tenant ses \<and> ses_goal ses' = ses_goal ses \<and> ses_max_steps ses' = ses_max_steps ses \<and>
      (ses_gate ses' = ses_gate ses \<or> ses_gate ses' = [])"
    using s1 by auto
qed (use assms in \<open>auto simp: extends_db_def\<close>)

lemma append_step_cases:
  "sink_append_step sid st db = db \<or>
   (map_of (db_steps db) (sid, st_index st) = None \<and>
    sink_append_step sid st db = db\<lparr>db_steps := db_steps db @ [((sid, st_index st), st)],
      db_sessions := AList.map_entry sid (\<lambda>ses. ses\<lparr>ses_step_count := st_index st + 1, ses_updated := db_now db\<rparr>)
        (db_sessions db)\<rparr>)"
  by (simp add: sink_append_step_def store_append_step_def)

lemma extends_append: "db_knows db sid \<Longrightarrow> extends_db sid db (sink_append_step sid st db)"
proof (rule disjE [OF append_step_cases [of sid st db]], simp, elim conjE)
  assume k: "db_knows db sid" and n: "map_of (db_steps db) (sid, st_index st) = None"
    and e: "sink_append_step sid st db = db\<lparr>db_steps := db_steps db @ [((sid, st_index st), st)],
      db_sessions := AList.map_entry sid (\<lambda>ses. ses\<lparr>ses_step_count := st_index st + 1, ses_updated := db_now db\<rparr>)
        (db_sessions db)\<rparr>"
  have m: "map_of (db_sessions (sink_append_step sid st db)) s =
      (if s = sid then map_option (\<lambda>ses. ses\<lparr>ses_step_count := st_index st + 1, ses_updated := db_now db\<rparr>)
         (map_of (db_sessions db) s) else map_of (db_sessions db) s)" for s
    by (simp add: e map_of_map_entry_some)
  have kn: "db_knows (sink_append_step sid st db) s = db_knows db s" for s by (simp add: db_knows_def m)
  have "db_ok (sink_append_step sid st db)" if "db_ok db"
    using that k unfolding db_ok_def kn m by (auto simp: e)
  then show "extends_db sid db (sink_append_step sid st db)"
    unfolding extends_db_def kn m using n by (auto simp: e step_rows_def map_add_Some_iff)
qed

lemma extends_status: "extends_db sid db (store_set_status sid x [] db)"
proof -
  have m: "map_of (db_sessions (store_set_status sid x [] db)) s =
      (if s = sid then map_option (\<lambda>ses. ses\<lparr>ses_status := x, ses_gate := [], ses_updated := db_now db\<rparr>)
         (map_of (db_sessions db) s) else map_of (db_sessions db) s)" for s
    by (simp add: store_set_status_def map_of_map_entry_some)
  have st: "db_steps (store_set_status sid x [] db) = db_steps db" by (simp add: store_set_status_def)
  have kn: "db_knows (store_set_status sid x [] db) s = db_knows db s" for s by (simp add: db_knows_def m)
  have "db_ok (store_set_status sid x [] db)" if "db_ok db"
    using that unfolding db_ok_def kn m by (auto simp: st)
  then show ?thesis unfolding extends_db_def kn m by (auto simp: st step_rows_def)
qed

lemma env_keeps:
  "sink_ops_keep (service_env sc) sid
     (\<lambda>db. db_knows db sid \<and> extends_db sid db0 db \<and> (unresolved db0 \<longrightarrow> unresolved db))"
  unfolding sink_ops_keep_def
proof (intro conjI allI impI; elim conjE)
  fix st :: agent_step and db
  assume k: "st_kind st \<noteq> ''gate_resolved''" "db_knows db sid" "extends_db sid db0 db" "unresolved db0 \<longrightarrow> unresolved db"
  have x: "extends_db sid db (sink_append_step sid st db)" using extends_append k(2) .
  show "db_knows (append_step (service_env sc) sid st db) sid" "extends_db sid db0 (append_step (service_env sc) sid st db)"
    using extends_trans [OF k(3) x] x k(2) by (simp_all add: service_env_def extends_db_def)
  show "unresolved (append_step (service_env sc) sid st db)" if "unresolved db0"
    using append_step_cases [of sid st db] k that by (auto simp: service_env_def unresolved_def)
next
  fix x db
  assume k: "db_knows db sid" "extends_db sid db0 db" "unresolved db0 \<longrightarrow> unresolved db"
  note e = extends_status [of sid db x]
  show "db_knows (set_status (service_env sc) sid x db) sid" "extends_db sid db0 (set_status (service_env sc) sid x db)"
    using extends_trans [OF k(2) e] e k(1) by (simp_all add: service_env_def sink_set_status_def extends_db_def)
  show "unresolved (set_status (service_env sc) sid x db)" if "unresolved db0"
    using k that by (auto simp: service_env_def unresolved_def sink_set_status_def store_set_status_def)
qed

lemma service_agent_simps [simp]:
  "ag_session (service_agent sc n t sid w) = sid" "ag_sink (service_agent sc n t sid w) = Some (aw_db w)"
  "ag_step (service_agent sc n t sid w) = 0" "ag_gateway (service_agent sc n t sid w) = aw_gates w"
  by (simp_all add: service_agent_def new_agent_def)

definition kept_by :: "string \<Rightarrow> agent_db \<Rightarrow> agent_db \<Rightarrow> bool" where
  "kept_by sid db0 db \<longleftrightarrow> db_knows db sid \<and> extends_db sid db0 db \<and> (unresolved db0 \<longrightarrow> unresolved db)"

lemma run_world:
  assumes "db_knows (aw_db w) sid" "run (service_env sc) goal (service_agent sc n t sid w) = (a, out, e)"
  shows "kept_by sid (aw_db w) (aw_db (world_after a))" "ag_sink a = Some (aw_db (world_after a))"
proof -
  have "sink_kept (\<lambda>db. db_knows db sid \<and> extends_db sid (aw_db w) db \<and> (unresolved (aw_db w) \<longrightarrow> unresolved db))
      (service_agent sc n t sid w) (fst (run (service_env sc) goal (service_agent sc n t sid w)))"
    by (rule run_sink) (use env_keeps in simp)
  then obtain db where "ag_sink a = Some db" "kept_by sid (aw_db w) db"
    using assms by (cases "ag_sink a") (auto simp: sink_kept_def kept_by_def)
  then show "kept_by sid (aw_db w) (aw_db (world_after a))" "ag_sink a = Some (aw_db (world_after a))"
    by (simp_all add: world_after_def)
qed

lemma resume_world:
  assumes "db_knows (aw_db w) sid" "map_of (db_steps (aw_db w)) (sid, 0) \<noteq> None"
    "resume_run (service_env sc) gid result (service_agent sc n t sid w) = (a, out, e)"
  shows "kept_by sid (aw_db w) (aw_db (world_after a))"
proof -
  let ?I = "\<lambda>db. db_knows db sid \<and> extends_db sid (aw_db w) db \<and> (unresolved (aw_db w) \<longrightarrow> unresolved db)"
  have "sink_kept ?I (service_agent sc n t sid w) (fst (resume_run (service_env sc) gid result (service_agent sc n t sid w)))"
  proof (rule resume_sink)
    show "sink_ops_keep (service_env sc) (ag_session (service_agent sc n t sid w)) ?I" using env_keeps by simp
    fix db and st :: agent_step
    assume i: "?I db" "st_index st = ag_step (service_agent sc n t sid w)"
    obtain st0 where "map_of (db_steps (aw_db w)) (sid, 0) = Some st0" using assms(2) by auto
    then have "map_of (db_steps db) (sid, 0) = Some st0" using i(1) unfolding extends_db_def by blast
    then have "sink_append_step sid st db = db"
      using i(2) by (simp add: sink_append_step_def store_append_step_def)
    then show "?I (append_step (service_env sc) (ag_session (service_agent sc n t sid w)) st db)"
      using i by (simp add: service_env_def)
  qed
  then obtain db where "ag_sink a = Some db" "kept_by sid (aw_db w) db"
    using assms by (cases "ag_sink a") (auto simp: sink_kept_def kept_by_def)
  then show ?thesis by (simp add: world_after_def)
qed

lemma kept_status: "kept_by sid db0 db \<Longrightarrow> kept_by sid db0 (store_set_status sid x [] db)"
proof -
  assume k: "kept_by sid db0 db"
  note e = extends_status [of sid db x]
  have "unresolved (store_set_status sid x [] db) = unresolved db" by (simp add: unresolved_def store_set_status_def)
  moreover have "db_knows (store_set_status sid x [] db) sid"
    using e k unfolding extends_db_def kept_by_def by blast
  moreover have "extends_db sid db0 (store_set_status sid x [] db)"
    using extends_trans [OF _ e] k unfolding kept_by_def by blast
  ultimately show ?thesis using k unfolding kept_by_def by simp
qed

lemma resume_agent_world:
  assumes "db_ok (aw_db w)" "db_knows (aw_db w) sid" "map_of (db_steps (aw_db w)) (sid, 0) \<noteq> None"
    "resume_agent sc ses gid result w = (out, e, w')" "ses_id ses = sid"
  shows "kept_by sid (aw_db w) (aw_db w')"
    "\<exists>ses'. map_of (db_sessions (aw_db w')) sid = Some ses' \<and> ses_status ses' = oc_status out \<and> ses_gate ses' = []"
proof -
  obtain a where r: "resume_run (service_env sc) gid result (service_agent sc (ses_max_steps ses) (ses_tenant ses) sid w) = (a, out, e)"
    "w' = set_world_status sid (oc_status out) [] (world_after a)"
    using assms(4,5) by (auto simp: resume_agent_def split: prod.splits)
  note k = resume_world [OF assms(2,3) r(1)]
  show "kept_by sid (aw_db w) (aw_db w')" using kept_status [OF k] by (simp add: r(2) set_world_status_def)
  show "\<exists>ses'. map_of (db_sessions (aw_db w')) sid = Some ses' \<and> ses_status ses' = oc_status out \<and> ses_gate ses' = []"
    using k by (auto simp: r(2) set_world_status_def kept_by_def db_knows_def store_set_status_def map_of_map_entry_some)
qed

definition world_ok :: "agent_world \<Rightarrow> bool" where
  "world_ok w \<longleftrightarrow> db_ok (aw_db w) \<and> unresolved (aw_db w) \<and> started (aw_db w)"

lemma kept_world_ok: "kept_by sid (aw_db w) (aw_db w') \<Longrightarrow> world_ok w \<Longrightarrow> world_ok w'"
  unfolding kept_by_def world_ok_def extends_db_def started_def by (metis option.exhaust)

text \<open>A session that was just created: its first run.\<close>

lemma created_session:
  assumes "db_ok db" "create_session ses db = (Inr u, db1)" "ses_gate ses = []"
  shows "map_of (db_sessions db) (ses_id ses) = None" "db_ok db1" "db_knows db1 (ses_id ses)"
    "\<exists>ses1. map_of (db_sessions db1) (ses_id ses) = Some ses1 \<and> ses_id ses1 = ses_id ses \<and> ses_tenant ses1 = ses_tenant ses \<and>
       ses_goal ses1 = ses_goal ses \<and> ses_max_steps ses1 = ses_max_steps ses \<and> ses_gate ses1 = []"
    "db_steps db1 = db_steps db" "db_accepts db1 (ses_id ses) 0" "step_rows db1 (ses_id ses) = []"
    "\<And>s. s \<noteq> ses_id ses \<Longrightarrow> map_of (db_sessions db1) s = map_of (db_sessions db) s"
proof -
  let ?ses1 = "ses\<lparr>ses_created := (if is_zero (ses_created ses) then db_now db else ses_created ses),
    ses_updated := db_now db, ses_gate := []\<rparr>"
  show n: "map_of (db_sessions db) (ses_id ses) = None" and st: "db_steps db1 = db_steps db"
    using assms(2) by (auto simp: create_session_def Let_def split: if_splits)
  have e: "db1 = db\<lparr>db_sessions := db_sessions db @ [(ses_id ses, ?ses1)]\<rparr>"
    using assms(2) by (auto simp: create_session_def Let_def split: if_splits)
  have m: "map_of (db_sessions db1) s = (if s = ses_id ses then Some ?ses1 else map_of (db_sessions db) s)" for s
    using n by (auto simp: e map_add_def split: option.splits)
  show "db_ok db1" using assms(1) unfolding db_ok_def db_knows_def m st by (auto split: if_splits)
  show "db_knows db1 (ses_id ses)" by (simp add: db_knows_def m)
  show "\<exists>ses1. map_of (db_sessions db1) (ses_id ses) = Some ses1 \<and> ses_id ses1 = ses_id ses \<and> ses_tenant ses1 = ses_tenant ses \<and>
       ses_goal ses1 = ses_goal ses \<and> ses_max_steps ses1 = ses_max_steps ses \<and> ses_gate ses1 = []" by (simp add: m)
  show "map_of (db_sessions db1) s = map_of (db_sessions db) s" if "s \<noteq> ses_id ses" for s using that by (simp add: m)
  have "s \<noteq> ses_id ses" if "((s, i), st) \<in> set (db_steps db)" for s i st
    using assms(1) that n by (auto simp: db_ok_def db_knows_def)
  then show "db_accepts db1 (ses_id ses) 0" "step_rows db1 (ses_id ses) = []"
    by (auto simp: db_accepts_def st step_rows_def filter_empty_conv)
qed

lemma db_now_simps [simp]:
  "db_ok (db\<lparr>db_now := t\<rparr>) = db_ok db" "unresolved (db\<lparr>db_now := t\<rparr>) = unresolved db"
  "started (db\<lparr>db_now := t\<rparr>) = started db" "db_knows (db\<lparr>db_now := t\<rparr>) s = db_knows db s"
  by (simp_all add: db_ok_def unresolved_def started_def db_knows_def)

lemma in_list_steps: "db_ok db \<Longrightarrow> st \<in> set (list_steps db sid) \<Longrightarrow> map_of (db_steps db) (sid, st_index st) \<noteq> None"
  unfolding list_steps_def set_sort_by
  by (auto simp: step_rows_def db_ok_def map_of_eq_None_iff image_iff) force

lemma first_run:
  assumes "db_ok db" "create_session ses db = (Inr u, db1)" "ses_gate ses = []" "sid = ses_id ses"
    "run (service_env sc) goal (service_agent sc n t sid (w\<lparr>aw_db := db1\<rparr>)) = (a, out, e)"
  shows "kept_by sid db1 (aw_db (world_after a))" "list_steps (aw_db (world_after a)) sid = oc_steps out"
    "map st_index (oc_steps out) = map int [0..<length (oc_steps out)]" "oc_steps out \<noteq> []"
    "e = None \<longleftrightarrow> oc_status out \<noteq> ''failed''"
    "\<exists>ses'. map_of (db_sessions (aw_db (world_after a))) sid = Some ses' \<and> ses_status ses' = oc_status out \<and>
       ses_gate ses' = [] \<and> ses_tenant ses' = ses_tenant ses \<and> ses_goal ses' = ses_goal ses \<and> ses_max_steps ses' = ses_max_steps ses"
proof -
  let ?a = "with_goal goal (service_agent sc n t sid (w\<lparr>aw_db := db1\<rparr>))"
  note c = created_session [OF assms(1-3), folded assms(4)]
  show k: "kept_by sid db1 (aw_db (world_after a))"
    using run_world(1) [of "w\<lparr>aw_db := db1\<rparr>" sid] c(3) assms(5) by simp
  have l: "agent_loop (service_env sc) ?a empty_outcome = (a, out, e)" using assms(5) by (simp add: run_def)
  then obtain s' new where s': "ag_sink a = Some s'" "oc_steps out = oc_steps empty_outcome @ new"
    "list_steps s' sid = list_steps db1 sid @ new" "map st_index new = map (\<lambda>k. 0 + int k) [0..<length new]"
    "map_option ses_status (map_of (db_sessions s') sid) = Some (oc_status out)"
    using db.loop_persists [OF _ _ _ _ _ l] c(3,6) by (auto simp: service_env_def)
  have w: "aw_db (world_after a) = s'" using s'(1) by (simp add: world_after_def)
  have z: "list_steps db1 sid = []" using c(7) by (simp add: list_steps_def)
  show "list_steps (aw_db (world_after a)) sid = oc_steps out"
    "map st_index (oc_steps out) = map int [0..<length (oc_steps out)]"
    using s' z w by (simp_all add: empty_outcome_def)
  show "oc_steps out \<noteq> []" "e = None \<longleftrightarrow> oc_status out \<noteq> ''failed''"
    using loop_ends [of "service_env sc" ?a empty_outcome] l by (simp_all add: proper_end_def)
  obtain ses1 where ses1: "map_of (db_sessions db1) sid = Some ses1" "ses_tenant ses1 = ses_tenant ses"
    "ses_goal ses1 = ses_goal ses" "ses_max_steps ses1 = ses_max_steps ses" "ses_gate ses1 = []"
    using c(4) by blast
  then obtain ses' where "map_of (db_sessions s') sid = Some ses'" "ses_tenant ses' = ses_tenant ses"
    "ses_goal ses' = ses_goal ses" "ses_max_steps ses' = ses_max_steps ses" "ses_gate ses' = []"
    using k unfolding kept_by_def extends_db_def w by metis
  then show "\<exists>ses'. map_of (db_sessions (aw_db (world_after a))) sid = Some ses' \<and> ses_status ses' = oc_status out \<and>
       ses_gate ses' = [] \<and> ses_tenant ses' = ses_tenant ses \<and> ses_goal ses' = ses_goal ses \<and> ses_max_steps ses' = ses_max_steps ses"
    using s'(5) w by auto
qed

text \<open>What a call of POST /v1/agents/sessions does: nothing but the clock, or a session and its first run.\<close>

definition runs_session :: "service_conf \<Rightarrow> string \<Rightarrow> agent_world \<Rightarrow> session_reply \<Rightarrow> agent_world \<Rightarrow> bool" where
  "runs_session sc tenant w r w' \<longleftrightarrow>
     (\<exists>ses db1 goal n a out e. create_session ses (aw_db w) = (Inr (), db1) \<and> ses_gate ses = [] \<and> ses_tenant ses = tenant \<and>
        run (service_env sc) goal (service_agent sc n tenant (ses_id ses) (w\<lparr>aw_db := db1\<rparr>)) = (a, out, e) \<and>
        r = \<lparr>sr_session = ses_id ses, sr_status = oc_status out, sr_gate = oc_gate out, sr_final = final out, sr_error = oc_error out\<rparr> \<and>
        w' = (if oc_status out = ''awaiting_gate'' then set_world_status (ses_id ses) ''awaiting_gate'' (oc_gate out) (world_after a)
              else world_after a))"

lemma runs_session_gates:
  assumes "runs_session sc tenant w r w'"
  shows "\<exists>sid db1 goal n a out e. run (service_env sc) goal (service_agent sc n tenant sid (w\<lparr>aw_db := db1\<rparr>)) = (a, out, e) \<and>
    sr_status r = oc_status out \<and> aw_gates w' = ag_gateway a"
  using assms unfolding runs_session_def
proof (elim exE conjE)
  fix ses db1 goal n a out e
  assume run: "run (service_env sc) goal (service_agent sc n tenant (ses_id ses) (w\<lparr>aw_db := db1\<rparr>)) = (a, out, e)"
    and r: "r = \<lparr>sr_session = ses_id ses, sr_status = oc_status out, sr_gate = oc_gate out, sr_final = final out, sr_error = oc_error out\<rparr>"
    and w': "w' = (if oc_status out = ''awaiting_gate'' then set_world_status (ses_id ses) ''awaiting_gate'' (oc_gate out) (world_after a)
              else world_after a)"
  have "sr_status r = oc_status out" "aw_gates w' = ag_gateway a"
    by (simp_all add: r w' set_world_status_def world_after_def)
  then show ?thesis using run by blast
qed

lemma post_session_cases:
  assumes "world_ok w" "post_session sc now hdrs body w = (r, w')"
  shows "(\<exists>p. r = Inl p) \<and> (w' = w \<or> w' = w\<lparr>aw_db := (aw_db w)\<lparr>db_now := now\<rparr>\<rparr>) \<and>
      (tenant_header hdrs = [] \<or> body = None \<or> sb_goal (the body) = [] \<or>
       map_of (db_sessions (aw_db w)) (''sess-'' @ print_int (unix_nano now)) \<noteq> None) \<or>
    (\<exists>reply. r = Inr reply \<and> runs_session sc (tenant_header hdrs) (w\<lparr>aw_db := (aw_db w)\<lparr>db_now := now\<rparr>\<rparr>) reply w')"
proof (cases "tenant_header hdrs = [] \<or> body = None \<or> sb_goal (the body) = []")
  case True
  then show ?thesis
    using assms(2) by (cases body) (auto simp: post_session_def with_tenant_def Let_def split: if_splits)
next
  case False
  then obtain b where b: "body = Some b" "sb_goal b \<noteq> []" "tenant_header hdrs \<noteq> []" by auto
  let ?w = "w\<lparr>aw_db := (aw_db w)\<lparr>db_now := now\<rparr>\<rparr>"
  let ?n = "if sb_max_steps b = 0 then sc_max_steps sc else sb_max_steps b"
  let ?sid = "''sess-'' @ print_int (unix_nano now)"
  let ?ses = "\<lparr>ses_id = ?sid, ses_tenant = tenant_header hdrs, ses_role = (if sb_role b = [] then ''operator'' else sb_role b),
    ses_goal = sb_goal b, ses_status = ''active'', ses_step_count = 0, ses_max_steps = ?n, ses_gate = [],
    ses_created = 0, ses_updated = 0\<rparr>"
  show ?thesis
  proof (cases "create_session ?ses (aw_db ?w)")
    case (Pair res db1)
    show ?thesis
    proof (cases res)
      case (Inl err)
      then have "map_of (db_sessions (aw_db w)) ?sid \<noteq> None"
        using Pair by (auto simp: create_session_def Let_def split: if_splits)
      then show ?thesis using Inl assms(2) b Pair by (auto simp: post_session_def with_tenant_def Let_def)
    next
      case (Inr u)
      obtain a out e where r: "run (service_env sc) (sb_goal b) (service_agent sc ?n (tenant_header hdrs) ?sid (?w\<lparr>aw_db := db1\<rparr>)) = (a, out, e)"
        by (metis prod_cases3)
      have ok: "db_ok (aw_db ?w)" using assms(1) by (simp add: world_ok_def)
      have "e = None \<longleftrightarrow> oc_status out \<noteq> ''failed''"
        by (rule first_run(5) [OF ok, of ?ses u db1 ?sid sc "sb_goal b" ?n "tenant_header hdrs" ?w a out e])
          (use Pair Inr r in simp_all)
      then have e: "r = Inr \<lparr>sr_session = ?sid, sr_status = oc_status out, sr_gate = oc_gate out, sr_final = final out,
            sr_error = oc_error out\<rparr>"
          "w' = (if oc_status out = ''awaiting_gate'' then set_world_status ?sid ''awaiting_gate'' (oc_gate out) (world_after a)
              else world_after a)"
        using assms(2) b Pair Inr r by (auto simp: post_session_def with_tenant_def Let_def)
      have "runs_session sc (tenant_header hdrs) ?w \<lparr>sr_session = ?sid, sr_status = oc_status out, sr_gate = oc_gate out,
          sr_final = final out, sr_error = oc_error out\<rparr> w'"
        unfolding runs_session_def
        by (intro exI [of _ ?ses] exI [of _ db1] exI [of _ "sb_goal b"] exI [of _ ?n] exI [of _ a] exI [of _ out] exI [of _ e])
          (use Pair Inr r e in auto)
      then show ?thesis using e by blast
    qed
  qed
qed

lemma runs_session_stored:
  assumes "world_ok w" "runs_session sc tenant w r w'"
  shows "world_ok w'"
    "\<exists>ses. map_of (db_sessions (aw_db w')) (sr_session r) = Some ses \<and> ses_tenant ses = tenant \<and> ses_status ses = sr_status r \<and>
       ses_gate ses = (if sr_status r = ''awaiting_gate'' then sr_gate r else [])"
    "list_steps (aw_db w') (sr_session r) \<noteq> []"
    "map st_index (list_steps (aw_db w') (sr_session r)) = map int [0..<length (list_steps (aw_db w') (sr_session r))]"
    "map_of (db_sessions (aw_db w)) (sr_session r) = None"
    "\<And>s. s \<noteq> sr_session r \<Longrightarrow> map_of (db_sessions (aw_db w')) s = map_of (db_sessions (aw_db w)) s \<and>
       list_steps (aw_db w') s = list_steps (aw_db w) s"
proof -
  obtain ses db1 goal n a out e where c: "create_session ses (aw_db w) = (Inr (), db1)" "ses_gate ses = []" "ses_tenant ses = tenant"
    and r: "run (service_env sc) goal (service_agent sc n tenant (ses_id ses) (w\<lparr>aw_db := db1\<rparr>)) = (a, out, e)"
    and reply: "r = \<lparr>sr_session = ses_id ses, sr_status = oc_status out, sr_gate = oc_gate out, sr_final = final out, sr_error = oc_error out\<rparr>"
    and w': "w' = (if oc_status out = ''awaiting_gate'' then set_world_status (ses_id ses) ''awaiting_gate'' (oc_gate out) (world_after a)
              else world_after a)"
    using assms(2) unfolding runs_session_def by blast
  have ok: "db_ok (aw_db w)" "unresolved (aw_db w)" "started (aw_db w)" using assms(1) by (simp_all add: world_ok_def)
  note cs = created_session [OF ok(1) c(1,2)]
  note f = first_run [OF ok(1) c(1,2) refl r]
  let ?db = "aw_db (world_after a)" and ?sid = "ses_id ses"
  have steps: "db_steps (aw_db w') = db_steps ?db" by (simp add: w' set_world_status_def store_set_status_def)
  have lst: "list_steps (aw_db w') s = list_steps ?db s" for s by (simp add: list_steps_def step_rows_def steps)
  have ses: "map_of (db_sessions (aw_db w')) s = (if s = ?sid \<and> oc_status out = ''awaiting_gate''
      then map_option (\<lambda>x. x\<lparr>ses_status := ''awaiting_gate'', ses_gate := oc_gate out, ses_updated := db_now ?db\<rparr>) (map_of (db_sessions ?db) s)
      else map_of (db_sessions ?db) s)" for s
    by (simp add: w' set_world_status_def store_set_status_def map_of_map_entry_some)
  have kn: "db_knows (aw_db w') s = db_knows ?db s" for s by (simp add: db_knows_def ses)
  have dbok: "db_ok ?db" "unresolved ?db" using f(1) cs(2,5) ok(2) by (auto simp: kept_by_def extends_db_def unresolved_def)
  show "\<exists>ses. map_of (db_sessions (aw_db w')) (sr_session r) = Some ses \<and> ses_tenant ses = tenant \<and> ses_status ses = sr_status r \<and>
       ses_gate ses = (if sr_status r = ''awaiting_gate'' then sr_gate r else [])"
    using f(6) c(3) by (auto simp: reply ses)
  show "list_steps (aw_db w') (sr_session r) \<noteq> []"
    "map st_index (list_steps (aw_db w') (sr_session r)) = map int [0..<length (list_steps (aw_db w') (sr_session r))]"
    using f(2-4) by (simp_all add: reply lst)
  show "map_of (db_sessions (aw_db w)) (sr_session r) = None" using cs(1) by (simp add: reply)
  have other: "map_of (db_sessions ?db) s = map_of (db_sessions (aw_db w)) s \<and> step_rows ?db s = step_rows (aw_db w) s"
    if "s \<noteq> ?sid" for s
    using f(1) cs(8) [OF that] that cs(5) by (simp add: kept_by_def extends_db_def step_rows_def)
  then show "map_of (db_sessions (aw_db w')) s = map_of (db_sessions (aw_db w)) s \<and> list_steps (aw_db w') s = list_steps (aw_db w) s"
    if "s \<noteq> sr_session r" for s
  proof -
    have n: "s \<noteq> ?sid" using that by (simp add: reply)
    then have "list_steps ?db s = list_steps (aw_db w) s" using other by (simp add: list_steps_def)
    then show ?thesis using other [OF n] n by (simp add: ses lst)
  qed
  have "db_ok (aw_db w')"
    using dbok(1) unfolding db_ok_def kn steps by (auto simp: ses)
  moreover have "unresolved (aw_db w')" using dbok(2) by (simp add: unresolved_def steps)
  moreover have "started (aw_db w')"
    unfolding started_def
  proof (intro allI impI)
    fix s assume s: "db_knows (aw_db w') s"
    show "map_of (db_steps (aw_db w')) (s, 0) \<noteq> None"
    proof (cases "s = ?sid")
      case True
      have "hd (oc_steps out) \<in> set (list_steps ?db ?sid)" "st_index (hd (oc_steps out)) = 0"
        using f(2-4) by (simp, cases "oc_steps out") (auto simp: upt_rec)
      then show ?thesis using in_list_steps [OF dbok(1), of "hd (oc_steps out)" ?sid] True by (simp add: steps)
    next
      case False
      then have "db_knows (aw_db w) s" using s other unfolding kn by (simp add: db_knows_def)
      then obtain st where "map_of (db_steps (aw_db w)) (s, 0) = Some st" using ok(3) by (auto simp: started_def)
      then have "map_of (db_steps ?db) (s, 0) = Some st" using f(1) cs(5) unfolding kept_by_def extends_db_def by metis
      then show ?thesis by (simp add: steps)
    qed
  qed
  ultimately show "world_ok w'" by (simp add: world_ok_def)
qed

text \<open>
  The requests and messages of a running system: the agent's own, and those of policy-gate-service that
  others send.
\<close>

inductive agent_step_rel :: "service_conf \<Rightarrow> agent_world \<Rightarrow> agent_world \<Rightarrow> bool" for sc where
  post: "agent_step_rel sc w (snd (post_session sc now hdrs body w))"
| resume: "agent_step_rel sc w (snd (post_resume sc now hdrs sid res w))"
| message: "agent_step_rel sc w (auto_resume sc verdict now tenant session gate w)"
| listed: "agent_step_rel sc w (snd (get_sessions hdrs w))"
| read: "agent_step_rel sc w (snd (get_session hdrs sid w))"
| gate: "gate_step (gw_service (aw_gates w)) svc \<Longrightarrow>
    agent_step_rel sc w (w\<lparr>aw_gates := (aw_gates w)\<lparr>gw_service := svc\<rparr>\<rparr>)"

definition new_agent_world :: agent_world where
  "new_agent_world = \<lparr>aw_db = \<lparr>db_sessions = [], db_steps = [], db_now = 0\<rparr>,
     aw_gates = \<lparr>gw_service = new_gate_service, gw_calls = 0\<rparr>\<rparr>"

abbreviation agent_reachable :: "service_conf \<Rightarrow> agent_world \<Rightarrow> bool" where
  "agent_reachable sc \<equiv> (agent_step_rel sc)\<^sup>*\<^sup>* new_agent_world"

lemma resume_agent_ok:
  assumes "world_ok w" "get_session_row sid (aw_db w) = Some (ses, g)" "resume_agent sc ses gid result w = (out, e, w')"
  shows "world_ok w'" "kept_by sid (aw_db w) (aw_db w')"
    "\<exists>ses'. map_of (db_sessions (aw_db w')) sid = Some ses' \<and> ses_status ses' = oc_status out \<and> ses_gate ses' = []"
proof -
  have ses: "map_of (db_sessions (aw_db w)) sid = Some ses" using assms(2) by (auto simp: get_session_row_def)
  then have k: "db_knows (aw_db w) sid" by (simp add: db_knows_def)
  have i: "ses_id ses = sid" "map_of (db_steps (aw_db w)) (sid, 0) \<noteq> None" "db_ok (aw_db w)"
    using assms(1) ses k by (auto simp: world_ok_def db_ok_def started_def)
  note r = resume_agent_world [OF i(3) k i(2) assms(3) i(1)]
  show "kept_by sid (aw_db w) (aw_db w')" by (rule r(1))
  then show "world_ok w'" using kept_world_ok assms(1) by blast
  show "\<exists>ses'. map_of (db_sessions (aw_db w')) sid = Some ses' \<and> ses_status ses' = oc_status out \<and> ses_gate ses' = []"
    by (rule r(2))
qed

lemma now_ok [simp]: "world_ok (w\<lparr>aw_db := (aw_db w)\<lparr>db_now := t\<rparr>\<rparr>) = world_ok w"
  by (simp add: world_ok_def)

text \<open>What resuming does, on either way: nothing but the clock, or one resumed run of a session that waits for the gate.\<close>

definition resumes :: "service_conf \<Rightarrow> string \<Rightarrow> string \<Rightarrow> agent_world \<Rightarrow> agent_outcome \<Rightarrow> agent_world \<Rightarrow> bool" where
  "resumes sc sid gid w out w' \<longleftrightarrow> (\<exists>ses result e. get_session_row sid (aw_db w) = Some (ses, gid) \<and>
     resume_agent sc ses gid result w = (out, e, w'))"

lemma post_resume_cases:
  "(\<exists>p. fst (post_resume sc now hdrs sid res w) = Inl p) \<and>
     (snd (post_resume sc now hdrs sid res w) = w \<or> snd (post_resume sc now hdrs sid res w) = w\<lparr>aw_db := (aw_db w)\<lparr>db_now := now\<rparr>\<rparr>) \<or>
   (\<exists>gid out. gid \<noteq> [] \<and> map_option fst res = Some gid \<and>
      resumes sc sid gid (w\<lparr>aw_db := (aw_db w)\<lparr>db_now := now\<rparr>\<rparr>) out (snd (post_resume sc now hdrs sid res w)) \<and>
      (\<forall>r. fst (post_resume sc now hdrs sid res w) = Inr r \<longrightarrow> sr_status r = oc_status out))"
proof -
  let ?w = "w\<lparr>aw_db := (aw_db w)\<lparr>db_now := now\<rparr>\<rparr>"
  show ?thesis
  proof (cases "tenant_header hdrs = [] \<or> res = None \<or> fst (the res) = [] \<or> get_session_row sid (aw_db ?w) = None \<or>
      snd (the (get_session_row sid (aw_db ?w))) \<noteq> fst (the res)")
    case True
    then show ?thesis
      by (cases res; cases "get_session_row sid (aw_db ?w)") (auto simp: post_resume_def with_tenant_def Let_def)
  next
    case False
    then obtain gid result ses where r: "res = Some (gid, result)" "gid \<noteq> []" "get_session_row sid (aw_db ?w) = Some (ses, gid)"
      "tenant_header hdrs \<noteq> []" by (cases res) auto
    obtain out e w' where a: "resume_agent sc ses gid result ?w = (out, e, w')" by (metis prod_cases3)
    have "snd (post_resume sc now hdrs sid res w) = w'"
      "\<forall>y. fst (post_resume sc now hdrs sid res w) = Inr y \<longrightarrow> sr_status y = oc_status out"
      using r a by (auto simp: post_resume_def with_tenant_def Let_def split: if_splits)
    moreover have "resumes sc sid gid ?w out w'" using r a by (auto simp: resumes_def)
    ultimately show ?thesis using r by auto
  qed
qed

lemma auto_resume_cases:
  "auto_resume sc verdict now tenant session gate w = w\<lparr>aw_db := (aw_db w)\<lparr>db_now := now\<rparr>\<rparr> \<or>
   (\<exists>g sid out. gate = Some g \<and> resumes sc sid (pr_id (gt_request g)) (w\<lparr>aw_db := (aw_db w)\<lparr>db_now := now\<rparr>\<rparr>) out
      (auto_resume sc verdict now tenant session gate w))"
  unfolding auto_resume_def resumes_def Let_def
  by (auto split: option.splits if_splits) (metis prod.collapse)+

lemma resumes_ok: "world_ok w \<Longrightarrow> resumes sc sid gid w out w' \<Longrightarrow> world_ok w'"
  using resume_agent_ok(1) unfolding resumes_def by blast

lemma step_ok_agent: "agent_step_rel sc w w' \<Longrightarrow> world_ok w \<Longrightarrow> world_ok w'"
proof (induction rule: agent_step_rel.induct)
  case (post w now hdrs body)
  then show ?case
    using post_session_cases [of w sc now hdrs body "fst (post_session sc now hdrs body w)" "snd (post_session sc now hdrs body w)"]
      runs_session_stored(1) now_ok by (metis prod.collapse)
next
  case (resume w now hdrs sid res)
  then show ?case using post_resume_cases [of sc now hdrs sid res w] resumes_ok now_ok by metis
next
  case (message w verdict now tenant session gate)
  then show ?case using auto_resume_cases [of sc verdict now tenant session gate w] resumes_ok now_ok by metis
qed (auto simp: get_sessions_def get_session_def with_tenant_def world_ok_def split: option.splits if_splits)

lemma reachable_world_ok: "agent_reachable sc w \<Longrightarrow> world_ok w"
  by (induction rule: rtranclp_induct)
    (auto intro: step_ok_agent, simp add: world_ok_def new_agent_world_def db_ok_def unresolved_def started_def db_knows_def)

subsection \<open>Properties\<close>


text \<open>
  C7: the stored trail is append-only: no request or message changes or removes a stored step. And it
  never records that a gate was resolved: the resumed agent numbers its steps from 0 again, its first
  step, the resolution, meets the key of the step stored there, and the store's error is dropped.
\<close>

theorem trail_keeps_and_forgets:
  assumes "agent_reachable sc w" "agent_step_rel sc w w'" "map_of (db_steps (aw_db w)) (sid, i) = Some st"
  shows "map_of (db_steps (aw_db w')) (sid, i) = Some st \<and> st_kind st \<noteq> ''gate_resolved''"
proof
  note ok = reachable_world_ok [OF assms(1)]
  show "st_kind st \<noteq> ''gate_resolved''"
    using ok map_of_SomeD [OF assms(3)] by (auto simp: world_ok_def unresolved_def)
  have resumed: "map_of (db_steps (aw_db w2)) (sid, i) = Some st"
    if "resumes sc s gid (w\<lparr>aw_db := (aw_db w)\<lparr>db_now := now\<rparr>\<rparr>) out w2" for s gid now out w2
  proof -
    have "kept_by s (aw_db (w\<lparr>aw_db := (aw_db w)\<lparr>db_now := now\<rparr>\<rparr>)) (aw_db w2)"
      using that resume_agent_ok(2) ok unfolding resumes_def by (metis now_ok)
    then show ?thesis using assms(3) by (simp add: kept_by_def extends_db_def)
  qed
  from assms(2) show "map_of (db_steps (aw_db w')) (sid, i) = Some st"
  proof cases
    case (post now hdrs body)
    show ?thesis
    proof (cases "fst (post_session sc now hdrs body w)")
      case (Inl p)
      then have "post_session sc now hdrs body w = (Inl p, w')" using post by (simp add: prod_eq_iff)
      from post_session_cases [OF ok this] show ?thesis using assms(3) by auto
    next
      case (Inr r)
      then have "post_session sc now hdrs body w = (Inr r, w')" using post by (simp add: prod_eq_iff)
      from post_session_cases [OF ok this]
      have r: "runs_session sc (tenant_header hdrs) (w\<lparr>aw_db := (aw_db w)\<lparr>db_now := now\<rparr>\<rparr>) r w'" by auto
      obtain ses db1 goal n a out e where c: "create_session ses ((aw_db w)\<lparr>db_now := now\<rparr>) = (Inr (), db1)" "ses_gate ses = []"
        "run (service_env sc) goal (service_agent sc n (tenant_header hdrs) (ses_id ses) (w\<lparr>aw_db := db1\<rparr>)) = (a, out, e)"
        "w' = (if oc_status out = ''awaiting_gate'' then set_world_status (ses_id ses) ''awaiting_gate'' (oc_gate out) (world_after a)
              else world_after a)"
        using r unfolding runs_session_def by auto
      have o: "db_ok ((aw_db w)\<lparr>db_now := now\<rparr>)" using ok by (simp add: world_ok_def)
      have "db_steps db1 = db_steps (aw_db w)" using created_session(5) [OF o c(1,2)] by simp
      moreover have "kept_by (ses_id ses) db1 (aw_db (world_after a))" using first_run(1) [OF o c(1,2) refl c(3)] .
      ultimately have "map_of (db_steps (aw_db (world_after a))) (sid, i) = Some st"
        using assms(3) by (simp add: kept_by_def extends_db_def)
      then show ?thesis by (simp add: c(4) set_world_status_def store_set_status_def)
    qed
  next
    case (resume now hdrs s res)
    then show ?thesis using post_resume_cases [of sc now hdrs s res w] resumed assms(3) by auto
  next
    case (message verdict now tenant session gate)
    then show ?thesis using auto_resume_cases [of sc verdict now tenant session gate w] resumed assms(3) by auto
  qed (use assms(3) in \<open>auto simp: get_sessions_def get_session_def with_tenant_def split: option.splits if_splits\<close>)
qed

text \<open>
  A second gate cannot be resolved. When a resumed session stops for another gate, the handler
  overwrites the stored gate with the empty id: no later resume request of the session is accepted, and
  no resolution of a gate with an id is delivered to it.
\<close>

theorem second_gate_is_lost:
  assumes "agent_reachable sc w" "post_resume sc now hdrs sid res w = (Inr r, w')" "sr_status r = ''awaiting_gate''"
  shows "(\<exists>ses. get_session_row sid (aw_db w') = Some (ses, []) \<and> ses_status ses = ''awaiting_gate'') \<and>
    (\<exists>p. fst (post_resume sc now' hdrs' sid res' w') = Inl p) \<and>
    (pr_id (gt_request g) \<noteq> [] \<longrightarrow> sid \<noteq> [] \<longrightarrow>
       auto_resume sc verdict now' tenant sid (Some g) w' = w'\<lparr>aw_db := (aw_db w')\<lparr>db_now := now'\<rparr>\<rparr>)"
proof -
  obtain gid out where "resumes sc sid gid (w\<lparr>aw_db := (aw_db w)\<lparr>db_now := now\<rparr>\<rparr>) out w'" "sr_status r = oc_status out"
    using post_resume_cases [of sc now hdrs sid res w] assms(2) by auto
  then obtain ses where ses: "map_of (db_sessions (aw_db w')) sid = Some ses" "ses_status ses = ''awaiting_gate''" "ses_gate ses = []"
    using resume_agent_ok(3) reachable_world_ok [OF assms(1)] assms(3) unfolding resumes_def by (metis now_ok)
  then have g: "get_session_row sid (aw_db w') = Some (ses, [])" by (simp add: get_session_row_def)
  then have "get_session_row sid ((aw_db w')\<lparr>db_now := now'\<rparr>) = Some (ses, [])" by (simp add: get_session_row_def)
  then show ?thesis
    using g ses(2) by (cases res') (auto simp: post_resume_def with_tenant_def auto_resume_def Let_def split: prod.splits)
qed

text \<open>
  C12: with nothing between the two services that turns \<open>X-Aegis-Tenant\<close> into \<open>X-Tenant-Id\<close>, no gate is
  ever opened: policy-gate-service refuses every call of the gateway, no started session ends waiting for
  a gate, and the gates stay as they are.
\<close>

theorem gateway_is_refused:
  assumes "\<And>h. hc_via (sc_http sc) h = h" "agent_reachable sc w" "post_session sc now hdrs body w = (Inr r, w')"
  shows "sr_status r \<noteq> ''awaiting_gate'' \<and> gw_service (aw_gates w') = gw_service (aw_gates w)"
proof -
  let ?K = "\<lambda>gw. gw_service gw = gw_service (aw_gates w)"
  have h: "tenant_header (gate_headers (sc_http sc) t) = []" for t
    by (simp add: tenant_header_def gate_headers_def header_get_def assms(1) trim_space_def trim_left_def trim_right_def)
  have never: "never_opens (service_env sc) ?K"
    by (auto simp: never_opens_def service_env_def http_open_gate_def post_gate_def with_tenant_def h Let_def split: option.splits)
  have "runs_session sc (tenant_header hdrs) (w\<lparr>aw_db := (aw_db w)\<lparr>db_now := now\<rparr>\<rparr>) r w'"
    using post_session_cases [OF reachable_world_ok [OF assms(2)] assms(3)] by auto
  from runs_session_gates [OF this] obtain sid db1 goal n a out e where
    r: "run (service_env sc) goal (service_agent sc n (tenant_header hdrs) sid (w\<lparr>aw_db := db1\<rparr>)) = (a, out, e)"
    "sr_status r = oc_status out" "aw_gates w' = ag_gateway a"
    by auto
  then show ?thesis
    using loop_never_opens [OF never, of "with_goal goal (service_agent sc n (tenant_header hdrs) sid (w\<lparr>aw_db := db1\<rparr>))"
        empty_outcome]
    by (simp add: run_def)
qed

subsection \<open>A concrete service\<close>

text \<open>A model that always asks for the gated tool, and a mesh that adds the header the other service reads.\<close>

definition demo_call :: tool_call where
  "demo_call = \<lparr>tc_id = ''1'', tc_name = ''erase'', tc_args = ''{}''\<rparr>"

definition demo_epoch :: time where
  "demo_epoch = 62135596800 * 1000000000 + 1"

lemma demo_nano: "n < 1000 \<Longrightarrow> unix_nano (demo_epoch + int n) = int n + 1"
  by (simp add: unix_nano_def in_i64_def demo_epoch_def)

definition demo_http :: "(headers \<Rightarrow> headers) \<Rightarrow> http_conf" where
  "demo_http via = \<lparr>hc_via = via, hc_clock = (\<lambda>n. demo_epoch + int n), hc_down = (\<lambda>_. None), hc_encode = (\<lambda>_. []), hc_auth = []\<rparr>"

definition demo_service :: "(headers \<Rightarrow> headers) \<Rightarrow> service_conf" where
  "demo_service via = \<lparr>sc_chat = (\<lambda>_. Inr ((text_message ''assistant'' [])\<lparr>msg_tool_calls := [demo_call]\<rparr>)),
     sc_ctx = (\<lambda>_. None), sc_registry = demo_registry, sc_http = demo_http via, sc_max_steps = 12, sc_max_tier = 2,
     sc_prompt = [], sc_error_json = (\<lambda>e. e)\<rparr>"

definition mesh :: "headers \<Rightarrow> headers" where
  "mesh h = (''X-Tenant-Id'', header_get h ''X-Aegis-Tenant'') # h"

lemma asks_for_gate:
  assumes "chat env (request_of a) = Inr msg" "msg_tool_calls msg = [tc]" "get_tool (tc_name tc) (ag_registry a) = Some t"
    "max_autonomy_tier (ag_config a) < risk_tier (tool_schema_of t)" "ag_step a < max_steps (ag_config a)"
    "ctx_err env (ag_history a) = None" "open_gate env (gate_request_of tc t a) (ag_gateway a) = (Inr gid, g)"
  shows "\<exists>b out'. agent_loop env a out = (b, out', None) \<and> oc_status out' = ''awaiting_gate'' \<and> oc_gate out' = gid \<and> ag_gateway b = g"
  using assms
  by (subst agent_loop.simps) (simp add: request_of_def gate_request_of_def dispatch.simps(2) Let_def sink_status_def)

lemma demo_numbers: "print_int 1 = ''1''" "print_int 2 = ''2''" "unix_nano demo_epoch = 1"
  by code_simp+

definition demo_gate_row :: "string \<Rightarrow> string \<Rightarrow> time \<Rightarrow> pg_gate" where
  "demo_gate_row gid sid now = \<lparr>gt_request = \<lparr>pr_id = gid, pr_session = sid, pr_tenant = ''t'', pr_tool = ''erase'',
     pr_summary = ''does it'', pr_args = ''{}'', pr_blast = ''high'', pr_requested = now\<rparr>,
     gt_decision = ''pending'', gt_by = [], gt_reason = [], gt_decided = None\<rparr>"

lemma demo_open:
  assumes few: "gw_calls gw < 1000"
    and "map_of (gate_rows (gw_service gw)) (''gate-'' @ print_int (int (gw_calls gw) + 1)) = None" "sid \<noteq> []"
    "req = \<lparr>gr_session = sid, gr_tenant = ''t'', gr_tool = ''erase'', gr_summary = ''does it'', gr_args = ''{}'', gr_blast = ''high''\<rparr>"
  shows "\<exists>gw'. http_open_gate (demo_http mesh) req gw = (Inr (''gate-'' @ print_int (int (gw_calls gw) + 1)), gw') \<and>
    gate_rows (gw_service gw') = gate_rows (gw_service gw) @ [(''gate-'' @ print_int (int (gw_calls gw) + 1),
        demo_gate_row (''gate-'' @ print_int (int (gw_calls gw) + 1)) sid (demo_epoch + int (gw_calls gw)))] \<and>
    gw_calls gw' = gw_calls gw + 1"
proof -
  have h: "tenant_header (gate_headers (demo_http mesh) ''t'') = ''t''"
    by (simp add: tenant_header_def gate_headers_def demo_http_def mesh_def header_get_def graphic_def)
  have z: "\<not> is_zero (demo_epoch + int (gw_calls gw))" by (simp add: is_zero_def demo_epoch_def)
  show ?thesis
    using assms(2-4) z h demo_nano [OF few]
    by (simp add: http_open_gate_def demo_http_def post_gate_def with_tenant_def store_open_def gate_audit_def
        publish_gate_def demo_gate_row_def Let_def)
qed

text \<open>The agent of a session in this service stops at a gate whenever it has steps left.\<close>

lemma demo_stops:
  assumes few: "gw_calls (ag_gateway a) < 1000"
    and "map_of (gate_rows (gw_service (ag_gateway a))) (''gate-'' @ print_int (int (gw_calls (ag_gateway a)) + 1)) = None"
    "ag_session a \<noteq> []" "ag_tenant a = ''t''" "ag_registry a = demo_registry" "max_autonomy_tier (ag_config a) = 2"
    "ag_step a < max_steps (ag_config a)"
  shows "\<exists>b out'. agent_loop (service_env (demo_service mesh)) a out = (b, out', None) \<and> oc_status out' = ''awaiting_gate'' \<and>
    oc_gate out' = ''gate-'' @ print_int (int (gw_calls (ag_gateway a)) + 1) \<and>
    gate_rows (gw_service (ag_gateway b)) = gate_rows (gw_service (ag_gateway a)) @
      [(oc_gate out', demo_gate_row (oc_gate out') (ag_session a) (demo_epoch + int (gw_calls (ag_gateway a))))] \<and>
    gw_calls (ag_gateway b) = gw_calls (ag_gateway a) + 1"
proof -
  let ?t = "demo_tool ''erase'' 3"
  have t: "get_tool (tc_name demo_call) (ag_registry a) = Some ?t"
    by (simp add: assms(5) demo_call_def get_tool_def demo_registry_def register_tool_def demo_tool_def)
  have req: "gate_request_of demo_call ?t a = \<lparr>gr_session = ag_session a, gr_tenant = ''t'', gr_tool = ''erase'',
      gr_summary = ''does it'', gr_args = ''{}'', gr_blast = ''high''\<rparr>"
    by (simp add: gate_request_of_def demo_call_def demo_tool_def assms(4) blast_radius_for_def)
  obtain gw' where g: "http_open_gate (demo_http mesh) (gate_request_of demo_call ?t a) (ag_gateway a) =
      (Inr (''gate-'' @ print_int (int (gw_calls (ag_gateway a)) + 1)), gw')"
    "gate_rows (gw_service gw') = gate_rows (gw_service (ag_gateway a)) @
      [(''gate-'' @ print_int (int (gw_calls (ag_gateway a)) + 1),
        demo_gate_row (''gate-'' @ print_int (int (gw_calls (ag_gateway a)) + 1)) (ag_session a) (demo_epoch + int (gw_calls (ag_gateway a))))]"
    "gw_calls gw' = gw_calls (ag_gateway a) + 1"
    using demo_open [OF few assms(2,3) req] by blast
  have "\<exists>b out'. agent_loop (service_env (demo_service mesh)) a out = (b, out', None) \<and> oc_status out' = ''awaiting_gate'' \<and>
      oc_gate out' = ''gate-'' @ print_int (int (gw_calls (ag_gateway a)) + 1) \<and> ag_gateway b = gw'"
    by (rule asks_for_gate [where msg = "(text_message ''assistant'' [])\<lparr>msg_tool_calls := [demo_call]\<rparr>" and tc = demo_call and t = ?t])
      (use t g(1) assms in \<open>simp_all add: service_env_def demo_service_def demo_tool_def\<close>)
  then show ?thesis using g by auto
qed

lemma demo_agent_simps [simp]:
  "ag_tenant (service_agent (demo_service via) n t sid w) = t"
  "ag_registry (service_agent (demo_service via) n t sid w) = demo_registry"
  "max_autonomy_tier (ag_config (service_agent (demo_service via) n t sid w)) = 2"
  "max_steps (ag_config (service_agent (demo_service via) n t sid w)) = (if n = 0 then 12 else n)"
  by (simp_all add: service_agent_def new_agent_def demo_service_def config_defaults_def)

lemma with_goal_tenant [simp]: "ag_tenant (with_goal goal a) = ag_tenant a"
  by (simp add: with_goal_def)

definition demo_body :: session_body where
  "demo_body = \<lparr>sb_role = [], sb_goal = ''go'', sb_max_steps = 0\<rparr>"

lemma demo_post:
  "\<exists>r w'. post_session (demo_service mesh) demo_epoch (tenant_headers ''t'') (Some demo_body) new_agent_world = (Inr r, w') \<and>
     sr_session r = ''sess-1'' \<and> sr_status r = ''awaiting_gate'' \<and> sr_gate r = ''gate-1'' \<and>
     gate_rows (gw_service (aw_gates w')) = [(''gate-1'', demo_gate_row ''gate-1'' ''sess-1'' demo_epoch)] \<and> gw_calls (aw_gates w') = 1 \<and>
     (\<exists>ses. map_of (db_sessions (aw_db w')) ''sess-1'' = Some ses \<and> ses_max_steps ses = 12)"
proof -
  let ?w = "new_agent_world\<lparr>aw_db := (aw_db new_agent_world)\<lparr>db_now := demo_epoch\<rparr>\<rparr>"
  let ?ses = "\<lparr>ses_id = ''sess-1'', ses_tenant = ''t'', ses_role = ''operator'', ses_goal = ''go'', ses_status = ''active'',
    ses_step_count = 0, ses_max_steps = 12, ses_gate = [], ses_created = 0, ses_updated = 0\<rparr>"
  obtain db1 where c: "create_session ?ses (aw_db ?w) = (Inr (), db1)"
    by (simp add: create_session_def new_agent_world_def Let_def)
  let ?a = "with_goal ''go'' (service_agent (demo_service mesh) 12 ''t'' ''sess-1'' (?w\<lparr>aw_db := db1\<rparr>))"
  obtain b out where l: "agent_loop (service_env (demo_service mesh)) ?a empty_outcome = (b, out, None)"
    "oc_status out = ''awaiting_gate''" "oc_gate out = ''gate-1''"
    "gate_rows (gw_service (ag_gateway b)) = [(''gate-1'', demo_gate_row ''gate-1'' ''sess-1'' demo_epoch)]" "gw_calls (ag_gateway b) = 1"
    using demo_stops [of ?a empty_outcome] by (auto simp: new_agent_world_def new_gate_service_def demo_numbers)
  have t: "trim_space ''t'' = ''t''" by (simp add: graphic_def)
  have ok: "db_ok (aw_db ?w)" by (simp add: new_agent_world_def db_ok_def)
  have "run (service_env (demo_service mesh)) ''go'' (service_agent (demo_service mesh) 12 ''t'' ''sess-1'' (?w\<lparr>aw_db := db1\<rparr>)) = (b, out, None)"
    using l(1) by (simp add: run_def)
  from first_run(6) [OF ok c, of "''sess-1''", OF _ _ this] obtain ses where
    "map_of (db_sessions (aw_db (world_after b))) ''sess-1'' = Some ses" "ses_max_steps ses = 12" by auto
  then have m: "\<exists>ses. map_of (db_sessions (aw_db (set_world_status ''sess-1'' ''awaiting_gate'' ''gate-1'' (world_after b)))) ''sess-1'' = Some ses \<and>
      ses_max_steps ses = 12"
    by (simp add: set_world_status_def store_set_status_def map_of_map_entry_some)
  have gates: "aw_gates (set_world_status ''sess-1'' ''awaiting_gate'' ''gate-1'' (world_after b)) = ag_gateway b"
    by (simp add: set_world_status_def world_after_def)
  show ?thesis
    using c l t m gates
    by (simp add: post_session_def with_tenant_def demo_body_def demo_numbers demo_service_def run_def Let_def)
qed

lemma demo_world_reachable: "agent_reachable sc (snd (post_session sc now hdrs body new_agent_world))"
  by (rule r_into_rtranclp) (rule agent_step_rel.post)

text \<open>
  A member of another tenant resumes the session with a made-up result while its gate is pending: the
  handler compares neither tenants nor asks for the decision.
\<close>

lemma demo_resume:
  assumes p: "post_session (demo_service mesh) demo_epoch (tenant_headers ''t'') (Some demo_body) new_agent_world = (Inr r, w)"
    "sr_session r = ''sess-1''" "sr_status r = ''awaiting_gate''" "sr_gate r = ''gate-1''"
    "gate_rows (gw_service (aw_gates w)) = [(''gate-1'', demo_gate_row ''gate-1'' ''sess-1'' demo_epoch)]" "gw_calls (aw_gates w) = 1"
    "map_of (db_sessions (aw_db w)) ''sess-1'' = Some ses" "ses_max_steps ses = 12"
  shows "\<exists>r2 w2. post_resume (demo_service mesh) 2 (tenant_headers ''u'') ''sess-1'' (Some (''gate-1'', ''{}'')) w = (Inr r2, w2) \<and>
    sr_status r2 = ''awaiting_gate''"
proof -
  have "world_ok (new_agent_world\<lparr>aw_db := (aw_db new_agent_world)\<lparr>db_now := demo_epoch\<rparr>\<rparr>)"
    using reachable_world_ok [of "demo_service mesh" new_agent_world] by simp
  moreover have rs: "runs_session (demo_service mesh) (trim_space ''t'') (new_agent_world\<lparr>aw_db := (aw_db new_agent_world)\<lparr>db_now := demo_epoch\<rparr>\<rparr>) r w"
    using post_session_cases [OF reachable_world_ok p(1)] by simp
  ultimately have ses: "map_of (db_sessions (aw_db w)) ''sess-1'' = Some ses" "ses_tenant ses = ''t''" "ses_gate ses = ''gate-1''"
    using runs_session_stored(2) [OF _ rs] p(2-4,7) by (auto simp: graphic_def)
  have id: "ses_id ses = ''sess-1''"
    using runs_session_stored(1) [OF \<open>world_ok _\<close> rs] ses(1) by (auto simp: world_ok_def db_ok_def)
  let ?w = "w\<lparr>aw_db := (aw_db w)\<lparr>db_now := 2\<rparr>\<rparr>"
  let ?a = "service_agent (demo_service mesh) 12 ''t'' ''sess-1'' ?w"
  let ?st = "plain_step 0 ''gate_resolved'' ''gate gate-1 resolved'' ''gate-1''"
  let ?b = "(logged (service_env (demo_service mesh)) ?st
    (?a\<lparr>ag_history := ag_history ?a @ [(text_message ''tool'' ''{}'')\<lparr>msg_tool_call_id := ''gate-1''\<rparr>]\<rparr>))"
  have "\<exists>b out'. agent_loop (service_env (demo_service mesh)) ?b (empty_outcome\<lparr>oc_steps := [?st]\<rparr>) = (b, out', None) \<and>
      oc_status out' = ''awaiting_gate''"
    using demo_stops [of ?b "empty_outcome\<lparr>oc_steps := [?st]\<rparr>"] p(5,6)
    by (auto simp: logged_def demo_numbers)
  then obtain b out where l: "resume_run (service_env (demo_service mesh)) ''gate-1'' ''{}'' ?a = (b, out, None)"
    "oc_status out = ''awaiting_gate''"
    by (auto simp: resume_run_def logged_def empty_outcome_def)
  have u: "trim_space ''u'' = ''u''" by (simp add: graphic_def)
  show ?thesis
    using ses p(8) l u id
    by (simp add: post_resume_def with_tenant_def get_session_row_def resume_agent_def Let_def)
qed


theorem trail_keeps_and_forgets_witness:
  "\<exists>w st. agent_reachable (demo_service mesh) w \<and> map_of (db_steps (aw_db w)) (''sess-1'', 0) = Some st \<and>
     map_of (db_steps (aw_db (snd (post_resume (demo_service mesh) 2 (tenant_headers ''t'') ''sess-1'' (Some (''gate-1'', ''{}'')) w))))
       (''sess-1'', 0) = Some st \<and> st_kind st \<noteq> ''gate_resolved''"
proof -
  obtain r w ses where r: "post_session (demo_service mesh) demo_epoch (tenant_headers ''t'') (Some demo_body) new_agent_world = (Inr r, w)"
    "map_of (db_sessions (aw_db w)) ''sess-1'' = Some ses"
    using demo_post by blast
  then have w: "agent_reachable (demo_service mesh) w"
    using demo_world_reachable [of "demo_service mesh" demo_epoch "tenant_headers ''t''" "Some demo_body"] by simp
  then have "map_of (db_steps (aw_db w)) (''sess-1'', 0) \<noteq> None"
    using reachable_world_ok [OF w] r(2) by (simp add: world_ok_def started_def db_knows_def)
  then obtain st where st: "map_of (db_steps (aw_db w)) (''sess-1'', 0) = Some st" by auto
  from trail_keeps_and_forgets [OF w agent_step_rel.resume st] w st show ?thesis by blast
qed

theorem second_gate_is_lost_witness:
  "\<exists>w r. fst (post_resume (demo_service mesh) 2 (tenant_headers ''u'') ''sess-1'' (Some (''gate-1'', ''{}'')) w) = Inr r \<and>
     (\<exists>p. fst (post_resume (demo_service mesh) 3 (tenant_headers ''t'') ''sess-1'' (Some (''gate-2'', ''{}''))
       (snd (post_resume (demo_service mesh) 2 (tenant_headers ''u'') ''sess-1'' (Some (''gate-1'', ''{}'')) w))) = Inl p)"
proof -
  obtain r w ses where p: "post_session (demo_service mesh) demo_epoch (tenant_headers ''t'') (Some demo_body) new_agent_world = (Inr r, w)"
    "sr_session r = ''sess-1''" "sr_status r = ''awaiting_gate''" "sr_gate r = ''gate-1''"
    "gate_rows (gw_service (aw_gates w)) = [(''gate-1'', demo_gate_row ''gate-1'' ''sess-1'' demo_epoch)]" "gw_calls (aw_gates w) = 1"
    "map_of (db_sessions (aw_db w)) ''sess-1'' = Some ses" "ses_max_steps ses = 12"
    using demo_post by blast
  obtain r2 w2 where r2: "post_resume (demo_service mesh) 2 (tenant_headers ''u'') ''sess-1'' (Some (''gate-1'', ''{}'')) w = (Inr r2, w2)"
    "sr_status r2 = ''awaiting_gate''"
    using demo_resume [OF p] by blast
  have w: "agent_reachable (demo_service mesh) w"
    using demo_world_reachable [of "demo_service mesh" demo_epoch "tenant_headers ''t''" "Some demo_body"] p(1) by simp
  show ?thesis using second_gate_is_lost [OF w r2] r2(1) by (metis fst_conv snd_conv)
qed

theorem gateway_is_refused_witness:
  "\<exists>r w. post_session (demo_service (\<lambda>h. h)) demo_epoch (tenant_headers ''t'') (Some demo_body) new_agent_world = (Inr r, w) \<and>
     sr_status r \<noteq> ''awaiting_gate''"
proof -
  obtain r w where p: "post_session (demo_service (\<lambda>h. h)) demo_epoch (tenant_headers ''t'') (Some demo_body) new_agent_world = (r, w)"
    by (cases "post_session (demo_service (\<lambda>h. h)) demo_epoch (tenant_headers ''t'') (Some demo_body) new_agent_world")
  have "trim_space ''t'' = ''t''" by (simp add: graphic_def)
  then obtain y where "r = Inr y"
    using post_session_cases [OF reachable_world_ok [OF rtranclp.rtrancl_refl] p]
    by (auto simp: demo_body_def new_agent_world_def)
  with p have "post_session (demo_service (\<lambda>h. h)) demo_epoch (tenant_headers ''t'') (Some demo_body) new_agent_world = (Inr y, w)" by simp
  from gateway_is_refused [OF _ rtranclp.rtrancl_refl this] this show ?thesis
    by (auto simp: demo_service_def demo_http_def)
qed

end
