(* ===== verification/RuleEngine.thy ===== *)
theory RuleEngine
  imports GoFloat Http
begin

section \<open>rule-engine: rules over detections\<close>

text \<open>
  Model of \<open>services/rule-engine/internal/engine/engine.go\<close> with the rule loader and the bus handler of
  \<open>cmd/rule-engine/main.go\<close> and the handlers of \<open>internal/server/server.go\<close>. Coordinates are float32 values computed without fused multiplication. A
  bounding box may be absent. The random ids of the events are left out. The states of an engine are a
  map from keys, \<open>rule id:track\<close> or \<open>rule id:stream\<close>.
\<close>

record bbox =
  box_x :: fl
  box_y :: fl
  box_w :: fl
  box_h :: fl

record zone =
  zone_id :: string
  zone_x :: fl
  zone_y :: fl
  zone_w :: fl
  zone_h :: fl

record line =
  line_id :: string
  line_x1 :: fl
  line_y1 :: fl
  line_x2 :: fl
  line_y2 :: fl
  line_direction :: string

datatype rule_kind = Dwell | LineCross | Abandoned | Rate | Composite | OtherKind string

datatype rule = Rule (r_id: string) (r_tenant: string) (r_pipeline: string) (r_kind: rule_kind) (r_severity: int)
  (r_zone: "zone option") (r_line: "line option") (r_dwell: duration) (r_stale: duration)
  (r_rate_n: int) (r_rate_win: duration) (r_composed: "rule list") (r_composer: string) (r_cooldown: duration)

record detection =
  d_tenant :: string
  d_stream :: string
  d_track :: string
  d_frame :: nat
  d_capture :: "time option"
  d_class :: string
  d_score :: fl
  d_bbox :: "bbox option"

record fired_event =
  fe_tenant :: string
  fe_pipeline :: string
  fe_stream :: string
  fe_severity :: int
  fe_frame :: nat
  fe_capture :: "time option"
  fe_emitted :: time
  fe_summary :: string
  fe_rule :: string
  fe_zone :: string
  fe_track :: string
  fe_class :: string
  fe_score :: fl
  fe_bbox :: bbox

record rstate =
  entered_at :: time
  has_fired :: bool
  last_fired :: time
  prev_side :: fl
  stable_since :: time
  stable_bbox :: "bbox option"
  hits :: "time list"

definition empty_state :: rstate where
  "empty_state = \<lparr>entered_at = 0, has_fired = False, last_fired = 0, prev_side = Fin 0, stable_since = 0,
     stable_bbox = None, hits = []\<rparr>"

type_synonym states = "(string \<times> rstate) list"

record engine =
  eng_rules :: "rule list"
  eng_states :: states
  state_ttl :: duration

definition new_engine :: "rule list \<Rightarrow> engine" where
  "new_engine rules = \<lparr>eng_rules = rules, eng_states = [], state_ttl = 10 * minute\<rparr>"

subsection \<open>Predicates\<close>

abbreviation (input) half :: "fl \<Rightarrow> fl" where "half w \<equiv> fl_div f32 w (Fin 2)"

definition center_in_zone :: "zone \<Rightarrow> bbox option \<Rightarrow> bool" where
  "center_in_zone z ob =
     (case ob of None \<Rightarrow> False
      | Some b \<Rightarrow>
          let cx = fl_add f32 (box_x b) (half (box_w b)); cy = fl_add f32 (box_y b) (half (box_h b)) in
          fl_le (zone_x z) cx \<and> fl_le cx (fl_add f32 (zone_x z) (zone_w z)) \<and>
          fl_le (zone_y z) cy \<and> fl_le cy (fl_add f32 (zone_y z) (zone_h z)))"

definition cross_side :: "line \<Rightarrow> fl \<Rightarrow> fl \<Rightarrow> fl" where
  "cross_side l x y =
     (let dx = fl_sub f32 (line_x2 l) (line_x1 l); dy = fl_sub f32 (line_y2 l) (line_y1 l) in
      fl_sub f32 (fl_mul f32 dx (fl_sub f32 y (line_y1 l))) (fl_mul f32 dy (fl_sub f32 x (line_x1 l))))"

definition sign_flipped :: "fl \<Rightarrow> fl \<Rightarrow> bool" where
  "sign_flipped a b = fl_lt (fl_mul f32 a b) (Fin 0)"

definition fl_abs32 :: "fl \<Rightarrow> fl" where
  "fl_abs32 f = (if fl_lt f (Fin 0) then fl_neg f else f)"

definition nearby :: "bbox option \<Rightarrow> bbox option \<Rightarrow> fl \<Rightarrow> bool" where
  "nearby oa ob tol =
     (case (oa, ob) of
        (Some a, Some b) \<Rightarrow>
          fl_lt (fl_abs32 (fl_sub f32 (box_x a) (box_x b))) tol \<and> fl_lt (fl_abs32 (fl_sub f32 (box_y a) (box_y b))) tol \<and>
          fl_lt (fl_abs32 (fl_sub f32 (box_w a) (box_w b))) tol \<and> fl_lt (fl_abs32 (fl_sub f32 (box_h a) (box_h b))) tol
      | _ \<Rightarrow> False)"

definition cooldown_active :: "rstate \<Rightarrow> rule \<Rightarrow> time \<Rightarrow> bool" where
  "cooldown_active s r now =
     (if r_cooldown r = 0 then False
      else \<not> is_zero (last_fired s) \<and> time_sub now (last_fired s) < r_cooldown r)"

definition build_event :: "rule \<Rightarrow> detection \<Rightarrow> time \<Rightarrow> string \<Rightarrow> fired_event" where
  "build_event r d now summary =
     \<lparr>fe_tenant = r_tenant r, fe_pipeline = r_pipeline r, fe_stream = d_stream d, fe_severity = r_severity r,
      fe_frame = d_frame d, fe_capture = d_capture d, fe_emitted = now, fe_summary = summary, fe_rule = r_id r,
      fe_zone = (case r_zone r of Some z \<Rightarrow> zone_id z | None \<Rightarrow> (case r_line r of Some l \<Rightarrow> line_id l | None \<Rightarrow> [])),
      fe_track = d_track d, fe_class = d_class d, fe_score = d_score d,
      fe_bbox = (case d_bbox d of Some b \<Rightarrow> b | None \<Rightarrow> \<lparr>box_x = Fin 0, box_y = Fin 0, box_w = Fin 0, box_h = Fin 0\<rparr>)\<rparr>"

definition capture_or_now :: "detection \<Rightarrow> time \<Rightarrow> time" where
  "capture_or_now d clock =
     (case d_capture d of Some t \<Rightarrow> if \<not> is_zero t then t else clock | None \<Rightarrow> clock)"

subsection \<open>The rules\<close>

type_synonym eval_result = "fired_event option \<times> states"

definition track_key :: "rule \<Rightarrow> detection \<Rightarrow> string" where
  "track_key r d = r_id r @ '':'' @ d_track d"

definition stream_key :: "rule \<Rightarrow> detection \<Rightarrow> string" where
  "stream_key r d = r_id r @ '':'' @ d_stream d"

definition eval_dwell :: "rule \<Rightarrow> detection \<Rightarrow> time \<Rightarrow> states \<Rightarrow> eval_result" where
  "eval_dwell r d now st =
     (if r_zone r = None \<or> d_track d = [] then (None, st)
      else let key = track_key r d in
      if \<not> center_in_zone (the (r_zone r)) (d_bbox d) then (None, AList.delete key st)
      else case map_of st key of
        None \<Rightarrow> (None, AList.update key (empty_state\<lparr>entered_at := now\<rparr>) st)
      | Some s \<Rightarrow>
          if cooldown_active s r now then (None, st)
          else if r_dwell r \<le> time_sub now (entered_at s) then
            (Some (build_event r d now ''dwell rule fired''),
             AList.update key (s\<lparr>has_fired := True, last_fired := now\<rparr>) st)
          else (None, st))"

definition eval_line_cross :: "rule \<Rightarrow> detection \<Rightarrow> time \<Rightarrow> states \<Rightarrow> eval_result" where
  "eval_line_cross r d now st =
     (if r_line r = None \<or> d_track d = [] then (None, st)
      else case d_bbox d of
        None \<Rightarrow> (None, st)
      | Some b \<Rightarrow>
          let l = the (r_line r);
              side = cross_side l (fl_add f32 (box_x b) (half (box_w b))) (fl_add f32 (box_y b) (half (box_h b)));
              key = track_key r d in
          (case map_of st key of
             None \<Rightarrow> (None, AList.update key (empty_state\<lparr>prev_side := side, entered_at := now\<rparr>) st)
           | Some s \<Rightarrow>
               let moved = AList.update key (s\<lparr>prev_side := side\<rparr>) st in
               if sign_flipped (prev_side s) side \<and> \<not> cooldown_active s r now then
                 if line_direction l \<noteq> [] \<and> line_direction l \<noteq> ''any'' \<and>
                    (line_direction l = ''positive'' \<and> \<not> (fl_lt (prev_side s) (Fin 0) \<and> fl_lt (Fin 0) side) \<or>
                     line_direction l = ''negative'' \<and> \<not> (fl_lt (Fin 0) (prev_side s) \<and> fl_lt side (Fin 0)))
                 then (None, moved)
                 else (Some (build_event r d now ''line crossed''),
                       AList.update key (s\<lparr>last_fired := now, prev_side := side\<rparr>) st)
               else (None, moved)))"

definition eval_abandoned :: "rule \<Rightarrow> detection \<Rightarrow> time \<Rightarrow> states \<Rightarrow> eval_result" where
  "eval_abandoned r d now st =
     (if r_stale r = 0 \<or> d_track d = [] then (None, st)
      else let key = track_key r d in
      case map_of st key of
        None \<Rightarrow> (None, AList.update key (empty_state\<lparr>stable_since := now, stable_bbox := d_bbox d\<rparr>) st)
      | Some s \<Rightarrow>
          if \<not> nearby (stable_bbox s) (d_bbox d) (fl_round f32 (2 / 100)) then
            (None, AList.update key (s\<lparr>stable_since := now, stable_bbox := d_bbox d\<rparr>) st)
          else if cooldown_active s r now then (None, st)
          else if r_stale r \<le> time_sub now (stable_since s) then
            (Some (build_event r d now ''abandoned object''), AList.update key (s\<lparr>last_fired := now\<rparr>) st)
          else (None, st))"

definition state_or_empty :: "states \<Rightarrow> string \<Rightarrow> rstate" where
  "state_or_empty st key = (case map_of st key of None \<Rightarrow> empty_state | Some s \<Rightarrow> s)"

definition eval_rate :: "rule \<Rightarrow> detection \<Rightarrow> time \<Rightarrow> states \<Rightarrow> eval_result" where
  "eval_rate r d now st =
     (if r_rate_n r \<le> 0 \<or> r_rate_win r = 0 then (None, st)
      else let key = stream_key r d; s = state_or_empty st key; cutoff = now - r_rate_win r;
               filtered = filter (\<lambda>t. cutoff < t) (hits s) @ [now]; s1 = s\<lparr>hits := filtered\<rparr> in
      if r_rate_n r \<le> int (length filtered) \<and> \<not> cooldown_active s1 r now then
        (Some (build_event r d now ''detection rate exceeded''), AList.update key (s1\<lparr>last_fired := now\<rparr>) st)
      else (None, AList.update key s1 st))"

definition finish_composite :: "rule \<Rightarrow> detection \<Rightarrow> time \<Rightarrow> nat \<Rightarrow> states \<Rightarrow> eval_result" where
  "finish_composite r d now fires st =
     (let want = (if r_composer r = ''or'' then 1 else length (r_composed r)) in
      if want \<le> fires \<and> 0 < want then
        let key = stream_key r d; s = state_or_empty st key in
        if cooldown_active s r now then (None, AList.update key s st)
        else (Some (build_event r d now ''composite rule fired''), AList.update key (s\<lparr>last_fired := now\<rparr>) st)
      else (None, st))"

fun eval_rule :: "rule \<Rightarrow> detection \<Rightarrow> time \<Rightarrow> states \<Rightarrow> eval_result"
  and eval_subs :: "rule list \<Rightarrow> detection \<Rightarrow> time \<Rightarrow> states \<Rightarrow> nat \<times> states" where
  "eval_rule (Rule i t p k sev z l dw sl rn rw subs cps cd) d now st =
     (let r = Rule i t p k sev z l dw sl rn rw subs cps cd in
      case k of
        Dwell \<Rightarrow> eval_dwell r d now st
      | LineCross \<Rightarrow> eval_line_cross r d now st
      | Abandoned \<Rightarrow> eval_abandoned r d now st
      | Rate \<Rightarrow> eval_rate r d now st
      | Composite \<Rightarrow> (case eval_subs subs d now st of (fires, st1) \<Rightarrow> finish_composite r d now fires st1)
      | OtherKind _ \<Rightarrow> (None, st))"
| "eval_subs [] d now st = (0, st)"
| "eval_subs (r # rs) d now st =
     (case eval_rule r d now st of (ev, st1) \<Rightarrow>
        (case eval_subs rs d now st1 of (n, st2) \<Rightarrow> ((if ev \<noteq> None then 1 else 0) + n, st2)))"

definition gc_ref :: "rstate \<Rightarrow> time" where
  "gc_ref s = (let ref1 = last_fired s; ref2 = (if is_zero ref1 then entered_at s else ref1) in
     if is_zero ref2 then stable_since s else ref2)"

definition gc_locked :: "duration \<Rightarrow> time \<Rightarrow> states \<Rightarrow> states" where
  "gc_locked ttl now st =
     (if ttl = 0 then st
      else filter (\<lambda>(k, s). \<not> (\<not> is_zero (gc_ref s) \<and> ttl < time_sub now (gc_ref s))) st)"

fun eval_all :: "rule list \<Rightarrow> detection \<Rightarrow> time \<Rightarrow> states \<Rightarrow> fired_event list \<times> states" where
  "eval_all [] d now st = ([], st)"
| "eval_all (r # rs) d now st =
     (case eval_rule r d now st of (ev, st1) \<Rightarrow>
        (case eval_all rs d now st1 of (evs, st2) \<Rightarrow> ((case ev of None \<Rightarrow> [] | Some e \<Rightarrow> [e]) @ evs, st2)))"

definition apply_detection :: "time \<Rightarrow> detection \<Rightarrow> engine \<Rightarrow> fired_event list \<times> engine" where
  "apply_detection clock d e =
     (let now = capture_or_now d clock in
      case eval_all (eng_rules e) d now (eng_states e) of
        (evs, st) \<Rightarrow> (evs, e\<lparr>eng_states := gc_locked (state_ttl e) now st\<rparr>))"

subsection \<open>Loading rules and serving the bus (cmd/rule-engine/main.go)\<close>

record wire_rule =
  wr_id :: string
  wr_tenant :: string
  wr_pipeline :: string
  wr_kind :: string
  wr_severity :: int
  wr_zone :: "zone option"
  wr_dwell_ms :: int
  wr_stale_ms :: int
  wr_cooldown_ms :: int

definition rule_kind_of :: "string \<Rightarrow> rule_kind" where
  "rule_kind_of k = (if k = ''spatial.dwell'' then Dwell else if k = ''spatial.line_cross'' then LineCross
     else if k = ''temporal.abandoned'' then Abandoned else if k = ''temporal.rate'' then Rate
     else if k = ''composite'' then Composite else OtherKind k)"

definition load_rule :: "wire_rule \<Rightarrow> rule" where
  "load_rule w = Rule (wr_id w) (wr_tenant w) (wr_pipeline w) (rule_kind_of (wr_kind w)) 0 (wr_zone w) None
     (i64 (wr_dwell_ms w * millisecond)) (i64 (wr_stale_ms w * millisecond)) 0 0 [] [] (i64 (wr_cooldown_ms w * millisecond))"

definition load_rules :: "wire_rule list \<Rightarrow> rule list" where
  "load_rules ws = map load_rule ws"

record rule_message =
  rm_event :: fired_event
  rm_tenant :: string
  rm_stream :: string
  rm_rule :: string

text \<open>A message of \<open>detections.v1\<close>: None when it is no detection. The result is what is published.\<close>

definition on_detection :: "time \<Rightarrow> detection option \<Rightarrow> engine \<Rightarrow> rule_message list \<times> engine" where
  "on_detection clock msg e =
     (case msg of
        None \<Rightarrow> ([], e)
      | Some d \<Rightarrow>
          (case apply_detection clock d e of (evs, e1) \<Rightarrow>
             (map (\<lambda>ev. \<lparr>rm_event = ev, rm_tenant = fe_tenant ev, rm_stream = fe_stream ev, rm_rule = fe_rule ev\<rparr>) evs, e1)))"

subsection \<open>The operator's handlers (internal/server/server.go)\<close>

record rule_server =
  live_engine :: engine
  listed_rules :: "rule list"

definition new_rule_server :: "rule list \<Rightarrow> rule_server" where
  "new_rule_server rules = \<lparr>live_engine = new_engine rules, listed_rules = rules\<rparr>"

definition swap_rules :: "engine \<Rightarrow> rule list \<Rightarrow> rule_server \<Rightarrow> rule_server" where
  "swap_rules e rules s = s\<lparr>live_engine := e, listed_rules := rules\<rparr>"

definition get_rules :: "rule_server \<Rightarrow> rule list" where
  "get_rules s = listed_rules s"

text \<open>\<open>reload_rules\<close> is the closure \<open>reload\<close>: it reads the rules file, which may fail with a message.\<close>

definition reload_rules :: "string + wire_rule list \<Rightarrow> rule_server \<Rightarrow> string option \<times> rule_server" where
  "reload_rules file s =
     (case file of
        Inl err \<Rightarrow> (Some err, s)
      | Inr ws \<Rightarrow> (None, swap_rules (new_engine (load_rules ws)) (load_rules ws) s))"

definition post_reload :: "string + wire_rule list \<Rightarrow> rule_server \<Rightarrow> (problem + int) \<times> rule_server" where
  "post_reload file s =
     (case reload_rules file s of
        (Some err, s1) \<Rightarrow> (Inl (internal err), s1)
      | (None, s1) \<Rightarrow> (Inr 204, s1))"

definition post_eval :: "time \<Rightarrow> detection option \<Rightarrow> rule_server \<Rightarrow> (problem + fired_event list) \<times> rule_server" where
  "post_eval clock body s =
     (case body of
        None \<Rightarrow> (Inl (bad_request ''invalid JSON''), s)
      | Some d \<Rightarrow>
          (case apply_detection clock d (live_engine s) of
             (evs, e) \<Rightarrow> (Inr evs, s\<lparr>live_engine := e\<rparr>)))"

definition serve_detection :: "time \<Rightarrow> detection option \<Rightarrow> rule_server \<Rightarrow> rule_message list \<times> rule_server" where
  "serve_detection clock msg s =
     (case on_detection clock msg (live_engine s) of (out, e) \<Rightarrow> (out, s\<lparr>live_engine := e\<rparr>))"

text \<open>The dry run of \<open>POST /v1/rules:eval\<close> leaves the state a detection of the bus leaves.\<close>

lemma dry_run_is_live: "snd (post_eval clock d s) = snd (serve_detection clock d s)"
  by (simp add: post_eval_def serve_detection_def on_detection_def split: option.splits prod.splits)

subsection \<open>Every key is an automaton of its own\<close>

definition rule_key :: "rule \<Rightarrow> detection \<Rightarrow> string" where
  "rule_key r d = (if r_kind r = Rate then stream_key r d else track_key r d)"

definition key_state :: "string \<Rightarrow> rstate option \<Rightarrow> states" where
  "key_state k s = (case s of None \<Rightarrow> [] | Some x \<Rightarrow> [(k, x)])"

text \<open>What a rule does to the entry of one key: the engine on a map with that entry only.\<close>

definition rule_step :: "rule \<Rightarrow> detection \<Rightarrow> time \<Rightarrow> rstate option \<Rightarrow> fired_event option \<times> rstate option" where
  "rule_step r d now s =
     (case eval_rule r d now (key_state (rule_key r d) s) of (ev, st) \<Rightarrow> (ev, map_of st (rule_key r d)))"

lemma map_of_key_state [simp]: "map_of (key_state k s) = (\<lambda>j. if j = k then s else None)"
  by (cases s) (auto simp: key_state_def)

lemma eval_rule_kinds:
  "eval_rule r d now st =
     (case r_kind r of
        Dwell \<Rightarrow> eval_dwell r d now st
      | LineCross \<Rightarrow> eval_line_cross r d now st
      | Abandoned \<Rightarrow> eval_abandoned r d now st
      | Rate \<Rightarrow> eval_rate r d now st
      | Composite \<Rightarrow> (case eval_subs (r_composed r) d now st of (fires, st1) \<Rightarrow> finish_composite r d now fires st1)
      | OtherKind _ \<Rightarrow> (None, st))"
  by (cases r) (simp split: rule_kind.splits)

lemmas eval_defs = eval_dwell_def eval_line_cross_def eval_abandoned_def eval_rate_def state_or_empty_def

lemma eval_rule_local:
  assumes "r_kind r \<noteq> Composite"
  shows "eval_rule r d now st = (ev, st') \<Longrightarrow>
    rule_step r d now (map_of st (rule_key r d)) = (ev, map_of st' (rule_key r d)) \<and>
    (\<forall>k. k \<noteq> rule_key r d \<longrightarrow> map_of st' k = map_of st k)"
  using assms
  by (cases "r_kind r")
    (auto simp: rule_step_def eval_rule_kinds rule_key_def eval_defs Let_def split: if_splits option.splits)

lemma eval_rule_distinct:
  assumes "r_kind r \<noteq> Composite" "distinct (map fst st)"
  shows "eval_rule r d now st = (ev, st') \<Longrightarrow> distinct (map fst st')"
  using assms
  by (cases "r_kind r")
    (auto simp: eval_rule_kinds eval_defs Let_def distinct_update distinct_delete split: if_splits option.splits)

lemma eval_rule_event:
  assumes "r_kind r \<noteq> Composite"
  shows "eval_rule r d now st = (Some e, st') \<Longrightarrow> \<exists>why. e = build_event r d now why"
  using assms
  by (cases "r_kind r")
    (auto simp: eval_rule_kinds eval_defs Let_def split: if_splits option.splits)

lemma build_event_simps [simp]:
  "fe_rule (build_event r d now why) = r_id r" "fe_track (build_event r d now why) = d_track d"
  "fe_stream (build_event r d now why) = d_stream d" "fe_emitted (build_event r d now why) = now"
  "fe_severity (build_event r d now why) = r_severity r" "fe_tenant (build_event r d now why) = r_tenant r"
  by (simp_all add: build_event_def)

lemma map_of_filter_values:
  "distinct (map fst m) \<Longrightarrow>
   map_of (filter (\<lambda>(k, v). P v) m) k = (case map_of m k of None \<Rightarrow> None | Some v \<Rightarrow> if P v then Some v else None)"
proof (induction m)
  case (Cons p m)
  have "k \<notin> fst ` set m \<Longrightarrow> map_of m k = None" by (simp add: map_of_eq_None_iff)
  with Cons show ?case by (cases p) (auto split: option.splits)
qed simp

definition expired :: "duration \<Rightarrow> time \<Rightarrow> rstate \<Rightarrow> bool" where
  "expired ttl now s \<longleftrightarrow> ttl \<noteq> 0 \<and> \<not> is_zero (gc_ref s) \<and> ttl < time_sub now (gc_ref s)"

lemma gc_locked_expired: "gc_locked ttl now st = filter (\<lambda>(k, s). \<not> expired ttl now s) st"
  by (simp add: gc_locked_def expired_def)

lemma map_of_gc:
  "distinct (map fst st) \<Longrightarrow>
   map_of (gc_locked ttl now st) k = (case map_of st k of None \<Rightarrow> None | Some s \<Rightarrow> if expired ttl now s then None else Some s)"
  unfolding gc_locked_expired
  by (subst map_of_filter_values [where P = "\<lambda>s. \<not> expired ttl now s"]) (auto split: option.splits)

lemma distinct_gc: "distinct (map fst st) \<Longrightarrow> distinct (map fst (gc_locked ttl now st))"
  unfolding gc_locked_expired by (rule distinct_map_filter)

subsection \<open>Rules do not interfere\<close>

text \<open>
  Rule sets as an operator writes them: ids that tell the rules apart and hold no colon, and no composite,
  whose parts share the state map by id.
\<close>

definition colon_free :: "string \<Rightarrow> bool" where
  "colon_free s \<longleftrightarrow> CHR '':'' \<notin> set s"

definition simple_rules :: "rule list \<Rightarrow> bool" where
  "simple_rules rs \<longleftrightarrow> distinct (map r_id rs) \<and> (\<forall>r \<in> set rs. colon_free (r_id r) \<and> r_kind r \<noteq> Composite)"

lemma colon_key_inject:
  assumes "colon_free a" "colon_free b" "a @ '':'' @ x = b @ '':'' @ y"
  shows "a = b \<and> x = y"
proof -
  have tw: "takeWhile (\<lambda>c. c \<noteq> CHR '':'') (s @ '':'' @ z) = s" if "colon_free s" for s z
    using that by (induction s) (auto simp: colon_free_def)
  have "a = b" using tw [OF assms(1), of x] tw [OF assms(2), of y] assms(3) by simp
  then show ?thesis using assms(3) by simp
qed

definition own_key :: "rule \<Rightarrow> string \<Rightarrow> bool" where
  "own_key r k \<longleftrightarrow> (\<exists>x. k = r_id r @ '':'' @ x)"

lemma own_rule_key [simp]: "own_key r (rule_key r d)"
  by (auto simp: own_key_def rule_key_def track_key_def stream_key_def)

lemma keys_apart: "colon_free (r_id r) \<Longrightarrow> colon_free (r_id q) \<Longrightarrow> r_id r \<noteq> r_id q \<Longrightarrow> own_key r k \<Longrightarrow> rule_key q d \<noteq> k"
  using colon_key_inject own_rule_key [of q d] unfolding own_key_def by metis

abbreviation of_rule :: "rule \<Rightarrow> fired_event list \<Rightarrow> fired_event list" where
  "of_rule r evs \<equiv> filter (\<lambda>e. fe_rule e = r_id r) evs"

text \<open>Evaluating other rules neither touches the entries of a rule nor emits events in its name.\<close>

lemma eval_others:
  assumes "simple_rules rs" "colon_free (r_id r)" "r_id r \<notin> r_id ` set rs" "eval_all rs d now st = (evs, st')"
  shows "of_rule r evs = [] \<and> (\<forall>k. own_key r k \<longrightarrow> map_of st' k = map_of st k)"
  using assms
proof (induction rs arbitrary: st st' evs)
  case (Cons q rs)
  obtain ev st1 where q: "eval_rule q d now st = (ev, st1)" by (cases "eval_rule q d now st")
  obtain evs2 st2 where rs: "eval_all rs d now st1 = (evs2, st2)" by (cases "eval_all rs d now st1")
  have c: "r_kind q \<noteq> Composite" "colon_free (r_id q)" "r_id r \<noteq> r_id q" and s: "simple_rules rs"
    using Cons.prems by (auto simp: simple_rules_def)
  have out: "evs = (case ev of None \<Rightarrow> [] | Some e \<Rightarrow> [e]) @ evs2" "st' = st2" using Cons.prems(4) q rs by auto
  have ih: "of_rule r evs2 = [] \<and> (\<forall>k. own_key r k \<longrightarrow> map_of st2 k = map_of st1 k)"
    using Cons.IH [OF s Cons.prems(2) _ rs] Cons.prems(3) by simp
  have "map_of st1 k = map_of st k" if "own_key r k" for k
    using eval_rule_local [OF c(1) q] keys_apart [OF Cons.prems(2) c(2,3) that] by metis
  moreover have "fe_rule e \<noteq> r_id r" if "ev = Some e" for e
    using eval_rule_event [OF c(1)] q that c(3) by fastforce
  ultimately show ?case using ih out by (auto split: option.splits)
qed simp

lemma eval_all_distinct:
  "simple_rules rs \<Longrightarrow> distinct (map fst st) \<Longrightarrow> eval_all rs d now st = (evs, st') \<Longrightarrow> distinct (map fst st')"
proof (induction rs arbitrary: st evs)
  case (Cons q rs)
  then show ?case
    using eval_rule_distinct [of q st d now]
    by (fastforce simp: simple_rules_def split: prod.splits)
qed simp

lemma eval_one:
  assumes "simple_rules rs" "r \<in> set rs" "eval_all rs d now st = (evs, st')"
  shows "of_rule r evs = (case fst (rule_step r d now (map_of st (rule_key r d))) of None \<Rightarrow> [] | Some e \<Rightarrow> [e]) \<and>
    (\<forall>k. own_key r k \<longrightarrow> map_of st' k =
      (if k = rule_key r d then snd (rule_step r d now (map_of st k)) else map_of st k))"
  using assms
proof (induction rs arbitrary: st st' evs)
  case (Cons q rs)
  obtain ev st1 where q: "eval_rule q d now st = (ev, st1)" by (cases "eval_rule q d now st")
  obtain evs2 st2 where rs: "eval_all rs d now st1 = (evs2, st2)" by (cases "eval_all rs d now st1")
  have c: "r_kind q \<noteq> Composite" "colon_free (r_id q)" "r_id q \<notin> r_id ` set rs" and s: "simple_rules rs"
    and r: "colon_free (r_id r)"
    using Cons.prems by (auto simp: simple_rules_def)
  have out: "evs = (case ev of None \<Rightarrow> [] | Some e \<Rightarrow> [e]) @ evs2" "st' = st2" using Cons.prems(3) q rs by auto
  have e: "fe_rule e = r_id q" if "ev = Some e" for e
    using eval_rule_event [OF c(1)] q that by fastforce
  show ?case
  proof (cases "q = r")
    case True
    have "of_rule r evs2 = [] \<and> (\<forall>k. own_key r k \<longrightarrow> map_of st2 k = map_of st1 k)"
      using eval_others [OF s r _ rs] c(3) True by simp
    then show ?thesis using eval_rule_local [OF c(1) q] e out True by (auto split: option.splits)
  next
    case False
    then have m: "r \<in> set rs" "r_id r \<noteq> r_id q" using Cons.prems(2) c(3) by (auto simp: image_iff)
    have "map_of st1 k = map_of st k" if "own_key r k" for k
      using eval_rule_local [OF c(1) q] keys_apart [OF r c(2) m(2) that] by metis
    then show ?thesis using Cons.IH [OF s m(1) rs] e out m(2) by (auto split: option.splits)
  qed
qed simp

type_synonym feed = "(time \<times> detection) list"

abbreviation seen_at :: "time \<times> detection \<Rightarrow> time" where
  "seen_at m \<equiv> capture_or_now (snd m) (fst m)"

text \<open>The detections of a feed, each with the reading of the wall clock, and all events they cause.\<close>

fun run_feed :: "feed \<Rightarrow> engine \<Rightarrow> fired_event list \<times> engine" where
  "run_feed [] e = ([], e)"
| "run_feed (m # ms) e =
     (case apply_detection (fst m) (snd m) e of (evs, e1) \<Rightarrow>
        (case run_feed ms e1 of (evs', e2) \<Rightarrow> (evs @ evs', e2)))"

lemma run_feed_cons:
  "fst (run_feed (m # ms) e) = fst (apply_detection (fst m) (snd m) e) @ fst (run_feed ms (snd (apply_detection (fst m) (snd m) e)))"
  "snd (run_feed (m # ms) e) = snd (run_feed ms (snd (apply_detection (fst m) (snd m) e)))"
  by (simp_all split: prod.splits)

lemma run_feed_append:
  "run_feed (xs @ ys) e =
     (case run_feed xs e of (evs, e1) \<Rightarrow> (case run_feed ys e1 of (evs', e2) \<Rightarrow> (evs @ evs', e2)))"
  by (induction xs arbitrary: e) (simp_all split: prod.splits)

lemma run_feed_snoc:
  "fst (run_feed (xs @ [m]) e) = fst (run_feed xs e) @ fst (apply_detection (fst m) (snd m) (snd (run_feed xs e)))"
  "snd (run_feed (xs @ [m]) e) = snd (apply_detection (fst m) (snd m) (snd (run_feed xs e)))"
  by (simp_all add: run_feed_append split: prod.splits)

definition agree :: "rule \<Rightarrow> engine \<Rightarrow> engine \<Rightarrow> bool" where
  "agree r e e1 \<longleftrightarrow> eng_rules e1 = [r] \<and> state_ttl e1 = state_ttl e \<and> simple_rules (eng_rules e) \<and> r \<in> set (eng_rules e) \<and>
     distinct (map fst (eng_states e)) \<and> distinct (map fst (eng_states e1)) \<and>
     (\<forall>k. own_key r k \<longrightarrow> map_of (eng_states e) k = map_of (eng_states e1) k)"

text \<open>One detection in the engine of a single rule.\<close>

lemma apply_single:
  fixes m :: "time \<times> detection"
  assumes "colon_free (r_id r)" "r_kind r \<noteq> Composite" "eng_rules e = [r]" "distinct (map fst (eng_states e))"
  defines "now \<equiv> seen_at m" and "s \<equiv> map_of (eng_states e) (rule_key r (snd m))"
  shows "fst (apply_detection (fst m) (snd m) e) = (case fst (rule_step r (snd m) now s) of None \<Rightarrow> [] | Some x \<Rightarrow> [x])"
    and "own_key r k \<Longrightarrow> map_of (eng_states (snd (apply_detection (fst m) (snd m) e))) k =
      (case if k = rule_key r (snd m) then snd (rule_step r (snd m) now s) else map_of (eng_states e) k of
         None \<Rightarrow> None | Some x \<Rightarrow> if expired (state_ttl e) now x then None else Some x)"
    and "distinct (map fst (eng_states (snd (apply_detection (fst m) (snd m) e))))"
    and "eng_rules (snd (apply_detection (fst m) (snd m) e)) = [r]"
    and "state_ttl (snd (apply_detection (fst m) (snd m) e)) = state_ttl e"
proof -
  obtain ev st where ev: "eval_rule r (snd m) now (eng_states e) = (ev, st)" by (cases "eval_rule r (snd m) now (eng_states e)")
  have l: "rule_step r (snd m) now s = (ev, map_of st (rule_key r (snd m)))"
    "k \<noteq> rule_key r (snd m) \<Longrightarrow> map_of st k = map_of (eng_states e) k" for k
    using eval_rule_local [OF assms(2) ev] by (simp_all add: s_def)
  have d: "distinct (map fst st)" using eval_rule_distinct [OF assms(2,4) ev] .
  have a: "apply_detection (fst m) (snd m) e =
      ((case ev of None \<Rightarrow> [] | Some x \<Rightarrow> [x]), e\<lparr>eng_states := gc_locked (state_ttl e) now st\<rparr>)"
    using ev by (simp add: apply_detection_def assms(3) now_def Let_def)
  show "fst (apply_detection (fst m) (snd m) e) = (case fst (rule_step r (snd m) now s) of None \<Rightarrow> [] | Some x \<Rightarrow> [x])"
    by (simp add: a l(1))
  show "distinct (map fst (eng_states (snd (apply_detection (fst m) (snd m) e))))"
    by (simp add: a distinct_gc [OF d])
  show "eng_rules (snd (apply_detection (fst m) (snd m) e)) = [r]" by (simp add: a assms(3))
  show "state_ttl (snd (apply_detection (fst m) (snd m) e)) = state_ttl e" by (simp add: a)
  show "map_of (eng_states (snd (apply_detection (fst m) (snd m) e))) k =
      (case if k = rule_key r (snd m) then snd (rule_step r (snd m) now s) else map_of (eng_states e) k of
         None \<Rightarrow> None | Some x \<Rightarrow> if expired (state_ttl e) now x then None else Some x)" if "own_key r k"
    by (simp add: a map_of_gc [OF d] l)
qed

lemma agree_step:
  assumes "agree r e e1"
  shows "of_rule r (fst (apply_detection (fst m) (snd m) e)) = fst (apply_detection (fst m) (snd m) e1) \<and>
    agree r (snd (apply_detection (fst m) (snd m) e)) (snd (apply_detection (fst m) (snd m) e1))"
proof -
  let ?now = "seen_at m"
  have ok: "simple_rules (eng_rules e)" "r \<in> set (eng_rules e)" "distinct (map fst (eng_states e))"
    "distinct (map fst (eng_states e1))" "eng_rules e1 = [r]" "state_ttl e1 = state_ttl e"
    and same: "own_key r k \<Longrightarrow> map_of (eng_states e) k = map_of (eng_states e1) k" for k
    using assms by (auto simp: agree_def)
  have r: "colon_free (r_id r)" "r_kind r \<noteq> Composite" using ok(1,2) by (auto simp: simple_rules_def)
  obtain evs st where ev: "eval_all (eng_rules e) (snd m) ?now (eng_states e) = (evs, st)"
    by (cases "eval_all (eng_rules e) (snd m) ?now (eng_states e)")
  have a: "apply_detection (fst m) (snd m) e = (evs, e\<lparr>eng_states := gc_locked (state_ttl e) ?now st\<rparr>)"
    using ev by (simp add: apply_detection_def Let_def)
  have d: "distinct (map fst st)" using eval_all_distinct [OF ok(1,3) ev] .
  note one = eval_one [OF ok(1,2) ev] and single = apply_single [OF r ok(5,4), where m = m]
  have k: "map_of (eng_states e) (rule_key r (snd m)) = map_of (eng_states e1) (rule_key r (snd m))" by (rule same) simp
  have "map_of (eng_states (snd (apply_detection (fst m) (snd m) e))) j = map_of (eng_states (snd (apply_detection (fst m) (snd m) e1))) j"
    if "own_key r j" for j
    using one same [OF that] single(2) [OF that, unfolded ok(6)] that by (simp add: a map_of_gc [OF d] k)
  then show ?thesis
    using one single(1,3-5) ok by (simp add: agree_def a distinct_gc [OF d] k)
qed

lemma agree_new: "simple_rules rs \<Longrightarrow> r \<in> set rs \<Longrightarrow> agree r (new_engine rs) (new_engine [r])"
  by (simp add: agree_def new_engine_def)

lemma agree_run:
  "agree r e e1 \<Longrightarrow>
   of_rule r (fst (run_feed ms e)) = fst (run_feed ms e1) \<and> agree r (snd (run_feed ms e)) (snd (run_feed ms e1))"
proof (induction ms arbitrary: e e1)
  case (Cons m ms)
  then show ?case using agree_step [OF Cons.prems, of m] Cons.IH unfolding run_feed_cons by simp
qed simp

text \<open>
  The rules of a rule set do not interfere: the events a rule fires over any feed, in order, are those of an
  engine that has this rule alone.
\<close>

theorem rules_are_independent:
  assumes "simple_rules rs" "r \<in> set rs"
  shows "filter (\<lambda>e. fe_rule e = r_id r) (fst (run_feed feed (new_engine rs))) = fst (run_feed feed (new_engine [r]))"
  using agree_run [OF agree_new [OF assms]] by blast

subsection \<open>One rule over a feed\<close>

abbreviation solo :: "rule \<Rightarrow> feed \<Rightarrow> engine" where
  "solo r feed \<equiv> snd (run_feed feed (new_engine [r]))"

abbreviation rule_entry :: "rule \<Rightarrow> feed \<Rightarrow> string \<Rightarrow> rstate option" where
  "rule_entry r feed x \<equiv> map_of (eng_states (solo r feed)) (r_id r @ '':'' @ x)"

definition lone :: "rule \<Rightarrow> bool" where
  "lone r \<longleftrightarrow> colon_free (r_id r) \<and> r_kind r \<noteq> Composite"

lemma lone_in: "simple_rules rs \<Longrightarrow> r \<in> set rs \<Longrightarrow> lone r"
  by (simp add: lone_def simple_rules_def)

lemma solo_ok: "lone r \<Longrightarrow> eng_rules (solo r feed) = [r] \<and> distinct (map fst (eng_states (solo r feed))) \<and>
  state_ttl (solo r feed) = 10 * minute"
proof (induction feed rule: rev_induct)
  case Nil
  then show ?case by (simp add: new_engine_def)
next
  case (snoc m feed)
  then show ?case
    using apply_single(3-5) [of r "solo r feed" m] by (simp add: lone_def run_feed_snoc)
qed

text \<open>What the detections of a rule are told apart by: the track, or the stream for a rate rule.\<close>

definition subject_of :: "rule \<Rightarrow> detection \<Rightarrow> string" where
  "subject_of r d = (if r_kind r = Rate then d_stream d else d_track d)"

lemma rule_key_subject: "rule_key r d = r_id r @ '':'' @ subject_of r d"
  by (simp add: rule_key_def subject_of_def track_key_def stream_key_def)

lemma solo_snoc:
  assumes "lone r"
  shows "fst (apply_detection (fst m) (snd m) (solo r feed)) =
      (case fst (rule_step r (snd m) (seen_at m) (rule_entry r feed (subject_of r (snd m)))) of None \<Rightarrow> [] | Some x \<Rightarrow> [x])"
    and "rule_entry r (feed @ [m]) x =
      (case if x = subject_of r (snd m) then snd (rule_step r (snd m) (seen_at m) (rule_entry r feed x)) else rule_entry r feed x of
         None \<Rightarrow> None | Some s \<Rightarrow> if expired (10 * minute) (seen_at m) s then None else Some s)"
proof -
  have r: "colon_free (r_id r)" "r_kind r \<noteq> Composite" using assms by (auto simp: lone_def)
  have e: "eng_rules (solo r feed) = [r]" "distinct (map fst (eng_states (solo r feed)))" "state_ttl (solo r feed) = 10 * minute"
    using solo_ok [OF assms] by auto
  have o: "own_key r (r_id r @ '':'' @ x)" by (auto simp: own_key_def)
  show "fst (apply_detection (fst m) (snd m) (solo r feed)) =
      (case fst (rule_step r (snd m) (seen_at m) (rule_entry r feed (subject_of r (snd m)))) of None \<Rightarrow> [] | Some x \<Rightarrow> [x])"
    using apply_single(1) [OF r e(1,2), of m] by (simp only: rule_key_subject)
  show "rule_entry r (feed @ [m]) x =
      (case if x = subject_of r (snd m) then snd (rule_step r (snd m) (seen_at m) (rule_entry r feed x)) else rule_entry r feed x of
         None \<Rightarrow> None | Some s \<Rightarrow> if expired (10 * minute) (seen_at m) s then None else Some s)"
    using apply_single(2) [OF r e(1,2) o, of m, unfolded e(3)] by (cases "x = subject_of r (snd m)") (simp_all add: rule_key_subject run_feed_snoc)
qed

lemma last_event:
  assumes "simple_rules rs" "r \<in> set rs"
  shows "of_rule r (fst (apply_detection (fst m) (snd m) (snd (run_feed feed (new_engine rs))))) =
    fst (apply_detection (fst m) (snd m) (solo r feed))"
  using agree_step agree_run [OF agree_new [OF assms]] by blast

lemma dwell_step:
  assumes "r_kind r = Dwell" "r_zone r = Some z"
  shows "rule_step r d now s =
    (if d_track d = [] then (None, s)
     else if \<not> center_in_zone z (d_bbox d) then (None, None)
     else case s of
       None \<Rightarrow> (None, Some (empty_state\<lparr>entered_at := now\<rparr>))
     | Some y \<Rightarrow>
         if \<not> cooldown_active y r now \<and> r_dwell r \<le> time_sub now (entered_at y) then
           (Some (build_event r d now ''dwell rule fired''), Some (y\<lparr>has_fired := True, last_fired := now\<rparr>))
         else (None, s))"
  using assms
  by (auto simp: rule_step_def eval_rule_kinds rule_key_def eval_dwell_def Let_def split: option.splits)

text \<open>The detections of a track from position \<open>i\<close> of the feed on all lie in the zone.\<close>

definition inside_since :: "zone \<Rightarrow> feed \<Rightarrow> string \<Rightarrow> nat \<Rightarrow> bool" where
  "inside_since z feed x i \<longleftrightarrow>
     i < length feed \<and> d_track (snd (feed ! i)) = x \<and>
     (\<forall>j < length feed. i \<le> j \<longrightarrow> d_track (snd (feed ! j)) = x \<longrightarrow> center_in_zone z (d_bbox (snd (feed ! j))))"

lemma inside_since_snoc:
  "inside_since z feed x i \<Longrightarrow> (d_track (snd m) = x \<Longrightarrow> center_in_zone z (d_bbox (snd m))) \<Longrightarrow> inside_since z (feed @ [m]) x i"
  by (auto simp: inside_since_def nth_append less_Suc_eq)

lemma inside_since_start:
  "center_in_zone z (d_bbox (snd m)) \<Longrightarrow> inside_since z (feed @ [m]) (d_track (snd m)) (length feed)"
  by (auto simp: inside_since_def nth_append less_Suc_eq)

lemma dwell_entry:
  assumes "lone r" "r_kind r = Dwell" "r_zone r = Some z"
  shows "x \<noteq> [] \<Longrightarrow> rule_entry r feed x = Some s \<Longrightarrow> \<exists>i. inside_since z feed x i \<and> entered_at s = seen_at (feed ! i)"
proof (induction feed arbitrary: s rule: rev_induct)
  case Nil
  then show ?case by (simp add: new_engine_def)
next
  case (snoc m feed)
  let ?d = "snd m"
  have sub: "subject_of r ?d = d_track ?d" by (simp add: subject_of_def assms(2))
  show ?case
  proof (cases "x = d_track ?d")
    case False
    then have "rule_entry r feed x = Some s"
      using snoc.prems(2) unfolding solo_snoc(2) [OF assms(1)] sub by (simp split: option.splits if_splits)
    then obtain i where "inside_since z feed x i" "entered_at s = seen_at (feed ! i)" using snoc.IH snoc.prems(1) by blast
    with False show ?thesis by (intro exI [of _ i]) (auto intro!: inside_since_snoc simp: nth_append inside_since_def)
  next
    case True
    let ?s = "snd (rule_step r ?d (seen_at m) (rule_entry r feed x))"
    have s: "?s = Some s" using snoc.prems(2) True unfolding solo_snoc(2) [OF assms(1)] sub by (simp split: option.splits if_splits)
    then have zone: "center_in_zone z (d_bbox ?d)"
      using snoc.prems(1) True by (auto simp: dwell_step [OF assms(2,3)] split: if_splits)
    show ?thesis
    proof (cases "rule_entry r feed x")
      case None
      then have "entered_at s = seen_at m"
        using s zone snoc.prems(1) True by (auto simp: dwell_step [OF assms(2,3)] empty_state_def)
      then show ?thesis using inside_since_start [OF zone, of feed] True by (intro exI [of _ "length feed"]) simp
    next
      case (Some y)
      have "entered_at s = entered_at y"
        using s zone snoc.prems(1) True Some by (auto simp: dwell_step [OF assms(2,3)] split: if_splits)
      moreover obtain i where "inside_since z feed x i" "entered_at y = seen_at (feed ! i)"
        using snoc.IH [OF snoc.prems(1) Some] by blast
      ultimately show ?thesis
        using zone by (intro exI [of _ i]) (auto intro!: inside_since_snoc simp: nth_append inside_since_def)
    qed
  qed
qed

text \<open>
  C17: With rules whose ids are distinct and free of colons, and none composite, an event of a dwell rule is never spurious: an earlier detection of the same track at least the dwell time
  before it lies in the zone, and so does every detection of that track since, the one that fired included.
\<close>

theorem dwell_event_sound:
  assumes "simple_rules rs" "r \<in> set rs" "r_kind r = Dwell" "r_zone r = Some z"
    and "e \<in> set (fst (apply_detection clock d (snd (run_feed feed (new_engine rs)))))" "fe_rule e = r_id r"
  shows "fe_track e = d_track d \<and> fe_emitted e = capture_or_now d clock \<and> center_in_zone z (d_bbox d) \<and>
    (\<exists>i < length feed. d_track (snd (feed ! i)) = d_track d \<and>
       r_dwell r \<le> time_sub (fe_emitted e) (capture_or_now (snd (feed ! i)) (fst (feed ! i))) \<and>
       (\<forall>j < length feed. i \<le> j \<longrightarrow> d_track (snd (feed ! j)) = d_track d \<longrightarrow> center_in_zone z (d_bbox (snd (feed ! j)))))"
proof -
  have r: "lone r" using lone_in [OF assms(1,2)] .
  have sub: "subject_of r d = d_track d" by (simp add: subject_of_def assms(3))
  let ?now = "capture_or_now d clock"
  have "e \<in> set (fst (apply_detection clock d (solo r feed)))"
    using last_event [OF assms(1,2), of "(clock, d)" feed, symmetric] assms(5,6) by simp
  then have ev: "fst (rule_step r d ?now (rule_entry r feed (d_track d))) = Some e"
    using solo_snoc(1) [OF r, of "(clock, d)" feed] sub by (simp split: option.splits)
  then obtain s where s: "rule_entry r feed (d_track d) = Some s" "d_track d \<noteq> []" "center_in_zone z (d_bbox d)"
    "r_dwell r \<le> time_sub ?now (entered_at s)" "e = build_event r d ?now ''dwell rule fired''"
    by (auto simp: dwell_step [OF assms(3,4)] split: if_splits option.splits)
  from dwell_entry [OF r assms(3,4) s(2,1)] obtain i where
    "inside_since z feed (d_track d) i" "entered_at s = seen_at (feed ! i)" by blast
  with s show ?thesis unfolding inside_since_def by (intro conjI exI [of _ i]) simp_all
qed

subsection \<open>A dwell time beyond the lifetime of the state\<close>

text \<open>Detections, of whatever track, that follow each other within a gap.\<close>

definition steady :: "duration \<Rightarrow> feed \<Rightarrow> bool" where
  "steady gap feed \<longleftrightarrow> (\<forall>i < length feed. 0 < seen_at (feed ! i)) \<and>
     (\<forall>i. Suc i < length feed \<longrightarrow> seen_at (feed ! Suc i) - seen_at (feed ! i) \<le> gap)"

lemma steady_snoc: "steady gap (feed @ [m]) \<longleftrightarrow> steady gap feed \<and> 0 < seen_at m \<and> (feed \<noteq> [] \<longrightarrow> seen_at m - seen_at (last feed) \<le> gap)"
proof (cases feed rule: rev_cases)
  case (snoc ys y)
  then show ?thesis by (auto simp: steady_def nth_append less_Suc_eq all_conj_distrib)
qed (simp add: steady_def)

definition young :: "time \<Rightarrow> rstate \<Rightarrow> bool" where
  "young now s \<longleftrightarrow> last_fired s = 0 \<and> 0 < entered_at s \<and> now - entered_at s \<le> 10 * minute"

lemma long_dwell_young:
  assumes "lone r" "r_kind r = Dwell" "r_zone r = Some z" "0 \<le> gap" "10 * minute + gap < r_dwell r"
  shows "steady gap feed \<Longrightarrow>
    fst (run_feed feed (new_engine [r])) = [] \<and>
    (\<forall>x s. x \<noteq> [] \<longrightarrow> rule_entry r feed x = Some s \<longrightarrow> young (seen_at (last feed)) s)"
proof (induction feed rule: rev_induct)
  case Nil
  then show ?case by (simp add: new_engine_def)
next
  case (snoc m feed)
  let ?now = "seen_at m"
  have sub: "subject_of r (snd m) = d_track (snd m)" by (simp add: subject_of_def assms(2))
  have st: "steady gap feed" "0 < ?now" "feed \<noteq> [] \<Longrightarrow> ?now - seen_at (last feed) \<le> gap" using snoc.prems by (auto simp: steady_snoc)
  have near: "last_fired s = 0 \<and> 0 < entered_at s \<and> ?now - entered_at s \<le> 10 * minute + gap"
    if "x \<noteq> []" "rule_entry r feed x = Some s" for x s
  proof -
    have "feed \<noteq> []" using that(2) by (auto simp: new_engine_def)
    then show ?thesis using snoc.IH [OF st(1)] that st(3) by (force simp: young_def)
  qed
  have late: "\<not> r_dwell r \<le> time_sub ?now (entered_at s)" if "x \<noteq> []" "rule_entry r feed x = Some s" for x s
    using near [OF that] assms(4,5) by (auto simp: time_sub_def)
  have quiet: "fst (rule_step r (snd m) ?now (rule_entry r feed (d_track (snd m)))) = None"
    using late [of "d_track (snd m)"]
    by (cases "d_track (snd m) = []") (auto simp: dwell_step [OF assms(2,3)] split: option.splits)
  then have "fst (run_feed (feed @ [m]) (new_engine [r])) = []"
    using snoc.IH [OF st(1)] solo_snoc(1) [OF assms(1), of m feed] sub by (simp add: run_feed_snoc)
  moreover have "young ?now s" if x: "x \<noteq> []" "rule_entry r (feed @ [m]) x = Some s" for x s
  proof -
    have e: "\<not> expired (10 * minute) ?now s"
      and c: "rule_entry r feed x = Some s \<or> s = empty_state\<lparr>entered_at := ?now\<rparr>"
      using x(2) late [OF x(1)] x(1) sub unfolding solo_snoc(2) [OF assms(1)]
      by (auto simp: dwell_step [OF assms(2,3)] split: if_splits option.splits)
    then show ?thesis
      using near [OF x(1)] st(2)
      by (auto simp: young_def expired_def gc_ref_def Let_def is_zero_def empty_state_def time_sub_def split: if_splits)
  qed
  ultimately show ?case by simp
qed

text \<open>
  A dwell rule whose dwell time exceeds the ten minutes the engine keeps its state never fires while detections keep
  coming: the entry of a track expires, and the timer restarts, however long the track stays in the zone.
\<close>

theorem long_dwell_never_fires:
  assumes "simple_rules rs" "r \<in> set rs" "r_kind r = Dwell" "r_zone r = Some z"
    and "0 \<le> gap" "10 * minute + gap < r_dwell r" "steady gap feed"
  shows "\<forall>e \<in> set (fst (run_feed feed (new_engine rs))). fe_rule e \<noteq> r_id r"
  using long_dwell_young [OF lone_in [OF assms(1,2)] assms(3-7)] agree_run [OF agree_new [OF assms(1,2)], of feed]
  by (simp add: filter_empty_conv)

subsection \<open>Cooldowns\<close>

lemma cooldown_step:
  assumes "r_kind r \<in> {LineCross, Abandoned, Rate}" "rule_step r d now s = (ev, s')"
  shows "ev = Some e \<Longrightarrow> (\<exists>why. e = build_event r d now why) \<and> (\<exists>x. s' = Some x \<and> last_fired x = now) \<and>
      (\<forall>y. s = Some y \<longrightarrow> \<not> cooldown_active y r now)"
    and "ev = None \<Longrightarrow> s = Some y \<Longrightarrow> \<exists>x. s' = Some x \<and> last_fired x = last_fired y"
proof -
  have k: "r_kind r = LineCross \<or> r_kind r = Abandoned \<or> r_kind r = Rate" using assms(1) by auto
  show "ev = Some e \<Longrightarrow> (\<exists>why. e = build_event r d now why) \<and> (\<exists>x. s' = Some x \<and> last_fired x = now) \<and>
      (\<forall>y. s = Some y \<longrightarrow> \<not> cooldown_active y r now)"
    using k assms(2)
    by (elim disjE)
      (auto simp: rule_step_def eval_rule_kinds rule_key_def eval_defs cooldown_active_def Let_def split: if_splits option.splits)
  show "ev = None \<Longrightarrow> s = Some y \<Longrightarrow> \<exists>x. s' = Some x \<and> last_fired x = last_fired y"
    using k assms(2)
    by (elim disjE)
      (auto simp: rule_step_def eval_rule_kinds rule_key_def eval_defs cooldown_active_def Let_def split: if_splits option.splits)
qed

definition event_subject :: "rule \<Rightarrow> fired_event \<Rightarrow> string" where
  "event_subject r e = (if r_kind r = Rate then fe_stream e else fe_track e)"

lemma event_subject_build [simp]: "event_subject r (build_event r d now why) = subject_of r d"
  by (simp add: event_subject_def subject_of_def)

text \<open>The capture times of a feed, clock readings included, never go back.\<close>

definition forward :: "feed \<Rightarrow> bool" where
  "forward feed \<longleftrightarrow> sorted (map seen_at feed) \<and> (\<forall>m \<in> set feed. 0 < seen_at m)"

text \<open>The entry of an event's subject remembers it, or has expired since.\<close>

definition remembered :: "rule \<Rightarrow> feed \<Rightarrow> fired_event \<Rightarrow> bool" where
  "remembered r feed a \<longleftrightarrow>
     0 < fe_emitted a \<and> feed \<noteq> [] \<and> fe_emitted a \<le> seen_at (last feed) \<and>
     ((\<exists>s. rule_entry r feed (event_subject r a) = Some s \<and> fe_emitted a \<le> last_fired s) \<or>
      10 * minute < seen_at (last feed) - fe_emitted a)"

definition spaced :: "rule \<Rightarrow> fired_event list \<Rightarrow> bool" where
  "spaced r evs \<longleftrightarrow>
     sorted_wrt (\<lambda>a b. event_subject r a = event_subject r b \<longrightarrow> r_cooldown r \<le> fe_emitted b - fe_emitted a) evs"

lemma cooldown_over:
  "\<not> cooldown_active s r now \<Longrightarrow> 0 < t \<Longrightarrow> t \<le> last_fired s \<Longrightarrow> t \<le> now \<Longrightarrow> r_cooldown r \<le> now - t"
  by (auto simp: cooldown_active_def is_zero_def time_sub_def split: if_splits)

lemma remembered_snoc:
  assumes "lone r" "r_kind r \<in> {LineCross, Abandoned, Rate}" "remembered r feed a" "seen_at (last feed) \<le> seen_at m"
  shows "remembered r (feed @ [m]) a"
proof -
  let ?x = "event_subject r a" let ?now = "seen_at m"
  have a: "0 < fe_emitted a" "fe_emitted a \<le> ?now" using assms(3,4) by (auto simp: remembered_def)
  show ?thesis
  proof (cases "10 * minute < seen_at (last feed) - fe_emitted a")
    case True
    then show ?thesis using a assms(4) by (simp add: remembered_def)
  next
    case False
    then obtain s where s: "rule_entry r feed ?x = Some s" "fe_emitted a \<le> last_fired s" using assms(3) by (auto simp: remembered_def)
    have "\<exists>y. (if ?x = subject_of r (snd m) then snd (rule_step r (snd m) ?now (rule_entry r feed ?x)) else rule_entry r feed ?x) = Some y \<and>
        fe_emitted a \<le> last_fired y"
    proof (cases "?x = subject_of r (snd m)")
      case True
      obtain ev s' where st: "rule_step r (snd m) ?now (rule_entry r feed ?x) = (ev, s')" by (cases "rule_step r (snd m) ?now (rule_entry r feed ?x)")
      show ?thesis
        using cooldown_step [OF assms(2) st] s a(2) True st by (cases ev) auto
    qed (use s in simp)
    then obtain y where y: "fe_emitted a \<le> last_fired y"
      "rule_entry r (feed @ [m]) ?x = (if expired (10 * minute) ?now y then None else Some y)"
      unfolding solo_snoc(2) [OF assms(1)] by auto
    have "10 * minute < ?now - fe_emitted a" if "expired (10 * minute) ?now y"
      using that y(1) a(1) by (auto simp: expired_def gc_ref_def is_zero_def Let_def time_sub_def split: if_splits)
    with y a show ?thesis by (auto simp: remembered_def)
  qed
qed

lemma spaced_run:
  assumes "lone r" "r_kind r \<in> {LineCross, Abandoned, Rate}" "r_cooldown r \<le> 10 * minute"
  shows "forward feed \<Longrightarrow> spaced r (fst (run_feed feed (new_engine [r]))) \<and>
    (\<forall>a \<in> set (fst (run_feed feed (new_engine [r]))). remembered r feed a)"
proof (induction feed rule: rev_induct)
  case Nil
  then show ?case by (simp add: spaced_def)
next
  case (snoc m feed)
  let ?evs = "fst (run_feed feed (new_engine [r]))" and ?now = "seen_at m" and ?x = "subject_of r (snd m)"
  have fw: "forward feed" "0 < ?now" "\<And>k. k \<in> set feed \<Longrightarrow> seen_at k \<le> ?now"
    using snoc.prems by (auto simp: forward_def sorted_append)
  have last: "feed \<noteq> [] \<Longrightarrow> seen_at (last feed) \<le> ?now" using fw(3) by simp
  have ih: "spaced r ?evs" "\<And>a. a \<in> set ?evs \<Longrightarrow> remembered r feed a" using snoc.IH [OF fw(1)] by auto
  have old: "remembered r (feed @ [m]) a" if "a \<in> set ?evs" for a
    using remembered_snoc [OF assms(1,2) ih(2) [OF that]] last ih(2) [OF that] by (simp add: remembered_def)
  obtain ev s' where st: "rule_step r (snd m) ?now (rule_entry r feed ?x) = (ev, s')" by (cases "rule_step r (snd m) ?now (rule_entry r feed ?x)")
  have new: "fst (run_feed (feed @ [m]) (new_engine [r])) = ?evs @ (case ev of None \<Rightarrow> [] | Some e \<Rightarrow> [e])"
    using solo_snoc(1) [OF assms(1), of m feed] st by (simp add: run_feed_snoc)
  show ?case
  proof (cases ev)
    case None
    then show ?thesis using new ih(1) old by simp
  next
    case (Some b)
    obtain y where b: "event_subject r b = ?x" "fe_emitted b = ?now" "s' = Some y" "last_fired y = ?now"
      and cool: "\<And>s. rule_entry r feed ?x = Some s \<Longrightarrow> \<not> cooldown_active s r ?now"
      using cooldown_step(1) [OF assms(2) st Some] by auto
    have "\<not> expired (10 * minute) ?now y"
      using b(4) fw(2) by (auto simp: expired_def gc_ref_def is_zero_def time_sub_def Let_def)
    then have "rule_entry r (feed @ [m]) ?x = Some y" unfolding solo_snoc(2) [OF assms(1)] using st b(3) by simp
    then have "remembered r (feed @ [m]) b" using b fw(2) by (auto simp: remembered_def)
    moreover have "r_cooldown r \<le> fe_emitted b - fe_emitted a" if a: "a \<in> set ?evs" "event_subject r a = event_subject r b" for a
    proof (cases "10 * minute < seen_at (last feed) - fe_emitted a")
      case True
      then show ?thesis using assms(3) last ih(2) [OF a(1)] b(2) by (simp add: remembered_def)
    next
      case False
      then obtain s where s: "rule_entry r feed ?x = Some s" "fe_emitted a \<le> last_fired s" "0 < fe_emitted a" "fe_emitted a \<le> ?now"
        using ih(2) [OF a(1)] a(2) b(1) last by (fastforce simp: remembered_def)
      show ?thesis using cooldown_over [OF cool [OF s(1)] s(3,2,4)] b(2) by simp
    qed
    ultimately show ?thesis using new old ih(1) Some by (auto simp: spaced_def sorted_wrt_append)
  qed
qed

text \<open>
  The events that a crossing, abandonment or rate rule fires for one track (one stream for a rate rule) are at least its
  cooldown apart, when the detections do not go back in time and the cooldown is at most the ten minutes state is kept.
\<close>

theorem cooldown_spaces_events:
  assumes "simple_rules rs" "r \<in> set rs" "r_kind r \<in> {LineCross, Abandoned, Rate}" "r_cooldown r \<le> 10 * minute" "forward feed"
  shows "sorted_wrt (\<lambda>a b. event_subject r a = event_subject r b \<longrightarrow> r_cooldown r \<le> fe_emitted b - fe_emitted a)
    (filter (\<lambda>e. fe_rule e = r_id r) (fst (run_feed feed (new_engine rs))))"
  using spaced_run [OF lone_in [OF assms(1,2)] assms(3-5)] agree_run [OF agree_new [OF assms(1,2)], of feed]
  by (simp add: spaced_def)

subsection \<open>What the loader leaves of a rule file\<close>

lemma eval_all_events:
  "eval_all rs d now st = (evs, st') \<Longrightarrow> e \<in> set evs \<Longrightarrow> \<exists>r \<in> set rs. \<exists>st1 st2. eval_rule r d now st1 = (Some e, st2)"
proof (induction rs arbitrary: st evs st')
  case (Cons r rs)
  obtain ev st1 where q: "eval_rule r d now st = (ev, st1)" by (cases "eval_rule r d now st")
  obtain evs2 st2 where "eval_all rs d now st1 = (evs2, st2)" by (cases "eval_all rs d now st1")
  with Cons q show ?case by (auto split: option.splits) blast+
qed simp

lemma run_feed_rules: "eng_rules (snd (run_feed feed e)) = eng_rules e"
  by (induction feed rule: rev_induct) (simp_all add: run_feed_snoc apply_detection_def Let_def split: prod.splits)

lemma run_feed_events:
  "e \<in> set (fst (run_feed feed en)) \<Longrightarrow> \<exists>r \<in> set (eng_rules en). \<exists>m \<in> set feed. \<exists>st1 st2. eval_rule r (snd m) (seen_at m) st1 = (Some e, st2)"
proof (induction feed rule: rev_induct)
  case (snoc m feed)
  show ?case
  proof (cases "e \<in> set (fst (run_feed feed en))")
    case True
    then obtain r k st1 st2 where "r \<in> set (eng_rules en)" "k \<in> set feed" "eval_rule r (snd k) (seen_at k) st1 = (Some e, st2)"
      using snoc.IH by blast
    then show ?thesis by (intro bexI [of _ r] bexI [of _ k] exI) simp_all
  next
    case False
    then have "e \<in> set (fst (apply_detection (fst m) (snd m) (snd (run_feed feed en))))" using snoc.prems by (simp add: run_feed_snoc)
    then show ?thesis
      using eval_all_events [of "eng_rules en" "snd m" "seen_at m"]
      by (fastforce simp: apply_detection_def Let_def run_feed_rules split: prod.splits)
  qed
qed simp

text \<open>
  C39: Whatever the rule file says, the service fires dwell and abandonment events only, all with the severity unspecified:
  the loader reads neither severities nor the parameters of the other kinds of rule.
\<close>

theorem loaded_rules_fire_only:
  assumes "e \<in> set (fst (run_feed feed (new_engine (load_rules ws))))"
  shows "fe_severity e = 0 \<and>
    (\<exists>w \<in> set ws. fe_rule e = wr_id w \<and> fe_tenant e = wr_tenant w \<and>
       (wr_kind w = ''spatial.dwell'' \<and> wr_zone w \<noteq> None \<and> fe_summary e = ''dwell rule fired'' \<or>
        wr_kind w = ''temporal.abandoned'' \<and> fe_summary e = ''abandoned object''))"
proof -
  obtain r m st1 st2 where "r \<in> set (load_rules ws)" and ev: "eval_rule r (snd m) (seen_at m) st1 = (Some e, st2)"
    using run_feed_events [OF assms] by (auto simp: new_engine_def)
  then obtain w where w: "w \<in> set ws" "r = load_rule w" by (auto simp: load_rules_def)
  have k: "eval_rule (load_rule w) d now st = (Some e, st') \<Longrightarrow>
      r_kind (load_rule w) = Dwell \<and> wr_zone w \<noteq> None \<and> e = build_event (load_rule w) d now ''dwell rule fired'' \<or>
      r_kind (load_rule w) = Abandoned \<and> e = build_event (load_rule w) d now ''abandoned object''" for d now st st'
    by (cases "r_kind (load_rule w)")
      (auto simp: eval_rule_kinds load_rule_def eval_defs finish_composite_def Let_def split: if_splits option.splits)
  have "fe_summary (build_event q d now why) = why" for q d now why by (simp add: build_event_def)
  moreover have "r_kind (load_rule w) = Dwell \<Longrightarrow> wr_kind w = ''spatial.dwell''"
    "r_kind (load_rule w) = Abandoned \<Longrightarrow> wr_kind w = ''temporal.abandoned''"
    by (auto simp: load_rule_def rule_kind_of_def split: if_splits)
  ultimately show ?thesis using w k [of "snd m" "seen_at m" st1 st2] ev by (auto simp: load_rule_def intro!: bexI [of _ w])
qed

subsection \<open>A concrete rule set\<close>

definition demo_zone :: zone where
  "demo_zone = \<lparr>zone_id = ''door'', zone_x = Fin 0, zone_y = Fin 0, zone_w = Fin 0, zone_h = Fin 0\<rparr>"

definition demo_dwell :: "duration \<Rightarrow> rule" where
  "demo_dwell dwell = Rule ''loiter'' ''t'' ''p'' Dwell 3 (Some demo_zone) None dwell 0 0 0 [] [] 0"

definition demo_rate :: rule where
  "demo_rate = Rule ''busy'' ''t'' ''p'' Rate 2 None None 0 0 1 minute [] [] minute"

definition demo_seen :: detection where
  "demo_seen = \<lparr>d_tenant = ''t'', d_stream = ''cam'', d_track = ''7'', d_frame = 0, d_capture = None, d_class = ''person'', d_score = Fin 1,
     d_bbox = Some \<lparr>box_x = Fin 0, box_y = Fin 0, box_w = Fin 0, box_h = Fin 0\<rparr>\<rparr>"

lemma demo_simple: "simple_rules [demo_dwell dw, demo_rate]"
  by (simp add: simple_rules_def demo_dwell_def demo_rate_def colon_free_def)

lemma demo_inside: "center_in_zone demo_zone (d_bbox demo_seen)"
  by (simp add: center_in_zone_def demo_zone_def demo_seen_def fl_le_def Let_def fl_round_def)

lemma demo_kind [simp]: "r_kind (demo_dwell dw) = Dwell" "r_zone (demo_dwell dw) = Some demo_zone" "r_dwell (demo_dwell dw) = dw"
  "r_id (demo_dwell dw) = ''loiter''" "r_kind demo_rate = Rate" "r_id demo_rate = ''busy''" "r_cooldown demo_rate = minute"
  "r_cooldown (demo_dwell dw) = 0"
  by (simp_all add: demo_dwell_def demo_rate_def)

lemma demo_d [simp]: "capture_or_now demo_seen c = c" "d_track demo_seen = ''7''"
  by (simp_all add: demo_seen_def capture_or_now_def)

lemma demo_subject [simp]: "subject_of (demo_dwell dw) demo_seen = ''7''"
  by (simp add: subject_of_def)

lemma demo_fires:
  "\<exists>e. e \<in> set (fst (apply_detection (7 * second) demo_seen (snd (run_feed [(second, demo_seen)] (new_engine [demo_dwell (5 * second), demo_rate]))))) \<and>
     fe_rule e = ''loiter''"
proof -
  let ?r = "demo_dwell (5 * second)"
  have l: "lone ?r" by (rule lone_in [OF demo_simple [of "5 * second"]]) simp
  have "rule_entry ?r [(second, demo_seen)] ''7'' = Some (empty_state\<lparr>entered_at := second\<rparr>)"
    using solo_snoc(2) [OF l, of "[]" "(second, demo_seen)" "''7''"]
    by (simp add: new_engine_def dwell_step [OF demo_kind(1,2)] demo_inside expired_def gc_ref_def empty_state_def is_zero_def time_sub_def)
  then have "fst (apply_detection (7 * second) demo_seen (solo ?r [(second, demo_seen)])) = [build_event ?r demo_seen (7 * second) ''dwell rule fired'']"
    using solo_snoc(1) [OF l, of "(7 * second, demo_seen)" "[(second, demo_seen)]"]
    by (simp add: dwell_step [OF demo_kind(1,2)] demo_inside empty_state_def cooldown_active_def time_sub_def)
  then have "build_event ?r demo_seen (7 * second) ''dwell rule fired'' \<in>
      set (of_rule ?r (fst (apply_detection (7 * second) demo_seen (snd (run_feed [(second, demo_seen)] (new_engine [?r, demo_rate]))))))"
    using last_event [OF demo_simple [of "5 * second"], of ?r "(7 * second, demo_seen)" "[(second, demo_seen)]"] by simp
  then show ?thesis by auto
qed

theorem rules_are_independent_witness:
  "filter (\<lambda>e. fe_rule e = ''busy'') (fst (run_feed [(second, demo_seen)] (new_engine [demo_dwell 1, demo_rate]))) =
   fst (run_feed [(second, demo_seen)] (new_engine [demo_rate]))"
  using rules_are_independent [OF demo_simple [of 1], of demo_rate "[(second, demo_seen)]"] by simp

theorem dwell_event_sound_witness:
  "\<exists>e \<in> set (fst (apply_detection (7 * second) demo_seen (snd (run_feed [(second, demo_seen)] (new_engine [demo_dwell (5 * second), demo_rate]))))).
     fe_rule e = ''loiter'' \<and> fe_track e = ''7'' \<and> 5 * second \<le> time_sub (fe_emitted e) second"
proof -
  obtain e where e: "e \<in> set (fst (apply_detection (7 * second) demo_seen (snd (run_feed [(second, demo_seen)] (new_engine [demo_dwell (5 * second), demo_rate])))))"
    "fe_rule e = ''loiter''" using demo_fires by blast
  have r: "demo_dwell (5 * second) \<in> set [demo_dwell (5 * second), demo_rate]" by simp
  have id: "fe_rule e = r_id (demo_dwell (5 * second))" using e(2) by simp
  have "fe_rule e = ''loiter'' \<and> fe_track e = ''7'' \<and> 5 * second \<le> time_sub (fe_emitted e) second"
    using dwell_event_sound [OF demo_simple r demo_kind(1,2) e(1) id] e(2) by (simp add: time_sub_def)
  with e(1) show ?thesis by blast
qed

theorem long_dwell_never_fires_witness:
  "filter (\<lambda>e. fe_rule e = ''loiter'')
     (fst (run_feed (replicate 3 (second, demo_seen)) (new_engine [demo_dwell (15 * minute), demo_rate]))) = []"
  using long_dwell_never_fires [OF demo_simple, of "demo_dwell (15 * minute)" "15 * minute" demo_zone minute "replicate 3 (second, demo_seen)"]
  by (simp add: steady_def less_Suc_eq numeral_3_eq_3 filter_empty_conv)

theorem cooldown_spaces_events_witness:
  "sorted_wrt (\<lambda>a b. event_subject demo_rate a = event_subject demo_rate b \<longrightarrow> minute \<le> fe_emitted b - fe_emitted a)
    (filter (\<lambda>e. fe_rule e = ''busy'') (fst (run_feed [(second, demo_seen), (2 * second, demo_seen), (70 * second, demo_seen)]
       (new_engine [demo_dwell 1, demo_rate]))))"
  using cooldown_spaces_events [OF demo_simple, of demo_rate 1 "[(second, demo_seen), (2 * second, demo_seen), (70 * second, demo_seen)]"]
  by (simp add: forward_def)

theorem loaded_rules_fire_only_witness:
  "\<exists>e \<in> set (fst (run_feed [(second, demo_seen), (7 * second, demo_seen)] (new_engine (load_rules
      [\<lparr>wr_id = ''loiter'', wr_tenant = ''t'', wr_pipeline = ''p'', wr_kind = ''spatial.dwell'', wr_severity = 3,
        wr_zone = Some demo_zone, wr_dwell_ms = 5000, wr_stale_ms = 0, wr_cooldown_ms = 0\<rparr>])))). fe_severity e = 0"
proof -
  let ?w = "\<lparr>wr_id = ''loiter'', wr_tenant = ''t'', wr_pipeline = ''p'', wr_kind = ''spatial.dwell'', wr_severity = 3,
        wr_zone = Some demo_zone, wr_dwell_ms = 5000, wr_stale_ms = 0, wr_cooldown_ms = 0\<rparr>"
  let ?r = "load_rule ?w"
  have r: "r_kind ?r = Dwell" "r_zone ?r = Some demo_zone" "r_id ?r = ''loiter''" "r_dwell ?r = 5 * second" "r_cooldown ?r = 0"
    by (simp_all add: load_rule_def rule_kind_of_def in_i64_def)
  have l: "lone ?r" by (simp add: lone_def r colon_free_def)
  have s: "subject_of ?r demo_seen = ''7''" by (simp add: subject_of_def r)
  have "rule_entry ?r [(second, demo_seen)] ''7'' = Some (empty_state\<lparr>entered_at := second\<rparr>)"
    using solo_snoc(2) [OF l, of "[]" "(second, demo_seen)" "''7''"]
    by (simp add: s new_engine_def dwell_step [OF r(1,2)] demo_inside expired_def gc_ref_def empty_state_def is_zero_def time_sub_def)
  then have "fst (apply_detection (7 * second) demo_seen (solo ?r [(second, demo_seen)])) = [build_event ?r demo_seen (7 * second) ''dwell rule fired'']"
    using solo_snoc(1) [OF l, of "(7 * second, demo_seen)" "[(second, demo_seen)]"]
    by (simp add: s dwell_step [OF r(1,2)] demo_inside empty_state_def cooldown_active_def time_sub_def r)
  then have e: "build_event ?r demo_seen (7 * second) ''dwell rule fired'' \<in>
      set (fst (run_feed [(second, demo_seen), (7 * second, demo_seen)] (new_engine (load_rules [?w]))))"
    using run_feed_snoc(1) [of "[(second, demo_seen)]" "(7 * second, demo_seen)" "new_engine [?r]"] by (simp add: load_rules_def)
  from loaded_rules_fire_only [OF e] e show ?thesis by blast
qed

end
