(* ===== verification/Autonomy.thy ===== *)
theory Autonomy
  imports GoFloat Http
begin

section \<open>pkg/autonomy: cron expressions, the scheduler, signals\<close>

text \<open>
  Model of \<open>pkg/autonomy/cron.go\<close> and \<open>scheduler.go\<close> and of the burn-rate functions of \<open>divergence.go\<close>.
  The calendar fields of a time are those of package \<open>time\<close>, in a location that is a parameter: the
  offset from UTC in seconds at each instant.
\<close>

subsection \<open>Parsing\<close>

record cron_set =
  cs_any :: bool
  cs_step :: int
  cs_vals :: "int list"

record cron =
  c_sec :: cron_set
  c_min :: cron_set
  c_hour :: cron_set
  c_dom :: cron_set
  c_mon :: cron_set
  c_dow :: cron_set

datatype field_error = InvalidStep | InvalidValue string | OutOfRange int int int
datatype cron_error = FieldCount nat | BadField string field_error

text \<open>\<open>strings.Fields\<close>, with the encodings of white space of \<open>TrimSpace\<close>.\<close>

fun field_scan :: "nat \<Rightarrow> string \<Rightarrow> string \<Rightarrow> string list" where
  "field_scan n cur [] = (if cur = [] then [] else [cur])"
| "field_scan 0 cur (c # s) = []"
| "field_scan (Suc n) cur (c # s) =
     (case find (\<lambda>p. prefix p (c # s)) space_encodings of
        Some p \<Rightarrow> (if cur = [] then [] else [cur]) @ field_scan n [] (drop (length p) (c # s))
      | None \<Rightarrow> field_scan n (cur @ [c]) s)"

definition fields_of :: "string \<Rightarrow> string list" where
  "fields_of s = field_scan (length s) [] s"

fun parse_values :: "string list \<Rightarrow> int \<Rightarrow> int \<Rightarrow> int list \<Rightarrow> field_error + int list" where
  "parse_values [] lo hi vals = Inr vals"
| "parse_values (part # parts) lo hi vals =
     (case atoi part of
        None \<Rightarrow> Inl (InvalidValue part)
      | Some n \<Rightarrow> if n < lo \<or> hi < n then Inl (OutOfRange n lo hi) else parse_values parts lo hi (List.insert n vals))"

definition parse_field :: "string \<Rightarrow> int \<Rightarrow> int \<Rightarrow> field_error + cron_set" where
  "parse_field s lo hi =
     (if s = ''*'' then Inr \<lparr>cs_any = True, cs_step = 0, cs_vals = []\<rparr>
      else if prefix ''*/'' s then
        (case atoi (drop 2 s) of
           None \<Rightarrow> Inl InvalidStep
         | Some n \<Rightarrow> if n \<le> 0 then Inl InvalidStep else Inr \<lparr>cs_any = True, cs_step = n, cs_vals = []\<rparr>)
      else case parse_values (split_on (CHR '','') s) lo hi [] of
        Inl e \<Rightarrow> Inl e
      | Inr vals \<Rightarrow> Inr \<lparr>cs_any = False, cs_step = 0, cs_vals = vals\<rparr>)"

definition in_field :: "string \<Rightarrow> field_error + 'a \<Rightarrow> ('a \<Rightarrow> cron_error + 'b) \<Rightarrow> cron_error + 'b" where
  "in_field name r k = (case r of Inl e \<Rightarrow> Inl (BadField name e) | Inr v \<Rightarrow> k v)"

definition parse_cron :: "string \<Rightarrow> cron_error + cron" where
  "parse_cron expr =
     (case fields_of (trim_space expr) of
        [f0, f1, f2, f3, f4, f5] \<Rightarrow>
          in_field ''sec'' (parse_field f0 0 59) (\<lambda>sec.
          in_field ''min'' (parse_field f1 0 59) (\<lambda>mi.
          in_field ''hour'' (parse_field f2 0 23) (\<lambda>h.
          in_field ''dom'' (parse_field f3 1 31) (\<lambda>dom.
          in_field ''mon'' (parse_field f4 1 12) (\<lambda>mon.
          in_field ''dow'' (parse_field f5 0 6) (\<lambda>dow.
            Inr \<lparr>c_sec = sec, c_min = mi, c_hour = h, c_dom = dom, c_mon = mon, c_dow = dow\<rparr>))))))
      | fs \<Rightarrow> Inl (FieldCount (length fs)))"

definition set_match :: "cron_set \<Rightarrow> int \<Rightarrow> bool" where
  "set_match s n =
     (if cs_any s \<and> cs_step s = 0 then True
      else if 0 < cs_step s then n mod cs_step s = 0
      else n \<in> set (cs_vals s))"

subsection \<open>The calendar of package time\<close>

text \<open>Days are counted from 1 January of the year 1, a Monday, the day of the zero time.\<close>

definition leap_year :: "int \<Rightarrow> bool" where
  "leap_year y \<longleftrightarrow> y mod 4 = 0 \<and> (y mod 100 \<noteq> 0 \<or> y mod 400 = 0)"

definition days_before :: "int list" where
  "days_before = [0, 31, 59, 90, 120, 151, 181, 212, 243, 273, 304, 334, 365]"

text \<open>The year and the day of the year, counted from 0.\<close>

definition year_day :: "int \<Rightarrow> int \<times> int" where
  "year_day days =
     (let n400 = days div 146097; d = days mod 146097;
          c = d div 36524; n100 = c - c div 4; d = d - 36524 * n100;
          n4 = d div 1461; d = d mod 1461;
          q = d div 365; n1 = q - q div 4; d = d - 365 * n1 in
      (400 * n400 + 100 * n100 + 4 * n4 + n1 + 1, d))"

definition month_day :: "bool \<Rightarrow> int \<Rightarrow> int \<times> int" where
  "month_day leap yday =
     (if leap \<and> yday = 59 then (2, 29)
      else let day = (if leap \<and> 59 < yday then yday - 1 else yday);
               m = nat (day div 31); after = days_before ! (m + 1) in
           if after \<le> day then (int m + 2, day - after + 1) else (int m + 1, day - days_before ! m + 1))"

record civil_time =
  ct_sec :: int
  ct_min :: int
  ct_hour :: int
  ct_day :: int
  ct_month :: int
  ct_weekday :: int

definition civil_of :: "(time \<Rightarrow> int) \<Rightarrow> time \<Rightarrow> civil_time" where
  "civil_of off t =
     (let secs = t div second + off t; days = secs div 86400; s = secs mod 86400;
          (y, yday) = year_day days; (mon, day) = month_day (leap_year y) yday in
      \<lparr>ct_sec = s mod 60, ct_min = s div 60 mod 60, ct_hour = s div 3600,
       ct_day = day, ct_month = mon, ct_weekday = (days + 1) mod 7\<rparr>)"

lemma civil_examples:
  "civil_of (\<lambda>_. 0) 0 = \<lparr>ct_sec = 0, ct_min = 0, ct_hour = 0, ct_day = 1, ct_month = 1, ct_weekday = 1\<rparr>"
  "civil_of (\<lambda>_. 0) ((62135596800 + 1709208000) * second) =
     \<lparr>ct_sec = 0, ct_min = 0, ct_hour = 12, ct_day = 29, ct_month = 2, ct_weekday = 4\<rparr>"
  by code_simp+

subsection \<open>The next tick\<close>

definition cron_matches :: "(time \<Rightarrow> int) \<Rightarrow> cron \<Rightarrow> time \<Rightarrow> bool" where
  "cron_matches off c t =
     (let ct = civil_of off t in
      set_match (c_sec c) (ct_sec ct) \<and> set_match (c_min c) (ct_min ct) \<and> set_match (c_hour c) (ct_hour ct) \<and>
      set_match (c_dom c) (ct_day ct) \<and> set_match (c_mon c) (ct_month ct) \<and> set_match (c_dow c) (ct_weekday ct))"

function scan_seconds :: "(time \<Rightarrow> bool) \<Rightarrow> time \<Rightarrow> time \<Rightarrow> time" where
  "scan_seconds p t limit =
     (if t < limit then if p t then t else scan_seconds p (t + second) limit else zero_time)"
  by auto
termination by (relation "measure (\<lambda>(p, t, limit). nat (limit - t))") auto

declare scan_seconds.simps [simp del]

definition truncate_to :: "duration \<Rightarrow> time \<Rightarrow> time" where
  "truncate_to d t = t - t mod d"

definition cron_next :: "(time \<Rightarrow> int) \<Rightarrow> cron \<Rightarrow> time \<Rightarrow> time" where
  "cron_next off c after =
     scan_seconds (cron_matches off c) (truncate_to second (after + second)) (after + 10 * 365 * 24 * hour)"

definition whole_second :: "time \<Rightarrow> bool" where
  "whole_second t \<longleftrightarrow> t mod second = 0"

text \<open>The scan from a whole second returns the least whole second that satisfies the test, or gives up.\<close>

lemma scan_seconds_spec:
  assumes "whole_second t" "0 < t"
  shows "(if scan_seconds p t limit = 0 then (\<forall>u. t \<le> u \<longrightarrow> u < limit \<longrightarrow> whole_second u \<longrightarrow> \<not> p u)
    else t \<le> scan_seconds p t limit \<and> scan_seconds p t limit < limit \<and> whole_second (scan_seconds p t limit) \<and>
      p (scan_seconds p t limit) \<and> (\<forall>u. t \<le> u \<longrightarrow> u < scan_seconds p t limit \<longrightarrow> whole_second u \<longrightarrow> \<not> p u))"
  using assms
proof (induction p t limit rule: scan_seconds.induct)
  case (1 p t limit)
  show ?case
  proof (cases "t < limit \<and> \<not> p t")
    case False
    then have "scan_seconds p t limit = (if t < limit then t else 0)" by (subst scan_seconds.simps) simp
    with False 1(2,3) show ?thesis by auto
  next
    case True
    then have eq: "scan_seconds p t limit = scan_seconds p (t + second) limit" by (subst scan_seconds.simps) simp
    have gap: "u = t \<or> t + second \<le> u" if u: "t \<le> u" "whole_second u" for u
    proof -
      obtain a b where "t = second * a" "u = second * b"
        using 1(2) u(2) by (auto simp: whole_second_def mod_eq_0_iff_dvd elim!: dvdE)
      then show ?thesis using u(1) by (cases "a = b") (auto simp: linorder_neq_iff)
    qed
    have "whole_second (t + second)" using 1(2) by (simp add: whole_second_def)
    then show ?thesis unfolding eq using 1(1) True 1(3) gap by (auto split: if_splits)
  qed
qed

text \<open>
  C22: \<open>Next\<close> returns the first whole second after the given time at which all six fields match, if there is one
  within the next ten years of 365 days, and the zero time only if there is none.
\<close>

theorem next_tick_is_least:
  assumes "0 \<le> after"
  shows "if cron_next off c after = zero_time
    then \<forall>u. after < u \<longrightarrow> u < after + 10 * 365 * 24 * hour \<longrightarrow> whole_second u \<longrightarrow> \<not> cron_matches off c u
    else after < cron_next off c after \<and> cron_next off c after < after + 10 * 365 * 24 * hour \<and>
      whole_second (cron_next off c after) \<and> cron_matches off c (cron_next off c after) \<and>
      (\<forall>u. after < u \<longrightarrow> u < cron_next off c after \<longrightarrow> whole_second u \<longrightarrow> \<not> cron_matches off c u)"
proof -
  let ?t = "truncate_to second (after + second)"
  have eq: "?t = second * ((after + second) div second)" by (simp add: truncate_to_def minus_mod_eq_mult_div)
  have t: "whole_second ?t" "after < ?t"
    using pos_mod_bound [of second "after + second"] by (simp_all add: whole_second_def eq)
  then have pos: "0 < ?t" using assms by simp
  have first: "?t \<le> u" if u: "after < u" "whole_second u" for u
  proof -
    obtain b where "u = second * b" using u(2) by (auto simp: whole_second_def mod_eq_0_iff_dvd elim: dvdE)
    moreover have "second * (after div second) \<le> after" by (simp add: minus_mod_eq_mult_div [symmetric])
    ultimately have "after div second < b" using u(1) by simp
    then show ?thesis using \<open>u = second * b\<close> by (simp add: eq)
  qed
  show ?thesis
    using scan_seconds_spec [OF t(1) pos, of "cron_matches off c" "after + 10 * 365 * 24 * hour"] first t(2)
    unfolding cron_next_def by (auto split: if_splits)
qed

definition every_second :: cron where
  "every_second = (let any = \<lparr>cs_any = True, cs_step = 0, cs_vals = []\<rparr> in
     \<lparr>c_sec = any, c_min = any, c_hour = any, c_dom = any, c_mon = any, c_dow = any\<rparr>)"

lemma parse_every_second: "parse_cron '' * * * * *  * '' = Inr every_second"
  by code_simp

lemma parse_errors:
  "parse_cron ''* * *'' = Inl (FieldCount 3)" "parse_field ''60'' 0 59 = Inl (OutOfRange 60 0 59)"
  "parse_field ''*/0'' 0 59 = Inl InvalidStep" "parse_field ''1,x'' 0 59 = Inl (InvalidValue ''x'')"
  by code_simp+

lemma matches_every_second: "cron_matches off every_second t"
  by (simp add: cron_matches_def every_second_def set_match_def Let_def)

theorem next_tick_is_least_witness: "cron_next (\<lambda>_. 0) every_second (5 * second) = 6 * second"
proof -
  let ?n = "cron_next (\<lambda>_. 0) every_second (5 * second)"
  have six: "whole_second (6 * second)" by (simp add: whole_second_def)
  have "if ?n = 0 then False
    else 5 * second < ?n \<and> whole_second ?n \<and> \<not> 6 * second < ?n"
    using next_tick_is_least [of "5 * second" "\<lambda>_. 0" every_second] six matches_every_second
    by (auto split: if_splits)
  then have n: "5 * second < ?n" "whole_second ?n" "?n \<le> 6 * second" by (auto split: if_splits)
  obtain b where "?n = second * b" using n(2) by (auto simp: whole_second_def mod_eq_0_iff_dvd elim: dvdE)
  with n(1,3) show ?thesis by simp
qed

text \<open>The values of a parsed list lie in the range of their field.\<close>

lemma parse_values_range:
  "parse_values ps lo hi vals = Inr vs \<Longrightarrow> \<forall>v \<in> set vals. lo \<le> v \<and> v \<le> hi \<Longrightarrow> \<forall>v \<in> set vs. lo \<le> v \<and> v \<le> hi"
proof (induction ps arbitrary: vals)
  case (Cons p ps)
  from Cons.prems(1) obtain n where n: "lo \<le> n" "n \<le> hi" "parse_values ps lo hi (List.insert n vals) = Inr vs"
    by (auto simp: not_less split: option.splits if_splits)
  show ?case using Cons.IH [OF n(3)] Cons.prems(2) n(1,2) by simp
qed simp

lemma parse_field_cases:
  assumes "parse_field s lo hi = Inr cs"
  shows "(cs_any cs \<and> 0 \<le> cs_step cs) \<or> (\<not> cs_any cs \<and> cs_step cs = 0 \<and> (\<forall>v \<in> set (cs_vals cs). lo \<le> v \<and> v \<le> hi))"
  using assms parse_values_range [of _ lo hi "[]"]
  by (auto simp: parse_field_def split: if_splits option.splits sum.splits)

subsection \<open>The scheduler\<close>

record fire =
  fi_schedule :: string
  fi_tenant :: string
  fi_at :: time
  fi_reason :: string

record cron_entry =
  ce_id :: string
  ce_tenant :: string
  ce_cron :: cron
  ce_jitter :: duration
  ce_prevent :: bool

text \<open>
  One registered entry with its loop: the time its timer goes off, None once the loop has ended, the flag
  \<open>running\<close>, and the fires whose handlers have not returned.
\<close>

record entry_loop =
  el_entry :: cron_entry
  el_wake :: "time option"
  el_running :: bool
  el_active :: "fire list"

record scheduler =
  sd_loops :: "entry_loop list"
  sd_fired :: int
  sd_skipped :: int

definition new_scheduler :: scheduler where
  "new_scheduler = \<lparr>sd_loops = [], sd_fired = 0, sd_skipped = 0\<rparr>"

text \<open>The head of the loop: the timer for the next tick, with \<open>j\<close> the random number drawn for the jitter.\<close>

definition plan_wake :: "(time \<Rightarrow> int) \<Rightarrow> cron_entry \<Rightarrow> time \<Rightarrow> duration \<Rightarrow> time option" where
  "plan_wake off e now j =
     (let tick = cron_next off (ce_cron e) now in
      if is_zero tick then None
      else Some (now + (time_sub tick now + (if 0 < ce_jitter e then j mod ce_jitter e else 0))))"

definition register_entry :: "(time \<Rightarrow> int) \<Rightarrow> cron_entry \<Rightarrow> time \<Rightarrow> duration \<Rightarrow> scheduler \<Rightarrow> scheduler" where
  "register_entry off e now j s =
     s\<lparr>sd_loops := sd_loops s @ [\<lparr>el_entry = e, el_wake = plan_wake off e now j, el_running = False, el_active = []\<rparr>]\<rparr>"

text \<open>The timer of loop \<open>i\<close> goes off at \<open>now\<close>; at \<open>now2\<close> the loop plans its next tick.\<close>

definition loop_wakes :: "(time \<Rightarrow> int) \<Rightarrow> nat \<Rightarrow> time \<Rightarrow> time \<Rightarrow> duration \<Rightarrow> scheduler \<Rightarrow> scheduler" where
  "loop_wakes off i now now2 j s =
     (let l = sd_loops s ! i; e = el_entry l; l1 = l\<lparr>el_wake := plan_wake off e now2 j\<rparr> in
      if ce_prevent e \<and> el_running l then
        s\<lparr>sd_loops := (sd_loops s)[i := l1], sd_skipped := i64 (sd_skipped s + 1)\<rparr>
      else
        s\<lparr>sd_loops := (sd_loops s)[i := l1\<lparr>el_running := True,
             el_active := el_active l @ [\<lparr>fi_schedule = ce_id e, fi_tenant = ce_tenant e, fi_at = now, fi_reason = ''cron tick''\<rparr>]\<rparr>],
           sd_fired := i64 (sd_fired s + 1)\<rparr>)"

definition handler_returns :: "nat \<Rightarrow> nat \<Rightarrow> scheduler \<Rightarrow> scheduler" where
  "handler_returns i k s =
     (let l = sd_loops s ! i in
      s\<lparr>sd_loops := (sd_loops s)[i := l\<lparr>el_running := False, el_active := take k (el_active l) @ drop (Suc k) (el_active l)\<rparr>]\<rparr>)"

definition loop_cancelled :: "nat \<Rightarrow> scheduler \<Rightarrow> scheduler" where
  "loop_cancelled i s = s\<lparr>sd_loops := (sd_loops s)[i := (sd_loops s ! i)\<lparr>el_wake := None\<rparr>]\<rparr>"

inductive sched_step :: "(time \<Rightarrow> int) \<Rightarrow> scheduler \<Rightarrow> scheduler \<Rightarrow> bool" for off where
  registers: "sched_step off s (register_entry off e now j s)"
| wakes: "i < length (sd_loops s) \<Longrightarrow> el_wake (sd_loops s ! i) = Some w \<Longrightarrow> w \<le> now \<Longrightarrow> now \<le> now2 \<Longrightarrow>
    sched_step off s (loop_wakes off i now now2 j s)"
| returns: "i < length (sd_loops s) \<Longrightarrow> k < length (el_active (sd_loops s ! i)) \<Longrightarrow> sched_step off s (handler_returns i k s)"
| cancelled: "i < length (sd_loops s) \<Longrightarrow> sched_step off s (loop_cancelled i s)"

definition loop_ok :: "entry_loop \<Rightarrow> bool" where
  "loop_ok l \<longleftrightarrow> (ce_prevent (el_entry l) \<longrightarrow> length (el_active l) \<le> 1 \<and> (el_running l \<longleftrightarrow> el_active l \<noteq> []))"

lemma sched_step_ok:
  "sched_step off s s' \<Longrightarrow> \<forall>l \<in> set (sd_loops s). loop_ok l \<Longrightarrow> \<forall>l \<in> set (sd_loops s'). loop_ok l"
proof (induction rule: sched_step.induct)
  case (registers s e now j)
  then show ?case by (auto simp: register_entry_def loop_ok_def)
next
  case (wakes i s w now now2 j)
  then have "loop_ok (sd_loops s ! i)" by simp
  then show ?case using wakes by (auto simp: loop_wakes_def loop_ok_def Let_def dest!: set_update_subset_insert [THEN subsetD])
next
  case (returns i s k)
  then have "loop_ok (sd_loops s ! i)" by simp
  then show ?case using returns by (auto simp: handler_returns_def loop_ok_def Let_def dest!: set_update_subset_insert [THEN subsetD])
next
  case (cancelled i s)
  then have "loop_ok (sd_loops s ! i)" by simp
  then show ?case using cancelled by (auto simp: loop_cancelled_def loop_ok_def Let_def dest!: set_update_subset_insert [THEN subsetD])
qed

text \<open>An entry that prevents overlap has at most one handler at work.\<close>

lemma ticks_never_overlap:
  assumes "(sched_step off)\<^sup>*\<^sup>* new_scheduler s" "l \<in> set (sd_loops s)" "ce_prevent (el_entry l)"
  shows "length (el_active l) \<le> 1"
proof -
  from assms(1) have "\<forall>l \<in> set (sd_loops s). loop_ok l"
    by (induction rule: rtranclp_induct) (auto simp: new_scheduler_def dest: sched_step_ok)
  with assms(2,3) show ?thesis by (auto simp: loop_ok_def)
qed

subsection \<open>Signals\<close>

type_synonym 'h signal_router = "(string \<times> 'h) list"

definition register_signal :: "string \<Rightarrow> 'h \<Rightarrow> 'h signal_router \<Rightarrow> 'h signal_router" where
  "register_signal p h r = AList.update p h r"

text \<open>The loop of \<open>Route\<close> over the handlers: the best prefix so far, and its handler.\<close>

fun best_prefix :: "string \<Rightarrow> 'h signal_router \<Rightarrow> string \<Rightarrow> 'h option \<Rightarrow> 'h option" where
  "best_prefix subject [] bp best = best"
| "best_prefix subject ((p, h) # r) bp best =
     (if prefix p subject \<and> length bp < length p then best_prefix subject r p (Some h)
      else best_prefix subject r bp best)"

definition route_signal :: "string \<Rightarrow> 'h signal_router \<Rightarrow> 'h option" where
  "route_signal subject r = best_prefix subject r [] None"

lemma best_prefix_spec:
  "(best_prefix subject r bp best = best \<and> (\<forall>x \<in> set r. prefix (fst x) subject \<longrightarrow> length (fst x) \<le> length bp)) \<or>
   (\<exists>p h. (p, h) \<in> set r \<and> best_prefix subject r bp best = Some h \<and> prefix p subject \<and> length bp < length p \<and>
      (\<forall>x \<in> set r. prefix (fst x) subject \<longrightarrow> length (fst x) \<le> length p))"
proof (induction r arbitrary: bp best)
  case (Cons x r)
  obtain p g where x: "x = (p, g)" by (cases x)
  show ?case
  proof (cases "prefix p subject \<and> length bp < length p")
    case True
    then have "best_prefix subject (x # r) bp best = best_prefix subject r p (Some g)" by (simp add: x)
    then show ?thesis using Cons.IH [of p "Some g"]
    proof (elim disjE exE conjE)
      fix q h assume q: "(q, h) \<in> set r" "best_prefix subject r p (Some g) = Some h" "prefix q subject" "length p < length q"
        "\<forall>x \<in> set r. prefix (fst x) subject \<longrightarrow> length (fst x) \<le> length q"
      then show ?thesis using True x by (intro disjI2 exI [of _ q] exI [of _ h]) simp
    qed (use True x in \<open>intro disjI2 exI [of _ p] exI [of _ g], simp\<close>)
  next
    case False
    then have "best_prefix subject (x # r) bp best = best_prefix subject r bp best" by (auto simp: x)
    then show ?thesis using Cons.IH [of bp best]
    proof (elim disjE exE conjE)
      fix q h assume q: "(q, h) \<in> set r" "best_prefix subject r bp best = Some h" "prefix q subject" "length bp < length q"
        "\<forall>x \<in> set r. prefix (fst x) subject \<longrightarrow> length (fst x) \<le> length q"
      then show ?thesis using False x by (intro disjI2 exI [of _ q] exI [of _ h]) auto
    qed (use False x in auto)
  qed
qed simp

text \<open>The handler of the longest registered prefix that is not empty, whatever the order of the map.\<close>

lemma route_longest:
  assumes "distinct (map fst r)" "p \<in> fst ` set r" "prefix p subject" "p \<noteq> []"
    and longest: "\<And>q. q \<in> fst ` set r \<Longrightarrow> prefix q subject \<Longrightarrow> length q \<le> length p"
  shows "route_signal subject r = map_of r p"
proof -
  obtain h where h: "map_of r p = Some h" using assms(2) by (metis map_of_eq_None_iff not_Some_eq)
  from best_prefix_spec [of subject r "[]" None] show ?thesis
  proof (elim disjE exE conjE)
    assume "\<forall>x \<in> set r. prefix (fst x) subject \<longrightarrow> length (fst x) \<le> length ([] :: string)"
    then show ?thesis using assms(2-4) by auto
  next
    fix q g assume q: "(q, g) \<in> set r" "best_prefix subject r [] None = Some g" "prefix q subject"
      "\<forall>x \<in> set r. prefix (fst x) subject \<longrightarrow> length (fst x) \<le> length q"
    have "length q \<le> length p" using longest q(1,3) by force
    moreover have "length p \<le> length q" using q(4) assms(2,3) by auto
    ultimately have "q = p" using q(3) assms(3) by (metis antisym prefix_def append_eq_conv_conj take_all_iff le_refl prefix_same_cases append.right_neutral take_all)
    then show ?thesis using q(1,2) h in_set_map_of [OF assms(1)] by (simp add: route_signal_def)
  qed
qed

lemma route_none: "route_signal subject r = None \<longleftrightarrow> (\<forall>q \<in> fst ` set r. prefix q subject \<longrightarrow> q = [])"
proof -
  have n: "best_prefix subject r bp (best :: 'a option) = None \<longleftrightarrow>
      best = None \<and> (\<forall>q \<in> fst ` set r. prefix q subject \<longrightarrow> length q \<le> length bp)" for bp best
  proof (induction r arbitrary: bp best)
    case (Cons x r)
    then show ?case by (cases x) auto
  qed simp
  show ?thesis by (simp add: route_signal_def n)
qed

subsection \<open>Burn rates\<close>

definition burn_rate :: "fl \<Rightarrow> fl \<Rightarrow> fl" where
  "burn_rate observed target =
     (let budget = fl_sub f64 (Fin 1) target in
      if fl_le budget (Fin 0) then Fin 0
      else let loss = fl_sub f64 (Fin 1) observed in
      if fl_lt loss (Fin 0) then Fin 0 else fl_div f64 loss budget)"

definition multi_window :: "fl \<Rightarrow> fl \<Rightarrow> fl \<Rightarrow> string" where
  "multi_window b1 b6 b24 =
     (if fl_le (Fin 14) b1 \<and> fl_le (Fin 6) b6 then ''critical''
      else if fl_le (Fin 6) b1 \<and> fl_le (Fin 3) b6 then ''warn''
      else if fl_le (Fin 1) b24 then ''info''
      else [])"

end
