(* ===== verification/Orchestrator.thy ===== *)
theory Orchestrator
  imports Autonomy AgentService
begin

section \<open>autonomy-orchestrator\<close>

text \<open>
  Model of \<open>services/autonomy-orchestrator\<close>: the store, the client of agent-service and the handlers and
  closures of \<open>main.go\<close>. The agent-service at the other end of the client is a parameter, a state machine
  that answers requests; \<open>agent_peer\<close> below instantiates it with the model of that service. Database
  outages, JSON decoding and metrics are left out. One reading of the clock stands for the readings a
  function takes at its start, a second one for those it takes after the call to the agent.
\<close>

record schedule =
  sch_id :: string
  sch_tenant :: string
  sch_role :: string
  sch_trigger :: string
  sch_cron :: string
  sch_subject :: string
  sch_steps :: int
  sch_tier :: int
  sch_paused :: bool
  sch_created :: time
  sch_updated :: time

record autonomy_run =
  run_id :: string
  run_schedule :: string
  run_tenant :: string
  run_role :: string
  run_trigger :: string
  run_status :: string
  run_session :: string
  run_reason :: string
  run_started :: time
  run_finished :: "time option"
  run_gate :: string

subsection \<open>The store\<close>

record autonomy_db =
  tbl_schedules :: "(string \<times> schedule) list"
  tbl_runs :: "(string \<times> autonomy_run) list"

definition upsert_schedule :: "time \<Rightarrow> schedule \<Rightarrow> autonomy_db \<Rightarrow> autonomy_db" where
  "upsert_schedule now sc db =
     (let sc1 = sc\<lparr>sch_created := (if is_zero (sch_created sc) then now else sch_created sc), sch_updated := now\<rparr> in
      case map_of (tbl_schedules db) (sch_id sc) of
        None \<Rightarrow> db\<lparr>tbl_schedules := tbl_schedules db @ [(sch_id sc, sc1)]\<rparr>
      | Some old \<Rightarrow> db\<lparr>tbl_schedules := AList.update (sch_id sc)
          (old\<lparr>sch_role := sch_role sc1, sch_trigger := sch_trigger sc1, sch_cron := sch_cron sc1, sch_subject := sch_subject sc1,
            sch_steps := sch_steps sc1, sch_tier := sch_tier sc1, sch_paused := sch_paused sc1, sch_updated := now\<rparr>) (tbl_schedules db)\<rparr>)"

definition list_schedules :: "autonomy_db \<Rightarrow> schedule list" where
  "list_schedules db =
     take 1000 (sort_by (\<lambda>a b. (sch_tenant a, sch_id a) < (sch_tenant b, sch_id b)) (map snd (tbl_schedules db)))"

definition get_schedule :: "autonomy_db \<Rightarrow> string \<Rightarrow> schedule option" where
  "get_schedule db sid = map_of (tbl_schedules db) sid"

definition insert_run :: "time \<Rightarrow> autonomy_run \<Rightarrow> autonomy_db \<Rightarrow> (string + unit) \<times> autonomy_db" where
  "insert_run now r db =
     (let r1 = (if is_zero (run_started r) then r\<lparr>run_started := now\<rparr> else r) in
      if map_of (tbl_runs db) (run_id r) \<noteq> None then (Inl ''UNIQUE constraint failed: autonomy_runs.id'', db)
      else (Inr (), db\<lparr>tbl_runs := tbl_runs db @ [(run_id r, r1)]\<rparr>))"

definition update_run_status :: "time \<Rightarrow> string \<Rightarrow> string \<Rightarrow> string \<Rightarrow> string \<Rightarrow> autonomy_db \<Rightarrow> autonomy_db" where
  "update_run_status now rid status session gate db =
     db\<lparr>tbl_runs := AList.map_entry rid
       (\<lambda>r. r\<lparr>run_status := status, run_session := (if session = [] then run_session r else session),
          run_gate := (if gate = [] then run_gate r else gate),
          run_finished := (if status \<in> {''completed'', ''failed'', ''skipped''} then Some now else None)\<rparr>) (tbl_runs db)\<rparr>"

definition list_runs :: "string \<Rightarrow> int \<Rightarrow> autonomy_db \<Rightarrow> autonomy_run list" where
  "list_runs tenant limit db =
     take (nat (if limit \<le> 0 \<or> 200 < limit then 50 else limit))
       (sort_by (\<lambda>a b. run_started b < run_started a)
         (filter (\<lambda>r. run_tenant r = tenant) (map snd (tbl_runs db))))"

subsection \<open>The client of agent-service\<close>

record start_request =
  rq_role :: string
  rq_goal :: string
  rq_steps :: int

record start_response =
  rp_session :: string
  rp_status :: string
  rp_gate :: string
  rp_final :: string
  rp_error :: string

text \<open>A reply with its status, the text of its body, and that body decoded.\<close>

record peer_reply =
  pr_code :: int
  pr_line :: string
  pr_text :: string
  pr_decoded :: "string + start_response"

type_synonym 'p peer = "headers \<Rightarrow> start_request \<Rightarrow> 'p \<Rightarrow> (string + peer_reply) \<times> 'p"

record 'p agent_client =
  ac_base :: string
  ac_auth :: string
  ac_peer :: "'p peer"

definition client_headers :: "'p agent_client \<Rightarrow> string \<Rightarrow> headers" where
  "client_headers ac tenant =
     [(''Content-Type'', ''application/json''), (''X-Aegis-Tenant'', tenant)] @
     (if ac_auth ac = [] then [] else [(''Authorization'', ac_auth ac)])"

definition start_session :: "'p agent_client \<Rightarrow> time \<Rightarrow> string \<Rightarrow> start_request \<Rightarrow> 'p \<Rightarrow> (string + start_response) \<times> 'p" where
  "start_session ac now tenant req p =
     (if ac_base ac = [] then
        (Inr \<lparr>rp_session = ''dev-sess-'' @ print_int (unix_nano now), rp_status = ''completed'', rp_gate = [], rp_final = [], rp_error = []\<rparr>, p)
      else case ac_peer ac (client_headers ac tenant) req p of
        (Inl err, p1) \<Rightarrow> (Inl err, p1)
      | (Inr reply, p1) \<Rightarrow>
          if 400 \<le> pr_code reply then (Inl (''start session: '' @ pr_line reply @ '': '' @ pr_text reply), p1)
          else case pr_decoded reply of
            Inl err \<Rightarrow> (Inl err, p1)
          | Inr out \<Rightarrow> if rp_session out = [] then (Inl ''session response missing id'', p1) else (Inr out, p1))"

subsection \<open>Fires\<close>

definition map_status :: "string \<Rightarrow> string" where
  "map_status s =
     (if s = ''completed'' then ''completed'' else if s = ''awaiting_gate'' then ''awaiting_gate''
      else if s = ''failed'' then ''failed'' else ''running'')"

definition goal_for_role :: "string \<Rightarrow> string \<Rightarrow> string" where
  "goal_for_role role reason =
     (if role = ''optimizer'' then
        ''Periodic optimizer run ('' @ reason @ ''). Audit cost lines for the past 24h; propose reductions; cite tenant_id + pipeline_id.''
      else if role = ''monitor'' then
        ''Monitor run ('' @ reason @ ''). Check SLO + drift signals; summarize anomalies; cite signal ids.''
      else if role = ''trainer'' then
        ''Trainer run ('' @ reason @ ''). Check labeled samples; recommend a training job if thresholds are met.''
      else if role = ''reliability'' then
        ''Reliability run ('' @ reason @ ''). Investigate the rollback; produce an incident summary; cite plan + transition ids.''
      else ''Scheduled run ('' @ reason @ '').'')"

text \<open>
  \<open>or_jobs\<close> holds, for each loop of the scheduler, the schedule its handler captured; the handlers of the
  router capture theirs too. \<open>or_hot\<close> is the hot map.
\<close>

record 'p orchestrator =
  or_db :: autonomy_db
  or_sched :: scheduler
  or_jobs :: "schedule list"
  or_router :: "schedule signal_router"
  or_hot :: "(string \<times> schedule) list"
  or_peer :: 'p

definition start_fire :: "'p agent_client \<Rightarrow> time \<Rightarrow> time \<Rightarrow> schedule \<Rightarrow> string \<Rightarrow> string
    \<Rightarrow> 'p orchestrator \<Rightarrow> (string + unit) \<times> 'p orchestrator" where
  "start_fire ac now now2 s trigger reason w =
     (let rid = ''ar-'' @ print_int (unix_nano now);
          r = \<lparr>run_id = rid, run_schedule = sch_id s, run_tenant = sch_tenant s, run_role = sch_role s, run_trigger = trigger,
               run_status = ''running'', run_session = [], run_reason = reason, run_started = now, run_finished = None, run_gate = []\<rparr> in
      case insert_run now r (or_db w) of
        (Inl err, db) \<Rightarrow> (Inl err, w\<lparr>or_db := db\<rparr>)
      | (Inr _, db) \<Rightarrow>
          (case start_session ac now (sch_tenant s)
                  \<lparr>rq_role = sch_role s, rq_goal = goal_for_role (sch_role s) reason, rq_steps = sch_steps s\<rparr> (or_peer w) of
             (Inl err, p) \<Rightarrow> (Inl err, w\<lparr>or_db := update_run_status now2 rid ''failed'' [] [] db, or_peer := p\<rparr>)
           | (Inr out, p) \<Rightarrow>
               (Inr (), w\<lparr>or_db := update_run_status now2 rid (map_status (rp_status out)) (rp_session out) (rp_gate out) db, or_peer := p\<rparr>)))"

subsection \<open>Loading schedules\<close>

text \<open>\<open>j\<close> gives the random numbers the loops draw, by schedule.\<close>

definition load_one :: "(time \<Rightarrow> int) \<Rightarrow> time \<Rightarrow> (string \<Rightarrow> duration) \<Rightarrow> schedule \<Rightarrow> 'p orchestrator \<Rightarrow> 'p orchestrator" where
  "load_one off now j s w =
     (if sch_paused s then w
      else if sch_trigger s = ''cron'' then
        (case parse_cron (sch_cron s) of
           Inl _ \<Rightarrow> w
         | Inr c \<Rightarrow> w\<lparr>or_sched := register_entry off
               \<lparr>ce_id = sch_id s, ce_tenant = sch_tenant s, ce_cron = c, ce_jitter = 30 * second, ce_prevent = True\<rparr>
               now (j (sch_id s)) (or_sched w), or_jobs := or_jobs w @ [s]\<rparr>)
      else if sch_trigger s = ''signal'' then
        (if sch_subject s = [] then w else w\<lparr>or_router := register_signal (sch_subject s) s (or_router w)\<rparr>)
      else w)"

definition load_all :: "(time \<Rightarrow> int) \<Rightarrow> time \<Rightarrow> (string \<Rightarrow> duration) \<Rightarrow> 'p orchestrator \<Rightarrow> 'p orchestrator" where
  "load_all off now j w =
     (let everything = list_schedules (or_db w) in
      foldl (\<lambda>w s. load_one off now j s w)
        (w\<lparr>or_hot := foldl (\<lambda>m s. AList.update (sch_id s) s m) [] everything\<rparr>) everything)"

subsection \<open>Signals from the bus\<close>

record signal_message =
  sg_subject :: string
  sg_tenant :: string

definition signal_matches :: "signal_message \<Rightarrow> schedule \<Rightarrow> bool" where
  "signal_matches m s \<longleftrightarrow>
     \<not> (sch_paused s \<or> sch_trigger s \<noteq> ''signal'') \<and> \<not> (sch_tenant s \<noteq> [] \<and> sch_tenant s \<noteq> sg_tenant m) \<and>
     prefix (sch_subject s) (sg_subject m)"

text \<open>The schedules whose handlers run, in order: one route of the subject for each schedule that matches.\<close>

definition signal_fires :: "signal_message \<Rightarrow> 'p orchestrator \<Rightarrow> schedule list" where
  "signal_fires m w =
     List.map_filter (\<lambda>s. route_signal (sg_subject m) (or_router w)) (filter (signal_matches m) (map snd (or_hot w)))"

text \<open>The fires of a message one after the other; \<open>clk\<close> gives the two readings of the clock of each.\<close>

fun run_fires :: "'p agent_client \<Rightarrow> (nat \<Rightarrow> time \<times> time) \<Rightarrow> nat \<Rightarrow> schedule list \<Rightarrow> 'p orchestrator \<Rightarrow> 'p orchestrator" where
  "run_fires ac clk n [] w = w"
| "run_fires ac clk n (s # ss) w =
     run_fires ac clk (Suc n) ss (snd (start_fire ac (fst (clk n)) (snd (clk n)) s ''signal'' ''signal'' w))"

definition on_signal :: "'p agent_client \<Rightarrow> (nat \<Rightarrow> time \<times> time) \<Rightarrow> signal_message \<Rightarrow> 'p orchestrator \<Rightarrow> 'p orchestrator" where
  "on_signal ac clk m w = run_fires ac clk 0 (signal_fires m w) w"

subsection \<open>Handlers\<close>

definition post_schedule :: "(time \<Rightarrow> int) \<Rightarrow> time \<Rightarrow> (string \<Rightarrow> duration) \<Rightarrow> headers \<Rightarrow> schedule option
    \<Rightarrow> 'p orchestrator \<Rightarrow> (problem + schedule) \<times> 'p orchestrator" where
  "post_schedule off now j hdrs body =
     with_tenant hdrs (\<lambda>tenant w.
       case body of
         None \<Rightarrow> (Inl (bad_request ''invalid JSON''), w)
       | Some s0 \<Rightarrow>
           let s = s0\<lparr>sch_tenant := tenant,
                 sch_id := (if sch_id s0 = [] then ''sch-'' @ print_int (unix_nano now) else sch_id s0),
                 sch_steps := (if sch_steps s0 = 0 then 8 else sch_steps s0),
                 sch_tier := (if sch_tier s0 = 0 then 2 else sch_tier s0)\<rparr> in
           (Inr s, load_all off now j (w\<lparr>or_db := upsert_schedule now s (or_db w)\<rparr>)))"

definition get_schedules :: "headers \<Rightarrow> 'p orchestrator \<Rightarrow> (problem + schedule list) \<times> 'p orchestrator" where
  "get_schedules hdrs =
     with_tenant hdrs (\<lambda>tenant w. (Inr (filter (\<lambda>s. tenant = [] \<or> sch_tenant s = tenant) (list_schedules (or_db w))), w))"

definition get_runs :: "headers \<Rightarrow> 'p orchestrator \<Rightarrow> (problem + autonomy_run list) \<times> 'p orchestrator" where
  "get_runs hdrs = with_tenant hdrs (\<lambda>tenant w. (Inr (list_runs tenant 100 (or_db w)), w))"

definition post_trigger :: "'p agent_client \<Rightarrow> time \<Rightarrow> time \<Rightarrow> headers \<Rightarrow> string
    \<Rightarrow> 'p orchestrator \<Rightarrow> (problem + int) \<times> 'p orchestrator" where
  "post_trigger ac now now2 hdrs sid =
     with_tenant hdrs (\<lambda>tenant w.
       case get_schedule (or_db w) sid of
         None \<Rightarrow> (Inl (not_found ''schedule not found''), w)
       | Some s \<Rightarrow>
           if tenant \<noteq> [] \<and> tenant \<noteq> sch_tenant s then (Inl (forbidden ''cross-tenant denied''), w)
           else (Inr 202, snd (start_fire ac now now2 s ''manual'' ''manual'' w)))"

definition new_orchestrator :: "autonomy_db \<Rightarrow> 'p \<Rightarrow> 'p orchestrator" where
  "new_orchestrator db p = \<lparr>or_db = db, or_sched = new_scheduler, or_jobs = [], or_router = [], or_hot = [], or_peer = p\<rparr>"

subsection \<open>The running service\<close>

text \<open>\<open>boots\<close> is a restart: a new process over the same tables, which loads every schedule.\<close>

inductive orch_step :: "'p agent_client \<Rightarrow> (time \<Rightarrow> int) \<Rightarrow> 'p orchestrator \<Rightarrow> 'p orchestrator \<Rightarrow> bool" for ac off where
  boots: "orch_step ac off w (load_all off now j (new_orchestrator (or_db w) (or_peer w)))"
| posts: "orch_step ac off w (snd (post_schedule off now j hdrs body w))"
| triggers: "orch_step ac off w (snd (post_trigger ac now now2 hdrs sid w))"
| signals: "orch_step ac off w (on_signal ac clk m w)"
| ticks: "i < length (sd_loops (or_sched w)) \<Longrightarrow> el_wake (sd_loops (or_sched w) ! i) = Some t \<Longrightarrow> t \<le> now \<Longrightarrow> now \<le> now2 \<Longrightarrow>
    orch_step ac off w (w\<lparr>or_sched := loop_wakes off i now now2 jit (or_sched w)\<rparr>)"
| fires: "i < length (sd_loops (or_sched w)) \<Longrightarrow> k < length (el_active (sd_loops (or_sched w) ! i)) \<Longrightarrow>
    orch_step ac off w ((snd (start_fire ac now now2 (or_jobs w ! i) ''cron'' ''cron tick'' w))
      \<lparr>or_sched := handler_returns i k (or_sched w)\<rparr>)"

subsection \<open>The agent-service as the peer\<close>

text \<open>
  \<open>via\<close> is what the network in between does to the headers, \<open>clk\<close> the clock of the service and \<open>enc\<close> the
  JSON of a problem. The state is the number of calls and the world of the service.
\<close>

definition agent_peer :: "service_conf \<Rightarrow> (headers \<Rightarrow> headers) \<Rightarrow> (nat \<Rightarrow> time) \<Rightarrow> (problem \<Rightarrow> string) \<Rightarrow> (nat \<times> agent_world) peer" where
  "agent_peer sc via clk enc hdrs rq p =
     (case post_session sc (clk (fst p)) (via hdrs)
              (Some \<lparr>sb_role = rq_role rq, sb_goal = rq_goal rq, sb_max_steps = rq_steps rq\<rparr>) (snd p) of
        (Inl e, w) \<Rightarrow> (Inr \<lparr>pr_code = pb_status e, pr_line = status_line e, pr_text = enc e, pr_decoded = Inl []\<rparr>, (Suc (fst p), w))
      | (Inr r, w) \<Rightarrow> (Inr \<lparr>pr_code = 201, pr_line = ''201 Created'', pr_text = [],
           pr_decoded = Inr \<lparr>rp_session = sr_session r, rp_status = sr_status r, rp_gate = sr_gate r, rp_final = sr_final r, rp_error = sr_error r\<rparr>\<rparr>,
           (Suc (fst p), w)))"

lemma client_sends_no_tenant: "tenant_header (client_headers ac tenant) = []"
  by (simp add: tenant_header_def client_headers_def header_get_def trim_space_def trim_left_def trim_right_def)

lemma direct_peer_refuses:
  assumes "ac_base ac \<noteq> []" "ac_peer ac = agent_peer sc (\<lambda>h. h) clk enc"
  shows "\<exists>err n. start_session ac now tenant rq p = (Inl err, (n, snd p))"
  by (simp add: start_session_def assms agent_peer_def post_session_def with_tenant_def client_sends_no_tenant unauthorized_def)

definition all_failed :: "agent_world \<Rightarrow> (nat \<times> agent_world) orchestrator \<Rightarrow> bool" where
  "all_failed aw w \<longleftrightarrow> snd (or_peer w) = aw \<and>
     (\<forall>r \<in> snd ` set (tbl_runs (or_db w)). run_status r = ''failed'' \<and> run_session r = [] \<and> run_gate r = [])"

lemma map_entry_snoc: "k \<notin> fst ` set xs \<Longrightarrow> AList.map_entry k f (xs @ [(k, v)]) = xs @ [(k, f v)]"
  by (induction xs) auto

lemma start_fire_failed:
  assumes "ac_base ac \<noteq> []" "ac_peer ac = agent_peer sc (\<lambda>h. h) clk enc" "all_failed aw w"
  shows "all_failed aw (snd (start_fire ac now now2 s trigger reason w))"
proof -
  let ?rid = "''ar-'' @ print_int (unix_nano now)"
  let ?rq = "\<lparr>rq_role = sch_role s, rq_goal = goal_for_role (sch_role s) reason, rq_steps = sch_steps s\<rparr>"
  obtain err n where e: "start_session ac now (sch_tenant s) ?rq (or_peer w) = (Inl err, (n, snd (or_peer w)))"
    using direct_peer_refuses [OF assms(1,2)] by blast
  show ?thesis
  proof (cases "map_of (tbl_runs (or_db w)) ?rid")
    case None
    then have k: "?rid \<notin> fst ` set (tbl_runs (or_db w))" by (simp add: map_of_eq_None_iff)
    show ?thesis
      using assms(3) e None
      by (auto simp: start_fire_def insert_run_def update_run_status_def all_failed_def map_entry_snoc [OF k, simplified] Let_def)
  next
    case (Some r)
    then show ?thesis using assms(3) by (simp add: start_fire_def insert_run_def Let_def)
  qed
qed

lemma load_one_frame: "or_db (load_one off now j s w) = or_db w \<and> or_peer (load_one off now j s w) = or_peer w"
  by (simp add: load_one_def split: sum.splits)

lemma load_all_frame:
  fixes w :: "'p orchestrator"
  shows "or_db (load_all off now j w) = or_db w \<and> or_peer (load_all off now j w) = or_peer w"
proof -
  have "or_db (foldl (\<lambda>w s. load_one off now j s w) v ss) = or_db v \<and> or_peer (foldl (\<lambda>w s. load_one off now j s w) v ss) = or_peer v"
    for v :: "'p orchestrator" and ss
    by (induction ss arbitrary: v) (simp_all add: load_one_frame)
  then show ?thesis by (simp add: load_all_def Let_def)
qed

lemma run_fires_failed:
  assumes "ac_base ac \<noteq> []" "ac_peer ac = agent_peer sc (\<lambda>h. h) clk enc"
  shows "all_failed aw w \<Longrightarrow> all_failed aw (run_fires ac cl n ss w)"
proof (induction ss arbitrary: n w)
  case (Cons s ss)
  show ?case using Cons.IH [OF start_fire_failed [OF assms Cons.prems]] by simp
qed simp

lemma upsert_runs [simp]: "tbl_runs (upsert_schedule now s db) = tbl_runs db"
  by (simp add: upsert_schedule_def Let_def split: option.splits)

lemma orch_step_failed:
  assumes c: "ac_base ac \<noteq> []" "ac_peer ac = agent_peer sc (\<lambda>h. h) clk enc"
  shows "orch_step ac off w w' \<Longrightarrow> all_failed aw w \<Longrightarrow> all_failed aw w'"
proof (induction rule: orch_step.induct)
  case (boots w now j)
  then show ?case by (simp add: all_failed_def load_all_frame new_orchestrator_def)
next
  case (posts w now j hdrs body)
  then show ?case
    by (auto simp: post_schedule_def with_tenant_def all_failed_def load_all_frame Let_def split: option.splits)
next
  case (triggers w now now2 hdrs sid)
  then show ?case
    using start_fire_failed [OF c] by (auto simp: post_trigger_def with_tenant_def split: option.splits)
next
  case (signals w cl m)
  then show ?case using run_fires_failed [OF c] by (simp add: on_signal_def)
next
  case (ticks i w t now now2 jit)
  then show ?case by (simp add: all_failed_def)
next
  case (fires i w k now now2)
  have "all_failed aw (snd (start_fire ac now now2 (or_jobs w ! i) ''cron'' ''cron tick'' w))"
    using start_fire_failed [OF c fires.prems] .
  then show ?case by (simp add: all_failed_def)
qed

text \<open>
  C30: With the agent-service reached directly, no scheduled, signalled or manual fire ever starts an agent: the client names the
  tenant in a header the service does not read, every run the orchestrator records has failed without a session, and
  the service is left as it was.
\<close>

theorem fires_never_start_agents:
  assumes "ac_base ac \<noteq> []" "ac_peer ac = agent_peer sc (\<lambda>h. h) clk enc"
    and "(orch_step ac off)\<^sup>*\<^sup>* (new_orchestrator \<lparr>tbl_schedules = schedules, tbl_runs = []\<rparr> (n, aw)) w"
  shows "snd (or_peer w) = aw \<and>
    (\<forall>r \<in> snd ` set (tbl_runs (or_db w)). run_status r = ''failed'' \<and> run_session r = [] \<and> run_gate r = [])"
proof -
  from assms(3) have "all_failed aw w"
  proof (induction rule: rtranclp_induct)
    case base
    then show ?case by (simp add: new_orchestrator_def all_failed_def)
  next
    case (step v u)
    then show ?case using orch_step_failed [OF assms(1,2)] by blast
  qed
  then show ?thesis by (simp add: all_failed_def)
qed

subsection \<open>Loops and reloads\<close>

definition db_keys :: "autonomy_db \<Rightarrow> bool" where
  "db_keys db \<longleftrightarrow> distinct (map fst (tbl_schedules db)) \<and> (\<forall>x \<in> set (tbl_schedules db). fst x = sch_id (snd x))"

definition starts_loop :: "schedule \<Rightarrow> bool" where
  "starts_loop s \<longleftrightarrow> \<not> sch_paused s \<and> sch_trigger s = ''cron'' \<and> (\<exists>c. parse_cron (sch_cron s) = Inr c)"

abbreviation loops_of :: "schedule \<Rightarrow> 'p orchestrator \<Rightarrow> nat" where
  "loops_of s w \<equiv> length (filter (\<lambda>j. j = s) (or_jobs w))"

text \<open>Each captured schedule belongs to one loop of the scheduler.\<close>

definition aligned :: "'p orchestrator \<Rightarrow> bool" where
  "aligned w \<longleftrightarrow> list_all2 (\<lambda>l s. ce_id (el_entry l) = sch_id s) (sd_loops (or_sched w)) (or_jobs w)"

lemma load_one_jobs:
  "or_jobs (load_one off now j s w) = or_jobs w @ (if starts_loop s then [s] else [])"
  "aligned w \<Longrightarrow> aligned (load_one off now j s w)"
  by (auto simp: load_one_def starts_loop_def aligned_def register_entry_def list_all2_appendI split: sum.splits)

lemma load_all_jobs:
  fixes w :: "'p orchestrator"
  shows "or_jobs (load_all off now j w) = or_jobs w @ filter starts_loop (list_schedules (or_db w))"
    and "aligned w \<Longrightarrow> aligned (load_all off now j w)"
proof -
  have jobs: "or_jobs (foldl (\<lambda>w s. load_one off now j s w) v ss) = or_jobs v @ filter starts_loop ss" for v :: "'p orchestrator" and ss
    by (induction ss arbitrary: v) (simp_all add: load_one_jobs)
  have al: "aligned v \<Longrightarrow> aligned (foldl (\<lambda>w s. load_one off now j s w) v ss)" for v :: "'p orchestrator" and ss
    by (induction ss arbitrary: v) (simp_all add: load_one_jobs)
  show "or_jobs (load_all off now j w) = or_jobs w @ filter starts_loop (list_schedules (or_db w))"
    by (simp add: load_all_def Let_def jobs)
  show "aligned w \<Longrightarrow> aligned (load_all off now j w)"
    unfolding load_all_def Let_def by (rule al) (simp add: aligned_def)
qed

lemma list_schedules_once:
  assumes "db_keys db" "length (tbl_schedules db) \<le> 1000" "map_of (tbl_schedules db) (sch_id s) = Some s"
  shows "length (filter (\<lambda>j. j = s) (list_schedules db)) = 1"
proof -
  let ?xs = "map snd (tbl_schedules db)"
  have "map fst (tbl_schedules db) = map sch_id ?xs" using assms(1) by (auto simp: db_keys_def)
  then have "distinct (map sch_id ?xs)" using assms(1) by (simp only: db_keys_def)
  then have d: "distinct ?xs" by (simp only: distinct_map)
  have m: "mset (list_schedules db) = mset ?xs" using assms(2) by (simp add: list_schedules_def flip: size_mset)
  have "s \<in> set ?xs" using assms(3) by (metis in_set_zipE map_of_SomeD set_map image_eqI snd_conv)
  then have "s \<in> set (list_schedules db)" "distinct (list_schedules db)"
    using mset_eq_setD [OF m] mset_eq_imp_distinct_iff [OF m] d by simp_all
  then have "{x. x = s} \<inter> set (list_schedules db) = {s}" by auto
  then show ?thesis using \<open>distinct (list_schedules db)\<close> by (simp add: distinct_length_filter)
qed

lemma length_update_known: "map_of m k = Some v \<Longrightarrow> length (AList.update k w m) = length m"
  by (induction m) (auto split: if_splits)

lemma upsert_other:
  assumes "db_keys db" "sch_id b \<noteq> sch_id s"
  shows "db_keys (upsert_schedule now b db) \<and> map_of (tbl_schedules (upsert_schedule now b db)) (sch_id s) = map_of (tbl_schedules db) (sch_id s) \<and>
    length (tbl_schedules (upsert_schedule now b db)) \<le> Suc (length (tbl_schedules db))"
proof -
  have d: "distinct (map fst (tbl_schedules db))" and ids: "\<And>x. x \<in> set (tbl_schedules db) \<Longrightarrow> fst x = sch_id (snd x)"
    using assms(1) by (auto simp: db_keys_def)
  show ?thesis
  proof (cases "map_of (tbl_schedules db) (sch_id b)")
    case None
    define row where "row = b\<lparr>sch_created := (if is_zero (sch_created b) then now else sch_created b), sch_updated := now\<rparr>"
    have "upsert_schedule now b db = db\<lparr>tbl_schedules := tbl_schedules db @ [(sch_id b, row)]\<rparr>"
      using None by (simp add: upsert_schedule_def row_def Let_def)
    moreover have "sch_id row = sch_id b" "sch_id b \<notin> fst ` set (tbl_schedules db)"
      using None by (simp_all add: row_def map_of_eq_None_iff)
    ultimately show ?thesis
      using d ids assms(2) by (auto simp: db_keys_def map_add_def split: option.splits)
  next
    case (Some old)
    define row where "row = old\<lparr>sch_role := sch_role b, sch_trigger := sch_trigger b, sch_cron := sch_cron b, sch_subject := sch_subject b,
            sch_steps := sch_steps b, sch_tier := sch_tier b, sch_paused := sch_paused b, sch_updated := now\<rparr>"
    have "upsert_schedule now b db = db\<lparr>tbl_schedules := AList.update (sch_id b) row (tbl_schedules db)\<rparr>"
      using Some by (simp add: upsert_schedule_def row_def Let_def)
    moreover have "sch_id old = sch_id b" using ids [OF map_of_SomeD [OF Some]] by simp
    then have "sch_id row = sch_id b" by (simp add: row_def)
    ultimately show ?thesis
      using d ids assms(2) length_update_known [OF Some]
      by (auto simp: db_keys_def distinct_update set_update_distinct)
  qed
qed

type_synonym posted = "time \<times> (string \<Rightarrow> duration) \<times> headers \<times> schedule"

fun post_seq :: "(time \<Rightarrow> int) \<Rightarrow> posted list \<Rightarrow> 'p orchestrator \<Rightarrow> 'p orchestrator" where
  "post_seq off [] w = w"
| "post_seq off ((now, j, hdrs, b) # ps) w = post_seq off ps (snd (post_schedule off now j hdrs (Some b) w))"

definition posts_another :: "schedule \<Rightarrow> posted \<Rightarrow> bool" where
  "posts_another s p \<longleftrightarrow> (case p of (now, j, hdrs, b) \<Rightarrow> tenant_header hdrs \<noteq> [] \<and> sch_id b \<noteq> [] \<and> sch_id b \<noteq> sch_id s)"

text \<open>
  Every accepted post of a schedule, whichever tenant makes it, starts another loop for every other cron schedule that is not
  paused: after n posts a schedule that had k loops has k + n, each with a timer of its own, and fires that often per tick.
\<close>

theorem loops_pile_up:
  assumes "db_keys (or_db w)" "map_of (tbl_schedules (or_db w)) (sch_id s) = Some s" "starts_loop s" "aligned w"
    and "list_all (posts_another s) ps" "length (tbl_schedules (or_db w)) + length ps \<le> 1000"
  shows "length (filter (\<lambda>j. j = s) (or_jobs (post_seq off ps w))) = length (filter (\<lambda>j. j = s) (or_jobs w)) + length ps \<and>
    list_all2 (\<lambda>l j. ce_id (el_entry l) = sch_id j) (sd_loops (or_sched (post_seq off ps w))) (or_jobs (post_seq off ps w))"
  using assms
proof (induction ps arbitrary: w)
  case Nil
  then show ?case by (simp add: aligned_def)
next
  case (Cons p ps)
  obtain now j hdrs b where p: "p = (now, j, hdrs, b)" by (cases p)
  have b: "tenant_header hdrs \<noteq> []" "sch_id b \<noteq> []" "sch_id b \<noteq> sch_id s" using Cons.prems(5) by (auto simp: p posts_another_def)
  let ?b = "b\<lparr>sch_tenant := tenant_header hdrs, sch_steps := (if sch_steps b = 0 then 8 else sch_steps b),
    sch_tier := (if sch_tier b = 0 then 2 else sch_tier b)\<rparr>"
  let ?w = "w\<lparr>or_db := upsert_schedule now ?b (or_db w)\<rparr>" and ?v = "snd (post_schedule off now j hdrs (Some b) w)"
  have v: "?v = load_all off now j ?w" using b(1,2) by (simp add: post_schedule_def with_tenant_def Let_def)
  have db: "or_db ?v = upsert_schedule now ?b (or_db w)" unfolding v by (simp add: load_all_frame)
  note u = upsert_other [OF Cons.prems(1), of ?b s now]
  have id: "sch_id ?b \<noteq> sch_id s" using b(3) by simp
  have k: "db_keys (or_db ?v)" "map_of (tbl_schedules (or_db ?v)) (sch_id s) = Some s"
    "length (tbl_schedules (or_db ?v)) \<le> Suc (length (tbl_schedules (or_db w)))"
    using u [OF id] Cons.prems(2) unfolding db by simp_all
  have "length (tbl_schedules (or_db ?v)) \<le> 1000" using k(3) Cons.prems(6) by simp
  then have one: "length (filter (\<lambda>j. j = s) (list_schedules (or_db ?v))) = 1" using list_schedules_once [OF k(1) _ k(2)] by blast
  have "filter (\<lambda>x. starts_loop x \<and> x = s) xs = filter (\<lambda>x. x = s) xs" for xs using Cons.prems(3) by (intro filter_cong) auto
  then have n: "loops_of s ?v = loops_of s w + 1" using one db by (simp add: v load_all_jobs(1) load_all_frame conj_commute)
  have al: "aligned ?v" unfolding v by (rule load_all_jobs(2)) (use Cons.prems(4) in \<open>simp add: aligned_def\<close>)
  show ?case using Cons.IH [OF k(1,2) Cons.prems(3) al] Cons.prems(5,6) k(3) n by (simp add: p)
qed

subsection \<open>Whose handler a signal runs\<close>

text \<open>
  However many schedules a signal matches, and whatever tenants they belong to, each route of it runs the handler of
  the longest registered prefix: one schedule, the last one loaded with that subject, runs that often.
\<close>

lemma signal_runs_one_schedule:
  assumes "route_signal (sg_subject m) (or_router w) = Some h"
  shows "signal_fires m w = replicate (length (filter (signal_matches m) (map snd (or_hot w)))) h"
  by (simp add: signal_fires_def assms List.map_filter_def comp_def map_replicate_const)

text \<open>A post with the id of another tenant's schedule replaces what that schedule does, under its owner's name.\<close>

lemma post_overwrites_foreign:
  assumes "map_of (tbl_schedules (or_db w)) (sch_id b) = Some old" "sch_id b \<noteq> []" "tenant_header hdrs \<noteq> []" "sch_steps b \<noteq> 0" "sch_tier b \<noteq> 0"
  shows "\<exists>row. map_of (tbl_schedules (or_db (snd (post_schedule off now j hdrs (Some b) w)))) (sch_id b) = Some row \<and>
    sch_tenant row = sch_tenant old \<and> sch_cron row = sch_cron b \<and> sch_role row = sch_role b \<and> sch_paused row = sch_paused b"
  using assms by (simp add: post_schedule_def with_tenant_def upsert_schedule_def load_all_frame Let_def)

text \<open>A schedule never gives its tier to the agent it starts: two schedules that differ in it make the same requests.\<close>

lemma tier_is_not_sent: "start_fire ac now now2 (s\<lparr>sch_tier := n\<rparr>) trigger reason w = start_fire ac now now2 s trigger reason w"
  by (simp add: start_fire_def Let_def cong: sum.case_cong prod.case_cong)

subsection \<open>A concrete orchestrator\<close>

definition demo_schedule :: "string \<Rightarrow> schedule" where
  "demo_schedule sid = \<lparr>sch_id = sid, sch_tenant = ''t'', sch_role = ''monitor'', sch_trigger = ''cron'', sch_cron = '' * * * * *  * '',
     sch_subject = [], sch_steps = 8, sch_tier = 2, sch_paused = False, sch_created = demo_epoch, sch_updated = demo_epoch\<rparr>"

definition demo_db :: autonomy_db where
  "demo_db = \<lparr>tbl_schedules = [(''s1'', demo_schedule ''s1'')], tbl_runs = []\<rparr>"

definition demo_client :: "(nat \<times> agent_world) agent_client" where
  "demo_client = \<lparr>ac_base = ''http://agents'', ac_auth = [],
     ac_peer = agent_peer (demo_service (\<lambda>h. h)) (\<lambda>h. h) (\<lambda>n. demo_epoch + int n) (\<lambda>_. [])\<rparr>"

lemma start_fire_runs: "tbl_runs (or_db w) = [] \<Longrightarrow> tbl_runs (or_db (snd (start_fire ac now now2 s trigger reason w))) \<noteq> []"
  by (auto simp: start_fire_def insert_run_def update_run_status_def Let_def split: sum.splits prod.splits)

theorem fires_never_start_agents_witness:
  "let w = snd (post_trigger demo_client demo_epoch demo_epoch (tenant_headers ''t'') ''s1'' (new_orchestrator demo_db (0, new_agent_world))) in
     tbl_runs (or_db w) \<noteq> [] \<and> run_status (snd (hd (tbl_runs (or_db w)))) = ''failed'' \<and> snd (or_peer w) = new_agent_world"
proof -
  let ?init = "new_orchestrator demo_db (0, new_agent_world)"
  let ?w = "snd (post_trigger demo_client demo_epoch demo_epoch (tenant_headers ''t'') ''s1'' ?init)"
  have t: "trim_space ''t'' = ''t''" by (simp add: graphic_def)
  have sch: "get_schedule (or_db ?init) ''s1'' = Some (demo_schedule ''s1'')" "tbl_runs (or_db ?init) = []"
    and own: "sch_tenant (demo_schedule ''s1'') = ''t''"
    by (simp_all add: get_schedule_def new_orchestrator_def demo_db_def demo_schedule_def)
  have "?w = snd (start_fire demo_client demo_epoch demo_epoch (demo_schedule ''s1'') ''manual'' ''manual'' ?init)"
    using t by (simp add: post_trigger_def with_tenant_def sch(1) own)
  then have "tbl_runs (or_db ?w) \<noteq> []" using start_fire_runs [OF sch(2)] by simp
  moreover have "(orch_step demo_client (\<lambda>_. 0))\<^sup>*\<^sup>* (new_orchestrator \<lparr>tbl_schedules = [(''s1'', demo_schedule ''s1'')], tbl_runs = []\<rparr> (0, new_agent_world)) ?w"
    unfolding demo_db_def by (rule r_into_rtranclp) (rule orch_step.triggers)
  note fires_never_start_agents [OF _ _ this, of "demo_service (\<lambda>h. h)" "\<lambda>n. demo_epoch + int n" "\<lambda>_. []"]
  ultimately show ?thesis by (simp add: Let_def demo_client_def)
qed

lemma demo_starts: "starts_loop (demo_schedule sid)"
  by (simp add: starts_loop_def demo_schedule_def parse_every_second)

theorem loops_pile_up_witness:
  "length (filter (\<lambda>j. j = demo_schedule ''s1'') (or_jobs (post_seq (\<lambda>_. 0) [(demo_epoch, \<lambda>_. 0, tenant_headers ''u'', demo_schedule ''s2'')]
     (load_all (\<lambda>_. 0) demo_epoch (\<lambda>_. 0) (new_orchestrator demo_db ()))))) = 2"
proof -
  let ?init = "new_orchestrator demo_db ()" and ?s = "demo_schedule ''s1''"
  let ?w = "load_all (\<lambda>_. 0) demo_epoch (\<lambda>_. 0) ?init"
  have id: "sch_id (demo_schedule x) = x" for x by (simp add: demo_schedule_def)
  have db: "or_db ?w = demo_db" by (simp add: load_all_frame new_orchestrator_def)
  have al: "aligned ?w" by (rule load_all_jobs(2)) (simp add: aligned_def new_orchestrator_def new_scheduler_def)
  have "or_jobs ?w = [?s]" by (simp add: load_all_jobs(1) new_orchestrator_def list_schedules_def demo_db_def demo_starts)
  moreover have "list_all (posts_another ?s) [(demo_epoch, \<lambda>_. 0, tenant_headers ''u'', demo_schedule ''s2'')]"
    by (simp add: posts_another_def id graphic_def)
  moreover have "db_keys (or_db ?w)" "map_of (tbl_schedules (or_db ?w)) (sch_id ?s) = Some ?s"
    "length (tbl_schedules (or_db ?w)) + length [(demo_epoch, \<lambda>_ :: string. 0 :: int, tenant_headers ''u'', demo_schedule ''s2'')] \<le> 1000"
    unfolding db by (simp_all add: demo_db_def db_keys_def id)
  ultimately show ?thesis
    using loops_pile_up [OF _ _ demo_starts al, of "''s1''" "[(demo_epoch, \<lambda>_. 0, tenant_headers ''u'', demo_schedule ''s2'')]"] by simp
qed

end
