(* ===== verification/DagCompiler.thy ===== *)
theory DagCompiler
  imports Prelude
begin

section \<open>pkg/dataplane/dag: compiling a pipeline\<close>

text \<open>
  Model of \<open>pkg/dataplane/dag/compiler.go\<close>. The parameters of a node are a type parameter. The compiler ranges
  over maps three times; \<open>range_orders\<close> gives the orders, and the lemma \<open>compile_order_free\<close> shows that a plan does
  not depend on them. The errors are values of a datatype, with the names that go into their messages.
\<close>

record 'p node =
  nd_id :: string
  nd_type :: string
  nd_params :: 'p
  nd_after :: "string list"

record 'p pipeline =
  pl_id :: string
  pl_nodes :: "'p node list"

type_synonym 'p plan = "'p node list list"

datatype dag_error = ErrEmpty | ErrMissingId | ErrDuplicateID string | ErrUnknownType string string | ErrUnknownAfter string string | ErrCycle

type_synonym registry = "string list"

definition new_registry :: "string list \<Rightarrow> registry" where
  "new_registry types = foldl (\<lambda>r t. List.insert t r) [] types"

definition registry_add :: "string \<Rightarrow> registry \<Rightarrow> registry" where
  "registry_add t r = List.insert t r"

definition registry_has :: "registry \<Rightarrow> string \<Rightarrow> bool" where
  "registry_has r t \<longleftrightarrow> t \<in> set r"

subsection \<open>Checking\<close>

fun build_index :: "'p node list \<Rightarrow> (string \<times> 'p node) list \<Rightarrow> dag_error + (string \<times> 'p node) list" where
  "build_index [] idx = Inr idx"
| "build_index (n # ns) idx =
     (if nd_id n = [] then Inl ErrMissingId
      else if map_of idx (nd_id n) \<noteq> None then Inl (ErrDuplicateID (nd_id n))
      else build_index ns (idx @ [(nd_id n, n)]))"

fun check_refs :: "(string \<times> 'p node) list \<Rightarrow> string \<Rightarrow> string list \<Rightarrow> dag_error option" where
  "check_refs idx x [] = None"
| "check_refs idx x (u # us) = (if map_of idx u = None then Some (ErrUnknownAfter x u) else check_refs idx x us)"

fun check_nodes :: "registry option \<Rightarrow> (string \<times> 'p node) list \<Rightarrow> 'p node list \<Rightarrow> dag_error option" where
  "check_nodes reg idx [] = None"
| "check_nodes reg idx (n # ns) =
     (if (case reg of None \<Rightarrow> False | Some r \<Rightarrow> \<not> registry_has r (nd_type n)) then Some (ErrUnknownType (nd_id n) (nd_type n))
      else case check_refs idx (nd_id n) (nd_after n) of Some e \<Rightarrow> Some e | None \<Rightarrow> check_nodes reg idx ns)"

subsection \<open>Kahn's algorithm\<close>

definition degree :: "(string \<times> int) list \<Rightarrow> string \<Rightarrow> int" where
  "degree deg x = (case map_of deg x of None \<Rightarrow> 0 | Some d \<Rightarrow> d)"

definition children_of :: "'p node list \<Rightarrow> string \<Rightarrow> string list" where
  "children_of ns u = concat (map (\<lambda>n. map (\<lambda>_. nd_id n) (filter (\<lambda>v. v = u) (nd_after n))) ns)"

text \<open>The inner loops over the children of a stage: one decrement after the other.\<close>

fun relax :: "string list \<Rightarrow> (string \<times> int) list \<Rightarrow> string list \<Rightarrow> (string \<times> int) list \<times> string list" where
  "relax [] deg nxt = (deg, nxt)"
| "relax (c # cs) deg nxt =
     (let d = degree deg c - 1 in relax cs (AList.update c d deg) (if d = 0 then nxt @ [c] else nxt))"

definition positives :: "(string \<times> int) list \<Rightarrow> nat" where
  "positives deg = length (filter (\<lambda>(x, d). 0 < d) deg)"

lemma positives_update:
  "positives (AList.update c (degree deg c - 1) deg) + (if degree deg c = 1 then 1 else 0) = positives deg"
  by (induction deg) (auto simp: positives_def degree_def)

lemma relax_positives: "relax cs deg nxt = (deg', nxt') \<Longrightarrow> positives deg' + length nxt' = positives deg + length nxt"
proof (induction cs arbitrary: deg nxt)
  case (Cons c cs)
  show ?case using Cons.IH Cons.prems positives_update [of c deg] by (force simp: Let_def split: if_splits)
qed simp

function kahn :: "(string \<times> 'p node) list \<Rightarrow> (string \<Rightarrow> string list) \<Rightarrow> string list \<Rightarrow> (string \<times> int) list \<Rightarrow> 'p plan" where
  "kahn idx ch ready deg =
     (if ready = [] then []
      else case relax (concat (map ch ready)) deg [] of
        (deg1, nxt) \<Rightarrow> map (\<lambda>x. the (map_of idx x)) ready # kahn idx ch (sort nxt) deg1)"
  by pat_completeness auto
termination
  by (relation "measures [\<lambda>(idx, ch, ready, deg). positives deg, \<lambda>(idx, ch, ready, deg). length ready]")
    (auto simp: length_greater_0_conv [symmetric] simp del: length_greater_0_conv dest!: sym [of "(_, _)" "relax _ _ _"] relax_positives)

declare kahn.simps [simp del]

record 'p range_orders =
  ro_check :: "'p node list \<Rightarrow> 'p node list"
  ro_edges :: "'p node list \<Rightarrow> 'p node list"
  ro_ready :: "'p node list \<Rightarrow> 'p node list"

definition compile :: "'p range_orders \<Rightarrow> registry option \<Rightarrow> 'p pipeline \<Rightarrow> dag_error + 'p plan" where
  "compile ro reg spec =
     (if pl_nodes spec = [] then Inl ErrEmpty
      else case build_index (pl_nodes spec) [] of
        Inl e \<Rightarrow> Inl e
      | Inr idx \<Rightarrow>
          (case check_nodes reg idx (ro_check ro (map snd idx)) of
             Some e \<Rightarrow> Inl e
           | None \<Rightarrow>
               let es = ro_edges ro (map snd idx);
                   deg = map (\<lambda>n. (nd_id n, int (length (nd_after n)))) es;
                   ready = sort (filter (\<lambda>x. degree deg x = 0) (map nd_id (ro_ready ro (map snd idx))));
                   stages = kahn idx (children_of es) ready deg in
               if length (concat stages) \<noteq> length idx then Inl ErrCycle else Inr stages))"

definition linear_order :: "'p plan \<Rightarrow> 'p node list" where
  "linear_order stages = concat stages"

subsection \<open>What the checks establish\<close>

lemma build_index_ok:
  "build_index ns idx = Inr res \<Longrightarrow>
   res = idx @ map (\<lambda>n. (nd_id n, n)) ns \<and> (\<forall>n \<in> set ns. nd_id n \<noteq> []) \<and>
   (distinct (map fst idx) \<longrightarrow> distinct (map fst idx @ map nd_id ns))"
proof (induction ns arbitrary: idx)
  case (Cons n ns)
  then have "nd_id n \<noteq> []" "map_of idx (nd_id n) = None" "build_index ns (idx @ [(nd_id n, n)]) = Inr res"
    by (auto split: if_splits)
  with Cons.IH [OF this(3)] show ?case by (auto simp: map_of_eq_None_iff)
qed simp

lemma build_index_total:
  "(\<forall>n \<in> set ns. nd_id n \<noteq> []) \<Longrightarrow> distinct (map fst idx @ map nd_id ns) \<Longrightarrow> \<exists>res. build_index ns idx = Inr res"
proof (induction ns arbitrary: idx)
  case (Cons n ns)
  have "map_of idx (nd_id n) = None" using Cons.prems(2) by (auto simp: map_of_eq_None_iff)
  then show ?case using Cons.IH [of "idx @ [(nd_id n, n)]"] Cons.prems by auto
qed simp

lemma check_refs_none: "check_refs idx x us = None \<longleftrightarrow> (\<forall>u \<in> set us. u \<in> fst ` set idx)"
  by (induction us) (auto simp: map_of_eq_None_iff)

definition known_type :: "registry option \<Rightarrow> 'p node \<Rightarrow> bool" where
  "known_type reg n \<longleftrightarrow> (case reg of None \<Rightarrow> True | Some r \<Rightarrow> nd_type n \<in> set r)"

lemma check_nodes_none:
  "check_nodes reg idx ns = None \<longleftrightarrow> (\<forall>n \<in> set ns. known_type reg n \<and> (\<forall>u \<in> set (nd_after n). u \<in> fst ` set idx))"
proof (induction ns)
  case (Cons n ns)
  show ?case
    using Cons check_refs_none [of idx "nd_id n" "nd_after n"]
    by (cases "check_refs idx (nd_id n) (nd_after n)") (auto simp: known_type_def registry_has_def split: option.splits)
qed simp

lemma check_nodes_not_cycle: "check_nodes reg idx ns \<noteq> Some ErrCycle"
proof -
  have r: "check_refs idx x us \<noteq> Some ErrCycle" for x us by (induction us) auto
  show ?thesis by (induction ns) (auto simp: r split: option.splits)
qed

lemma build_index_not_cycle: "build_index ns idx \<noteq> Inl ErrCycle"
  by (induction ns arbitrary: idx) auto

subsection \<open>The relaxation of a stage\<close>

lemma degree_update: "degree (AList.update c v deg) x = (if x = c then v else degree deg x)"
  by (simp add: degree_def)

lemma relax_spec:
  "relax cs deg nxt = (deg', nxt') \<Longrightarrow>
   (\<forall>x. degree deg' x = degree deg x - int (count_list cs x)) \<and>
   (\<exists>new. nxt' = nxt @ new \<and> distinct new \<and> (\<forall>x. x \<in> set new \<longleftrightarrow> 0 < degree deg x \<and> degree deg x \<le> int (count_list cs x)))"
proof (induction cs arbitrary: deg nxt)
  case (Cons c cs)
  let ?d = "degree deg c - 1" and ?deg = "AList.update c (degree deg c - 1) deg"
  have r: "relax cs ?deg (if ?d = 0 then nxt @ [c] else nxt) = (deg', nxt')" using Cons.prems by (simp add: Let_def)
  from Cons.IH [OF r] obtain new where ih: "\<And>x. degree deg' x = degree ?deg x - int (count_list cs x)"
    "nxt' = (if ?d = 0 then nxt @ [c] else nxt) @ new" "distinct new"
    "\<And>x. x \<in> set new \<longleftrightarrow> 0 < degree ?deg x \<and> degree ?deg x \<le> int (count_list cs x)" by blast
  have deg: "degree deg' x = degree deg x - int (count_list (c # cs) x)" for x using ih(1) by (simp add: degree_update)
  let ?new = "(if ?d = 0 then [c] else []) @ new"
  have "nxt' = nxt @ ?new" "distinct ?new" using ih(2,3,4) by (auto simp: degree_update)
  moreover have "x \<in> set ?new \<longleftrightarrow> 0 < degree deg x \<and> degree deg x \<le> int (count_list (c # cs) x)" for x
    using ih(4) [of x] by (auto simp: degree_update)
  ultimately show ?case using deg by blast
qed simp

lemma relax_fresh:
  assumes "relax cs deg [] = (deg1, nxt)"
  shows "degree deg1 x = degree deg x - int (count_list cs x)" and "distinct nxt"
    and "x \<in> set nxt \<longleftrightarrow> 0 < degree deg x \<and> degree deg x \<le> int (count_list cs x)"
  using relax_spec [OF assms] by auto

lemma children_count:
  "distinct (map nd_id ns) \<Longrightarrow> n \<in> set ns \<Longrightarrow> count_list (children_of ns u) (nd_id n) = count_list (nd_after n) u"
proof -
  have one: "count_list (map (\<lambda>_. y) (filter (\<lambda>v. v = u) us)) x = (if x = y then count_list us u else 0)" for us and x y :: string
    by (induction us) auto
  have absent: "x \<notin> nd_id ` set ms \<Longrightarrow> count_list (children_of ms u) x = 0" for x and ms :: "'a node list"
    by (auto simp: children_of_def count_list_0_iff)
  show "distinct (map nd_id ns) \<Longrightarrow> n \<in> set ns \<Longrightarrow> count_list (children_of ns u) (nd_id n) = count_list (nd_after n) u"
  proof (induction ns)
    case (Cons m ns)
    have split: "count_list (children_of (m # ns) u) x = (if x = nd_id m then count_list (nd_after m) u else 0) + count_list (children_of ns u) x" for x
      by (simp add: children_of_def one)
    show ?case
    proof (cases "n = m")
      case True
      then show ?thesis using Cons.prems absent [of "nd_id m" ns] by (simp add: split)
    next
      case False
      then have "n \<in> set ns" "nd_id n \<noteq> nd_id m" using Cons.prems by (auto simp: image_iff)
      then show ?thesis using Cons by (simp add: split)
    qed
  qed simp
qed

lemma count_list_append: "count_list (xs @ ys) x = count_list xs x + count_list ys x"
  by (induction xs) auto

lemma stage_count:
  assumes "distinct (map nd_id ns)" "n \<in> set ns" "distinct ready"
  shows "count_list (concat (map (children_of ns) ready)) (nd_id n) = length (filter (\<lambda>u. u \<in> set ready) (nd_after n))"
  using assms(3)
proof (induction ready)
  case (Cons r ready)
  have "length (filter (\<lambda>u. u = r \<or> u \<in> set ready) us) = count_list us r + length (filter (\<lambda>u. u \<in> set ready) us)" for us
    using Cons.prems by (induction us) auto
  then show ?case using Cons children_count [OF assms(1,2), of r] by (simp add: count_list_append)
qed simp

subsection \<open>The stages\<close>

text \<open>
  The state of the loop: the ids \<open>S\<close> of finished stages, the ids \<open>R\<close> that are ready, and for every node the number of
  its references that are still open.
\<close>

definition kahn_inv :: "'p node list \<Rightarrow> string list \<Rightarrow> string list \<Rightarrow> (string \<times> int) list \<Rightarrow> bool" where
  "kahn_inv ns S R deg \<longleftrightarrow> distinct (S @ R) \<and>
     (\<forall>n \<in> set ns. degree deg (nd_id n) = int (length (filter (\<lambda>u. u \<notin> set S) (nd_after n)))) \<and>
     (\<forall>x. x \<notin> nd_id ` set ns \<longrightarrow> degree deg x \<le> 0) \<and>
     (\<forall>x. x \<in> set (S @ R) \<longleftrightarrow> (\<exists>n \<in> set ns. nd_id n = x \<and> set (nd_after n) \<subseteq> set S))"

lemma filter_length_0: "length (filter (\<lambda>u. u \<notin> A) us) = 0 \<longleftrightarrow> set us \<subseteq> A"
  by (auto simp: filter_empty_conv)

lemma kahn_inv_step:
  assumes d: "distinct (map nd_id ns)" and inv: "kahn_inv ns S R deg"
    and r: "relax (concat (map (children_of ns) R)) deg [] = (deg1, nxt)"
  shows "kahn_inv ns (S @ R) (sort nxt) deg1"
proof -
  have dist: "distinct S" "distinct R" "set S \<inter> set R = {}"
    and deg: "\<And>n. n \<in> set ns \<Longrightarrow> degree deg (nd_id n) = int (length (filter (\<lambda>u. u \<notin> set S) (nd_after n)))"
    and out: "\<And>x. x \<notin> nd_id ` set ns \<Longrightarrow> degree deg x \<le> 0"
    and fin: "\<And>x. x \<in> set (S @ R) \<longleftrightarrow> (\<exists>n \<in> set ns. nd_id n = x \<and> set (nd_after n) \<subseteq> set S)"
    using inv by (auto simp: kahn_inv_def)
  have uniq: "n = m" if "n \<in> set ns" "m \<in> set ns" "nd_id n = nd_id m" for n m
    using d that by (auto simp: distinct_map dest: inj_onD)
  have fin1: "nd_id n \<in> set (S @ R) \<longleftrightarrow> set (nd_after n) \<subseteq> set S" if "n \<in> set ns" for n
    using fin [of "nd_id n"] uniq that by blast
  have part: "length (filter (\<lambda>u. u \<notin> set S) us) = length (filter (\<lambda>u. u \<notin> set (S @ R)) us) + length (filter (\<lambda>u. u \<in> set R) us)" for us
    using dist(3) by (induction us) auto
  have deg1: "degree deg1 (nd_id n) = int (length (filter (\<lambda>u. u \<notin> set (S @ R)) (nd_after n)))" if "n \<in> set ns" for n
    using relax_fresh(1) [OF r, of "nd_id n"] stage_count [OF d that dist(2)] deg [OF that] part [of "nd_after n"] by simp
  have nxt: "nd_id n \<in> set nxt \<longleftrightarrow> nd_id n \<notin> set (S @ R) \<and> set (nd_after n) \<subseteq> set (S @ R)" if "n \<in> set ns" for n
  proof -
    define a b c where "a = length (filter (\<lambda>u. u \<notin> set S) (nd_after n))" "b = length (filter (\<lambda>u. u \<notin> set (S @ R)) (nd_after n))"
      "c = length (filter (\<lambda>u. u \<in> set R) (nd_after n))"
    have "nd_id n \<in> set nxt \<longleftrightarrow> 0 < int a \<and> int a \<le> int c" "a = b + c"
      using relax_fresh(3) [OF r, of "nd_id n"] stage_count [OF d that dist(2)] deg [OF that] part [of "nd_after n"]
      by (simp_all only: a_b_c_def)
    then have "nd_id n \<in> set nxt \<longleftrightarrow> 0 < a \<and> b = 0" by auto
    then have "nd_id n \<in> set nxt \<longleftrightarrow> 0 < length (filter (\<lambda>u. u \<notin> set S) (nd_after n)) \<and> length (filter (\<lambda>u. u \<notin> set (S @ R)) (nd_after n)) = 0"
      by (simp only: a_b_c_def)
    then show ?thesis using fin1 [OF that] filter_length_0 [of "set S" "nd_after n"] filter_length_0 [of "set (S @ R)" "nd_after n"] by auto
  qed
  have inside: "x \<in> nd_id ` set ns" if "x \<in> set nxt" for x
    using relax_fresh(3) [OF r, of x] out [of x] that by force
  have "x \<in> set ((S @ R) @ sort nxt) \<longleftrightarrow> (\<exists>n \<in> set ns. nd_id n = x \<and> set (nd_after n) \<subseteq> set (S @ R))" (is "?l \<longleftrightarrow> ?r") for x
  proof
    assume ?l
    then consider "x \<in> set (S @ R)" | "x \<in> set nxt" by auto
    then show ?r
    proof cases
      case 1
      then obtain n where "n \<in> set ns" "nd_id n = x" "set (nd_after n) \<subseteq> set S" using fin by blast
      then show ?r by auto
    next
      case 2
      then obtain n where "n \<in> set ns" "nd_id n = x" using inside by auto
      with 2 nxt show ?r by blast
    qed
  next
    assume ?r
    then obtain n where n: "n \<in> set ns" "nd_id n = x" "set (nd_after n) \<subseteq> set (S @ R)" by blast
    then show ?l using nxt [OF n(1)] by auto
  qed
  moreover have "degree deg1 x \<le> 0" if "x \<notin> nd_id ` set ns" for x
    using relax_fresh(1) [OF r, of x] out [OF that] by simp
  moreover have "distinct ((S @ R) @ sort nxt)"
  proof -
    have "x \<notin> set (S @ R)" if x: "x \<in> set nxt" for x
    proof -
      obtain n where "n \<in> set ns" "nd_id n = x" using inside [OF x] by auto
      with x nxt show ?thesis by blast
    qed
    then show ?thesis using dist relax_fresh(2) [OF r] by auto
  qed
  ultimately show ?thesis using deg1 by (simp add: kahn_inv_def)
qed

lemma kahn_stages:
  assumes d: "distinct (map nd_id ns)"
  shows "ch = children_of ns \<Longrightarrow> \<forall>n \<in> set ns. map_of idx (nd_id n) = Some n \<Longrightarrow> kahn_inv ns S R deg \<Longrightarrow> sorted R \<Longrightarrow>
    distinct (S @ map nd_id (concat (kahn idx ch R deg))) \<and>
    (\<forall>x. x \<in> set (S @ map nd_id (concat (kahn idx ch R deg))) \<longleftrightarrow>
       (\<exists>n \<in> set ns. nd_id n = x \<and> set (nd_after n) \<subseteq> set (S @ map nd_id (concat (kahn idx ch R deg))))) \<and>
    (\<forall>i < length (kahn idx ch R deg). sorted (map nd_id (kahn idx ch R deg ! i)) \<and>
       (\<forall>n \<in> set (kahn idx ch R deg ! i). n \<in> set ns \<and>
          set (nd_after n) \<subseteq> set (S @ map nd_id (concat (take i (kahn idx ch R deg))))))"
proof (induction idx ch R deg arbitrary: S rule: kahn.induct)
  case (1 idx ch R deg)
  show ?case
  proof (cases "R = []")
    case True
    then have "kahn idx ch R deg = []" by (subst kahn.simps) simp
    then show ?thesis using True 1(4) by (simp add: kahn_inv_def)
  next
    case False
    obtain deg1 nxt where r: "relax (concat (map ch R)) deg [] = (deg1, nxt)" by (cases "relax (concat (map ch R)) deg []")
    let ?stage = "map (\<lambda>x. the (map_of idx x)) R" and ?rest = "kahn idx ch (sort nxt) deg1"
    have k: "kahn idx ch R deg = ?stage # ?rest" using False r by (subst kahn.simps) simp
    have inv: "kahn_inv ns (S @ R) (sort nxt) deg1" using kahn_inv_step [OF d 1(4)] r 1(2) by simp
    have ready: "\<exists>n \<in> set ns. nd_id n = x \<and> the (map_of idx x) = n \<and> set (nd_after n) \<subseteq> set S" if "x \<in> set R" for x
    proof -
      have "x \<in> set (S @ R)" using that by simp
      then obtain n where "n \<in> set ns" "nd_id n = x" "set (nd_after n) \<subseteq> set S" using 1(4) unfolding kahn_inv_def by blast
      then show ?thesis using 1(3) by force
    qed
    have "map (\<lambda>x. nd_id (the (map_of idx x))) R = R" by (rule map_idI) (use ready in force)
    then have ids: "map nd_id ?stage = R" by (simp add: comp_def)
    have ih: "distinct ((S @ R) @ map nd_id (concat ?rest))"
      "\<And>x. x \<in> set ((S @ R) @ map nd_id (concat ?rest)) \<longleftrightarrow>
         (\<exists>n \<in> set ns. nd_id n = x \<and> set (nd_after n) \<subseteq> set ((S @ R) @ map nd_id (concat ?rest)))"
      "\<And>i. i < length ?rest \<Longrightarrow> sorted (map nd_id (?rest ! i)) \<and> (\<forall>n \<in> set (?rest ! i). n \<in> set ns \<and>
          set (nd_after n) \<subseteq> set ((S @ R) @ map nd_id (concat (take i ?rest))))"
      using 1(1) [OF False r [symmetric] 1(2,3) inv sorted_sort] by blast+
    have whole: "S @ map nd_id (concat (kahn idx ch R deg)) = (S @ R) @ map nd_id (concat ?rest)"
      by (simp add: k ids [simplified])
    have "sorted (map nd_id ((?stage # ?rest) ! i)) \<and> (\<forall>n \<in> set ((?stage # ?rest) ! i). n \<in> set ns \<and>
          set (nd_after n) \<subseteq> set (S @ map nd_id (concat (take i (?stage # ?rest)))))" if "i < length (?stage # ?rest)" for i
    proof (cases i)
      case 0
      have "sorted (map nd_id ?stage)" unfolding ids by (rule 1(5))
      with 0 show ?thesis using ready by fastforce
    next
      case (Suc j)
      then have "S @ map nd_id (concat (take i (?stage # ?rest))) = (S @ R) @ map nd_id (concat (take j ?rest))"
        using ids by simp
      then show ?thesis using ih(3) [of j] that Suc by (simp del: set_append)
    qed
    then show ?thesis unfolding whole unfolding k using ih(1,2) by blast
  qed
qed

subsection \<open>Compiling\<close>

definition orders_ok :: "'p range_orders \<Rightarrow> bool" where
  "orders_ok ro \<longleftrightarrow> (\<forall>xs. mset (ro_check ro xs) = mset xs \<and> mset (ro_edges ro xs) = mset xs \<and> mset (ro_ready ro xs) = mset xs)"

definition well_formed :: "registry option \<Rightarrow> 'p pipeline \<Rightarrow> bool" where
  "well_formed reg spec \<longleftrightarrow> pl_nodes spec \<noteq> [] \<and> distinct (map nd_id (pl_nodes spec)) \<and>
     (\<forall>n \<in> set (pl_nodes spec). nd_id n \<noteq> [] \<and> known_type reg n \<and> (\<forall>u \<in> set (nd_after n). u \<in> nd_id ` set (pl_nodes spec)))"

definition edges :: "'p node list \<Rightarrow> (string \<times> string) set" where
  "edges ns = {(u, x). \<exists>n \<in> set ns. nd_id n = x \<and> u \<in> set (nd_after n)}"

text \<open>The stages of a list of nodes, ranged over in the orders \<open>es\<close> and \<open>rs\<close>.\<close>

definition stages_of :: "'p node list \<Rightarrow> 'p node list \<Rightarrow> 'p node list \<Rightarrow> 'p plan" where
  "stages_of ns es rs =
     (let deg = map (\<lambda>n. (nd_id n, int (length (nd_after n)))) es in
      kahn (map (\<lambda>n. (nd_id n, n)) ns) (children_of es) (sort (filter (\<lambda>x. degree deg x = 0) (map nd_id rs))) deg)"

lemma compile_well_formed:
  assumes "orders_ok ro" "well_formed reg spec"
  defines "ns \<equiv> pl_nodes spec"
  shows "compile ro reg spec =
    (let stages = stages_of ns (ro_edges ro ns) (ro_ready ro ns) in
     if length (concat stages) \<noteq> length ns then Inl ErrCycle else Inr stages)"
proof -
  have ns: "ns \<noteq> []" "distinct (map nd_id ns)" "\<forall>n \<in> set ns. nd_id n \<noteq> []"
    "\<forall>n \<in> set ns. known_type reg n \<and> (\<forall>u \<in> set (nd_after n). u \<in> nd_id ` set ns)"
    using assms(2) by (auto simp: well_formed_def ns_def)
  obtain idx where idx: "build_index ns [] = Inr idx" using build_index_total [of ns "[]"] ns(2,3) by auto
  then have i: "idx = map (\<lambda>n. (nd_id n, n)) ns" using build_index_ok [OF idx] by simp
  then have vals: "map snd idx = ns" "fst ` set idx = nd_id ` set ns" by (simp_all add: comp_def image_image)
  have "set (ro_check ro ns) = set ns" using assms(1) by (metis orders_ok_def set_mset_mset)
  then have "check_nodes reg idx (ro_check ro ns) = None" using ns(4) vals(2) by (simp add: check_nodes_none)
  then show ?thesis
    using ns(1) idx vals(1) i by (simp add: compile_def stages_of_def Let_def flip: ns_def)
qed

lemma compile_not_cycle_ill_formed: "orders_ok ro \<Longrightarrow> \<not> well_formed reg spec \<Longrightarrow> \<exists>e. compile ro reg spec = Inl e \<and> e \<noteq> ErrCycle"
proof -
  assume o: "orders_ok ro" and w: "\<not> well_formed reg spec"
  let ?ns = "pl_nodes spec"
  show ?thesis
  proof (cases "?ns = []")
    case True
    then show ?thesis by (simp add: compile_def)
  next
    case False
    show ?thesis
    proof (cases "build_index ?ns []")
      case (Inl e)
      then show ?thesis using False build_index_not_cycle [of ?ns "[]"] by (auto simp: compile_def)
    next
      case (Inr idx)
      have i: "idx = map (\<lambda>n. (nd_id n, n)) ?ns" "\<forall>n \<in> set ?ns. nd_id n \<noteq> []" "distinct (map nd_id ?ns)"
        using build_index_ok [OF Inr] by auto
      then have vals: "map snd idx = ?ns" "fst ` set idx = nd_id ` set ?ns" by (simp_all add: comp_def image_image)
      have "set (ro_check ro ?ns) = set ?ns" using o by (metis orders_ok_def set_mset_mset)
      then have "check_nodes reg idx (ro_check ro ?ns) \<noteq> None"
        using w False i(2,3) vals(2) by (auto simp: well_formed_def check_nodes_none)
      then obtain e where "check_nodes reg idx (ro_check ro ?ns) = Some e" "e \<noteq> ErrCycle"
        using check_nodes_not_cycle by blast
      then show ?thesis using False Inr vals(1) by (simp add: compile_def)
    qed
  qed
qed

lemma perm_ids:
  assumes "mset ms = mset ns" "distinct (map nd_id ns)"
  shows "set ms = set ns" "distinct (map nd_id ms)"
proof -
  show "set ms = set ns" using assms(1) by (rule mset_eq_setD)
  have "mset (map nd_id ms) = mset (map nd_id ns)" using assms(1) by simp
  then show "distinct (map nd_id ms)" using assms(2) mset_eq_imp_distinct_iff by blast
qed

lemma initial_inv:
  assumes d: "distinct (map nd_id es)" and rs: "mset rs = mset es"
  defines "deg \<equiv> map (\<lambda>n. (nd_id n, int (length (nd_after n)))) es"
  shows "kahn_inv es [] (sort (filter (\<lambda>x. degree deg x = 0) (map nd_id rs))) deg"
proof -
  have s: "set rs = set es" "distinct (map nd_id rs)"
    using perm_ids [OF rs d] by auto
  have known: "degree deg (nd_id n) = int (length (nd_after n))" if "n \<in> set es" for n
  proof -
    have "distinct (map fst deg)" using d by (simp add: deg_def comp_def)
    moreover have "(nd_id n, int (length (nd_after n))) \<in> set deg" using that by (auto simp: deg_def)
    ultimately have "map_of deg (nd_id n) = Some (int (length (nd_after n)))" by (rule in_set_map_of [THEN iffD1])
    then show ?thesis by (simp add: degree_def)
  qed
  have "degree deg x = 0" if "x \<notin> nd_id ` set es" for x
  proof -
    have "map_of deg x = None" using that by (auto simp: map_of_eq_None_iff deg_def)
    then show ?thesis by (simp add: degree_def)
  qed
  then show ?thesis using s known by (auto simp: kahn_inv_def)
qed

lemma stages_facts:
  assumes d: "distinct (map nd_id ns)" and "mset es = mset ns" "mset rs = mset ns"
  defines "st \<equiv> stages_of ns es rs"
  shows "distinct (map nd_id (concat st))"
    and "x \<in> set (map nd_id (concat st)) \<longleftrightarrow> (\<exists>n \<in> set ns. nd_id n = x \<and> set (nd_after n) \<subseteq> set (map nd_id (concat st)))"
    and "i < length st \<Longrightarrow> sorted (map nd_id (st ! i))"
    and "i < length st \<Longrightarrow> n \<in> set (st ! i) \<Longrightarrow> n \<in> set ns \<and> set (nd_after n) \<subseteq> set (map nd_id (concat (take i st)))"
proof -
  let ?deg = "map (\<lambda>n. (nd_id n, int (length (nd_after n)))) es"
  have es: "set es = set ns" "distinct (map nd_id es)" "mset rs = mset es"
    using perm_ids [OF assms(2) d] assms(2,3) by auto
  have idx: "\<forall>n \<in> set es. map_of (map (\<lambda>n. (nd_id n, n)) ns) (nd_id n) = Some n"
  proof
    fix n assume "n \<in> set es"
    then have "(nd_id n, n) \<in> set (map (\<lambda>n. (nd_id n, n)) ns)" using es(1) by auto
    moreover have "distinct (map fst (map (\<lambda>n. (nd_id n, n)) ns))" using d by (simp add: comp_def)
    ultimately show "map_of (map (\<lambda>n. (nd_id n, n)) ns) (nd_id n) = Some n" by (intro in_set_map_of [THEN iffD1])
  qed
  note k = kahn_stages [OF es(2) refl idx initial_inv [OF es(2,3)] sorted_sort, folded stages_of_def [unfolded Let_def], folded st_def, unfolded append_Nil es(1)]
  show "distinct (map nd_id (concat st))"
    and "x \<in> set (map nd_id (concat st)) \<longleftrightarrow> (\<exists>n \<in> set ns. nd_id n = x \<and> set (nd_after n) \<subseteq> set (map nd_id (concat st)))"
    and "i < length st \<Longrightarrow> sorted (map nd_id (st ! i))"
    and "i < length st \<Longrightarrow> n \<in> set (st ! i) \<Longrightarrow> n \<in> set ns \<and> set (nd_after n) \<subseteq> set (map nd_id (concat (take i st)))"
    using k by blast+
qed

lemma in_stage: "x \<in> set (concat st) \<Longrightarrow> \<exists>i < length st. x \<in> set (st ! i)"
proof -
  assume "x \<in> set (concat st)"
  then obtain s where "s \<in> set st" "x \<in> set s" by auto
  then show ?thesis by (metis in_set_conv_nth)
qed

lemma stages_set:
  assumes d: "distinct (map nd_id ns)" and "mset es = mset ns" "mset rs = mset ns"
  shows "set (concat (stages_of ns es rs)) \<subseteq> set ns"
    and "length (concat (stages_of ns es rs)) = length ns \<longleftrightarrow> set (concat (stages_of ns es rs)) = set ns"
    and "distinct (concat (stages_of ns es rs))"
proof -
  let ?st = "stages_of ns es rs"
  show sub: "set (concat ?st) \<subseteq> set ns"
  proof
    fix n assume "n \<in> set (concat ?st)"
    from in_stage [OF this] obtain i where "i < length ?st" "n \<in> set (?st ! i)" by (elim exE conjE)
    then show "n \<in> set ns" using stages_facts(4) [OF assms, of i n] by simp
  qed
  show dc: "distinct (concat ?st)" using stages_facts(1) [OF assms] by (simp only: distinct_map)
  have dn: "distinct ns" using d by (simp only: distinct_map)
  show "length (concat ?st) = length ns \<longleftrightarrow> set (concat ?st) = set ns"
    using sub distinct_card [OF dc] distinct_card [OF dn] card_subset_eq [of "set ns" "set (concat ?st)"] by auto
qed

lemma earlier_stage:
  assumes "u \<in> set (map nd_id (concat (take i st)))"
  shows "\<exists>j < i. j < length st \<and> u \<in> nd_id ` set (st ! j)"
proof -
  obtain ns where "ns \<in> set (take i st)" "u \<in> nd_id ` set ns" using assms by auto
  then show ?thesis by (auto simp: in_set_conv_nth)
qed

lemma orders_okD: "orders_ok ro \<Longrightarrow> mset (ro_edges ro ns) = mset ns \<and> mset (ro_ready ro ns) = mset ns"
  by (simp add: orders_ok_def)

lemma compile_plan:
  assumes "orders_ok ro" "compile ro reg spec = Inr stages"
  defines "ns \<equiv> pl_nodes spec"
  shows "well_formed reg spec" "stages = stages_of ns (ro_edges ro ns) (ro_ready ro ns)" "set (concat stages) = set ns"
proof -
  show w: "well_formed reg spec" using compile_not_cycle_ill_formed [OF assms(1), of reg spec] assms(2) by auto
  then have d: "distinct (map nd_id ns)" by (simp add: well_formed_def ns_def)
  note c = compile_well_formed [OF assms(1) w, folded ns_def]
  show st: "stages = stages_of ns (ro_edges ro ns) (ro_ready ro ns)"
    and "set (concat stages) = set ns"
    using c assms(2) stages_set(2) [OF d] orders_okD [OF assms(1), of ns] by (auto simp: Let_def split: if_splits)
qed

text \<open>
  C8: A plan holds every node of the pipeline exactly once, the nodes of a stage are in the order of their ids, every type is
  registered, and whatever a node comes after lies in an earlier stage.
\<close>

theorem plan_is_topological:
  assumes "orders_ok ro" "compile ro reg spec = Inr stages"
  shows "mset (linear_order stages) = mset (pl_nodes spec) \<and> distinct (map nd_id (linear_order stages)) \<and>
    (\<forall>i < length stages. sorted (map nd_id (stages ! i)) \<and>
       (\<forall>n \<in> set (stages ! i). known_type reg n \<and> (\<forall>u \<in> set (nd_after n). \<exists>j < i. u \<in> nd_id ` set (stages ! j))))"
proof -
  let ?ns = "pl_nodes spec"
  note p = compile_plan [OF assms]
  have d: "distinct (map nd_id ?ns)" and types: "\<And>n. n \<in> set ?ns \<Longrightarrow> known_type reg n" using p(1) by (auto simp: well_formed_def)
  have o: "mset (ro_edges ro ?ns) = mset ?ns" "mset (ro_ready ro ?ns) = mset ?ns" using orders_okD [OF assms(1)] by auto
  note f = stages_facts [OF d o, folded p(2)]
  have "distinct ?ns" using d by (simp only: distinct_map)
  then have "mset (concat stages) = mset ?ns"
    using p(3) stages_set(3) [OF d o, folded p(2)] set_eq_iff_mset_eq_distinct by blast
  moreover have "sorted (map nd_id (stages ! i)) \<and>
       (\<forall>n \<in> set (stages ! i). known_type reg n \<and> (\<forall>u \<in> set (nd_after n). \<exists>j < i. u \<in> nd_id ` set (stages ! j)))"
    if i: "i < length stages" for i
    using f(3,4) [OF i] types earlier_stage by blast
  ultimately show ?thesis using f(1) by (simp add: linear_order_def)
qed

lemma finite_edges: "finite (edges ns)"
proof -
  have "edges ns = (\<Union>n \<in> set ns. (\<lambda>u. (u, nd_id n)) ` set (nd_after n))" by (auto simp: edges_def)
  then show ?thesis by simp
qed

lemma full_stages_iff_acyclic:
  assumes d: "distinct (map nd_id ns)" and o: "mset es = mset ns" "mset rs = mset ns"
    and refs: "\<And>n u. n \<in> set ns \<Longrightarrow> u \<in> set (nd_after n) \<Longrightarrow> u \<in> nd_id ` set ns"
  shows "set (concat (stages_of ns es rs)) = set ns \<longleftrightarrow> acyclic (edges ns)"
proof
  let ?st = "stages_of ns es rs"
  note f = stages_facts [OF d o]
  have uniq: "n = m" if "n \<in> set ns" "m \<in> set ns" "nd_id n = nd_id m" for n m
    using d that by (auto simp: distinct_map dest: inj_onD)
  {
    assume full: "set (concat ?st) = set ns"
    define stage where "stage x = (LEAST i. i < length ?st \<and> x \<in> nd_id ` set (?st ! i))" for x
    have "stage u < stage x" if e: "(u, x) \<in> edges ns" for u x
    proof -
      obtain n where n: "n \<in> set ns" "nd_id n = x" "u \<in> set (nd_after n)" using e by (auto simp: edges_def)
      then obtain i where "i < length ?st" "n \<in> set (?st ! i)" using full in_stage [of n ?st] by blast
      then have s: "stage x < length ?st \<and> x \<in> nd_id ` set (?st ! stage x)"
        unfolding stage_def using n(2) by (intro LeastI [of "\<lambda>i. i < length ?st \<and> x \<in> nd_id ` set (?st ! i)" i]) auto
      then obtain m where m: "m \<in> set (?st ! stage x)" "nd_id m = x" by auto
      then have "m = n" using f(4) s uniq n(1,2) by blast
      then obtain j where "j < stage x" "j < length ?st" "u \<in> nd_id ` set (?st ! j)" using f(4) [of "stage x" m] m(1) s n(3) earlier_stage by blast
      moreover from this(2,3) have "stage u \<le> j" unfolding stage_def by (intro Least_le) simp
      ultimately show ?thesis by simp
    qed
    then have "edges ns \<subseteq> measure stage" by auto
    then show "acyclic (edges ns)" using wf_subset [OF wf_measure] wf_acyclic by blast
  }
  assume "acyclic (edges ns)"
  then have wf: "wf (edges ns)" using finite_acyclic_wf finite_edges by blast
  have reach: "x \<in> nd_id ` set ns \<longrightarrow> x \<in> set (map nd_id (concat ?st))" for x
  proof (induction x rule: wf_induct_rule [OF wf])
    case (1 x)
    show ?case
    proof
      assume "x \<in> nd_id ` set ns"
      then obtain n where n: "n \<in> set ns" "nd_id n = x" by auto
      have "u \<in> set (map nd_id (concat ?st))" if u: "u \<in> set (nd_after n)" for u
        using 1 [of u] refs [OF n(1) u] n u by (auto simp: edges_def)
      then show "x \<in> set (map nd_id (concat ?st))" using f(2) n by blast
    qed
  qed
  then have "n \<in> set (concat ?st)" if n: "n \<in> set ns" for n
  proof -
    have "nd_id n \<in> nd_id ` set (concat ?st)" using reach n by (simp only: imageI simp_thms set_map)
    then obtain m where "m \<in> set (concat ?st)" "nd_id m = nd_id n" by (metis imageE)
    then show ?thesis using uniq [of m n] stages_set(1) [OF d o] n by blast
  qed
  then show "set (concat ?st) = set ns" using stages_set(1) [OF d o] by blast
qed

text \<open>
  C9: The compiler reports a cycle exactly when the pipeline is well formed (ids present and distinct, types registered,
  references known) and its references form a cycle.
\<close>

theorem cycle_reported_iff_cyclic:
  assumes "orders_ok ro"
  shows "compile ro reg spec = Inl ErrCycle \<longleftrightarrow>
    well_formed reg spec \<and> \<not> acyclic {(u, x). \<exists>n \<in> set (pl_nodes spec). nd_id n = x \<and> u \<in> set (nd_after n)}"
proof (cases "well_formed reg spec")
  case False
  then show ?thesis using compile_not_cycle_ill_formed [OF assms False] by auto
next
  case True
  let ?ns = "pl_nodes spec"
  have d: "distinct (map nd_id ?ns)" and refs: "\<And>n u. n \<in> set ?ns \<Longrightarrow> u \<in> set (nd_after n) \<Longrightarrow> u \<in> nd_id ` set ?ns"
    using True by (auto simp: well_formed_def)
  have o: "mset (ro_edges ro ?ns) = mset ?ns" "mset (ro_ready ro ?ns) = mset ?ns" using orders_okD [OF assms] by auto
  show ?thesis
    using compile_well_formed [OF assms True] stages_set(2) [OF d o] full_stages_iff_acyclic [OF d o refs] True
    by (simp add: Let_def flip: edges_def)
qed

subsection \<open>The order of the maps\<close>

lemma count_list_mset: "mset xs = mset ys \<Longrightarrow> count_list xs x = count_list ys x"
  by (metis count_mset count_list_eq_length_filter)

lemma mset_concat_map: "(\<And>u. mset (f u) = mset (g u)) \<Longrightarrow> mset (concat (map f us)) = mset (concat (map g us))"
  by (induction us) simp_all

lemma kahn_cong:
  "\<forall>u. mset (ch u) = mset (ch' u) \<Longrightarrow> \<forall>x. degree deg x = degree deg' x \<Longrightarrow> kahn idx ch R deg = kahn idx ch' R deg'"
proof (induction idx ch R deg arbitrary: deg' rule: kahn.induct)
  case (1 idx ch R deg)
  show ?case
  proof (cases "R = []")
    case True
    then show ?thesis by (simp add: kahn.simps [of _ _ "[]"])
  next
    case False
    obtain d1 n1 where r1: "relax (concat (map ch R)) deg [] = (d1, n1)" by (cases "relax (concat (map ch R)) deg []")
    obtain d2 n2 where r2: "relax (concat (map ch' R)) deg' [] = (d2, n2)" by (cases "relax (concat (map ch' R)) deg' []")
    have "mset (concat (map ch R)) = mset (concat (map ch' R))" by (rule mset_concat_map) (use 1(2) in simp)
    then have c: "count_list (concat (map ch R)) x = count_list (concat (map ch' R)) x" for x by (rule count_list_mset)
    have "\<forall>x. degree d1 x = degree d2 x"
      using relax_fresh(1) [OF r1] relax_fresh(1) [OF r2] c 1(3) by simp
    then have "kahn idx ch (sort n1) d1 = kahn idx ch' (sort n1) d2"
      using 1(1) [OF False r1 [symmetric] 1(2)] by simp
    moreover have "set n1 = set n2" using relax_fresh(3) [OF r1] relax_fresh(3) [OF r2] c 1(3) by auto
    then have "sort n1 = sort n2"
      using relax_fresh(2) [OF r1] relax_fresh(2) [OF r2] by (intro sorted_distinct_set_unique) simp_all
    ultimately show ?thesis
      using False r1 r2 by (simp add: kahn.simps [of idx ch R deg] kahn.simps [of idx ch' R deg'])
  qed
qed

text \<open>A plan does not depend on the orders in which the maps are ranged over.\<close>

lemma stages_order_free:
  assumes d: "distinct (map nd_id ns)" and "mset es = mset ns" "mset es' = mset ns" "mset rs = mset ns" "mset rs' = mset ns"
  shows "stages_of ns es rs = stages_of ns es' rs'"
proof -
  let ?deg = "\<lambda>es. map (\<lambda>n. (nd_id n, int (length (nd_after n)))) es"
  have ms: "mset (map fst (?deg xs)) = mset (map nd_id xs)" for xs :: "'a node list" by (simp add: comp_def)
  have "distinct (map fst (?deg es))" using perm_ids(2) [OF assms(2) d] by (simp add: comp_def)
  moreover have "mset (?deg es) = mset (?deg es')" using assms(2,3) by simp
  ultimately have "map_of (?deg es) = map_of (?deg es')" by (rule perm_map_of)
  then have deg: "degree (?deg es) x = degree (?deg es') x" for x by (simp add: degree_def)
  have "mset (children_of es u) = mset (children_of es' u)" for u
  proof -
    have c: "mset (children_of xs u) = sum_mset (image_mset (\<lambda>n. mset (map (\<lambda>_. nd_id n) (filter (\<lambda>v. v = u) (nd_after n)))) (mset xs))"
      for xs :: "'a node list"
      by (induction xs) (simp_all add: children_of_def)
    show ?thesis unfolding c using assms(2,3) by simp
  qed
  moreover have "sort (filter (\<lambda>x. degree (?deg es) x = 0) (map nd_id rs)) = sort (filter (\<lambda>x. degree (?deg es') x = 0) (map nd_id rs'))"
  proof (rule properties_for_sort [symmetric])
    have "mset (map nd_id rs) = mset (map nd_id rs')" using assms(4,5) by simp
    then show "mset (sort (filter (\<lambda>x. degree (?deg es) x = 0) (map nd_id rs))) = mset (filter (\<lambda>x. degree (?deg es') x = 0) (map nd_id rs'))"
      by (simp add: deg mset_filter del: mset_map)
  qed simp
  ultimately show ?thesis
    unfolding stages_of_def Let_def using kahn_cong [of "children_of es" "children_of es'" "?deg es" "?deg es'"] deg by simp
qed

lemma compile_order_free:
  assumes "orders_ok ro" "orders_ok ro'" "compile ro reg spec = Inr stages"
  shows "compile ro' reg spec = Inr stages"
proof -
  let ?ns = "pl_nodes spec"
  have w: "well_formed reg spec" using compile_plan(1) [OF assms(1,3)] .
  then have d: "distinct (map nd_id ?ns)" by (simp add: well_formed_def)
  have "stages_of ?ns (ro_edges ro ?ns) (ro_ready ro ?ns) = stages_of ?ns (ro_edges ro' ?ns) (ro_ready ro' ?ns)"
    by (rule stages_order_free [OF d]) (simp_all add: orders_okD [OF assms(1)] orders_okD [OF assms(2)])
  then show ?thesis
    using assms(3) unfolding compile_well_formed [OF assms(1) w] compile_well_formed [OF assms(2) w] by simp
qed

subsection \<open>A concrete pipeline\<close>

definition demo_orders :: "'p range_orders" where
  "demo_orders = \<lparr>ro_check = rev, ro_edges = (\<lambda>xs. xs), ro_ready = rev\<rparr>"

definition demo_pipeline :: "unit pipeline" where
  "demo_pipeline = \<lparr>pl_id = ''p'', pl_nodes =
     [\<lparr>nd_id = ''out'', nd_type = ''sink'', nd_params = (), nd_after = [''b'', ''a'']\<rparr>,
      \<lparr>nd_id = ''src'', nd_type = ''source'', nd_params = (), nd_after = []\<rparr>,
      \<lparr>nd_id = ''b'', nd_type = ''infer'', nd_params = (), nd_after = [''src'']\<rparr>,
      \<lparr>nd_id = ''a'', nd_type = ''infer'', nd_params = (), nd_after = [''src'', ''src'']\<rparr>]\<rparr>"

definition demo_registry3 :: registry where
  "demo_registry3 = new_registry [''source'', ''infer'', ''sink'']"

lemma demo_compiles:
  "map (map nd_id) (case compile demo_orders (Some demo_registry3) demo_pipeline of Inr st \<Rightarrow> st | Inl _ \<Rightarrow> []) =
     [[''src''], [''a'', ''b''], [''out'']]"
  by code_simp

lemma demo_orders_ok: "orders_ok demo_orders"
  by (simp add: orders_ok_def demo_orders_def)

theorem plan_is_topological_witness:
  "\<exists>stages. compile demo_orders (Some demo_registry3) demo_pipeline = Inr stages \<and>
     mset (linear_order stages) = mset (pl_nodes demo_pipeline) \<and> length stages = 3"
proof (cases "compile demo_orders (Some demo_registry3) demo_pipeline")
  case (Inl e)
  then show ?thesis using demo_compiles by simp
next
  case (Inr stages)
  then have "length stages = 3" using arg_cong [OF demo_compiles, of length] by simp
  then show ?thesis using plan_is_topological [OF demo_orders_ok Inr] Inr by blast
qed

theorem cycle_reported_iff_cyclic_witness:
  "compile demo_orders None \<lparr>pl_id = ''p'', pl_nodes = [\<lparr>nd_id = ''a'', nd_type = ''t'', nd_params = (), nd_after = [''a'']\<rparr>]\<rparr> = Inl ErrCycle"
proof -
  let ?n = "\<lparr>nd_id = ''a'', nd_type = ''t'', nd_params = (), nd_after = [''a'']\<rparr>"
  let ?E = "{(u, x). \<exists>n \<in> set (pl_nodes \<lparr>pl_id = ''p'', pl_nodes = [?n]\<rparr>). nd_id n = x \<and> u \<in> set (nd_after n)}"
  have "(''a'', ''a'') \<in> ?E\<^sup>+" by (rule r_into_trancl) simp
  then have "\<not> acyclic ?E" unfolding acyclic_def by blast
  moreover have "well_formed None \<lparr>pl_id = ''p'', pl_nodes = [?n]\<rparr>" by (simp add: well_formed_def known_type_def)
  ultimately show ?thesis using cycle_reported_iff_cyclic [OF demo_orders_ok] by blast
qed

end
