(* ===== verification/GoJson.thy ===== *)
theory GoJson
  imports GoFloat
begin

section \<open>Decoded JSON\<close>

text \<open>
  What \<open>encoding/json\<close> makes of a text when it decodes into an \<open>any\<close>; the decoder itself is a parameter of the theories that
  use it. An object is the list of its members as written: a Go map keeps the last of two members with the same key.
\<close>

datatype json_value = JNull | JBool bool | JNumber fl | JString string | JArray "json_value list" | JObject "(string \<times> json_value) list"

type_synonym json_members = "(string \<times> json_value) list"

definition json_member :: "json_members \<Rightarrow> string \<Rightarrow> json_value option" where
  "json_member kvs k = map_of (rev kvs) k"

text \<open>Decoding into a \<open>map[string]any\<close>: a null leaves the map nil, other values than objects are errors.\<close>

definition json_object :: "json_value \<Rightarrow> json_members option" where
  "json_object v = (case v of JObject kvs \<Rightarrow> Some kvs | JNull \<Rightarrow> Some [] | _ \<Rightarrow> None)"

text \<open>The conversion of a float64 to int64 truncates; out of range it is the machine's choice, \<open>huge\<close>.\<close>

definition int64_of :: "(fl \<Rightarrow> int) \<Rightarrow> fl \<Rightarrow> int" where
  "int64_of huge x =
     (case x of
        Fin q \<Rightarrow> (let t = (if q < 0 then \<lceil>q\<rceil> else \<lfloor>q\<rfloor>) in if in_i64 t then t else huge x)
      | _ \<Rightarrow> huge x)"

end
