(* ===== verification/GoBase64.thy ===== *)
theory GoBase64
  imports Prelude
begin

section \<open>base64url\<close>

text \<open>
  \<open>base64.RawURLEncoding\<close> with its lenient and its strict decoder. Both skip line breaks; the strict one also refuses
  unused bits that are not zero, so that a text without line breaks has one encoding only.
\<close>

definition b64_char :: "nat \<Rightarrow> char" where
  "b64_char n = char_of (if n < 26 then n + 65 else if n < 52 then n + 71 else if n < 62 then n - 4 else if n = 62 then 45 else 95)"

definition b64_value :: "char \<Rightarrow> nat option" where
  "b64_value c =
     (let n = of_char c :: nat in
      if 65 \<le> n \<and> n \<le> 90 then Some (n - 65)
      else if 97 \<le> n \<and> n \<le> 122 then Some (n - 71)
      else if 48 \<le> n \<and> n \<le> 57 then Some (n + 4)
      else if n = 45 then Some 62
      else if n = 95 then Some 63
      else None)"

definition line_break :: "char \<Rightarrow> bool" where
  "line_break c \<longleftrightarrow> c = CHR 0x0A \<or> c = CHR 0x0D"

fun b64_values :: "string \<Rightarrow> nat list option" where
  "b64_values [] = Some []"
| "b64_values (c # s) =
     (if line_break c then b64_values s
      else case b64_value c of None \<Rightarrow> None | Some v \<Rightarrow> map_option (\<lambda>vs. v # vs) (b64_values s))"

fun b64_bytes :: "bool \<Rightarrow> nat list \<Rightarrow> string option" where
  "b64_bytes strict [] = Some []"
| "b64_bytes strict [a] = None"
| "b64_bytes strict [a, b] = (if strict \<and> b mod 16 \<noteq> 0 then None else Some [char_of (a * 4 + b div 16)])"
| "b64_bytes strict [a, b, c] =
     (if strict \<and> c mod 4 \<noteq> 0 then None else Some [char_of (a * 4 + b div 16), char_of (b mod 16 * 16 + c div 4)])"
| "b64_bytes strict (a # b # c # d # vs) =
     map_option (\<lambda>s. [char_of (a * 4 + b div 16), char_of (b mod 16 * 16 + c div 4), char_of (c mod 4 * 64 + d)] @ s) (b64_bytes strict vs)"

definition b64url_decode :: "string \<Rightarrow> string option" where
  "b64url_decode s = Option.bind (b64_values s) (b64_bytes False)"

definition b64url_decode_strict :: "string \<Rightarrow> string option" where
  "b64url_decode_strict s = Option.bind (b64_values s) (b64_bytes True)"

fun b64_digits :: "nat list \<Rightarrow> nat list" where
  "b64_digits [] = []"
| "b64_digits [a] = [a div 4, a mod 4 * 16]"
| "b64_digits [a, b] = [a div 4, a mod 4 * 16 + b div 16, b mod 16 * 4]"
| "b64_digits (a # b # c # s) = [a div 4, a mod 4 * 16 + b div 16, b mod 16 * 4 + c div 64, c mod 64] @ b64_digits s"

definition b64url_encode :: "string \<Rightarrow> string" where
  "b64url_encode s = map b64_char (b64_digits (map of_char s))"

subsection \<open>The alphabet\<close>

lemma of_char_of_nat: "of_char (char_of n :: char) = n mod (256 :: nat)"
  by (simp add: of_char_of)

lemma b64_value_char: "n < 64 \<Longrightarrow> b64_value (b64_char n) = Some n"
  by (auto simp: b64_value_def b64_char_def of_char_of_nat Let_def)

lemma b64_value_Some: "b64_value c = Some v \<Longrightarrow> v < 64 \<and> c = b64_char v"
proof -
  assume v: "b64_value c = Some v"
  let ?n = "of_char c :: nat"
  have n: "v < 64 \<and> ?n = (if v < 26 then v + 65 else if v < 52 then v + 71 else if v < 62 then v - 4 else if v = 62 then 45 else 95)"
    using v by (auto simp: b64_value_def Let_def split: if_splits)
  have "b64_char v = char_of ?n" unfolding b64_char_def conjunct2 [OF n] by (rule refl)
  then have "b64_char v = c" by simp
  then show ?thesis using n by simp
qed

lemma b64_char_plain: "n < 64 \<Longrightarrow> \<not> line_break (b64_char n) \<and> b64_char n \<noteq> CHR ''.''"
proof -
  assume n: "n < 64"
  have "b64_value (CHR 0x0A) = None" "b64_value (CHR 0x0D) = None" "b64_value (CHR ''.'') = None" by code_simp+
  then show ?thesis using b64_value_char [OF n] by (auto simp: line_break_def)
qed

lemma b64_values_Some: "b64_values s = Some vs \<Longrightarrow> (\<forall>v \<in> set vs. v < 64) \<and> filter (\<lambda>c. \<not> line_break c) s = map b64_char vs"
  by (induction s arbitrary: vs) (auto split: if_splits option.splits dest: b64_value_Some)

lemma b64_values_map: "(\<forall>v \<in> set vs. v < 64) \<Longrightarrow> b64_values (map b64_char vs) = Some vs"
  by (induction vs) (simp_all add: b64_value_char b64_char_plain)

subsection \<open>Bytes\<close>

lemma b64_digits_less: "(\<forall>a \<in> set s. a < 256) \<Longrightarrow> \<forall>v \<in> set (b64_digits s). v < 64"
  by (induction s rule: b64_digits.induct) auto

text \<open>The arithmetic of a group of three bytes.\<close>

lemma three_bytes:
  assumes "a < 256" "b < 256" "c < (256 :: nat)"
  shows "a div 4 * 4 + (a mod 4 * 16 + b div 16) div 16 = a" "(a mod 4 * 16 + b div 16) mod 16 * 16 + (b mod 16 * 4 + c div 64) div 4 = b"
    "(b mod 16 * 4 + c div 64) mod 4 * 64 + c mod 64 = c" "a div 4 * 4 + a mod 4 * 16 div 16 = a" "(a mod 4 * 16 + b div 16) mod 16 * 16 + b mod 16 * 4 div 4 = b"
proof -
  have q: "b div 16 < 16" "c div 64 < 4" using assms by simp_all
  show "a div 4 * 4 + (a mod 4 * 16 + b div 16) div 16 = a" using q by simp
  show "(a mod 4 * 16 + b div 16) mod 16 * 16 + (b mod 16 * 4 + c div 64) div 4 = b" using q by simp
  show "(b mod 16 * 4 + c div 64) mod 4 * 64 + c mod 64 = c" using q by simp
  show "a div 4 * 4 + a mod 4 * 16 div 16 = a" by simp
  show "(a mod 4 * 16 + b div 16) mod 16 * 16 + b mod 16 * 4 div 4 = b" using q by simp
qed

lemma b64_bytes_digits: "(\<forall>a \<in> set s. a < 256) \<Longrightarrow> b64_bytes strict (b64_digits s) = Some (map char_of s)"
proof (induction s rule: b64_digits.induct)
  case (4 a b c s)
  then show ?case using three_bytes [of a b c] by simp
qed (use three_bytes in \<open>auto\<close>)

lemma b64_digits_induct:
  "P [] \<Longrightarrow> (\<And>a. P [a]) \<Longrightarrow> (\<And>a b. P [a, b]) \<Longrightarrow> (\<And>a b c. P [a, b, c]) \<Longrightarrow> (\<And>a b c d vs. P vs \<Longrightarrow> P (a # b # c # d # vs)) \<Longrightarrow> P vs"
  by induction_schema (pat_completeness, lexicographic_order)

text \<open>The digits of the bytes of a strict decoding are the digits that were decoded.\<close>

lemma four_digits:
  assumes "a < 64" "b < 64" "c < 64" "d < (64 :: nat)" and xyz: "x = a * 4 + b div 16" "y = b mod 16 * 16 + c div 4" "z = c mod 4 * 64 + d"
  shows "x < 256" "y < 256" "z < 256" "x div 4 = a" "x mod 4 * 16 + y div 16 = b" "y mod 16 * 4 + z div 64 = c" "z mod 64 = d"
    "x mod 4 * 16 + b mod 16 = b" "y mod 16 * 4 + c mod 4 = c"
proof -
  have q: "b div 16 < 4" "c div 4 < 16" "b mod 16 < 16" "c mod 4 < 4" using assms(1-4) by simp_all
  show "x < 256" "y < 256" "z < 256" using q assms(1-4) unfolding xyz by linarith+
  show "x div 4 = a" using q by (simp add: xyz)
  have m: "x mod 4 = b div 16" "y mod 16 = c div 4" "y div 16 = b mod 16" "z div 64 = c mod 4" using q assms(4) by (simp_all add: xyz)
  show "x mod 4 * 16 + y div 16 = b" "y mod 16 * 4 + z div 64 = c" "x mod 4 * 16 + b mod 16 = b" "y mod 16 * 4 + c mod 4 = c"
    unfolding m by (rule div_mult_mod_eq)+
  show "z mod 64 = d" using assms(4) by (simp add: xyz)
qed

lemma b64_digits_bytes: "(\<forall>v \<in> set vs. v < 64) \<Longrightarrow> b64_bytes True vs = Some s \<Longrightarrow> b64_digits (map of_char s) = vs"
proof (induction vs arbitrary: s rule: b64_digits_induct)
  case (3 a b)
  obtain x where x: "x = a * 4 + b div 16" by blast
  have b: "b mod 16 = 0" "s = [char_of x]" using 3(2) by (auto simp: x split: if_splits)
  then show ?case using four_digits [of a b 0 0 x 0 0] 3(1) x by (simp add: of_char_of_nat)
next
  case (4 a b c)
  obtain x y where xy: "x = a * 4 + b div 16" "y = b mod 16 * 16 + c div 4" by blast
  have c: "c mod 4 = 0" "s = [char_of x, char_of y]" using 4(2) by (auto simp: xy split: if_splits)
  note f = four_digits [of a b c 0 x y 0]
  then show ?case using 4(1) xy c by (simp add: of_char_of_nat)
next
  case (5 a b c d vs)
  obtain x y z where xyz: "x = a * 4 + b div 16" "y = b mod 16 * 16 + c div 4" "z = c mod 4 * 64 + d" by blast
  obtain s' where s': "b64_bytes True vs = Some s'" "s = [char_of x, char_of y, char_of z] @ s'"
    using 5(3) by (auto simp: xyz)
  have lt: "a < 64" "b < 64" "c < 64" "d < 64" "\<forall>v \<in> set vs. v < 64" using 5(2) by simp_all
  note f = four_digits [OF lt(1-4) xyz]
  show ?case using 5(1) [OF lt(5) s'(1)] f by (simp add: s'(2) of_char_of_nat)
qed auto

lemma bytes_less: "\<forall>a \<in> set (map of_char (s :: string)). a < (256 :: nat)"
  by simp

theorem b64url_roundtrip: "b64url_decode_strict (b64url_encode s) = Some s"
proof -
  have "(char_of \<circ> of_char) = (\<lambda>c :: char. c)" by (simp add: fun_eq_iff)
  then show ?thesis
    using b64_values_map [OF b64_digits_less [OF bytes_less [of s]]] b64_bytes_digits [OF bytes_less [of s]]
    by (simp add: b64url_decode_strict_def b64url_encode_def del: b64_bytes.simps)
qed

theorem b64url_canonical:
  assumes "b64url_decode_strict t = Some s"
  shows "filter (\<lambda>c. \<not> line_break c) t = b64url_encode s"
proof -
  obtain vs where vs: "b64_values t = Some vs" "b64_bytes True vs = Some s"
    using assms by (auto simp: b64url_decode_strict_def split: bind_splits)
  note v = b64_values_Some [OF vs(1)]
  show ?thesis using b64_digits_bytes [OF conjunct1 [OF v] vs(2)] v by (simp add: b64url_encode_def)
qed

lemma b64url_encode_plain: "CHR ''.'' \<notin> set (b64url_encode s) \<and> (\<forall>c \<in> set (b64url_encode s). \<not> line_break c)"
proof -
  have "\<not> line_break c \<and> c \<noteq> CHR ''.''" if c: "c \<in> set (b64url_encode s)" for c
  proof -
    obtain v where v: "v \<in> set (b64_digits (map of_char s))" "c = b64_char v"
      using c unfolding b64url_encode_def set_map [of b64_char] by (rule imageE)
    have "v < 64" using b64_digits_less [OF bytes_less [of s]] v(1) by (rule bspec)
    from b64_char_plain [OF this] show ?thesis unfolding v(2) .
  qed
  then show ?thesis by blast
qed

end
