(* ===== verification/Authn.thy ===== *)
theory Authn
  imports GoJson GoBase64 Http
begin

section \<open>pkg/platform/middleware: bearer tokens\<close>

text \<open>
  Model of \<open>pkg/platform/middleware/jwt.go\<close>. The cryptography of the standard library, certificate parsing and the
  JSON decoder are parameters, in the record \<open>crypto\<close>. What a fetch of the key set meets is a
  value of \<open>fetch_result\<close>. The readings of the clock are arguments: the age of the cache is taken at \<open>rd_lookup\<close>, a
  refresh is stamped at \<open>rd_refresh\<close>, the claims are checked at \<open>rd_check\<close>.
\<close>

datatype curve = P256 | P384 | OtherCurve string

datatype public_key = RsaKey int int | EcKey curve int int | OtherKey string

datatype hash_id = SHA256 | SHA384 | SHA512

record crypto =
  cr_std_base64 :: "string \<Rightarrow> string option"
  cr_certificate :: "string \<Rightarrow> public_key option"
  cr_pem :: "string \<Rightarrow> string option"
  cr_hash :: "hash_id \<Rightarrow> string \<Rightarrow> string"
  cr_rsa :: "int \<Rightarrow> int \<Rightarrow> hash_id \<Rightarrow> string \<Rightarrow> string \<Rightarrow> bool"
  cr_ecdsa :: "curve \<Rightarrow> int \<Rightarrow> int \<Rightarrow> string \<Rightarrow> int \<Rightarrow> int \<Rightarrow> bool"
  cr_json :: "string \<Rightarrow> json_value option"
  cr_quote :: "string \<Rightarrow> string"
  cr_folds :: "string \<Rightarrow> string \<Rightarrow> bool"
  cr_huge :: "fl \<Rightarrow> int"

record authn_config =
  an_url :: string
  an_issuer :: string
  an_audience :: string
  an_ttl :: duration
  an_timeout :: duration
  an_leeway :: duration
  an_tenant_claim :: string
  an_roles_claim :: string

definition authn_setup :: "authn_config \<Rightarrow> string + authn_config" where
  "authn_setup cfg =
     (if an_url cfg = [] then Inl ''authn: JWKSURL is required''
      else if an_issuer cfg = [] then Inl ''authn: Issuer is required''
      else Inr (cfg\<lparr>an_ttl := (if an_ttl cfg = 0 then 10 * minute else an_ttl cfg),
        an_timeout := (if an_timeout cfg = 0 then 3 * second else an_timeout cfg),
        an_leeway := (if an_leeway cfg = 0 then 30 * second else an_leeway cfg),
        an_tenant_claim := (if an_tenant_claim cfg = [] then ''tenant_id'' else an_tenant_claim cfg),
        an_roles_claim := (if an_roles_claim cfg = [] then ''roles'' else an_roles_claim cfg)\<rparr>))"

subsection \<open>Numbers of bytes\<close>

definition bytes_int :: "string \<Rightarrow> int" where
  "bytes_int s = foldl (\<lambda>acc c. acc * 256 + int (of_char c)) 0 s"

text \<open>The exponent of an RSA key is accumulated in an \<open>int\<close>.\<close>

definition exponent_int :: "string \<Rightarrow> int" where
  "exponent_int s = foldl (\<lambda>e c. i64 (e * 256 + int (of_char c))) 0 s"

subsection \<open>Keys\<close>

record jwk =
  jk_kid :: string
  jk_kty :: string
  jk_alg :: string
  jk_use :: string
  jk_n :: string
  jk_e :: string
  jk_crv :: string
  jk_x :: string
  jk_y :: string
  jk_x5c :: "string list"

definition cert_key :: "crypto \<Rightarrow> string \<Rightarrow> public_key option" where
  "cert_key cr raw =
     (case cr_certificate cr raw of
        Some k \<Rightarrow> Some k
      | None \<Rightarrow> (case cr_pem cr raw of None \<Rightarrow> None | Some der \<Rightarrow> cr_certificate cr der))"

definition curve_of :: "string \<Rightarrow> curve option" where
  "curve_of crv = (if crv = ''P-256'' then Some P256 else if crv = ''P-384'' then Some P384 else None)"

definition parse_plain_jwk :: "jwk \<Rightarrow> public_key option" where
  "parse_plain_jwk k =
     (if jk_kty k = ''RSA'' then
        (case (b64url_decode (jk_n k), b64url_decode (jk_e k)) of
           (Some n, Some e) \<Rightarrow> Some (RsaKey (bytes_int n) (exponent_int e))
         | _ \<Rightarrow> None)
      else if jk_kty k = ''EC'' then
        (case (b64url_decode (jk_x k), b64url_decode (jk_y k), curve_of (jk_crv k)) of
           (Some x, Some y, Some c) \<Rightarrow> Some (EcKey c (bytes_int x) (bytes_int y))
         | _ \<Rightarrow> None)
      else None)"

definition parse_jwk :: "crypto \<Rightarrow> jwk \<Rightarrow> public_key option" where
  "parse_jwk cr k =
     (case (case jk_x5c k of [] \<Rightarrow> None | c # _ \<Rightarrow> (case cr_std_base64 cr c of None \<Rightarrow> None | Some raw \<Rightarrow> cert_key cr raw)) of
        Some key \<Rightarrow> Some key
      | None \<Rightarrow> parse_plain_jwk k)"

record jwks_cache =
  jc_keys :: "(string \<times> public_key) list"
  jc_fetched :: time

definition new_jwks_cache :: jwks_cache where
  "new_jwks_cache = \<lparr>jc_keys = [], jc_fetched = zero_time\<rparr>"

text \<open>A failed request and an unreadable body come with the text of their error.\<close>

datatype fetch_result = RequestFails string | FetchFails string | FetchStatus int | BodyFails string | DecodeFails string | KeySet "jwk list"

definition load_keys :: "crypto \<Rightarrow> jwk list \<Rightarrow> (string \<times> public_key) list" where
  "load_keys cr doc =
     foldl (\<lambda>keys jk. case parse_jwk cr jk of None \<Rightarrow> keys | Some k \<Rightarrow> AList.update (jk_kid jk) k keys) [] doc"

definition refresh_keys :: "crypto \<Rightarrow> time \<Rightarrow> fetch_result \<Rightarrow> jwks_cache \<Rightarrow> string option \<times> jwks_cache" where
  "refresh_keys cr now fetch c =
     (case fetch of
        RequestFails e \<Rightarrow> (Some e, c)
      | FetchFails e \<Rightarrow> (Some (''authn: jwks fetch: '' @ e), c)
      | BodyFails e \<Rightarrow> (Some e, c)
      | FetchStatus st \<Rightarrow> (Some (''authn: jwks status '' @ print_int st), c)
      | DecodeFails e \<Rightarrow> (Some (''authn: jwks decode: '' @ e), c)
      | KeySet doc \<Rightarrow> (None, \<lparr>jc_keys = load_keys cr doc, jc_fetched = now\<rparr>))"

record readings =
  rd_lookup :: time
  rd_refresh :: time
  rd_check :: time

definition cached_key :: "authn_config \<Rightarrow> time \<Rightarrow> jwks_cache \<Rightarrow> string \<Rightarrow> public_key option" where
  "cached_key cfg now c kid =
     (case map_of (jc_keys c) kid of
        None \<Rightarrow> None
      | Some k \<Rightarrow> if time_sub now (jc_fetched c) < an_ttl cfg then Some k else None)"

definition get_key :: "crypto \<Rightarrow> authn_config \<Rightarrow> readings \<Rightarrow> fetch_result \<Rightarrow> string \<Rightarrow> jwks_cache \<Rightarrow> (string + public_key) \<times> jwks_cache" where
  "get_key cr cfg rd fetch kid c =
     (case cached_key cfg (rd_lookup rd) c kid of
        Some k \<Rightarrow> (Inr k, c)
      | None \<Rightarrow>
          (case refresh_keys cr (rd_refresh rd) fetch c of
             (Some e, c1) \<Rightarrow> (Inl e, c1)
           | (None, c1) \<Rightarrow>
               (case map_of (jc_keys c1) kid of
                  None \<Rightarrow> (Inl (''authn: kid '' @ cr_quote cr kid @ '' not found in JWKS''), c1)
                | Some k \<Rightarrow> (Inr k, c1))))"

subsection \<open>Signatures\<close>

definition new_hash :: "string \<Rightarrow> hash_id" where
  "new_hash alg =
     (if alg = ''RS256'' \<or> alg = ''ES256'' then SHA256 else if alg = ''RS384'' \<or> alg = ''ES384'' then SHA384
      else if alg = ''RS512'' then SHA512 else SHA256)"

definition verify_signature :: "crypto \<Rightarrow> string \<Rightarrow> public_key \<Rightarrow> string \<Rightarrow> string \<Rightarrow> string option" where
  "verify_signature cr alg key input sig =
     (if alg \<in> {''RS256'', ''RS384'', ''RS512''} then
        (case key of
           RsaKey n e \<Rightarrow>
             if cr_rsa cr n e (new_hash alg) (cr_hash cr (new_hash alg) input) sig then None else Some ''token: signature invalid''
         | _ \<Rightarrow> Some ''token: alg/key mismatch (want RSA)'')
      else if alg \<in> {''ES256'', ''ES384''} then
        (case key of
           EcKey crv x y \<Rightarrow>
             let size = (if alg = ''ES256'' then 32 else 48) in
             if length sig \<noteq> 2 * size then Some ''token: signature length''
             else if cr_ecdsa cr crv x y (cr_hash cr (new_hash alg) input) (bytes_int (take size sig)) (bytes_int (drop size sig))
             then None else Some ''token: signature invalid''
         | _ \<Rightarrow> Some ''token: alg/key mismatch (want ECDSA)'')
      else Some (''token: unsupported alg '' @ cr_quote cr alg))"

subsection \<open>Claims\<close>

type_synonym claims = json_members

definition string_claim :: "claims \<Rightarrow> string \<Rightarrow> string" where
  "string_claim cs k = (case json_member cs k of Some (JString s) \<Rightarrow> s | _ \<Rightarrow> [])"

fun any_string :: "json_value list \<Rightarrow> string \<Rightarrow> bool" where
  "any_string [] want = False"
| "any_string (a # as) want = ((case a of JString s \<Rightarrow> s | _ \<Rightarrow> []) = want \<or> any_string as want)"

definition audience_matches :: "json_value option \<Rightarrow> string \<Rightarrow> bool" where
  "audience_matches aud want =
     (case aud of Some (JString v) \<Rightarrow> v = want | Some (JArray as) \<Rightarrow> any_string as want | _ \<Rightarrow> False)"

definition unix_time :: "int \<Rightarrow> time" where
  "unix_time secs = i64 (secs + 62135596800) * second"

definition expired_claim :: "crypto \<Rightarrow> authn_config \<Rightarrow> time \<Rightarrow> claims \<Rightarrow> bool" where
  "expired_claim cr cfg now cs =
     (case json_member cs ''exp'' of Some (JNumber x) \<Rightarrow> unix_time (int64_of (cr_huge cr) x) + an_leeway cfg < now | _ \<Rightarrow> False)"

definition early_claim :: "crypto \<Rightarrow> authn_config \<Rightarrow> time \<Rightarrow> claims \<Rightarrow> bool" where
  "early_claim cr cfg now cs =
     (case json_member cs ''nbf'' of Some (JNumber x) \<Rightarrow> now + an_leeway cfg < unix_time (int64_of (cr_huge cr) x) | _ \<Rightarrow> False)"

definition check_claims :: "crypto \<Rightarrow> authn_config \<Rightarrow> time \<Rightarrow> string \<Rightarrow> string + claims" where
  "check_claims cr cfg now payload =
     (case Option.bind (cr_json cr payload) json_object of
        None \<Rightarrow> Inl ''token: invalid claims''
      | Some cs \<Rightarrow>
          if string_claim cs ''iss'' \<noteq> an_issuer cfg
          then Inl (''token: issuer mismatch (got '' @ cr_quote cr (string_claim cs ''iss'') @ '')'')
          else if an_audience cfg \<noteq> [] \<and> \<not> audience_matches (json_member cs ''aud'') (an_audience cfg) then Inl ''token: audience mismatch''
          else if expired_claim cr cfg now cs then Inl ''token: expired''
          else if early_claim cr cfg now cs then Inl ''token: not yet valid''
          else Inr cs)"

subsection \<open>Tokens\<close>

record jwt_header =
  jh_alg :: string
  jh_kid :: string

text \<open>
  The header decodes into a struct. A member whose name matches the field's up to case sets it, a null leaves it, and a
  value of another type is an error.
\<close>

fun header_member :: "crypto \<Rightarrow> string \<Rightarrow> string \<Rightarrow> claims \<Rightarrow> string option" where
  "header_member cr field v [] = Some v"
| "header_member cr field v ((k, x) # kvs) =
     (if cr_folds cr k field then
        (case x of JString s \<Rightarrow> header_member cr field s kvs | JNull \<Rightarrow> header_member cr field v kvs | _ \<Rightarrow> None)
      else header_member cr field v kvs)"

definition decode_header :: "crypto \<Rightarrow> json_value \<Rightarrow> jwt_header option" where
  "decode_header cr v =
     (case json_object v of
        None \<Rightarrow> None
      | Some kvs \<Rightarrow>
          (case (header_member cr ''alg'' [] kvs, header_member cr ''kid'' [] kvs, header_member cr ''typ'' [] kvs) of
             (Some a, Some k, Some _) \<Rightarrow> Some \<lparr>jh_alg = a, jh_kid = k\<rparr>
           | _ \<Rightarrow> None))"

definition verify_jwt :: "crypto \<Rightarrow> authn_config \<Rightarrow> readings \<Rightarrow> fetch_result \<Rightarrow> string \<Rightarrow> jwks_cache \<Rightarrow> (string + claims) \<times> jwks_cache" where
  "verify_jwt cr cfg rd fetch tok c =
     (case split_on (CHR ''.'') tok of
        [p0, p1, p2] \<Rightarrow>
          (case b64url_decode p0 of
             None \<Rightarrow> (Inl ''token: invalid header encoding'', c)
           | Some hj \<Rightarrow>
               (case Option.bind (cr_json cr hj) (decode_header cr) of
                  None \<Rightarrow> (Inl ''token: invalid header'', c)
                | Some h \<Rightarrow>
                    if jh_kid h = [] then (Inl ''token: missing kid'', c)
                    else (case b64url_decode p1 of
                       None \<Rightarrow> (Inl ''token: invalid payload encoding'', c)
                     | Some payload \<Rightarrow>
                         (case b64url_decode p2 of
                            None \<Rightarrow> (Inl ''token: invalid signature encoding'', c)
                          | Some sig \<Rightarrow>
                              (case get_key cr cfg rd fetch (jh_kid h) c of
                                 (Inl e, c1) \<Rightarrow> (Inl e, c1)
                               | (Inr key, c1) \<Rightarrow>
                                   (case verify_signature cr (jh_alg h) key (p0 @ ''.'' @ p1) sig of
                                      Some e \<Rightarrow> (Inl e, c1)
                                    | None \<Rightarrow> (check_claims cr cfg (rd_check rd) payload, c1)))))))
      | _ \<Rightarrow> (Inl ''token: malformed'', c))"

subsection \<open>The middleware\<close>

text \<open>The tenant the next handler runs with, or the problem that is answered instead.\<close>

definition authenticate :: "crypto \<Rightarrow> authn_config \<Rightarrow> readings \<Rightarrow> fetch_result \<Rightarrow> headers \<Rightarrow> jwks_cache \<Rightarrow> (problem + string) \<times> jwks_cache" where
  "authenticate cr cfg rd fetch hdrs c =
     (let authz = header_get hdrs ''Authorization'' in
      if \<not> prefix ''Bearer '' authz then (Inl (unauthorized ''bearer token required''), c)
      else case verify_jwt cr cfg rd fetch (drop 7 authz) c of
        (Inl e, c1) \<Rightarrow> (Inl (unauthorized e), c1)
      | (Inr cs, c1) \<Rightarrow>
          let tenant = string_claim cs (an_tenant_claim cfg) in
          if tenant = [] then (Inl (unauthorized ''token missing tenant claim''), c1) else (Inr tenant, c1))"

subsection \<open>What an accepted request has shown\<close>

text \<open>A key set fetched at a time, as the requests before have seen it.\<close>

record request =
  rq_readings :: readings
  rq_fetch :: fetch_result
  rq_headers :: headers

fun serve_all :: "crypto \<Rightarrow> authn_config \<Rightarrow> request list \<Rightarrow> jwks_cache \<Rightarrow> jwks_cache" where
  "serve_all cr cfg [] c = c"
| "serve_all cr cfg (r # rs) c = serve_all cr cfg rs (snd (authenticate cr cfg (rq_readings r) (rq_fetch r) (rq_headers r) c))"

text \<open>The key belongs to an entry of a key set that one of the requests fetched at time \<open>t\<close>.\<close>

definition published :: "crypto \<Rightarrow> request list \<Rightarrow> time \<Rightarrow> string \<Rightarrow> public_key \<Rightarrow> bool" where
  "published cr rs t kid key \<longleftrightarrow>
     (\<exists>r \<in> set rs. rd_refresh (rq_readings r) = t \<and> (\<exists>doc. rq_fetch r = KeySet doc \<and>
        (\<exists>jk \<in> set doc. jk_kid jk = kid \<and> parse_jwk cr jk = Some key)))"

text \<open>The key verifies the signature, with an algorithm of its own family.\<close>

definition signed_by :: "crypto \<Rightarrow> string \<Rightarrow> public_key \<Rightarrow> string \<Rightarrow> string \<Rightarrow> bool" where
  "signed_by cr alg key input sig \<longleftrightarrow>
     (\<exists>n e. key = RsaKey n e \<and> alg \<in> {''RS256'', ''RS384'', ''RS512''} \<and>
        cr_rsa cr n e (new_hash alg) (cr_hash cr (new_hash alg) input) sig) \<or>
     (\<exists>crv x y size. key = EcKey crv x y \<and> (alg, size) \<in> {(''ES256'', 32), (''ES384'', 48)} \<and> length sig = 2 * size \<and>
        cr_ecdsa cr crv x y (cr_hash cr (new_hash alg) input) (bytes_int (take size sig)) (bytes_int (drop size sig)))"

lemma verify_signature_none: "verify_signature cr alg key input sig = None \<Longrightarrow> signed_by cr alg key input sig"
  by (auto simp: verify_signature_def signed_by_def Let_def split: if_splits public_key.splits)

lemma load_keys_member:
  assumes "map_of (load_keys cr doc) kid = Some key"
  shows "\<exists>jk \<in> set doc. jk_kid jk = kid \<and> parse_jwk cr jk = Some key"
proof -
  have "map_of (foldl (\<lambda>keys jk. case parse_jwk cr jk of None \<Rightarrow> keys | Some k \<Rightarrow> AList.update (jk_kid jk) k keys) m doc) kid = Some key \<Longrightarrow>
      map_of m kid = Some key \<or> (\<exists>jk \<in> set doc. jk_kid jk = kid \<and> parse_jwk cr jk = Some key)" for m
  proof (induction doc arbitrary: m)
    case (Cons jk doc)
    from Cons.IH [OF Cons.prems [unfolded foldl_Cons]] show ?case by (auto split: option.splits if_splits)
  qed simp
  from this [of "[]"] assms show ?thesis by (simp add: load_keys_def)
qed

definition cache_ok :: "crypto \<Rightarrow> request list \<Rightarrow> jwks_cache \<Rightarrow> bool" where
  "cache_ok cr rs c \<longleftrightarrow> (\<forall>kid key. map_of (jc_keys c) kid = Some key \<longrightarrow> published cr rs (jc_fetched c) kid key)"

lemma cache_ok_mono: "cache_ok cr rs c \<Longrightarrow> set rs \<subseteq> set rs' \<Longrightarrow> cache_ok cr rs' c"
  unfolding cache_ok_def published_def by blast

lemma get_key_ok:
  assumes "cache_ok cr rs c" "r \<in> set rs" "get_key cr cfg (rq_readings r) (rq_fetch r) kid c = (res, c')"
  shows "cache_ok cr rs c' \<and>
    (\<forall>key. res = Inr key \<longrightarrow> (\<exists>t. published cr rs t kid key \<and>
       (t = rd_refresh (rq_readings r) \<or> time_sub (rd_lookup (rq_readings r)) t < an_ttl cfg)))"
proof (cases "cached_key cfg (rd_lookup (rq_readings r)) c kid")
  case (Some k)
  then show ?thesis
    using assms by (auto simp: get_key_def cached_key_def cache_ok_def split: option.splits if_splits)
next
  case None
  show ?thesis
  proof (cases "\<exists>doc. rq_fetch r = KeySet doc")
    case True
    then obtain doc where doc: "rq_fetch r = KeySet doc" by blast
    let ?c = "\<lparr>jc_keys = load_keys cr doc, jc_fetched = rd_refresh (rq_readings r)\<rparr>"
    have ok: "published cr rs (rd_refresh (rq_readings r)) k key" if "map_of (load_keys cr doc) k = Some key" for k key
      using load_keys_member [OF that] assms(2) doc unfolding published_def by blast
    have c': "c' = ?c" "res = Inr key \<Longrightarrow> map_of (load_keys cr doc) kid = Some key" for key
      using assms(3) None doc by (auto simp: get_key_def refresh_keys_def split: option.splits)
    then show ?thesis using ok by (auto simp: cache_ok_def)
  next
    case False
    then have "c' = c" "\<exists>e. res = Inl e" using assms(3) None by (auto simp: get_key_def refresh_keys_def split: fetch_result.splits)
    then show ?thesis using assms(1) by auto
  qed
qed

lemma verify_jwt_ok:
  assumes "cache_ok cr rs c" "r \<in> set rs" "verify_jwt cr cfg (rq_readings r) (rq_fetch r) tok c = (res, c')"
  shows "cache_ok cr rs c'"
proof -
  let ?get = "\<lambda>kid. get_key cr cfg (rq_readings r) (rq_fetch r) kid c"
  have "cache_ok cr rs c2" if "?get kid = (res2, c2)" for kid res2 c2
    using get_key_ok [OF assms(1,2) that] by blast
  moreover have "c' = c \<or> (\<exists>kid res2. ?get kid = (res2, c'))"
    using assms(3) by (auto simp: verify_jwt_def split: list.splits option.splits if_splits prod.splits sum.splits)
  ultimately show ?thesis using assms(1) by blast
qed

lemma authenticate_cache: "cache_ok cr rs c \<Longrightarrow> r \<in> set rs \<Longrightarrow> cache_ok cr rs (snd (authenticate cr cfg (rq_readings r) (rq_fetch r) (rq_headers r) c))"
  using verify_jwt_ok [of cr rs c r cfg]
  by (auto simp: authenticate_def Let_def split: prod.splits sum.splits)

lemma serve_all_ok: "cache_ok cr ps c \<Longrightarrow> set rs \<subseteq> set ps \<Longrightarrow> cache_ok cr ps (serve_all cr cfg rs c)"
  by (induction rs arbitrary: c) (simp_all add: authenticate_cache)

lemma verify_jwt_parts:
  assumes "verify_jwt cr cfg rd fetch tok c = (Inr cs, c')"
  obtains p0 p1 p2 hj h payload sig key where
    "split_on (CHR ''.'') tok = [p0, p1, p2]" "b64url_decode p0 = Some hj" "Option.bind (cr_json cr hj) (decode_header cr) = Some h"
    "b64url_decode p1 = Some payload" "b64url_decode p2 = Some sig" "get_key cr cfg rd fetch (jh_kid h) c = (Inr key, c')"
    "verify_signature cr (jh_alg h) key (p0 @ ''.'' @ p1) sig = None" "check_claims cr cfg (rd_check rd) payload = Inr cs"
  using assms
  by (auto simp: verify_jwt_def split: list.splits option.splits if_splits prod.splits sum.splits)

lemma check_claims_ok:
  assumes "check_claims cr cfg now payload = Inr cs"
  shows "string_claim cs ''iss'' = an_issuer cfg \<and> (an_audience cfg = [] \<or> audience_matches (json_member cs ''aud'') (an_audience cfg)) \<and>
    \<not> expired_claim cr cfg now cs \<and> \<not> early_claim cr cfg now cs \<and> Option.bind (cr_json cr payload) json_object = Some cs"
  using assms by (auto simp: check_claims_def split: option.splits if_splits)

lemma split_on_join: "split_on d s = p # ps \<Longrightarrow> s = p @ concat (map (\<lambda>q. d # q) ps)"
proof (induction s arbitrary: p ps)
  case (Cons c s)
  obtain q qs where q: "split_on d s = q # qs" using split_on_nonempty [of d s] by (cases "split_on d s") auto
  show ?case
  proof (cases "c = d")
    case True
    then have "p = []" "ps = q # qs" using Cons.prems q by simp_all
    then show ?thesis using Cons.IH [OF q] \<open>c = d\<close> by simp
  next
    case False
    then have "p = c # q" "ps = qs" using Cons.prems q by simp_all
    then show ?thesis using Cons.IH [OF q] by simp
  qed
qed simp

lemma unknown_kid_refetches:
  assumes "map_of (jc_keys c) kid = None"
  shows "snd (get_key cr cfg rd (KeySet doc) kid c) = \<lparr>jc_keys = load_keys cr doc, jc_fetched = rd_refresh rd\<rparr>"
    and "fst (get_key cr cfg rd (FetchStatus 503) kid c) = Inl ''authn: jwks status 503''"
proof -
  have "print_int 503 = ''503''" by code_simp
  then show "snd (get_key cr cfg rd (KeySet doc) kid c) = \<lparr>jc_keys = load_keys cr doc, jc_fetched = rd_refresh rd\<rparr>"
    "fst (get_key cr cfg rd (FetchStatus 503) kid c) = Inl ''authn: jwks status 503''"
    using assms by (simp_all add: get_key_def cached_key_def refresh_keys_def split: option.split)
qed

lemma curve_is_not_checked:
  assumes "length sig = 64" "cr_ecdsa cr P384 x y (cr_hash cr SHA256 input) (bytes_int (take 32 sig)) (bytes_int (drop 32 sig))"
  shows "verify_signature cr ''ES256'' (EcKey P384 x y) input sig = None"
  using assms by (simp add: verify_signature_def new_hash_def)

text \<open>
  C5: A request reaches the next handler only with a token whose header and payload are signed, by an algorithm of the key's own
  family, under a key that the issuer's key set published for the kid of the header, at this request or less than the
  cache's lifetime ago; the payload names the issuer and the audience, is neither expired nor early, and its tenant
  claim is the tenant the handler sees.
\<close>

theorem accepted_request_is_signed:
  assumes "r = \<lparr>rq_readings = rd, rq_fetch = fetch, rq_headers = hdrs\<rparr>"
    and "authenticate cr cfg rd fetch hdrs (serve_all cr cfg rs new_jwks_cache) = (Inr tenant, c)"
  shows "\<exists>p0 p1 p2 hj h payload sig key t cs.
    header_get hdrs ''Authorization'' = ''Bearer '' @ p0 @ ''.'' @ p1 @ ''.'' @ p2 \<and>
    b64url_decode p0 = Some hj \<and> Option.bind (cr_json cr hj) (decode_header cr) = Some h \<and>
    b64url_decode p1 = Some payload \<and> b64url_decode p2 = Some sig \<and>
    signed_by cr (jh_alg h) key (p0 @ ''.'' @ p1) sig \<and> published cr (rs @ [r]) t (jh_kid h) key \<and>
    (t = rd_refresh rd \<or> time_sub (rd_lookup rd) t < an_ttl cfg) \<and>
    Option.bind (cr_json cr payload) json_object = Some cs \<and> string_claim cs ''iss'' = an_issuer cfg \<and>
    (an_audience cfg = [] \<or> audience_matches (json_member cs ''aud'') (an_audience cfg)) \<and>
    \<not> expired_claim cr cfg (rd_check rd) cs \<and> \<not> early_claim cr cfg (rd_check rd) cs \<and>
    string_claim cs (an_tenant_claim cfg) = tenant \<and> tenant \<noteq> []"
proof -
  let ?c = "serve_all cr cfg rs new_jwks_cache" and ?authz = "header_get hdrs ''Authorization''"
  have "cache_ok cr rs new_jwks_cache" by (simp add: cache_ok_def new_jwks_cache_def)
  then have "cache_ok cr rs ?c" by (rule serve_all_ok) simp
  then have ok: "cache_ok cr (rs @ [r]) ?c" by (rule cache_ok_mono) auto
  obtain cs where v: "verify_jwt cr cfg rd fetch (drop 7 ?authz) ?c = (Inr cs, c)" and pre: "prefix ''Bearer '' ?authz"
    and tenant: "string_claim cs (an_tenant_claim cfg) = tenant" "tenant \<noteq> []"
    using assms(2) by (auto simp: authenticate_def Let_def split: if_splits prod.splits sum.splits)
  from v obtain p0 p1 p2 hj h payload sig key where p: "split_on (CHR ''.'') (drop 7 ?authz) = [p0, p1, p2]"
    "b64url_decode p0 = Some hj" "Option.bind (cr_json cr hj) (decode_header cr) = Some h"
    "b64url_decode p1 = Some payload" "b64url_decode p2 = Some sig" "get_key cr cfg rd fetch (jh_kid h) ?c = (Inr key, c)"
    "verify_signature cr (jh_alg h) key (p0 @ ''.'' @ p1) sig = None" "check_claims cr cfg (rd_check rd) payload = Inr cs"
    by (rule verify_jwt_parts)
  have "?authz = ''Bearer '' @ p0 @ ''.'' @ p1 @ ''.'' @ p2"
    using pre split_on_join [OF p(1)] by (auto simp: prefix_def)
  moreover obtain t where "published cr (rs @ [r]) t (jh_kid h) key" "t = rd_refresh rd \<or> time_sub (rd_lookup rd) t < an_ttl cfg"
    using get_key_ok [OF ok, of r cfg "jh_kid h" "Inr key" c] p(6) assms(1) by auto
  ultimately show ?thesis
    using p(2-5) verify_signature_none [OF p(7)] check_claims_ok [OF p(8)] tenant by blast
qed

text \<open>A toy signature scheme for concrete runs: hashing is the identity and a signature is the byte 83.\<close>

definition toy_crypto :: crypto where
  "toy_crypto =
     \<lparr>cr_std_base64 = (\<lambda>_. None), cr_certificate = (\<lambda>_. None), cr_pem = (\<lambda>_. None), cr_hash = (\<lambda>_ s. s),
      cr_rsa = (\<lambda>n e h d s. e = 3 \<and> s = ''S''), cr_ecdsa = (\<lambda>_ _ _ _ _ _. False),
      cr_json = (\<lambda>s. if s = ''H'' then Some (JObject [(''alg'', JString ''RS256''), (''kid'', JString ''k'')])
        else if s = ''P'' then Some (JObject [(''iss'', JString ''idp''), (''tenant_id'', JString ''acme'')]) else None),
      cr_quote = (\<lambda>s. s), cr_folds = (\<lambda>a b. a = b), cr_huge = (\<lambda>_. 0)\<rparr>"

definition toy_config :: authn_config where
  "toy_config =
     \<lparr>an_url = ''http://idp'', an_issuer = ''idp'', an_audience = [], an_ttl = 600, an_timeout = 3, an_leeway = 30,
      an_tenant_claim = ''tenant_id'', an_roles_claim = ''roles''\<rparr>"

definition toy_request :: request where
  "toy_request =
     \<lparr>rq_readings = \<lparr>rd_lookup = 1, rd_refresh = 2, rd_check = 3\<rparr>,
      rq_fetch = KeySet [\<lparr>jk_kid = ''k'', jk_kty = ''RSA'', jk_alg = [], jk_use = [], jk_n = ''AQ'', jk_e = ''Aw'',
        jk_crv = [], jk_x = [], jk_y = [], jk_x5c = []\<rparr>],
      rq_headers = [(''Authorization'', ''Bearer SA.UA.Uw'')]\<rparr>"

lemma toy_request_passes:
  "fst (authenticate toy_crypto toy_config (rq_readings toy_request) (rq_fetch toy_request) (rq_headers toy_request)
     (serve_all toy_crypto toy_config [] new_jwks_cache)) = Inr ''acme''"
  by code_simp

lemma accepted_request_is_signed_witness:
  "\<exists>p0 p1 p2 (h :: jwt_header) sig key t. ''Bearer SA.UA.Uw'' = ''Bearer '' @ p0 @ ''.'' @ p1 @ ''.'' @ p2 \<and>
     signed_by toy_crypto (jh_alg h) key (p0 @ ''.'' @ p1) sig \<and> published toy_crypto ([] @ [toy_request]) t (jh_kid h) key"
proof -
  let ?c = "serve_all toy_crypto toy_config [] new_jwks_cache"
  obtain c where c: "authenticate toy_crypto toy_config (rq_readings toy_request) (rq_fetch toy_request) (rq_headers toy_request) ?c = (Inr ''acme'', c)"
    using toy_request_passes
    by (cases "authenticate toy_crypto toy_config (rq_readings toy_request) (rq_fetch toy_request) (rq_headers toy_request) ?c") auto
  have r: "toy_request = \<lparr>rq_readings = rq_readings toy_request, rq_fetch = rq_fetch toy_request, rq_headers = rq_headers toy_request\<rparr>" by simp
  have h: "header_get (rq_headers toy_request) ''Authorization'' = ''Bearer SA.UA.Uw''" by (simp add: toy_request_def header_get_def)
  show ?thesis using accepted_request_is_signed [OF r c, unfolded h] by (elim exE conjE) (intro exI conjI)
qed

end
