(* ===== verification/Bus.thy ===== *)
theory Bus
  imports Prelude
begin

section \<open>pkg/bus: the in-process bus and the router over buses\<close>

text \<open>
  Model of \<open>pkg/bus/inmemory.go\<close> and \<open>pkg/bus/dualbus.go\<close>. The bus is the list of its subscriptions, each with the name of
  its handler; a subscription is reached by its position. Publishing yields the handlers that are called, in
  their order: what a handler returns is ignored by the code. Kafka and NATS stay outside.
\<close>

record bus_message =
  bm_subject :: string
  bm_data :: string
  bm_headers :: "(string \<times> string) list"

record 'h mem_sub =
  su_subject :: string
  su_group :: string
  su_handler :: 'h
  su_closed :: bool

type_synonym 'h mem_bus = "'h mem_sub list"

subsection \<open>Subjects\<close>

fun match_tokens :: "string list \<Rightarrow> string list \<Rightarrow> bool" where
  "match_tokens [] ss = (ss = [])"
| "match_tokens (tok # ps) ss =
     (if tok = ''>'' then ss \<noteq> []
      else case ss of [] \<Rightarrow> False | s # ss' \<Rightarrow> if tok = ''*'' \<or> tok = s then match_tokens ps ss' else False)"

definition subject_match :: "string \<Rightarrow> string \<Rightarrow> bool" where
  "subject_match pattern subject \<longleftrightarrow>
     pattern = subject \<or> match_tokens (split_on (CHR ''.'') pattern) (split_on (CHR ''.'') subject)"

subsection \<open>Publishing and subscribing\<close>

definition matching_subs :: "'h mem_bus \<Rightarrow> string \<Rightarrow> 'h mem_sub list" where
  "matching_subs b subject = filter (\<lambda>s. \<not> su_closed s \<and> subject_match (su_subject s) subject) b"

fun deliver_subs :: "string list \<Rightarrow> 'h mem_sub list \<Rightarrow> 'h list" where
  "deliver_subs delivered [] = []"
| "deliver_subs delivered (s # ss) =
     (if su_group s = [] then su_handler s # deliver_subs delivered ss
      else if su_group s \<in> set delivered then deliver_subs delivered ss
      else su_handler s # deliver_subs (su_group s # delivered) ss)"

definition bus_publish :: "'h mem_bus \<Rightarrow> bus_message \<Rightarrow> 'h list" where
  "bus_publish b msg = deliver_subs [] (matching_subs b (bm_subject msg))"

definition bus_subscribe :: "string \<Rightarrow> string \<Rightarrow> 'h \<Rightarrow> 'h mem_bus \<Rightarrow> 'h mem_bus" where
  "bus_subscribe subject grp h b = b @ [\<lparr>su_subject = subject, su_group = grp, su_handler = h, su_closed = False\<rparr>]"

definition unsubscribe :: "nat \<Rightarrow> 'h mem_bus \<Rightarrow> 'h mem_bus" where
  "unsubscribe i b = (if i < length b then b[i := (b ! i)\<lparr>su_closed := True\<rparr>] else b)"

definition bus_close :: "'h mem_bus \<Rightarrow> 'h mem_bus" where
  "bus_close b = []"

text \<open>The router: the first route whose prefix fits, or the default.\<close>

fun route_to :: "(string \<times> 'b) list \<Rightarrow> 'b option \<Rightarrow> string \<Rightarrow> string + 'b" where
  "route_to [] dflt subject = (case dflt of None \<Rightarrow> Inl (''bus: no route for subject '' @ subject) | Some b \<Rightarrow> Inr b)"
| "route_to ((p, b) # rs) dflt subject = (if has_prefix subject p then Inr b else route_to rs dflt subject)"

subsection \<open>Properties\<close>

lemma match_tokens_nth:
  "match_tokens ps ss \<longleftrightarrow>
     (\<exists>i < length ps. ps ! i = ''>'' \<and> i < length ss \<and> (\<forall>j < i. ps ! j = ''*'' \<or> ps ! j = ss ! j) \<and> (\<forall>j < i. ps ! j \<noteq> ''>'')) \<or>
     (length ps = length ss \<and> (\<forall>j < length ps. ps ! j \<noteq> ''>'' \<and> (ps ! j = ''*'' \<or> ps ! j = ss ! j)))"
proof (induction ps arbitrary: ss)
  case (Cons tok ps)
  show ?case
  proof (cases "tok = ''>''")
    case True
    then show ?thesis by (cases ss) (auto intro!: exI [of _ 0])
  next
    case False
    show ?thesis
    proof (cases ss)
      case (Cons s ss')
      show ?thesis
        using False Cons.IH [of ss']
        by (simp add: Cons All_less_Suc2 Ex_less_Suc2)
    qed (use False in \<open>auto simp: nth_Cons split: nat.splits\<close>)
  qed
qed simp

text \<open>The subscription at a position gets the message: it is open, it matches, and no earlier one of its group does.\<close>

definition receives :: "'h mem_bus \<Rightarrow> string \<Rightarrow> nat \<Rightarrow> bool" where
  "receives b subject i \<longleftrightarrow>
     \<not> su_closed (b ! i) \<and> subject_match (su_subject (b ! i)) subject \<and>
     (su_group (b ! i) = [] \<or>
      (\<forall>j < i. su_group (b ! j) = su_group (b ! i) \<longrightarrow> su_closed (b ! j) \<or> \<not> subject_match (su_subject (b ! j)) subject))"

lemma deliver_subs_snoc:
  "deliver_subs del (ss @ [s]) = deliver_subs del ss @
     (if su_group s = [] \<or> su_group s \<notin> set del \<union> su_group ` set ss then [su_handler s] else [])"
  by (induction ss arbitrary: del) auto

lemma filter_upt_cong: "(\<And>i. i < n \<Longrightarrow> P i = Q i) \<Longrightarrow> filter P [0..<n] = filter Q [0..<n]"
  by (rule filter_cong) auto

text \<open>
  Publishing calls, in the order of subscription, every open subscription without a group whose pattern matches the
  subject, and of every group the first one that does.
\<close>

theorem publish_reaches:
  "bus_publish b msg = map (\<lambda>i. su_handler (b ! i)) (filter (receives b (bm_subject msg)) [0..<length b])"
  unfolding bus_publish_def matching_subs_def
proof (induction b rule: rev_induct)
  case (snoc s b)
  let ?m = "bm_subject msg"
  have "receives (b @ [s]) ?m i = receives b ?m i" if "i < length b" for i
    using that by (auto simp: receives_def nth_append)
  then have "filter (receives (b @ [s]) ?m) [0..<length b] = filter (receives b ?m) [0..<length b]"
    by (rule filter_upt_cong)
  moreover have "receives (b @ [s]) ?m (length b) \<longleftrightarrow>
      \<not> su_closed s \<and> subject_match (su_subject s) ?m \<and>
      (su_group s = [] \<or> su_group s \<notin> su_group ` set (filter (\<lambda>s. \<not> su_closed s \<and> subject_match (su_subject s) ?m) b))"
  proof -
    let ?P = "\<lambda>x. \<not> su_closed x \<and> subject_match (su_subject x) ?m"
    have "su_group s \<notin> su_group ` set (filter ?P b) \<longleftrightarrow> (\<forall>x \<in> set b. ?P x \<longrightarrow> su_group x \<noteq> su_group s)" by (auto simp: image_iff)
    also have "\<dots> \<longleftrightarrow> (\<forall>j < length b. ?P (b ! j) \<longrightarrow> su_group (b ! j) \<noteq> su_group s)" by (rule all_set_conv_all_nth)
    finally show ?thesis by (auto simp: receives_def nth_append)
  qed
  moreover have "map (\<lambda>i. su_handler ((b @ [s]) ! i)) (filter (receives b ?m) [0..<length b]) =
      map (\<lambda>i. su_handler (b ! i)) (filter (receives b ?m) [0..<length b])"
    by (auto simp: nth_append)
  ultimately show ?case using snoc.IH by (simp add: deliver_subs_snoc)
qed simp

end
