(* ===== verification/Metering.thy ===== *)
theory Metering
  imports Bus GoJson Http
begin

section \<open>metering-service: counting what is billed\<close>

text \<open>
  Model of \<open>services/metering-service\<close>: the consumer (\<open>internal/consumer\<close>), which buffers increments and flushes them, the
  daily counters (\<open>internal/store\<close>) and the two routes (\<open>internal/server\<close>). The buffer is a map from tenant and
  metric to a count. An increment of the store answers with the day it was booked on, or with an error and no
  effect. A flush holds no lock while it writes: besides the sequential functions there is a step relation in
  which messages and several flushes interleave. The counters of the database are unbounded.
\<close>

type_synonym meter_key = "string \<times> string"
type_synonym meter_buf = "(meter_key \<times> int) list"
type_synonym meters = "((string \<times> string \<times> string) \<times> int) list"

subsection \<open>The counters\<close>

definition counter :: "meters \<Rightarrow> string \<times> string \<times> string \<Rightarrow> int" where
  "counter db key = (case map_of db key of None \<Rightarrow> 0 | Some n \<Rightarrow> n)"

definition store_increment :: "string \<Rightarrow> meter_key \<Rightarrow> int \<Rightarrow> meters \<Rightarrow> meters" where
  "store_increment day k n db =
     (case k of (tenant, metric) \<Rightarrow> AList.update (tenant, metric, day) (counter db (tenant, metric, day) + n) db)"

definition store_day :: "string \<Rightarrow> string \<Rightarrow> string \<Rightarrow> meters \<Rightarrow> int" where
  "store_day tenant metric day db = counter db (tenant, metric, day)"

definition store_range :: "string \<Rightarrow> string \<Rightarrow> string \<Rightarrow> string \<Rightarrow> meters \<Rightarrow> (string \<times> int) list" where
  "store_range tenant metric from to db =
     map (\<lambda>((t, m, d), n). (d, n)) (filter (\<lambda>((t, m, d), n). t = tenant \<and> m = metric \<and> from \<le> d \<and> d \<le> to) db)"

definition get_metering :: "string \<Rightarrow> string \<Rightarrow> string \<Rightarrow> string \<Rightarrow> meters \<Rightarrow> problem + (string \<times> int) list" where
  "get_metering tenant metric from to db =
     (if metric = [] \<or> from = [] \<or> to = [] then Inl (bad_request ''metric, from, to are required'')
      else Inr (store_range tenant metric from to db))"

text \<open>The body of a manual bump, None when it does not decode; \<open>answer\<close> is what the store answers.\<close>

definition post_bump :: "string \<Rightarrow> (string \<times> string \<times> int) option \<Rightarrow> string + string \<Rightarrow> meters \<Rightarrow> (problem + unit) \<times> meters" where
  "post_bump role body answer db =
     (if role \<noteq> ''platform-admin'' then (Inl (forbidden ''admin role required''), db)
      else case body of
        None \<Rightarrow> (Inl (bad_request ''invalid JSON or count <= 0''), db)
      | Some (tenant, metric, n) \<Rightarrow>
          if n \<le> 0 then (Inl (bad_request ''invalid JSON or count <= 0''), db)
          else if tenant = [] \<or> metric = [] then (Inl (bad_request ''tenant and metric required''), db)
          else case answer of
            Inl e \<Rightarrow> (Inl (internal e), db)
          | Inr day \<Rightarrow> (Inr (), store_increment day (tenant, metric) n db))"

subsection \<open>Messages\<close>

record meter_sub =
  ms_subject :: string
  ms_metric :: string
  ms_token_field :: string
  ms_queue :: string

definition meter_subscriptions :: "meter_sub list" where
  "meter_subscriptions =
     [\<lparr>ms_subject = ''events.v1'', ms_metric = ''events'', ms_token_field = [], ms_queue = []\<rparr>,
      \<lparr>ms_subject = ''detections.v1'', ms_metric = ''detections'', ms_token_field = [], ms_queue = []\<rparr>,
      \<lparr>ms_subject = ''inference.completed.v1'', ms_metric = ''inferences'', ms_token_field = [], ms_queue = []\<rparr>,
      \<lparr>ms_subject = ''learning.labeled.v1'', ms_metric = ''annotations'', ms_token_field = [], ms_queue = []\<rparr>,
      \<lparr>ms_subject = ''llm.completed.v1'', ms_metric = ''llm_tokens'', ms_token_field = ''total_tokens'', ms_queue = []\<rparr>]"

text \<open>The decoder of JSON and the out-of-range conversion to int64.\<close>

record decoding =
  de_json :: "string \<Rightarrow> json_value option"
  de_huge :: "fl \<Rightarrow> int"

definition message_count :: "decoding \<Rightarrow> meter_sub \<Rightarrow> bus_message \<Rightarrow> int" where
  "message_count de s msg =
     (if ms_token_field s = [] then 1
      else case Option.bind (de_json de (bm_data msg)) json_object of
        None \<Rightarrow> 1
      | Some body \<Rightarrow> (case json_member body (ms_token_field s) of Some (JNumber x) \<Rightarrow> int64_of (de_huge de) x | _ \<Rightarrow> 1))"

text \<open>What a message adds to the bill, if anything.\<close>

definition billable :: "decoding \<Rightarrow> meter_sub \<Rightarrow> bus_message \<Rightarrow> (meter_key \<times> int) option" where
  "billable de s msg =
     (let tenant = header_get (bm_headers msg) ''tenant_id''; n = message_count de s msg in
      if tenant = [] then None else if n \<le> 0 then None else Some ((tenant, ms_metric s), n))"

subsection \<open>The buffer and its flush\<close>

definition amount :: "meter_buf \<Rightarrow> meter_key \<Rightarrow> int" where
  "amount buf k = (case map_of buf k of None \<Rightarrow> 0 | Some n \<Rightarrow> n)"

definition bump_buf :: "meter_key \<Rightarrow> int \<Rightarrow> meter_buf \<Rightarrow> meter_buf" where
  "bump_buf k n buf = AList.update k (i64 (amount buf k + n)) buf"

text \<open>The loop over the drained entries, in the order of the range; \<open>ans\<close> is what the store answers to each key.\<close>

fun flush_loop :: "(string \<Rightarrow> meter_key \<Rightarrow> int \<Rightarrow> 'd \<Rightarrow> 'd) \<Rightarrow> (meter_key \<Rightarrow> string + string) \<Rightarrow> meter_buf \<Rightarrow> meter_buf \<Rightarrow> 'd \<Rightarrow>
    string option \<times> meter_buf \<times> 'd" where
  "flush_loop inc ans [] buf db = (None, buf, db)"
| "flush_loop inc ans ((k, n) # drain) buf db =
     (case ans k of
        Inl e \<Rightarrow> (Some e, bump_buf k n buf, db)
      | Inr day \<Rightarrow> flush_loop inc ans drain buf (inc day k n db))"

definition flush :: "(string \<Rightarrow> meter_key \<Rightarrow> int \<Rightarrow> 'd \<Rightarrow> 'd) \<Rightarrow> (meter_buf \<Rightarrow> meter_buf) \<Rightarrow> (meter_key \<Rightarrow> string + string) \<Rightarrow>
    meter_buf \<times> 'd \<Rightarrow> string option \<times> meter_buf \<times> 'd" where
  "flush inc rng ans bd = (case bd of (buf, db) \<Rightarrow> if buf = [] then (None, buf, db) else flush_loop inc ans (rng buf) [] db)"

definition bump :: "(string \<Rightarrow> meter_key \<Rightarrow> int \<Rightarrow> 'd \<Rightarrow> 'd) \<Rightarrow> (meter_buf \<Rightarrow> meter_buf) \<Rightarrow> (meter_key \<Rightarrow> string + string) \<Rightarrow> int \<Rightarrow>
    meter_key \<Rightarrow> int \<Rightarrow> meter_buf \<times> 'd \<Rightarrow> meter_buf \<times> 'd" where
  "bump inc rng ans max_buffered k n bd =
     (case bd of (buf, db) \<Rightarrow>
       let buf1 = bump_buf k n buf in
       if int (length buf1) > max_buffered then snd (flush inc rng ans (buf1, db)) else (buf1, db))"

definition handle :: "decoding \<Rightarrow> (string \<Rightarrow> meter_key \<Rightarrow> int \<Rightarrow> 'd \<Rightarrow> 'd) \<Rightarrow> (meter_buf \<Rightarrow> meter_buf) \<Rightarrow> (meter_key \<Rightarrow> string + string) \<Rightarrow> int \<Rightarrow>
    meter_sub \<Rightarrow> bus_message \<Rightarrow> meter_buf \<times> 'd \<Rightarrow> meter_buf \<times> 'd" where
  "handle de inc rng ans max_buffered s msg bd =
     (case billable de s msg of None \<Rightarrow> bd | Some (k, n) \<Rightarrow> bump inc rng ans max_buffered k n bd)"

text \<open>Start, on the in-process bus: every subscription in the queue group of the metering replicas.\<close>

definition consumer_start :: "meter_sub list \<Rightarrow> (meter_sub \<Rightarrow> 'h) \<Rightarrow> 'h mem_bus \<Rightarrow> 'h mem_bus" where
  "consumer_start subs h b =
     foldl (\<lambda>b s. bus_subscribe (ms_subject s) (if ms_queue s = [] then ''metering'' else ms_queue s) (h s) b) b subs"

text \<open>Close: the subscriptions are drained, then the buffer is flushed.\<close>

definition consumer_close :: "(string \<Rightarrow> meter_key \<Rightarrow> int \<Rightarrow> 'd \<Rightarrow> 'd) \<Rightarrow> (meter_buf \<Rightarrow> meter_buf) \<Rightarrow> (meter_key \<Rightarrow> string + string) \<Rightarrow>
    nat list \<Rightarrow> 'h mem_bus \<Rightarrow> meter_buf \<times> 'd \<Rightarrow> 'h mem_bus \<times> string option \<times> meter_buf \<times> 'd" where
  "consumer_close inc rng ans subs b bd = (foldl (\<lambda>b i. unsubscribe i b) b subs, flush inc rng ans bd)"

subsection \<open>Interleavings\<close>

text \<open>
  The steps between two releases of the lock: a message is added to the buffer, a flush takes the buffer out, a flush
  writes its next entry, a refused entry goes back and ends its flush. The flushes in flight are the lists of the
  entries they still have to write.
\<close>

record 'd metering =
  my_buf :: meter_buf
  my_flights :: "meter_buf list"
  my_db :: 'd

datatype meter_event = Received meter_sub bus_message | FlushStarts meter_buf | Stored nat string | Refused nat

inductive meter_step :: "decoding \<Rightarrow> (string \<Rightarrow> meter_key \<Rightarrow> int \<Rightarrow> 'd \<Rightarrow> 'd) \<Rightarrow> meter_event \<Rightarrow> 'd metering \<Rightarrow> 'd metering \<Rightarrow> bool"
  for de inc where
  received: "meter_step de inc (Received s msg) y
      (case billable de s msg of None \<Rightarrow> y | Some (k, n) \<Rightarrow> y\<lparr>my_buf := bump_buf k n (my_buf y)\<rparr>)"
| flush_starts: "my_buf y \<noteq> [] \<Longrightarrow> mset drain = mset (my_buf y) \<Longrightarrow>
    meter_step de inc (FlushStarts drain) y (y\<lparr>my_buf := [], my_flights := my_flights y @ [drain]\<rparr>)"
| stored: "i < length (my_flights y) \<Longrightarrow> my_flights y ! i = (k, n) # drain \<Longrightarrow>
    meter_step de inc (Stored i day) y (y\<lparr>my_flights := (my_flights y)[i := drain], my_db := inc day k n (my_db y)\<rparr>)"
| refused: "i < length (my_flights y) \<Longrightarrow> my_flights y ! i = (k, n) # drain \<Longrightarrow>
    meter_step de inc (Refused i) y (y\<lparr>my_flights := (my_flights y)[i := []], my_buf := bump_buf k n (my_buf y)\<rparr>)"

inductive_cases meter_stepE: "meter_step de inc e y y'"

inductive meter_run :: "decoding \<Rightarrow> (string \<Rightarrow> meter_key \<Rightarrow> int \<Rightarrow> 'd \<Rightarrow> 'd) \<Rightarrow> meter_event list \<Rightarrow> 'd metering \<Rightarrow> 'd metering \<Rightarrow> bool"
  for de inc where
  none: "meter_run de inc [] y y"
| more: "meter_run de inc es y y' \<Longrightarrow> meter_step de inc e y' y'' \<Longrightarrow> meter_run de inc (es @ [e]) y y''"

lemma meter_run_Cons:
  assumes "meter_run de inc es y' y''" "meter_step de inc e y y'"
  shows "meter_run de inc (e # es) y y''"
  using assms
proof (induction rule: meter_run.induct)
  case (none y')
  then show ?case using meter_run.more [OF meter_run.none, of de inc e y y'] by simp
next
  case (more es y' z e' z')
  then show ?case using meter_run.more [of de inc "e # es" y z e' z'] by simp
qed

text \<open>What the messages of a run owe under a key.\<close>

definition event_amount :: "decoding \<Rightarrow> meter_key \<Rightarrow> meter_event \<Rightarrow> int" where
  "event_amount de k e =
     (case e of Received s msg \<Rightarrow> (case billable de s msg of Some (k', n) \<Rightarrow> if k' = k then n else 0 | None \<Rightarrow> 0) | _ \<Rightarrow> 0)"

definition usage :: "decoding \<Rightarrow> meter_event list \<Rightarrow> meter_key \<Rightarrow> int" where
  "usage de es k = sum_list (map (event_amount de k) es)"

definition owed :: "meter_buf \<Rightarrow> meter_key \<Rightarrow> int" where
  "owed drain k = sum_list (map (\<lambda>(k', n). if k' = k then n else 0) drain)"

definition in_flight :: "meter_buf list \<Rightarrow> meter_key \<Rightarrow> int" where
  "in_flight fs k = sum_list (map (\<lambda>drain. owed drain k) fs)"

lemma owed_simps [simp]: "owed [] k = 0" "owed ((k', n) # drain) k = (if k' = k then n else 0) + owed drain k"
  by (simp_all add: owed_def)

lemma mset_sum_list:
  assumes "mset xs = mset ys"
  shows "sum_list (map f xs) = sum_list (map (f :: 'a \<Rightarrow> int) ys)"
proof -
  have "mset (map f xs) = mset (map f ys)" using assms by simp
  then show ?thesis by (simp only: sum_mset_sum_list [symmetric])
qed

lemma owed_perm: "mset drain = mset buf \<Longrightarrow> owed drain k = owed buf k"
  unfolding owed_def by (rule mset_sum_list)

lemma owed_distinct: "distinct (map fst buf) \<Longrightarrow> owed buf k = amount buf k"
proof (induction buf)
  case (Cons p buf)
  obtain k' n where p: "p = (k', n)" by (cases p)
  have "amount buf k = 0" if "k \<notin> fst ` set buf"
  proof -
    have "map_of buf k = None" using that by (simp add: map_of_eq_None_iff)
    then show ?thesis by (simp add: amount_def)
  qed
  then show ?case using Cons p by (auto simp: amount_def)
qed (simp add: amount_def)

lemma in_flight_simps [simp]: "in_flight [] k = 0" "in_flight (fs @ [drain]) k = in_flight fs k + owed drain k"
  by (simp_all add: in_flight_def)

lemma in_flight_update: "i < length fs \<Longrightarrow> in_flight (fs[i := drain]) k = in_flight fs k - owed (fs ! i) k + owed drain k"
  by (induction fs arbitrary: i) (auto simp: in_flight_def split: nat.splits)

lemma amount_bump: "amount (bump_buf k n buf) k' = (if k' = k then i64 (amount buf k + n) else amount buf k')"
  by (simp add: amount_def bump_buf_def)

lemma distinct_bump: "distinct (map fst buf) \<Longrightarrow> distinct (map fst (bump_buf k n buf))"
  by (simp add: bump_buf_def distinct_update)

lemma usage_snoc [simp]: "usage de (es @ [e]) k = usage de es k + event_amount de k e"
  by (simp add: usage_def)

lemma usage_Nil [simp]: "usage de [] k = 0"
  by (simp add: usage_def)

lemma billable_pos: "billable de s msg = Some (k, n) \<Longrightarrow> 0 < n"
  by (auto simp: billable_def Let_def split: if_splits)

lemma event_amount_nonneg: "0 \<le> event_amount de k e"
  by (auto simp: event_amount_def dest: billable_pos split: meter_event.split option.split intro: less_imp_le)

definition nonneg :: "meter_buf \<Rightarrow> bool" where
  "nonneg buf \<longleftrightarrow> (\<forall>(k, n) \<in> set buf. 0 \<le> n)"

lemma nonneg_simps [simp]: "nonneg []" "nonneg ((k, n) # buf) \<longleftrightarrow> 0 \<le> n \<and> nonneg buf"
  by (auto simp: nonneg_def)

lemma nonneg_perm: "mset drain = mset buf \<Longrightarrow> nonneg drain = nonneg buf"
  unfolding nonneg_def by (metis mset_eq_setD)

lemma owed_nonneg: "nonneg buf \<Longrightarrow> 0 \<le> owed buf k"
  by (induction buf) (auto simp: split: if_splits)

lemma amount_nonneg: "nonneg buf \<Longrightarrow> 0 \<le> amount buf k"
  by (auto simp: amount_def nonneg_def split: option.split dest!: map_of_SomeD)

lemma nonneg_update: "nonneg buf \<Longrightarrow> 0 \<le> v \<Longrightarrow> nonneg (AList.update k v buf)"
  by (induction buf) auto

lemma in_flight_nonneg: "(\<forall>drain \<in> set fs. nonneg drain) \<Longrightarrow> 0 \<le> in_flight fs k"
  by (induction fs) (auto simp: in_flight_def intro!: add_nonneg_nonneg owed_nonneg)

lemma in_flight_member: "(\<forall>drain \<in> set fs. nonneg drain) \<Longrightarrow> i < length fs \<Longrightarrow> owed (fs ! i) k \<le> in_flight fs k"
proof (induction fs arbitrary: i)
  case (Cons f fs)
  have "0 \<le> in_flight fs k" "0 \<le> owed f k" using Cons.prems(1) in_flight_nonneg owed_nonneg by auto
  then show ?case using Cons.IH [of "i - 1"] Cons.prems by (cases i) (force simp: in_flight_def)+
qed simp

definition meter_inv :: "'d metering \<Rightarrow> bool" where
  "meter_inv y \<longleftrightarrow> distinct (map fst (my_buf y)) \<and> nonneg (my_buf y) \<and> (\<forall>drain \<in> set (my_flights y). nonneg drain)"

text \<open>What the buffer and the flushes in flight hold of a key.\<close>

definition pending :: "'d metering \<Rightarrow> meter_key \<Rightarrow> int" where
  "pending y k = amount (my_buf y) k + in_flight (my_flights y) k"

lemma pending_nonneg: "meter_inv y \<Longrightarrow> 0 \<le> pending y k"
  by (simp add: meter_inv_def pending_def amount_nonneg in_flight_nonneg)

lemma bump_inv:
  assumes "distinct (map fst buf)" "nonneg buf" "0 \<le> n" "amount buf k + n < 2 ^ 63"
  shows "distinct (map fst (bump_buf k n buf)) \<and> nonneg (bump_buf k n buf) \<and>
    amount (bump_buf k n buf) k' = amount buf k' + (if k' = k then n else 0)"
proof -
  have "in_i64 (amount buf k + n)" using assms(3,4) amount_nonneg [OF assms(2), of k] by (simp add: in_i64_def)
  then have "i64 (amount buf k + n) = amount buf k + n" "0 \<le> amount buf k + n"
    using assms(3) amount_nonneg [OF assms(2), of k] by simp_all
  then show ?thesis using assms(1,2) distinct_bump nonneg_update by (auto simp: amount_bump) (simp add: bump_buf_def nonneg_update)
qed

subsection \<open>The interface of the store\<close>

locale incrementer =
  fixes inc :: "string \<Rightarrow> meter_key \<Rightarrow> int \<Rightarrow> 'd \<Rightarrow> 'd" and total :: "'d \<Rightarrow> meter_key \<Rightarrow> int"
  assumes inc_total: "total (inc day k n d) k' = total d k' + (if k' = k then n else 0)"
begin

lemma step_accounts:
  assumes "meter_step de inc e y y'" "meter_inv y"
    and "\<And>k. pending y k + event_amount de k e < 2 ^ 63"
  shows "meter_inv y' \<and> total (my_db y) k \<le> total (my_db y') k \<and>
    total (my_db y') k + pending y' k \<le> total (my_db y) k + pending y k + event_amount de k e \<and>
    ((\<forall>i. e \<noteq> Refused i) \<longrightarrow> total (my_db y') k + pending y' k = total (my_db y) k + pending y k + event_amount de k e)"
  using assms(1)
proof (cases rule: meter_step.cases)
  case (received s msg)
  show ?thesis
  proof (cases "billable de s msg")
    case None
    then show ?thesis using received assms(2) by (simp add: event_amount_def)
  next
    case (Some p)
    obtain k' n where p: "p = (k', n)" by (cases p)
    have n: "0 \<le> n" using billable_pos [OF Some [unfolded p]] by simp
    have "amount (my_buf y) k' + n < 2 ^ 63"
      using assms(3) [of k'] in_flight_nonneg [of "my_flights y" k'] assms(2) Some p received(1)
      by (simp add: event_amount_def pending_def meter_inv_def)
    from bump_inv [OF _ _ n this] show ?thesis
      using received Some p assms(2) by (simp add: meter_inv_def pending_def event_amount_def)
  qed
next
  case (flush_starts drain)
  then show ?thesis
    using assms(2) owed_perm [of drain "my_buf y" k] owed_distinct [of "my_buf y" k] nonneg_perm [of drain "my_buf y"]
    by (auto simp: meter_inv_def pending_def event_amount_def amount_def)
next
  case (stored i k' n drain day)
  have "nonneg ((k', n) # drain)" using assms(2) stored(3,4) by (auto simp: meter_inv_def dest!: nth_mem)
  then have n: "0 \<le> n" "nonneg drain" by simp_all
  have inv: "meter_inv y'" using stored(2) assms(2) n by (auto simp: meter_inv_def dest!: set_update_subset_insert [THEN subsetD])
  then show ?thesis using stored n by (simp add: pending_def event_amount_def inc_total in_flight_update)
next
  case (refused i k' n drain)
  have nn: "nonneg ((k', n) # drain)" using assms(2) refused(3,4) by (auto simp: meter_inv_def dest!: nth_mem)
  then have n: "0 \<le> n" and d: "0 \<le> owed drain k" for k by (simp_all add: owed_nonneg)
  have "owed ((k', n) # drain) k' \<le> in_flight (my_flights y) k'"
    using in_flight_member [OF _ refused(3), of k'] refused(4) assms(2) by (simp add: meter_inv_def)
  then have "amount (my_buf y) k' + n < 2 ^ 63" using assms(3) [of k'] d [of k'] refused(1) by (simp add: pending_def event_amount_def)
  from bump_inv [OF _ _ n this] have b: "distinct (map fst (bump_buf k' n (my_buf y)))" "nonneg (bump_buf k' n (my_buf y))"
    "amount (bump_buf k' n (my_buf y)) k = amount (my_buf y) k + (if k = k' then n else 0)"
    using assms(2) by (auto simp: meter_inv_def)
  have "meter_inv y'" using refused(2) assms(2) b by (auto simp: meter_inv_def dest!: set_update_subset_insert [THEN subsetD])
  then show ?thesis using refused d [of k] d [of k'] b(3) by (simp add: pending_def event_amount_def in_flight_update)
qed

lemma run_accounts:
  assumes "meter_run de inc es y y'" "my_buf y = []" "my_flights y = []" "\<And>k. usage de es k < 2 ^ 63"
  shows "meter_inv y' \<and> total (my_db y) k \<le> total (my_db y') k \<and>
    total (my_db y') k + pending y' k \<le> total (my_db y) k + usage de es k \<and>
    ((\<forall>i. Refused i \<notin> set es) \<longrightarrow> total (my_db y') k + pending y' k = total (my_db y) k + usage de es k)"
  using assms
proof (induction arbitrary: k rule: meter_run.induct)
  case (none y)
  then show ?case by (simp add: meter_inv_def pending_def amount_def)
next
  case (more es y y' e y'')
  have u: "usage de es k < 2 ^ 63" for k using more.prems(3) [of k] event_amount_nonneg [of de k e] by simp
  note ih = more.IH [OF more.prems(1,2) u]
  have "pending y' k + event_amount de k e < 2 ^ 63" for k using ih [of k] more.prems(3) [of k] by simp
  from step_accounts [OF more.hyps(2) _ this, of k] ih [of k] show ?case by auto
qed

end

text \<open>What the store holds of a tenant's metric, over all days.\<close>

definition billed :: "meters \<Rightarrow> meter_key \<Rightarrow> int" where
  "billed db k = sum_list (map (\<lambda>((t, m, d), n). if (t, m) = k then n else 0) db)"

lemma billed_update:
  "billed (AList.update (t, m, d) v db) k = billed db k + (if k = (t, m) then v - counter db (t, m, d) else 0)"
  by (induction db) (auto simp: billed_def counter_def)

interpretation mt: incrementer store_increment billed
  by unfold_locales (simp add: store_increment_def billed_update split: prod.split)

subsection \<open>A flush in one go\<close>

lemma flush_loop_runs:
  "flush_loop inc ans drain buf db = (err, buf', db') \<Longrightarrow>
   \<exists>es. meter_run de inc es \<lparr>my_buf = buf, my_flights = fs @ [drain], my_db = db\<rparr> \<lparr>my_buf = buf', my_flights = fs @ [[]], my_db = db'\<rparr>"
proof (induction drain arbitrary: buf db)
  case Nil
  then show ?case by (auto intro: meter_run.none)
next
  case (Cons p drain)
  obtain k n where p: "p = (k, n)" by (cases p)
  let ?y = "\<lparr>my_buf = buf, my_flights = fs @ [p # drain], my_db = db\<rparr>"
  have i: "length fs < length (my_flights ?y)" "my_flights ?y ! length fs = (k, n) # drain" using p by simp_all
  show ?case
  proof (cases "ans k")
    case (Inl e)
    then have r: "buf' = bump_buf k n buf" "db' = db" using Cons.prems p by simp_all
    have "meter_step de inc (Refused (length fs)) ?y \<lparr>my_buf = buf', my_flights = fs @ [[]], my_db = db'\<rparr>"
      using meter_step.refused [OF i, of de inc] by (simp add: r)
    then show ?thesis using meter_run.more [OF meter_run.none] by (metis append_Nil)
  next
    case (Inr day)
    then have "flush_loop inc ans drain buf (inc day k n db) = (err, buf', db')" using Cons.prems p by simp
    from Cons.IH [OF this] obtain es where run:
      "meter_run de inc es \<lparr>my_buf = buf, my_flights = fs @ [drain], my_db = inc day k n db\<rparr> \<lparr>my_buf = buf', my_flights = fs @ [[]], my_db = db'\<rparr>"
      by blast
    have "meter_step de inc (Stored (length fs) day) ?y \<lparr>my_buf = buf, my_flights = fs @ [drain], my_db = inc day k n db\<rparr>"
      using meter_step.stored [OF i, of de inc day] by simp
    from meter_run_Cons [OF run this] show ?thesis by blast
  qed
qed

lemma flush_runs:
  assumes "flush inc rng ans (buf, db) = (err, buf', db')" "mset (rng buf) = mset buf"
  shows "\<exists>es fs'. meter_run de inc es \<lparr>my_buf = buf, my_flights = fs, my_db = db\<rparr> \<lparr>my_buf = buf', my_flights = fs', my_db = db'\<rparr> \<and>
    (\<forall>k. in_flight fs' k = in_flight fs k)"
proof (cases "buf = []")
  case True
  then have "buf' = buf" "db' = db" using assms(1) by (simp_all add: flush_def)
  then show ?thesis using meter_run.none by (intro exI [of _ "[]"] exI [of _ fs]) simp
next
  case False
  then have l: "flush_loop inc ans (rng buf) [] db = (err, buf', db')" using assms(1) by (simp add: flush_def)
  obtain es where run: "meter_run de inc es \<lparr>my_buf = [], my_flights = fs @ [rng buf], my_db = db\<rparr> \<lparr>my_buf = buf', my_flights = fs @ [[]], my_db = db'\<rparr>"
    using flush_loop_runs [OF l] by blast
  have "meter_step de inc (FlushStarts (rng buf)) \<lparr>my_buf = buf, my_flights = fs, my_db = db\<rparr> \<lparr>my_buf = [], my_flights = fs @ [rng buf], my_db = db\<rparr>"
    using meter_step.flush_starts [of "\<lparr>my_buf = buf, my_flights = fs, my_db = db\<rparr>" "rng buf" de inc] False assms(2) by simp
  from meter_run_Cons [OF run this] show ?thesis by (auto intro!: exI [of _ "fs @ [[]]"])
qed

lemma flush_loop_error:
  "flush_loop store_increment ans drain buf db = (Some e, buf', db') \<Longrightarrow>
   \<exists>pre k n rest. drain = pre @ (k, n) # rest \<and> ans k = Inl e \<and> buf' = bump_buf k n buf \<and>
     (\<forall>k'. billed db' k' = billed db k' + owed pre k')"
proof (induction drain arbitrary: db)
  case (Cons p drain)
  obtain k n where p: "p = (k, n)" by (cases p)
  show ?case
  proof (cases "ans k")
    case (Inl e')
    then show ?thesis using Cons.prems p by (intro exI [of _ "[]"]) auto
  next
    case (Inr day)
    then have "flush_loop store_increment ans drain buf (store_increment day k n db) = (Some e, buf', db')" using Cons.prems p by simp
    from Cons.IH [OF this] obtain pre k' n' rest where "drain = pre @ (k', n') # rest" "ans k' = Inl e" "buf' = bump_buf k' n' buf"
      "\<And>k''. billed db' k'' = billed (store_increment day k n db) k'' + owed pre k''" by blast
    then show ?thesis using p mt.inc_total [of day k n db] by (intro exI [of _ "p # pre"]) auto
  qed
qed simp

subsection \<open>Properties\<close>

text \<open>
  C14: However messages and flushes interleave, no tenant is billed for more of a metric than its messages owe: what the
  store gained and what is still to be written stay within the usage, and make it up exactly as long as the store has
  refused no increment.
\<close>

theorem usage_is_never_overbilled:
  assumes "meter_run de store_increment es \<lparr>my_buf = [], my_flights = [], my_db = db\<rparr> y" "\<forall>k. usage de es k < 2 ^ 63"
  shows "billed db k \<le> billed (my_db y) k \<and> 0 \<le> pending y k \<and> billed (my_db y) k + pending y k \<le> billed db k + usage de es k \<and>
    ((\<forall>i. Refused i \<notin> set es) \<longrightarrow> billed (my_db y) k + pending y k = billed db k + usage de es k)"
proof -
  have "usage de es k' < 2 ^ 63" for k' using assms(2) by (rule spec)
  from mt.run_accounts [OF assms(1) _ _ this, of k] pending_nonneg [of y k] show ?thesis by simp
qed

text \<open>
  When the store refuses an increment, the flush puts that one entry back and forgets the entries it had not reached:
  they are neither in the store nor in the buffer.
\<close>

theorem refused_increment_drops_the_rest:
  assumes "flush store_increment rng ans (buf, db) = (Some e, buf', db')" "\<forall>(k, n) \<in> set (rng buf). in_i64 n"
  shows "\<exists>pre k n rest. rng buf = pre @ (k, n) # rest \<and> ans k = Inl e \<and> buf' = [(k, n)] \<and>
    (\<forall>k'. billed db' k' + amount buf' k' = billed db k' + owed (rng buf) k' - owed rest k')"
proof -
  have "flush_loop store_increment ans (rng buf) [] db = (Some e, buf', db')"
    using assms(1) by (simp add: flush_def split: if_splits)
  from flush_loop_error [OF this] obtain pre k n rest where r: "rng buf = pre @ (k, n) # rest" "ans k = Inl e" "buf' = bump_buf k n []"
    "\<And>k'. billed db' k' = billed db k' + owed pre k'" by blast
  have buf': "buf' = [(k, n)]" using r(1,3) assms(2) by (simp add: bump_buf_def amount_def)
  have "owed (rng buf) k' = owed pre k' + (if k = k' then n else 0) + owed rest k'" for k'
    by (simp add: r(1) owed_def)
  then have "\<forall>k'. billed db' k' + amount buf' k' = billed db k' + owed (rng buf) k' - owed rest k'"
    by (simp add: r(4) buf' amount_def)
  with r(1,2) buf' show ?thesis by blast
qed

subsection \<open>Over the bus\<close>

lemma deliver_one_group:
  "g \<noteq> [] \<Longrightarrow> (\<forall>s \<in> set ss. su_group s = g) \<Longrightarrow> deliver_subs del ss = (if g \<in> set del then [] else case ss of [] \<Rightarrow> [] | s # _ \<Rightarrow> [su_handler s])"
  by (induction ss arbitrary: del) auto

lemma consumer_start_subs:
  "consumer_start subs h b = b @ map (\<lambda>s. \<lparr>su_subject = ms_subject s, su_group = (if ms_queue s = [] then ''metering'' else ms_queue s),
     su_handler = h s, su_closed = False\<rparr>) subs"
  by (induction subs arbitrary: b) (simp_all add: consumer_start_def bus_subscribe_def)

text \<open>With several replicas on the bus, a message reaches one of them, and there one subscription.\<close>

lemma replicas_share_messages:
  assumes "\<forall>s \<in> set subs. ms_queue s = []"
  shows "length (bus_publish (foldl (\<lambda>b r. consumer_start subs (\<lambda>s. (r, s)) b) [] rs) msg) \<le> 1"
proof -
  let ?b = "foldl (\<lambda>b r. consumer_start subs (\<lambda>s. (r, s)) b) [] rs"
  have "\<forall>s \<in> set ?b. su_group s = ''metering''"
  proof (induction rs rule: rev_induct)
    case (snoc r rs)
    then show ?case using assms by (auto simp: consumer_start_subs)
  qed simp
  then have "\<forall>s \<in> set (matching_subs ?b (bm_subject msg)). su_group s = ''metering''" by (simp add: matching_subs_def)
  then show ?thesis unfolding bus_publish_def by (subst deliver_one_group [of "''metering''"]) (auto split: list.split)
qed

lemma unreadable_usage_bills_one:
  assumes "de_json de (bm_data msg) = None" "header_get (bm_headers msg) ''tenant_id'' = t" "t \<noteq> []"
  shows "billable de (last meter_subscriptions) msg = Some ((t, ''llm_tokens''), 1)"
  using assms by (simp add: billable_def message_count_def meter_subscriptions_def Let_def)

lemma range_stays_in_tenant:
  "(d, n) \<in> set (store_range tenant metric from to db) \<longleftrightarrow> ((tenant, metric, d), n) \<in> set db \<and> from \<le> d \<and> d \<le> to"
  by (force simp: store_range_def)

subsection \<open>Witnesses\<close>

lemma usage_is_never_overbilled_witness:
  "\<exists>de es y. meter_run de store_increment es \<lparr>my_buf = [], my_flights = [], my_db = []\<rparr> y \<and> usage de es (''t'', ''events'') = 1 \<and>
     billed (my_db y) (''t'', ''events'') = 1"
proof -
  let ?de = "\<lparr>de_json = (\<lambda>_. None), de_huge = (\<lambda>_. 0)\<rparr>" and ?k = "(''t'', ''events'')"
  let ?msg = "\<lparr>bm_subject = ''events.v1'', bm_data = [], bm_headers = [(''tenant_id'', ''t'')]\<rparr>"
  let ?s = "\<lparr>ms_subject = ''events.v1'', ms_metric = ''events'', ms_token_field = [], ms_queue = []\<rparr>"
  let ?es = "[Received ?s ?msg, FlushStarts [(?k, 1)], Stored 0 ''2026-01-01'']"
  have b: "billable ?de ?s ?msg = Some (?k, 1)" by (simp add: billable_def message_count_def header_get_def)
  have one: "i64 1 = 1" by (simp add: i64_id in_i64_def)
  have 1: "meter_step ?de store_increment (Received ?s ?msg) \<lparr>my_buf = [], my_flights = [], my_db = []\<rparr> \<lparr>my_buf = [(?k, 1)], my_flights = [], my_db = []\<rparr>"
    using meter_step.received [of ?de store_increment ?s ?msg "\<lparr>my_buf = [], my_flights = [], my_db = []\<rparr>"]
    by (simp add: b bump_buf_def amount_def one)
  have 2: "meter_step ?de store_increment (FlushStarts [(?k, 1)]) \<lparr>my_buf = [(?k, 1)], my_flights = [], my_db = []\<rparr>
      \<lparr>my_buf = [], my_flights = [[(?k, 1)]], my_db = []\<rparr>"
    using meter_step.flush_starts [of "\<lparr>my_buf = [(?k, 1)], my_flights = [], my_db = []\<rparr>" "[(?k, 1)]" ?de store_increment] by simp
  have 3: "meter_step ?de store_increment (Stored 0 ''2026-01-01'') \<lparr>my_buf = [], my_flights = [[(?k, 1)]], my_db = []\<rparr>
      \<lparr>my_buf = [], my_flights = [[]], my_db = store_increment ''2026-01-01'' ?k 1 []\<rparr>"
    using meter_step.stored [of 0 "\<lparr>my_buf = [], my_flights = [[(?k, 1)]], my_db = []\<rparr>" ?k 1 "[]" ?de store_increment "''2026-01-01''"] by simp
  note run = meter_run_Cons [OF meter_run_Cons [OF meter_run_Cons [OF meter_run.none 3] 2] 1]
  have u: "usage ?de ?es k = (if k = ?k then 1 else 0)" for k by (auto simp: usage_def event_amount_def b)
  then have "\<forall>k. usage ?de ?es k < 2 ^ 63" by simp
  from usage_is_never_overbilled [OF run this, of ?k] have
    "billed (my_db \<lparr>my_buf = [], my_flights = [[]], my_db = store_increment ''2026-01-01'' ?k 1 []\<rparr>) ?k = 1"
    by (simp add: u pending_def in_flight_def amount_def billed_def)
  moreover have "usage ?de ?es ?k = 1" by (simp add: u)
  ultimately show ?thesis using run by (intro exI conjI)
qed

lemma refused_increment_drops_the_rest_witness:
  "\<exists>buf' db' pre k n rest. flush store_increment (\<lambda>b. b) (\<lambda>_. Inl ''down'') ([((''a'', ''events''), 1), ((''b'', ''events''), 2)], []) = (Some ''down'', buf', db') \<and>
     [((''a'', ''events''), 1), ((''b'', ''events''), 2)] = pre @ (k, n) # rest \<and> buf' = [(k, n)]"
proof -
  let ?buf = "[((''a'', ''events''), 1), ((''b'', ''events''), 2)] :: meter_buf"
  have f: "flush store_increment (\<lambda>b. b) (\<lambda>_. Inl ''down'') (?buf, []) = (Some ''down'', bump_buf (''a'', ''events'') 1 [], [])"
    by (simp add: flush_def)
  have r: "\<forall>(k, n) \<in> set ((\<lambda>b. b) ?buf). in_i64 n" by (simp add: in_i64_def)
  obtain pre k n rest where "?buf = pre @ (k, n) # rest" "bump_buf (''a'', ''events'') 1 [] = [(k, n)]"
    using refused_increment_drops_the_rest [OF f r] by (elim exE conjE)
  with f show ?thesis by (intro exI conjI)
qed

end
