(* ===== verification/Paging.thy ===== *)
theory Paging
  imports Prelude
begin

section \<open>Cursor pagination\<close>

text \<open>
  Pipelines and streams are listed in pages: a page holds at most so many items behind the cursor, in the order of their ids, and
  comes with the next cursor or with an empty one. The contract of such a listing over a store that does not change is
  the locale \<open>paged_listing\<close>; the in-memory and the SQL stores of both services are its instances. The two ways to fill
  a page are here: the scan of the in-memory stores and the query of the SQL stores.
\<close>

subsection \<open>What the services share\<close>

datatype store_error = StoreError string | StoreNotFound

record audit_fields =
  au_created :: time
  au_updated :: time
  au_version :: int

text \<open>\<open>dr_like pat s\<close> is the driver's answer to \<open>s LIKE pat\<close>.\<close>

record sql_driver =
  dr_duplicate :: string
  dr_like :: "string \<Rightarrow> string \<Rightarrow> bool"

text \<open>A gRPC status; not found and internal errors carry what their message is about.\<close>

datatype rpc_error = InvalidArgument string | NotFound string | Internal string store_error | Failed string

definition clamp :: "int \<Rightarrow> int \<Rightarrow> int \<Rightarrow> int \<Rightarrow> int" where
  "clamp v dflt lo hi = (if v \<le> 0 then dflt else if v < lo then lo else if v > hi then hi else v)"

lemma clamp_bounds: "1 \<le> clamp v 50 1 200 \<and> clamp v 50 1 200 \<le> 200"
  by (simp add: clamp_def)

subsection \<open>The contract\<close>

text \<open>A client follows the cursors; None when it gave up before the last page.\<close>

fun follow :: "nat \<Rightarrow> (string \<Rightarrow> 'v list \<times> string) \<Rightarrow> string \<Rightarrow> 'v list option" where
  "follow 0 page after = None"
| "follow (Suc n) page after =
     (case page after of (vs, next) \<Rightarrow> if next = [] then Some vs else map_option (\<lambda>ws. vs @ ws) (follow n page next))"

locale paged_listing =
  fixes page :: "'s \<Rightarrow> string \<Rightarrow> 'v list \<times> string" and items :: "'s \<Rightarrow> 'v list" and key :: "'v \<Rightarrow> string"
    and ok :: "'s \<Rightarrow> bool" and valid :: "'s \<Rightarrow> string \<Rightarrow> bool"
  assumes keys: "ok s \<Longrightarrow> sorted (map key (items s)) \<and> distinct (map key (items s)) \<and> [] \<notin> key ` set (items s)"
    and valid_start: "ok s \<Longrightarrow> valid s []" and valid_key: "ok s \<Longrightarrow> v \<in> set (items s) \<Longrightarrow> valid s (key v)"
    and page_prefix: "ok s \<Longrightarrow> valid s after \<Longrightarrow> prefix (fst (page s after)) (filter (\<lambda>v. after < key v) (items s))"
    and page_last: "ok s \<Longrightarrow> valid s after \<Longrightarrow> snd (page s after) = [] \<Longrightarrow> fst (page s after) = filter (\<lambda>v. after < key v) (items s)"
    and page_more: "ok s \<Longrightarrow> valid s after \<Longrightarrow> snd (page s after) \<noteq> [] \<Longrightarrow>
      fst (page s after) \<noteq> [] \<and> snd (page s after) = key (last (fst (page s after)))"
begin

lemma rest_after_page:
  assumes "ok s" "prefix vs (filter (\<lambda>v. after < key v) (items s))" "vs \<noteq> []"
  shows "vs @ filter (\<lambda>v. key (last vs) < key v) (items s) = filter (\<lambda>v. after < key v) (items s)"
proof -
  obtain ws where ws: "filter (\<lambda>v. after < key v) (items s) = vs @ ws" using assms(2) by (rule prefixE)
  have s: "sorted (map key (vs @ ws))" and d: "distinct (map key (vs @ ws))"
    unfolding ws [symmetric] using keys [OF assms(1)] by (simp_all add: sorted_filter distinct_map_filter)
  obtain us l where vs: "vs = us @ [l]" using assms(3) by (cases vs rule: rev_cases) auto
  have up: "key u \<le> key l" if "u \<in> set vs" for u using s that by (auto simp: vs sorted_append)
  have down: "key l < key w" if "w \<in> set ws" for w using s d that by (force simp: vs sorted_append order.order_iff_strict)
  have "l \<in> set (filter (\<lambda>v. after < key v) (items s))" unfolding ws vs by simp
  then have "after < key l" by simp
  then have "filter (\<lambda>v. key l < key v) (items s) = filter (\<lambda>v. key l < key v) (filter (\<lambda>v. after < key v) (items s))"
    by (auto intro: filter_cong)
  also have "\<dots> = ws" using up down by (force simp: ws vs filter_empty_conv filter_id_conv)
  finally show ?thesis by (simp add: ws vs)
qed

lemma follow_from:
  "ok s \<Longrightarrow> valid s after \<Longrightarrow> length (filter (\<lambda>v. after < key v) (items s)) < n \<Longrightarrow>
   follow n (page s) after = Some (filter (\<lambda>v. after < key v) (items s))"
proof (induction n arbitrary: after)
  case (Suc n)
  obtain vs cur where p: "page s after = (vs, cur)" by (cases "page s after")
  show ?case
  proof (cases "cur = []")
    case True
    then show ?thesis using page_last [OF Suc.prems(1,2)] p by simp
  next
    case False
    then have vs: "vs \<noteq> []" "cur = key (last vs)" using page_more [OF Suc.prems(1,2)] p by simp_all
    have pre: "prefix vs (filter (\<lambda>v. after < key v) (items s))" using page_prefix [OF Suc.prems(1,2)] p by simp
    note rest = rest_after_page [OF Suc.prems(1) pre vs(1)]
    have "last vs \<in> set (items s)" using pre vs(1) set_mono_prefix [OF pre] last_in_set by fastforce
    moreover have "length (filter (\<lambda>v. key (last vs) < key v) (items s)) < n"
      using arg_cong [OF rest, of length] Suc.prems(3) vs(1) by (cases vs) auto
    ultimately have "follow n (page s) cur = Some (filter (\<lambda>v. key (last vs) < key v) (items s))"
      using Suc.IH [OF Suc.prems(1)] valid_key [OF Suc.prems(1)] vs(2) by simp
    then show ?thesis using p False rest by simp
  qed
qed simp

text \<open>Following the cursors from the start gives every item once.\<close>

lemma follow_all: "ok s \<Longrightarrow> length (items s) < n \<Longrightarrow> follow n (page s) [] = Some (items s)"
proof -
  assume n: "ok s" "length (items s) < n"
  have "[] < s" if "s \<noteq> []" for s :: string using that by (cases s) auto
  moreover have "key v \<noteq> []" if "v \<in> set (items s)" for v using keys [OF n(1)] that by (metis imageI)
  ultimately have "filter (\<lambda>v. [] < key v) (items s) = items s" by (intro filter_True) simp
  then show ?thesis using follow_from [OF n(1) valid_start [OF n(1)]] n(2) by simp
qed

end

subsection \<open>A page of a map\<close>

text \<open>
  The loop of the in-memory stores: over the sorted ids, past the cursor, until the page is full. \<open>full\<close> tells whether a
  page of so many items is complete.
\<close>

fun scan_ids :: "('v \<Rightarrow> bool) \<Rightarrow> (string \<times> 'v) list \<Rightarrow> (nat \<Rightarrow> bool) \<Rightarrow> string \<Rightarrow> bool \<Rightarrow> string list \<Rightarrow> 'v list \<Rightarrow> 'v list" where
  "scan_ids keep m full after started [] out = out"
| "scan_ids keep m full after started (i # ids) out =
     (if \<not> started then scan_ids keep m full after (i = after) ids out
      else case map_of m i of
        None \<Rightarrow> scan_ids keep m full after True ids out
      | Some v \<Rightarrow>
          if \<not> keep v then scan_ids keep m full after True ids out
          else let out1 = out @ [v] in if full (length out1) then out1 else scan_ids keep m full after True ids out1)"

definition sorted_ids :: "(string \<times> 'v) list \<Rightarrow> string list" where
  "sorted_ids m = sort (map fst m)"

definition listed :: "('v \<Rightarrow> bool) \<Rightarrow> (string \<times> 'v) list \<Rightarrow> 'v list" where
  "listed keep m = filter keep (map (\<lambda>i. the (map_of m i)) (sorted_ids m))"

text \<open>Every value is stored under its own id, and no id is empty.\<close>

definition keyed :: "('v \<Rightarrow> string) \<Rightarrow> (string \<times> 'v) list \<Rightarrow> bool" where
  "keyed key m \<longleftrightarrow> distinct (map fst m) \<and> (\<forall>(i, v) \<in> set m. i = key v \<and> i \<noteq> [])"

lemma scan_started:
  assumes "\<And>i. i \<in> set ids \<Longrightarrow> map_of m i \<noteq> None" "0 < n" "\<And>k. full k \<longleftrightarrow> k = n" "length out < n"
  shows "scan_ids keep m full after True ids out = out @ take (n - length out) (filter keep (map (\<lambda>i. the (map_of m i)) ids))"
  using assms(1,4)
proof (induction ids arbitrary: out)
  case (Cons i ids)
  obtain v where v: "map_of m i = Some v" using Cons.prems(1) [of i] by auto
  show ?case
  proof (cases "keep v \<and> Suc (length out) \<noteq> n")
    case True
    then have "length (out @ [v]) < n" using Cons.prems(2) by simp
    moreover obtain k where "n - length out = Suc k" "n - Suc (length out) = k" using Cons.prems(2) by (metis Suc_diff_Suc)
    ultimately show ?thesis using Cons.IH [of "out @ [v]"] Cons.prems(1) True v by (simp add: assms(3))
  next
    case False
    then show ?thesis using Cons.IH [OF Cons.prems(1,2)] Cons.prems(2) v by (auto simp: assms(3))
  qed
qed simp

lemma scan_skips:
  assumes "distinct ids" "sorted ids" "after \<in> set ids"
  shows "scan_ids keep m full after False ids out = scan_ids keep m full after True (filter (\<lambda>i. after < i) ids) out"
  using assms
proof (induction ids)
  case (Cons i ids)
  show ?case
  proof (cases "i = after")
    case True
    then have "filter (\<lambda>i. after < i) ids = ids" using Cons.prems by (force simp: filter_id_conv order.order_iff_strict)
    then show ?thesis using True by simp
  next
    case False
    then have "i < after" "after \<in> set ids" using Cons.prems by (force simp: order.order_iff_strict)+
    moreover from this have "\<not> after < i" by simp
    ultimately show ?thesis using Cons.IH Cons.prems False by simp
  qed
qed simp

lemma scan_lost: "after \<notin> set ids \<Longrightarrow> scan_ids keep m full after False ids out = out"
  by (induction ids) auto

definition scan_page :: "('v \<Rightarrow> bool) \<Rightarrow> ('v \<Rightarrow> string) \<Rightarrow> (nat \<Rightarrow> bool) \<Rightarrow> (string \<times> 'v) list \<Rightarrow> string \<Rightarrow> 'v list \<times> string" where
  "scan_page keep key full m after =
     (let out = scan_ids keep m full after (after = []) (sorted_ids m) [] in (out, if full (length out) then key (last out) else []))"

lemma sorted_ids_facts: "keyed key m \<Longrightarrow> sorted (sorted_ids m) \<and> distinct (sorted_ids m) \<and> set (sorted_ids m) = fst ` set m"
  by (simp add: keyed_def sorted_ids_def)

lemma keyed_get: "keyed key m \<Longrightarrow> i \<in> fst ` set m \<Longrightarrow> map_of m i \<noteq> None \<and> key (the (map_of m i)) = i \<and> i \<noteq> []"
  unfolding keyed_def by (force dest: map_of_SomeD simp: map_of_eq_None_iff)

lemma scan_page_eq:
  assumes "keyed key m" "0 < n" "\<And>k. full k \<longleftrightarrow> k = n" "after = [] \<or> after \<in> fst ` set m"
  shows "fst (scan_page keep key full m after) = take n (filter (\<lambda>v. after < key v) (listed keep m))"
proof -
  note ids = sorted_ids_facts [OF assms(1)]
  have g: "map_of m i \<noteq> None" if "i \<in> set (sorted_ids m)" for i using keyed_get [OF assms(1)] that ids by blast
  have pos: "[] < i" if "i \<in> set (sorted_ids m)" for i using keyed_get [OF assms(1), of i] that ids by (cases i) auto
  have "scan_ids keep m full after (after = []) (sorted_ids m) [] =
      scan_ids keep m full after True (filter (\<lambda>i. after < i) (sorted_ids m)) []"
  proof (cases "after = []")
    case True
    then show ?thesis using pos by (simp add: filter_True)
  next
    case False
    then show ?thesis using scan_skips [of "sorted_ids m" after keep m full "[]"] ids assms(4) by simp
  qed
  also have "\<dots> = take n (filter keep (map (\<lambda>i. the (map_of m i)) (filter (\<lambda>i. after < i) (sorted_ids m))))"
    using scan_started [of "filter (\<lambda>i. after < i) (sorted_ids m)" m n full "[]" keep after] g assms(2,3) by simp
  also have "filter keep (map (\<lambda>i. the (map_of m i)) (filter (\<lambda>i. after < i) (sorted_ids m))) = filter (\<lambda>v. after < key v) (listed keep m)"
  proof -
    have "filter (\<lambda>i. after < i) (sorted_ids m) = filter (\<lambda>i. after < key (the (map_of m i))) (sorted_ids m)"
      by (rule filter_cong) (use keyed_get [OF assms(1)] ids in auto)
    then show ?thesis by (simp add: listed_def filter_map comp_def conj_commute)
  qed
  finally show ?thesis by (simp add: scan_page_def Let_def)
qed

lemma listed_facts:
  assumes "keyed key m"
  shows "sorted (map key (listed keep m)) \<and> distinct (map key (listed keep m)) \<and> [] \<notin> key ` set (listed keep m) \<and> key ` set (listed keep m) \<subseteq> fst ` set m"
proof -
  note ids = sorted_ids_facts [OF assms]
  have m: "map key (map (\<lambda>i. the (map_of m i)) (sorted_ids m)) = sorted_ids m"
    unfolding map_map by (rule map_idI) (use keyed_get [OF assms] ids in auto)
  have "sorted (map key (listed keep m))" "distinct (map key (listed keep m))"
    unfolding listed_def using ids m by (metis sorted_filter) (metis ids m distinct_map_filter)
  moreover have "key ` set (listed keep m) \<subseteq> fst ` set m" using keyed_get [OF assms] ids by (auto simp: listed_def)
  moreover have "[] \<notin> fst ` set m" using assms by (auto simp: keyed_def)
  ultimately show ?thesis by auto
qed

lemma listed_set:
  assumes "keyed key m"
  shows "set (listed keep m) = {v. \<exists>i. map_of m i = Some v \<and> keep v}"
proof -
  have "set (listed keep m) = {v \<in> (\<lambda>i. the (map_of m i)) ` fst ` set m. keep v}"
    using sorted_ids_facts [OF assms] by (auto simp: listed_def)
  moreover have "v \<in> (\<lambda>i. the (map_of m i)) ` fst ` set m \<longleftrightarrow> (\<exists>i. map_of m i = Some v)" for v
  proof
    assume "v \<in> (\<lambda>i. the (map_of m i)) ` fst ` set m"
    then obtain i where "i \<in> fst ` set m" "v = the (map_of m i)" by blast
    then show "\<exists>i. map_of m i = Some v" using keyed_get [OF assms, of i] by auto
  next
    assume "\<exists>i. map_of m i = Some v"
    then obtain i where i: "map_of m i = Some v" by blast
    then have "i \<in> fst ` set m" by (force dest: map_of_SomeD)
    with i show "v \<in> (\<lambda>i. the (map_of m i)) ` fst ` set m" by (metis imageI option.sel)
  qed
  ultimately show ?thesis by auto
qed

lemma length_listed: "length (listed keep m) \<le> length m"
  using length_filter_le [of keep "map (\<lambda>i. the (map_of m i)) (sorted_ids m)"] by (simp add: listed_def sorted_ids_def)

lemma keyed_update: "keyed key m \<Longrightarrow> key v = i \<Longrightarrow> i \<noteq> [] \<Longrightarrow> keyed key (AList.update i v m)"
  unfolding keyed_def by (auto simp: set_update_distinct distinct_update)

lemma keyed_delete: "keyed key m \<Longrightarrow> keyed key (AList.delete i m)"
  unfolding keyed_def by (auto simp: AList.delete_eq distinct_map_filter)

lemma scan_page_laws:
  fixes keep :: "'v \<Rightarrow> bool"
  assumes "keyed key m" "0 < n" "\<And>k. full k \<longleftrightarrow> k = n" "after = [] \<or> after \<in> fst ` set m"
  defines "p \<equiv> scan_page keep key full m after" and "rest \<equiv> filter (\<lambda>v. after < key v) (listed keep m)"
  shows "prefix (fst p) rest" and "snd p = [] \<Longrightarrow> fst p = rest" and "snd p \<noteq> [] \<Longrightarrow> fst p \<noteq> [] \<and> snd p = key (last (fst p))"
proof -
  have f: "fst p = take n rest" unfolding p_def rest_def by (rule scan_page_eq [OF assms(1-4)])
  have s: "snd p = (if length (fst p) = n then key (last (fst p)) else [])"
    by (simp add: p_def scan_page_def Let_def assms(3))
  show "prefix (fst p) rest" by (simp add: f take_is_prefix)
  have "key (last (fst p)) \<noteq> []" if "fst p \<noteq> []"
  proof -
    have "last (fst p) \<in> set (listed keep m)" using last_in_set [OF that] f by (auto simp: rest_def dest: in_set_takeD)
    then show ?thesis using listed_facts [OF assms(1), of keep] by (metis imageI)
  qed
  then show "snd p = [] \<Longrightarrow> fst p = rest" using s f assms(2) by (cases "rest = []"; cases "length (fst p) = n") (auto simp: min_def split: if_splits)
  show "snd p \<noteq> [] \<Longrightarrow> fst p \<noteq> [] \<and> snd p = key (last (fst p))" using s assms(2) by (auto split: if_splits)
qed

text \<open>A cursor that is no longer stored starts no page: the listing ends there.\<close>

lemma scan_page_lost: "after \<noteq> [] \<Longrightarrow> after \<notin> fst ` set m \<Longrightarrow> \<not> full 0 \<Longrightarrow> scan_page keep key full m after = ([], [])"
  by (simp add: scan_page_def Let_def scan_lost sorted_ids_def)

subsection \<open>A page of a table\<close>

text \<open>
  The query of the SQL stores: the rows that fit and lie behind the cursor, in the order of their ids (of their bytes), one more
  than a page to see whether another page follows.
\<close>

definition query_page :: "('r \<Rightarrow> bool) \<Rightarrow> ('r \<Rightarrow> string) \<Rightarrow> nat \<Rightarrow> 'r list \<Rightarrow> string \<Rightarrow> 'r list \<times> string" where
  "query_page keep key n rows after =
     (let out = take (n + 1) (sort_key key (filter (\<lambda>r. keep r \<and> (after = [] \<or> after < key r)) rows)) in
      if n < length out then (take n out, key (last (take n out))) else (out, []))"

definition table_rows :: "('r \<Rightarrow> bool) \<Rightarrow> ('r \<Rightarrow> string) \<Rightarrow> 'r list \<Rightarrow> 'r list" where
  "table_rows keep key rows = sort_key key (filter keep rows)"

definition primary_key :: "('r \<Rightarrow> string) \<Rightarrow> 'r list \<Rightarrow> bool" where
  "primary_key key rows \<longleftrightarrow> distinct (map key rows) \<and> [] \<notin> key ` set rows"

lemma filter_sort_key: "filter P (sort_key key rows) = sort_key key (filter P rows)"
  by (rule filter_sort)

lemma table_rows_facts:
  assumes "primary_key key rows"
  shows "sorted (map key (table_rows keep key rows)) \<and> distinct (map key (table_rows keep key rows)) \<and> [] \<notin> key ` set (table_rows keep key rows)"
proof -
  have "distinct (map key (filter keep rows))" using assms by (simp add: primary_key_def distinct_map_filter)
  then have "distinct (map key (table_rows keep key rows))" by (simp add: table_rows_def distinct_map)
  then show ?thesis using assms by (auto simp: table_rows_def primary_key_def)
qed

lemma query_page_laws:
  fixes keep :: "'r \<Rightarrow> bool" and after :: string
  assumes "primary_key key rows" "0 < n"
  defines "p \<equiv> query_page keep key n rows after" and "rest \<equiv> filter (\<lambda>r. after < key r) (table_rows keep key rows)"
  shows "prefix (fst p) rest" and "snd p = [] \<Longrightarrow> fst p = rest" and "snd p \<noteq> [] \<Longrightarrow> fst p \<noteq> [] \<and> snd p = key (last (fst p))"
proof -
  have "[] < s" if "s \<noteq> []" for s :: string using that by (cases s) auto
  moreover have "key r \<noteq> []" if "r \<in> set rows" for r using assms(1) that unfolding primary_key_def by (metis imageI)
  ultimately have pos: "after = [] \<Longrightarrow> r \<in> set rows \<Longrightarrow> after < key r" for r by simp
  have "filter (\<lambda>r. keep r \<and> (after = [] \<or> after < key r)) rows = filter (\<lambda>r. after < key r) (filter keep rows)"
    using pos by (auto intro: filter_cong)
  then have p: "p = (if n < length (take (n + 1) rest) then (take n (take (n + 1) rest), key (last (take n (take (n + 1) rest)))) else (take (n + 1) rest, []))"
    by (simp add: p_def query_page_def rest_def table_rows_def filter_sort_key Let_def)
  show "prefix (fst p) rest" by (simp add: p take_is_prefix)
  have "set (take n rest) \<subseteq> set rows" by (auto simp: rest_def table_rows_def dest: in_set_takeD)
  then have "key (last (take n rest)) \<noteq> []" if "take n rest \<noteq> []"
    using last_in_set [OF that] assms(1) unfolding primary_key_def by (metis imageI subsetD)
  then show "snd p = [] \<Longrightarrow> fst p = rest" using assms(2) by (cases "rest = []") (auto simp: p min_def split: if_splits)
  show "snd p \<noteq> [] \<Longrightarrow> fst p \<noteq> [] \<and> snd p = key (last (fst p))" using assms(2) by (auto simp: p min_def split: if_splits)
qed

end
