(* ===== verification/PipelineService.thy ===== *)
theory PipelineService
  imports Paging
begin

section \<open>pipeline-service\<close>

text \<open>
  Model of \<open>services/pipeline-service\<close>: the store interface with its two implementations (\<open>internal/store/memory.go\<close> and
  \<open>sql.go\<close>) and the handlers (\<open>internal/service/pipeline.go\<close>). The interface is the record \<open>pipeline_ops\<close>. A stored
  message is a value: callers do not change what they were given. The SQL driver's error texts, its \<open>LIKE\<close>
  operator, new ids, clock readings and the answers of the deployer are arguments; columns keep their values.
\<close>

datatype pipeline_status = PsUnspecified | PsDraft | PsValidated | PsDeploying | PsRunning | PsDegraded | PsPaused | PsFailed | PsDeleted

text \<open>A reference to a tenant or a project is its id, empty when it is nil.\<close>

record pipeline_rec =
  pl_id :: string
  pl_tenant :: string
  pl_project :: string
  pl_project_tenant :: string
  pl_name :: string
  pl_description :: string
  pl_labels :: "string list"
  pl_status :: pipeline_status
  pl_revision :: int
  pl_dag :: string
  pl_audit :: "audit_fields option"

record list_filter =
  lf_tenant :: string
  lf_project :: string
  lf_name :: string
  lf_status :: "pipeline_status list"

text \<open>A listing may panic: None.\<close>

record 's pipeline_ops =
  po_create :: "time \<Rightarrow> pipeline_rec \<Rightarrow> 's \<Rightarrow> (store_error + pipeline_rec) \<times> 's"
  po_get :: "string \<Rightarrow> 's \<Rightarrow> store_error + pipeline_rec"
  po_list :: "list_filter \<Rightarrow> int \<Rightarrow> string \<Rightarrow> 's \<Rightarrow> (store_error + (pipeline_rec list \<times> string)) option"
  po_update_status :: "time \<Rightarrow> string \<Rightarrow> pipeline_status \<Rightarrow> 's \<Rightarrow> (store_error + pipeline_rec) \<times> 's"

definition stamp_created :: "time \<Rightarrow> pipeline_rec \<Rightarrow> pipeline_rec" where
  "stamp_created now p =
     p\<lparr>pl_audit := Some \<lparr>au_created = now, au_updated = now, au_version = 1\<rparr>,
       pl_status := (if pl_status p = PsUnspecified then PsDraft else pl_status p)\<rparr>"

subsection \<open>The in-memory store\<close>

type_synonym pipeline_map = "(string \<times> pipeline_rec) list"

definition mem_create :: "time \<Rightarrow> pipeline_rec \<Rightarrow> pipeline_map \<Rightarrow> (store_error + pipeline_rec) \<times> pipeline_map" where
  "mem_create now p m =
     (if map_of m (pl_id p) \<noteq> None then (Inl (StoreError ''pipeline: id already exists''), m)
      else (Inr (stamp_created now p), AList.update (pl_id p) (stamp_created now p) m))"

definition mem_get_pipeline :: "string \<Rightarrow> pipeline_map \<Rightarrow> store_error + pipeline_rec" where
  "mem_get_pipeline i m = (case map_of m i of None \<Rightarrow> Inl StoreNotFound | Some p \<Rightarrow> Inr p)"

definition mem_update_status :: "time \<Rightarrow> string \<Rightarrow> pipeline_status \<Rightarrow> pipeline_map \<Rightarrow> (store_error + pipeline_rec) \<times> pipeline_map" where
  "mem_update_status now i st m =
     (case map_of m i of
        None \<Rightarrow> (Inl StoreNotFound, m)
      | Some p \<Rightarrow>
          let a = (case pl_audit p of None \<Rightarrow> \<lparr>au_created = 0, au_updated = 0, au_version = 0\<rparr> | Some a \<Rightarrow> a);
              p1 = p\<lparr>pl_status := st, pl_audit := Some (a\<lparr>au_updated := now, au_version := i64 (au_version a + 1)\<rparr>)\<rparr> in
          (Inr p1, AList.update i p1 m))"

definition matches_filter :: "list_filter \<Rightarrow> pipeline_rec \<Rightarrow> bool" where
  "matches_filter f p \<longleftrightarrow>
     \<not> (lf_tenant f \<noteq> [] \<and> pl_tenant p \<noteq> lf_tenant f) \<and> \<not> (lf_project f \<noteq> [] \<and> pl_project p \<noteq> lf_project f) \<and>
     \<not> (lf_name f \<noteq> [] \<and> \<not> sublist (lf_name f) (pl_name p)) \<and> \<not> (lf_status f \<noteq> [] \<and> pl_status p \<notin> set (lf_status f))"

definition mem_list :: "list_filter \<Rightarrow> int \<Rightarrow> string \<Rightarrow> pipeline_map \<Rightarrow> (store_error + (pipeline_rec list \<times> string)) option" where
  "mem_list f psize after m =
     (let out = scan_ids (matches_filter f) m (\<lambda>k. int k = psize) after (after = []) (sorted_ids m) [] in
      if int (length out) = psize then (if out = [] then None else Some (Inr (out, pl_id (last out)))) else Some (Inr (out, [])))"

definition seed_pipeline :: "time \<Rightarrow> string \<Rightarrow> string \<Rightarrow> string \<Rightarrow> pipeline_map \<Rightarrow> string \<times> pipeline_map" where
  "seed_pipeline now tenant project name m =
     (let i = ''p-'' @ to_lower (replace_char (CHR '' '') (CHR ''-'') name) in
      (i, snd (mem_create now
        \<lparr>pl_id = i, pl_tenant = tenant, pl_project = project, pl_project_tenant = tenant, pl_name = name,
         pl_description = ''seeded by pipeline-service for the walking skeleton'', pl_labels = [''seed'', ''skeleton''],
         pl_status = PsValidated, pl_revision = 1, pl_dag = ''{\"nodes\":[{\"id\":\"detect\",\"type\":\"model.infer\"}]}'', pl_audit = None\<rparr> m)))"

definition memory_pipelines :: "pipeline_map pipeline_ops" where
  "memory_pipelines = \<lparr>po_create = mem_create, po_get = mem_get_pipeline, po_list = mem_list, po_update_status = mem_update_status\<rparr>"

subsection \<open>The SQL store\<close>

record pipeline_row =
  pw_id :: string
  pw_tenant :: string
  pw_project :: string
  pw_name :: string
  pw_description :: string
  pw_labels :: "string list"
  pw_status :: pipeline_status
  pw_revision :: int
  pw_dag :: string
  pw_version :: int
  pw_created :: time
  pw_updated :: time


definition assemble :: "pipeline_row \<Rightarrow> pipeline_rec" where
  "assemble r =
     \<lparr>pl_id = pw_id r, pl_tenant = pw_tenant r, pl_project = pw_project r, pl_project_tenant = pw_tenant r, pl_name = pw_name r,
      pl_description = pw_description r, pl_labels = pw_labels r, pl_status = pw_status r, pl_revision = pw_revision r, pl_dag = pw_dag r,
      pl_audit = Some \<lparr>au_created = pw_created r, au_updated = pw_updated r, au_version = pw_version r\<rparr>\<rparr>"







subsection \<open>The handlers\<close>

definition get_pipeline :: "'s pipeline_ops \<Rightarrow> string \<Rightarrow> 's \<Rightarrow> rpc_error + pipeline_rec" where
  "get_pipeline ops i s =
     (if i = [] then Inl (InvalidArgument ''id is required'')
      else case po_get ops i s of
        Inl StoreNotFound \<Rightarrow> Inl (NotFound i)
      | Inl e \<Rightarrow> Inl (Internal ''lookup failed'' e)
      | Inr p \<Rightarrow> Inr p)"

record list_request =
  lr_filter :: list_filter
  lr_size :: int
  lr_token :: string

definition list_pipelines :: "'s pipeline_ops \<Rightarrow> list_request \<Rightarrow> 's \<Rightarrow> (rpc_error + (pipeline_rec list \<times> string)) option" where
  "list_pipelines ops req s =
     (if lf_tenant (lr_filter req) = [] then Some (Inl (InvalidArgument ''tenant_id is required''))
      else case po_list ops (lr_filter req) (clamp (lr_size req) 50 1 200) (lr_token req) s of
        None \<Rightarrow> None
      | Some (Inl e) \<Rightarrow> Some (Inl (Internal ''list failed'' e))
      | Some (Inr r) \<Rightarrow> Some (Inr r))"

text \<open>\<open>sfx\<close> is the random part of the new id.\<close>

definition create_pipeline :: "'s pipeline_ops \<Rightarrow> time \<Rightarrow> string \<Rightarrow> pipeline_rec \<Rightarrow> 's \<Rightarrow> (rpc_error + pipeline_rec) \<times> 's" where
  "create_pipeline ops now sfx req s =
     (if pl_name req = [] then (Inl (InvalidArgument ''name is required''), s)
      else if pl_tenant req = [] then (Inl (InvalidArgument ''tenant.id is required''), s)
      else if pl_project req = [] then (Inl (InvalidArgument ''project.id is required''), s)
      else case po_create ops now (req\<lparr>pl_id := ''p-'' @ sfx, pl_status := PsDraft, pl_revision := 1, pl_audit := None\<rparr>) s of
        (Inl e, s1) \<Rightarrow> (Inl (Internal ''create failed'' e), s1)
      | (Inr p, s1) \<Rightarrow> (Inr p, s1))"

text \<open>\<open>answer\<close> is the deployer's: an error, or the id of the workflow it started.\<close>

definition deploy_pipeline :: "'s pipeline_ops \<Rightarrow> time \<Rightarrow> string + string \<Rightarrow> string \<Rightarrow> 's \<Rightarrow> (rpc_error + (string \<times> pipeline_status)) \<times> 's" where
  "deploy_pipeline ops now answer i s =
     (if i = [] then (Inl (InvalidArgument ''id is required''), s)
      else case po_get ops i s of
        Inl StoreNotFound \<Rightarrow> (Inl (NotFound i), s)
      | Inl e \<Rightarrow> (Inl (Internal ''lookup failed'' e), s)
      | Inr _ \<Rightarrow>
          (case answer of
             Inl e \<Rightarrow> (Inl (Failed e), s)
           | Inr wid \<Rightarrow>
               (case po_update_status ops now i PsDeploying s of
                  (Inl e, s1) \<Rightarrow> (Inl (Internal ''status update failed'' e), s1)
                | (Inr p, s1) \<Rightarrow> (Inr (wid, pl_status p), s1))))"

definition noop_deployer :: "string \<Rightarrow> string \<Rightarrow> string + string" where
  "noop_deployer sfx i = Inr (''wid-'' @ i @ ''-'' @ sfx)"

subsection \<open>The listings keep the contract\<close>

text \<open>The page a request gets; a refused request gets an empty one.\<close>

definition pipeline_page :: "'s pipeline_ops \<Rightarrow> list_request \<Rightarrow> 's \<Rightarrow> string \<Rightarrow> pipeline_rec list \<times> string" where
  "pipeline_page ops req s after =
     (case list_pipelines ops (req\<lparr>lr_token := after\<rparr>) s of Some (Inr r) \<Rightarrow> r | _ \<Rightarrow> ([], []))"

definition page_len :: "list_request \<Rightarrow> nat" where
  "page_len req = nat (clamp (lr_size req) 50 1 200)"

lemma page_len: "0 < page_len req" "int (page_len req) = clamp (lr_size req) 50 1 200"
  using clamp_bounds [of "lr_size req"] by (simp_all add: page_len_def)

lemma mem_list_page:
  assumes "0 < n"
  shows "mem_list f (int n) after m = Some (Inr (scan_page (matches_filter f) pl_id (\<lambda>k. k = n) m after))"
  using assms by (simp add: mem_list_def scan_page_def Let_def)

lemma mem_page:
  "lf_tenant (lr_filter req) \<noteq> [] \<Longrightarrow>
   pipeline_page memory_pipelines req m after = scan_page (matches_filter (lr_filter req)) pl_id (\<lambda>k. k = page_len req) m after"
  using mem_list_page [OF page_len(1), of "lr_filter req" req after m]
  by (simp add: pipeline_page_def list_pipelines_def memory_pipelines_def page_len(2))

interpretation mp: paged_listing "pipeline_page memory_pipelines req" "listed (matches_filter (lr_filter req))" pl_id
  "\<lambda>m. keyed pl_id m \<and> lf_tenant (lr_filter req) \<noteq> []" "\<lambda>m after. after = [] \<or> after \<in> fst ` set m" for req
proof (unfold_locales, goal_cases)
  case (1 m)
  then show ?case using listed_facts [of pl_id m "matches_filter (lr_filter req)"] by blast
next
  case (3 m v)
  then show ?case using listed_facts [of pl_id m "matches_filter (lr_filter req)"] by blast
next
  case (4 m after)
  then show ?case using scan_page_laws(1) [OF _ page_len(1), of pl_id m "\<lambda>k. k = page_len req" req] by (simp add: mem_page)
next
  case (5 m after)
  then show ?case using scan_page_laws(2) [OF _ page_len(1), of pl_id m "\<lambda>k. k = page_len req" req] by (simp add: mem_page)
next
  case (6 m after)
  then show ?case using scan_page_laws(3) [OF _ page_len(1), of pl_id m "\<lambda>k. k = page_len req" req] by (simp add: mem_page)
qed simp


lemma pl_id_assemble [simp]: "pl_id (assemble r) = pw_id r"
  by (simp add: assemble_def)




subsection \<open>The SQL store implements the in-memory store\<close>




text \<open>A row has no column for the tenant of the project: it comes back as the pipeline's own.\<close>

definition norm_project :: "pipeline_rec \<Rightarrow> pipeline_rec" where
  "norm_project p = p\<lparr>pl_project_tenant := pl_tenant p\<rparr>"








lemma norm_project_simps [simp]:
  "pl_id (norm_project p) = pl_id p" "pl_audit (norm_project p) = pl_audit p" "norm_project (norm_project p) = norm_project p"
  "norm_project (assemble r) = assemble r"
  by (simp_all add: norm_project_def assemble_def)










subsection \<open>The name filter\<close>

text \<open>
  LIKE as SQL defines it, for a pattern without \<open>_\<close> and without the escape character: \<open>%\<close> matches any text and
  every other character itself. Postgres compares the characters as they are, SQLite after folding the ASCII letters; \<open>fc\<close> is that
  folding. The store puts the filter between two \<open>%\<close> and escapes nothing, so the filter is a substring test only for a plain name.
\<close>

fun sql_like :: "string \<Rightarrow> string \<Rightarrow> bool" where
  "sql_like [] s = (s = [])"
| "sql_like (c # pat) s =
     (if c = CHR ''%'' then \<exists>t \<in> set (suffixes s). sql_like pat t
      else case s of [] \<Rightarrow> False | x # s1 \<Rightarrow> x = c \<and> sql_like pat s1)"









text \<open>With a \<open>%\<close> in it the filter is a pattern; on SQLite it also ignores case.\<close>

lemma like_is_no_substring_test:
  "sql_like ''%a%b%'' ''axb'' \<and> \<not> sublist ''a%b'' ''axb''"
  "sql_like (to_lower ''%Cam%'') (to_lower ''camera'') \<and> \<not> sublist ''Cam'' ''camera''"
  by code_simp+



subsection \<open>Properties\<close>

text \<open>
  A client that follows the page tokens of the in-memory store gets every pipeline that fits its filter, once, in the order of
  the ids, whatever page size it asks for.
\<close>

theorem pages_list_every_match:
  assumes "keyed pl_id m" "lf_tenant (lr_filter req) \<noteq> []"
  shows "\<exists>ps. follow (Suc (length m)) (pipeline_page memory_pipelines req m) [] = Some ps \<and>
    set ps = {p. \<exists>i. map_of m i = Some p \<and> matches_filter (lr_filter req) p} \<and> sorted (map pl_id ps) \<and> distinct (map pl_id ps)"
proof (intro exI conjI)
  let ?ps = "listed (matches_filter (lr_filter req)) m"
  show "follow (Suc (length m)) (pipeline_page memory_pipelines req m) [] = Some ?ps"
    using mp.follow_all [of m req "Suc (length m)"] assms length_listed [of "matches_filter (lr_filter req)" m] by (simp del: follow.simps)
  show "set ?ps = {p. \<exists>i. map_of m i = Some p \<and> matches_filter (lr_filter req) p}" by (rule listed_set [OF assms(1)])
  show "sorted (map pl_id ?ps)" "distinct (map pl_id ?ps)" using listed_facts [OF assms(1)] by blast+
qed


text \<open>Any caller reads and deploys any tenant's pipeline: neither handler looks at a tenant.\<close>

lemma deploy_ignores_tenant:
  assumes "map_of m i = Some p" "i \<noteq> []"
  shows "\<exists>q. deploy_pipeline memory_pipelines now (Inr wid) i m = (Inr (wid, PsDeploying), AList.update i q m) \<and> pl_tenant q = pl_tenant p"
  using assms by (simp add: deploy_pipeline_def memory_pipelines_def mem_get_pipeline_def mem_update_status_def Let_def) (intro exI conjI, rule refl, simp)

subsection \<open>Witnesses\<close>

definition demo_pl :: "string \<Rightarrow> pipeline_rec" where
  "demo_pl i = \<lparr>pl_id = i, pl_tenant = ''t'', pl_project = ''pr'', pl_project_tenant = ''t'', pl_name = i, pl_description = [], pl_labels = [],
     pl_status = PsUnspecified, pl_revision = 1, pl_dag = [], pl_audit = None\<rparr>"

definition demo_request :: list_request where
  "demo_request = \<lparr>lr_filter = \<lparr>lf_tenant = ''t'', lf_project = [], lf_name = [], lf_status = []\<rparr>, lr_size = 1, lr_token = []\<rparr>"

lemma pages_list_every_match_witness:
  "\<exists>ps. follow 3 (pipeline_page memory_pipelines demo_request [(''b'', demo_pl ''b''), (''a'', demo_pl ''a'')]) [] = Some ps \<and>
     sorted (map pl_id ps) \<and> demo_pl ''a'' \<in> set ps"
proof -
  let ?m = "[(''b'', demo_pl ''b''), (''a'', demo_pl ''a'')]"
  have "keyed pl_id ?m" "lf_tenant (lr_filter demo_request) \<noteq> []" by (simp_all add: keyed_def demo_pl_def demo_request_def)
  from pages_list_every_match [OF this] obtain ps where
    ps: "follow (Suc (length ?m)) (pipeline_page memory_pipelines demo_request ?m) [] = Some ps"
      "set ps = {p. \<exists>i. map_of ?m i = Some p \<and> matches_filter (lr_filter demo_request) p}" "sorted (map pl_id ps)" by blast
  have "map_of ?m ''a'' = Some (demo_pl ''a'')" "matches_filter (lr_filter demo_request) (demo_pl ''a'')"
    by (simp_all add: matches_filter_def demo_pl_def demo_request_def)
  then have "demo_pl ''a'' \<in> set ps" unfolding ps(2) by blast
  with ps(1,3) show ?thesis by (intro exI [of _ ps]) (simp add: numeral_3_eq_3)
qed




end
