(* ===== verification/StreamService.thy ===== *)
theory StreamService
  imports Paging Bus GoFloat
begin

section \<open>stream-manager\<close>

text \<open>
  Model of \<open>services/stream-manager\<close>: the store interface with its in-memory and its SQL implementation
  (\<open>internal/store\<close>) and the handlers (\<open>internal/service/stream.go\<close>), which publish a start directive for a new stream.
  \<open>net/url\<close>, the texts of driver errors and clock readings are arguments. A directive's body is the value that is
  encoded; what the publisher answers is ignored by the code.
\<close>

datatype stream_protocol = SpUnspecified | SpRtsp | SpRtmp | SpHls | SpWebrtc | SpFile

datatype stream_health = ShUnspecified | ShGreen | ShYellow | ShRed | ShDisconnected

record stream_rec =
  sm_id :: string
  sm_tenant :: string
  sm_project :: string
  sm_project_tenant :: string
  sm_camera :: string
  sm_site :: string
  sm_name :: string
  sm_protocol :: stream_protocol
  sm_url_redacted :: string
  sm_health :: stream_health
  sm_last_frame :: "time option"
  sm_fps :: fl
  sm_kbps :: int
  sm_audit :: audit_fields

record create_stream_request =
  cs_tenant :: string
  cs_project :: string
  cs_project_tenant :: string
  cs_camera :: string
  cs_site :: string
  cs_name :: string
  cs_protocol :: stream_protocol
  cs_url :: string
  cs_pipeline :: string

record stream_filter =
  sf_tenant :: string
  sf_project :: string
  sf_site :: string
  sf_health :: "stream_health list"

subsection \<open>Redacted URLs\<close>

text \<open>A parsed URL: the parts that are dropped, and the rest.\<close>

record parsed_url =
  ur_user :: "string option"
  ur_query :: string
  ur_fragment :: string
  ur_rest :: string

record url_lib =
  ul_parse :: "string \<Rightarrow> parsed_url option"
  ul_string :: "parsed_url \<Rightarrow> string"

definition redact_url :: "url_lib \<Rightarrow> string \<Rightarrow> string" where
  "redact_url ul s =
     (case ul_parse ul s of None \<Rightarrow> ''redacted'' | Some u \<Rightarrow> ul_string ul (u\<lparr>ur_user := None, ur_query := [], ur_fragment := []\<rparr>))"

subsection \<open>The in-memory store\<close>

type_synonym stream_map = "(string \<times> stream_rec) list"

definition stream_id :: "string \<Rightarrow> string" where
  "stream_id name = ''stream-'' @ to_lower (replace_char (CHR '' '') (CHR ''-'') name)"

definition check_stream :: "create_stream_request \<Rightarrow> string option" where
  "check_stream req =
     (if cs_name req = [] then Some ''stream: name is required''
      else if cs_tenant req = [] then Some ''stream: tenant.id is required''
      else if cs_project req = [] then Some ''stream: project.id is required''
      else if cs_url req = [] then Some ''stream: url is required''
      else None)"

text \<open>The clock is read twice, for both stamps.\<close>

definition new_stream :: "url_lib \<Rightarrow> time \<Rightarrow> time \<Rightarrow> create_stream_request \<Rightarrow> stream_rec" where
  "new_stream ul t1 t2 req =
     \<lparr>sm_id = stream_id (cs_name req), sm_tenant = cs_tenant req, sm_project = cs_project req, sm_project_tenant = cs_project_tenant req,
      sm_camera = cs_camera req, sm_site = cs_site req, sm_name = cs_name req, sm_protocol = cs_protocol req,
      sm_url_redacted = redact_url ul (cs_url req), sm_health = ShDisconnected, sm_last_frame = None, sm_fps = Fin 0, sm_kbps = 0,
      sm_audit = \<lparr>au_created = t1, au_updated = t2, au_version = 1\<rparr>\<rparr>"

definition mem_create_stream :: "url_lib \<Rightarrow> time \<Rightarrow> time \<Rightarrow> create_stream_request \<Rightarrow> stream_map \<Rightarrow> (store_error + stream_rec) \<times> stream_map" where
  "mem_create_stream ul t1 t2 req m =
     (case check_stream req of
        Some e \<Rightarrow> (Inl (StoreError e), m)
      | None \<Rightarrow>
          let st = new_stream ul t1 t2 req in
          if map_of m (sm_id st) \<noteq> None then (Inl (StoreError ''stream: id already exists''), m)
          else (Inr st, AList.update (sm_id st) st m))"

definition mem_get_stream :: "string \<Rightarrow> stream_map \<Rightarrow> store_error + stream_rec" where
  "mem_get_stream i m = (case map_of m i of None \<Rightarrow> Inl StoreNotFound | Some st \<Rightarrow> Inr st)"

definition mem_delete_stream :: "string \<Rightarrow> stream_map \<Rightarrow> store_error option \<times> stream_map" where
  "mem_delete_stream i m = (if map_of m i = None then (Some StoreNotFound, m) else (None, AList.delete i m))"

definition stream_matches :: "stream_filter \<Rightarrow> stream_rec \<Rightarrow> bool" where
  "stream_matches f st \<longleftrightarrow>
     \<not> (sf_tenant f \<noteq> [] \<and> sm_tenant st \<noteq> sf_tenant f) \<and> \<not> (sf_project f \<noteq> [] \<and> sm_project st \<noteq> sf_project f) \<and>
     \<not> (sf_site f \<noteq> [] \<and> sm_site st \<noteq> sf_site f) \<and> \<not> (sf_health f \<noteq> [] \<and> sm_health st \<notin> set (sf_health f))"

definition mem_list_streams :: "stream_filter \<Rightarrow> int \<Rightarrow> string \<Rightarrow> stream_map \<Rightarrow> stream_rec list \<times> string" where
  "mem_list_streams f psize after m =
     (let full = (\<lambda>k. psize > 0 \<and> int k = psize);
          out = scan_ids (stream_matches f) m full after (after = []) (sorted_ids m) [] in
      (out, if full (length out) then sm_id (last out) else []))"

definition mem_update_health :: "time \<Rightarrow> time \<Rightarrow> string \<Rightarrow> stream_health \<Rightarrow> fl \<Rightarrow> int \<Rightarrow> stream_map \<Rightarrow> (store_error + stream_rec) \<times> stream_map" where
  "mem_update_health t1 t2 i h fps kbps m =
     (case map_of m i of
        None \<Rightarrow> (Inl StoreNotFound, m)
      | Some st \<Rightarrow>
          let st1 = st\<lparr>sm_health := h, sm_fps := fps, sm_kbps := kbps, sm_last_frame := Some t2,
            sm_audit := (sm_audit st)\<lparr>au_updated := t1, au_version := i64 (au_version (sm_audit st) + 1)\<rparr>\<rparr> in
          (Inr st1, AList.update i st1 m))"

subsection \<open>The SQL store\<close>

record stream_row =
  sw_id :: string
  sw_tenant :: string
  sw_project :: string
  sw_camera :: string
  sw_site :: string
  sw_name :: string
  sw_protocol :: stream_protocol
  sw_url :: string
  sw_health :: stream_health
  sw_fps :: fl
  sw_kbps :: int
  sw_version :: int
  sw_created :: time
  sw_updated :: time
  sw_last_frame :: "time option"

definition assemble_stream :: "stream_row \<Rightarrow> stream_rec" where
  "assemble_stream r =
     \<lparr>sm_id = sw_id r, sm_tenant = sw_tenant r, sm_project = sw_project r, sm_project_tenant = sw_tenant r, sm_camera = sw_camera r,
      sm_site = sw_site r, sm_name = sw_name r, sm_protocol = sw_protocol r, sm_url_redacted = sw_url r, sm_health = sw_health r,
      sm_last_frame = None, sm_fps = sw_fps r, sm_kbps = sw_kbps r,
      sm_audit = \<lparr>au_created = sw_created r, au_updated = sw_updated r, au_version = sw_version r\<rparr>\<rparr>"

definition sql_create_stream :: "sql_driver \<Rightarrow> url_lib \<Rightarrow> time \<Rightarrow> create_stream_request \<Rightarrow> stream_row list \<Rightarrow>
    (store_error + stream_rec) \<times> stream_row list" where
  "sql_create_stream dr ul now req t =
     (case check_stream req of
        Some e \<Rightarrow> (Inl (StoreError e), t)
      | None \<Rightarrow>
          let st = new_stream ul now now req in
          if sm_id st \<in> sw_id ` set t then (Inl (StoreError (dr_duplicate dr)), t)
          else (Inr st, t @ [\<lparr>sw_id = sm_id st, sw_tenant = sm_tenant st, sw_project = sm_project st, sw_camera = sm_camera st, sw_site = sm_site st,
            sw_name = sm_name st, sw_protocol = sm_protocol st, sw_url = sm_url_redacted st, sw_health = ShDisconnected, sw_fps = Fin 0,
            sw_kbps = 0, sw_version = 1, sw_created = now, sw_updated = now, sw_last_frame = None\<rparr>]))"

definition sql_get_stream :: "string \<Rightarrow> stream_row list \<Rightarrow> store_error + stream_rec" where
  "sql_get_stream i t = (case find (\<lambda>r. sw_id r = i) t of None \<Rightarrow> Inl StoreNotFound | Some r \<Rightarrow> Inr (assemble_stream r))"

definition sql_delete_stream :: "string \<Rightarrow> stream_row list \<Rightarrow> store_error option \<times> stream_row list" where
  "sql_delete_stream i t = (if i \<notin> sw_id ` set t then (Some StoreNotFound, t) else (None, filter (\<lambda>r. sw_id r \<noteq> i) t))"

definition sql_update_health :: "time \<Rightarrow> string \<Rightarrow> stream_health \<Rightarrow> fl \<Rightarrow> int \<Rightarrow> stream_row list \<Rightarrow> (store_error + stream_rec) \<times> stream_row list" where
  "sql_update_health now i h fps kbps t =
     (if i \<notin> sw_id ` set t then (Inl StoreNotFound, t)
      else let t1 = map (\<lambda>r. if sw_id r = i then r\<lparr>sw_health := h, sw_fps := fps, sw_kbps := kbps, sw_last_frame := Some now,
            sw_updated := now, sw_version := i64 (sw_version r + 1)\<rparr> else r) t in
        (sql_get_stream i t1, t1))"

definition stream_row_matches :: "stream_filter \<Rightarrow> stream_row \<Rightarrow> bool" where
  "stream_row_matches f r \<longleftrightarrow>
     sw_tenant r = sf_tenant f \<and> (sf_project f = [] \<or> sw_project r = sf_project f) \<and>
     (sf_site f = [] \<or> sw_site r = sf_site f) \<and> (sf_health f = [] \<or> sw_health r \<in> set (sf_health f))"

definition sql_list_streams :: "stream_filter \<Rightarrow> int \<Rightarrow> string \<Rightarrow> stream_row list \<Rightarrow> stream_rec list \<times> string" where
  "sql_list_streams f psize after t =
     (let n = (if psize \<le> 0 then 50 else nat psize); p = query_page (stream_row_matches f) sw_id n t after in
      (map assemble_stream (fst p), snd p))"

subsection \<open>The handlers\<close>

record 's stream_ops =
  so_create :: "time \<Rightarrow> time \<Rightarrow> create_stream_request \<Rightarrow> 's \<Rightarrow> (store_error + stream_rec) \<times> 's"
  so_get :: "string \<Rightarrow> 's \<Rightarrow> store_error + stream_rec"
  so_delete :: "string \<Rightarrow> 's \<Rightarrow> store_error option \<times> 's"
  so_list :: "stream_filter \<Rightarrow> int \<Rightarrow> string \<Rightarrow> 's \<Rightarrow> stream_rec list \<times> string"
  so_update_health :: "time \<Rightarrow> time \<Rightarrow> string \<Rightarrow> stream_health \<Rightarrow> fl \<Rightarrow> int \<Rightarrow> 's \<Rightarrow> (store_error + stream_rec) \<times> 's"

definition memory_streams :: "url_lib \<Rightarrow> stream_map stream_ops" where
  "memory_streams ul = \<lparr>so_create = mem_create_stream ul, so_get = mem_get_stream, so_delete = mem_delete_stream, so_list = mem_list_streams,
     so_update_health = mem_update_health\<rparr>"

definition sql_streams :: "sql_driver \<Rightarrow> url_lib \<Rightarrow> stream_row list stream_ops" where
  "sql_streams dr ul = \<lparr>so_create = (\<lambda>t1 t2. sql_create_stream dr ul t1), so_get = sql_get_stream, so_delete = sql_delete_stream,
     so_list = sql_list_streams, so_update_health = (\<lambda>t1 t2. sql_update_health t1)\<rparr>"

definition get_stream :: "'s stream_ops \<Rightarrow> string \<Rightarrow> 's \<Rightarrow> rpc_error + stream_rec" where
  "get_stream ops i s =
     (if i = [] then Inl (InvalidArgument ''id is required'')
      else case so_get ops i s of
        Inl StoreNotFound \<Rightarrow> Inl (NotFound i)
      | Inl e \<Rightarrow> Inl (Internal ''lookup failed'' e)
      | Inr st \<Rightarrow> Inr st)"

record list_streams_request =
  sr_filter :: stream_filter
  sr_size :: int
  sr_token :: string

definition list_streams :: "'s stream_ops \<Rightarrow> list_streams_request \<Rightarrow> 's \<Rightarrow> rpc_error + (stream_rec list \<times> string)" where
  "list_streams ops req s =
     (if sf_tenant (sr_filter req) = [] then Inl (InvalidArgument ''tenant_id is required'')
      else Inr (so_list ops (sr_filter req) (clamp (sr_size req) 50 1 200) (sr_token req) s))"

record start_directive =
  sd_stream :: string
  sd_tenant :: string
  sd_pipeline :: string
  sd_protocol :: stream_protocol
  sd_url :: string

definition dispatch_stream :: "(start_directive \<Rightarrow> string) \<Rightarrow> stream_rec \<Rightarrow> string \<Rightarrow> bus_message" where
  "dispatch_stream enc st pipeline =
     \<lparr>bm_subject = ''operator.control.'' @ pipeline,
      bm_data = enc \<lparr>sd_stream = sm_id st, sd_tenant = sm_tenant st, sd_pipeline = pipeline, sd_protocol = sm_protocol st, sd_url = sm_url_redacted st\<rparr>,
      bm_headers = []\<rparr>"

text \<open>A created stream comes with the messages that are published; \<open>pub\<close> tells whether there is a publisher.\<close>

definition create_stream :: "(start_directive \<Rightarrow> string) \<Rightarrow> bool \<Rightarrow> 's stream_ops \<Rightarrow> time \<Rightarrow> time \<Rightarrow> create_stream_request \<Rightarrow> 's \<Rightarrow>
    (store_error + stream_rec) \<times> bus_message list \<times> 's" where
  "create_stream enc pub ops t1 t2 req s =
     (case so_create ops t1 t2 req s of
        (Inl e, s1) \<Rightarrow> (Inl e, [], s1)
      | (Inr st, s1) \<Rightarrow> (Inr st, (if pub \<and> cs_pipeline req \<noteq> [] then [dispatch_stream enc st (cs_pipeline req)] else []), s1))"

definition delete_stream :: "'s stream_ops \<Rightarrow> string \<Rightarrow> 's \<Rightarrow> rpc_error option \<times> 's" where
  "delete_stream ops i s =
     (if i = [] then (Some (InvalidArgument ''id is required''), s)
      else case so_delete ops i s of
        (Some StoreNotFound, s1) \<Rightarrow> (Some (NotFound i), s1)
      | (Some e, s1) \<Rightarrow> (Some (Internal ''delete failed'' e), s1)
      | (None, s1) \<Rightarrow> (None, s1))"

subsection \<open>The listings keep the contract\<close>

definition stream_page :: "'s stream_ops \<Rightarrow> list_streams_request \<Rightarrow> 's \<Rightarrow> string \<Rightarrow> stream_rec list \<times> string" where
  "stream_page ops req s after = (case list_streams ops (req\<lparr>sr_token := after\<rparr>) s of Inr r \<Rightarrow> r | Inl _ \<Rightarrow> ([], []))"

definition stream_page_len :: "list_streams_request \<Rightarrow> nat" where
  "stream_page_len req = nat (clamp (sr_size req) 50 1 200)"

lemma stream_page_len: "0 < stream_page_len req" "int (stream_page_len req) = clamp (sr_size req) 50 1 200"
  using clamp_bounds [of "sr_size req"] by (simp_all add: stream_page_len_def)

lemma mem_stream_page:
  assumes "sf_tenant (sr_filter req) \<noteq> []"
  shows "stream_page (memory_streams ul) req m after = scan_page (stream_matches (sr_filter req)) sm_id (\<lambda>k. k = stream_page_len req) m after"
  using assms stream_page_len(1) [of req]
  by (simp add: stream_page_def list_streams_def memory_streams_def mem_list_streams_def scan_page_def Let_def flip: stream_page_len(2))

interpretation ms: paged_listing "stream_page (memory_streams ul) req" "listed (stream_matches (sr_filter req))" sm_id
  "\<lambda>m. keyed sm_id m \<and> sf_tenant (sr_filter req) \<noteq> []" "\<lambda>m after. after = [] \<or> after \<in> fst ` set m" for ul req
proof (unfold_locales, goal_cases)
  case (1 m)
  then show ?case using listed_facts [of sm_id m "stream_matches (sr_filter req)"] by blast
next
  case (3 m v)
  then show ?case using listed_facts [of sm_id m "stream_matches (sr_filter req)"] by blast
next
  case (4 m after)
  then show ?case using scan_page_laws(1) [OF _ stream_page_len(1), of sm_id m "\<lambda>k. k = stream_page_len req" req] by (simp add: mem_stream_page)
next
  case (5 m after)
  then show ?case using scan_page_laws(2) [OF _ stream_page_len(1), of sm_id m "\<lambda>k. k = stream_page_len req" req] by (simp add: mem_stream_page)
next
  case (6 m after)
  then show ?case using scan_page_laws(3) [OF _ stream_page_len(1), of sm_id m "\<lambda>k. k = stream_page_len req" req] by (simp add: mem_stream_page)
qed simp

lemma sql_stream_page:
  "sf_tenant (sr_filter req) \<noteq> [] \<Longrightarrow>
   stream_page (sql_streams dr ul) req t after = map_prod (map assemble_stream) id (query_page (stream_row_matches (sr_filter req)) sw_id (stream_page_len req) t after)"
  using clamp_bounds [of "sr_size req"]
  by (simp add: stream_page_def list_streams_def sql_streams_def sql_list_streams_def stream_page_len_def Let_def map_prod_def split: prod.split)

lemma sm_id_assemble [simp]: "sm_id (assemble_stream r) = sw_id r"
  by (simp add: assemble_stream_def)

lemma filter_assemble_stream: "filter (\<lambda>v. after < sm_id v) (map assemble_stream rs) = map assemble_stream (filter (\<lambda>r. after < sw_id r) rs)"
  by (simp add: filter_map comp_def)

interpretation ss: paged_listing "stream_page (sql_streams dr ul) req"
  "\<lambda>t. map assemble_stream (table_rows (stream_row_matches (sr_filter req)) sw_id t)" sm_id
  "\<lambda>t. primary_key sw_id t \<and> sf_tenant (sr_filter req) \<noteq> []" "\<lambda>_ _. True" for dr ul req
proof (unfold_locales, goal_cases)
  case (1 t)
  then show ?case using table_rows_facts [of sw_id t "stream_row_matches (sr_filter req)"] by (auto simp: comp_def)
next
  case (4 t after)
  then show ?case using query_page_laws(1) [OF _ stream_page_len(1), of sw_id t "stream_row_matches (sr_filter req)"]
    by (simp add: sql_stream_page filter_assemble_stream map_mono_prefix)
next
  case (5 t after)
  then show ?case using query_page_laws(2) [OF _ stream_page_len(1), of sw_id t "stream_row_matches (sr_filter req)"]
    by (simp add: sql_stream_page filter_assemble_stream)
next
  case (6 t after)
  then show ?case using query_page_laws(3) [OF _ stream_page_len(1), of sw_id t "stream_row_matches (sr_filter req)"]
    by (simp add: sql_stream_page last_map)
qed simp_all

subsection \<open>Properties\<close>

text \<open>
  When the stream a page ended with is deleted before the next page is asked for, the in-memory store answers with an empty
  last page and the client never sees the streams behind it; the SQL store goes on with them.
\<close>

theorem deleted_cursor_ends_listing:
  assumes "sf_tenant (sr_filter req) \<noteq> []"
    and "keyed sm_id m" "delete_stream (memory_streams ul) cur m = (None, m')"
    and "primary_key sw_id t" "delete_stream (sql_streams dr ul) cur t = (None, t')"
  shows "stream_page (memory_streams ul) req m' cur = ([], []) \<and>
    follow (Suc (length t')) (stream_page (sql_streams dr ul) req t') cur =
      Some (filter (\<lambda>st. cur < sm_id st) (map assemble_stream (table_rows (stream_row_matches (sr_filter req)) sw_id t)))"
proof
  have cur: "cur \<noteq> []" using assms(3) by (auto simp: delete_stream_def)
  have m': "m' = AList.delete cur m" using assms(3) cur
    by (auto simp: delete_stream_def memory_streams_def mem_delete_stream_def split: if_splits)
  show "stream_page (memory_streams ul) req m' cur = ([], [])"
  proof -
    have "cur \<notin> fst ` set m'" by (auto simp: m' AList.delete_eq)
    from scan_page_lost [OF cur this, of "\<lambda>k. k = stream_page_len req"] show ?thesis
      using stream_page_len(1) [of req] assms(1) by (simp add: mem_stream_page)
  qed
  have t': "t' = filter (\<lambda>r. sw_id r \<noteq> cur) t" using assms(5) cur
    by (auto simp: delete_stream_def sql_streams_def sql_delete_stream_def split: if_splits)
  let ?rows = "\<lambda>t. table_rows (stream_row_matches (sr_filter req)) sw_id t"
  have "primary_key sw_id t'" using assms(4) by (auto simp: t' primary_key_def distinct_map_filter)
  moreover have "length (filter (\<lambda>v. cur < sm_id v) (map assemble_stream (?rows t'))) < Suc (length t')"
    using le_trans [OF length_filter_le, of "map assemble_stream (?rows t')" "length t'"] by (simp add: table_rows_def less_Suc_eq_le)
  ultimately have "follow (Suc (length t')) (stream_page (sql_streams dr ul) req t') cur =
      Some (filter (\<lambda>v. cur < sm_id v) (map assemble_stream (?rows t')))"
    using ss.follow_from [of t' req cur "Suc (length t')" dr ul] assms(1) by (simp del: follow.simps)
  also have "filter (\<lambda>v. cur < sm_id v) (map assemble_stream (?rows t')) = filter (\<lambda>v. cur < sm_id v) (map assemble_stream (?rows t))"
  proof -
    have "filter (\<lambda>r. cur < sw_id r) (?rows t') = filter (\<lambda>r. cur < sw_id r) (?rows t)"
      unfolding table_rows_def filter_sort_key t' filter_filter by (rule arg_cong [of _ _ "sort_key sw_id"], rule filter_cong) auto
    then show ?thesis by (simp add: filter_assemble_stream)
  qed
  finally show "follow (Suc (length t')) (stream_page (sql_streams dr ul) req t') cur =
      Some (filter (\<lambda>st. cur < sm_id st) (map assemble_stream (?rows t)))" .
qed

text \<open>The id of a stream is made of its name alone: a second tenant cannot use a name that another tenant has taken.\<close>

lemma names_cross_tenants:
  assumes "mem_create_stream ul t1 t2 req m = (Inr st, m')" "cs_name req' = cs_name req" "check_stream req' = None"
  shows "mem_create_stream ul t3 t4 req' m' = (Inl (StoreError ''stream: id already exists''), m')"
  using assms by (auto simp: mem_create_stream_def new_stream_def Let_def split: option.splits if_splits)

text \<open>URLs that differ in the credentials, the query or the fragment only are stored alike.\<close>

lemma redaction_hides:
  assumes "ul_parse ul a = Some u" "ul_parse ul b = Some v" "ur_rest u = ur_rest v"
  shows "redact_url ul a = redact_url ul b"
  using assms by (cases u; cases v) (simp add: redact_url_def)

text \<open>The SQL store writes the time of the last frame and never reads it back; the in-memory store keeps it.\<close>

lemma sql_forgets_last_frame:
  "sql_get_stream i t = Inr st \<Longrightarrow> sm_last_frame st = None"
  "mem_update_health t1 t2 i h fps kbps m = (Inr st, m') \<Longrightarrow> sm_last_frame st = Some t2"
  by (auto simp: sql_get_stream_def assemble_stream_def mem_update_health_def Let_def split: option.splits)

lemma create_announces:
  assumes "create_stream enc True ops t1 t2 req s = (Inr st, msgs, s')" "cs_pipeline req \<noteq> []"
  shows "map bm_subject msgs = [''operator.control.'' @ cs_pipeline req]"
  using assms by (auto simp: create_stream_def dispatch_stream_def split: sum.splits prod.splits)

lemma mem_create_keyed: "keyed sm_id m \<Longrightarrow> keyed sm_id (snd (mem_create_stream ul t1 t2 req m))"
  by (auto simp: mem_create_stream_def Let_def new_stream_def stream_id_def split: option.split intro!: keyed_update)

lemma mem_delete_keyed: "keyed sm_id m \<Longrightarrow> keyed sm_id (snd (mem_delete_stream i m))"
  by (simp add: mem_delete_stream_def keyed_delete)

subsection \<open>Witness\<close>

definition demo_row :: "string \<Rightarrow> stream_row" where
  "demo_row i = \<lparr>sw_id = i, sw_tenant = ''t'', sw_project = ''pr'', sw_camera = [], sw_site = [], sw_name = i, sw_protocol = SpRtsp, sw_url = [],
     sw_health = ShGreen, sw_fps = Fin 0, sw_kbps = 0, sw_version = 1, sw_created = 0, sw_updated = 0, sw_last_frame = None\<rparr>"

definition demo_streams :: list_streams_request where
  "demo_streams = \<lparr>sr_filter = \<lparr>sf_tenant = ''t'', sf_project = [], sf_site = [], sf_health = []\<rparr>, sr_size = 1, sr_token = []\<rparr>"

lemma deleted_cursor_ends_listing_witness:
  "\<exists>m' t' sts. stream_page (memory_streams \<lparr>ul_parse = (\<lambda>_. None), ul_string = ur_rest\<rparr>) demo_streams m' ''a'' = ([], []) \<and>
     follow 2 (stream_page (sql_streams \<lparr>dr_duplicate = [], dr_like = sublist\<rparr> \<lparr>ul_parse = (\<lambda>_. None), ul_string = ur_rest\<rparr>) demo_streams t') ''a'' = Some sts \<and>
     map sm_id sts = [''b''] \<and> map fst m' = [''b'']"
proof -
  let ?ul = "\<lparr>ul_parse = (\<lambda>_. None), ul_string = ur_rest\<rparr>" and ?dr = "\<lparr>dr_duplicate = [], dr_like = sublist\<rparr>"
  let ?t = "[demo_row ''a'', demo_row ''b'']" and ?m = "[(''a'', assemble_stream (demo_row ''a'')), (''b'', assemble_stream (demo_row ''b''))]"
  have h: "sf_tenant (sr_filter demo_streams) \<noteq> []" "keyed sm_id ?m" "primary_key sw_id ?t"
    by (simp_all add: demo_streams_def keyed_def primary_key_def demo_row_def)
  have d: "delete_stream (memory_streams ?ul) ''a'' ?m = (None, [(''b'', assemble_stream (demo_row ''b''))])"
    "delete_stream (sql_streams ?dr ?ul) ''a'' ?t = (None, [demo_row ''b''])"
    by (simp_all add: delete_stream_def memory_streams_def sql_streams_def mem_delete_stream_def sql_delete_stream_def demo_row_def)
  note r = deleted_cursor_ends_listing [OF h(1,2) d(1) h(3) d(2)]
  have "table_rows (stream_row_matches (sr_filter demo_streams)) sw_id ?t = ?t"
    by (simp add: table_rows_def stream_row_matches_def demo_streams_def demo_row_def)
  then have "map sm_id (filter (\<lambda>st. ''a'' < sm_id st) (map assemble_stream (table_rows (stream_row_matches (sr_filter demo_streams)) sw_id ?t))) = [''b'']"
    by (simp add: demo_row_def)
  with r show ?thesis by (intro exI conjI) (auto simp: numeral_2_eq_2 simp del: follow.simps)
qed

end
