(* ===== verification/Gateway.thy ===== *)
theory Gateway
  imports GoBase64 Http PipelineService StreamService
begin

section \<open>api-gateway: pipelines and streams, with signed page tokens\<close>

text \<open>
  Model of \<open>pkg/platform/pagination/cursor.go\<close> and of the handlers in \<open>services/api-gateway/internal/handlers\<close>
  (\<open>pipelines.go\<close>, \<open>streams.go\<close>) over the services of the previous theories, which the clients of \<open>internal/upstream\<close> call; a
  broken connection is not modelled. HMAC-SHA256 and the JSON form of a cursor are arguments, as is the
  quoting of an id in a message. A time stamp of a JSON answer is kept as its second.
\<close>

subsection \<open>Cursors\<close>

record cursor =
  cu_kind :: string
  cu_last :: string
  cu_issued :: time

record cursor_lib =
  cl_marshal :: "cursor \<Rightarrow> string"
  cl_unmarshal :: "string \<Rightarrow> cursor option"
  cl_mac :: "string \<Rightarrow> string \<Rightarrow> string"

definition clamp_page_size :: "int \<Rightarrow> int" where
  "clamp_page_size n = (if n \<le> 0 then 50 else if n > 200 then 200 else n)"

definition encode_cursor :: "cursor_lib \<Rightarrow> string \<Rightarrow> time \<Rightarrow> string \<Rightarrow> string \<Rightarrow> string" where
  "encode_cursor cl key now kind last_id =
     (if last_id = [] then []
      else let body = cl_marshal cl \<lparr>cu_kind = kind, cu_last = last_id, cu_issued = now\<rparr> in
        b64url_encode body @ ''.'' @ b64url_encode (cl_mac cl key body))"

text \<open>\<open>strings.SplitN(token, ".", 2)\<close>: None when there is no dot.\<close>

fun split_dot :: "string \<Rightarrow> (string \<times> string) option" where
  "split_dot [] = None"
| "split_dot (c # s) = (if c = CHR ''.'' then Some ([], s) else map_option (\<lambda>(a, b). (c # a, b)) (split_dot s))"

definition decode_cursor :: "cursor_lib \<Rightarrow> string \<Rightarrow> string \<Rightarrow> string \<Rightarrow> cursor option" where
  "decode_cursor cl key kind token =
     (if token = [] then Some \<lparr>cu_kind = [], cu_last = [], cu_issued = 0\<rparr>
      else case split_dot token of
        None \<Rightarrow> None
      | Some (a, b) \<Rightarrow>
          (case (b64url_decode_strict a, b64url_decode_strict b) of
             (Some body, Some sig) \<Rightarrow>
               if sig \<noteq> cl_mac cl key body then None
               else (case cl_unmarshal cl body of
                 None \<Rightarrow> None
               | Some c \<Rightarrow> if cu_kind c \<noteq> kind then None else Some c)
           | _ \<Rightarrow> None))"

lemma split_dot_Some: "split_dot s = Some (a, b) \<Longrightarrow> s = a @ ''.'' @ b \<and> CHR ''.'' \<notin> set a"
  by (induction s arbitrary: a) (auto split: if_splits)

lemma split_dot_append: "CHR ''.'' \<notin> set a \<Longrightarrow> split_dot (a @ CHR ''.'' # b) = Some (a, b)"
  by (induction a) auto

definition cursor_lib_ok :: "cursor_lib \<Rightarrow> bool" where
  "cursor_lib_ok cl \<longleftrightarrow> (\<forall>c. cl_unmarshal cl (cl_marshal cl c) = Some c)"

lemma cursor_decode_encode:
  assumes "cursor_lib_ok cl" "last_id \<noteq> []"
  shows "decode_cursor cl key kind (encode_cursor cl key now kind last_id) = Some \<lparr>cu_kind = kind, cu_last = last_id, cu_issued = now\<rparr>"
  using assms split_dot_append [OF conjunct1 [OF b64url_encode_plain]]
  by (simp add: decode_cursor_def encode_cursor_def Let_def b64url_roundtrip cursor_lib_ok_def)

lemma encode_cursor_Nil [simp]: "encode_cursor cl key now kind last_id = [] \<longleftrightarrow> last_id = []"
  by (simp add: encode_cursor_def Let_def)

lemma decode_canonical:
  assumes "decode_cursor cl key kind token = Some c" "token \<noteq> []"
  shows "\<exists>body. filter (\<lambda>c. \<not> line_break c) token = b64url_encode body @ ''.'' @ b64url_encode (cl_mac cl key body) \<and>
    cl_unmarshal cl body = Some c \<and> cu_kind c = kind"
proof -
  obtain a b body where p: "split_dot token = Some (a, b)" "b64url_decode_strict a = Some body"
    "b64url_decode_strict b = Some (cl_mac cl key body)" "cl_unmarshal cl body = Some c" "cu_kind c = kind"
    using assms by (auto simp: decode_cursor_def split: option.splits if_splits)
  have "token = a @ ''.'' @ b" using split_dot_Some [OF p(1)] by blast
  moreover have "\<not> line_break (CHR ''.'')" by (simp add: line_break_def)
  ultimately show ?thesis using b64url_canonical [OF p(2)] b64url_canonical [OF p(3)] p(4,5)
    by (intro exI [of _ body]) simp
qed

subsection \<open>Answers\<close>

fun status_string :: "pipeline_status \<Rightarrow> string" where
  "status_string PsDraft = ''draft''"
| "status_string PsValidated = ''validated''"
| "status_string PsDeploying = ''deploying''"
| "status_string PsRunning = ''running''"
| "status_string PsDegraded = ''degraded''"
| "status_string PsPaused = ''paused''"
| "status_string PsFailed = ''failed''"
| "status_string PsDeleted = ''deleted''"
| "status_string PsUnspecified = ''unspecified''"

definition parse_status :: "string \<Rightarrow> pipeline_status option" where
  "parse_status s =
     (let l = to_lower s in
      if l = ''draft'' then Some PsDraft else if l = ''validated'' then Some PsValidated else if l = ''deploying'' then Some PsDeploying
      else if l = ''running'' then Some PsRunning else if l = ''degraded'' then Some PsDegraded else if l = ''paused'' then Some PsPaused
      else if l = ''failed'' then Some PsFailed else None)"

definition parse_statuses :: "string list \<Rightarrow> pipeline_status list" where
  "parse_statuses ss = List.map_filter parse_status ss"

record pipeline_json =
  pj_id :: string
  pj_tenant :: string
  pj_project :: string
  pj_name :: string
  pj_description :: string
  pj_labels :: "string list"
  pj_status :: string
  pj_revision :: int
  pj_dag :: string
  pj_created :: "int option"
  pj_updated :: "int option"
  pj_version :: int

definition to_json :: "pipeline_rec \<Rightarrow> pipeline_json" where
  "to_json p =
     \<lparr>pj_id = pl_id p, pj_tenant = pl_tenant p, pj_project = pl_project p, pj_name = pl_name p, pj_description = pl_description p,
      pj_labels = pl_labels p, pj_status = status_string (pl_status p), pj_revision = pl_revision p, pj_dag = pl_dag p,
      pj_created = map_option (\<lambda>a. au_created a div second) (pl_audit p), pj_updated = map_option (\<lambda>a. au_updated a div second) (pl_audit p),
      pj_version = (case pl_audit p of None \<Rightarrow> 0 | Some a \<Rightarrow> au_version a)\<rparr>"

definition rpc_problem :: "(string \<Rightarrow> string) \<Rightarrow> string \<Rightarrow> rpc_error \<Rightarrow> problem" where
  "rpc_problem quote what e =
     (case e of
        NotFound i \<Rightarrow> not_found (what @ '' '' @ quote i @ '' not found'')
      | InvalidArgument msg \<Rightarrow> bad_request msg
      | Internal _ _ \<Rightarrow> internal ''internal upstream error''
      | Failed _ \<Rightarrow> internal ''internal upstream error'')"

text \<open>Besides problems there are refusals that list the fields.\<close>

datatype refusal = Problem problem | Unprocessable string "string list"

subsection \<open>Pipelines\<close>

record gateway =
  gw_cursors :: cursor_lib
  gw_key :: string
  gw_quote :: "string \<Rightarrow> string"

text \<open>The parameters of a list request, as strings; a missing one is empty.\<close>

record list_query =
  q_size :: string
  q_token :: string
  q_project :: string
  q_name :: string
  q_status :: "string list"

definition i32 :: "int \<Rightarrow> int" where
  "i32 x = (x + 2 ^ 31) mod 2 ^ 32 - 2 ^ 31"

definition query_size :: "string \<Rightarrow> int option" where
  "query_size s = (if s = [] then Some 50 else map_option (\<lambda>n. clamp_page_size (i32 n)) (atoi s))"

definition gateway_id :: "string \<Rightarrow> bool" where
  "gateway_id i \<longleftrightarrow> i \<noteq> [] \<and> CHR ''/'' \<notin> set i"

definition gw_get_pipeline :: "gateway \<Rightarrow> 's pipeline_ops \<Rightarrow> string \<Rightarrow> string \<Rightarrow> 's \<Rightarrow> problem + pipeline_json" where
  "gw_get_pipeline gw ops tenant i s =
     (if \<not> gateway_id i then Inl (not_found ''pipeline not found'')
      else case get_pipeline ops i s of
        Inl (NotFound _) \<Rightarrow> Inl (not_found ''pipeline not found'')
      | Inl e \<Rightarrow> Inl (rpc_problem (gw_quote gw) ''pipeline'' e)
      | Inr p \<Rightarrow> if pl_tenant p \<noteq> tenant then Inl (not_found ''pipeline not found'') else Inr (to_json p))"

definition gw_list_request :: "string \<Rightarrow> list_query \<Rightarrow> int \<Rightarrow> string \<Rightarrow> list_request" where
  "gw_list_request tenant q psize after =
     \<lparr>lr_filter = \<lparr>lf_tenant = tenant, lf_project = q_project q, lf_name = q_name q, lf_status = parse_statuses (q_status q)\<rparr>,
      lr_size = psize, lr_token = after\<rparr>"

text \<open>A listing may panic with the store: None.\<close>

definition gw_list_pipelines :: "gateway \<Rightarrow> 's pipeline_ops \<Rightarrow> time \<Rightarrow> string \<Rightarrow> list_query \<Rightarrow> 's \<Rightarrow> (problem + (pipeline_json list \<times> string)) option" where
  "gw_list_pipelines gw ops now tenant q s =
     (case query_size (q_size q) of
        None \<Rightarrow> Some (Inl (bad_request ''page_size must be an integer''))
      | Some psize \<Rightarrow>
          (case decode_cursor (gw_cursors gw) (gw_key gw) ''pipelines'' (q_token q) of
             None \<Rightarrow> Some (Inl (bad_request ''invalid page_token''))
           | Some c \<Rightarrow>
               (case list_pipelines ops (gw_list_request tenant q psize (cu_last c)) s of
                  None \<Rightarrow> None
                | Some (Inl e) \<Rightarrow> Some (Inl (rpc_problem (gw_quote gw) ''pipeline'' e))
                | Some (Inr (ps, next)) \<Rightarrow>
                    Some (Inr (map to_json ps, if next \<noteq> [] then encode_cursor (gw_cursors gw) (gw_key gw) now ''pipelines'' next else [])))))"

text \<open>The body of a create request, None when it does not decode.\<close>

record create_body =
  cb_project :: string
  cb_name :: string
  cb_description :: string
  cb_labels :: "string list"
  cb_dag :: string

definition gw_create_pipeline :: "gateway \<Rightarrow> 's pipeline_ops \<Rightarrow> time \<Rightarrow> string \<Rightarrow> string \<Rightarrow> create_body option \<Rightarrow> 's \<Rightarrow> (refusal + pipeline_json) \<times> 's" where
  "gw_create_pipeline gw ops now sfx tenant body s =
     (case body of
        None \<Rightarrow> (Inl (Problem (bad_request ''invalid JSON body'')), s)
      | Some b \<Rightarrow>
          let bad = (if trim_space (cb_name b) = [] then [''name''] else []) @ (if trim_space (cb_project b) = [] then [''project_id''] else []) in
          if bad \<noteq> [] then (Inl (Unprocessable ''invalid pipeline'' bad), s)
          else case create_pipeline ops now sfx
              \<lparr>pl_id = [], pl_tenant = tenant, pl_project = cb_project b, pl_project_tenant = tenant, pl_name = cb_name b,
               pl_description = cb_description b, pl_labels = cb_labels b, pl_status = PsUnspecified, pl_revision = 0, pl_dag = cb_dag b,
               pl_audit = None\<rparr> s of
            (Inl e, s1) \<Rightarrow> (Inl (Problem (rpc_problem (gw_quote gw) ''pipeline'' e)), s1)
          | (Inr p, s1) \<Rightarrow> (Inr (to_json p), s1))"

definition gw_deploy_pipeline :: "gateway \<Rightarrow> 's pipeline_ops \<Rightarrow> time \<Rightarrow> string + string \<Rightarrow> string \<Rightarrow> string \<Rightarrow> 's \<Rightarrow> (problem + (string \<times> string)) \<times> 's" where
  "gw_deploy_pipeline gw ops now answer tenant i s =
     (if \<not> gateway_id i then (Inl (not_found ''pipeline not found''), s)
      else case deploy_pipeline ops now answer i s of
        (Inl e, s1) \<Rightarrow> (Inl (rpc_problem (gw_quote gw) ''pipeline'' e), s1)
      | (Inr (wid, st), s1) \<Rightarrow> (Inr (wid, status_string st), s1))"

subsection \<open>Streams\<close>

fun protocol_string :: "stream_protocol \<Rightarrow> string" where
  "protocol_string SpRtsp = ''rtsp''"
| "protocol_string SpRtmp = ''rtmp''"
| "protocol_string SpHls = ''hls''"
| "protocol_string SpWebrtc = ''webrtc''"
| "protocol_string SpFile = ''file''"
| "protocol_string SpUnspecified = ''unspecified''"

definition parse_protocol :: "string \<Rightarrow> stream_protocol" where
  "parse_protocol s =
     (let l = to_lower s in
      if l = ''rtsp'' then SpRtsp else if l = ''rtmp'' then SpRtmp else if l = ''hls'' then SpHls
      else if l = ''webrtc'' then SpWebrtc else if l = ''file'' then SpFile else SpUnspecified)"

fun health_string :: "stream_health \<Rightarrow> string" where
  "health_string ShGreen = ''green''"
| "health_string ShYellow = ''yellow''"
| "health_string ShRed = ''red''"
| "health_string ShDisconnected = ''disconnected''"
| "health_string ShUnspecified = ''unspecified''"

record stream_json =
  sj_id :: string
  sj_tenant :: string
  sj_project :: string
  sj_camera :: string
  sj_site :: string
  sj_name :: string
  sj_protocol :: string
  sj_url :: string
  sj_health :: string
  sj_fps :: fl
  sj_kbps :: int

definition stream_to_json :: "stream_rec \<Rightarrow> stream_json" where
  "stream_to_json st =
     \<lparr>sj_id = sm_id st, sj_tenant = sm_tenant st, sj_project = sm_project st, sj_camera = sm_camera st, sj_site = sm_site st, sj_name = sm_name st,
      sj_protocol = protocol_string (sm_protocol st), sj_url = sm_url_redacted st, sj_health = health_string (sm_health st),
      sj_fps = sm_fps st, sj_kbps = sm_kbps st\<rparr>"

definition gw_get_stream :: "gateway \<Rightarrow> 's stream_ops \<Rightarrow> string \<Rightarrow> string \<Rightarrow> 's \<Rightarrow> problem + stream_json" where
  "gw_get_stream gw ops tenant i s =
     (if \<not> gateway_id i then Inl (not_found ''stream not found'')
      else case get_stream ops i s of
        Inl (NotFound _) \<Rightarrow> Inl (not_found ''stream not found'')
      | Inl e \<Rightarrow> Inl (rpc_problem (gw_quote gw) ''stream'' e)
      | Inr st \<Rightarrow> if sm_tenant st \<noteq> tenant then Inl (not_found ''stream not found'') else Inr (stream_to_json st))"

text \<open>The project and the site of the query; a health filter is not offered.\<close>

definition gw_list_streams :: "gateway \<Rightarrow> 's stream_ops \<Rightarrow> time \<Rightarrow> string \<Rightarrow> string \<Rightarrow> string \<Rightarrow> string \<Rightarrow> string \<Rightarrow> 's \<Rightarrow>
    problem + (stream_json list \<times> string)" where
  "gw_list_streams gw ops now tenant psize token project site s =
     (case query_size psize of
        None \<Rightarrow> Inl (bad_request ''page_size must be an integer'')
      | Some n \<Rightarrow>
          (case decode_cursor (gw_cursors gw) (gw_key gw) ''streams'' token of
             None \<Rightarrow> Inl (bad_request ''invalid page_token'')
           | Some c \<Rightarrow>
               (case list_streams ops
                   \<lparr>sr_filter = \<lparr>sf_tenant = tenant, sf_project = project, sf_site = site, sf_health = []\<rparr>, sr_size = n, sr_token = cu_last c\<rparr> s of
                  Inl e \<Rightarrow> Inl (rpc_problem (gw_quote gw) ''stream'' e)
                | Inr (sts, next) \<Rightarrow>
                    Inr (map stream_to_json sts, if next \<noteq> [] then encode_cursor (gw_cursors gw) (gw_key gw) now ''streams'' next else []))))"

record stream_body =
  sb_project :: string
  sb_camera :: string
  sb_site :: string
  sb_name :: string
  sb_protocol :: string
  sb_url :: string
  sb_pipeline :: string

text \<open>A store error of the create comes back as an invalid argument, with the text of the error.\<close>

definition create_problem :: "store_error \<Rightarrow> problem" where
  "create_problem e = bad_request (''create failed: '' @ (case e of StoreError t \<Rightarrow> t | StoreNotFound \<Rightarrow> ''stream: not found''))"

definition gw_create_stream :: "(start_directive \<Rightarrow> string) \<Rightarrow> bool \<Rightarrow> 's stream_ops \<Rightarrow> time \<Rightarrow> time \<Rightarrow> string \<Rightarrow> stream_body option \<Rightarrow> 's \<Rightarrow>
    (refusal + stream_json) \<times> bus_message list \<times> 's" where
  "gw_create_stream enc pub ops t1 t2 tenant body s =
     (case body of
        None \<Rightarrow> (Inl (Problem (bad_request ''invalid JSON body'')), [], s)
      | Some b \<Rightarrow>
          let bad = (if trim_space (sb_name b) = [] then [''name''] else []) @ (if trim_space (sb_project b) = [] then [''project_id''] else []) @
            (if trim_space (sb_url b) = [] then [''url''] else []) in
          if bad \<noteq> [] then (Inl (Unprocessable ''invalid stream'' bad), [], s)
          else case create_stream enc pub ops t1 t2
              \<lparr>cs_tenant = tenant, cs_project = sb_project b, cs_project_tenant = tenant, cs_camera = sb_camera b, cs_site = sb_site b,
               cs_name = sb_name b, cs_protocol = parse_protocol (sb_protocol b), cs_url = sb_url b, cs_pipeline = sb_pipeline b\<rparr> s of
            (Inl e, ms, s1) \<Rightarrow> (Inl (Problem (create_problem e)), ms, s1)
          | (Inr st, ms, s1) \<Rightarrow> (Inr (stream_to_json st), ms, s1))"

definition gw_delete_stream :: "gateway \<Rightarrow> 's stream_ops \<Rightarrow> string \<Rightarrow> string \<Rightarrow> 's \<Rightarrow> problem option \<times> 's" where
  "gw_delete_stream gw ops tenant i s =
     (if \<not> gateway_id i then (Some (not_found ''stream not found''), s)
      else case delete_stream ops i s of
        (Some e, s1) \<Rightarrow> (Some (rpc_problem (gw_quote gw) ''stream'' e), s1)
      | (None, s1) \<Rightarrow> (None, s1))"

subsection \<open>Properties\<close>

text \<open>The page of the gateway for a token; \<open>clk\<close> says when the request with the token is served.\<close>

definition gw_page :: "gateway \<Rightarrow> 's pipeline_ops \<Rightarrow> (string \<Rightarrow> time) \<Rightarrow> string \<Rightarrow> list_query \<Rightarrow> 's \<Rightarrow> string \<Rightarrow> pipeline_json list \<times> string" where
  "gw_page gw ops clk tenant q s token =
     (case gw_list_pipelines gw ops (clk token) tenant (q\<lparr>q_token := token\<rparr>) s of Some (Inr r) \<Rightarrow> r | _ \<Rightarrow> ([], []))"

text \<open>Following a listing through an encoding of its cursors.\<close>

lemma follow_encoded:
  assumes "\<And>token after. denotes token after \<Longrightarrow>
      fst (page' token) = map f (fst (page after)) \<and>
      (snd (page after) = [] \<longrightarrow> snd (page' token) = []) \<and>
      (snd (page after) \<noteq> [] \<longrightarrow> snd (page' token) \<noteq> [] \<and> denotes (snd (page' token)) (snd (page after)))"
  shows "denotes token after \<Longrightarrow> follow n page' token = map_option (map f) (follow n page after)"
proof (induction n arbitrary: token after)
  case (Suc n)
  obtain vs cur where p: "page after = (vs, cur)" by (cases "page after")
  obtain ws tok where p': "page' token = (ws, tok)" by (cases "page' token")
  note a = assms [OF Suc.prems, unfolded p p' fst_conv snd_conv]
  show ?case
  proof (cases "cur = []")
    case True
    then show ?thesis using a p p' by simp
  next
    case False
    then have "follow n page' tok = map_option (map f) (follow n page cur)" using a Suc.IH by blast
    then show ?thesis using a p p' False by (simp add: option.map_comp comp_def)
  qed
qed simp

lemma mem_list_not_None: "0 < n \<Longrightarrow> mem_list f n after m \<noteq> None"
  by (auto simp: mem_list_def Let_def)

lemma list_pipelines_memory:
  assumes "lf_tenant (lr_filter req) \<noteq> []"
  shows "list_pipelines memory_pipelines req m = Some (Inr (pipeline_page memory_pipelines req m (lr_token req)))"
proof -
  have "req\<lparr>lr_token := lr_token req\<rparr> = req" by simp
  then show ?thesis
    using mem_list_page [OF page_len(1), of "lr_filter req" req "lr_token req" m] assms
    by (simp add: pipeline_page_def list_pipelines_def memory_pipelines_def page_len(2))
qed

lemma gw_page_denotes:
  assumes "cursor_lib_ok (gw_cursors gw)" "tenant \<noteq> []" "query_size (q_size q) = Some psize"
    and "decode_cursor (gw_cursors gw) (gw_key gw) ''pipelines'' token = Some c" "cu_last c = after"
  shows "gw_page gw memory_pipelines clk tenant q m token =
    map_prod (map to_json) (encode_cursor (gw_cursors gw) (gw_key gw) (clk token) ''pipelines'') (pipeline_page memory_pipelines (gw_list_request tenant q psize []) m after)"
proof -
  have r: "gw_list_request tenant (q\<lparr>q_token := token\<rparr>) psize after = (gw_list_request tenant q psize [])\<lparr>lr_token := after\<rparr>"
    by (simp add: gw_list_request_def)
  have l: "list_pipelines memory_pipelines (gw_list_request tenant (q\<lparr>q_token := token\<rparr>) psize after) m =
      Some (Inr (pipeline_page memory_pipelines (gw_list_request tenant q psize []) m after))"
    using list_pipelines_memory [of "gw_list_request tenant (q\<lparr>q_token := token\<rparr>) psize after" m] assms(2)
    by (simp add: gw_list_request_def pipeline_page_def)
  obtain vs cur where p: "pipeline_page memory_pipelines (gw_list_request tenant q psize []) m after = (vs, cur)"
    by (cases "pipeline_page memory_pipelines (gw_list_request tenant q psize []) m after")
  show ?thesis using assms(3,4,5) l p by (simp add: gw_page_def gw_list_pipelines_def encode_cursor_def)
qed

text \<open>
  C13: A client that follows the opaque page tokens of the gateway gets every pipeline of its tenant that fits the query, once and in
  the order of the ids, and no pipeline of another tenant, whatever page size it asks for.
\<close>

theorem gateway_pages_list_tenant:
  assumes "cursor_lib_ok (gw_cursors gw)" "keyed pl_id m" "tenant \<noteq> []" "query_size (q_size q) = Some psize"
  shows "\<exists>ps. follow (Suc (length m)) (gw_page gw memory_pipelines clk tenant q m) [] = Some (map to_json ps) \<and>
    set ps = {p. (\<exists>i. map_of m i = Some p) \<and> pl_tenant p = tenant \<and> (q_project q = [] \<or> pl_project p = q_project q) \<and>
      (q_name q = [] \<or> sublist (q_name q) (pl_name p)) \<and>
      (parse_statuses (q_status q) = [] \<or> pl_status p \<in> set (parse_statuses (q_status q)))} \<and>
    sorted (map pl_id ps) \<and> distinct (map pl_id ps)"
proof -
  let ?req = "gw_list_request tenant q psize []"
  let ?denotes = "\<lambda>token after. \<exists>c. decode_cursor (gw_cursors gw) (gw_key gw) ''pipelines'' token = Some c \<and> cu_last c = after"
  let ?ps = "listed (matches_filter (lr_filter ?req)) m"
  have t: "lf_tenant (lr_filter ?req) \<noteq> []" using assms(3) by (simp add: gw_list_request_def)
  have "follow n (gw_page gw memory_pipelines clk tenant q m) token = map_option (map to_json) (follow n (pipeline_page memory_pipelines ?req m) after)"
    if "?denotes token after" for n token after
  proof (rule follow_encoded [where denotes = ?denotes, OF _ that])
    fix token after assume "?denotes token after"
    then obtain c where c: "decode_cursor (gw_cursors gw) (gw_key gw) ''pipelines'' token = Some c" "cu_last c = after" by blast
    note p = gw_page_denotes [OF assms(1,3,4) c, of clk m]
    show "fst (gw_page gw memory_pipelines clk tenant q m token) = map to_json (fst (pipeline_page memory_pipelines ?req m after)) \<and>
        (snd (pipeline_page memory_pipelines ?req m after) = [] \<longrightarrow> snd (gw_page gw memory_pipelines clk tenant q m token) = []) \<and>
        (snd (pipeline_page memory_pipelines ?req m after) \<noteq> [] \<longrightarrow>
         snd (gw_page gw memory_pipelines clk tenant q m token) \<noteq> [] \<and>
         ?denotes (snd (gw_page gw memory_pipelines clk tenant q m token)) (snd (pipeline_page memory_pipelines ?req m after)))"
      using cursor_decode_encode [OF assms(1), of "snd (pipeline_page memory_pipelines ?req m after)"] by (simp add: p)
  qed
  moreover have "?denotes [] []" by (simp add: decode_cursor_def)
  moreover have "follow (Suc (length m)) (pipeline_page memory_pipelines ?req m) [] = Some ?ps"
    using mp.follow_all [of m ?req "Suc (length m)"] assms(2) t length_listed [of "matches_filter (lr_filter ?req)" m] by (simp del: follow.simps)
  ultimately have "follow (Suc (length m)) (gw_page gw memory_pipelines clk tenant q m) [] = Some (map to_json ?ps)"
    by (simp del: follow.simps)
  moreover have "matches_filter (lr_filter ?req) p \<longleftrightarrow> pl_tenant p = tenant \<and> (q_project q = [] \<or> pl_project p = q_project q) \<and>
      (q_name q = [] \<or> sublist (q_name q) (pl_name p)) \<and>
      (parse_statuses (q_status q) = [] \<or> pl_status p \<in> set (parse_statuses (q_status q)))" for p
    using assms(3) by (auto simp: matches_filter_def gw_list_request_def)
  ultimately show ?thesis using listed_set [OF assms(2), of "matches_filter (lr_filter ?req)"] listed_facts [OF assms(2), of "matches_filter (lr_filter ?req)"]
    by (intro exI [of _ ?ps]) (simp del: follow.simps)
qed

text \<open>
  A page token is accepted only if, up to line breaks, it is the one text that encodes its body and the signature of that body
  under the gateway's key, and the body was issued for this kind of resource.
\<close>

theorem accepted_cursor_is_signed:
  assumes "decode_cursor cl key kind token = Some c" "token \<noteq> []"
  shows "\<exists>body. filter (\<lambda>c. \<not> line_break c) token = b64url_encode body @ ''.'' @ b64url_encode (cl_mac cl key body) \<and>
    cl_unmarshal cl body = Some c \<and> cu_kind c = kind"
  by (rule decode_canonical [OF assms])

text \<open>
  The gateway hides another tenant's stream from a reader, as not found, and lets the same caller delete it.
\<close>

theorem foreign_stream_is_deleted:
  assumes "map_of m i = Some st" "gateway_id i" "sm_tenant st \<noteq> tenant"
  shows "gw_get_stream gw (memory_streams ul) tenant i m = Inl (not_found ''stream not found'') \<and>
    gw_delete_stream gw (memory_streams ul) tenant i m = (None, AList.delete i m)"
  using assms
  by (simp add: gw_get_stream_def gw_delete_stream_def get_stream_def delete_stream_def memory_streams_def mem_get_stream_def
    mem_delete_stream_def gateway_id_def)

text \<open>The same holds of deploying a pipeline; and a status that is not known is dropped from the filter, so that it filters nothing.\<close>

lemma foreign_pipeline_is_deployed:
  assumes "map_of m i = Some p" "gateway_id i" "pl_tenant p \<noteq> tenant"
  shows "gw_get_pipeline gw memory_pipelines tenant i m = Inl (not_found ''pipeline not found'')"
    and "fst (gw_deploy_pipeline gw memory_pipelines now (Inr wid) tenant i m) = Inr (wid, ''deploying'')"
  using assms
  by (simp_all add: gw_get_pipeline_def gw_deploy_pipeline_def get_pipeline_def deploy_pipeline_def memory_pipelines_def mem_get_pipeline_def
    mem_update_status_def gateway_id_def Let_def)

lemma unknown_status_filters_nothing: "parse_statuses [''runing''] = []"
  by code_simp

subsection \<open>Witnesses\<close>

text \<open>A toy encoding with one body, and one that keeps every cursor: numbers are written in unary.\<close>

definition toy_cursors :: cursor_lib where
  "toy_cursors = \<lparr>cl_marshal = (\<lambda>_. ''b''), cl_unmarshal = (\<lambda>s. if s = ''b'' then Some \<lparr>cu_kind = ''pipelines'', cu_last = ''x'', cu_issued = 0\<rparr> else None),
     cl_mac = (\<lambda>k s. k @ s)\<rparr>"

lemma accepted_cursor_is_signed_witness:
  "\<exists>body. ''Yg.a2I'' = b64url_encode body @ ''.'' @ b64url_encode (cl_mac toy_cursors ''k'' body)"
proof -
  have d: "decode_cursor toy_cursors ''k'' ''pipelines'' ''Yg.a2I'' = Some \<lparr>cu_kind = ''pipelines'', cu_last = ''x'', cu_issued = 0\<rparr>" by code_simp
  have f: "filter (\<lambda>c. \<not> line_break c) ''Yg.a2I'' = ''Yg.a2I''" by code_simp
  show ?thesis using accepted_cursor_is_signed [OF d, unfolded f] by blast
qed

lemma foreign_stream_is_deleted_witness:
  "gw_delete_stream \<lparr>gw_cursors = toy_cursors, gw_key = ''k'', gw_quote = (\<lambda>s. s)\<rparr> (memory_streams \<lparr>ul_parse = (\<lambda>_. None), ul_string = ur_rest\<rparr>)
     ''eve'' ''a'' [(''a'', assemble_stream (demo_row ''a''))] = (None, [])"
proof -
  let ?m = "[(''a'', assemble_stream (demo_row ''a''))]"
  have "map_of ?m ''a'' = Some (assemble_stream (demo_row ''a''))" by simp
  moreover have "gateway_id ''a''" by code_simp
  moreover have "sm_tenant (assemble_stream (demo_row ''a'')) \<noteq> ''eve''" by (simp add: assemble_stream_def demo_row_def)
  ultimately show ?thesis by (simp add: foreign_stream_is_deleted)
qed

definition unary :: "nat \<Rightarrow> string \<Rightarrow> string" where
  "unary n s = replicate n (CHR ''1'') @ CHR ''0'' # s"

definition ununary :: "string \<Rightarrow> nat \<times> string" where
  "ununary s = (let n = length (takeWhile (\<lambda>c. c = CHR ''1'') s) in (n, drop (Suc n) s))"

definition zigzag :: "int \<Rightarrow> nat" where
  "zigzag i = (if i < 0 then nat (- 2 * i - 1) else nat (2 * i))"

definition zagzig :: "nat \<Rightarrow> int" where
  "zagzig n = (if odd n then - int (n div 2) - 1 else int (n div 2))"

definition unary_cursors :: cursor_lib where
  "unary_cursors =
     \<lparr>cl_marshal = (\<lambda>c. unary (zigzag (cu_issued c)) (unary (length (cu_kind c)) (cu_kind c @ cu_last c))),
      cl_unmarshal = (\<lambda>s. let (t, s1) = ununary s; (n, s2) = ununary s1 in Some \<lparr>cu_kind = take n s2, cu_last = drop n s2, cu_issued = zagzig t\<rparr>),
      cl_mac = (\<lambda>k s. k)\<rparr>"

lemma ununary_unary: "ununary (unary n s) = (n, s)"
proof -
  have "takeWhile (\<lambda>c. c = CHR ''1'') (replicate n (CHR ''1'') @ CHR ''0'' # s) = replicate n (CHR ''1'')"
    by (induction n) auto
  then show ?thesis by (simp add: ununary_def unary_def Let_def)
qed

lemma zagzig_zigzag: "zagzig (zigzag i) = i"
proof (cases "i < 0")
  case True
  then have "i = - int (nat (- i - 1)) - 1" by simp
  then obtain k where k: "i = - int k - 1" by blast
  then have "zigzag i = 2 * k + 1" by (simp add: zigzag_def nat_eq_iff2)
  then show ?thesis by (simp add: zagzig_def k)
next
  case False
  then have "i = int (nat i)" by simp
  then obtain k where "i = int k" by blast
  then show ?thesis by (simp add: zigzag_def zagzig_def nat_mult_distrib)
qed

lemma unary_cursors_ok: "cursor_lib_ok unary_cursors"
  by (simp add: cursor_lib_ok_def unary_cursors_def ununary_unary zagzig_zigzag)

lemma gateway_pages_list_tenant_witness:
  "\<exists>ps. follow 3 (gw_page \<lparr>gw_cursors = unary_cursors, gw_key = ''k'', gw_quote = (\<lambda>s. s)\<rparr> memory_pipelines (\<lambda>_. 1) ''t''
       \<lparr>q_size = ''1'', q_token = [], q_project = [], q_name = [], q_status = []\<rparr> [(''b'', demo_pl ''b''), (''a'', demo_pl ''a'')]) [] = Some (map to_json ps) \<and>
     demo_pl ''a'' \<in> set ps"
proof -
  let ?gw = "\<lparr>gw_cursors = unary_cursors, gw_key = ''k'', gw_quote = (\<lambda>s. s)\<rparr>" and ?q = "\<lparr>q_size = ''1'', q_token = [], q_project = [], q_name = [], q_status = []\<rparr>"
  let ?m = "[(''b'', demo_pl ''b''), (''a'', demo_pl ''a'')]"
  have k: "keyed pl_id ?m" by (simp add: keyed_def demo_pl_def)
  have "query_size ''1'' = Some 1" by code_simp
  then have z: "query_size (q_size ?q) = Some 1" by simp
  have t: "''t'' \<noteq> []" by simp
  have c: "cursor_lib_ok (gw_cursors ?gw)" using unary_cursors_ok by simp
  obtain ps where ps: "follow (Suc (length ?m)) (gw_page ?gw memory_pipelines (\<lambda>_. 1) ''t'' ?q ?m) [] = Some (map to_json ps)"
    "set ps = {p. (\<exists>i. map_of ?m i = Some p) \<and> pl_tenant p = ''t'' \<and> (q_project ?q = [] \<or> pl_project p = q_project ?q) \<and>
      (q_name ?q = [] \<or> sublist (q_name ?q) (pl_name p)) \<and>
      (parse_statuses (q_status ?q) = [] \<or> pl_status p \<in> set (parse_statuses (q_status ?q)))}"
    using gateway_pages_list_tenant [OF c k t z, of "\<lambda>_. 1"] by (elim exE conjE)
  have "map_of ?m ''a'' = Some (demo_pl ''a'')" by simp
  moreover have "pl_tenant (demo_pl ''a'') = ''t''" "parse_statuses [] = []" by (simp_all add: demo_pl_def parse_statuses_def map_filter_def)
  ultimately have "demo_pl ''a'' \<in> set ps" unfolding ps(2) by auto
  with ps(1) show ?thesis by (intro exI [of _ ps]) (simp add: numeral_3_eq_3 del: follow.simps)
qed

end
