(* ===== verification/ClaimCheck.thy ===== *)
theory ClaimCheck
  imports Prelude
begin

section \<open>pkg/dataplane/claimcheck: payloads behind locators\<close>

text \<open>
  Model of \<open>pkg/dataplane/claimcheck/store.go\<close>: the ring that keeps the last frames of a stream, the locator that travels
  instead of a payload, and the registry of the rings of a process. A payload is a byte slice, \<open>None\<close> the nil slice. The
  counters are 64-bit words, so \<open>next\<close> turns negative as an \<open>int\<close> after 2^63 writes, and indexing a slice with a
  negative number panics: \<open>ring_put\<close> is then \<open>None\<close>.
\<close>

record claim_ring =
  rg_name :: string
  rg_cap :: int
  rg_next :: "64 word"
  rg_slots :: "string option list"
  rg_generation :: "64 word list"

record locator =
  lo_ring :: string
  lo_slot :: int
  lo_gen :: "64 word"

datatype claim_error = BadCapacity | SlotOutOfRange | Stale | NeverWritten | BadParts string | BadSlot string | BadGeneration string

definition new_claim_ring :: "string \<Rightarrow> int \<Rightarrow> claim_error + claim_ring" where
  "new_claim_ring name capacity =
     (if capacity \<le> 0 then Inl BadCapacity
      else Inr \<lparr>rg_name = name, rg_cap = capacity, rg_next = 0, rg_slots = replicate (nat capacity) None,
                rg_generation = replicate (nat capacity) 0\<rparr>)"

subsection \<open>Locators as text\<close>

definition encode_locator :: "locator \<Rightarrow> string" where
  "encode_locator l = lo_ring l @ '':'' @ print_int (lo_slot l) @ '':'' @ print_int (uint (lo_gen l))"

text \<open>\<open>strings.SplitN(s, sep, n)\<close> for a separator of one byte and a positive n: at most n parts, the last unsplit.\<close>

fun split_n :: "char \<Rightarrow> nat \<Rightarrow> string \<Rightarrow> string list" where
  "split_n d 0 s = []"
| "split_n d (Suc 0) s = [s]"
| "split_n d (Suc (Suc n)) s =
     (case dropWhile (\<lambda>c. c \<noteq> d) s of
        [] \<Rightarrow> [s]
      | _ # rest \<Rightarrow> takeWhile (\<lambda>c. c \<noteq> d) s # split_n d (Suc n) rest)"

text \<open>\<open>strconv.ParseUint(s, 10, 64)\<close>: decimal digits only, no sign, in range.\<close>

definition parse_uint :: "string \<Rightarrow> 64 word option" where
  "parse_uint s = (if s \<noteq> [] \<and> list_all is_digit s \<and> digits_value s < 2 ^ 64 then Some (word_of_int (digits_value s)) else None)"

definition parse_locator :: "string \<Rightarrow> claim_error + locator" where
  "parse_locator s =
     (case split_n (CHR '':'') 3 s of
        [r, a, b] \<Rightarrow>
          (case atoi a of
             None \<Rightarrow> Inl (BadSlot s)
           | Some slot \<Rightarrow>
               (case parse_uint b of
                  None \<Rightarrow> Inl (BadGeneration s)
                | Some gen \<Rightarrow> Inr \<lparr>lo_ring = r, lo_slot = slot, lo_gen = gen\<rparr>))
      | _ \<Rightarrow> Inl (BadParts s))"

subsection \<open>Writing and reading\<close>

definition ring_put :: "string option \<Rightarrow> claim_ring \<Rightarrow> (locator \<times> claim_ring) option" where
  "ring_put payload r =
     (let idx = go_rem (sint (rg_next r)) (rg_cap r) in
      if idx < 0 then None
      else
        let i = nat idx; gen = rg_generation r ! i + 1 in
        Some (\<lparr>lo_ring = rg_name r, lo_slot = idx, lo_gen = gen\<rparr>,
              r\<lparr>rg_next := rg_next r + 1, rg_slots := (rg_slots r)[i := payload],
                rg_generation := (rg_generation r)[i := gen]\<rparr>))"

definition ring_get :: "locator \<Rightarrow> claim_ring \<Rightarrow> claim_error + string" where
  "ring_get l r =
     (if lo_slot l < 0 \<or> rg_cap r \<le> lo_slot l then Inl SlotOutOfRange
      else if rg_generation r ! nat (lo_slot l) \<noteq> lo_gen l then Inl Stale
      else case rg_slots r ! nat (lo_slot l) of None \<Rightarrow> Inl NeverWritten | Some payload \<Rightarrow> Inr payload)"

text \<open>A sequence of writes, with the locators it returns.\<close>

fun put_frames :: "string option list \<Rightarrow> claim_ring \<Rightarrow> (locator list \<times> claim_ring) option" where
  "put_frames [] r = Some ([], r)"
| "put_frames (p # ps) r =
     Option.bind (ring_put p r) (\<lambda>(l, r1). map_option (\<lambda>(ls, r2). (l # ls, r2)) (put_frames ps r1))"

subsection \<open>The registry of rings\<close>

type_synonym ring_registry = "(string \<times> claim_ring) list"

definition ensure_ring :: "string \<Rightarrow> int \<Rightarrow> ring_registry \<Rightarrow> (claim_error + claim_ring) \<times> ring_registry" where
  "ensure_ring name capacity reg =
     (case map_of reg name of
        Some r \<Rightarrow> (Inr r, reg)
      | None \<Rightarrow>
          (case new_claim_ring name capacity of
             Inl e \<Rightarrow> (Inl e, reg)
           | Inr r \<Rightarrow> (Inr r, AList.update name r reg)))"

definition lookup_ring :: "ring_registry \<Rightarrow> string \<Rightarrow> claim_ring option" where
  "lookup_ring reg name = map_of reg name"

subsection \<open>Printing and reading numbers\<close>

lemma split_n_sep:
  "d \<notin> set a \<Longrightarrow> split_n d (Suc (Suc n)) (a @ d # b) = a # split_n d (Suc n) b"
proof -
  assume a: "d \<notin> set a"
  then have "dropWhile (\<lambda>c. c \<noteq> d) (a @ d # b) = d # b" "takeWhile (\<lambda>c. c \<noteq> d) (a @ d # b) = a"
    by (induction a) auto
  then show ?thesis by simp
qed

lemma digit_char_value: "n < 10 \<Longrightarrow> (of_char (digit_char n) :: nat) = 48 + n"
  by (simp add: digit_char_def)

lemma is_digit_digit: "n < 10 \<Longrightarrow> is_digit (digit_char n)"
  by (simp add: is_digit_def digit_char_value)

lemma digits_value_snoc: "digits_value (s @ [c]) = digits_value s * 10 + (int (of_char c) - 48)"
  by (simp add: digits_value_def)

lemma digits_decimal: "list_all is_digit (digits 10 n) \<and> digits_value (digits 10 n) = int n"
proof (induction n rule: less_induct)
  case (less n)
  show ?case
  proof (cases "n < 10")
    case True
    then have "digits 10 n = [digit_char n]" by (subst digits.simps) simp
    then show ?thesis using True by (simp add: is_digit_digit digits_value_def digit_char_value)
  next
    case False
    then have d: "digits 10 n = digits 10 (n div 10) @ [digit_char (n mod 10)]" by (subst digits.simps) simp
    have "n div 10 < n" using False by simp
    note less.IH [OF this]
    moreover have "int n = int (n div 10) * 10 + int (n mod 10)" by (simp add: zdiv_int zmod_int)
    ultimately show ?thesis unfolding d digits_value_snoc by (simp add: is_digit_digit digit_char_value)
  qed
qed

lemma digits_no_sign: "\<not> is_digit c \<Longrightarrow> c \<notin> set (digits 10 n)"
  using digits_decimal [of n] by (auto simp: list_all_iff)

lemma digits_hd: "\<not> is_digit c \<Longrightarrow> hd (digits 10 n) \<noteq> c"
  using digits_no_sign [of c n] hd_in_set [OF digits_nonempty [of 10 n]] by auto

lemma not_digits: "\<not> is_digit (CHR ''-'')" "\<not> is_digit (CHR ''+'')" "\<not> is_digit (CHR '':'')"
  by (simp_all add: is_digit_def)

lemma atoi_print_int: "in_i64 i \<Longrightarrow> atoi (print_int i) = Some i"
proof -
  assume i: "in_i64 i"
  have ne: "digits 10 (nat \<bar>i\<bar>) \<noteq> []" by (simp add: digits_nonempty)
  show ?thesis
  proof (cases "i < 0")
    case True
    then show ?thesis using i ne digits_decimal [of "nat \<bar>i\<bar>"] by (simp add: atoi_def print_int_def Let_def)
  next
    case False
    then show ?thesis
      using i ne digits_decimal [of "nat \<bar>i\<bar>"] digits_hd [OF not_digits(1), of "nat \<bar>i\<bar>"] digits_hd [OF not_digits(2), of "nat \<bar>i\<bar>"]
      by (simp add: atoi_def print_int_def Let_def)
  qed
qed

lemma parse_uint_print: "parse_uint (print_int (uint w)) = Some w"
proof -
  have "uint w < 2 ^ 64" using uint_lt2p [of w] by simp
  moreover have "\<not> uint w < 0" by simp
  ultimately show ?thesis
    using digits_decimal [of "nat (uint w)"] digits_nonempty [of 10 "nat (uint w)"]
    by (simp add: parse_uint_def print_int_def)
qed

lemma no_colon: "CHR '':'' \<notin> set (print_int i)"
  using digits_no_sign [OF not_digits(3), of "nat \<bar>i\<bar>"] by (simp add: print_int_def)

subsection \<open>The ring against its history\<close>

text \<open>How often slot i was written by the first n writes.\<close>

definition fills :: "nat \<Rightarrow> nat \<Rightarrow> nat \<Rightarrow> nat" where
  "fills c n i = (n + (c - 1 - i)) div c"

lemma fills_0 [simp]: "i < c \<Longrightarrow> fills c 0 i = 0"
  by (simp add: fills_def)

lemma mod_gap: "r < c \<Longrightarrow> i < c \<Longrightarrow> (r + (c - i)) mod c = 0 \<longleftrightarrow> r = (i :: nat)"
proof -
  assume a: "r < c" "i < c"
  consider "r < i" | "r = i" | "i < r" by linarith
  then show ?thesis
  proof cases
    case 1
    then have "(r + (c - i)) mod c = r + (c - i)" using a by (intro mod_less) linarith
    then show ?thesis using 1 a by simp
  next
    case 2
    then show ?thesis using a by simp
  next
    case 3
    then have "(r + (c - i)) mod c = r + (c - i) - c" using a by (intro mod_wrap_once) linarith+
    then show ?thesis using 3 a by simp
  qed
qed

lemma div_eq_iff_bounds: "0 < c \<Longrightarrow> x div c = k \<longleftrightarrow> k * c \<le> x \<and> x < (k + 1) * (c :: nat)"
  using less_eq_div_iff_mult_less_eq [of c k x] div_less_iff_less_mult [of c x "k + 1"] by linarith

lemma fills_Suc:
  assumes "i < c"
  shows "fills c (Suc n) i = fills c n i + (if n mod c = i then 1 else 0)"
proof -
  have "Suc (n + (c - 1 - i)) = n + (c - i)" using assms by simp
  moreover have "(n + (c - i)) mod c = (n mod c + (c - i)) mod c" by (simp add: mod_add_left_eq)
  moreover have "n mod c < c" using assms by simp
  ultimately have "(Suc (n + (c - 1 - i))) mod c = 0 \<longleftrightarrow> n mod c = i" using mod_gap [of "n mod c" c i] assms by simp
  then show ?thesis unfolding fills_def by (simp add: div_Suc)
qed

lemma fills_self:
  assumes "0 < c"
  shows "fills c n (n mod c) = n div c"
proof -
  have "n mod c < c" "n = c * (n div c) + n mod c" using assms by simp_all
  then have "n + (c - 1 - n mod c) = (c - 1) + c * (n div c)" by linarith
  moreover have "((c - 1) + c * (n div c)) div c = n div c" by (subst div_mult_self2) (use assms in auto)
  ultimately show ?thesis unfolding fills_def by simp
qed

lemma fills_mono: "n \<le> m \<Longrightarrow> fills c n i \<le> fills c m i"
  unfolding fills_def by (rule div_le_mono) simp

lemma fills_bound: "fills c n i \<le> n + 1"
proof (cases "c = 0")
  case False
  have "(n + (c - 1 - i)) div c \<le> (n * c + c) div c"
    by (rule div_le_mono) (use False in \<open>simp add: add_mono trans_le_add1\<close>)
  then show ?thesis unfolding fills_def using False by simp
qed (simp add: fills_def)

text \<open>The j-th write is the last one of its slot exactly while fewer than a capacity of writes followed.\<close>

lemma fills_current_iff:
  assumes "0 < c" "j < n"
  shows "fills c n (j mod c) = j div c + 1 \<longleftrightarrow> n \<le> j + c"
proof -
  define i q where "i = j mod c" and "q = j div c"
  have i: "i < c" and j: "j = q * c + i" using assms(1) by (simp_all add: i_def q_def)
  have "fills c n i = q + 1 \<longleftrightarrow> (q + 1) * c \<le> n + (c - 1 - i) \<and> n + (c - 1 - i) < (q + 1 + 1) * c"
    unfolding fills_def using assms(1) by (rule div_eq_iff_bounds)
  moreover have "(q + 1) * c = q * c + c" "(q + 1 + 1) * c = q * c + c + c" by (simp_all add: algebra_simps)
  ultimately have "fills c n i = q + 1 \<longleftrightarrow> q * c + c \<le> n + (c - 1 - i) \<and> n + (c - 1 - i) < q * c + c + c"
    by (simp only:)
  then have "fills c n i = q + 1 \<longleftrightarrow> n \<le> j + c" using assms(2) i j by linarith
  then show ?thesis by (simp only: i_def q_def)
qed

definition ring_inv :: "nat \<Rightarrow> string \<Rightarrow> string option list \<Rightarrow> claim_ring \<Rightarrow> bool" where
  "ring_inv c name hist r \<longleftrightarrow>
     0 < c \<and> rg_name r = name \<and> rg_cap r = int c \<and> rg_next r = word_of_nat (length hist) \<and>
     length (rg_slots r) = c \<and> length (rg_generation r) = c \<and>
     (\<forall>i < c. rg_generation r ! i = word_of_nat (fills c (length hist) i)) \<and>
     (\<forall>j < length hist. length hist \<le> j + c \<longrightarrow> rg_slots r ! (j mod c) = hist ! j)"

lemma new_claim_ring_inv: "new_claim_ring name capacity = Inr r \<Longrightarrow> ring_inv (nat capacity) name [] r"
  by (auto simp: new_claim_ring_def ring_inv_def split: if_splits)

lemma sint_of_nat: "n < 2 ^ 63 \<Longrightarrow> sint (word_of_nat n :: 64 word) = int n"
proof -
  assume n: "n < 2 ^ 63"
  have "sint (word_of_nat n :: 64 word) = signed_take_bit 63 (int n)"
    by (simp add: sint_sbintrunc' [symmetric] signed_of_nat)
  moreover have "int n < 2 ^ 63" using n by simp
  ultimately show ?thesis by (simp add: signed_take_bit_int_eq_self)
qed

lemma ring_put_inv:
  assumes "ring_inv c name hist r" "length hist < 2 ^ 63"
  shows "\<exists>r'. ring_put p r = Some (\<lparr>lo_ring = name, lo_slot = int (length hist mod c), lo_gen = word_of_nat (length hist div c + 1)\<rparr>, r') \<and>
    ring_inv c name (hist @ [p]) r'"
proof -
  let ?n = "length hist"
  let ?i = "?n mod c"
  have c: "0 < c" and i: "?i < c" using assms(1) by (simp_all add: ring_inv_def)
  have "go_rem (sint (rg_next r)) (rg_cap r) = int ?i"
    using assms sint_of_nat [OF assms(2)] by (simp add: ring_inv_def go_rem_def zmod_int)
  moreover have g: "rg_generation r ! ?i + 1 = word_of_nat (?n div c + 1)"
    using assms(1) i fills_self [OF c, of ?n] by (simp add: ring_inv_def)
  ultimately have "ring_put p r = Some (\<lparr>lo_ring = name, lo_slot = int ?i, lo_gen = word_of_nat (?n div c + 1)\<rparr>,
      r\<lparr>rg_next := rg_next r + 1, rg_slots := (rg_slots r)[?i := p],
        rg_generation := (rg_generation r)[?i := word_of_nat (?n div c + 1)]\<rparr>)" (is "_ = Some (_, ?r)")
    using assms(1) by (simp add: ring_put_def Let_def ring_inv_def add.commute)
  moreover have "ring_inv c name (hist @ [p]) ?r"
  proof -
    have gens: "rg_generation ?r ! k = word_of_nat (fills c (Suc ?n) k)" if "k < c" for k
      using that assms(1) fills_Suc [OF that, of ?n] fills_self [OF c, of ?n]
      by (cases "k = ?i") (simp_all add: ring_inv_def)
    have slots: "rg_slots ?r ! (j mod c) = (hist @ [p]) ! j" if "j < Suc ?n" "Suc ?n \<le> j + c" for j
    proof (cases "j = ?n")
      case True
      then show ?thesis using assms(1) i by (simp add: ring_inv_def)
    next
      case False
      then have "j < ?n" using that(1) by simp
      moreover have "j mod c \<noteq> ?i"
      proof
        assume "j mod c = ?i"
        then have "c dvd ?n - j" using \<open>j < ?n\<close> mod_eq_dvd_iff_nat [of j ?n c] by simp
        then have "c \<le> ?n - j" using \<open>j < ?n\<close> by (intro dvd_imp_le) auto
        then show False using that(2) \<open>j < ?n\<close> by linarith
      qed
      ultimately show ?thesis using assms(1) that(2) by (simp add: ring_inv_def nth_append)
    qed
    show ?thesis using assms(1) gens slots unfolding ring_inv_def by simp
  qed
  ultimately show ?thesis by blast
qed

lemma put_frames_inv:
  assumes "ring_inv c name hist r" "length hist + length ps \<le> 2 ^ 63"
  shows "\<exists>ls r'. put_frames ps r = Some (ls, r') \<and> ring_inv c name (hist @ ps) r' \<and>
    ls = map (\<lambda>j. \<lparr>lo_ring = name, lo_slot = int (j mod c), lo_gen = word_of_nat (j div c + 1)\<rparr>)
           [length hist ..< length hist + length ps]"
  using assms
proof (induction ps arbitrary: hist r)
  case (Cons p ps)
  from Cons.prems(2) have "length hist < 2 ^ 63" by simp
  from ring_put_inv [OF Cons.prems(1) this, of p] obtain r1 where
    1: "ring_put p r = Some (\<lparr>lo_ring = name, lo_slot = int (length hist mod c), lo_gen = word_of_nat (length hist div c + 1)\<rparr>, r1)"
      "ring_inv c name (hist @ [p]) r1" by blast
  from Cons.IH [OF 1(2)] Cons.prems(2) obtain ls r2 where
    2: "put_frames ps r1 = Some (ls, r2)" "ring_inv c name ((hist @ [p]) @ ps) r2"
      "ls = map (\<lambda>j. \<lparr>lo_ring = name, lo_slot = int (j mod c), lo_gen = word_of_nat (j div c + 1)\<rparr>)
         [length (hist @ [p]) ..< length (hist @ [p]) + length ps]" by auto
  have "[length hist ..< length hist + length (p # ps)] = length hist # [length (hist @ [p]) ..< length (hist @ [p]) + length ps]"
    by (subst upt_conv_Cons) simp_all
  then show ?case using 1(1) 2 by simp
qed simp

lemma ring_get_inv:
  assumes "ring_inv c name hist r" "j < length hist" "length hist \<le> 2 ^ 63"
  shows "ring_get \<lparr>lo_ring = x, lo_slot = int (j mod c), lo_gen = word_of_nat (j div c + 1)\<rparr> r =
    (if length hist \<le> j + c then (case hist ! j of None \<Rightarrow> Inl NeverWritten | Some payload \<Rightarrow> Inr payload) else Inl Stale)"
proof -
  let ?n = "length hist"
  have c: "0 < c" and i: "j mod c < c" using assms(1) by (simp_all add: ring_inv_def)
  have lt: "fills c ?n (j mod c) < 2 ^ 64" "j div c + 1 < 2 ^ 64"
  proof -
    show "fills c ?n (j mod c) < 2 ^ 64" using fills_bound [of c ?n "j mod c"] assms(3) by simp
    have "j div c \<le> j" by simp
    then have "j div c < 2 ^ 63" using assms(2,3) by linarith
    then show "j div c + 1 < 2 ^ 64" by simp
  qed
  have "rg_generation r ! (j mod c) = word_of_nat (j div c + 1) \<longleftrightarrow> ?n \<le> j + c"
  proof -
    have "rg_generation r ! (j mod c) = (word_of_nat (fills c ?n (j mod c)) :: 64 word)"
      using assms(1) i by (simp add: ring_inv_def)
    moreover have "(word_of_nat (fills c ?n (j mod c)) :: 64 word) = word_of_nat (j div c + 1) \<longleftrightarrow>
        fills c ?n (j mod c) = j div c + 1"
      using lt by (simp only: word_of_nat_eq_iff take_bit_nat_eq_self_iff) (simp add: take_bit_nat_eq_self)
    ultimately show ?thesis using fills_current_iff [OF c assms(2)] by simp
  qed
  then show ?thesis using assms(1,2) c i by (simp add: ring_get_def ring_inv_def)
qed

subsection \<open>Properties\<close>

lemma parse_encode:
  assumes "CHR '':'' \<notin> set (lo_ring l)" "in_i64 (lo_slot l)"
  shows "parse_locator (encode_locator l) = Inr l"
proof -
  have "split_n (CHR '':'') 3 (encode_locator l) = [lo_ring l, print_int (lo_slot l), print_int (uint (lo_gen l))]"
    using split_n_sep [OF assms(1), of 1] split_n_sep [OF no_colon, of 0]
    by (simp add: encode_locator_def numeral_3_eq_3)
  then show ?thesis
    by (simp add: parse_locator_def atoi_print_int [OF assms(2)] parse_uint_print)
qed

text \<open>A locator survives its encoding as text for every slot that
is an \<open>int\<close> and every generation, provided the ring's name has no colon.\<close>

theorem locator_roundtrip:
  assumes "CHR '':'' \<notin> set (lo_ring l)" "in_i64 (lo_slot l)"
  shows "parse_locator (encode_locator l) = Inr l"
  using assms by (rule parse_encode)

text \<open>The ring keeps exactly the last frames: after any writes to a new ring, of at most 2^63, none of which panics, the
locator of the j-th write returns that very payload as long as fewer than a capacity of writes followed it, and is reported stale from then on,
so a reader never gets another frame's pixels.\<close>

theorem ring_keeps_last_frames:
  assumes "new_claim_ring name capacity = Inr r" "length ps \<le> 2 ^ 63"
  shows "\<exists>ls r'. put_frames ps r = Some (ls, r') \<and> length ls = length ps \<and>
    (\<forall>j < length ps. ring_get (ls ! j) r' =
       (if int (length ps) \<le> int j + capacity
        then (case ps ! j of None \<Rightarrow> Inl NeverWritten | Some payload \<Rightarrow> Inr payload) else Inl Stale))"
proof -
  have cap: "0 < capacity" using assms(1) by (simp add: new_claim_ring_def split: if_splits)
  from put_frames_inv [OF new_claim_ring_inv [OF assms(1)], of ps] assms(2)
  obtain ls r' where p: "put_frames ps r = Some (ls, r')" "ring_inv (nat capacity) name ps r'"
    "ls = map (\<lambda>j. \<lparr>lo_ring = name, lo_slot = int (j mod nat capacity), lo_gen = word_of_nat (j div nat capacity + 1)\<rparr>) [0 ..< length ps]"
    by auto
  have "ring_get (ls ! j) r' = (if int (length ps) \<le> int j + capacity
      then (case ps ! j of None \<Rightarrow> Inl NeverWritten | Some payload \<Rightarrow> Inr payload) else Inl Stale)" if "j < length ps" for j
  proof -
    have "int (length ps) \<le> int j + capacity \<longleftrightarrow> length ps \<le> j + nat capacity" using cap by linarith
    then show ?thesis using that ring_get_inv [OF p(2) that assms(2)] by (simp add: p(3))
  qed
  then show ?thesis using p by auto
qed

subsection \<open>Witnesses\<close>

lemma locator_roundtrip_witness:
  "parse_locator (encode_locator \<lparr>lo_ring = ''stream-1'', lo_slot = 63, lo_gen = 7\<rparr>) = Inr \<lparr>lo_ring = ''stream-1'', lo_slot = 63, lo_gen = 7\<rparr>"
  by (rule locator_roundtrip) (simp_all add: in_i64_def)

text \<open>The names of rings are stream ids, which the services do not restrict: one with a colon cannot be read back.\<close>

lemma colon_breaks_locator:
  "parse_locator (encode_locator \<lparr>lo_ring = ''rtsp:cam'', lo_slot = 0, lo_gen = 1\<rparr>) = Inl (BadSlot ''rtsp:cam:0:1'')"
  by code_simp

lemma ring_keeps_last_frames_witness:
  "\<exists>ls r'. put_frames [Some ''a'', Some ''b'', Some ''c''] \<lparr>rg_name = ''s'', rg_cap = 2, rg_next = 0, rg_slots = [None, None], rg_generation = [0, 0]\<rparr> =
      Some (ls, r') \<and> ring_get (ls ! 0) r' = Inl Stale \<and> ring_get (ls ! 1) r' = Inr ''b'' \<and> ring_get (ls ! 2) r' = Inr ''c''"
proof -
  have n: "new_claim_ring ''s'' 2 = Inr \<lparr>rg_name = ''s'', rg_cap = 2, rg_next = 0, rg_slots = [None, None], rg_generation = [0, 0]\<rparr>"
    by (simp add: new_claim_ring_def numeral_2_eq_2)
  let ?ps = "[Some ''a'', Some ''b'', Some ''c'']"
  have "length ?ps \<le> 2 ^ 63" by simp
  from ring_keeps_last_frames [OF n this] obtain ls r' where p: "put_frames ?ps \<lparr>rg_name = ''s'', rg_cap = 2, rg_next = 0, rg_slots = [None, None], rg_generation = [0, 0]\<rparr> = Some (ls, r')"
    and f: "\<forall>j < length ?ps. ring_get (ls ! j) r' = (if int (length ?ps) \<le> int j + 2
        then (case ?ps ! j of None \<Rightarrow> Inl NeverWritten | Some payload \<Rightarrow> Inr payload) else Inl Stale)" by blast
  show ?thesis using p f [rule_format, of 0] f [rule_format, of 1] f [rule_format, of 2] by simp
qed

end
