(* ===== verification/Operators.thy ===== *)
theory Operators
  imports ClaimCheck GoFloat Bus
begin

section \<open>pkg/dataplane: frames and the operators on them\<close>

text \<open>
  Model of \<open>pkg/dataplane/operator.go\<close> and of the operators ingest, sampler, detect, redact and emit of
  \<open>pkg/dataplane/operators\<close>. An envelope is a record of its descriptor and of what operators attached to it. An operator
  is the function that its \<open>Run\<close> loop applies to the stream of envelopes; \<open>None\<close> for an envelope that it does not
  forward. Coordinates are \<open>float32\<close>. JSON and protobuf encoders, detectors, clock readings and random bytes are arguments.
  Detections are held by value: no operator of the chains that the repository builds holds one twice before the
  tracker writes its id.
\<close>

subsection \<open>Frames\<close>

record bounding_box =
  bb_x :: fl
  bb_y :: fl
  bb_w :: fl
  bb_h :: fl

record frame_detection =
  dt_tenant :: string
  dt_pipeline :: string
  dt_stream :: string
  dt_seq :: int
  dt_capture :: "time option"
  dt_model :: string
  dt_model_version :: string
  dt_class :: string
  dt_score :: fl
  dt_box :: "bounding_box option"
  dt_track :: string

text \<open>The payload is the locator of its \<open>PayloadLocation\<close>; the kind is shared memory wherever one is set, and never read.\<close>

record descriptor =
  fd_stream :: string
  fd_pipeline :: string
  fd_seq :: int
  fd_capture :: "time option"
  fd_width :: int
  fd_height :: int
  fd_pixel_format :: string
  fd_color_space :: string
  fd_payload :: "string option"
  fd_attestations :: "string list"
  fd_traceparent :: string

datatype severity = Severity nat

text \<open>An event of the data plane. Its kind and its summary are the same constants for every event and are left out.\<close>

record frame_event =
  fe_id :: string
  fe_tenant :: string
  fe_pipeline :: string
  fe_stream :: string
  fe_severity :: severity
  fe_seq :: int
  fe_capture :: "time option"
  fe_emitted :: time
  fe_rule :: string
  fe_zone :: string
  fe_track :: string
  fe_class :: string
  fe_score :: fl
  fe_box :: bounding_box
  fe_traceparent :: string

record track_hit =
  th_index :: nat
  th_track :: string

record envelope =
  en_descriptor :: descriptor
  en_detections :: "frame_detection list"
  en_tracks :: "track_hit list"
  en_events :: "frame_event list"
  en_emitted :: time

text \<open>The getters of a nil message: an absent box has the coordinates 0, an absent timestamp is the Unix epoch.\<close>

definition zero_box :: bounding_box where
  "zero_box = \<lparr>bb_x = Fin 0, bb_y = Fin 0, bb_w = Fin 0, bb_h = Fin 0\<rparr>"

definition get_box :: "bounding_box option \<Rightarrow> bounding_box" where
  "get_box b = (case b of None \<Rightarrow> zero_box | Some b \<Rightarrow> b)"

definition as_time :: "time option \<Rightarrow> time" where
  "as_time t = (case t of None \<Rightarrow> 62135596800 * 1000000000 | Some t \<Rightarrow> t)"

definition get_locator :: "descriptor \<Rightarrow> string" where
  "get_locator d = (case fd_payload d of None \<Rightarrow> [] | Some l \<Rightarrow> l)"

subsection \<open>Random identifiers\<close>

definition new_track_id :: "string \<Rightarrow> string" where
  "new_track_id b = ''trk-'' @ hex_string b"

subsection \<open>Sampler\<close>

record sampler_config =
  sc_source :: int
  sc_target :: int

definition new_sampler :: "sampler_config \<Rightarrow> sampler_config" where
  "new_sampler cfg = (if sc_target cfg \<le> 0 \<or> sc_source cfg < sc_target cfg then cfg\<lparr>sc_target := sc_source cfg\<rparr> else cfg)"

definition sampler_step :: "sampler_config \<Rightarrow> int" where
  "sampler_step cfg =
     (if 0 < sc_target cfg
      then let q = sc_source cfg div sc_target cfg in if q < 1 then 1 else q
      else 1)"

fun sampler_loop :: "int \<Rightarrow> int \<Rightarrow> 'e list \<Rightarrow> 'e list" where
  "sampler_loop stp i [] = []"
| "sampler_loop stp i (env # envs) =
     (if go_rem i stp = 0 then env # sampler_loop stp (i64 (i + 1)) envs else sampler_loop stp (i64 (i + 1)) envs)"

definition sampler_run :: "sampler_config \<Rightarrow> 'e list \<Rightarrow> 'e list" where
  "sampler_run cfg envs = sampler_loop (sampler_step cfg) 0 envs"

subsection \<open>Ingest\<close>

record synthetic_target =
  sy_x :: fl
  sy_y :: fl
  sy_w :: fl
  sy_h :: fl
  sy_class :: string
  sy_score :: fl

abbreviation (input) c32 :: "rat \<Rightarrow> fl" where "c32 q \<equiv> fl_round f32 q"

definition walk_x :: "int \<Rightarrow> fl" where
  "walk_x sq =
     (let phase = go_rem sq 300 in
      if phase < 120 then fl_add f32 (c32 (5 / 100)) (fl_div f32 (fl_mul f32 (fl_of_int f32 phase) (c32 (7 / 10))) (Fin 120))
      else if phase < 150 then c32 (75 / 100)
      else if phase < 270 then
        fl_sub f32 (c32 (75 / 100)) (fl_div f32 (fl_mul f32 (fl_of_int f32 (phase - 150)) (c32 (7 / 10))) (Fin 120))
      else c32 (5 / 100))"

definition walk_pattern :: "int \<Rightarrow> synthetic_target" where
  "walk_pattern sq =
     \<lparr>sy_x = walk_x sq, sy_y = c32 (45 / 100), sy_w = c32 (12 / 100), sy_h = c32 (30 / 100), sy_class = ''person'', sy_score = c32 (92 / 100)\<rparr>"

record ingest_config =
  ic_stream :: string
  ic_pipeline :: string
  ic_width :: int
  ic_height :: int
  ic_total :: int

text \<open>One tick of the ticker. The encoder yields \<open>None\<close> on an error, which leaves the payload nil.\<close>

definition ingest_frame :: "ingest_config \<Rightarrow> (synthetic_target \<Rightarrow> string option) \<Rightarrow> int \<Rightarrow> time \<Rightarrow> claim_ring \<Rightarrow> (envelope \<times> claim_ring) option" where
  "ingest_frame cfg marshal sq now r =
     map_option (\<lambda>(loc, r').
       (\<lparr>en_descriptor =
           \<lparr>fd_stream = ic_stream cfg, fd_pipeline = ic_pipeline cfg, fd_seq = sq, fd_capture = Some now, fd_width = ic_width cfg,
            fd_height = ic_height cfg, fd_pixel_format = ''synthetic.json'', fd_color_space = ''n/a'',
            fd_payload = Some (encode_locator loc), fd_attestations = [], fd_traceparent = []\<rparr>,
         en_detections = [], en_tracks = [], en_events = [], en_emitted = 0\<rparr>, r'))
       (ring_put (marshal (walk_pattern sq)) r)"

text \<open>The loop over the readings of the ticker until the context is cancelled (the end of the list) or Total is reached.\<close>

fun ingest_loop :: "ingest_config \<Rightarrow> (synthetic_target \<Rightarrow> string option) \<Rightarrow> int \<Rightarrow> time list \<Rightarrow> claim_ring \<Rightarrow> (envelope list \<times> claim_ring) option" where
  "ingest_loop cfg marshal sq [] r = Some ([], r)"
| "ingest_loop cfg marshal sq (now # ticks) r =
     (if 0 < ic_total cfg \<and> ic_total cfg \<le> sq then Some ([], r)
      else Option.bind (ingest_frame cfg marshal sq now r) (\<lambda>(env, r1).
        map_option (\<lambda>(envs, r2). (env # envs, r2)) (ingest_loop cfg marshal (i64 (sq + 1)) ticks r1)))"

subsection \<open>Detect\<close>

definition extract_tenant :: "descriptor \<Rightarrow> string" where
  "extract_tenant d =
     (case find (\<lambda>p. 7 < length p \<and> take 7 p = ''tenant='') (fd_attestations d) of None \<Rightarrow> [] | Some p \<Rightarrow> drop 7 p)"

definition synthetic_detect :: "(string \<Rightarrow> string + synthetic_target) \<Rightarrow> descriptor \<Rightarrow> string \<Rightarrow> string + frame_detection list" where
  "synthetic_detect unmarshal d payload =
     (case unmarshal payload of
        Inl e \<Rightarrow> Inl (''synthetic: '' @ e)
      | Inr t \<Rightarrow>
          Inr [\<lparr>dt_tenant = extract_tenant d, dt_pipeline = fd_pipeline d, dt_stream = fd_stream d, dt_seq = fd_seq d,
                dt_capture = fd_capture d, dt_model = ''synthetic-detector'', dt_model_version = ''v1'', dt_class = sy_class t,
                dt_score = sy_score t, dt_box = Some \<lparr>bb_x = sy_x t, bb_y = sy_y t, bb_w = sy_w t, bb_h = sy_h t\<rparr>, dt_track = []\<rparr>])"

text \<open>One envelope: dropped when its locator, its payload or the detector fails.\<close>

definition detect_frame :: "(descriptor \<Rightarrow> string \<Rightarrow> string + frame_detection list) \<Rightarrow> claim_ring \<Rightarrow> envelope \<Rightarrow> envelope option" where
  "detect_frame detector r env =
     (case parse_locator (get_locator (en_descriptor env)) of
        Inl _ \<Rightarrow> None
      | Inr loc \<Rightarrow>
          (case ring_get loc r of
             Inl _ \<Rightarrow> None
           | Inr payload \<Rightarrow>
               (case detector (en_descriptor env) payload of
                  Inl _ \<Rightarrow> None
                | Inr dets \<Rightarrow> Some (env\<lparr>en_detections := en_detections env @ dets\<rparr>))))"

subsection \<open>Redact\<close>

record redact_config =
  rc_classes :: "string list"
  rc_ring :: "claim_ring option"
  rc_mode :: string

definition new_redact :: "redact_config \<Rightarrow> redact_config" where
  "new_redact cfg =
     (let cfg1 = (if rc_classes cfg = [] then cfg\<lparr>rc_classes := [''face'', ''license-plate'', ''plate'']\<rparr> else cfg) in
      if rc_mode cfg1 = [] then cfg1\<lparr>rc_mode := ''blur''\<rparr> else cfg1)"

text \<open>The ring is shared with the other operators: the operator's configuration holds its state. \<open>None\<close> is the panic of the ring.\<close>

definition redact_target :: "string \<Rightarrow> synthetic_target \<Rightarrow> synthetic_target" where
  "redact_target mode t = t\<lparr>sy_x := Fin 0, sy_y := Fin 0, sy_w := Fin 0, sy_h := Fin 0, sy_class := ''redacted-'' @ mode\<rparr>"

definition redact_apply :: "(string \<Rightarrow> string + synthetic_target) \<Rightarrow> (synthetic_target \<Rightarrow> string option) \<Rightarrow> redact_config \<Rightarrow> envelope \<Rightarrow>
    (envelope \<times> redact_config) option" where
  "redact_apply unmarshal marshal cfg env =
     (let boxes = map dt_box (filter (\<lambda>d. dt_class d \<in> set (rc_classes cfg)) (en_detections env)) in
      if boxes = [] then Some (env, cfg)
      else case rc_ring cfg of
        None \<Rightarrow> Some (env, cfg)
      | Some r \<Rightarrow>
          (case parse_locator (get_locator (en_descriptor env)) of
             Inl _ \<Rightarrow> Some (env, cfg)
           | Inr loc \<Rightarrow>
               (case ring_get loc r of
                  Inl _ \<Rightarrow> Some (env, cfg)
                | Inr payload \<Rightarrow>
                    (case unmarshal payload of
                       Inl _ \<Rightarrow> Some (env, cfg)
                     | Inr t \<Rightarrow>
                         map_option (\<lambda>(new_loc, r').
                             (env\<lparr>en_descriptor := (en_descriptor env)\<lparr>fd_payload := Some (encode_locator new_loc)\<rparr>\<rparr>, cfg\<lparr>rc_ring := Some r'\<rparr>))
                           (ring_put (marshal (redact_target (rc_mode cfg) t)) r)))))"

subsection \<open>Emit\<close>

definition emit_headers :: "frame_event \<Rightarrow> (string \<times> string) list" where
  "emit_headers ev =
     [(''tenant'', fe_tenant ev), (''stream'', fe_stream ev), (''pipeline'', fe_pipeline ev)] @
     (if fe_traceparent ev \<noteq> [] then [(''traceparent'', fe_traceparent ev)] else [])"

text \<open>The messages handed to the publisher for one envelope; what it answers is only logged.\<close>

fun emit_events :: "(frame_event \<Rightarrow> string option) \<Rightarrow> string \<Rightarrow> frame_event list \<Rightarrow> bus_message list" where
  "emit_events marshal subject [] = []"
| "emit_events marshal subject (ev # evs) =
     (case marshal ev of
        None \<Rightarrow> emit_events marshal subject evs
      | Some data \<Rightarrow> \<lparr>bm_subject = subject, bm_data = data, bm_headers = emit_headers ev\<rparr> # emit_events marshal subject evs)"

definition emit_frame :: "(frame_event \<Rightarrow> string option) \<Rightarrow> string \<Rightarrow> time \<Rightarrow> envelope \<Rightarrow> bus_message list \<times> envelope" where
  "emit_frame marshal subject now env =
     (emit_events marshal (if subject = [] then ''events.v1'' else subject) (en_events env), env\<lparr>en_emitted := now\<rparr>)"

subsection \<open>The sampler\<close>

lemma go_rem_nonneg: "0 \<le> a \<Longrightarrow> go_rem a b = a mod b"
  by (simp add: go_rem_def)

lemma sampler_step_pos: "0 < sampler_step cfg"
  by (simp add: sampler_step_def Let_def)

lemma sampler_loop_nth:
  assumes "0 < stp" "k + length envs < 2 ^ 63"
  shows "sampler_loop stp (int k) envs = map (\<lambda>j. envs ! (j - k)) (filter (\<lambda>j. int j mod stp = 0) [k ..< k + length envs])"
  using assms(2)
proof (induction envs arbitrary: k)
  case (Cons e es)
  have "in_i64 (int k + 1)" using Cons.prems by (simp add: in_i64_def)
  then have next1: "i64 (int k + 1) = int (Suc k)" by (simp add: i64_id)
  have up: "[k ..< k + length (e # es)] = k # [Suc k ..< Suc k + length es]" by (subst upt_conv_Cons) simp_all
  have shift: "map (\<lambda>j. es ! (j - Suc k)) (filter (\<lambda>j. int j mod stp = 0) [Suc k ..< Suc k + length es]) =
      map (\<lambda>j. (e # es) ! (j - k)) (filter (\<lambda>j. int j mod stp = 0) [Suc k ..< Suc k + length es])"
  proof (rule map_cong [OF refl])
    fix j assume "j \<in> set (filter (\<lambda>j. int j mod stp = 0) [Suc k ..< Suc k + length es])"
    then have "j - k = Suc (j - Suc k)" by auto
    then show "es ! (j - Suc k) = (e # es) ! (j - k)" by simp
  qed
  have "sampler_loop stp (int (Suc k)) es = map (\<lambda>j. (e # es) ! (j - k)) (filter (\<lambda>j. int j mod stp = 0) [Suc k ..< Suc k + length es])"
    using Cons.IH [of "Suc k"] Cons.prems shift by simp
  then show ?case unfolding up sampler_loop.simps next1 by (simp add: go_rem_nonneg)
qed simp

lemma count_multiples: "0 < s \<Longrightarrow> length (filter (\<lambda>j. j mod s = 0) [0 ..< n]) = (n + s - 1) div (s :: nat)"
proof (induction n)
  case 0
  then show ?case by simp
next
  case (Suc n)
  have "(Suc n + s - 1) div s = (n + s - 1) div s + (if n mod s = 0 then 1 else 0)"
  proof -
    define m where "m = n + s - 1"
    have m: "Suc m = n + s" "Suc n + s - 1 = Suc m" using Suc.prems by (simp_all add: m_def)
    have "Suc m mod s = n mod s" unfolding m(1) by simp
    then show ?thesis unfolding m(2) m_def [symmetric] div_Suc by simp
  qed
  then show ?case using Suc by simp
qed

lemma sampler_run_spec:
  assumes "length envs < 2 ^ 63"
  shows "sampler_run cfg envs = map ((!) envs) (filter (\<lambda>j. j mod nat (sampler_step cfg) = 0) [0 ..< length envs])"
proof -
  have "(int j mod sampler_step cfg = 0) = (j mod nat (sampler_step cfg) = 0)" for j
    using sampler_step_pos [of cfg] by (metis int_nat_eq less_imp_le of_nat_eq_0_iff zmod_int)
  then show ?thesis
    using sampler_loop_nth [OF sampler_step_pos, of 0 envs cfg] assms by (simp add: sampler_run_def)
qed

text \<open>Of one second of source frames the sampler forwards no more than its target exactly when the target divides the source rate;
otherwise it rounds its step down and exceeds the budget.\<close>

theorem sampler_meets_budget_iff:
  assumes "0 < sc_target cfg" "sc_target cfg \<le> sc_source cfg" "sc_source cfg < 2 ^ 63" "int (length envs) = sc_source cfg"
  shows "int (length (sampler_run (new_sampler cfg) envs)) \<le> sc_target cfg \<longleftrightarrow> sc_target cfg dvd sc_source cfg"
proof -
  define n t where "n = length envs" and "t = nat (sc_target cfg)"
  have t: "0 < t" "sc_target cfg = int t" and tn: "t \<le> n" and n: "sc_source cfg = int n"
    using assms by (simp_all add: n_def t_def)
  define q r where "q = n div t" and "r = n mod t"
  have nq: "n = q * t + r" and r: "r < t" by (simp_all add: q_def r_def t)
  have q: "0 < q" unfolding q_def using t(1) tn by (simp add: div_greater_zero_iff)
  have "new_sampler cfg = cfg" using assms by (simp add: new_sampler_def)
  moreover have stp: "nat (sampler_step cfg) = q"
    using t n q by (simp add: sampler_step_def q_def Let_def zdiv_int [symmetric])
  moreover have "length envs < 2 ^ 63"
  proof -
    have "int (length envs) < 2 ^ 63" using assms by simp
    then show ?thesis by simp
  qed
  ultimately have len: "length (sampler_run (new_sampler cfg) envs) = (n + q - 1) div q"
    using sampler_run_spec [of envs cfg] count_multiples [OF q, of n] by (simp add: n_def)
  have "(n + q - 1) div q \<le> t \<longleftrightarrow> r = 0"
  proof
    assume "r = 0"
    then have "n + q - 1 = (q - 1) + t * q" using nq q by (simp add: mult.commute)
    then have "(n + q - 1) div q = t" using q by (simp only:) (subst div_mult_self1, simp_all)
    then show "(n + q - 1) div q \<le> t" by simp
  next
    assume le: "(n + q - 1) div q \<le> t"
    show "r = 0"
    proof (rule ccontr)
      assume "r \<noteq> 0"
      then have "(t + 1) * q \<le> n + q - 1" using nq by (simp add: algebra_simps)
      then have "t + 1 \<le> (n + q - 1) div q" using q by (simp add: less_eq_div_iff_mult_less_eq)
      then show False using le by simp
    qed
  qed
  moreover have "sc_target cfg dvd sc_source cfg \<longleftrightarrow> r = 0" by (simp add: t n r_def dvd_eq_mod_eq_0 zmod_int [symmetric])
  ultimately show ?thesis using len t n by simp
qed

subsection \<open>Redaction\<close>

text \<open>The ring of a stream, from a history of writes, and a frame whose payload is the j-th of them.\<close>

definition behind :: "nat \<Rightarrow> string \<Rightarrow> nat \<Rightarrow> locator" where
  "behind c name j = \<lparr>lo_ring = name, lo_slot = int (j mod c), lo_gen = word_of_nat (j div c + 1)\<rparr>"

lemma behind_roundtrip:
  assumes "CHR '':'' \<notin> set name" "0 < c" "c < 2 ^ 63"
  shows "parse_locator (encode_locator (behind c name j)) = Inr (behind c name j)"
proof -
  have "j mod c < 2 ^ 63" using assms(2,3) by (meson less_trans mod_less_divisor)
  then have "in_i64 (int (j mod c))" by (simp add: in_i64_def)
  then show ?thesis using parse_encode [of "behind c name j"] assms(1) by (simp add: behind_def)
qed

definition wants_redaction :: "redact_config \<Rightarrow> envelope \<Rightarrow> bool" where
  "wants_redaction cfg env \<longleftrightarrow> (\<exists>d \<in> set (en_detections env). dt_class d \<in> set (rc_classes cfg))"

lemma wants_redaction_boxes:
  "map dt_box (filter (\<lambda>d. dt_class d \<in> set (rc_classes cfg)) (en_detections env)) = [] \<longleftrightarrow> \<not> wants_redaction cfg env"
  by (auto simp: wants_redaction_def filter_empty_conv)

text \<open>When a frame shows a class that is to be redacted and its payload can be read and decoded, the frame leaves the operator with
a locator whose payload decodes to the target without geometry and with the redacted class. The operator writes this payload to the
next slot: the original stays readable through the old locator, although the code's comments promise that it is overwritten.\<close>

theorem redaction_keeps_the_original:
  assumes "ring_inv c name hist r" "length hist + 1 < 2 ^ 63" "CHR '':'' \<notin> set name" "1 < c" "c < 2 ^ 63"
    "rc_ring cfg = Some r" "wants_redaction cfg env" "get_locator (en_descriptor env) = encode_locator (behind c name j)"
    "j < length hist" "length hist < j + c" "hist ! j = Some payload" "unmarshal payload = Inr t"
    "marshal (redact_target (rc_mode cfg) t) = Some body" "unmarshal body = Inr (redact_target (rc_mode cfg) t)"
  shows "\<exists>env' r' loc. redact_apply unmarshal marshal cfg env = Some (env', cfg\<lparr>rc_ring := Some r'\<rparr>) \<and>
    parse_locator (get_locator (en_descriptor env')) = Inr loc \<and>
    ring_get loc r' = Inr body \<and> unmarshal body = Inr (redact_target (rc_mode cfg) t) \<and>
    ring_get (behind c name j) r' = Inr payload"
proof -
  let ?n = "length hist"
  have c: "0 < c" using assms(4) by simp
  have "?n < 2 ^ 63" using assms(2) by simp
  from ring_put_inv [OF assms(1) this, of "Some body"] obtain r' where
    r': "ring_put (Some body) r = Some (behind c name ?n, r')" "ring_inv c name (hist @ [Some body]) r'"
    unfolding behind_def by blast
  have now: "ring_get (behind c name j) r = Inr payload"
    using ring_get_inv [OF assms(1,9), of name] assms(2,10,11) by (simp add: behind_def)
  have late: "ring_get (behind c name j) r' = Inr payload"
    using ring_get_inv [OF r'(2), of j name] assms(2,9,10,11) by (simp add: behind_def nth_append)
  have new: "ring_get (behind c name ?n) r' = Inr body"
    using ring_get_inv [OF r'(2), of ?n name] assms(2) c by (simp add: behind_def)
  note parse = behind_roundtrip [OF assms(3) c assms(5)]
  have "redact_apply unmarshal marshal cfg env =
      Some (env\<lparr>en_descriptor := (en_descriptor env)\<lparr>fd_payload := Some (encode_locator (behind c name ?n))\<rparr>\<rparr>, cfg\<lparr>rc_ring := Some r'\<rparr>)"
    unfolding redact_apply_def Let_def wants_redaction_boxes
    using assms(6,7,12,13) now parse r'(1) by (simp add: assms(8))
  moreover have "get_locator (fd\<lparr>fd_payload := Some l\<rparr>) = l" for fd :: descriptor and l by (simp add: get_locator_def)
  ultimately show ?thesis using parse new late assms(14)
    by (intro exI [of _ "env\<lparr>en_descriptor := (en_descriptor env)\<lparr>fd_payload := Some (encode_locator (behind c name ?n))\<rparr>\<rparr>"]
        exI [of _ r'] exI [of _ "behind c name ?n"]) simp
qed

text \<open>Redaction fails open: a frame that shows a face but whose payload cannot be read or decoded passes the operator as it is.\<close>

theorem unreadable_frame_passes_unredacted:
  assumes "rc_ring cfg = None \<or>
    (\<exists>r e. rc_ring cfg = Some r \<and>
      (parse_locator (get_locator (en_descriptor env)) = Inl e \<or>
       (\<exists>loc. parse_locator (get_locator (en_descriptor env)) = Inr loc \<and>
          (ring_get loc r = Inl e \<or> (\<exists>payload m. ring_get loc r = Inr payload \<and> unmarshal payload = Inl m)))))"
  shows "redact_apply unmarshal marshal cfg env = Some (env, cfg)"
  using assms by (auto simp: redact_apply_def Let_def)

subsection \<open>What the operators keep\<close>

lemma detect_frame_keeps:
  "detect_frame detector r env = Some env' \<Longrightarrow> en_descriptor env' = en_descriptor env \<and> en_events env' = en_events env \<and>
   (\<exists>dets. en_detections env' = en_detections env @ dets)"
  by (auto simp: detect_frame_def split: sum.splits)

text \<open>Every event that can be marshalled is published, in order, with the tenant, stream and pipeline of the event.\<close>

lemma emit_events_spec:
  "emit_events marshal subject evs =
   map (\<lambda>ev. \<lparr>bm_subject = subject, bm_data = the (marshal ev), bm_headers = emit_headers ev\<rparr>) (filter (\<lambda>ev. marshal ev \<noteq> None) evs)"
  by (induction evs) (auto split: option.splits)

subsection \<open>Witnesses\<close>

lemma sampler_meets_budget_iff_witness:
  "\<not> int (length (sampler_run (new_sampler \<lparr>sc_source = 5, sc_target = 3\<rparr>) [1 :: nat, 2, 3, 4, 5])) \<le> 3"
  using sampler_meets_budget_iff [of "\<lparr>sc_source = 5, sc_target = 3\<rparr>" "[1 :: nat, 2, 3, 4, 5]"] by simp

definition demo_redact :: "claim_ring \<Rightarrow> redact_config" where
  "demo_redact r = new_redact \<lparr>rc_classes = [], rc_ring = Some r, rc_mode = []\<rparr>"

definition demo_face :: "string \<Rightarrow> envelope" where
  "demo_face locator =
     \<lparr>en_descriptor = \<lparr>fd_stream = ''s'', fd_pipeline = ''p'', fd_seq = 0, fd_capture = None, fd_width = 0, fd_height = 0,
        fd_pixel_format = [], fd_color_space = [], fd_payload = Some locator, fd_attestations = [], fd_traceparent = []\<rparr>,
      en_detections = [\<lparr>dt_tenant = [], dt_pipeline = [], dt_stream = [], dt_seq = 0, dt_capture = None, dt_model = [],
        dt_model_version = [], dt_class = ''face'', dt_score = Fin 1, dt_box = None, dt_track = []\<rparr>],
      en_tracks = [], en_events = [], en_emitted = 0\<rparr>"

definition demo_decode :: "string \<Rightarrow> string + synthetic_target" where
  "demo_decode s =
     (if s = [] then Inl ''empty''
      else Inr \<lparr>sy_x = Fin 0, sy_y = Fin 0, sy_w = Fin 0, sy_h = Fin 0, sy_class = s, sy_score = Fin 1\<rparr>)"

definition demo_encode :: "synthetic_target \<Rightarrow> string option" where "demo_encode t = Some (sy_class t)"

lemma redaction_keeps_the_original_witness:
  "\<exists>r env' r' loc. ring_inv 2 ''s'' [Some ''face''] r \<and>
     redact_apply demo_decode demo_encode (demo_redact r) (demo_face (encode_locator (behind 2 ''s'' 0))) =
       Some (env', (demo_redact r)\<lparr>rc_ring := Some r'\<rparr>) \<and>
     parse_locator (get_locator (en_descriptor env')) = Inr loc \<and> ring_get loc r' = Inr ''redacted-blur'' \<and>
     ring_get (behind 2 ''s'' 0) r' = Inr ''face''"
proof -
  obtain r0 where "new_claim_ring ''s'' 2 = Inr r0" by (simp add: new_claim_ring_def)
  from ring_put_inv [OF new_claim_ring_inv [OF this], of "Some ''face''"] obtain r where r: "ring_inv 2 ''s'' [Some ''face''] r" by auto
  have m: "rc_mode (demo_redact r) = ''blur''" by (simp add: demo_redact_def new_redact_def)
  have f: "rc_ring (demo_redact r) = Some r" "wants_redaction (demo_redact r) (demo_face l)" "get_locator (en_descriptor (demo_face l)) = l" for l
    by (simp_all add: demo_redact_def new_redact_def demo_face_def wants_redaction_def get_locator_def)
  have d: "demo_decode ''face'' = Inr \<lparr>sy_x = Fin 0, sy_y = Fin 0, sy_w = Fin 0, sy_h = Fin 0, sy_class = ''face'', sy_score = Fin 1\<rparr>" (is "_ = Inr ?t")
    by (simp add: demo_decode_def)
  have e: "demo_encode (redact_target (rc_mode (demo_redact r)) ?t) = Some ''redacted-blur''"
    "demo_decode ''redacted-blur'' = Inr (redact_target (rc_mode (demo_redact r)) ?t)"
    unfolding m by (simp_all add: demo_encode_def demo_decode_def redact_target_def)
  show ?thesis
    using redaction_keeps_the_original [where c = 2 and j = 0 and payload = "''face''" and env = "demo_face (encode_locator (behind 2 ''s'' 0))"
        and name = "''s''" and hist = "[Some ''face'']" and unmarshal = demo_decode and marshal = demo_encode and cfg = "demo_redact r"
        and body = "''redacted-blur''", OF r _ _ _ _ f(1) f(2) f(3) _ _ _ d e] r by auto
qed

lemma unreadable_frame_passes_unredacted_witness:
  "\<exists>r. redact_apply demo_decode demo_encode (demo_redact r) (demo_face ''not a locator'') = Some (demo_face ''not a locator'', demo_redact r) \<and>
     wants_redaction (demo_redact r) (demo_face ''not a locator'')"
proof -
  obtain r where "new_claim_ring ''s'' 2 = Inr r" by (simp add: new_claim_ring_def)
  have "parse_locator (get_locator (en_descriptor (demo_face ''not a locator''))) = Inl (BadParts ''not a locator'')"
    by (simp add: demo_face_def get_locator_def parse_locator_def numeral_3_eq_3)
  moreover have "rc_ring (demo_redact r) = Some r" "wants_redaction (demo_redact r) (demo_face ''not a locator'')"
    by (simp_all add: demo_redact_def new_redact_def demo_face_def wants_redaction_def)
  ultimately show ?thesis using unreadable_frame_passes_unredacted [of "demo_redact r" "demo_face ''not a locator''" demo_decode demo_encode] by blast
qed

end
