(* ===== verification/Tracking.thy ===== *)
theory Tracking
  imports Operators
begin

section \<open>pkg/dataplane/operators: the tracker and the dwell rule\<close>

text \<open>
  Model of \<open>operators/tracker.go\<close> and \<open>operators/rule.go\<close>. The tracker's state is its list of tracks, the rule operator's
  is the map of the tracks that are inside a zone. Ranging over the detections evaluates the slice once, and the
  rule operator writes to its first element while it does: its loops run over indices.
\<close>

subsection \<open>Intersection over union\<close>

definition max_f :: "fl \<Rightarrow> fl \<Rightarrow> fl" where "max_f a b = (if fl_lt b a then a else b)"
definition min_f :: "fl \<Rightarrow> fl \<Rightarrow> fl" where "min_f a b = (if fl_lt a b then a else b)"

definition iou :: "bounding_box option \<Rightarrow> bounding_box option \<Rightarrow> fl" where
  "iou oa ob =
     (case (oa, ob) of
        (Some a, Some b) \<Rightarrow>
          let ax1 = bb_x a; ay1 = bb_y a; ax2 = fl_add f32 (bb_x a) (bb_w a); ay2 = fl_add f32 (bb_y a) (bb_h a);
              bx1 = bb_x b; by1 = bb_y b; bx2 = fl_add f32 (bb_x b) (bb_w b); by2 = fl_add f32 (bb_y b) (bb_h b);
              iw = fl_sub f32 (min_f ax2 bx2) (max_f ax1 bx1);
              ih = fl_sub f32 (min_f ay2 by2) (max_f ay1 by1) in
          if fl_le iw (Fin 0) \<or> fl_le ih (Fin 0) then Fin 0
          else
            let inter = fl_mul f32 iw ih;
                area_a = fl_mul f32 (fl_sub f32 ax2 ax1) (fl_sub f32 ay2 ay1);
                area_b = fl_mul f32 (fl_sub f32 bx2 bx1) (fl_sub f32 by2 by1);
                union = fl_sub f32 (fl_add f32 area_a area_b) inter in
            if fl_le union (Fin 0) then Fin 0 else fl_div f32 inter union
      | _ \<Rightarrow> Fin 0)"

subsection \<open>Tracker\<close>

record tracker_config =
  tc_threshold :: fl
  tc_max_missing :: int

record track_state =
  tk_id :: string
  tk_class :: string
  tk_box :: "bounding_box option"
  tk_missed :: int

definition new_tracker :: "tracker_config \<Rightarrow> tracker_config" where
  "new_tracker cfg =
     (let cfg1 = (if fl_le (tc_threshold cfg) (Fin 0) then cfg\<lparr>tc_threshold := fl_round f32 (1 / 4)\<rparr> else cfg) in
      if tc_max_missing cfg1 \<le> 0 then cfg1\<lparr>tc_max_missing := 30\<rparr> else cfg1)"

text \<open>The search for the best unused track: the index found so far and its overlap.\<close>

definition better :: "tracker_config \<Rightarrow> track_state list \<Rightarrow> bool list \<Rightarrow> frame_detection \<Rightarrow> nat \<Rightarrow> nat option \<times> fl \<Rightarrow> nat option \<times> fl" where
  "better cfg tracks used det ti best =
     (if used ! ti then best
      else if tk_class (tracks ! ti) \<noteq> dt_class det then best
      else let v = iou (tk_box (tracks ! ti)) (dt_box det) in
        if fl_lt (snd best) v \<and> fl_le (tc_threshold cfg) v then (Some ti, v) else best)"

definition best_track :: "tracker_config \<Rightarrow> track_state list \<Rightarrow> bool list \<Rightarrow> frame_detection \<Rightarrow> nat option" where
  "best_track cfg tracks used det = fst (fold (better cfg tracks used det) [0 ..< length tracks] (None, Fin 0))"

text \<open>One detection of the frame; \<open>rand\<close> gives the bytes that are drawn if it starts a track.\<close>

definition assign_one :: "tracker_config \<Rightarrow> (nat \<Rightarrow> string) \<Rightarrow> nat \<Rightarrow> envelope \<times> track_state list \<times> bool list \<Rightarrow> envelope \<times> track_state list \<times> bool list" where
  "assign_one cfg rand di st =
     (case st of (env, tracks, used) \<Rightarrow>
       let det = en_detections env ! di in
       case best_track cfg tracks used det of
         Some ti \<Rightarrow>
           let tid = tk_id (tracks ! ti) in
           (env\<lparr>en_detections := (en_detections env)[di := det\<lparr>dt_track := tid\<rparr>],
                en_tracks := en_tracks env @ [\<lparr>th_index = di, th_track = tid\<rparr>]\<rparr>,
            tracks[ti := (tracks ! ti)\<lparr>tk_box := dt_box det, tk_missed := 0\<rparr>], used[ti := True])
       | None \<Rightarrow>
           let tid = new_track_id (rand di) in
           (env\<lparr>en_detections := (en_detections env)[di := det\<lparr>dt_track := tid\<rparr>],
                en_tracks := en_tracks env @ [\<lparr>th_index = di, th_track = tid\<rparr>]\<rparr>,
            tracks @ [\<lparr>tk_id = tid, tk_class = dt_class det, tk_box = dt_box det, tk_missed = 0\<rparr>], used @ [True]))"

definition age_out :: "tracker_config \<Rightarrow> track_state list \<Rightarrow> bool list \<Rightarrow> track_state list" where
  "age_out cfg tracks used =
     filter (\<lambda>tr. tk_missed tr \<le> tc_max_missing cfg)
       (map (\<lambda>(tr, u). if u then tr else tr\<lparr>tk_missed := i64 (tk_missed tr + 1)\<rparr>) (zip tracks used))"

definition assign :: "tracker_config \<Rightarrow> (nat \<Rightarrow> string) \<Rightarrow> envelope \<times> track_state list \<Rightarrow> envelope \<times> track_state list" where
  "assign cfg rand st =
     (case st of (env, tracks) \<Rightarrow>
       case fold (assign_one cfg rand) [0 ..< length (en_detections env)] (env, tracks, replicate (length tracks) False) of
         (env', tracks', used) \<Rightarrow> (env', age_out cfg tracks' used))"

subsection \<open>The dwell rule\<close>

record rule_zone =
  rz_id :: string
  rz_x :: fl
  rz_y :: fl
  rz_w :: fl
  rz_h :: fl

record spatial_rule =
  sr_id :: string
  sr_tenant :: string
  sr_zone :: rule_zone
  sr_dwell :: duration
  sr_severity :: severity

record rule_state =
  rs_entered :: time
  rs_fired :: bool

type_synonym insides = "(string \<times> rule_state) list"

definition zone_contains :: "rule_zone \<Rightarrow> bounding_box option \<Rightarrow> bool" where
  "zone_contains z ob =
     (case ob of
        None \<Rightarrow> False
      | Some b \<Rightarrow>
          let cx = fl_add f32 (bb_x b) (fl_div f32 (bb_w b) (Fin 2)); cy = fl_add f32 (bb_y b) (fl_div f32 (bb_h b) (Fin 2)) in
          fl_le (rz_x z) cx \<and> fl_le cx (fl_add f32 (rz_x z) (rz_w z)) \<and> fl_le (rz_y z) cy \<and> fl_le cy (fl_add f32 (rz_y z) (rz_h z)))"

text \<open>What is drawn for an event: eight random bytes and a reading of the clock.\<close>

record event_stamp =
  es_bytes :: string
  es_now :: time

definition build_frame_event :: "event_stamp \<Rightarrow> spatial_rule \<Rightarrow> descriptor \<Rightarrow> frame_detection \<Rightarrow> frame_event" where
  "build_frame_event s rule d det =
     \<lparr>fe_id = ''evt-'' @ hex_string (es_bytes s), fe_tenant = sr_tenant rule, fe_pipeline = fd_pipeline d, fe_stream = fd_stream d,
      fe_severity = sr_severity rule, fe_seq = fd_seq d, fe_capture = fd_capture d, fe_emitted = es_now s, fe_rule = sr_id rule,
      fe_zone = rz_id (sr_zone rule), fe_track = dt_track det, fe_class = dt_class det, fe_score = dt_score det,
      fe_box = get_box (dt_box det), fe_traceparent = fd_traceparent d\<rparr>"

definition inside_key :: "string \<Rightarrow> spatial_rule \<Rightarrow> string" where
  "inside_key track rule = track @ '':'' @ sr_id rule"

definition rule_det :: "(nat \<Rightarrow> event_stamp) \<Rightarrow> time \<Rightarrow> spatial_rule \<Rightarrow> nat \<Rightarrow> envelope \<times> insides \<Rightarrow> envelope \<times> insides" where
  "rule_det stamp now rule di st =
     (case st of (env, ins) \<Rightarrow>
       let det = en_detections env ! di in
       if dt_track det = [] then (env, ins)
       else
         let key = inside_key (dt_track det) rule in
         if \<not> zone_contains (sr_zone rule) (dt_box det) then (env, AList.delete key ins)
         else case map_of ins key of
           None \<Rightarrow> (env, AList.update key \<lparr>rs_entered = now, rs_fired = False\<rparr> ins)
         | Some s \<Rightarrow>
             if \<not> rs_fired s \<and> sr_dwell rule \<le> time_sub now (rs_entered s)
             then (env\<lparr>en_detections := (en_detections env)[0 := det],
                       en_events := en_events env @ [build_frame_event (stamp (length (en_events env))) rule (en_descriptor env) det]\<rparr>,
                   AList.update key (s\<lparr>rs_fired := True\<rparr>) ins)
             else (env, ins))"

definition rule_pass :: "(nat \<Rightarrow> event_stamp) \<Rightarrow> time \<Rightarrow> spatial_rule \<Rightarrow> envelope \<times> insides \<Rightarrow> envelope \<times> insides" where
  "rule_pass stamp now rule st = fold (rule_det stamp now rule) [0 ..< length (en_detections (fst st))] st"

text \<open>The frame's own time, or the clock's when that is the zero time.\<close>

definition frame_now :: "time \<Rightarrow> envelope \<Rightarrow> time" where
  "frame_now clock env = (let now = as_time (fd_capture (en_descriptor env)) in if is_zero now then clock else now)"

definition evaluate :: "spatial_rule list \<Rightarrow> time \<Rightarrow> (nat \<Rightarrow> event_stamp) \<Rightarrow> envelope \<times> insides \<Rightarrow> envelope \<times> insides" where
  "evaluate rules clock stamp st = fold (rule_pass stamp (frame_now clock (fst st))) rules st"

subsection \<open>The tracker\<close>

lemma fl_lt_trans: "fl_lt a b \<Longrightarrow> fl_lt b c \<Longrightarrow> fl_lt a c"
  by (cases a; cases b; cases c) auto

lemma fl_lt_le_trans: "fl_lt a b \<Longrightarrow> fl_le b c \<Longrightarrow> fl_lt a c"
  by (cases a; cases b; cases c) (auto simp: fl_le_def)

text \<open>A track that may take a detection.\<close>

definition eligible :: "tracker_config \<Rightarrow> track_state \<Rightarrow> frame_detection \<Rightarrow> bool" where
  "eligible cfg t det \<longleftrightarrow> tk_class t = dt_class det \<and> fl_le (tc_threshold cfg) (iou (tk_box t) (dt_box det))"

lemma fold_better_Some:
  "fst (fold (better cfg tracks used det) tis best) = Some ti \<Longrightarrow>
   fst best = Some ti \<or> ti \<in> set tis \<and> \<not> used ! ti \<and> eligible cfg (tracks ! ti) det"
proof (induction tis arbitrary: best)
  case (Cons t tis)
  then have "fst (better cfg tracks used det t best) = Some ti \<or> ti \<in> set tis \<and> \<not> used ! ti \<and> eligible cfg (tracks ! ti) det"
    by simp
  then show ?case by (auto simp: better_def eligible_def Let_def split: if_splits)
qed simp

lemma fold_better_None:
  assumes "fst (fold (better cfg tracks used det) tis (None, v)) = None" "fl_lt v (tc_threshold cfg)"
    "ti \<in> set tis" "\<not> used ! ti"
  shows "\<not> eligible cfg (tracks ! ti) det"
  using assms
proof (induction tis)
  case (Cons t tis)
  have some: "fst (fold (better cfg tracks used det) us (Some x, w)) \<noteq> None" for us x w
  proof (induction us arbitrary: x w)
    case (Cons u us)
    have "\<exists>x' w'. better cfg tracks used det u (Some x, w) = (Some x', w')"
      by (auto simp: better_def Let_def)
    then show ?case using Cons.IH by force
  qed simp
  have "better cfg tracks used det t (None, v) = (None, v)"
  proof (rule ccontr)
    assume "better cfg tracks used det t (None, v) \<noteq> (None, v)"
    then obtain w where "better cfg tracks used det t (None, v) = (Some t, w)"
      by (auto simp: better_def Let_def split: if_splits)
    then show False using Cons.prems(1) some by simp
  qed
  moreover from this have "\<not> used ! t \<Longrightarrow> \<not> eligible cfg (tracks ! t) det"
    using fl_lt_le_trans [OF Cons.prems(2)] by (auto simp: better_def eligible_def Let_def split: if_splits)
  ultimately show ?case using Cons by auto
qed simp

lemma best_track_Some:
  "best_track cfg tracks used det = Some ti \<Longrightarrow> ti < length tracks \<and> \<not> used ! ti \<and> eligible cfg (tracks ! ti) det"
  unfolding best_track_def using fold_better_Some [of cfg tracks used det "[0 ..< length tracks]" "(None, Fin 0)" ti] by simp

lemma best_track_None:
  "best_track cfg tracks used det = None \<Longrightarrow> fl_lt (Fin 0) (tc_threshold cfg) \<Longrightarrow> ti < length tracks \<Longrightarrow> \<not> used ! ti \<Longrightarrow>
   \<not> eligible cfg (tracks ! ti) det"
  unfolding best_track_def using fold_better_None [of cfg tracks used det "[0 ..< length tracks]" "Fin 0" ti] by simp

text \<open>
  The state after k detections: detection i took the track at position \<open>ps ! i\<close>, an old track that was eligible and
  unused, or a new one when every eligible old track was taken.
\<close>

definition taken :: "tracker_config \<Rightarrow> (nat \<Rightarrow> string) \<Rightarrow> frame_detection list \<Rightarrow> track_state list \<Rightarrow> nat list \<Rightarrow> track_state list \<Rightarrow> nat \<Rightarrow> bool" where
  "taken cfg rand dets old ps tracks i \<longleftrightarrow>
     tracks ! (ps ! i) = \<lparr>tk_id = tk_id (tracks ! (ps ! i)), tk_class = dt_class (dets ! i), tk_box = dt_box (dets ! i), tk_missed = 0\<rparr> \<and>
     (if ps ! i < length old then eligible cfg (old ! (ps ! i)) (dets ! i)
      else tk_id (tracks ! (ps ! i)) = new_track_id (rand i) \<and>
        (\<forall>ti < length old. eligible cfg (old ! ti) (dets ! i) \<longrightarrow> ti \<in> set (take i ps)))"

definition assigned :: "tracker_config \<Rightarrow> (nat \<Rightarrow> string) \<Rightarrow> envelope \<Rightarrow> track_state list \<Rightarrow> nat list \<Rightarrow> envelope \<times> track_state list \<times> bool list \<Rightarrow> bool" where
  "assigned cfg rand env0 old ps st \<longleftrightarrow>
     (case st of (env, tracks, used) \<Rightarrow>
       length used = length tracks \<and> length old \<le> length tracks \<and> distinct ps \<and>
       (\<forall>ti. ti \<in> set ps \<longleftrightarrow> ti < length tracks \<and> used ! ti) \<and>
       (\<forall>ti < length tracks. ti \<notin> set ps \<longrightarrow> ti < length old \<and> tracks ! ti = old ! ti) \<and>
       (\<forall>ti < length old. tk_id (tracks ! ti) = tk_id (old ! ti)) \<and>
       (\<forall>i < length ps. taken cfg rand (en_detections env0) old ps tracks i) \<and>
       env = env0\<lparr>en_detections := map (\<lambda>i. (en_detections env0 ! i)\<lparr>dt_track := tk_id (tracks ! (ps ! i))\<rparr>) [0 ..< length ps] @
                  drop (length ps) (en_detections env0),
                  en_tracks := en_tracks env0 @ map (\<lambda>i. \<lparr>th_index = i, th_track = tk_id (tracks ! (ps ! i))\<rparr>) [0 ..< length ps]\<rparr>)"

lemma assigned_start:
  "assigned cfg rand env old [] (env, old, replicate (length old) False)"
  by (auto simp: assigned_def)

lemma assign_one_assigned:
  assumes inv: "assigned cfg rand env0 old ps (env, tracks, used)" and pos: "fl_lt (Fin 0) (tc_threshold cfg)"
    and k: "length ps < length (en_detections env0)"
  shows "\<exists>p. assigned cfg rand env0 old (ps @ [p]) (assign_one cfg rand (length ps) (env, tracks, used))"
proof -
  let ?k = "length ps" and ?dets = "en_detections env0"
  let ?det = "?dets ! ?k"
  have len: "length used = length tracks" "length old \<le> length tracks" "distinct ps"
    and mem: "\<And>ti. ti \<in> set ps \<longleftrightarrow> ti < length tracks \<and> used ! ti"
    and un: "\<And>ti. ti < length tracks \<Longrightarrow> ti \<notin> set ps \<Longrightarrow> ti < length old \<and> tracks ! ti = old ! ti"
    and ids: "\<And>ti. ti < length old \<Longrightarrow> tk_id (tracks ! ti) = tk_id (old ! ti)"
    and tk: "\<And>i. i < ?k \<Longrightarrow> taken cfg rand ?dets old ps tracks i"
    and env: "env = env0\<lparr>en_detections := map (\<lambda>i. (?dets ! i)\<lparr>dt_track := tk_id (tracks ! (ps ! i))\<rparr>) [0 ..< ?k] @ drop ?k ?dets,
        en_tracks := en_tracks env0 @ map (\<lambda>i. \<lparr>th_index = i, th_track = tk_id (tracks ! (ps ! i))\<rparr>) [0 ..< ?k]\<rparr>"
    using inv unfolding assigned_def prod.case by blast+
  have det: "en_detections env ! ?k = ?det" using k by (simp add: env nth_append)
  have dr: "drop ?k ?dets = ?det # drop (Suc ?k) ?dets" using k by (simp add: Cons_nth_drop_Suc)
  have psi: "ps ! i < length tracks" if "i < ?k" for i using that mem by (meson nth_mem)
  show ?thesis
  proof (cases "best_track cfg tracks used ?det")
    case (Some ti)
    from best_track_Some [OF this] have ti: "ti < length tracks" "ti \<notin> set ps" "eligible cfg (tracks ! ti) ?det" using mem by auto
    from un [OF ti(1,2)] have old: "ti < length old" "tracks ! ti = old ! ti" by auto
    let ?new = "tracks[ti := (tracks ! ti)\<lparr>tk_box := dt_box ?det, tk_missed := 0\<rparr>]"
    have keep: "?new ! (ps ! i) = tracks ! (ps ! i)" if "i < ?k" for i
      using that ti(2) by (metis nth_list_update_neq nth_mem)
    have nid: "tk_id (?new ! t) = tk_id (tracks ! t)" for t
      using ti(1) by (cases "t = ti") simp_all
    have "assigned cfg rand env0 old (ps @ [ti]) (assign_one cfg rand ?k (env, tracks, used))"
      unfolding assigned_def assign_one_def prod.case Let_def det Some option.case
    proof (intro conjI allI impI)
      show "taken cfg rand ?dets old (ps @ [ti]) ?new i" if "i < length (ps @ [ti])" for i
      proof (cases "i < ?k")
        case True
        then show ?thesis using tk [OF True] keep [OF True] by (simp add: taken_def nth_append)
      next
        case False
        then have "i = ?k" using that by simp
        then show ?thesis using ti old by (simp add: taken_def eligible_def)
      qed
      show "env\<lparr>en_detections := (en_detections env)[?k := ?det\<lparr>dt_track := tk_id (tracks ! ti)\<rparr>],
           en_tracks := en_tracks env @ [\<lparr>th_index = ?k, th_track = tk_id (tracks ! ti)\<rparr>]\<rparr> =
         env0\<lparr>en_detections := map (\<lambda>i. (?dets ! i)\<lparr>dt_track := tk_id (?new ! ((ps @ [ti]) ! i))\<rparr>) [0 ..< length (ps @ [ti])] @ drop (length (ps @ [ti])) ?dets,
           en_tracks := en_tracks env0 @ map (\<lambda>i. \<lparr>th_index = i, th_track = tk_id (?new ! ((ps @ [ti]) ! i))\<rparr>) [0 ..< length (ps @ [ti])]\<rparr>"
        by (simp add: env nid nth_append dr list_update_append)
    qed (use len mem un ids ti old in \<open>auto simp: nth_list_update nid\<close>)
    then show ?thesis by blast
  next
    case None
    let ?n = "length tracks" and ?t = "\<lparr>tk_id = new_track_id (rand ?k), tk_class = dt_class ?det, tk_box = dt_box ?det, tk_missed = 0\<rparr>"
    have all: "ti \<in> set ps" if "ti < length old" "eligible cfg (old ! ti) ?det" for ti
      using best_track_None [OF None pos, of ti] that un [of ti] mem [of ti] len(2) by fastforce
    have keep: "(tracks @ [?t]) ! (ps ! i) = tracks ! (ps ! i)" if "i < ?k" for i
      using psi [OF that] by (simp add: nth_append)
    have "assigned cfg rand env0 old (ps @ [?n]) (assign_one cfg rand ?k (env, tracks, used))"
      unfolding assigned_def assign_one_def prod.case Let_def det None option.case
    proof (intro conjI allI impI)
      show "taken cfg rand ?dets old (ps @ [?n]) (tracks @ [?t]) i" if "i < length (ps @ [?n])" for i
      proof (cases "i < ?k")
        case True
        then show ?thesis using tk [OF True] keep [OF True] by (simp add: taken_def nth_append)
      next
        case False
        then have "i = ?k" using that by simp
        then show ?thesis using all len(2) by (simp add: taken_def)
      qed
      show "env\<lparr>en_detections := (en_detections env)[?k := ?det\<lparr>dt_track := new_track_id (rand ?k)\<rparr>],
           en_tracks := en_tracks env @ [\<lparr>th_index = ?k, th_track = new_track_id (rand ?k)\<rparr>]\<rparr> =
         env0\<lparr>en_detections := map (\<lambda>i. (?dets ! i)\<lparr>dt_track := tk_id ((tracks @ [?t]) ! ((ps @ [?n]) ! i))\<rparr>) [0 ..< length (ps @ [?n])] @ drop (length (ps @ [?n])) ?dets,
           en_tracks := en_tracks env0 @ map (\<lambda>i. \<lparr>th_index = i, th_track = tk_id ((tracks @ [?t]) ! ((ps @ [?n]) ! i))\<rparr>) [0 ..< length (ps @ [?n])]\<rparr>"
        using psi by (simp add: env nth_append dr list_update_append)
    qed (use len mem un ids in \<open>auto simp: nth_append less_Suc_eq\<close>)
    then show ?thesis by blast
  qed
qed

lemma assign_fold:
  assumes "fl_lt (Fin 0) (tc_threshold cfg)" "k \<le> length (en_detections env)"
  shows "\<exists>ps. length ps = k \<and> assigned cfg rand env old ps (fold (assign_one cfg rand) [0 ..< k] (env, old, replicate (length old) False))"
  using assms(2)
proof (induction k)
  case 0
  then show ?case using assigned_start by auto
next
  case (Suc k)
  let ?st = "fold (assign_one cfg rand) [0 ..< k] (env, old, replicate (length old) False)"
  from Suc obtain ps where ps: "length ps = k" "assigned cfg rand env old ps ?st" by auto
  obtain e t u where st: "?st = (e, t, u)" by (rule prod_cases3)
  have "assigned cfg rand env old ps (e, t, u)" using ps(2) unfolding st .
  from assign_one_assigned [OF this assms(1)] obtain p where "assigned cfg rand env old (ps @ [p]) (assign_one cfg rand k ?st)"
    unfolding st using ps(1) Suc.prems by auto
  then show ?case using ps(1) by (intro exI [of _ "ps @ [p]"]) simp
qed

definition fresh_ids :: "(nat \<Rightarrow> string) \<Rightarrow> nat \<Rightarrow> track_state list \<Rightarrow> bool" where
  "fresh_ids rand n tracks \<longleftrightarrow>
     distinct (map (new_track_id \<circ> rand) [0 ..< n]) \<and> (\<forall>i < n. new_track_id (rand i) \<notin> tk_id ` set tracks)"

definition tracker_ok :: "tracker_config \<Rightarrow> bool" where
  "tracker_ok cfg \<longleftrightarrow> fl_lt (Fin 0) (tc_threshold cfg) \<and> 0 \<le> tc_max_missing cfg \<and> tc_max_missing cfg < 2 ^ 63 - 1"

definition tracker_inv :: "tracker_config \<Rightarrow> track_state list \<Rightarrow> bool" where
  "tracker_inv cfg tracks \<longleftrightarrow> distinct (map tk_id tracks) \<and> (\<forall>t \<in> set tracks. 0 \<le> tk_missed t \<and> tk_missed t \<le> tc_max_missing cfg)"

lemma assigned_ids_distinct:
  assumes "assigned cfg rand env old ps (env', tracks, used)" "tracker_inv cfg old" "fresh_ids rand (length ps) old"
  shows "distinct (map tk_id tracks)"
proof -
  have un: "\<And>ti. ti < length tracks \<Longrightarrow> ti \<notin> set ps \<Longrightarrow> ti < length old"
    and ids: "\<And>ti. ti < length old \<Longrightarrow> tk_id (tracks ! ti) = tk_id (old ! ti)"
    and tk: "\<And>i. i < length ps \<Longrightarrow> taken cfg rand (en_detections env) old ps tracks i"
    using assms(1) unfolding assigned_def prod.case by blast+
  have new: "\<exists>i < length ps. ps ! i = ti \<and> tk_id (tracks ! ti) = new_track_id (rand i)" if "ti < length tracks" "\<not> ti < length old" for ti
  proof -
    have "ti \<in> set ps" using un that by blast
    then obtain i where i: "i < length ps" "ps ! i = ti" by (auto simp: in_set_conv_nth)
    then show ?thesis using tk [OF i(1)] that(2) by (auto simp: taken_def)
  qed
  have fresh: "new_track_id (rand i) \<noteq> tk_id (old ! ti)" if "i < length ps" "ti < length old" for i ti
    using assms(3) that by (auto simp: fresh_ids_def)
  have inj: "i = j" if "i < length ps" "j < length ps" "new_track_id (rand i) = new_track_id (rand j)" for i j
    using assms(3) that by (auto simp: fresh_ids_def distinct_map inj_on_def)
  have "tk_id (tracks ! a) \<noteq> tk_id (tracks ! b)" if ab: "a < length tracks" "b < length tracks" "a \<noteq> b" for a b
  proof (cases "a < length old"; cases "b < length old")
    assume "a < length old" "b < length old"
    then show ?thesis using assms(2) ids ab(3) by (simp add: tracker_inv_def distinct_conv_nth)
  next
    assume a: "a < length old" and b: "\<not> b < length old"
    from new [OF ab(2) b] obtain j where "j < length ps" "tk_id (tracks ! b) = new_track_id (rand j)" by blast
    then show ?thesis using fresh [OF _ a] ids [OF a] by metis
  next
    assume a: "\<not> a < length old" and b: "b < length old"
    from new [OF ab(1) a] obtain i where "i < length ps" "tk_id (tracks ! a) = new_track_id (rand i)" by blast
    then show ?thesis using fresh [OF _ b] ids [OF b] by metis
  next
    assume a: "\<not> a < length old" and b: "\<not> b < length old"
    from new [OF ab(1) a] new [OF ab(2) b] obtain i j where
      "i < length ps" "ps ! i = a" "tk_id (tracks ! a) = new_track_id (rand i)"
      "j < length ps" "ps ! j = b" "tk_id (tracks ! b) = new_track_id (rand j)" by blast
    then show ?thesis using inj ab(3) by metis
  qed
  then show ?thesis by (simp add: distinct_conv_nth)
qed

lemma in_age_out:
  "length used = length tracks \<Longrightarrow>
   t \<in> set (age_out cfg tracks used) \<longleftrightarrow>
     (\<exists>ti < length tracks. t = (if used ! ti then tracks ! ti else (tracks ! ti)\<lparr>tk_missed := i64 (tk_missed (tracks ! ti) + 1)\<rparr>) \<and>
        tk_missed t \<le> tc_max_missing cfg)"
proof -
  assume a: "length used = length tracks"
  let ?f = "\<lambda>(tr, u). if u then tr else tr\<lparr>tk_missed := i64 (tk_missed tr + 1)\<rparr>"
  define h where "h = (\<lambda>ti. if used ! ti then tracks ! ti else (tracks ! ti)\<lparr>tk_missed := i64 (tk_missed (tracks ! ti) + 1)\<rparr>)"
  have nth: "map ?f (zip tracks used) ! ti = h ti" if "ti < length tracks" for ti using that a by (simp add: h_def)
  have "(map ?f (zip tracks used) ! ti = t) = (t = h ti)" if "ti < length tracks" for ti unfolding nth [OF that] by blast
  then have "t \<in> set (map ?f (zip tracks used)) \<longleftrightarrow> (\<exists>ti < length tracks. t = h ti)"
    unfolding in_set_conv_nth length_map length_zip a min.idem by (intro ex_cong1 conj_cong refl)
  then show ?thesis unfolding h_def age_out_def set_filter mem_Collect_eq by blast
qed

lemma age_out_ids_distinct:
  "length used = length tracks \<Longrightarrow> distinct (map tk_id tracks) \<Longrightarrow> distinct (map tk_id (age_out cfg tracks used))"
proof -
  assume a: "length used = length tracks" "distinct (map tk_id tracks)"
  have "map tk_id (map (\<lambda>(tr, u). if u then tr else tr\<lparr>tk_missed := i64 (tk_missed tr + 1)\<rparr>) (zip tracks used)) = map tk_id tracks"
    using a(1) by (intro nth_equalityI) auto
  then show ?thesis using a(2) unfolding age_out_def by (intro distinct_map_filter) (simp only:)
qed

lemma tk_missed_step: "tracker_ok cfg \<Longrightarrow> tracker_inv cfg old \<Longrightarrow> t \<in> set old \<Longrightarrow> i64 (tk_missed t + 1) = tk_missed t + 1"
  by (intro i64_id) (force simp: tracker_ok_def tracker_inv_def in_i64_def)

text \<open>The tracks after a frame, from the positions that its detections took.\<close>

lemma assign_cases:
  assumes "tracker_ok cfg" "tracker_inv cfg old" "fresh_ids rand (length (en_detections env)) old"
    "assign cfg rand (env, old) = (env', tracks')"
  shows "\<exists>ps tracks used. length ps = length (en_detections env) \<and> assigned cfg rand env old ps (env', tracks, used) \<and>
    tracks' = age_out cfg tracks used \<and> distinct (map tk_id tracks) \<and> length used = length tracks"
proof -
  have "fl_lt (Fin 0) (tc_threshold cfg)" using assms(1) by (simp add: tracker_ok_def)
  from assign_fold [OF this order_refl, of env rand old] obtain ps where
    ps: "length ps = length (en_detections env)"
      "assigned cfg rand env old ps (fold (assign_one cfg rand) [0 ..< length (en_detections env)] (env, old, replicate (length old) False))" by blast
  obtain e tracks used where st: "fold (assign_one cfg rand) [0 ..< length (en_detections env)] (env, old, replicate (length old) False) = (e, tracks, used)"
    by (rule prod_cases3)
  have "e = env'" "tracks' = age_out cfg tracks used" using assms(4) st by (simp_all add: assign_def)
  moreover have "distinct (map tk_id tracks)"
    using assigned_ids_distinct [OF ps(2) [unfolded st] assms(2)] assms(3) ps(1) by simp
  moreover have "length used = length tracks" using ps(2) unfolding st assigned_def prod.case by blast
  ultimately show ?thesis using ps unfolding st by blast
qed

lemma tracker_assigns:
  assumes "tracker_ok cfg" "tracker_inv cfg tracks" "fresh_ids rand (length (en_detections env)) tracks"
    "assign cfg rand (env, tracks) = (env', tracks')"
  shows "tracker_inv cfg tracks' \<and> length (en_detections env') = length (en_detections env) \<and>
    distinct (map dt_track (en_detections env')) \<and>
    (\<forall>i < length (en_detections env). \<exists>t \<in> set tracks'.
       en_detections env' ! i = (en_detections env ! i)\<lparr>dt_track := tk_id t\<rparr> \<and>
       en_tracks env' ! (length (en_tracks env) + i) = \<lparr>th_index = i, th_track = tk_id t\<rparr> \<and>
       tk_class t = dt_class (en_detections env ! i) \<and> tk_box t = dt_box (en_detections env ! i) \<and> tk_missed t = 0 \<and>
       ((\<exists>t0 \<in> set tracks. tk_id t0 = tk_id t \<and> eligible cfg t0 (en_detections env ! i)) \<or>
        tk_id t \<notin> tk_id ` set tracks \<and>
        (\<forall>t0 \<in> set tracks. eligible cfg t0 (en_detections env ! i) \<longrightarrow> (\<exists>j < i. dt_track (en_detections env' ! j) = tk_id t0)))) \<and>
    (\<forall>t0 \<in> set tracks. tk_id t0 \<notin> dt_track ` set (en_detections env') \<longrightarrow>
       (if tk_missed t0 < tc_max_missing cfg then t0\<lparr>tk_missed := tk_missed t0 + 1\<rparr> \<in> set tracks'
        else tk_id t0 \<notin> tk_id ` set tracks'))"
proof -
  let ?dets = "en_detections env"
  from assign_cases [OF assms] obtain ps tr used where n: "length ps = length ?dets"
    and inv: "assigned cfg rand env tracks ps (env', tr, used)" and tr': "tracks' = age_out cfg tr used"
    and dist: "distinct (map tk_id tr)" and len: "length used = length tr" by (elim exE conjE)
  have ge: "length tracks \<le> length tr" "distinct ps"
    and mem: "\<And>ti. ti \<in> set ps \<longleftrightarrow> ti < length tr \<and> used ! ti"
    and un: "\<And>ti. ti < length tr \<Longrightarrow> ti \<notin> set ps \<Longrightarrow> ti < length tracks \<and> tr ! ti = tracks ! ti"
    and ids: "\<And>ti. ti < length tracks \<Longrightarrow> tk_id (tr ! ti) = tk_id (tracks ! ti)"
    and tk: "\<And>i. i < length ps \<Longrightarrow> taken cfg rand ?dets tracks ps tr i"
    and env: "env' = env\<lparr>en_detections := map (\<lambda>i. (?dets ! i)\<lparr>dt_track := tk_id (tr ! (ps ! i))\<rparr>) [0 ..< length ps] @ drop (length ps) ?dets,
        en_tracks := en_tracks env @ map (\<lambda>i. \<lparr>th_index = i, th_track = tk_id (tr ! (ps ! i))\<rparr>) [0 ..< length ps]\<rparr>"
    using inv unfolding assigned_def prod.case by blast+
  have psi: "ps ! i < length tr \<and> used ! (ps ! i)" if "i < length ps" for i using that mem by (meson nth_mem)
  have id_eq: "a = b" if "a < length tr" "b < length tr" "tk_id (tr ! a) = tk_id (tr ! b)" for a b
    using dist that by (auto simp: distinct_conv_nth)
  have det: "en_detections env' ! i = (?dets ! i)\<lparr>dt_track := tk_id (tr ! (ps ! i))\<rparr>" if "i < length ?dets" for i
    using that n by (simp add: env nth_append)
  have lend: "length (en_detections env') = length ?dets" using n by (simp add: env)
  have "tracker_inv cfg tracks'"
  proof -
    have "0 \<le> tk_missed t \<and> tk_missed t \<le> tc_max_missing cfg" if "t \<in> set tracks'" for t
    proof -
      from that obtain ti where ti: "ti < length tr" "tk_missed t \<le> tc_max_missing cfg"
        "t = (if used ! ti then tr ! ti else (tr ! ti)\<lparr>tk_missed := i64 (tk_missed (tr ! ti) + 1)\<rparr>)"
        unfolding tr' in_age_out [OF len] by blast
      show ?thesis
      proof (cases "ti \<in> set ps")
        case True
        then obtain i where "i < length ps" "ps ! i = ti" by (auto simp: in_set_conv_nth)
        then have "tk_missed (tr ! ti) = 0" using tk [of i] by (metis taken_def track_state.select_convs(4))
        then show ?thesis using ti True mem by auto
      next
        case False
        then have "tr ! ti \<in> set tracks" using un [OF ti(1)] by simp
        then show ?thesis using ti False mem tk_missed_step [OF assms(1,2)] assms(2) by (auto simp: tracker_inv_def)
      qed
    qed
    then show ?thesis using age_out_ids_distinct [OF len dist] by (simp add: tracker_inv_def tr')
  qed
  moreover have "distinct (map dt_track (en_detections env'))"
  proof -
    have "dt_track (en_detections env' ! i) \<noteq> dt_track (en_detections env' ! j)" if "i < length ?dets" "j < length ?dets" "i \<noteq> j" for i j
    proof -
      have ne: "ps ! i \<noteq> ps ! j" using ge(2) that n by (simp add: nth_eq_iff_index_eq)
      show ?thesis
      proof
        assume "dt_track (en_detections env' ! i) = dt_track (en_detections env' ! j)"
        then have "tk_id (tr ! (ps ! i)) = tk_id (tr ! (ps ! j))" by (simp add: det that)
        then show False using id_eq [OF conjunct1 [OF psi] conjunct1 [OF psi]] ne that n by simp
      qed
    qed
    then show ?thesis by (simp add: distinct_conv_nth lend)
  qed
  moreover have "\<exists>t \<in> set tracks'.
       en_detections env' ! i = (?dets ! i)\<lparr>dt_track := tk_id t\<rparr> \<and>
       en_tracks env' ! (length (en_tracks env) + i) = \<lparr>th_index = i, th_track = tk_id t\<rparr> \<and>
       tk_class t = dt_class (?dets ! i) \<and> tk_box t = dt_box (?dets ! i) \<and> tk_missed t = 0 \<and>
       ((\<exists>t0 \<in> set tracks. tk_id t0 = tk_id t \<and> eligible cfg t0 (?dets ! i)) \<or>
        tk_id t \<notin> tk_id ` set tracks \<and>
        (\<forall>t0 \<in> set tracks. eligible cfg t0 (?dets ! i) \<longrightarrow> (\<exists>j < i. dt_track (en_detections env' ! j) = tk_id t0)))"
    if i: "i < length ?dets" for i
  proof -
    let ?p = "ps ! i"
    let ?t = "tr ! ?p"
    have ip: "i < length ps" using i n by simp
    have t: "tk_class ?t = dt_class (?dets ! i)" "tk_box ?t = dt_box (?dets ! i)" "tk_missed ?t = 0"
      using tk [OF ip] by (metis taken_def track_state.select_convs)+
    have "0 \<le> tc_max_missing cfg" using assms(1) by (simp add: tracker_ok_def)
    then have "?t \<in> set tracks'" using psi [OF ip] t(3) unfolding tr' in_age_out [OF len] by (intro exI [of _ ?p]) simp
    moreover have "en_tracks env' ! (length (en_tracks env) + i) = \<lparr>th_index = i, th_track = tk_id ?t\<rparr>"
      using ip by (simp add: env nth_append)
    moreover have "(\<exists>t0 \<in> set tracks. tk_id t0 = tk_id ?t \<and> eligible cfg t0 (?dets ! i)) \<or>
        tk_id ?t \<notin> tk_id ` set tracks \<and>
        (\<forall>t0 \<in> set tracks. eligible cfg t0 (?dets ! i) \<longrightarrow> (\<exists>j < i. dt_track (en_detections env' ! j) = tk_id t0))"
    proof (cases "?p < length tracks")
      case True
      then have "eligible cfg (tracks ! ?p) (?dets ! i)" using tk [OF ip] by (simp add: taken_def)
      then show ?thesis using True ids [OF True] nth_mem by metis
    next
      case False
      then have new: "tk_id ?t = new_track_id (rand i)"
        and all: "\<And>ti. ti < length tracks \<Longrightarrow> eligible cfg (tracks ! ti) (?dets ! i) \<Longrightarrow> ti \<in> set (take i ps)"
        using tk [OF ip] by (simp_all add: taken_def)
      have "tk_id ?t \<notin> tk_id ` set tracks" using assms(3) i unfolding new fresh_ids_def by blast
      moreover have "\<exists>j < i. dt_track (en_detections env' ! j) = tk_id t0" if t0: "t0 \<in> set tracks" "eligible cfg t0 (?dets ! i)" for t0
      proof -
        from t0(1) obtain ti where ti: "ti < length tracks" "t0 = tracks ! ti" by (auto simp: in_set_conv_nth)
        from all [OF ti(1)] t0(2) ti(2) have "ti \<in> set (take i ps)" by simp
        then obtain j where j: "j < i" "j < length ps" "ps ! j = ti" by (auto simp: in_set_conv_nth)
        then have "dt_track (en_detections env' ! j) = tk_id t0" using det [of j] i ids [OF ti(1)] ti(2) by simp
        then show ?thesis using j(1) by blast
      qed
      ultimately show ?thesis by blast
    qed
    ultimately show ?thesis using t det [OF i] by blast
  qed
  moreover have "if tk_missed t0 < tc_max_missing cfg then t0\<lparr>tk_missed := tk_missed t0 + 1\<rparr> \<in> set tracks' else tk_id t0 \<notin> tk_id ` set tracks'"
    if t0: "t0 \<in> set tracks" "tk_id t0 \<notin> dt_track ` set (en_detections env')" for t0
  proof -
    from t0(1) obtain ti where ti: "ti < length tracks" "t0 = tracks ! ti" by (auto simp: in_set_conv_nth)
    have tl: "ti < length tr" using ti(1) ge(1) by simp
    have out: "ti \<notin> set ps"
    proof
      assume "ti \<in> set ps"
      then obtain j where j: "j < length ps" "ps ! j = ti" by (auto simp: in_set_conv_nth)
      then have "dt_track (en_detections env' ! j) = tk_id t0" using det [of j] n ids [OF ti(1)] ti(2) by simp
      then show False using t0(2) j(1) n lend by (metis image_eqI nth_mem)
    qed
    then have tr0: "tr ! ti = t0" and nu: "\<not> used ! ti" using un [OF tl] mem tl ti(2) by auto
    have step: "i64 (tk_missed t0 + 1) = tk_missed t0 + 1" by (rule tk_missed_step [OF assms(1,2) t0(1)])
    show ?thesis
    proof (cases "tk_missed t0 < tc_max_missing cfg")
      case True
      have "t0\<lparr>tk_missed := tk_missed t0 + 1\<rparr> \<in> set tracks'"
        unfolding tr' in_age_out [OF len] using tl nu step True tr0 by (intro exI [of _ ti]) simp
      then show ?thesis using True by simp
    next
      case False
      have "tk_id t0 \<notin> tk_id ` set tracks'"
      proof
        assume "tk_id t0 \<in> tk_id ` set tracks'"
        then obtain t where t: "t \<in> set tracks'" "tk_id t = tk_id t0" by auto
        from t(1) obtain tj where tj: "tj < length tr" "tk_missed t \<le> tc_max_missing cfg"
          "t = (if used ! tj then tr ! tj else (tr ! tj)\<lparr>tk_missed := i64 (tk_missed (tr ! tj) + 1)\<rparr>)"
          unfolding tr' in_age_out [OF len] by blast
        have "tk_id (tr ! tj) = tk_id (tr ! ti)" using tj(3) t(2) tr0 by (simp split: if_splits)
        then have "tj = ti" using id_eq tj(1) tl by blast
        then show False using tj nu tr0 step False by simp
      qed
      then show ?thesis using False by simp
    qed
  qed
  moreover note lend
  ultimately show ?thesis by blast
qed

lemma tracker_distinct:
  "tracker_ok cfg \<Longrightarrow> tracker_inv cfg tracks \<Longrightarrow> fresh_ids rand (length (en_detections env)) tracks \<Longrightarrow>
   assign cfg rand (env, tracks) = (env', tracks') \<Longrightarrow> tracker_inv cfg tracks' \<and> distinct (map dt_track (en_detections env'))"
  by (drule (3) tracker_assigns) blast

text \<open>C11: The tracker gives the detections of a frame different tracks, one each. A detection keeps a track only of its own class whose last
box overlaps it by the threshold, and starts a track only when every such track was taken by an earlier detection of
the frame. Afterwards the track of every detection has its class and box, a track that was not seen has missed one more
frame or, at the limit, is closed, and the ids of the open tracks are again distinct.\<close>

theorem tracker_assigns_tracks:
  assumes "tracker_ok cfg" "tracker_inv cfg tracks" "fresh_ids rand (length (en_detections env)) tracks"
    "assign cfg rand (env, tracks) = (env', tracks')"
  shows "tracker_inv cfg tracks' \<and> length (en_detections env') = length (en_detections env) \<and>
    distinct (map dt_track (en_detections env')) \<and>
    (\<forall>i < length (en_detections env). \<exists>t \<in> set tracks'.
       en_detections env' ! i = (en_detections env ! i)\<lparr>dt_track := tk_id t\<rparr> \<and>
       en_tracks env' ! (length (en_tracks env) + i) = \<lparr>th_index = i, th_track = tk_id t\<rparr> \<and>
       tk_class t = dt_class (en_detections env ! i) \<and> tk_box t = dt_box (en_detections env ! i) \<and> tk_missed t = 0 \<and>
       ((\<exists>t0 \<in> set tracks. tk_id t0 = tk_id t \<and> eligible cfg t0 (en_detections env ! i)) \<or>
        tk_id t \<notin> tk_id ` set tracks \<and>
        (\<forall>t0 \<in> set tracks. eligible cfg t0 (en_detections env ! i) \<longrightarrow> (\<exists>j < i. dt_track (en_detections env' ! j) = tk_id t0)))) \<and>
    (\<forall>t0 \<in> set tracks. tk_id t0 \<notin> dt_track ` set (en_detections env') \<longrightarrow>
       (if tk_missed t0 < tc_max_missing cfg then t0\<lparr>tk_missed := tk_missed t0 + 1\<rparr> \<in> set tracks'
        else tk_id t0 \<notin> tk_id ` set tracks'))"
  using assms by (rule tracker_assigns)

subsection \<open>One pass of a rule\<close>

text \<open>
  The writes of a pass go to the first element, after it was read: every detection is evaluated as the frame had it.
  \<open>scan_det\<close> is the evaluation of a detection without the write.
\<close>

definition scan_det :: "(nat \<Rightarrow> event_stamp) \<Rightarrow> time \<Rightarrow> spatial_rule \<Rightarrow> descriptor \<Rightarrow> frame_detection \<Rightarrow> frame_event list \<times> insides \<Rightarrow> frame_event list \<times> insides" where
  "scan_det stamp now rule d det st =
     (case st of (evs, ins) \<Rightarrow>
       if dt_track det = [] then (evs, ins)
       else
         let key = inside_key (dt_track det) rule in
         if \<not> zone_contains (sr_zone rule) (dt_box det) then (evs, AList.delete key ins)
         else case map_of ins key of
           None \<Rightarrow> (evs, AList.update key \<lparr>rs_entered = now, rs_fired = False\<rparr> ins)
         | Some s \<Rightarrow>
             if \<not> rs_fired s \<and> sr_dwell rule \<le> time_sub now (rs_entered s)
             then (evs @ [build_frame_event (stamp (length evs)) rule d det], AList.update key (s\<lparr>rs_fired := True\<rparr>) ins)
             else (evs, ins))"

lemma rule_det_scan:
  "di < length (en_detections env) \<Longrightarrow> en_detections env ! di = det \<Longrightarrow> rule_det stamp now rule di (env, ins) = (env', ins') \<Longrightarrow>
   scan_det stamp now rule (en_descriptor env) det (en_events env, ins) = (en_events env', ins') \<and>
   en_descriptor env' = en_descriptor env \<and>
   (en_events env' = en_events env \<and> en_detections env' = en_detections env \<or>
    (\<exists>e. en_events env' = en_events env @ [e] \<and> fe_track e = dt_track det) \<and> en_detections env' = (en_detections env)[0 := det])"
  by (auto simp: rule_det_def scan_det_def Let_def build_frame_event_def split: if_splits option.splits)

text \<open>The detections after a pass: the first one is replaced by the last one that fired.\<close>

definition overwritten :: "frame_detection list \<Rightarrow> frame_event list \<Rightarrow> frame_detection list \<Rightarrow> bool" where
  "overwritten dets new dets' \<longleftrightarrow>
     (if new = [] then dets' = dets else \<exists>d \<in> set dets. dt_track d = fe_track (last new) \<and> dets' = dets[0 := d])"

lemma rule_fold_scan:
  assumes "k \<le> length (en_detections env)"
  shows "\<exists>env' ins' new. fold (rule_det stamp now rule) [0 ..< k] (env, ins) = (env', ins') \<and>
    fold (scan_det stamp now rule (en_descriptor env)) (take k (en_detections env)) (en_events env, ins) = (en_events env', ins') \<and>
    en_descriptor env' = en_descriptor env \<and> en_events env' = en_events env @ new \<and>
    overwritten (en_detections env) new (en_detections env') \<and> (k = 0 \<longrightarrow> new = [])"
  using assms
proof (induction k)
  case 0
  show ?case by (simp add: overwritten_def)
next
  case (Suc k)
  let ?dets = "en_detections env"
  from Suc obtain e1 i1 new where 1: "fold (rule_det stamp now rule) [0 ..< k] (env, ins) = (e1, i1)"
    "fold (scan_det stamp now rule (en_descriptor env)) (take k ?dets) (en_events env, ins) = (en_events e1, i1)"
    "en_descriptor e1 = en_descriptor env" "en_events e1 = en_events env @ new" "overwritten ?dets new (en_detections e1)" "k = 0 \<longrightarrow> new = []"
    by auto
  have len: "length (en_detections e1) = length ?dets" using 1(5) by (auto simp: overwritten_def split: if_splits)
  have k: "k < length ?dets" using Suc.prems by simp
  have det: "en_detections e1 ! k = ?dets ! k"
    using 1(5,6) by (cases "k = 0") (auto simp: overwritten_def split: if_splits)
  obtain e2 i2 where 2: "rule_det stamp now rule k (e1, i1) = (e2, i2)" by fastforce
  have s: "scan_det stamp now rule (en_descriptor e1) (?dets ! k) (en_events e1, i1) = (en_events e2, i2)"
    and d: "en_descriptor e2 = en_descriptor e1"
    and c: "en_events e2 = en_events e1 \<and> en_detections e2 = en_detections e1 \<or>
      (\<exists>e. en_events e2 = en_events e1 @ [e] \<and> fe_track e = dt_track (?dets ! k)) \<and> en_detections e2 = (en_detections e1)[0 := ?dets ! k]"
    using rule_det_scan [OF _ det 2] k len by simp_all
  have "\<exists>new'. en_events e2 = en_events env @ new' \<and> overwritten ?dets new' (en_detections e2)"
    using c
  proof
    assume "en_events e2 = en_events e1 \<and> en_detections e2 = en_detections e1"
    then show ?thesis using 1(4,5) by auto
  next
    assume a: "(\<exists>e. en_events e2 = en_events e1 @ [e] \<and> fe_track e = dt_track (?dets ! k)) \<and> en_detections e2 = (en_detections e1)[0 := ?dets ! k]"
    then obtain e where e: "en_events e2 = en_events env @ (new @ [e])" "fe_track e = dt_track (?dets ! k)" using 1(4) by auto
    have "en_detections e2 = ?dets[0 := ?dets ! k]"
      using a 1(5) by (auto simp: overwritten_def split: if_splits)
    then have "overwritten ?dets (new @ [e]) (en_detections e2)" using e(2) k by (auto simp: overwritten_def)
    then show ?thesis using e(1) by blast
  qed
  then obtain new' where "en_events e2 = en_events env @ new'" "overwritten ?dets new' (en_detections e2)" by blast
  then show ?case using 1 2 s d k by (simp add: take_Suc_conv_app_nth)
qed

lemma evaluate_scan:
  "\<exists>env' ins' new. evaluate [rule] clock stamp (env, ins) = (env', ins') \<and>
    fold (scan_det stamp (frame_now clock env) rule (en_descriptor env)) (en_detections env) (en_events env, ins) = (en_events env @ new, ins') \<and>
    en_events env' = en_events env @ new \<and> overwritten (en_detections env) new (en_detections env')"
  using rule_fold_scan [of "length (en_detections env)" env stamp "frame_now clock env" rule ins]
  by (auto simp: evaluate_def rule_pass_def)

subsection \<open>A track in a zone\<close>

text \<open>What a frame shows of a track: nothing, or whether it is inside the zone; and what the rule does with it.\<close>

definition observed :: "spatial_rule \<Rightarrow> frame_detection list \<Rightarrow> string \<Rightarrow> bool option" where
  "observed rule dets t = map_option (\<lambda>d. zone_contains (sr_zone rule) (dt_box d)) (find (\<lambda>d. dt_track d = t) dets)"

definition dwell_step :: "duration \<Rightarrow> time \<Rightarrow> bool option \<Rightarrow> rule_state option \<Rightarrow> bool \<times> rule_state option" where
  "dwell_step dwell now obs s =
     (case obs of
        None \<Rightarrow> (False, s)
      | Some False \<Rightarrow> (False, None)
      | Some True \<Rightarrow>
          (case s of
             None \<Rightarrow> (False, Some \<lparr>rs_entered = now, rs_fired = False\<rparr>)
           | Some r \<Rightarrow>
               if \<not> rs_fired r \<and> dwell \<le> time_sub now (rs_entered r) then (True, Some (r\<lparr>rs_fired := True\<rparr>)) else (False, Some r)))"

definition tracked_ids :: "frame_detection list \<Rightarrow> string list" where
  "tracked_ids dets = filter (\<lambda>t. t \<noteq> []) (map dt_track dets)"

lemma inside_key_inj: "inside_key t rule = inside_key t' rule \<longleftrightarrow> t = t'"
  by (simp add: inside_key_def)

lemma scan_one:
  assumes "scan_det stamp now rule d det (evs, ins) = (evs', ins')"
  shows "\<exists>new. evs' = evs @ new \<and>
    (\<forall>t. t \<noteq> [] \<longrightarrow> map_of ins' (inside_key t rule) =
       snd (dwell_step (sr_dwell rule) now (observed rule [det] t) (map_of ins (inside_key t rule)))) \<and>
    (\<forall>t. t \<noteq> [] \<longrightarrow> (\<exists>e \<in> set new. fe_track e = t) = fst (dwell_step (sr_dwell rule) now (observed rule [det] t) (map_of ins (inside_key t rule)))) \<and>
    (new = [] \<or> (\<exists>e. new = [e] \<and> fe_track e = dt_track det \<and> dt_track det \<noteq> []))"
  using assms
  by (auto simp: scan_det_def Let_def dwell_step_def observed_def inside_key_inj build_frame_event_def split: if_splits option.splits bool.splits)

lemma observed_None: "t \<notin> dt_track ` set dets \<Longrightarrow> observed rule dets t = None"
  by (auto simp: observed_def find_None_iff)

lemma scan_key:
  assumes "distinct (tracked_ids dets)" "fold (scan_det stamp now rule d) dets (evs, ins) = (evs', ins')"
  shows "\<exists>new. evs' = evs @ new \<and> distinct (map fe_track new) \<and> set (map fe_track new) \<subseteq> set (tracked_ids dets) \<and>
    (\<forall>t. t \<noteq> [] \<longrightarrow> map_of ins' (inside_key t rule) =
       snd (dwell_step (sr_dwell rule) now (observed rule dets t) (map_of ins (inside_key t rule)))) \<and>
    (\<forall>t. t \<noteq> [] \<longrightarrow> (\<exists>e \<in> set new. fe_track e = t) = fst (dwell_step (sr_dwell rule) now (observed rule dets t) (map_of ins (inside_key t rule))))"
  using assms
proof (induction dets arbitrary: evs ins)
  case Nil
  then show ?case by (auto simp: observed_def dwell_step_def)
next
  case (Cons det dets)
  obtain evs1 ins1 where 1: "scan_det stamp now rule d det (evs, ins) = (evs1, ins1)" by fastforce
  have dd: "distinct (tracked_ids dets)" using Cons.prems(1) by (auto simp: tracked_ids_def split: if_splits)
  have rest: "fold (scan_det stamp now rule d) dets (evs1, ins1) = (evs', ins')" using Cons.prems(2) 1 by simp
  from scan_one [OF 1] obtain n1 where n1: "evs1 = evs @ n1"
    and m1: "\<And>t. t \<noteq> [] \<Longrightarrow> map_of ins1 (inside_key t rule) = snd (dwell_step (sr_dwell rule) now (observed rule [det] t) (map_of ins (inside_key t rule)))"
    and f1: "\<And>t. t \<noteq> [] \<Longrightarrow> (\<exists>e \<in> set n1. fe_track e = t) = fst (dwell_step (sr_dwell rule) now (observed rule [det] t) (map_of ins (inside_key t rule)))"
    and c1: "n1 = [] \<or> (\<exists>e. n1 = [e] \<and> fe_track e = dt_track det \<and> dt_track det \<noteq> [])" by blast
  from Cons.IH [OF dd rest] obtain n2 where n2: "evs' = evs1 @ n2" "distinct (map fe_track n2)" "set (map fe_track n2) \<subseteq> set (tracked_ids dets)"
    and m2: "\<And>t. t \<noteq> [] \<Longrightarrow> map_of ins' (inside_key t rule) = snd (dwell_step (sr_dwell rule) now (observed rule dets t) (map_of ins1 (inside_key t rule)))"
    and f2: "\<And>t. t \<noteq> [] \<Longrightarrow> (\<exists>e \<in> set n2. fe_track e = t) = fst (dwell_step (sr_dwell rule) now (observed rule dets t) (map_of ins1 (inside_key t rule)))" by blast
  have out: "dt_track det \<noteq> [] \<Longrightarrow> dt_track det \<notin> dt_track ` set dets"
    using Cons.prems(1) by (auto simp: tracked_ids_def)
  have none: "dwell_step w n None s = (False, s)" for w n s by (simp add: dwell_step_def)
  have step: "map_of ins' (inside_key t rule) = snd (dwell_step (sr_dwell rule) now (observed rule (det # dets) t) (map_of ins (inside_key t rule))) \<and>
      (\<exists>e \<in> set (n1 @ n2). fe_track e = t) = fst (dwell_step (sr_dwell rule) now (observed rule (det # dets) t) (map_of ins (inside_key t rule)))"
    if t: "t \<noteq> []" for t
  proof (cases "dt_track det = t")
    case True
    then have "observed rule dets t = None" using out t by (intro observed_None) auto
    moreover have "observed rule (det # dets) t = observed rule [det] t" using True by (simp add: observed_def)
    ultimately show ?thesis using m1 [OF t] m2 [OF t] f1 [OF t] f2 [OF t] by (auto simp: none)
  next
    case False
    then have "observed rule [det] t = None" "observed rule (det # dets) t = observed rule dets t" by (simp_all add: observed_def)
    then show ?thesis using m1 [OF t] m2 [OF t] f1 [OF t] f2 [OF t] by (auto simp: none)
  qed
  have "distinct (map fe_track (n1 @ n2))" using c1 n2(2,3) out by (auto simp: tracked_ids_def)
  moreover have "set (map fe_track (n1 @ n2)) \<subseteq> set (tracked_ids (det # dets))" using c1 n2(3) by (auto simp: tracked_ids_def)
  moreover have "evs' = evs @ (n1 @ n2)" using n1 n2(1) by simp
  ultimately show ?case using step by blast
qed

subsection \<open>Stays of a track in a zone\<close>

text \<open>
  The trace of one track: what the frames show of it, the frames' times, and the state before frame n. The track is in
  an open stay since frame m, as seen before frame n, when frame m shows it inside, no frame after m shows it outside, and
  every earlier frame inside is cut off from m by a frame outside.
\<close>

primrec dwell_trace :: "duration \<Rightarrow> (nat \<Rightarrow> time) \<Rightarrow> (nat \<Rightarrow> bool option) \<Rightarrow> nat \<Rightarrow> rule_state option" where
  "dwell_trace dwell now obs 0 = None"
| "dwell_trace dwell now obs (Suc n) = snd (dwell_step dwell (now n) (obs n) (dwell_trace dwell now obs n))"

definition open_stay :: "(nat \<Rightarrow> bool option) \<Rightarrow> nat \<Rightarrow> nat \<Rightarrow> bool" where
  "open_stay obs m n \<longleftrightarrow>
     m < n \<and> obs m = Some True \<and> (\<forall>j. m < j \<and> j < n \<longrightarrow> obs j \<noteq> Some False) \<and>
     (\<forall>j < m. obs j = Some True \<longrightarrow> (\<exists>i. j < i \<and> i < m \<and> obs i = Some False))"

definition due :: "duration \<Rightarrow> (nat \<Rightarrow> time) \<Rightarrow> (nat \<Rightarrow> bool option) \<Rightarrow> nat \<Rightarrow> nat \<Rightarrow> bool" where
  "due dwell now obs m n \<longleftrightarrow> obs n = Some True \<and> dwell \<le> time_sub (now n) (now m)"

lemma open_stay_unique: "open_stay obs m n \<Longrightarrow> open_stay obs m' n \<Longrightarrow> m = m'"
proof (rule ccontr)
  assume a: "open_stay obs m n" "open_stay obs m' n" "m \<noteq> m'"
  have no: False if "open_stay obs a n" "open_stay obs b n" "a < b" for a b
  proof -
    from that obtain i where "a < i" "i < b" "obs i = Some False" unfolding open_stay_def by blast
    moreover have "b < n" using that(2) by (simp add: open_stay_def)
    ultimately show False using that(1) unfolding open_stay_def by auto
  qed
  show False using a no by (meson linorder_neqE_nat)
qed

lemma open_stay_Suc: "obs n \<noteq> Some False \<Longrightarrow> m < n \<Longrightarrow> open_stay obs m (Suc n) \<longleftrightarrow> open_stay obs m n"
  unfolding open_stay_def by (auto simp: less_Suc_eq)

lemma no_stay_outside: "obs n = Some False \<Longrightarrow> \<not> open_stay obs m (Suc n)"
  unfolding open_stay_def by (cases "m = n") auto

lemma open_stay_now: "open_stay obs n (Suc n) \<longleftrightarrow> obs n = Some True \<and> (\<forall>m. \<not> open_stay obs m n)"
proof
  assume a: "open_stay obs n (Suc n)"
  have "\<not> open_stay obs m n" for m
  proof
    assume m: "open_stay obs m n"
    then have "m < n" "obs m = Some True" by (simp_all add: open_stay_def)
    then obtain i where "m < i" "i < n" "obs i = Some False" using a unfolding open_stay_def by blast
    then show False using m unfolding open_stay_def by blast
  qed
  then show "obs n = Some True \<and> (\<forall>m. \<not> open_stay obs m n)" using a by (simp add: open_stay_def)
next
  assume a: "obs n = Some True \<and> (\<forall>m. \<not> open_stay obs m n)"
  have "\<exists>i. j < i \<and> i < n \<and> obs i = Some False" if j: "j < n" "obs j = Some True" for j
  proof (rule ccontr)
    assume no: "\<nexists>i. j < i \<and> i < n \<and> obs i = Some False"
    let ?P = "\<lambda>k. obs k = Some True \<and> \<not> (\<exists>i. k < i \<and> i < n \<and> obs i = Some False)"
    have p: "?P j" using j no by blast
    define k where "k = (LEAST k. ?P k)"
    have k: "?P k" "k \<le> j" unfolding k_def using p by (rule LeastI, rule Least_le)
    have "\<exists>i. l < i \<and> i < k \<and> obs i = Some False" if "l < k" "obs l = Some True" for l
    proof (rule ccontr)
      assume "\<nexists>i. l < i \<and> i < k \<and> obs i = Some False"
      then have "?P l" using k(1) that(2) by (metis linorder_neqE_nat option.inject)
      then show False using not_less_Least that(1) unfolding k_def by blast
    qed
    then have "open_stay obs k n" unfolding open_stay_def using k j(1) by auto
    then show False using a by blast
  qed
  then show "open_stay obs n (Suc n)" unfolding open_stay_def using a by auto
qed

lemma dwell_step_inside:
  "obs \<noteq> Some False \<Longrightarrow>
   snd (dwell_step dwell now obs (Some s)) =
     Some (s\<lparr>rs_fired := rs_fired s \<or> (obs = Some True \<and> dwell \<le> time_sub now (rs_entered s))\<rparr>)"
  by (cases obs; cases s) (auto simp: dwell_step_def)

lemma dwell_trace_stays:
  "case dwell_trace dwell now obs n of
     None \<Rightarrow> \<forall>m. \<not> open_stay obs m n
   | Some s \<Rightarrow> \<exists>m. open_stay obs m n \<and> rs_entered s = now m \<and> (rs_fired s \<longleftrightarrow> (\<exists>j. m < j \<and> j < n \<and> due dwell now obs m j))"
proof (induction n)
  case 0
  show ?case by (simp add: open_stay_def)
next
  case (Suc n)
  let ?s = "dwell_trace dwell now obs n"
  consider "obs n = Some False" | "obs n \<noteq> Some False" "?s = None" | s where "obs n \<noteq> Some False" "?s = Some s" by (cases ?s) auto
  then show ?case
  proof cases
    case 1
    then show ?thesis by (simp add: dwell_step_def no_stay_outside)
  next
    case 2
    then have none: "\<forall>m. \<not> open_stay obs m n" using Suc by simp
    show ?thesis
    proof (cases "obs n")
      case None
      have "\<not> open_stay obs m (Suc n)" for m
        using none open_stay_Suc [of obs n m, OF 2(1)] None by (cases "m < n") (auto simp: open_stay_def less_Suc_eq)
      then show ?thesis using 2 None by (simp add: dwell_step_def)
    next
      case (Some b)
      then have "obs n = Some True" using 2(1) by (cases b) auto
      then have "open_stay obs n (Suc n)" using none open_stay_now by blast
      then show ?thesis using 2 \<open>obs n = Some True\<close> by (auto simp: dwell_step_def intro!: exI [of _ n])
    qed
  next
    case 3
    then obtain m where m: "open_stay obs m n" "rs_entered s = now m" "rs_fired s \<longleftrightarrow> (\<exists>j. m < j \<and> j < n \<and> due dwell now obs m j)"
      using Suc by auto
    have mn: "m < n" using m(1) by (simp add: open_stay_def)
    have o: "open_stay obs m (Suc n)" using m(1) open_stay_Suc [of obs n m, OF 3(1) mn] by blast
    have ex: "(\<exists>j. m < j \<and> j < Suc n \<and> due dwell now obs m j) \<longleftrightarrow> rs_fired s \<or> due dwell now obs m n"
      using m(3) mn by (auto simp: less_Suc_eq)
    define s' where "s' = s\<lparr>rs_fired := rs_fired s \<or> (obs n = Some True \<and> dwell \<le> time_sub (now n) (rs_entered s))\<rparr>"
    have s': "dwell_trace dwell now obs (Suc n) = Some s'" "rs_entered s' = now m" "rs_fired s' \<longleftrightarrow> rs_fired s \<or> due dwell now obs m n"
      using 3 m(2) by (simp_all add: dwell_step_inside due_def s'_def)
    show ?thesis unfolding s'(1) option.case using o s'(2,3) ex by blast
  qed
qed

lemma dwell_fires_iff:
  "fst (dwell_step dwell (now n) (obs n) (dwell_trace dwell now obs n)) \<longleftrightarrow>
   (\<exists>m. open_stay obs m n \<and> due dwell now obs m n \<and> (\<forall>j. m < j \<and> j < n \<longrightarrow> \<not> due dwell now obs m j))"
proof (cases "dwell_trace dwell now obs n")
  case None
  then have "\<forall>m. \<not> open_stay obs m n" using dwell_trace_stays [where dwell = dwell and now = now and obs = obs and n = n] by simp
  then show ?thesis by (simp add: None dwell_step_def split: option.splits bool.splits)
next
  case (Some s)
  then obtain m where m: "open_stay obs m n" "rs_entered s = now m" "rs_fired s \<longleftrightarrow> (\<exists>j. m < j \<and> j < n \<and> due dwell now obs m j)"
    using dwell_trace_stays [where dwell = dwell and now = now and obs = obs and n = n] by auto
  have "fst (dwell_step dwell (now n) (obs n) (dwell_trace dwell now obs n)) \<longleftrightarrow> \<not> rs_fired s \<and> due dwell now obs m n"
    using Some m(2) by (auto simp: dwell_step_def due_def split: option.splits bool.splits)
  then show ?thesis using m open_stay_unique by blast
qed

subsection \<open>The rule operator over a stream\<close>

text \<open>The envelopes of a stream, each with the clock reading and the draws of its evaluation; the result is what is forwarded.\<close>

type_synonym rule_input = "time \<times> (nat \<Rightarrow> event_stamp) \<times> envelope"

fun rule_run :: "spatial_rule list \<Rightarrow> rule_input list \<Rightarrow> insides \<Rightarrow> envelope list" where
  "rule_run rules [] ins = []"
| "rule_run rules ((clock, stamp, env) # fs) ins =
     (case evaluate rules clock stamp (env, ins) of (env', ins') \<Rightarrow> env' # rule_run rules fs ins')"

definition input_time :: "rule_input \<Rightarrow> time" where "input_time f = frame_now (fst f) (snd (snd f))"
definition input_dets :: "rule_input \<Rightarrow> frame_detection list" where "input_dets f = en_detections (snd (snd f))"

text \<open>The events that the evaluation of a frame adds.\<close>

definition added_events :: "rule_input \<Rightarrow> envelope \<Rightarrow> frame_event list" where
  "added_events f out = drop (length (en_events (snd (snd f)))) (en_events out)"

lemma rule_run_length [simp]: "length (rule_run rules fs ins) = length fs"
  by (induction rules fs ins rule: rule_run.induct) (auto split: prod.splits)

lemma rule_run_steps:
  assumes "\<forall>f \<in> set fs. distinct (tracked_ids (input_dets f))" "n < length fs"
    "\<And>t. t \<noteq> [] \<Longrightarrow> map_of ins (inside_key t rule) = dwell_trace (sr_dwell rule) (now t) (obs t) k"
    "\<And>i t. i < length fs \<Longrightarrow> now t (k + i) = input_time (fs ! i) \<and> obs t (k + i) = observed rule (input_dets (fs ! i)) t"
  shows "distinct (map fe_track (added_events (fs ! n) (rule_run [rule] fs ins ! n))) \<and>
    set (map fe_track (added_events (fs ! n) (rule_run [rule] fs ins ! n))) \<subseteq> set (tracked_ids (input_dets (fs ! n))) \<and>
    overwritten (input_dets (fs ! n)) (added_events (fs ! n) (rule_run [rule] fs ins ! n)) (en_detections (rule_run [rule] fs ins ! n)) \<and>
    (\<forall>t. t \<noteq> [] \<longrightarrow> ((\<exists>e \<in> set (added_events (fs ! n) (rule_run [rule] fs ins ! n)). fe_track e = t) \<longleftrightarrow>
       fst (dwell_step (sr_dwell rule) (now t (k + n)) (obs t (k + n)) (dwell_trace (sr_dwell rule) (now t) (obs t) (k + n)))))"
  using assms
proof (induction fs arbitrary: n ins k)
  case (Cons f fs)
  obtain clock stamp env where f: "f = (clock, stamp, env)" by (rule prod_cases3)
  obtain env' ins' new where ev: "evaluate [rule] clock stamp (env, ins) = (env', ins')"
    "fold (scan_det stamp (frame_now clock env) rule (en_descriptor env)) (en_detections env) (en_events env, ins) = (en_events env @ new, ins')"
    "en_events env' = en_events env @ new" "overwritten (en_detections env) new (en_detections env')"
    using evaluate_scan [of rule clock stamp env ins] by blast
  have dd: "distinct (tracked_ids (en_detections env))" using Cons.prems(1) by (simp add: f input_dets_def)
  from scan_key [OF dd ev(2)]
  have key: "distinct (map fe_track new)" "set (map fe_track new) \<subseteq> set (tracked_ids (en_detections env))"
    "\<And>t. t \<noteq> [] \<Longrightarrow> map_of ins' (inside_key t rule) = snd (dwell_step (sr_dwell rule) (frame_now clock env) (observed rule (en_detections env) t) (map_of ins (inside_key t rule)))"
    "\<And>t. t \<noteq> [] \<Longrightarrow> (\<exists>e \<in> set new. fe_track e = t) = fst (dwell_step (sr_dwell rule) (frame_now clock env) (observed rule (en_detections env) t) (map_of ins (inside_key t rule)))"
    by auto
  have now0: "now t k = frame_now clock env" "obs t k = observed rule (en_detections env) t" for t
    using Cons.prems(4) [of 0 t] by (simp_all add: f input_time_def input_dets_def)
  show ?case
  proof (cases n)
    case 0
    then show ?thesis using key(1,2,4) ev Cons.prems(3) now0 by (simp add: f added_events_def input_dets_def)
  next
    case (Suc n')
    have "map_of ins' (inside_key t rule) = dwell_trace (sr_dwell rule) (now t) (obs t) (Suc k)" if "t \<noteq> []" for t
      using key(3) [OF that] Cons.prems(3) [OF that] now0 by simp
    moreover have "now t (Suc k + i) = input_time (fs ! i) \<and> obs t (Suc k + i) = observed rule (input_dets (fs ! i)) t" if "i < length fs" for i t
      using Cons.prems(4) [of "Suc i" t] that by simp
    moreover have "\<forall>f \<in> set fs. distinct (tracked_ids (input_dets f))" "n' < length fs" using Cons.prems(1,2) Suc by auto
    ultimately show ?thesis using Cons.IH [of n' ins' "Suc k"] ev(1) Suc by (simp add: f)
  qed
qed simp

lemma dwell_rule_fires:
  assumes "\<forall>f \<in> set fs. distinct (tracked_ids (input_dets f))" "n < length fs" "t \<noteq> []"
  shows "length (filter (\<lambda>e. fe_track e = t) (added_events (fs ! n) (rule_run [rule] fs [] ! n))) =
    (if \<exists>m. open_stay (\<lambda>i. observed rule (input_dets (fs ! i)) t) m n \<and>
          due (sr_dwell rule) (\<lambda>i. input_time (fs ! i)) (\<lambda>i. observed rule (input_dets (fs ! i)) t) m n \<and>
          (\<forall>j. m < j \<and> j < n \<longrightarrow> \<not> due (sr_dwell rule) (\<lambda>i. input_time (fs ! i)) (\<lambda>i. observed rule (input_dets (fs ! i)) t) m j)
     then 1 else 0)"
proof -
  let ?new = "added_events (fs ! n) (rule_run [rule] fs [] ! n)"
  have "distinct (map fe_track ?new) \<and> ((\<exists>e \<in> set ?new. fe_track e = t) \<longleftrightarrow>
      fst (dwell_step (sr_dwell rule) (input_time (fs ! n)) (observed rule (input_dets (fs ! n)) t)
        (dwell_trace (sr_dwell rule) (\<lambda>i. input_time (fs ! i)) (\<lambda>i. observed rule (input_dets (fs ! i)) t) n)))"
    using rule_run_steps [OF assms(1,2), of "[]" rule "\<lambda>t i. input_time (fs ! i)" "\<lambda>t i. observed rule (input_dets (fs ! i)) t" 0] assms(3)
    by simp
  moreover have "length (filter (\<lambda>e. fe_track e = t) ?new) = (if \<exists>e \<in> set ?new. fe_track e = t then 1 else 0)" if "distinct (map fe_track ?new)"
  proof -
    have "length (filter (\<lambda>e. fe_track e = t) es) = (if \<exists>e \<in> set es. fe_track e = t then 1 else 0)" if "distinct (map fe_track es)" for es :: "frame_event list"
      using that by (induction es) (auto simp: image_iff)
    then show ?thesis using that by blast
  qed
  ultimately show ?thesis unfolding dwell_fires_iff [symmetric] by simp
qed

text \<open>A dwell rule fires for a track at a frame exactly when the track is in a stay inside the zone that started at an earlier
frame at least the dwell time before, and no frame between them was late enough: once for every stay, at the first frame that shows the
track long enough inside, at most one event for a track in a frame, and no event without one. The tracks of a frame are different, as the
tracker provides.\<close>

theorem dwell_rule_fires_once_per_stay:
  assumes "\<forall>f \<in> set fs. distinct (tracked_ids (input_dets f))" "n < length fs" "t \<noteq> []"
  shows "length (filter (\<lambda>e. fe_track e = t) (added_events (fs ! n) (rule_run [rule] fs [] ! n))) =
    (if \<exists>m. open_stay (\<lambda>i. observed rule (input_dets (fs ! i)) t) m n \<and>
          due (sr_dwell rule) (\<lambda>i. input_time (fs ! i)) (\<lambda>i. observed rule (input_dets (fs ! i)) t) m n \<and>
          (\<forall>j. m < j \<and> j < n \<longrightarrow> \<not> due (sr_dwell rule) (\<lambda>i. input_time (fs ! i)) (\<lambda>i. observed rule (input_dets (fs ! i)) t) m j)
     then 1 else 0)"
  using assms by (rule dwell_rule_fires)

text \<open>When a rule fires, the operator writes the detection of its last event over the first detection of the frame: downstream
operators, and the next rule of the same operator, no longer see the first detection. Without an event the detections are left alone.\<close>

theorem fired_rule_overwrites_first_detection:
  "\<exists>env' ins' new. evaluate [rule] clock stamp (env, ins) = (env', ins') \<and> en_events env' = en_events env @ new \<and>
     (if new = [] then en_detections env' = en_detections env
      else \<exists>d \<in> set (en_detections env). dt_track d = fe_track (last new) \<and> en_detections env' = (en_detections env)[0 := d])"
  using evaluate_scan [of rule clock stamp env ins] unfolding overwritten_def by blast

subsection \<open>Witnesses\<close>

definition demo_tracker :: tracker_config where
  "demo_tracker = \<lparr>tc_threshold = Fin (1 / 4), tc_max_missing = 30\<rparr>"

definition demo_detection :: "string \<Rightarrow> bounding_box option \<Rightarrow> frame_detection" where
  "demo_detection t b =
     \<lparr>dt_tenant = [], dt_pipeline = [], dt_stream = [], dt_seq = 0, dt_capture = None, dt_model = [], dt_model_version = [],
      dt_class = ''person'', dt_score = Fin 1, dt_box = b, dt_track = t\<rparr>"

definition demo_frame :: "time \<Rightarrow> frame_detection list \<Rightarrow> envelope" where
  "demo_frame now dets =
     \<lparr>en_descriptor = \<lparr>fd_stream = ''s'', fd_pipeline = ''p'', fd_seq = 0, fd_capture = Some now, fd_width = 0, fd_height = 0,
        fd_pixel_format = [], fd_color_space = [], fd_payload = None, fd_attestations = [], fd_traceparent = []\<rparr>,
      en_detections = dets, en_tracks = [], en_events = [], en_emitted = 0\<rparr>"

definition demo_dwell :: spatial_rule where
  "demo_dwell =
     \<lparr>sr_id = ''r'', sr_tenant = ''t'', sr_zone = \<lparr>rz_id = ''z'', rz_x = Fin 0, rz_y = Fin 0, rz_w = Fin 0, rz_h = Fin 0\<rparr>,
      sr_dwell = 5, sr_severity = Severity 3\<rparr>"

definition demo_stamp :: "nat \<Rightarrow> event_stamp" where
  "demo_stamp k = \<lparr>es_bytes = [], es_now = 0\<rparr>"

lemma tracker_assigns_tracks_witness:
  "\<exists>env' tracks'. assign demo_tracker (\<lambda>i. [char_of i])
     (demo_frame 1 [demo_detection [] None, demo_detection [] None],
      [\<lparr>tk_id = ''x'', tk_class = ''person'', tk_box = None, tk_missed = 30\<rparr>]) = (env', tracks') \<and>
     tracker_inv demo_tracker tracks' \<and> length (en_detections env') = 2 \<and> distinct (map dt_track (en_detections env'))"
proof -
  let ?env = "demo_frame 1 [demo_detection [] None, demo_detection [] None]"
    and ?tracks = "[\<lparr>tk_id = ''x'', tk_class = ''person'', tk_box = None, tk_missed = 30\<rparr>]"
  obtain env' tracks' where a: "assign demo_tracker (\<lambda>i. [char_of i]) (?env, ?tracks) = (env', tracks')" by fastforce
  have ok: "tracker_ok demo_tracker" "tracker_inv demo_tracker ?tracks"
    by (simp_all add: tracker_ok_def tracker_inv_def demo_tracker_def)
  have "fresh_ids (\<lambda>i. [char_of i]) (length (en_detections ?env)) ?tracks"
    by (simp add: fresh_ids_def new_track_id_def hex_string_def hex_char_def demo_frame_def digit_char_def less_Suc_eq upt_conv_Cons)
  from tracker_assigns_tracks [OF ok this a] have "tracker_inv demo_tracker tracks'"
    "length (en_detections env') = length (en_detections ?env)" "distinct (map dt_track (en_detections env'))" by blast+
  then show ?thesis using a by (auto simp: demo_frame_def)
qed

lemma zone_contains_demo: "zone_contains (sr_zone demo_dwell) (Some zero_box)"
  by (simp add: zone_contains_def demo_dwell_def zero_box_def fl_round_def fl_le_def)

lemma dwell_rule_fires_once_per_stay_witness:
  "length (filter (\<lambda>e. fe_track e = ''a'')
     (added_events (0, demo_stamp, demo_frame 17 [demo_detection ''a'' (Some zero_box)])
       (rule_run [demo_dwell]
          [(0, demo_stamp, demo_frame 10 [demo_detection ''a'' (Some zero_box)]), (0, demo_stamp, demo_frame 17 [demo_detection ''a'' (Some zero_box)])] [] ! 1))) = 1"
proof -
  let ?fs = "[(0, demo_stamp, demo_frame 10 [demo_detection ''a'' (Some zero_box)]), (0, demo_stamp, demo_frame 17 [demo_detection ''a'' (Some zero_box)])]"
  let ?obs = "\<lambda>i. observed demo_dwell (input_dets (?fs ! i)) ''a''" and ?now = "\<lambda>i. input_time (?fs ! i)"
  have obs: "?obs 0 = Some True" "?obs 1 = Some True"
    by (simp_all add: observed_def input_dets_def demo_frame_def demo_detection_def zone_contains_demo)
  have now: "?now 0 = 10" "?now 1 = 17"
    by (simp_all add: input_time_def frame_now_def demo_frame_def as_time_def is_zero_def)
  have "open_stay ?obs 0 1" using obs by (simp add: open_stay_def)
  moreover have "due (sr_dwell demo_dwell) ?now ?obs 0 1"
    unfolding due_def now using obs by (simp add: demo_dwell_def time_sub_def)
  ultimately have "\<exists>m. open_stay ?obs m 1 \<and> due (sr_dwell demo_dwell) ?now ?obs m 1 \<and> (\<forall>j. m < j \<and> j < 1 \<longrightarrow> \<not> due (sr_dwell demo_dwell) ?now ?obs m j)"
    by (intro exI [of _ 0]) simp
  moreover have "\<forall>f \<in> set ?fs. distinct (tracked_ids (input_dets f))"
    by (simp add: tracked_ids_def input_dets_def demo_frame_def demo_detection_def)
  ultimately show ?thesis
    using dwell_rule_fires_once_per_stay [of ?fs 1 "''a''" demo_dwell] by simp
qed

text \<open>
  Two rules over one zone, and two tracks inside that entered together: the first rule fires for both and leaves the
  second track at both places, so the second rule fires for the second track only.
\<close>

lemma second_rule_misses_first_detection:
  "map fe_track (en_events (fst (evaluate [demo_dwell, demo_dwell\<lparr>sr_id := ''r2''\<rparr>] 0 demo_stamp
     (demo_frame 17 [demo_detection ''a'' (Some zero_box), demo_detection ''b'' (Some zero_box)],
      [(''a:r'', \<lparr>rs_entered = 10, rs_fired = False\<rparr>), (''b:r'', \<lparr>rs_entered = 10, rs_fired = False\<rparr>),
       (''a:r2'', \<lparr>rs_entered = 10, rs_fired = False\<rparr>), (''b:r2'', \<lparr>rs_entered = 10, rs_fired = False\<rparr>)])))) =
   [''a'', ''b'', ''b'']"
proof -
  have in1: "zone_contains (sr_zone demo_dwell) (Some zero_box)" by (rule zone_contains_demo)
  have now: "frame_now 0 (demo_frame 17 dets) = 17" for dets
    by (simp add: frame_now_def demo_frame_def as_time_def is_zero_def)
  show ?thesis
    unfolding evaluate_def fst_conv now
    using in1
    by (simp add: rule_pass_def rule_det_def demo_frame_def demo_detection_def inside_key_def demo_dwell_def time_sub_def build_frame_event_def upt_conv_Cons Let_def)
qed

end
