(* ===== verification/Runner.thy ===== *)
theory Runner
  imports Tracking Metering StreamService
begin

section \<open>services/dataplane-runner: the chains of a runner\<close>

text \<open>
  Model of \<open>services/dataplane-runner/internal/runner/runner.go\<close> and of the way \<open>pkg/dataplane/runtime.go\<close> chains operators.
  The runner keeps a map from a (pipeline, stream) key to the cancel function of its run; a run is named by its number in
  the order of the starts. A chain is a composition of functions on streams: its channels are queues that keep the order, and
  each operator reads one channel and writes one, so what an operator forwards depends only on what it receives.
  The exception is the claim-check ring, which ingest writes and detect reads at a later time.
\<close>

subsection \<open>Commands\<close>

record run_command =
  cm_op :: string
  cm_stream :: string
  cm_tenant :: string
  cm_pipeline :: string

record runner =
  ru_running :: "(string \<times> nat) list"
  ru_started :: "run_command list"
  ru_cancelled :: "nat list"
  ru_ended :: "nat list"

definition new_runner :: runner where
  "new_runner = \<lparr>ru_running = [], ru_started = [], ru_cancelled = [], ru_ended = []\<rparr>"

definition run_key :: "run_command \<Rightarrow> string" where
  "run_key cmd = cm_pipeline cmd @ '':'' @ cm_stream cmd"

definition handle_command :: "run_command \<Rightarrow> runner \<Rightarrow> runner" where
  "handle_command cmd r =
     (if cm_op cmd = ''start'' then
        (case map_of (ru_running r) (run_key cmd) of
           Some _ \<Rightarrow> r
         | None \<Rightarrow> r\<lparr>ru_running := AList.update (run_key cmd) (length (ru_started r)) (ru_running r), ru_started := ru_started r @ [cmd]\<rparr>)
      else if cm_op cmd = ''stop'' then
        (case map_of (ru_running r) (run_key cmd) of
           Some i \<Rightarrow> r\<lparr>ru_running := AList.delete (run_key cmd) (ru_running r), ru_cancelled := ru_cancelled r @ [i]\<rparr>
         | None \<Rightarrow> r)
      else r)"

text \<open>
  \<open>runOne\<close> of the run under a key returns by itself: its ring cannot be made or an operator fails. The map keeps the key.
\<close>

definition run_exits :: "string \<Rightarrow> runner \<Rightarrow> runner" where
  "run_exits k r = (case map_of (ru_running r) k of None \<Rightarrow> r | Some i \<Rightarrow> r\<lparr>ru_ended := i # ru_ended r\<rparr>)"

definition on_control :: "(string \<Rightarrow> run_command option) \<Rightarrow> bus_message \<Rightarrow> runner \<Rightarrow> runner" where
  "on_control unmarshal m r = (case unmarshal (bm_data m) of None \<Rightarrow> r | Some cmd \<Rightarrow> handle_command cmd r)"

definition watch :: "string \<Rightarrow> 'h \<Rightarrow> 'h mem_bus \<Rightarrow> 'h mem_bus" where
  "watch pipeline h b = bus_subscribe (''operator.control.'' @ pipeline) (''runners-'' @ pipeline) h b"

definition watch_all :: "'h \<Rightarrow> 'h mem_bus \<Rightarrow> 'h mem_bus" where
  "watch_all h b = bus_subscribe ''operator.control.>'' ''runners'' h b"

subsection \<open>The chain\<close>

text \<open>The tracker over a stream of envelopes, each with the bytes it draws.\<close>

fun tracker_run :: "tracker_config \<Rightarrow> ((nat \<Rightarrow> string) \<times> envelope) list \<Rightarrow> track_state list \<Rightarrow> envelope list" where
  "tracker_run cfg [] tracks = []"
| "tracker_run cfg ((rand, env) # fs) tracks =
     (case assign cfg rand (env, tracks) of (env', tracks') \<Rightarrow> env' # tracker_run cfg fs tracks')"

text \<open>What is drawn and read for one envelope on its way through tracker, rule and emit.\<close>

record draws =
  dw_rand :: "nat \<Rightarrow> string"
  dw_clock :: time
  dw_stamp :: "nat \<Rightarrow> event_stamp"
  dw_emit :: time

definition runner_sampler :: sampler_config where
  "runner_sampler = new_sampler \<lparr>sc_source = 30, sc_target = 15\<rparr>"

definition runner_tracker :: tracker_config where
  "runner_tracker = new_tracker \<lparr>tc_threshold = c32 (1 / 10), tc_max_missing = 0\<rparr>"

definition runner_rule :: "run_command \<Rightarrow> spatial_rule" where
  "runner_rule cmd =
     \<lparr>sr_id = ''dwell-right-half'', sr_tenant = cm_tenant cmd,
      sr_zone = \<lparr>rz_id = ''right-half'', rz_x = c32 (1 / 2), rz_y = Fin 0, rz_w = c32 (1 / 2), rz_h = Fin 1\<rparr>,
      sr_dwell = 2 * second, sr_severity = Severity 4\<rparr>"

definition runner_ingest :: "run_command \<Rightarrow> ingest_config" where
  "runner_ingest cmd = \<lparr>ic_stream = cm_stream cmd, ic_pipeline = cm_pipeline cmd, ic_width = 640, ic_height = 360, ic_total = 0\<rparr>"

text \<open>From the envelopes that detect forwards to the envelopes that the rule forwards, and to the messages of emit.\<close>

definition tracked_inputs :: "tracker_config \<Rightarrow> (draws \<times> envelope) list \<Rightarrow> track_state list \<Rightarrow> rule_input list" where
  "tracked_inputs cfg fs tracks =
     map (\<lambda>(d, env). (dw_clock d, dw_stamp d, env)) (zip (map fst fs) (tracker_run cfg (map (\<lambda>(d, env). (dw_rand d, env)) fs) tracks))"

definition chain_rule :: "run_command \<Rightarrow> (draws \<times> envelope) list \<Rightarrow> envelope list" where
  "chain_rule cmd fs = rule_run [runner_rule cmd] (tracked_inputs runner_tracker fs []) []"

definition chain_messages :: "(frame_event \<Rightarrow> string option) \<Rightarrow> run_command \<Rightarrow> (draws \<times> envelope) list \<Rightarrow> bus_message list" where
  "chain_messages marshal cmd fs = concat (map (\<lambda>(d, env). fst (emit_frame marshal [] (dw_emit d) env)) (zip (map fst fs) (chain_rule cmd fs)))"

text \<open>What a chain ends with: the first operator's error that is not the end of its input.\<close>

datatype op_result = Cancelled | UpstreamClosed | OpError string

fun pipeline_wait :: "(string \<times> op_result) list \<Rightarrow> string option" where
  "pipeline_wait [] = None"
| "pipeline_wait ((name, res) # ops) =
     (case res of OpError e \<Rightarrow> Some (''operator '' @ name @ '': '' @ e) | _ \<Rightarrow> pipeline_wait ops)"

subsection \<open>Runs against commands\<close>

definition runner_inv :: "runner \<Rightarrow> bool" where
  "runner_inv r \<longleftrightarrow>
     distinct (map fst (ru_running r)) \<and>
     (\<forall>i < length (ru_started r). i \<notin> set (ru_cancelled r) \<longleftrightarrow> map_of (ru_running r) (run_key (ru_started r ! i)) = Some i) \<and>
     (\<forall>k i. map_of (ru_running r) k = Some i \<longrightarrow> i < length (ru_started r) \<and> run_key (ru_started r ! i) = k) \<and>
     (\<forall>i \<in> set (ru_cancelled r). i < length (ru_started r))"

datatype runner_event = Commanded run_command | Exits string

definition runner_event_step :: "runner_event \<Rightarrow> runner \<Rightarrow> runner" where
  "runner_event_step ev r = (case ev of Commanded cmd \<Rightarrow> handle_command cmd r | Exits k \<Rightarrow> run_exits k r)"

text \<open>The runs of a key that were started, were not cancelled and have not ended by themselves.\<close>

definition live_runs :: "string \<Rightarrow> runner \<Rightarrow> nat set" where
  "live_runs k r = {i. i < length (ru_started r) \<and> i \<notin> set (ru_cancelled r) \<and> i \<notin> set (ru_ended r) \<and> run_key (ru_started r ! i) = k}"

text \<open>What the history of a key amounts to: a start makes a run where there is none, a stop clears the key, and a run that ends by
itself blocks the key until the next stop.\<close>

datatype key_state = Idle | Live | Blocked

definition key_step :: "string \<Rightarrow> runner_event \<Rightarrow> key_state \<Rightarrow> key_state" where
  "key_step k ev st =
     (case ev of
        Commanded cmd \<Rightarrow>
          if run_key cmd \<noteq> k then st
          else if cm_op cmd = ''start'' then (if st = Idle then Live else st)
          else if cm_op cmd = ''stop'' then Idle else st
      | Exits k' \<Rightarrow> if k' = k \<and> st = Live then Blocked else st)"

definition key_history :: "string \<Rightarrow> runner_event list \<Rightarrow> key_state" where
  "key_history k es = fold (key_step k) es Idle"

definition key_state_of :: "string \<Rightarrow> runner \<Rightarrow> key_state" where
  "key_state_of k r = (case map_of (ru_running r) k of None \<Rightarrow> Idle | Some i \<Rightarrow> if i \<in> set (ru_ended r) then Blocked else Live)"

lemma live_runs_running:
  assumes "runner_inv r"
  shows "card (live_runs k r) = (if key_state_of k r = Live then 1 else 0)"
proof -
  have c: "i \<notin> set (ru_cancelled r) \<longleftrightarrow> map_of (ru_running r) (run_key (ru_started r ! i)) = Some i" if "i < length (ru_started r)" for i
    using assms that by (simp add: runner_inv_def)
  have m: "i < length (ru_started r) \<and> run_key (ru_started r ! i) = k" if "map_of (ru_running r) k = Some i" for i
    using assms that by (simp add: runner_inv_def)
  have "i \<in> live_runs k r \<longleftrightarrow> map_of (ru_running r) k = Some i \<and> i \<notin> set (ru_ended r)" for i
  proof
    assume l: "i \<in> live_runs k r"
    then have "map_of (ru_running r) (run_key (ru_started r ! i)) = Some i" "run_key (ru_started r ! i) = k" using c [of i] by (simp_all add: live_runs_def)
    then show "map_of (ru_running r) k = Some i \<and> i \<notin> set (ru_ended r)" using l by (simp add: live_runs_def)
  next
    assume l: "map_of (ru_running r) k = Some i \<and> i \<notin> set (ru_ended r)"
    then have i: "i < length (ru_started r)" "run_key (ru_started r ! i) = k" using m [of i] by simp_all
    then have "i \<notin> set (ru_cancelled r)" using c [of i] l by simp
    then show "i \<in> live_runs k r" using i l by (simp add: live_runs_def)
  qed
  then have l: "live_runs k r = {i. map_of (ru_running r) k = Some i \<and> i \<notin> set (ru_ended r)}" by (simp only: set_eq_iff mem_Collect_eq simp_thms)
  show ?thesis
  proof (cases "map_of (ru_running r) k")
    case (Some i)
    have "{j. Some i = Some j \<and> j \<notin> set (ru_ended r)} = (if i \<in> set (ru_ended r) then {} else {i})" by auto
    then show ?thesis unfolding l by (simp add: key_state_of_def Some)
  qed (simp add: l key_state_of_def)
qed

lemma runner_inv_start: "runner_inv new_runner"
  by (simp add: runner_inv_def new_runner_def)

lemma handle_command_inv:
  assumes "runner_inv r"
  shows "runner_inv (handle_command cmd r) \<and>
    map_of (ru_running (handle_command cmd r)) k =
      (if run_key cmd \<noteq> k then map_of (ru_running r) k
       else if cm_op cmd = ''start'' then Some (case map_of (ru_running r) k of None \<Rightarrow> length (ru_started r) | Some i \<Rightarrow> i)
       else if cm_op cmd = ''stop'' then None else map_of (ru_running r) k)"
proof -
  let ?k = "run_key cmd"
  have inv: "distinct (map fst (ru_running r))"
    "\<And>i. i < length (ru_started r) \<Longrightarrow> i \<notin> set (ru_cancelled r) \<longleftrightarrow> map_of (ru_running r) (run_key (ru_started r ! i)) = Some i"
    "\<And>k i. map_of (ru_running r) k = Some i \<Longrightarrow> i < length (ru_started r) \<and> run_key (ru_started r ! i) = k"
    "\<And>i. i \<in> set (ru_cancelled r) \<Longrightarrow> i < length (ru_started r)"
    using assms unfolding runner_inv_def by blast+
  consider (start) "cm_op cmd = ''start''" "map_of (ru_running r) ?k = None"
    | (again) i where "cm_op cmd = ''start''" "map_of (ru_running r) ?k = Some i"
    | (stop) i where "cm_op cmd = ''stop''" "map_of (ru_running r) ?k = Some i"
    | (idle) "cm_op cmd = ''stop''" "map_of (ru_running r) ?k = None"
    | (other) "cm_op cmd \<noteq> ''start''" "cm_op cmd \<noteq> ''stop''"
  proof (cases "cm_op cmd = ''start''")
    case True
    then show ?thesis using that(1,2) by (cases "map_of (ru_running r) ?k") simp_all
  next
    case False
    then show ?thesis using that(3,4,5) by (cases "map_of (ru_running r) ?k"; cases "cm_op cmd = ''stop''") simp_all
  qed
  then show ?thesis
  proof cases
    case start
    let ?n = "length (ru_started r)"
    have r: "handle_command cmd r = r\<lparr>ru_running := AList.update ?k ?n (ru_running r), ru_started := ru_started r @ [cmd]\<rparr>"
      using start by (simp add: handle_command_def)
    have "?n \<notin> set (ru_cancelled r)" using inv(4) by blast
    moreover have "run_key (ru_started r ! i) \<noteq> ?k" if "i < ?n" "i \<notin> set (ru_cancelled r)" for i
      using inv(2) [OF that(1)] that(2) start(2) by auto
    moreover have "map_of (ru_running r) (run_key (ru_started r ! i)) \<noteq> Some i" if "i < ?n" "i \<in> set (ru_cancelled r)" for i
      using inv(2) that by blast
    ultimately have two: "i \<notin> set (ru_cancelled r) \<longleftrightarrow>
        map_of (AList.update ?k ?n (ru_running r)) (run_key ((ru_started r @ [cmd]) ! i)) = Some i" if "i < Suc ?n" for i
      using that inv(2) [of i] by (cases "i = ?n") (auto simp: nth_append)
    have three: "j < Suc ?n \<and> run_key ((ru_started r @ [cmd]) ! j) = k'" if "map_of (AList.update ?k ?n (ru_running r)) k' = Some j" for k' j
      using that inv(3) [of k' j] by (cases "k' = ?k") (auto simp: nth_append)
    have "runner_inv (handle_command cmd r)"
      unfolding r runner_inv_def using two three inv(1,4) by (auto simp: distinct_update intro: less_SucI)
    then show ?thesis using start by (auto simp: r)
  next
    case again
    then have "handle_command cmd r = r" by (simp add: handle_command_def)
    then show ?thesis using assms again by auto
  next
    case stop
    have r: "handle_command cmd r = r\<lparr>ru_running := AList.delete ?k (ru_running r), ru_cancelled := ru_cancelled r @ [i]\<rparr>"
      using stop by (simp add: handle_command_def)
    have i: "i < length (ru_started r)" "run_key (ru_started r ! i) = ?k" using inv(3) [OF stop(2)] by auto
    have two: "j \<notin> set (ru_cancelled r @ [i]) \<longleftrightarrow> map_of (AList.delete ?k (ru_running r)) (run_key (ru_started r ! j)) = Some j"
      if j: "j < length (ru_started r)" for j
    proof (cases "run_key (ru_started r ! j) = ?k")
      case True
      have "j \<in> set (ru_cancelled r @ [i])" using inv(2) [OF j] True stop(2) by auto
      then show ?thesis using True by simp
    next
      case False
      then have "j \<noteq> i" using i(2) by blast
      then show ?thesis using inv(2) [OF j] False by simp
    qed
    have three: "j < length (ru_started r) \<and> run_key (ru_started r ! j) = k'" if "map_of (AList.delete ?k (ru_running r)) k' = Some j" for k' j
      using inv(3) [of k' j] that by (cases "k' = ?k") simp_all
    have four: "j < length (ru_started r)" if "j \<in> set (ru_cancelled r @ [i])" for j
      using that inv(4) i(1) by auto
    have "distinct (map fst (AList.delete ?k (ru_running r)))" using inv(1) by (rule distinct_delete)
    then have "runner_inv (handle_command cmd r)"
      unfolding r runner_inv_def runner.simps using two three four
      by (intro conjI allI impI ballI) (auto simp del: set_append map_of_delete)
    then show ?thesis using stop by (simp add: r)
  next
    case idle
    then have "handle_command cmd r = r" by (simp add: handle_command_def)
    then show ?thesis using assms idle by auto
  next
    case other
    then have "handle_command cmd r = r" by (simp add: handle_command_def)
    then show ?thesis using assms other by auto
  qed
qed

lemma handle_command_ended [simp]: "ru_ended (handle_command cmd r) = ru_ended r"
  by (simp add: handle_command_def split: option.splits)

definition ended_ok :: "runner \<Rightarrow> bool" where
  "ended_ok r \<longleftrightarrow> (\<forall>i \<in> set (ru_ended r). i < length (ru_started r))"

lemma started_grows: "length (ru_started r) \<le> length (ru_started (handle_command cmd r))"
  by (simp add: handle_command_def split: option.splits)

lemma runner_event_inv:
  assumes "runner_inv r" "ended_ok r"
  shows "runner_inv (runner_event_step ev r) \<and> ended_ok (runner_event_step ev r) \<and>
    key_state_of k (runner_event_step ev r) = key_step k ev (key_state_of k r)"
proof (cases ev)
  case (Commanded cmd)
  note c = handle_command_inv [OF assms(1), of cmd k]
  have "ended_ok (handle_command cmd r)" using assms(2) started_grows [of r cmd] by (auto simp: ended_ok_def)
  moreover have "length (ru_started r) \<notin> set (ru_ended r)" using assms(2) by (auto simp: ended_ok_def)
  ultimately show ?thesis
    using c by (auto simp: Commanded runner_event_step_def key_step_def key_state_of_def split: option.splits)
next
  case (Exits k')
  have inj: "i = j \<Longrightarrow> map_of (ru_running r) k = Some i \<Longrightarrow> map_of (ru_running r) k' = Some j \<Longrightarrow> k = k'" for i j
    using assms(1) unfolding runner_inv_def by metis
  show ?thesis
  proof (cases "map_of (ru_running r) k'")
    case None
    then show ?thesis
      using assms Exits by (auto simp: runner_event_step_def run_exits_def key_step_def key_state_of_def split: option.splits)
  next
    case (Some j)
    have "j < length (ru_started r)" using assms(1) Some unfolding runner_inv_def by blast
    then show ?thesis
      using assms Exits Some inj
      by (auto simp: runner_event_step_def run_exits_def key_step_def key_state_of_def runner_inv_def ended_ok_def split: option.splits)
  qed
qed

lemma runner_events_history:
  "runner_inv r \<Longrightarrow> ended_ok r \<Longrightarrow>
   runner_inv (fold runner_event_step es r) \<and> key_state_of k (fold runner_event_step es r) = fold (key_step k) es (key_state_of k r)"
  by (induction es arbitrary: r) (use runner_event_inv in auto)

text \<open>Two pairs of a pipeline and a stream can have the same key.\<close>

lemma run_keys_collide:
  "run_key \<lparr>cm_op = ''start'', cm_stream = ''c'', cm_tenant = t, cm_pipeline = ''a:b''\<rparr> =
   run_key \<lparr>cm_op = ''start'', cm_stream = ''b:c'', cm_tenant = t, cm_pipeline = ''a''\<rparr>"
  by (simp add: run_key_def)

subsection \<open>The chain keeps the tracks apart\<close>

text \<open>The bytes drawn along a stream give ids that no open track has.\<close>

fun fresh_run :: "tracker_config \<Rightarrow> ((nat \<Rightarrow> string) \<times> envelope) list \<Rightarrow> track_state list \<Rightarrow> bool" where
  "fresh_run cfg [] tracks = True"
| "fresh_run cfg ((rand, env) # fs) tracks =
     (fresh_ids rand (length (en_detections env)) tracks \<and> fresh_run cfg fs (snd (assign cfg rand (env, tracks))))"

lemma tracker_run_length [simp]: "length (tracker_run cfg fs tracks) = length fs"
  by (induction cfg fs tracks rule: tracker_run.induct) (auto split: prod.splits)

lemma tracker_run_distinct:
  assumes "tracker_ok cfg" "tracker_inv cfg tracks" "fresh_run cfg fs tracks"
  shows "\<forall>env \<in> set (tracker_run cfg fs tracks). distinct (map dt_track (en_detections env))"
  using assms
proof (induction cfg fs tracks rule: tracker_run.induct)
  case (2 cfg rand env fs tracks)
  obtain env' tracks' where a: "assign cfg rand (env, tracks) = (env', tracks')" by fastforce
  have "fresh_ids rand (length (en_detections env)) tracks" using 2 by simp
  from tracker_distinct [OF 2(2,3) this a] show ?case using 2 a by auto
qed simp

lemma tracked_inputs_distinct:
  assumes "tracker_ok cfg" "tracker_inv cfg tracks" "fresh_run cfg (map (\<lambda>(d, env). (dw_rand d, env)) fs) tracks"
  shows "\<forall>f \<in> set (tracked_inputs cfg fs tracks). distinct (tracked_ids (input_dets f))"
proof
  fix f assume "f \<in> set (tracked_inputs cfg fs tracks)"
  then have "snd (snd f) \<in> set (tracker_run cfg (map (\<lambda>(d, env). (dw_rand d, env)) fs) tracks)"
    by (auto simp: tracked_inputs_def dest: set_zip_rightD)
  then have "distinct (map dt_track (en_detections (snd (snd f))))" using tracker_run_distinct [OF assms] by blast
  then show "distinct (tracked_ids (input_dets f))" by (simp add: tracked_ids_def input_dets_def)
qed

lemma runner_tracker_ok: "tracker_ok runner_tracker"
proof -
  have b: "prec f32 = 24" "emin f32 = - 126" "emax f32 = 127" by (simp_all add: f32_def)
  have "fl_round f32 (1 / 10) = Fin (rnd f32 (1 / 10))"
    by (rule fl_round_bounded(1) [where k = 0]) (simp_all add: b)
  moreover have "(0 :: rat) < rnd f32 (1 / 10)"
  proof -
    have "rnd f32 (2 powi (- 4)) = (2 powi (- 4) :: rat)" by (rule rnd_powi) (simp_all add: b)
    moreover have "rnd f32 (2 powi (- 4)) \<le> rnd f32 (1 / 10)" by (rule rnd_mono) (simp_all add: b power_int_minus)
    moreover have "(0 :: rat) < 2 powi (- 4)" by (rule powi2_pos)
    ultimately show ?thesis by linarith
  qed
  ultimately show ?thesis by (simp add: tracker_ok_def runner_tracker_def new_tracker_def fl_le_def Let_def)
qed

lemma tracker_inv_empty: "tracker_inv cfg []"
  by (simp add: tracker_inv_def)

subsection \<open>Frames behind the ring\<close>

lemma ingest_loop_ring:
  assumes "ring_inv c name hist r" "length hist + length ticks < 2 ^ 63" "ic_total cfg \<le> 0" "0 \<le> sq" "sq + int (length ticks) < 2 ^ 63"
  shows "\<exists>envs r'. ingest_loop cfg marshal sq ticks r = Some (envs, r') \<and>
    ring_inv c name (hist @ map (\<lambda>j. marshal (walk_pattern (sq + int j))) [0 ..< length ticks]) r' \<and> length envs = length ticks \<and>
    (\<forall>j < length ticks. get_locator (en_descriptor (envs ! j)) = encode_locator (behind c name (length hist + j)) \<and>
       fd_seq (en_descriptor (envs ! j)) = sq + int j \<and> fd_capture (en_descriptor (envs ! j)) = Some (ticks ! j) \<and>
       fd_stream (en_descriptor (envs ! j)) = ic_stream cfg \<and> fd_pipeline (en_descriptor (envs ! j)) = ic_pipeline cfg \<and>
       fd_attestations (en_descriptor (envs ! j)) = [] \<and> en_detections (envs ! j) = [])"
  using assms
proof (induction ticks arbitrary: hist r sq)
  case (Cons now ticks)
  have "length hist < 2 ^ 63" using Cons.prems(2) by simp
  from ring_put_inv [OF Cons.prems(1) this, of "marshal (walk_pattern sq)"] obtain r1 where
    r1: "ring_put (marshal (walk_pattern sq)) r = Some (behind c name (length hist), r1)" "ring_inv c name (hist @ [marshal (walk_pattern sq)]) r1"
    unfolding behind_def by blast
  obtain env where f: "ingest_frame cfg marshal sq now r = Some (env, r1)"
    "get_locator (en_descriptor env) = encode_locator (behind c name (length hist))" "fd_seq (en_descriptor env) = sq"
    "fd_capture (en_descriptor env) = Some now" "fd_stream (en_descriptor env) = ic_stream cfg" "fd_pipeline (en_descriptor env) = ic_pipeline cfg"
    "fd_attestations (en_descriptor env) = []" "en_detections env = []"
    using r1(1) by (simp add: ingest_frame_def get_locator_def)
  have "in_i64 (sq + 1)" using Cons.prems(4,5) by (simp add: in_i64_def)
  then have i: "i64 (sq + 1) = sq + 1" by (rule i64_id)
  have p: "length (hist @ [marshal (walk_pattern sq)]) + length ticks < 2 ^ 63" "0 \<le> sq + 1" "sq + 1 + int (length ticks) < 2 ^ 63"
    using Cons.prems(2,4,5) by simp_all
  from Cons.IH [OF r1(2) p(1) Cons.prems(3) p(2,3)] obtain envs r' where
    rest: "ingest_loop cfg marshal (sq + 1) ticks r1 = Some (envs, r')"
    and inv: "ring_inv c name ((hist @ [marshal (walk_pattern sq)]) @ map (\<lambda>j. marshal (walk_pattern (sq + 1 + int j))) [0 ..< length ticks]) r'"
    and len: "length envs = length ticks"
    and each: "\<And>j. j < length ticks \<Longrightarrow> get_locator (en_descriptor (envs ! j)) = encode_locator (behind c name (length (hist @ [marshal (walk_pattern sq)]) + j)) \<and>
       fd_seq (en_descriptor (envs ! j)) = sq + 1 + int j \<and> fd_capture (en_descriptor (envs ! j)) = Some (ticks ! j) \<and>
       fd_stream (en_descriptor (envs ! j)) = ic_stream cfg \<and> fd_pipeline (en_descriptor (envs ! j)) = ic_pipeline cfg \<and>
       fd_attestations (en_descriptor (envs ! j)) = [] \<and> en_detections (envs ! j) = []"
    by (elim exE conjE) blast
  have hist: "(hist @ [marshal (walk_pattern sq)]) @ map (\<lambda>j. marshal (walk_pattern (sq + 1 + int j))) [0 ..< length ticks] =
      hist @ map (\<lambda>j. marshal (walk_pattern (sq + int j))) [0 ..< length (now # ticks)]"
  proof -
    have "[0 ..< length (now # ticks)] = 0 # map Suc [0 ..< length ticks]" by (simp add: map_Suc_upt upt_conv_Cons del: upt_Suc)
    then show ?thesis by (simp add: comp_def algebra_simps)
  qed
  show ?case
  proof (intro exI conjI allI impI)
    show "ingest_loop cfg marshal sq (now # ticks) r = Some (env # envs, r')"
      using f(1) rest i Cons.prems(3) by simp
    show "ring_inv c name (hist @ map (\<lambda>j. marshal (walk_pattern (sq + int j))) [0 ..< length (now # ticks)]) r'"
      using inv unfolding hist .
  next
    fix j assume "j < length (now # ticks)"
    then show "get_locator (en_descriptor ((env # envs) ! j)) = encode_locator (behind c name (length hist + j))"
      "fd_seq (en_descriptor ((env # envs) ! j)) = sq + int j" "fd_capture (en_descriptor ((env # envs) ! j)) = Some ((now # ticks) ! j)"
      "fd_stream (en_descriptor ((env # envs) ! j)) = ic_stream cfg" "fd_pipeline (en_descriptor ((env # envs) ! j)) = ic_pipeline cfg"
      "fd_attestations (en_descriptor ((env # envs) ! j)) = []" "en_detections ((env # envs) ! j) = []"
      using f each [of "j - 1"] by (cases j; simp add: algebra_simps)+
  qed (simp add: len)
qed simp

definition expected_detection :: "ingest_config \<Rightarrow> int \<Rightarrow> time \<Rightarrow> frame_detection" where
  "expected_detection cfg sq now =
     (let t = walk_pattern sq in
      \<lparr>dt_tenant = [], dt_pipeline = ic_pipeline cfg, dt_stream = ic_stream cfg, dt_seq = sq, dt_capture = Some now,
       dt_model = ''synthetic-detector'', dt_model_version = ''v1'', dt_class = ''person'', dt_score = sy_score t,
       dt_box = Some \<lparr>bb_x = sy_x t, bb_y = sy_y t, bb_w = sy_w t, bb_h = sy_h t\<rparr>, dt_track = []\<rparr>)"

lemma walk_class: "sy_class (walk_pattern sq) = ''person''"
  by (simp add: walk_pattern_def)

subsection \<open>Events of the chain\<close>

text \<open>Every event that a rule adds names the rule's tenant and the frame's stream and pipeline.\<close>

definition event_of :: "spatial_rule \<Rightarrow> descriptor \<Rightarrow> frame_event \<Rightarrow> bool" where
  "event_of rule d e \<longleftrightarrow> fe_tenant e = sr_tenant rule \<and> fe_rule e = sr_id rule \<and> fe_stream e = fd_stream d \<and> fe_pipeline e = fd_pipeline d"

lemma scan_events:
  "fold (scan_det stamp now rule d) dets (evs, ins) = (evs', ins') \<Longrightarrow> (\<forall>e \<in> set evs. event_of rule d e) \<Longrightarrow> \<forall>e \<in> set evs'. event_of rule d e"
proof (induction dets arbitrary: evs ins)
  case (Cons det dets)
  obtain evs1 ins1 where 1: "scan_det stamp now rule d det (evs, ins) = (evs1, ins1)" by fastforce
  then have "\<forall>e \<in> set evs1. event_of rule d e"
    using Cons.prems(2) by (auto simp: scan_det_def Let_def event_of_def build_frame_event_def split: if_splits option.splits)
  then show ?case using Cons 1 by simp
qed simp

lemma rule_run_events:
  assumes "\<forall>f \<in> set fs. en_events (snd (snd f)) = []"
  shows "\<forall>env \<in> set (rule_run [rule] fs ins). \<forall>e \<in> set (en_events env). fe_tenant e = sr_tenant rule \<and> fe_rule e = sr_id rule"
  using assms
proof (induction "[rule]" fs ins rule: rule_run.induct)
  case (2 clock stamp env fs ins)
  from evaluate_scan [of rule clock stamp env ins] obtain env' ins' new where
    ev: "evaluate [rule] clock stamp (env, ins) = (env', ins')" "en_events env' = en_events env @ new"
      "fold (scan_det stamp (frame_now clock env) rule (en_descriptor env)) (en_detections env) (en_events env, ins) = (en_events env @ new, ins')" by blast
  have "\<forall>e \<in> set (en_events env'). event_of rule (en_descriptor env) e"
    using scan_events [OF ev(3)] 2(2) ev(2) by simp
  then show ?case using 2 ev(1) by (auto simp: event_of_def)
qed simp

lemma assign_events: "assign cfg rand (env, tracks) = (env', tracks') \<Longrightarrow> en_events env' = en_events env"
proof -
  assume a: "assign cfg rand (env, tracks) = (env', tracks')"
  have "en_events (fst (fold (assign_one cfg rand) xs st)) = en_events (fst st)" for xs st
    by (induction xs arbitrary: st) (auto simp: assign_one_def Let_def split: option.splits prod.splits)
  from this [of "[0 ..< length (en_detections env)]" "(env, tracks, replicate (length tracks) False)"] a show ?thesis
    by (auto simp: assign_def split: prod.splits)
qed

lemma tracker_run_events:
  "\<forall>f \<in> set fs. en_events (snd f) = [] \<Longrightarrow> \<forall>env \<in> set (tracker_run cfg fs tracks). en_events env = []"
proof (induction cfg fs tracks rule: tracker_run.induct)
  case (2 cfg rand env fs tracks)
  obtain env' tracks' where a: "assign cfg rand (env, tracks) = (env', tracks')" by fastforce
  then show ?case using 2 assign_events [OF a] by auto
qed simp

lemma chain_events:
  assumes "\<forall>f \<in> set fs. en_events (snd f) = []" "env \<in> set (chain_rule cmd fs)" "e \<in> set (en_events env)"
  shows "fe_tenant e = cm_tenant cmd"
proof -
  have "\<forall>f \<in> set (tracked_inputs runner_tracker fs []). en_events (snd (snd f)) = []"
  proof
    fix f assume "f \<in> set (tracked_inputs runner_tracker fs [])"
    then have "snd (snd f) \<in> set (tracker_run runner_tracker (map (\<lambda>(d, env). (dw_rand d, env)) fs) [])"
      by (auto simp: tracked_inputs_def dest: set_zip_rightD)
    moreover have "\<forall>f \<in> set (map (\<lambda>(d, env). (dw_rand d, env)) fs). en_events (snd f) = []" using assms(1) by auto
    ultimately show "en_events (snd (snd f)) = []" using tracker_run_events by blast
  qed
  from rule_run_events [OF this, of "runner_rule cmd" "[]"] assms(2,3) have "fe_tenant e = sr_tenant (runner_rule cmd)"
    unfolding chain_rule_def by blast
  then show ?thesis by (simp add: runner_rule_def)
qed

lemma chain_message:
  assumes "m \<in> set (chain_messages marshal cmd fs)"
  shows "bm_subject m = ''events.v1'' \<and> (\<exists>env \<in> set (chain_rule cmd fs). \<exists>e \<in> set (en_events env). bm_headers m = emit_headers e)"
proof -
  from assms obtain d env where f: "(d, env) \<in> set (zip (map fst fs) (chain_rule cmd fs))" "m \<in> set (fst (emit_frame marshal [] (dw_emit d) env))"
    by (auto simp: chain_messages_def)
  then have "env \<in> set (chain_rule cmd fs)" by (auto dest: set_zip_rightD)
  moreover from f(2) obtain e where "e \<in> set (en_events env)" "bm_headers m = emit_headers e" "bm_subject m = ''events.v1''"
    by (auto simp: emit_frame_def emit_events_spec)
  ultimately show ?thesis by blast
qed

lemma emit_headers_get:
  "header_get (emit_headers e) ''tenant'' = fe_tenant e" "header_get (emit_headers e) ''tenant_id'' = []"
  by (simp_all add: emit_headers_def header_get_def)

subsection \<open>Properties\<close>

text \<open>
  C26: Whatever commands a runner handles and whichever runs end by themselves in between, there is at most one live run under a key
  (the text \<open>pipeline:stream\<close>), and there is one exactly when a start was not followed by a stop and the run that it made has
  not ended by itself. Repeated starts and stops change nothing. A run that ended by itself is not replaced: starts are ignored
  until a stop clears the key.
\<close>

theorem runner_reconciles:
  "card (live_runs k (fold runner_event_step es new_runner)) = (if key_history k es = Live then 1 else 0)"
proof -
  have "ended_ok new_runner" by (simp add: ended_ok_def new_runner_def)
  moreover have "key_state_of k new_runner = Idle" by (simp add: key_state_of_def new_runner_def)
  ultimately show ?thesis
    using runner_events_history [OF runner_inv_start, of es k] live_runs_running by (simp add: key_history_def)
qed

text \<open>C15: A frame that ingest wrote to the ring of its stream is detected, with the coordinates of its target, exactly as long as fewer
than a capacity of frames were written after it; a detector that lags further drops the frame, and never sees another frame's payload.\<close>

theorem frame_detected_iff_recent:
  assumes "new_claim_ring name capacity = Inr r" "CHR '':'' \<notin> set name" "capacity < 2 ^ 63" "ic_total cfg \<le> 0" "length ticks < 2 ^ 63"
    "\<forall>j < length ticks. \<exists>body. marshal (walk_pattern (int j)) = Some body \<and> unmarshal body = Inr (walk_pattern (int j))"
  shows "\<exists>envs r'. ingest_loop cfg marshal 0 ticks r = Some (envs, r') \<and> length envs = length ticks \<and>
    (\<forall>j < length ticks. detect_frame (synthetic_detect unmarshal) r' (envs ! j) =
       (if int (length ticks) \<le> int j + capacity
        then Some ((envs ! j)\<lparr>en_detections := [expected_detection cfg (int j) (ticks ! j)]\<rparr>) else None))"
proof -
  have cap: "0 < capacity" using assms(1) by (simp add: new_claim_ring_def split: if_splits)
  have ticks: "length [] + length ticks < 2 ^ 63" "0 + int (length ticks) < 2 ^ 63" using assms(5) by simp_all
  let ?c = "nat capacity" and ?hist = "map (\<lambda>j. marshal (walk_pattern (int j))) [0 ..< length ticks]"
  from ingest_loop_ring [OF new_claim_ring_inv [OF assms(1)] ticks(1) assms(4) order_refl ticks(2), of marshal]
  obtain envs r' where run: "ingest_loop cfg marshal 0 ticks r = Some (envs, r')" and inv: "ring_inv ?c name ?hist r'" and len: "length envs = length ticks"
    and each: "\<And>j. j < length ticks \<Longrightarrow> get_locator (en_descriptor (envs ! j)) = encode_locator (behind ?c name j) \<and>
       fd_seq (en_descriptor (envs ! j)) = int j \<and> fd_capture (en_descriptor (envs ! j)) = Some (ticks ! j) \<and>
       fd_stream (en_descriptor (envs ! j)) = ic_stream cfg \<and> fd_pipeline (en_descriptor (envs ! j)) = ic_pipeline cfg \<and>
       fd_attestations (en_descriptor (envs ! j)) = [] \<and> en_detections (envs ! j) = []"
    by (elim exE conjE) simp
  have "detect_frame (synthetic_detect unmarshal) r' (envs ! j) =
       (if int (length ticks) \<le> int j + capacity
        then Some ((envs ! j)\<lparr>en_detections := [expected_detection cfg (int j) (ticks ! j)]\<rparr>) else None)" if j: "j < length ticks" for j
  proof -
    from assms(6) j obtain body where body: "marshal (walk_pattern (int j)) = Some body" "unmarshal body = Inr (walk_pattern (int j))" by blast
    have parse: "parse_locator (get_locator (en_descriptor (envs ! j))) = Inr (behind ?c name j)"
      using behind_roundtrip [OF assms(2), of ?c j] each [OF j] cap assms(3) by simp
    have get: "ring_get (behind ?c name j) r' = (if length ticks \<le> j + ?c then Inr body else Inl Stale)"
      using ring_get_inv [OF inv, of j name] j assms(5) body(1) by (simp add: behind_def)
    have det: "synthetic_detect unmarshal (en_descriptor (envs ! j)) body = Inr [expected_detection cfg (int j) (ticks ! j)]"
      using each [OF j] body(2) by (simp add: synthetic_detect_def expected_detection_def extract_tenant_def walk_class Let_def)
    have "int (length ticks) \<le> int j + capacity \<longleftrightarrow> length ticks \<le> j + ?c" using cap by linarith
    then show ?thesis using parse get det each [OF j] by (simp add: detect_frame_def)
  qed
  then show ?thesis using run len by blast
qed

text \<open>C10: The tracker and the rule of a runner's chain compose: along any stream of frames whose new tracks draw unused ids, an
event for a track is emitted at a frame exactly when the track, as the tracker follows it, has just been inside the zone for two
seconds of its stay, once for every stay.\<close>

theorem chain_fires_once_per_stay:
  assumes "fresh_run runner_tracker (map (\<lambda>(d, env). (dw_rand d, env)) fs) []" "n < length fs" "t \<noteq> []"
  defines "ins \<equiv> tracked_inputs runner_tracker fs []"
  shows "length (filter (\<lambda>e. fe_track e = t) (added_events (ins ! n) (chain_rule cmd fs ! n))) =
    (if \<exists>m. open_stay (\<lambda>i. observed (runner_rule cmd) (input_dets (ins ! i)) t) m n \<and>
          due (2 * second) (\<lambda>i. input_time (ins ! i)) (\<lambda>i. observed (runner_rule cmd) (input_dets (ins ! i)) t) m n \<and>
          (\<forall>j. m < j \<and> j < n \<longrightarrow> \<not> due (2 * second) (\<lambda>i. input_time (ins ! i)) (\<lambda>i. observed (runner_rule cmd) (input_dets (ins ! i)) t) m j)
     then 1 else 0)"
proof -
  have "\<forall>f \<in> set ins. distinct (tracked_ids (input_dets f))"
    unfolding ins_def by (rule tracked_inputs_distinct [OF runner_tracker_ok tracker_inv_empty assms(1)])
  moreover have "n < length ins" using assms(2) by (simp add: ins_def tracked_inputs_def)
  moreover have "sr_dwell (runner_rule cmd) = 2 * second" by (simp add: runner_rule_def)
  ultimately show ?thesis using dwell_rule_fires [of ins n t "runner_rule cmd"] assms(3) by (simp add: chain_rule_def ins_def)
qed

text \<open>C19: No event of the data plane is ever billed: the messages that a runner's chain publishes on the events subject carry the
tenant in a header that the metering consumer does not read, so every subscription of metering ignores them.\<close>

theorem data_plane_events_are_never_billed:
  assumes "\<forall>f \<in> set fs. en_events (snd f) = []" "m \<in> set (chain_messages marshal cmd fs)"
  shows "bm_subject m = ''events.v1'' \<and> header_get (bm_headers m) ''tenant'' = cm_tenant cmd \<and>
    billable de s m = None \<and> Metering.handle de inc rng ans max_buffered s m bd = bd"
proof -
  from chain_message [OF assms(2)] obtain env e where m: "bm_subject m = ''events.v1''"
    "env \<in> set (chain_rule cmd fs)" "e \<in> set (en_events env)" "bm_headers m = emit_headers e" by blast
  have "billable de s m = None" by (simp add: billable_def m(4) emit_headers_get)
  then show ?thesis using m chain_events [OF assms(1) m(2,3)] by (simp add: Metering.handle_def emit_headers_get)
qed

subsection \<open>Witnesses\<close>

lemma frame_detected_iff_recent_witness:
  "\<exists>r envs r'. new_claim_ring ''s'' 1 = Inr r \<and>
     ingest_loop \<lparr>ic_stream = ''s'', ic_pipeline = ''p'', ic_width = 640, ic_height = 360, ic_total = 0\<rparr>
       (\<lambda>t. Some (if t = walk_pattern 0 then ''a'' else ''b'')) 0 [10, 20] r = Some (envs, r') \<and>
     detect_frame (synthetic_detect (\<lambda>s. Inr (if s = ''a'' then walk_pattern 0 else walk_pattern 1))) r' (envs ! 0) = None \<and>
     detect_frame (synthetic_detect (\<lambda>s. Inr (if s = ''a'' then walk_pattern 0 else walk_pattern 1))) r' (envs ! 1) \<noteq> None"
proof -
  let ?cfg = "\<lparr>ic_stream = ''s'', ic_pipeline = ''p'', ic_width = 640, ic_height = 360, ic_total = 0\<rparr>"
    and ?m = "\<lambda>t. Some (if t = walk_pattern 0 then ''a'' else ''b'')" and ?u = "\<lambda>s. Inr (if s = ''a'' then walk_pattern 0 else walk_pattern 1)"
  obtain r where r: "new_claim_ring ''s'' 1 = Inr r" by (simp add: new_claim_ring_def)
  have round: "\<forall>j < length [10, 20 :: time]. \<exists>body. ?m (walk_pattern (int j)) = Some body \<and> ?u body = Inr (walk_pattern (int j))"
    by (auto simp: less_Suc_eq)
  from frame_detected_iff_recent [where cfg = ?cfg and ticks = "[10, 20]" and marshal = ?m and unmarshal = ?u, OF r _ _ _ _ round]
  obtain envs r' where run: "ingest_loop ?cfg ?m 0 [10, 20] r = Some (envs, r')"
    and each: "\<forall>j < length [10, 20 :: time]. detect_frame (synthetic_detect ?u) r' (envs ! j) =
       (if int (length [10, 20 :: time]) \<le> int j + 1
        then Some ((envs ! j)\<lparr>en_detections := [expected_detection ?cfg (int j) ([10, 20] ! j)]\<rparr>) else None)" by auto
  show ?thesis using r run each [rule_format, of 0] each [rule_format, of 1] by (intro exI [of _ r] exI [of _ envs] exI [of _ r']) simp
qed

text \<open>A target that stays in the zone: its coordinates are multiples of 1/64, which \<open>float32\<close> holds exactly.\<close>

lemma f32_64:
  assumes "0 \<le> m" "m < 2 ^ 16"
  shows "fl_round f32 (of_int m / 64) = Fin (of_int m / 64)"
proof (cases "m = 0")
  case False
  then have pos: "(0 :: rat) < of_int m / 64" using assms(1) by simp
  have k: "(2 :: rat) powi (- 6) = 1 / 64" by (simp add: power_int_minus)
  have "(of_int m :: rat) < 2 ^ 16" using assms(2) by (metis of_int_less_iff of_int_numeral of_int_power)
  then have lt: "(of_int m / 64 :: rat) < 2 powi 10" by simp
  have b: "prec f32 = 24" "emin f32 = - 126" "emax f32 = 127" by (simp_all add: f32_def)
  have "rnd f32 (of_int m / 64) = of_int m / 64"
    by (rule rnd_multiple [where m = m and k = "- 6"]) (use ilog2_less [OF pos lt] pos k b in auto)
  moreover have "fl_round f32 (of_int m / 64) = Fin (rnd f32 (of_int m / 64))"
    by (rule fl_round_bounded(1) [where k = 10]) (use lt pos b in auto)
  ultimately show ?thesis by simp
qed (simp add: fl_round_def not_le)

lemma f32_values:
  "fl_round f32 0 = Fin 0" "fl_round f32 (1 / 16) = Fin (1 / 16)" "fl_round f32 (1 / 8) = Fin (1 / 8)" "fl_round f32 (1 / 4) = Fin (1 / 4)"
  "fl_round f32 (1 / 2) = Fin (1 / 2)" "fl_round f32 (5 / 8) = Fin (5 / 8)" "fl_round f32 (3 / 4) = Fin (3 / 4)" "fl_round f32 1 = Fin 1"
  using f32_64 [of 0] f32_64 [of 4] f32_64 [of 8] f32_64 [of 16] f32_64 [of 32] f32_64 [of 40] f32_64 [of 48] f32_64 [of 64] by simp_all

definition still_box :: bounding_box where
  "still_box = \<lparr>bb_x = Fin (1 / 2), bb_y = Fin 0, bb_w = Fin (1 / 4), bb_h = Fin (1 / 4)\<rparr>"

lemma still_iou: "iou (Some still_box) (Some still_box) = Fin 1"
  by (simp add: iou_def still_box_def max_f_def min_f_def fl_sub_def fl_le_def f32_values Let_def)

lemma still_inside: "zone_contains (sr_zone (runner_rule cmd)) (Some still_box)"
  by (simp add: zone_contains_def runner_rule_def still_box_def fl_le_def f32_values Let_def)

definition demo_draws :: "string \<Rightarrow> draws" where
  "demo_draws b = \<lparr>dw_rand = (\<lambda>i. b), dw_clock = 0, dw_stamp = demo_stamp, dw_emit = 0\<rparr>"

definition still_frames :: "(draws \<times> envelope) list" where
  "still_frames =
     [(demo_draws ''a'', demo_frame (10 * second) [demo_detection [] (Some still_box)]),
      (demo_draws ''b'', demo_frame (12 * second) [demo_detection [] (Some still_box)])]"

definition demo_command :: run_command where
  "demo_command = \<lparr>cm_op = ''start'', cm_stream = ''s'', cm_tenant = ''t'', cm_pipeline = ''p''\<rparr>"

lemma runner_threshold: "fl_le (tc_threshold runner_tracker) (Fin 1)"
proof -
  have b: "prec f32 = 24" "emin f32 = - 126" "emax f32 = 127" by (simp_all add: f32_def)
  have "fl_round f32 (1 / 10) = Fin (rnd f32 (1 / 10))" by (rule fl_round_bounded(1) [where k = 0]) (simp_all add: b)
  moreover have "rnd f32 (1 / 10) \<le> (1 :: rat)" using fl_round_bounded(2) [of f32 "1 / 10" 0] by (simp add: b)
  ultimately show ?thesis by (auto simp: runner_tracker_def new_tracker_def fl_le_def f32_values Let_def)
qed

lemma still_tracked:
  "fresh_run runner_tracker (map (\<lambda>(d, env). (dw_rand d, env)) still_frames) []"
  "tracked_inputs runner_tracker still_frames [] =
     map (\<lambda>now. (0, demo_stamp, (demo_frame now [demo_detection (new_track_id ''a'') (Some still_box)])
       \<lparr>en_tracks := [\<lparr>th_index = 0, th_track = new_track_id ''a''\<rparr>]\<rparr>)) [10 * second, 12 * second]"
proof -
  have max: "0 \<le> tc_max_missing runner_tracker" using runner_tracker_ok by (simp add: tracker_ok_def)
  have first: "assign runner_tracker (\<lambda>i. ''a'') (demo_frame 10000000000 [demo_detection [] (Some still_box)], []) =
      ((demo_frame 10000000000 [demo_detection (new_track_id ''a'') (Some still_box)])\<lparr>en_tracks := [\<lparr>th_index = 0, th_track = new_track_id ''a''\<rparr>]\<rparr>,
       [\<lparr>tk_id = new_track_id ''a'', tk_class = ''person'', tk_box = Some still_box, tk_missed = 0\<rparr>])"
    using max by (simp add: assign_def assign_one_def best_track_def age_out_def demo_frame_def demo_detection_def Let_def)
  have second: "assign runner_tracker (\<lambda>i. ''b'') (demo_frame 12000000000 [demo_detection [] (Some still_box)],
        [\<lparr>tk_id = new_track_id ''a'', tk_class = ''person'', tk_box = Some still_box, tk_missed = 0\<rparr>]) =
      ((demo_frame 12000000000 [demo_detection (new_track_id ''a'') (Some still_box)])\<lparr>en_tracks := [\<lparr>th_index = 0, th_track = new_track_id ''a''\<rparr>]\<rparr>,
       [\<lparr>tk_id = new_track_id ''a'', tk_class = ''person'', tk_box = Some still_box, tk_missed = 0\<rparr>])"
    using max runner_threshold
    by (simp add: assign_def assign_one_def best_track_def better_def age_out_def demo_frame_def demo_detection_def still_iou Let_def)
  show "fresh_run runner_tracker (map (\<lambda>(d, env). (dw_rand d, env)) still_frames) []"
  proof -
    have "new_track_id ''b'' \<noteq> new_track_id ''a''" by (simp add: new_track_id_def hex_string_def hex_char_def digit_char_def)
    moreover have "en_detections (demo_frame now ds) = ds" for now ds by (simp add: demo_frame_def)
    ultimately show ?thesis by (simp add: still_frames_def demo_draws_def first fresh_ids_def)
  qed
  show "tracked_inputs runner_tracker still_frames [] =
     map (\<lambda>now. (0, demo_stamp, (demo_frame now [demo_detection (new_track_id ''a'') (Some still_box)])
       \<lparr>en_tracks := [\<lparr>th_index = 0, th_track = new_track_id ''a''\<rparr>]\<rparr>)) [10 * second, 12 * second]"
    by (simp add: tracked_inputs_def still_frames_def demo_draws_def first second)
qed

lemma still_stay:
  "\<exists>m. open_stay (\<lambda>i. observed (runner_rule demo_command) (input_dets (tracked_inputs runner_tracker still_frames [] ! i)) (new_track_id ''a'')) m 1 \<and>
     due (2 * second) (\<lambda>i. input_time (tracked_inputs runner_tracker still_frames [] ! i))
       (\<lambda>i. observed (runner_rule demo_command) (input_dets (tracked_inputs runner_tracker still_frames [] ! i)) (new_track_id ''a'')) m 1 \<and>
     (\<forall>j. m < j \<and> j < 1 \<longrightarrow> \<not> due (2 * second) (\<lambda>i. input_time (tracked_inputs runner_tracker still_frames [] ! i))
       (\<lambda>i. observed (runner_rule demo_command) (input_dets (tracked_inputs runner_tracker still_frames [] ! i)) (new_track_id ''a'')) m j)"
proof -
  let ?ins = "tracked_inputs runner_tracker still_frames []" and ?t = "new_track_id ''a''"
  let ?obs = "\<lambda>i. observed (runner_rule demo_command) (input_dets (?ins ! i)) ?t" and ?now = "\<lambda>i. input_time (?ins ! i)"
  have obs: "?obs 0 = Some True" "?obs 1 = Some True"
    unfolding still_tracked(2) by (simp_all add: observed_def input_dets_def demo_frame_def demo_detection_def still_inside)
  have now: "?now 0 = 10 * second" "?now 1 = 12 * second"
    unfolding still_tracked(2) by (simp_all add: input_time_def frame_now_def demo_frame_def as_time_def is_zero_def)
  have "open_stay ?obs 0 1" using obs by (simp add: open_stay_def)
  moreover have "due (2 * second) ?now ?obs 0 1" unfolding due_def now using obs by (simp add: time_sub_def)
  ultimately show ?thesis by (intro exI [of _ 0]) simp
qed

lemma still_lengths: "1 < length still_frames" "new_track_id b \<noteq> []"
  by (simp_all add: still_frames_def new_track_id_def)

lemma chain_fires_once_per_stay_witness:
  "length (filter (\<lambda>e. fe_track e = new_track_id ''a'')
     (added_events (tracked_inputs runner_tracker still_frames [] ! 1) (chain_rule demo_command still_frames ! 1))) = 1"
  unfolding chain_fires_once_per_stay [OF still_tracked(1) still_lengths] using still_stay by simp

lemma data_plane_events_are_never_billed_witness:
  "\<exists>m \<in> set (chain_messages (\<lambda>e. Some ''ev'') demo_command still_frames). header_get (bm_headers m) ''tenant'' = ''t'' \<and>
     billable \<lparr>de_json = \<lambda>s. None, de_huge = \<lambda>x. 0\<rparr> (hd meter_subscriptions) m = None"
proof -
  let ?ins = "tracked_inputs runner_tracker still_frames []" and ?r = "runner_rule demo_command" and ?t = "new_track_id ''a''"
  have len: "1 < length ?ins" "length (chain_rule demo_command still_frames) = 2"
    by (simp_all only: chain_rule_def rule_run_length still_tracked(2)) simp_all
  have "sr_dwell ?r = 2 * second" by (simp add: runner_rule_def)
  then have "length (filter (\<lambda>e. fe_track e = ?t) (added_events (?ins ! 1) (chain_rule demo_command still_frames ! 1))) = 1"
    using dwell_rule_fires [OF tracked_inputs_distinct [OF runner_tracker_ok tracker_inv_empty still_tracked(1)] len(1) still_lengths(2), of "''a''" ?r] still_stay
    by (simp add: chain_rule_def)
  then obtain e where "e \<in> set (added_events (?ins ! 1) (chain_rule demo_command still_frames ! 1))"
    by (cases "added_events (?ins ! 1) (chain_rule demo_command still_frames ! 1)") auto
  then have e: "e \<in> set (en_events (chain_rule demo_command still_frames ! 1))" by (auto simp: added_events_def dest: in_set_dropD)
  have "(map fst still_frames ! 1, chain_rule demo_command still_frames ! 1) \<in> set (zip (map fst still_frames) (chain_rule demo_command still_frames))"
  proof -
    have l: "length (map fst still_frames) = 2" by (simp add: still_frames_def)
    have "zip (map fst still_frames) (chain_rule demo_command still_frames) ! 1 = (map fst still_frames ! 1, chain_rule demo_command still_frames ! 1)"
      by (rule nth_zip) (use l len in linarith)+
    moreover have "zip (map fst still_frames) (chain_rule demo_command still_frames) ! 1 \<in> set (zip (map fst still_frames) (chain_rule demo_command still_frames))"
      by (rule nth_mem) (use l len in \<open>simp only: length_zip min.idem\<close>)
    ultimately show ?thesis by (simp only:)
  qed
  then obtain m where m: "m \<in> set (chain_messages (\<lambda>e. Some ''ev'') demo_command still_frames)"
    using e unfolding chain_messages_def by (force simp: emit_frame_def emit_events_spec)
  have "\<forall>f \<in> set still_frames. en_events (snd f) = []" by (simp add: still_frames_def demo_frame_def)
  note all = data_plane_events_are_never_billed [OF this m]
  have "header_get (bm_headers m) ''tenant'' = cm_tenant demo_command" by (rule all [THEN conjunct2, THEN conjunct1])
  moreover have "billable \<lparr>de_json = \<lambda>s. None, de_huge = \<lambda>x. 0\<rparr> (hd meter_subscriptions) m = None"
    by (rule all [THEN conjunct2, THEN conjunct2, THEN conjunct1])
  ultimately show ?thesis by (intro bexI [OF _ m] conjI) (simp_all add: demo_command_def)
qed

end
