(* ===== verification/ModelRegistry.thy ===== *)
theory ModelRegistry
  imports Paging GoFloat
begin

section \<open>services/model-registry: models, versions and promotion\<close>

text \<open>
  Model of \<open>services/model-registry\<close>: the tables \<open>models\<close> and \<open>model_versions\<close> of \<open>internal/store/sql.go\<close> and the handlers
  of \<open>internal/service/service.go\<close>. Kinds and channels are the numbers of their enumerations, as the code stores what a request
  carries. JSON columns keep their values. The database refuses a statement only for a duplicate key; there is no
  foreign key between the tables. Names are ASCII.
\<close>

subsection \<open>Rows\<close>

abbreviation (input) channel_canary :: int where "channel_canary \<equiv> 1"
abbreviation (input) channel_stable :: int where "channel_stable \<equiv> 2"
abbreviation (input) kind_face :: int where "kind_face \<equiv> 9"

record model_row =
  mr_id :: string
  mr_tenant :: string
  mr_name :: string
  mr_kind :: int
  mr_family :: string
  mr_labels :: "string list"
  mr_audit :: audit_fields

record cost_profile =
  cp_gpu_sku :: string
  cp_mig_profile :: string
  cp_precision :: string
  cp_input_height :: int
  cp_input_width :: int
  cp_batch :: int
  cp_vram_bytes :: int
  cp_inference_ms :: fl
  cp_inference_ms_p95 :: fl
  cp_watts :: fl
  cp_verified :: bool

record version_row =
  mv_id :: string
  mv_model :: string
  mv_semver :: string
  mv_channel :: int
  mv_artifact :: string
  mv_signature :: string
  mv_sbom :: string
  mv_fairness :: string
  mv_profiles :: "cost_profile list"
  mv_audit :: audit_fields

record model_db =
  md_models :: "model_row list"
  md_versions :: "version_row list"

definition fresh_audit :: "time \<Rightarrow> audit_fields" where
  "fresh_audit now = \<lparr>au_created = now, au_updated = now, au_version = 1\<rparr>"

subsection \<open>The store\<close>

definition store_create_model :: "sql_driver \<Rightarrow> time \<Rightarrow> model_row \<Rightarrow> model_db \<Rightarrow> (store_error + model_row) \<times> model_db" where
  "store_create_model dr now m db =
     (let m1 = m\<lparr>mr_audit := fresh_audit now\<rparr> in
      if mr_id m \<in> mr_id ` set (md_models db) then (Inl (StoreError (dr_duplicate dr)), db)
      else (Inr m1, db\<lparr>md_models := md_models db @ [m1]\<rparr>))"

definition store_get_model :: "string \<Rightarrow> model_db \<Rightarrow> store_error + model_row" where
  "store_get_model i db = (case find (\<lambda>m. mr_id m = i) (md_models db) of None \<Rightarrow> Inl StoreNotFound | Some m \<Rightarrow> Inr m)"

definition model_fits :: "string \<Rightarrow> int \<Rightarrow> model_row \<Rightarrow> bool" where
  "model_fits tenant kind m \<longleftrightarrow> mr_tenant m = tenant \<and> (kind = 0 \<or> mr_kind m = kind)"

definition store_list_models :: "string \<Rightarrow> int \<Rightarrow> int \<Rightarrow> string \<Rightarrow> model_db \<Rightarrow> model_row list \<times> string" where
  "store_list_models tenant kind psize after db =
     query_page (model_fits tenant kind) mr_id (nat (if psize \<le> 0 then 50 else psize)) (md_models db) after"

text \<open>The encoder refuses a number that is not finite and the store ignores its error, so such a list of profiles is stored empty.\<close>

definition stored_profiles :: "cost_profile list \<Rightarrow> cost_profile list" where
  "stored_profiles ps =
     (if list_all (\<lambda>p. is_number (cp_inference_ms p) \<and> is_number (cp_inference_ms_p95 p) \<and> is_number (cp_watts p)) ps then ps else [])"

definition store_create_version :: "sql_driver \<Rightarrow> time \<Rightarrow> version_row \<Rightarrow> model_db \<Rightarrow> (store_error + version_row) \<times> model_db" where
  "store_create_version dr now v db =
     (let v1 = v\<lparr>mv_channel := (if mv_channel v = 0 then channel_canary else mv_channel v), mv_audit := fresh_audit now\<rparr> in
      if mv_id v \<in> mv_id ` set (md_versions db) \<or>
         (mv_model v, mv_semver v) \<in> (\<lambda>w. (mv_model w, mv_semver w)) ` set (md_versions db)
      then (Inl (StoreError (dr_duplicate dr)), db)
      else (Inr v1, db\<lparr>md_versions := md_versions db @ [v1\<lparr>mv_profiles := stored_profiles (mv_profiles v1)\<rparr>]\<rparr>))"

text \<open>The join of a version with its model.\<close>

definition version_and_kind :: "string \<Rightarrow> model_db \<Rightarrow> (version_row \<times> int) option" where
  "version_and_kind vid db =
     (case find (\<lambda>v. mv_id v = vid) (md_versions db) of
        None \<Rightarrow> None
      | Some v \<Rightarrow> map_option (\<lambda>m. (v, mr_kind m)) (find (\<lambda>m. mr_id m = mv_model v) (md_models db)))"

datatype promote_error = PromoteNotFound | NotVerified | NoFairnessEval

definition promote_version :: "time \<Rightarrow> string \<Rightarrow> int \<Rightarrow> model_db \<Rightarrow> (promote_error + version_row) \<times> model_db" where
  "promote_version now vid ch db =
     (case version_and_kind vid db of
        None \<Rightarrow> (Inl PromoteNotFound, db)
      | Some (v, kind) \<Rightarrow>
          if ch = channel_stable \<and> \<not> list_ex cp_verified (mv_profiles v) then (Inl NotVerified, db)
          else if ch = channel_stable \<and> kind = kind_face \<and> mv_fairness v = [] then (Inl NoFairnessEval, db)
          else
            let up = (\<lambda>w. w\<lparr>mv_channel := ch, mv_audit := (mv_audit w)\<lparr>au_version := i64 (au_version (mv_audit w) + 1), au_updated := now\<rparr>\<rparr>) in
            (Inr (up v), db\<lparr>md_versions := map (\<lambda>w. if mv_id w = vid then up w else w) (md_versions db)\<rparr>))"

subsection \<open>The handlers\<close>

definition slug :: "string \<Rightarrow> string" where
  "slug s = to_lower (map (\<lambda>c. if c = CHR '' '' \<or> c = CHR ''_'' then CHR ''-'' else c) s)"

record create_model_request =
  cr_tenant :: string
  cr_name :: string
  cr_kind :: int
  cr_family :: string
  cr_labels :: "string list"

definition create_model :: "sql_driver \<Rightarrow> string \<Rightarrow> time \<Rightarrow> create_model_request \<Rightarrow> model_db \<Rightarrow> (rpc_error + model_row) \<times> model_db" where
  "create_model dr bytes now req db =
     (if cr_name req = [] \<or> cr_tenant req = [] then (Inl (InvalidArgument ''tenant and name are required''), db)
      else
        let m = \<lparr>mr_id = ''model-'' @ slug (cr_name req) @ ''-'' @ hex_string bytes, mr_tenant = cr_tenant req, mr_name = cr_name req,
                 mr_kind = cr_kind req, mr_family = cr_family req, mr_labels = cr_labels req, mr_audit = fresh_audit 0\<rparr> in
        case store_create_model dr now m db of (Inl e, db1) \<Rightarrow> (Inl (Internal ''create'' e), db1) | (Inr m1, db1) \<Rightarrow> (Inr m1, db1))"

definition get_model :: "string \<Rightarrow> model_db \<Rightarrow> rpc_error + model_row" where
  "get_model i db =
     (if i = [] then Inl (InvalidArgument ''id is required'')
      else case store_get_model i db of
        Inl StoreNotFound \<Rightarrow> Inl (NotFound i)
      | Inl e \<Rightarrow> Inl (Internal ''lookup'' e)
      | Inr m \<Rightarrow> Inr m)"

record list_models_request =
  lm_tenant :: string
  lm_kind :: int
  lm_size :: int
  lm_token :: string

definition page_size_of :: "int \<Rightarrow> int" where
  "page_size_of n = (let ps = (if n \<le> 0 then 50 else n) in if 200 < ps then 200 else ps)"

definition list_models :: "list_models_request \<Rightarrow> model_db \<Rightarrow> rpc_error + (model_row list \<times> string)" where
  "list_models req db =
     (if lm_tenant req = [] then Inl (InvalidArgument ''tenant_id is required'')
      else Inr (store_list_models (lm_tenant req) (lm_kind req) (page_size_of (lm_size req)) (lm_token req) db))"

record create_version_request =
  cv_model :: string
  cv_semver :: string
  cv_artifact :: string
  cv_signature :: string
  cv_sbom :: string
  cv_fairness :: string
  cv_profiles :: "cost_profile list"

definition create_model_version :: "sql_driver \<Rightarrow> string \<Rightarrow> time \<Rightarrow> create_version_request \<Rightarrow> model_db \<Rightarrow> (rpc_error + version_row) \<times> model_db" where
  "create_model_version dr bytes now req db =
     (if cv_model req = [] \<or> cv_semver req = [] \<or> cv_artifact req = []
      then (Inl (InvalidArgument ''model_id, semver, artifact_uri are required''), db)
      else
        let v = \<lparr>mv_id = ''mv-'' @ hex_string bytes, mv_model = cv_model req, mv_semver = cv_semver req, mv_channel = channel_canary,
                 mv_artifact = cv_artifact req, mv_signature = cv_signature req, mv_sbom = cv_sbom req, mv_fairness = cv_fairness req,
                 mv_profiles = cv_profiles req, mv_audit = fresh_audit 0\<rparr> in
        case store_create_version dr now v db of (Inl e, db1) \<Rightarrow> (Inl (Internal ''create_version'' e), db1) | (Inr v1, db1) \<Rightarrow> (Inr v1, db1))"

definition promote_error_text :: "promote_error \<Rightarrow> string" where
  "promote_error_text e =
     (case e of
        PromoteNotFound \<Rightarrow> ''model version not found''
      | NotVerified \<Rightarrow> ''promote: STABLE requires at least one verified CostProfile (ADR-0003 + production lesson)''
      | NoFairnessEval \<Rightarrow> ''promote: face/person models require fairness_eval_uri (EU AI Act release gate)'')"

definition promote_model_version :: "time \<Rightarrow> string \<Rightarrow> int \<Rightarrow> model_db \<Rightarrow> (rpc_error + version_row) \<times> model_db" where
  "promote_model_version now vid ch db =
     (if vid = [] then (Inl (InvalidArgument ''model_version_id is required''), db)
      else case promote_version now vid ch db of
        (Inl PromoteNotFound, db1) \<Rightarrow> (Inl (NotFound vid), db1)
      | (Inl e, db1) \<Rightarrow> (Inl (Failed (promote_error_text e)), db1)
      | (Inr v, db1) \<Rightarrow> (Inr v, db1))"

subsection \<open>Operations in sequence\<close>

datatype registry_op =
    CreateModel string time create_model_request
  | CreateVersion string time create_version_request
  | Promote time string int

definition registry_step :: "sql_driver \<Rightarrow> registry_op \<Rightarrow> model_db \<Rightarrow> model_db" where
  "registry_step dr x db =
     (case x of
        CreateModel bytes now req \<Rightarrow> snd (create_model dr bytes now req db)
      | CreateVersion bytes now req \<Rightarrow> snd (create_model_version dr bytes now req db)
      | Promote now vid ch \<Rightarrow> snd (promote_model_version now vid ch db))"

definition empty_models :: model_db where "empty_models = \<lparr>md_models = [], md_versions = []\<rparr>"

subsection \<open>The release gate\<close>

definition model_of :: "model_db \<Rightarrow> version_row \<Rightarrow> model_row option" where
  "model_of db v = find (\<lambda>m. mr_id m = mv_model v) (md_models db)"

definition released_ok :: "model_db \<Rightarrow> version_row \<Rightarrow> bool" where
  "released_ok db v \<longleftrightarrow>
     (mv_channel v = channel_stable \<longrightarrow>
        list_ex cp_verified (mv_profiles v) \<and> (\<exists>m. model_of db v = Some m \<and> (mr_kind m = kind_face \<longrightarrow> mv_fairness v \<noteq> [])))"

definition registry_inv :: "model_db \<Rightarrow> bool" where
  "registry_inv db \<longleftrightarrow>
     primary_key mr_id (md_models db) \<and> primary_key mv_id (md_versions db) \<and>
     distinct (map (\<lambda>v. (mv_model v, mv_semver v)) (md_versions db)) \<and> (\<forall>v \<in> set (md_versions db). released_ok db v)"

lemma registry_inv_start: "registry_inv empty_models"
  by (simp add: registry_inv_def empty_models_def primary_key_def)

lemma find_append: "find P (xs @ ys) = (case find P xs of None \<Rightarrow> find P ys | Some x \<Rightarrow> Some x)"
  by (induction xs) auto

lemma model_of_grows: "model_of db v = Some m \<Longrightarrow> model_of (db\<lparr>md_models := md_models db @ ms\<rparr>) v = Some m"
  by (simp add: model_of_def find_append)

lemma create_model_inv: "registry_inv db \<Longrightarrow> registry_inv (snd (create_model dr bytes now req db))"
proof -
  assume inv: "registry_inv db"
  obtain r db1 where c: "create_model dr bytes now req db = (r, db1)" by fastforce
  then have "db1 = db \<or> (\<exists>m. db1 = db\<lparr>md_models := md_models db @ [m]\<rparr> \<and> mr_id m \<notin> mr_id ` set (md_models db) \<and> mr_id m \<noteq> [])"
    by (auto simp: create_model_def store_create_model_def Let_def split: if_splits)
  then show ?thesis
  proof
    assume "db1 = db"
    then show ?thesis using inv c by simp
  next
    assume "\<exists>m. db1 = db\<lparr>md_models := md_models db @ [m]\<rparr> \<and> mr_id m \<notin> mr_id ` set (md_models db) \<and> mr_id m \<noteq> []"
    then obtain m where m: "db1 = db\<lparr>md_models := md_models db @ [m]\<rparr>" "mr_id m \<notin> mr_id ` set (md_models db)" "mr_id m \<noteq> []" by blast
    have "released_ok db1 v" if "released_ok db v" for v
      using that model_of_grows [of db v _ "[m]"] unfolding released_ok_def m(1) by blast
    then show ?thesis using inv m c by (auto simp: registry_inv_def primary_key_def)
  qed
qed

lemma create_version_inv: "registry_inv db \<Longrightarrow> registry_inv (snd (create_model_version dr bytes now req db))"
proof -
  assume inv: "registry_inv db"
  obtain r db1 where c: "create_model_version dr bytes now req db = (r, db1)" by fastforce
  then have "db1 = db \<or> (\<exists>v. db1 = db\<lparr>md_versions := md_versions db @ [v]\<rparr> \<and> mv_id v \<notin> mv_id ` set (md_versions db) \<and> mv_id v \<noteq> [] \<and>
      (mv_model v, mv_semver v) \<notin> (\<lambda>w. (mv_model w, mv_semver w)) ` set (md_versions db) \<and> mv_channel v = channel_canary)"
    by (auto simp: create_model_version_def store_create_version_def Let_def split: if_splits)
  then show ?thesis
  proof
    assume "db1 = db"
    then show ?thesis using inv c by simp
  next
    assume "\<exists>v. db1 = db\<lparr>md_versions := md_versions db @ [v]\<rparr> \<and> mv_id v \<notin> mv_id ` set (md_versions db) \<and> mv_id v \<noteq> [] \<and>
      (mv_model v, mv_semver v) \<notin> (\<lambda>w. (mv_model w, mv_semver w)) ` set (md_versions db) \<and> mv_channel v = channel_canary"
    then obtain v where v: "db1 = db\<lparr>md_versions := md_versions db @ [v]\<rparr>" "mv_id v \<notin> mv_id ` set (md_versions db)" "mv_id v \<noteq> []"
      "(mv_model v, mv_semver v) \<notin> (\<lambda>w. (mv_model w, mv_semver w)) ` set (md_versions db)" "mv_channel v = channel_canary" by blast
    have "released_ok db1 w = released_ok db w" for w by (simp add: released_ok_def model_of_def v(1))
    moreover have "released_ok db v" using v(5) by (simp add: released_ok_def)
    ultimately show ?thesis using inv v c by (auto simp: registry_inv_def primary_key_def)
  qed
qed

lemma promote_inv: "registry_inv db \<Longrightarrow> registry_inv (snd (promote_model_version now vid ch db))"
proof -
  assume inv: "registry_inv db"
  have "snd (promote_model_version now vid ch db) = db \<or>
      (\<exists>v kind. version_and_kind vid db = Some (v, kind) \<and>
        (ch = channel_stable \<longrightarrow> list_ex cp_verified (mv_profiles v) \<and> (kind = kind_face \<longrightarrow> mv_fairness v \<noteq> [])) \<and>
        snd (promote_model_version now vid ch db) = snd (promote_version now vid ch db))"
    by (auto simp: promote_model_version_def promote_version_def Let_def split: option.splits if_splits)
  then show ?thesis
  proof (elim disjE exE conjE)
    assume "snd (promote_model_version now vid ch db) = db"
    then show ?thesis using inv by simp
  next
    fix v kind
    assume vk: "version_and_kind vid db = Some (v, kind)"
      and ok: "ch = channel_stable \<longrightarrow> list_ex cp_verified (mv_profiles v) \<and> (kind = kind_face \<longrightarrow> mv_fairness v \<noteq> [])"
      and s: "snd (promote_model_version now vid ch db) = snd (promote_version now vid ch db)"
    define up :: "version_row \<Rightarrow> version_row" where "up = (\<lambda>w. w\<lparr>mv_channel := ch, mv_audit := (mv_audit w)\<lparr>au_version := i64 (au_version (mv_audit w) + 1), au_updated := now\<rparr>\<rparr>)"
    define f where "f = (\<lambda>w. if mv_id w = vid then up w else w)"
    have db1: "snd (promote_version now vid ch db) = db\<lparr>md_versions := map f (md_versions db)\<rparr>"
      using ok vk by (auto simp: promote_version_def up_def f_def Let_def)
    have keys: "mv_id (f w) = mv_id w" "mv_model (f w) = mv_model w" "mv_semver (f w) = mv_semver w" for w by (simp_all add: f_def up_def)
    obtain m where m: "find (\<lambda>v. mv_id v = vid) (md_versions db) = Some v" "model_of db v = Some m" "kind = mr_kind m"
      using vk by (auto simp: version_and_kind_def model_of_def split: option.splits)
    have vin: "v \<in> set (md_versions db)" "mv_id v = vid" using m(1) by (auto simp: find_Some_iff)
    have "released_ok (db\<lparr>md_versions := map f (md_versions db)\<rparr>) (f w)" if w: "w \<in> set (md_versions db)" for w
    proof (cases "mv_id w = vid")
      case True
      then have "w = v" using inv w vin by (auto simp: registry_inv_def primary_key_def distinct_map inj_on_def)
      then show ?thesis using True ok m(2,3) by (simp add: released_ok_def f_def up_def model_of_def)
    next
      case False
      then show ?thesis using inv w by (simp add: registry_inv_def f_def released_ok_def model_of_def)
    qed
    then show ?thesis using inv unfolding s db1 registry_inv_def primary_key_def by (auto simp: comp_def keys)
  qed
qed

lemma registry_steps_inv: "registry_inv db \<Longrightarrow> registry_inv (fold (registry_step dr) xs db)"
proof (induction xs arbitrary: db)
  case (Cons x xs)
  have "registry_inv (registry_step dr x db)"
    using create_model_inv create_version_inv promote_inv Cons.prems by (simp add: registry_step_def split: registry_op.split)
  then show ?case using Cons.IH by simp
qed simp

subsection \<open>The listing keeps the contract\<close>

definition model_page :: "list_models_request \<Rightarrow> model_db \<Rightarrow> string \<Rightarrow> model_row list \<times> string" where
  "model_page req db after = (case list_models (req\<lparr>lm_token := after\<rparr>) db of Inr r \<Rightarrow> r | Inl _ \<Rightarrow> ([], []))"

lemma page_size_bounds: "1 \<le> page_size_of n" "page_size_of n \<le> 200"
  by (simp_all add: page_size_of_def Let_def)

lemma model_page_query:
  "lm_tenant req \<noteq> [] \<Longrightarrow>
   model_page req db after = query_page (model_fits (lm_tenant req) (lm_kind req)) mr_id (nat (page_size_of (lm_size req))) (md_models db) after"
  using page_size_bounds [of "lm_size req"] by (simp add: model_page_def list_models_def store_list_models_def)

interpretation mm: paged_listing "model_page req" "\<lambda>db. table_rows (model_fits (lm_tenant req) (lm_kind req)) mr_id (md_models db)" mr_id
  "\<lambda>db. primary_key mr_id (md_models db) \<and> lm_tenant req \<noteq> []" "\<lambda>_ _. True" for req
proof -
  have n: "0 < nat (page_size_of (lm_size req))" using page_size_bounds [of "lm_size req"] by simp
  show "paged_listing (model_page req) (\<lambda>db. table_rows (model_fits (lm_tenant req) (lm_kind req)) mr_id (md_models db)) mr_id
      (\<lambda>db. primary_key mr_id (md_models db) \<and> lm_tenant req \<noteq> []) (\<lambda>_ _. True)"
  proof (unfold_locales, goal_cases)
    case (1 db)
    then show ?case using table_rows_facts [of mr_id "md_models db" "model_fits (lm_tenant req) (lm_kind req)"] by blast
  next
    case (4 db after)
    then show ?case using query_page_laws(1) [OF _ n, of mr_id "md_models db" "model_fits (lm_tenant req) (lm_kind req)"] by (simp add: model_page_query)
  next
    case (5 db after)
    then show ?case using query_page_laws(2) [OF _ n, of mr_id "md_models db" "model_fits (lm_tenant req) (lm_kind req)"] by (simp add: model_page_query)
  next
    case (6 db after)
    then show ?case using query_page_laws(3) [OF _ n, of mr_id "md_models db" "model_fits (lm_tenant req) (lm_kind req)"] by (simp add: model_page_query)
  qed simp_all
qed

text \<open>Following the page tokens lists every model of the tenant and kind once, in the order of the ids.\<close>

lemma models_listed:
  "registry_inv db \<Longrightarrow> lm_tenant req \<noteq> [] \<Longrightarrow> length (md_models db) < n \<Longrightarrow>
   follow n (model_page req db) [] = Some (sort_key mr_id (filter (model_fits (lm_tenant req) (lm_kind req)) (md_models db)))"
  using mm.follow_all [of db req n] length_filter_le [of "model_fits (lm_tenant req) (lm_kind req)" "md_models db"]
  by (simp add: registry_inv_def table_rows_def)

subsection \<open>Properties\<close>

lemma released_version:
  assumes "registry_inv db" "v \<in> set (md_versions db)" "mv_channel v = channel_stable"
  shows "list_ex cp_verified (mv_profiles v) \<and>
    (\<exists>m \<in> set (md_models db). mr_id m = mv_model v \<and> (mr_kind m = kind_face \<longrightarrow> mv_fairness v \<noteq> [])) \<and>
    filter (\<lambda>w. mv_id w = mv_id v) (md_versions db) = [v]"
proof (intro conjI)
  have ok: "released_ok db v" using assms(1,2) by (simp add: registry_inv_def)
  then show "list_ex cp_verified (mv_profiles v)" using assms(3) by (simp add: released_ok_def)
  obtain m where "find (\<lambda>m. mr_id m = mv_model v) (md_models db) = Some m" "mr_kind m = kind_face \<longrightarrow> mv_fairness v \<noteq> []"
    using ok assms(3) by (auto simp: released_ok_def model_of_def)
  then show "\<exists>m \<in> set (md_models db). mr_id m = mv_model v \<and> (mr_kind m = kind_face \<longrightarrow> mv_fairness v \<noteq> [])"
    by (auto simp: find_Some_iff)
  have "distinct (map mv_id (md_versions db))" using assms(1) by (simp add: registry_inv_def primary_key_def)
  then show "filter (\<lambda>w. mv_id w = mv_id v) (md_versions db) = [v]" using assms(2) by (rule filter_key_single)
qed

text \<open>C20: The release gate holds in every state that the service reaches: a version is in the stable channel only if one of its
stored cost profiles is verified and its model exists and, for a face model, a fairness evaluation is on record; and the version
is the only row of its id.\<close>

theorem stable_versions_passed_the_gate:
  assumes "v \<in> set (md_versions (fold (registry_step dr) xs empty_models))" "mv_channel v = channel_stable"
  shows "list_ex cp_verified (mv_profiles v) \<and>
    (\<exists>m \<in> set (md_models (fold (registry_step dr) xs empty_models)).
       mr_id m = mv_model v \<and> (mr_kind m = kind_face \<longrightarrow> mv_fairness v \<noteq> [])) \<and>
    filter (\<lambda>w. mv_id w = mv_id v) (md_versions (fold (registry_step dr) xs empty_models)) = [v]"
  by (rule released_version [OF registry_steps_inv [OF registry_inv_start] assms])

definition gate_profile :: cost_profile where
  "gate_profile = \<lparr>cp_gpu_sku = ''l4'', cp_mig_profile = [], cp_precision = ''int8'', cp_input_height = 640, cp_input_width = 640, cp_batch = 1,
     cp_vram_bytes = 1, cp_inference_ms = Fin 4, cp_inference_ms_p95 = Fin 6, cp_watts = Fin 40, cp_verified = True\<rparr>"

definition gate_run :: "registry_op list" where
  "gate_run =
     [CreateModel ''a'' 1 \<lparr>cr_tenant = ''t'', cr_name = ''Face One'', cr_kind = kind_face, cr_family = [], cr_labels = []\<rparr>,
      CreateVersion ''b'' 2 \<lparr>cv_model = ''model-face-one-61'', cv_semver = ''1.0'', cv_artifact = ''s3'', cv_signature = [], cv_sbom = [],
        cv_fairness = ''f'', cv_profiles = [gate_profile]\<rparr>,
      Promote 3 ''mv-62'' channel_stable]"

definition gate_driver :: sql_driver where "gate_driver = \<lparr>dr_duplicate = ''duplicate'', dr_like = (\<lambda>_ _. False)\<rparr>"

definition gate_version :: version_row where
  "gate_version = \<lparr>mv_id = ''mv-62'', mv_model = ''model-face-one-61'', mv_semver = ''1.0'', mv_channel = channel_stable, mv_artifact = ''s3'',
     mv_signature = [], mv_sbom = [], mv_fairness = ''f'', mv_profiles = [gate_profile], mv_audit = \<lparr>au_created = 2, au_updated = 3, au_version = 2\<rparr>\<rparr>"

lemma gate_run_releases: "md_versions (fold (registry_step gate_driver) gate_run empty_models) = [gate_version]"
  by code_simp

lemma stable_versions_passed_the_gate_witness:
  "list_ex cp_verified (mv_profiles gate_version) \<and>
    (\<exists>m \<in> set (md_models (fold (registry_step gate_driver) gate_run empty_models)).
       mr_id m = mv_model gate_version) \<and>
    filter (\<lambda>w. mv_id w = mv_id gate_version) (md_versions (fold (registry_step gate_driver) gate_run empty_models)) = [gate_version]"
  using stable_versions_passed_the_gate [of gate_version gate_driver gate_run] gate_run_releases
  by (auto simp: gate_version_def)

text \<open>Without a verified profile the promotion is refused and nothing changes. A profile that the encoder refuses takes the whole
list with it, so it cannot be verified either.\<close>

lemma refused_promotion:
  assumes "vid \<noteq> []" "version_and_kind vid db = Some (v, kind)" "\<not> list_ex cp_verified (mv_profiles v)"
  shows "promote_model_version now vid channel_stable db = (Inl (Failed (promote_error_text NotVerified)), db)"
  using assms by (simp add: promote_model_version_def promote_version_def)

lemma unencodable_profiles_are_lost:
  "\<not> is_number (cp_watts p) \<Longrightarrow> p \<in> set ps \<Longrightarrow> stored_profiles ps = []"
  by (auto simp: stored_profiles_def list_all_iff)

end
