(* ===== verification/Hub.thy ===== *)
theory Hub
  imports EventRing Http Bus
begin

section \<open>services/realtime-hub: fan-out to connected clients\<close>

text \<open>
  Model of \<open>internal/hub/hub.go\<close>, of the subscription that the two transports of \<open>internal/server/server.go\<close> make, and of the
  bus handler of \<open>cmd/realtime-hub/main.go\<close>. Subscribers are shared by reference: \<open>hb_objs\<close> is the heap of \<open>Subscriber\<close> values
  and a pointer is an index into it; the map of the hub takes ids to pointers. The methods run concurrently, so each is
  split where it can be interrupted: at the atomic operations and at the regions that the lock of the hub protects. The
  read lock is held by every running \<open>Publish\<close>, so a step that takes the write lock waits until no publisher is running.
\<close>

subsection \<open>State\<close>

record hub_filter =
  hf_tenant :: string
  hf_stream :: string

record hub_sub =
  hs_id :: "64 word"
  hs_filter :: hub_filter
  hs_capacity :: nat
  hs_buf :: "event list"
  hs_flag :: bool
  hs_chan_closed :: bool

text \<open>A running \<open>Publish\<close>: the event, the subscribers that the range over the map has not reached, and the one whose checks it
has passed.\<close>

record publisher =
  pu_event :: event
  pu_todo :: "nat list"
  pu_sending :: "nat option"

record hub =
  hb_objs :: "hub_sub list"
  hb_subs :: "(64 word \<times> nat) list"
  hb_next :: "64 word"
  hb_dropped :: "64 word"
  hb_pubs :: "publisher list"
  hb_joining :: "nat list"
  hb_removing :: "nat list"
  hb_closing :: "nat list"
  hb_panic :: bool

text \<open>\<open>hb_joining\<close>, \<open>hb_removing\<close> and \<open>hb_closing\<close> hold the subscribers of the calls that are between two of their steps: before the
insertion into the map, before the deletion from it, before the channel is closed.\<close>

definition new_hub :: hub where
  "new_hub = \<lparr>hb_objs = [], hb_subs = [], hb_next = 0, hb_dropped = 0, hb_pubs = [], hb_joining = [], hb_removing = [], hb_closing = [],
     hb_panic = False\<rparr>"

definition upd_sub :: "nat \<Rightarrow> (hub_sub \<Rightarrow> hub_sub) \<Rightarrow> hub \<Rightarrow> hub" where
  "upd_sub p f h = h\<lparr>hb_objs := (hb_objs h)[p := f (hb_objs h ! p)]\<rparr>"

definition hub_matches :: "event \<Rightarrow> hub_filter \<Rightarrow> bool" where
  "hub_matches ev f \<longleftrightarrow> \<not> (hf_tenant f \<noteq> [] \<and> event_tenant ev \<noteq> hf_tenant f) \<and> \<not> (hf_stream f \<noteq> [] \<and> event_stream ev \<noteq> hf_stream f)"

subsection \<open>The steps of the methods\<close>

text \<open>\<open>Subscribe\<close>: the id and the channel; then the insertion, under the write lock.\<close>

definition hub_alloc :: "hub_filter \<Rightarrow> int \<Rightarrow> hub \<Rightarrow> hub" where
  "hub_alloc f capacity h =
     (let c = (if capacity \<le> 0 then 256 else capacity);
          s = \<lparr>hs_id = hb_next h + 1, hs_filter = f, hs_capacity = nat c, hs_buf = [], hs_flag = False, hs_chan_closed = False\<rparr> in
      h\<lparr>hb_next := hb_next h + 1, hb_objs := hb_objs h @ [s], hb_joining := length (hb_objs h) # hb_joining h\<rparr>)"

definition hub_insert :: "nat \<Rightarrow> hub \<Rightarrow> hub option" where
  "hub_insert p h =
     (if p \<in> set (hb_joining h) \<and> hb_pubs h = []
      then Some (h\<lparr>hb_subs := AList.update (hs_id (hb_objs h ! p)) p (hb_subs h), hb_joining := removeAll p (hb_joining h)\<rparr>) else None)"

text \<open>\<open>Unsubscribe\<close>: the swap of the flag, which ends a second call; the deletion, under the write lock; the close.\<close>

definition hub_mark :: "nat \<Rightarrow> hub \<Rightarrow> hub option" where
  "hub_mark p h =
     (if length (hb_objs h) \<le> p \<or> p \<in> set (hb_joining h) then None
      else if hs_flag (hb_objs h ! p) then Some h
      else Some ((upd_sub p (\<lambda>s. s\<lparr>hs_flag := True\<rparr>) h)\<lparr>hb_removing := p # hb_removing h\<rparr>))"

definition hub_delete :: "nat \<Rightarrow> hub \<Rightarrow> hub option" where
  "hub_delete p h =
     (if p \<in> set (hb_removing h) \<and> hb_pubs h = []
      then Some (h\<lparr>hb_subs := AList.delete (hs_id (hb_objs h ! p)) (hb_subs h), hb_removing := removeAll p (hb_removing h),
                   hb_closing := p # hb_closing h\<rparr>) else None)"

definition hub_close :: "nat \<Rightarrow> hub \<Rightarrow> hub option" where
  "hub_close p h =
     (if p \<notin> set (hb_closing h) then None
      else if hs_chan_closed (hb_objs h ! p) then Some (h\<lparr>hb_panic := True\<rparr>)
      else Some ((upd_sub p (\<lambda>s. s\<lparr>hs_chan_closed := True\<rparr>) h)\<lparr>hb_closing := removeAll p (hb_closing h)\<rparr>))"

text \<open>\<open>Publish\<close>: the start of the range over the map, in any order; the checks of one subscriber; the send, which panics on a closed
channel; the end.\<close>

definition hub_begin :: "event \<Rightarrow> nat list \<Rightarrow> hub \<Rightarrow> hub option" where
  "hub_begin ev order h =
     (if mset order = mset (map snd (hb_subs h))
      then Some (h\<lparr>hb_pubs := hb_pubs h @ [\<lparr>pu_event = ev, pu_todo = order, pu_sending = None\<rparr>]\<rparr>) else None)"

definition hub_visit :: "nat \<Rightarrow> hub \<Rightarrow> hub option" where
  "hub_visit i h =
     (if length (hb_pubs h) \<le> i then None
      else let u = hb_pubs h ! i in
        case (pu_sending u, pu_todo u) of
          (None, p # ps) \<Rightarrow>
            let s = hb_objs h ! p;
                next1 = (if hs_flag s then None else if hub_matches (pu_event u) (hs_filter s) then Some p else None) in
            Some (h\<lparr>hb_pubs := (hb_pubs h)[i := u\<lparr>pu_todo := ps, pu_sending := next1\<rparr>]\<rparr>)
        | _ \<Rightarrow> None)"

definition chan_send :: "event \<Rightarrow> nat \<Rightarrow> hub \<Rightarrow> hub" where
  "chan_send ev p h =
     (let s = hb_objs h ! p in
      if hs_chan_closed s then h\<lparr>hb_panic := True\<rparr>
      else if length (hs_buf s) < hs_capacity s then upd_sub p (\<lambda>s. s\<lparr>hs_buf := hs_buf s @ [ev]\<rparr>) h
      else h\<lparr>hb_dropped := hb_dropped h + 1\<rparr>)"

definition hub_send :: "nat \<Rightarrow> hub \<Rightarrow> hub option" where
  "hub_send i h =
     (if length (hb_pubs h) \<le> i then None
      else let u = hb_pubs h ! i in
        case pu_sending u of
          None \<Rightarrow> None
        | Some p \<Rightarrow> Some (chan_send (pu_event u) p (h\<lparr>hb_pubs := (hb_pubs h)[i := u\<lparr>pu_sending := None\<rparr>]\<rparr>)))"

definition hub_end :: "nat \<Rightarrow> hub \<Rightarrow> hub option" where
  "hub_end i h =
     (if i < length (hb_pubs h) \<and> pu_todo (hb_pubs h ! i) = [] \<and> pu_sending (hb_pubs h ! i) = None
      then Some (h\<lparr>hb_pubs := take i (hb_pubs h) @ drop (Suc i) (hb_pubs h)\<rparr>) else None)"

text \<open>A transport takes the next event from its channel.\<close>

definition hub_receive :: "nat \<Rightarrow> hub \<Rightarrow> hub option" where
  "hub_receive p h =
     (if p < length (hb_objs h) \<and> hs_buf (hb_objs h ! p) \<noteq> []
      then Some (upd_sub p (\<lambda>s. s\<lparr>hs_buf := tl (hs_buf s)\<rparr>) h) else None)"

datatype hub_action =
    Alloc hub_filter int | Insert nat | Mark nat | Delete nat | CloseChan nat
  | BeginPublish event "nat list" | Visit nat | Send nat | EndPublish nat | Receive nat

fun hub_act :: "hub_action \<Rightarrow> hub \<Rightarrow> hub option" where
  "hub_act (Alloc f c) h = Some (hub_alloc f c h)"
| "hub_act (Insert p) h = hub_insert p h"
| "hub_act (Mark p) h = hub_mark p h"
| "hub_act (Delete p) h = hub_delete p h"
| "hub_act (CloseChan p) h = hub_close p h"
| "hub_act (BeginPublish ev order) h = hub_begin ev order h"
| "hub_act (Visit i) h = hub_visit i h"
| "hub_act (Send i) h = hub_send i h"
| "hub_act (EndPublish i) h = hub_end i h"
| "hub_act (Receive p) h = hub_receive p h"

text \<open>An interleaving of any calls: an action that is not enabled does not happen.\<close>

inductive hub_reach :: "hub \<Rightarrow> bool" where
  start: "hub_reach new_hub"
| act: "hub_reach h \<Longrightarrow> hub_act a h = Some h' \<Longrightarrow> hub_reach h'"

inductive_cases hub_reach_elim: "hub_reach h"

fun hub_run :: "hub_action list \<Rightarrow> hub \<Rightarrow> hub option" where
  "hub_run [] h = Some h"
| "hub_run (a # as) h = Option.bind (hub_act a h) (hub_run as)"

lemma run_reaches: "hub_reach h \<Longrightarrow> hub_run as h = Some h' \<Longrightarrow> hub_reach h'"
  by (induction as arbitrary: h) (auto split: bind_splits intro: hub_reach.act)

subsection \<open>The invariant of the lock\<close>

definition hub_threads_ok :: "hub \<Rightarrow> bool" where
  "hub_threads_ok h \<longleftrightarrow>
     (\<forall>p \<in> set (hb_joining h). p < length (hb_objs h) \<and> \<not> hs_flag (hb_objs h ! p)) \<and>
     (\<forall>p \<in> set (hb_removing h). p < length (hb_objs h) \<and> hs_flag (hb_objs h ! p) \<and> \<not> hs_chan_closed (hb_objs h ! p) \<and> p \<notin> set (hb_closing h)) \<and>
     (\<forall>p \<in> set (hb_closing h). p < length (hb_objs h) \<and> hs_flag (hb_objs h ! p) \<and> \<not> hs_chan_closed (hb_objs h ! p)) \<and>
     (\<forall>p < length (hb_objs h). hs_chan_closed (hb_objs h ! p) \<longrightarrow> hs_flag (hb_objs h ! p))"

definition hub_map_ok :: "hub \<Rightarrow> bool" where
  "hub_map_ok h \<longleftrightarrow> distinct (map fst (hb_subs h)) \<and>
     (\<forall>x \<in> set (hb_subs h). snd x < length (hb_objs h) \<and> hs_id (hb_objs h ! snd x) = fst x \<and> \<not> hs_chan_closed (hb_objs h ! snd x) \<and>
        snd x \<notin> set (hb_closing h) \<and> snd x \<notin> set (hb_joining h))"

definition hub_pubs_ok :: "hub \<Rightarrow> bool" where
  "hub_pubs_ok h \<longleftrightarrow>
     (\<forall>u \<in> set (hb_pubs h). set (pu_todo u) \<union> set_option (pu_sending u) \<subseteq> snd ` set (hb_subs h) \<and>
        (\<forall>p. pu_sending u = Some p \<longrightarrow> hub_matches (pu_event u) (hs_filter (hb_objs h ! p))))"

definition hub_bufs_ok :: "hub \<Rightarrow> bool" where
  "hub_bufs_ok h \<longleftrightarrow>
     (\<forall>s \<in> set (hb_objs h). length (hs_buf s) \<le> hs_capacity s \<and> list_all (\<lambda>ev. hub_matches ev (hs_filter s)) (hs_buf s))"

definition hub_inv :: "hub \<Rightarrow> bool" where
  "hub_inv h \<longleftrightarrow> \<not> hb_panic h \<and> hub_threads_ok h \<and> hub_map_ok h \<and> hub_pubs_ok h \<and> hub_bufs_ok h"

lemmas hub_ok_defs = hub_threads_ok_def hub_map_ok_def hub_pubs_ok_def hub_bufs_ok_def

lemma hub_inv_new: "hub_inv new_hub"
  by (simp add: hub_inv_def new_hub_def hub_ok_defs)

lemma upd_sub_fields [simp]:
  "length (hb_objs (upd_sub p f h)) = length (hb_objs h)" "hb_subs (upd_sub p f h) = hb_subs h" "hb_next (upd_sub p f h) = hb_next h"
  "hb_dropped (upd_sub p f h) = hb_dropped h" "hb_pubs (upd_sub p f h) = hb_pubs h" "hb_joining (upd_sub p f h) = hb_joining h"
  "hb_removing (upd_sub p f h) = hb_removing h" "hb_closing (upd_sub p f h) = hb_closing h" "hb_panic (upd_sub p f h) = hb_panic h"
  by (simp_all add: upd_sub_def)

lemma upd_sub_nth: "q < length (hb_objs h) \<Longrightarrow> hb_objs (upd_sub p f h) ! q = (if q = p then f (hb_objs h ! q) else hb_objs h ! q)"
  by (auto simp: upd_sub_def nth_list_update)

lemma upd_sub_filter: "(\<And>s. hs_filter (f s) = hs_filter s) \<Longrightarrow> hs_filter (hb_objs (upd_sub p f h) ! q) = hs_filter (hb_objs h ! q)"
  by (cases "p < length (hb_objs h)") (auto simp: upd_sub_def nth_list_update list_update_beyond)

lemma upd_sub_bufs:
  "hub_bufs_ok h \<Longrightarrow> (p < length (hb_objs h) \<Longrightarrow> length (hs_buf (f (hb_objs h ! p))) \<le> hs_capacity (f (hb_objs h ! p)) \<and>
      list_all (\<lambda>ev. hub_matches ev (hs_filter (f (hb_objs h ! p)))) (hs_buf (f (hb_objs h ! p)))) \<Longrightarrow> hub_bufs_ok (upd_sub p f h)"
proof (cases "p < length (hb_objs h)")
  case True
  assume "hub_bufs_ok h" and "p < length (hb_objs h) \<Longrightarrow> length (hs_buf (f (hb_objs h ! p))) \<le> hs_capacity (f (hb_objs h ! p)) \<and>
      list_all (\<lambda>ev. hub_matches ev (hs_filter (f (hb_objs h ! p)))) (hs_buf (f (hb_objs h ! p)))"
  then show ?thesis using True by (auto simp: hub_bufs_ok_def upd_sub_def dest!: set_update_subset_insert [THEN subsetD])
qed (simp add: hub_bufs_ok_def upd_sub_def list_update_beyond)

lemma sub_bufs: "hub_bufs_ok h \<Longrightarrow> p < length (hb_objs h) \<Longrightarrow>
    length (hs_buf (hb_objs h ! p)) \<le> hs_capacity (hb_objs h ! p) \<and> list_all (\<lambda>ev. hub_matches ev (hs_filter (hb_objs h ! p))) (hs_buf (hb_objs h ! p))"
  by (simp add: hub_bufs_ok_def)

lemma alloc_inv:
  assumes "hub_inv h"
  shows "hub_inv (hub_alloc f c h)"
proof -
  note i = assms [unfolded hub_inv_def]
  have "hub_threads_ok (hub_alloc f c h)" using i by (auto simp: hub_threads_ok_def hub_alloc_def Let_def nth_append less_Suc_eq)
  moreover have "hub_map_ok (hub_alloc f c h)" using i by (auto simp: hub_map_ok_def hub_alloc_def Let_def nth_append less_Suc_eq)
  moreover have "hub_pubs_ok (hub_alloc f c h)"
  proof -
    have "snd x < length (hb_objs h)" if "x \<in> set (hb_subs h)" for x using i that by (auto simp: hub_map_ok_def)
    then have "p < length (hb_objs h)" if "u \<in> set (hb_pubs h)" "pu_sending u = Some p" for u p
      using i that by (fastforce simp: hub_pubs_ok_def)
    then show ?thesis using i by (simp add: hub_pubs_ok_def hub_alloc_def Let_def nth_append)
  qed
  moreover have "hub_bufs_ok (hub_alloc f c h)" using i by (simp add: hub_bufs_ok_def hub_alloc_def Let_def)
  ultimately show ?thesis using i by (simp add: hub_inv_def hub_alloc_def Let_def)
qed

lemma insert_inv:
  assumes "hub_inv h" "hub_insert p h = Some h'"
  shows "hub_inv h'"
proof -
  note i = assms(1) [unfolded hub_inv_def]
  have p: "p \<in> set (hb_joining h)" "hb_pubs h = []"
    and h': "h' = h\<lparr>hb_subs := AList.update (hs_id (hb_objs h ! p)) p (hb_subs h), hb_joining := removeAll p (hb_joining h)\<rparr>"
    using assms(2) by (auto simp: hub_insert_def split: if_splits)
  have q: "p < length (hb_objs h)" "\<not> hs_flag (hb_objs h ! p)" "\<not> hs_chan_closed (hb_objs h ! p)" "p \<notin> set (hb_closing h)"
    using i p(1) by (auto simp: hub_threads_ok_def)
  have "hub_threads_ok h'" using i by (auto simp: hub_threads_ok_def h')
  moreover have "hub_map_ok h'"
    using i q by (auto simp: hub_map_ok_def h' distinct_update set_update_distinct)
  ultimately show ?thesis using i p(2) by (simp add: hub_inv_def h' hub_pubs_ok_def hub_bufs_ok_def)
qed

lemma mark_inv:
  assumes "hub_inv h" "hub_mark p h = Some h'"
  shows "hub_inv h'"
proof (cases "hs_flag (hb_objs h ! p)")
  case True
  then show ?thesis using assms by (auto simp: hub_mark_def split: if_splits)
next
  case False
  note i = assms(1) [unfolded hub_inv_def]
  have p: "p < length (hb_objs h)" "p \<notin> set (hb_joining h)"
    and h': "h' = (upd_sub p (\<lambda>s. s\<lparr>hs_flag := True\<rparr>) h)\<lparr>hb_removing := p # hb_removing h\<rparr>"
    using assms(2) False by (auto simp: hub_mark_def split: if_splits)
  have q: "\<not> hs_chan_closed (hb_objs h ! p)" "p \<notin> set (hb_closing h)" using i False p(1) by (auto simp: hub_threads_ok_def)
  have "hub_threads_ok h'" using i p q by (auto simp: hub_threads_ok_def h' upd_sub_nth)
  moreover have "hub_map_ok h'" using i by (auto simp: hub_map_ok_def h' upd_sub_nth)
  moreover have "hub_pubs_ok h'"
    using i by (simp add: hub_pubs_ok_def h' upd_sub_filter)
  moreover have "hub_bufs_ok h'"
  proof -
    have "hub_bufs_ok (upd_sub p (\<lambda>s. s\<lparr>hs_flag := True\<rparr>) h)" using i sub_bufs p(1) by (intro upd_sub_bufs) simp_all
    then show ?thesis by (simp add: h' hub_bufs_ok_def)
  qed
  ultimately show ?thesis using i by (simp add: hub_inv_def h')
qed

lemma delete_inv:
  assumes "hub_inv h" "hub_delete p h = Some h'"
  shows "hub_inv h'"
proof -
  note i = assms(1) [unfolded hub_inv_def]
  have p: "p \<in> set (hb_removing h)" "hb_pubs h = []"
    and h': "h' = h\<lparr>hb_subs := AList.delete (hs_id (hb_objs h ! p)) (hb_subs h), hb_removing := removeAll p (hb_removing h), hb_closing := p # hb_closing h\<rparr>"
    using assms(2) by (auto simp: hub_delete_def split: if_splits)
  have q: "p < length (hb_objs h)" "hs_flag (hb_objs h ! p)" "\<not> hs_chan_closed (hb_objs h ! p)" "p \<notin> set (hb_joining h)"
    using i p(1) by (auto simp: hub_threads_ok_def)
  have "hub_threads_ok h'" using i p(1) q by (auto simp: hub_threads_ok_def h')
  moreover have "hub_map_ok h'"
    using i q by (auto simp: hub_map_ok_def h' AList.delete_eq distinct_map_filter)
  ultimately show ?thesis using i p(2) by (simp add: hub_inv_def h' hub_pubs_ok_def hub_bufs_ok_def)
qed

lemma close_inv:
  assumes "hub_inv h" "hub_close p h = Some h'"
  shows "hub_inv h'"
proof -
  note i = assms(1) [unfolded hub_inv_def]
  have p: "p \<in> set (hb_closing h)" using assms(2) by (auto simp: hub_close_def split: if_splits)
  then have q: "p < length (hb_objs h)" "hs_flag (hb_objs h ! p)" "\<not> hs_chan_closed (hb_objs h ! p)" "p \<notin> set (hb_removing h)"
    "p \<notin> snd ` set (hb_subs h)"
    using i by (auto simp: hub_threads_ok_def hub_map_ok_def)
  have h': "h' = (upd_sub p (\<lambda>s. s\<lparr>hs_chan_closed := True\<rparr>) h)\<lparr>hb_closing := removeAll p (hb_closing h)\<rparr>"
    using assms(2) p q(3) by (auto simp: hub_close_def split: if_splits)
  have "hub_threads_ok h'" using i q by (auto simp: hub_threads_ok_def h' upd_sub_nth)
  moreover have "hub_map_ok h'" using i q(5) by (force simp: hub_map_ok_def h' upd_sub_nth)
  moreover have "hub_pubs_ok h'"
    using i by (simp add: hub_pubs_ok_def h' upd_sub_filter)
  moreover have "hub_bufs_ok h'"
  proof -
    have "hub_bufs_ok (upd_sub p (\<lambda>s. s\<lparr>hs_chan_closed := True\<rparr>) h)" using i sub_bufs q(1) by (intro upd_sub_bufs) simp_all
    then show ?thesis by (simp add: h' hub_bufs_ok_def)
  qed
  ultimately show ?thesis using i by (simp add: hub_inv_def h')
qed

lemma begin_inv:
  assumes "hub_inv h" "hub_begin ev order h = Some h'"
  shows "hub_inv h'"
proof -
  note i = assms(1) [unfolded hub_inv_def]
  have e: "mset order = mset (map snd (hb_subs h))"
    and h': "h' = h\<lparr>hb_pubs := hb_pubs h @ [\<lparr>pu_event = ev, pu_todo = order, pu_sending = None\<rparr>]\<rparr>"
    using assms(2) by (simp_all add: hub_begin_def split: if_splits)
  have m: "set order = snd ` set (hb_subs h)" using mset_eq_setD [OF e] by simp
  have "hub_pubs_ok h'" using i m by (simp add: hub_pubs_ok_def h')
  then show ?thesis using i by (simp add: hub_inv_def h' hub_threads_ok_def hub_map_ok_def hub_bufs_ok_def)
qed

lemma visit_inv:
  assumes "hub_inv h" "hub_visit i h = Some h'"
  shows "hub_inv h'"
proof -
  note inv = assms(1) [unfolded hub_inv_def]
  obtain u p ps where u: "u = hb_pubs h ! i" "i < length (hb_pubs h)" "pu_todo u = p # ps" "pu_sending u = None"
    using assms(2) by (auto simp: hub_visit_def Let_def split: if_splits option.splits list.splits)
  define nx where "nx = (if hs_flag (hb_objs h ! p) then None else if hub_matches (pu_event u) (hs_filter (hb_objs h ! p)) then Some p else None)"
  have h': "h' = h\<lparr>hb_pubs := (hb_pubs h)[i := u\<lparr>pu_todo := ps, pu_sending := nx\<rparr>]\<rparr>"
    using assms(2) u(2-4) unfolding u(1) nx_def by (simp add: hub_visit_def Let_def split del: if_split)
  have "set (pu_todo u) \<union> set_option (pu_sending u) \<subseteq> snd ` set (hb_subs h)"
    using inv u(1,2) by (auto simp: hub_pubs_ok_def)
  moreover have "nx = None \<or> nx = Some p \<and> hub_matches (pu_event u) (hs_filter (hb_objs h ! p))" by (simp add: nx_def)
  ultimately have "hub_pubs_ok h'" using inv u(3) unfolding hub_pubs_ok_def h'
    by (auto intro: rev_image_eqI dest!: set_update_subset_insert [THEN subsetD])
  then show ?thesis using inv by (simp add: hub_inv_def h' hub_threads_ok_def hub_map_ok_def hub_bufs_ok_def)
qed

lemma send_inv:
  assumes "hub_inv h" "hub_send i h = Some h'"
  shows "hub_inv h'"
proof -
  note inv = assms(1) [unfolded hub_inv_def]
  obtain u p where u: "u = hb_pubs h ! i" "i < length (hb_pubs h)" "pu_sending u = Some p"
    using assms(2) by (auto simp: hub_send_def Let_def split: if_splits option.splits)
  define h1 where "h1 = h\<lparr>hb_pubs := (hb_pubs h)[i := u\<lparr>pu_sending := None\<rparr>]\<rparr>"
  have h': "h' = chan_send (pu_event u) p h1" using assms(2) u by (simp add: hub_send_def h1_def Let_def)
  have uin: "u \<in> set (hb_pubs h)" using u by simp
  then have "set (pu_todo u) \<union> set_option (pu_sending u) \<subseteq> snd ` set (hb_subs h)" and m: "hub_matches (pu_event u) (hs_filter (hb_objs h ! p))"
    using inv u(3) by (auto simp: hub_pubs_ok_def)
  then have "p \<in> snd ` set (hb_subs h)" and "hub_pubs_ok h1"
    using inv u(3) by (auto simp: hub_pubs_ok_def h1_def dest!: set_update_subset_insert [THEN subsetD])
  then have p: "p < length (hb_objs h)" "\<not> hs_chan_closed (hb_objs h ! p)" using inv by (auto simp: hub_map_ok_def)
  have i1: "hub_inv h1" using inv \<open>hub_pubs_ok h1\<close> by (simp add: hub_inv_def h1_def hub_threads_ok_def hub_map_ok_def hub_bufs_ok_def)
  show ?thesis
  proof (cases "length (hs_buf (hb_objs h ! p)) < hs_capacity (hb_objs h ! p)")
    case True
    then have h2: "h' = upd_sub p (\<lambda>s. s\<lparr>hs_buf := hs_buf s @ [pu_event u]\<rparr>) h1" using p by (simp add: h' chan_send_def h1_def Let_def)
    have "hub_bufs_ok h'" unfolding h2
    proof (rule upd_sub_bufs)
      show "hub_bufs_ok h1" using i1 by (simp add: hub_inv_def)
    qed (use sub_bufs [of h p] inv p m True in \<open>simp add: h1_def\<close>)
    moreover have "hub_threads_ok h'" "hub_map_ok h'" using i1 by (auto simp: hub_inv_def hub_threads_ok_def hub_map_ok_def h2 upd_sub_nth)
    moreover have "hub_pubs_ok h'" using i1 by (simp add: hub_inv_def hub_pubs_ok_def h2 upd_sub_filter)
    ultimately show ?thesis using i1 by (simp add: hub_inv_def h2)
  next
    case False
    then have "h' = h1\<lparr>hb_dropped := hb_dropped h1 + 1\<rparr>" using p by (simp add: h' chan_send_def h1_def Let_def)
    then show ?thesis using i1 by (simp add: hub_inv_def hub_ok_defs)
  qed
qed

lemma end_inv:
  assumes "hub_inv h" "hub_end i h = Some h'"
  shows "hub_inv h'"
proof -
  note inv = assms(1) [unfolded hub_inv_def]
  have h': "h' = h\<lparr>hb_pubs := take i (hb_pubs h) @ drop (Suc i) (hb_pubs h)\<rparr>" using assms(2) by (auto simp: hub_end_def split: if_splits)
  have "hub_pubs_ok h'" using inv by (auto simp: hub_pubs_ok_def h' dest: in_set_takeD in_set_dropD)
  then show ?thesis using inv by (simp add: hub_inv_def h' hub_threads_ok_def hub_map_ok_def hub_bufs_ok_def)
qed

lemma receive_inv:
  assumes "hub_inv h" "hub_receive p h = Some h'"
  shows "hub_inv h'"
proof -
  note inv = assms(1) [unfolded hub_inv_def]
  have p: "p < length (hb_objs h)" "hs_buf (hb_objs h ! p) \<noteq> []" and h': "h' = upd_sub p (\<lambda>s. s\<lparr>hs_buf := tl (hs_buf s)\<rparr>) h"
    using assms(2) by (auto simp: hub_receive_def split: if_splits)
  have "hub_bufs_ok h'" unfolding h' using inv sub_bufs [of h p] p
    by (intro upd_sub_bufs) (auto simp: list_all_iff dest: list.set_sel(2))
  moreover have "hub_threads_ok h'" "hub_map_ok h'" using inv by (auto simp: hub_threads_ok_def hub_map_ok_def h' upd_sub_nth)
  moreover have "hub_pubs_ok h'" using inv by (simp add: hub_pubs_ok_def h' upd_sub_filter)
  ultimately show ?thesis using inv by (simp add: hub_inv_def h')
qed

lemma act_inv: "hub_inv h \<Longrightarrow> hub_act a h = Some h' \<Longrightarrow> hub_inv h'"
  by (cases a) (auto dest: alloc_inv insert_inv mark_inv delete_inv close_inv begin_inv visit_inv send_inv end_inv receive_inv)

lemma reach_inv: "hub_reach h \<Longrightarrow> hub_inv h"
  by (induction rule: hub_reach.induct) (auto intro: hub_inv_new act_inv)

subsection \<open>Publish as one call\<close>

text \<open>\<open>Publish\<close> without interruption: the range over the map in some order.\<close>

definition wants :: "event \<Rightarrow> hub_sub \<Rightarrow> bool" where
  "wants ev s \<longleftrightarrow> \<not> hs_flag s \<and> hub_matches ev (hs_filter s)"

definition offer :: "event \<Rightarrow> nat \<Rightarrow> hub \<Rightarrow> hub" where
  "offer ev p h = (if wants ev (hb_objs h ! p) then chan_send ev p h else h)"

definition hub_publish :: "event \<Rightarrow> nat list \<Rightarrow> hub \<Rightarrow> hub" where
  "hub_publish ev order h = fold (offer ev) order h"

definition has_room :: "hub_sub \<Rightarrow> bool" where
  "has_room s \<longleftrightarrow> length (hs_buf s) < hs_capacity s"

definition after_offer :: "event \<Rightarrow> nat set \<Rightarrow> nat \<Rightarrow> hub_sub \<Rightarrow> hub_sub" where
  "after_offer ev A p s = (if p \<in> A \<and> wants ev s \<and> has_room s then s\<lparr>hs_buf := hs_buf s @ [ev]\<rparr> else s)"

lemma offer_effect:
  assumes "p < length (hb_objs h)" "\<not> hs_chan_closed (hb_objs h ! p)"
  shows "offer ev p h = h\<lparr>hb_objs := (hb_objs h)[p := after_offer ev {p} p (hb_objs h ! p)],
    hb_dropped := hb_dropped h + (if wants ev (hb_objs h ! p) \<and> \<not> has_room (hb_objs h ! p) then 1 else 0)\<rparr>"
  using assms by (simp add: offer_def chan_send_def after_offer_def has_room_def upd_sub_def Let_def)

lemma publish_effect_on:
  "distinct order \<Longrightarrow> (\<And>p. p \<in> set order \<Longrightarrow> p < length (hb_objs h) \<and> \<not> hs_chan_closed (hb_objs h ! p)) \<Longrightarrow>
   hub_publish ev order h = h\<lparr>hb_objs := map (\<lambda>p. after_offer ev (set order) p (hb_objs h ! p)) [0..<length (hb_objs h)],
     hb_dropped := hb_dropped h + of_nat (length (filter (\<lambda>p. wants ev (hb_objs h ! p) \<and> \<not> has_room (hb_objs h ! p)) order))\<rparr>"
proof (induction order arbitrary: h)
  case Nil
  have "map (\<lambda>p. after_offer ev {} p (hb_objs h ! p)) [0..<length (hb_objs h)] = hb_objs h"
    by (simp add: after_offer_def map_nth)
  then show ?case by (simp add: hub_publish_def)
next
  case (Cons p ps)
  define h1 where "h1 = offer ev p h"
  have p: "p < length (hb_objs h)" "\<not> hs_chan_closed (hb_objs h ! p)" using Cons.prems(2) by simp_all
  note h1 = h1_def [unfolded offer_effect [OF p]]
  have same: "hb_objs h1 ! q = hb_objs h ! q" if "q \<noteq> p" for q using that by (simp add: h1)
  have IH: "hub_publish ev ps h1 = h1\<lparr>hb_objs := map (\<lambda>q. after_offer ev (set ps) q (hb_objs h1 ! q)) [0..<length (hb_objs h1)],
     hb_dropped := hb_dropped h1 + of_nat (length (filter (\<lambda>q. wants ev (hb_objs h1 ! q) \<and> \<not> has_room (hb_objs h1 ! q)) ps))\<rparr>"
    using Cons.prems by (intro Cons.IH) (auto simp: h1 nth_list_update)
  have "map (\<lambda>q. after_offer ev (set ps) q (hb_objs h1 ! q)) [0..<length (hb_objs h1)] =
      map (\<lambda>q. after_offer ev (set (p # ps)) q (hb_objs h ! q)) [0..<length (hb_objs h)]"
    using Cons.prems(1) p(1) by (auto simp: h1 after_offer_def nth_list_update)
  moreover have "filter (\<lambda>q. wants ev (hb_objs h1 ! q) \<and> \<not> has_room (hb_objs h1 ! q)) ps = filter (\<lambda>q. wants ev (hb_objs h ! q) \<and> \<not> has_room (hb_objs h ! q)) ps"
    using Cons.prems(1) same by (intro filter_cong refl) (metis distinct.simps(2))
  ultimately have "hub_publish ev ps h1 = h\<lparr>hb_objs := map (\<lambda>q. after_offer ev (set (p # ps)) q (hb_objs h ! q)) [0..<length (hb_objs h)],
     hb_dropped := hb_dropped h + of_nat (length (filter (\<lambda>p. wants ev (hb_objs h ! p) \<and> \<not> has_room (hb_objs h ! p)) (p # ps)))\<rparr>"
    unfolding IH by (simp add: h1 add.assoc)
  then show ?case by (simp add: hub_publish_def h1_def)
qed

lemma hub_run_append: "hub_run (as @ bs) h = Option.bind (hub_run as h) (hub_run bs)"
proof (induction as arbitrary: h)
  case (Cons a as)
  then show ?case by (cases "hub_act a h") simp_all
qed simp

text \<open>The steps of one call in a row are the call.\<close>

lemma publish_steps:
  assumes "hb_pubs h = us @ [\<lparr>pu_event = ev, pu_todo = order, pu_sending = None\<rparr>]"
  shows "\<exists>as. hub_run as h = Some (hub_publish ev order (h\<lparr>hb_pubs := us\<rparr>))"
  using assms
proof (induction order arbitrary: h)
  case Nil
  then have "hub_run [EndPublish (length us)] h = Some (h\<lparr>hb_pubs := us\<rparr>)" by (simp add: hub_end_def nth_append)
  then show ?case unfolding hub_publish_def by (metis fold_Nil id_apply)
next
  case (Cons p ps)
  let ?n = "length us" and ?rest = "\<lparr>pu_event = ev, pu_todo = ps, pu_sending = None\<rparr>"
  define h1 where "h1 = offer ev p (h\<lparr>hb_pubs := us @ [?rest]\<rparr>)"
  have pubs: "hb_pubs h1 = us @ [?rest]" "h1\<lparr>hb_pubs := us\<rparr> = offer ev p (h\<lparr>hb_pubs := us\<rparr>)"
    by (simp_all add: h1_def offer_def chan_send_def upd_sub_def Let_def)
  have step: "\<exists>as. hub_run as h = Some h1"
  proof (cases "wants ev (hb_objs h ! p)")
    case True
    then have "hub_run [Visit ?n, Send ?n] h = Some h1"
      using Cons.prems by (simp add: hub_visit_def hub_send_def h1_def offer_def wants_def)
    then show ?thesis by blast
  next
    case False
    then have "hub_run [Visit ?n] h = Some h1" using Cons.prems by (auto simp: hub_visit_def h1_def offer_def wants_def Let_def)
    then show ?thesis by blast
  qed
  then obtain as1 where a1: "hub_run as1 h = Some h1" by blast
  obtain as2 where a2: "hub_run as2 h1 = Some (hub_publish ev ps (h1\<lparr>hb_pubs := us\<rparr>))" using Cons.IH [OF pubs(1)] by blast
  have "hub_run (as1 @ as2) h = Some (hub_publish ev (p # ps) (h\<lparr>hb_pubs := us\<rparr>))"
    by (simp add: hub_run_append a1 a2 pubs(2) hub_publish_def)
  then show ?case by blast
qed

lemma map_pointers_distinct: "hub_map_ok h \<Longrightarrow> distinct (map snd (hb_subs h))"
  unfolding hub_map_ok_def distinct_map inj_on_def by (metis prod.expand)

lemma publish_effect:
  assumes "hub_inv h" "mset order = mset (map snd (hb_subs h))"
  shows "hub_publish ev order h = h\<lparr>hb_objs := map (\<lambda>p. after_offer ev (snd ` set (hb_subs h)) p (hb_objs h ! p)) [0..<length (hb_objs h)],
     hb_dropped := hb_dropped h + of_nat (length (filter (\<lambda>p. wants ev (hb_objs h ! p) \<and> \<not> has_room (hb_objs h ! p)) (map snd (hb_subs h))))\<rparr>"
proof -
  have d: "distinct order" using mset_eq_imp_distinct_iff [OF assms(2)] map_pointers_distinct assms(1) by (simp add: hub_inv_def)
  have e: "set order = snd ` set (hb_subs h)" using mset_eq_setD [OF assms(2)] by simp
  have f: "length (filter P order) = length (filter P (map snd (hb_subs h)))" for P
    using mset_eq_length [of "filter P order" "filter P (map snd (hb_subs h))"] assms(2) by (simp only: mset_filter)
  have "p < length (hb_objs h) \<and> \<not> hs_chan_closed (hb_objs h ! p)" if "p \<in> set order" for p
    using assms(1) that unfolding e by (auto simp: hub_inv_def hub_map_ok_def)
  from publish_effect_on [OF d this] show ?thesis unfolding e f by simp
qed

subsection \<open>Transports and the bus handler\<close>

datatype transport = WebSocket | EventStream

definition client_capacity :: int where "client_capacity = 256"

definition client_filter :: "transport \<Rightarrow> string \<Rightarrow> string \<Rightarrow> problem + hub_filter" where
  "client_filter t tenant stream =
     (if tenant = [] then Inl (unauthorized (case t of WebSocket \<Rightarrow> ''X-Tenant-Id required'' | EventStream \<Rightarrow> ''tenant required''))
      else Inr \<lparr>hf_tenant = tenant, hf_stream = stream\<rparr>)"

text \<open>A message of \<open>events.v1\<close>: one that does not decode is skipped. The exported counter is increased by the total of the hub.\<close>

definition hub_message :: "(string \<Rightarrow> event option) \<Rightarrow> nat list \<Rightarrow> bus_message \<Rightarrow> hub \<times> nat \<Rightarrow> bool \<times> hub \<times> nat" where
  "hub_message dec order m s =
     (case dec (bm_data m) of
        None \<Rightarrow> (False, s)
      | Some ev \<Rightarrow> let h = hub_publish ev order (fst s) in (True, h, snd s + unat (hb_dropped h)))"

lemma client_events_are_its_tenants:
  "client_filter t tenant stream = Inr f \<Longrightarrow> hub_matches ev f \<Longrightarrow> event_tenant ev = tenant"
  by (auto simp: client_filter_def hub_matches_def split: if_splits)

text \<open>An event that drops nothing still adds all former drops to the counter.\<close>

lemma drops_are_counted_again:
  assumes "hub_inv h" "mset order = mset (map snd (hb_subs h))" "dec (bm_data m) = Some ev"
    and "\<forall>p \<in> snd ` set (hb_subs h). wants ev (hb_objs h ! p) \<longrightarrow> has_room (hb_objs h ! p)"
  shows "snd (snd (hub_message dec order m (h, c))) = c + unat (hb_dropped h)"
proof -
  have "filter (\<lambda>p. wants ev (hb_objs h ! p) \<and> \<not> has_room (hb_objs h ! p)) (map snd (hb_subs h)) = []"
    using assms(4) by (auto simp: filter_empty_conv)
  then show ?thesis using assms(3) by (simp add: hub_message_def publish_effect [OF assms(1,2)])
qed

subsection \<open>Properties\<close>

text \<open>C21: Whatever calls run and however they interleave, no event is sent on a closed channel and no channel is closed twice, so
the hub never panics; a channel holds at most its capacity, and only events of the tenant and the stream of its filter.\<close>

theorem hub_never_panics:
  assumes "hub_reach h"
  shows "\<not> hb_panic h \<and>
    (\<forall>s \<in> set (hb_objs h). length (hs_buf s) \<le> hs_capacity s \<and>
      (\<forall>ev \<in> set (hs_buf s). (hf_tenant (hs_filter s) \<noteq> [] \<longrightarrow> event_tenant ev = hf_tenant (hs_filter s)) \<and>
        (hf_stream (hs_filter s) \<noteq> [] \<longrightarrow> event_stream ev = hf_stream (hs_filter s))))"
  using reach_inv [OF assms] by (auto simp: hub_inv_def hub_bufs_ok_def hub_matches_def list_all_iff)

definition hub_event :: event where
  "hub_event = \<lparr>event_id = ''e1'', event_tenant = ''t'', event_stream = ''s'', event_summary = [], event_class = [], event_rule = []\<rparr>"

definition leaving_run :: "hub_action list" where
  "leaving_run = [Alloc \<lparr>hf_tenant = ''t'', hf_stream = []\<rparr> 1, Insert 0, BeginPublish hub_event [0], Visit 0, Mark 0, Send 0, EndPublish 0, Delete 0, CloseChan 0]"

definition left_hub :: hub where
  "left_hub = new_hub\<lparr>hb_next := 1, hb_objs := [\<lparr>hs_id = 1, hs_filter = \<lparr>hf_tenant = ''t'', hf_stream = []\<rparr>, hs_capacity = 1,
     hs_buf = [hub_event], hs_flag = True, hs_chan_closed = True\<rparr>]\<rparr>"

lemma leaving_run_result: "hub_run leaving_run new_hub = Some left_hub"
  by (simp add: leaving_run_def left_hub_def new_hub_def hub_alloc_def hub_insert_def hub_begin_def hub_visit_def hub_mark_def hub_send_def
      hub_end_def hub_delete_def hub_close_def chan_send_def upd_sub_def hub_matches_def hub_event_def Let_def)

lemma hub_never_panics_witness:
  "\<not> hb_panic left_hub \<and> length (hs_buf (hb_objs left_hub ! 0)) \<le> 1 \<and>
    event_tenant (hs_buf (hb_objs left_hub ! 0) ! 0) = ''t''"
  using hub_never_panics [OF run_reaches [OF hub_reach.start leaving_run_result]] by (simp add: left_hub_def new_hub_def)

text \<open>C23: A published event reaches the channel of exactly those connected subscribers whose filter it matches and whose channel has
room, once; the others keep what they hold, and the drop counter grows by the number of full ones. The order in which the map is
ranged over does not matter, and the steps of the call, run without interruption, have this effect.\<close>

theorem publish_reaches_matching_subscribers:
  assumes "hub_reach h" "mset order = mset (map snd (hb_subs h))"
  shows "hub_publish ev order h = h\<lparr>hb_objs := map (\<lambda>p. after_offer ev (snd ` set (hb_subs h)) p (hb_objs h ! p)) [0..<length (hb_objs h)],
       hb_dropped := hb_dropped h + of_nat (length (filter (\<lambda>p. wants ev (hb_objs h ! p) \<and> \<not> has_room (hb_objs h ! p)) (map snd (hb_subs h))))\<rparr>
    \<and> (\<exists>as. hub_run (BeginPublish ev order # as) h = Some (hub_publish ev order h))"
proof
  have b: "hub_act (BeginPublish ev order) h = Some (h\<lparr>hb_pubs := hb_pubs h @ [\<lparr>pu_event = ev, pu_todo = order, pu_sending = None\<rparr>]\<rparr>)"
    using assms(2) by (simp add: hub_begin_def)
  show "\<exists>as. hub_run (BeginPublish ev order # as) h = Some (hub_publish ev order h)"
    using publish_steps [of "h\<lparr>hb_pubs := hb_pubs h @ [\<lparr>pu_event = ev, pu_todo = order, pu_sending = None\<rparr>]\<rparr>" "hb_pubs h" ev order] b by simp
qed (rule publish_effect [OF reach_inv [OF assms(1)] assms(2)])

definition joined_hub :: hub where
  "joined_hub = new_hub\<lparr>hb_next := 1, hb_subs := [(1, 0)], hb_objs := [\<lparr>hs_id = 1, hs_filter = \<lparr>hf_tenant = ''t'', hf_stream = []\<rparr>, hs_capacity = 1,
     hs_buf = [], hs_flag = False, hs_chan_closed = False\<rparr>]\<rparr>"

lemma joined_hub_reached: "hub_reach joined_hub"
  by (rule run_reaches [OF hub_reach.start, of "[Alloc \<lparr>hf_tenant = ''t'', hf_stream = []\<rparr> 1, Insert 0]"])
    (simp add: joined_hub_def new_hub_def hub_alloc_def hub_insert_def Let_def)

lemma publish_reaches_matching_subscribers_witness:
  "hub_publish hub_event [0] joined_hub = joined_hub\<lparr>hb_objs := [(hb_objs joined_hub ! 0)\<lparr>hs_buf := [hub_event]\<rparr>]\<rparr>"
proof -
  have "mset [0] = mset (map snd (hb_subs joined_hub))" by (simp add: joined_hub_def)
  from publish_reaches_matching_subscribers [OF joined_hub_reached this, of hub_event] show ?thesis
    by (simp add: joined_hub_def new_hub_def after_offer_def wants_def has_room_def hub_matches_def hub_event_def)
qed

end
