(* ===== verification/Notify.thy ===== *)
theory Notify
  imports Http Bus EventRing
begin

section \<open>services/notification-service: webhooks\<close>

text \<open>
  Model of \<open>internal/delivery/webhook.go\<close> (one delivery with its retries), of the consumer of \<open>events.v1\<close> in
  \<open>cmd/notification-service/main.go\<close>, and of the store and routes of the endpoints. The other side is a function: what the
  HTTP client returns for a request. A call yields the requests it sent and the time it waited between them. The keyed hash
  and the JSON body of an event are parameters.
\<close>

subsection \<open>Delivery\<close>

record endpoint =
  ep_url :: string
  ep_secret :: string
  ep_tenant :: string
  ep_max_attempts :: int

record hook_outcome =
  oc_status :: int
  oc_attempt :: int
  oc_err :: "string option"

record hook_client =
  hc_base_ms :: int
  hc_max_backoff :: duration

definition new_hook_client :: hook_client where
  "new_hook_client = \<lparr>hc_base_ms = 1000, hc_max_backoff = 60 * second\<rparr>"

record hook_request =
  hr_url :: string
  hr_tenant :: string
  hr_signature :: string
  hr_attempt :: int
  hr_body :: string

text \<open>What the client makes of a request: the request cannot be built, it fails on the way, or a response with a status.\<close>

datatype hook_reply = NotBuilt string | NoAnswer string | Answered int

definition sign_body :: "(string \<Rightarrow> string \<Rightarrow> string) \<Rightarrow> string \<Rightarrow> string \<Rightarrow> string" where
  "sign_body hmac secret body = ''sha256='' @ hex_string (hmac secret body)"

definition hook_attempt :: "(string \<Rightarrow> string \<Rightarrow> string) \<Rightarrow> (hook_request \<Rightarrow> hook_reply) \<Rightarrow> endpoint \<Rightarrow> string \<Rightarrow> int \<Rightarrow> hook_outcome \<times> hook_request list" where
  "hook_attempt hmac net ep body attempt =
     (let r = \<lparr>hr_url = ep_url ep, hr_tenant = ep_tenant ep, hr_signature = sign_body hmac (ep_secret ep) body, hr_attempt = attempt,
               hr_body = body\<rparr> in
      case net r of
        NotBuilt e \<Rightarrow> (\<lparr>oc_status = 0, oc_attempt = attempt, oc_err = Some e\<rparr>, [])
      | NoAnswer e \<Rightarrow> (\<lparr>oc_status = 0, oc_attempt = attempt, oc_err = Some e\<rparr>, [r])
      | Answered n \<Rightarrow> (\<lparr>oc_status = n, oc_attempt = attempt, oc_err = None\<rparr>, [r]))"

definition hook_ok :: "hook_outcome \<Rightarrow> bool" where
  "hook_ok oc \<longleftrightarrow> oc_err oc = None \<and> 200 \<le> oc_status oc \<and> oc_status oc < 300"

text \<open>The wait after an attempt: the product and the shift wrap around.\<close>

definition hook_backoff :: "hook_client \<Rightarrow> int \<Rightarrow> duration" where
  "hook_backoff c attempt =
     (let d = i64 (i64 (hc_base_ms c * millisecond) * 2 ^ nat (attempt - 1)) in
      if hc_max_backoff c < d then hc_max_backoff c else d)"

record hook_trace =
  ht_requests :: "hook_request list"
  ht_waits :: "duration list"

text \<open>\<open>stop\<close> says after which attempt the context ends during the wait, and with which error.\<close>

function hook_loop :: "hook_client \<Rightarrow> (int \<Rightarrow> string option) \<Rightarrow> (int \<Rightarrow> hook_outcome \<times> hook_request list) \<Rightarrow> int \<Rightarrow> int \<Rightarrow> hook_outcome \<Rightarrow> hook_trace \<Rightarrow> hook_outcome \<times> hook_trace" where
  "hook_loop c stop once max_attempts attempt prev tr =
     (if max_attempts < attempt then (prev, tr)
      else let (oc, rs) = once attempt; tr1 = tr\<lparr>ht_requests := ht_requests tr @ rs\<rparr> in
        if hook_ok oc then (oc, tr1)
        else if attempt = max_attempts then (oc, tr1)
        else case stop attempt of
          Some e \<Rightarrow> (oc\<lparr>oc_err := Some e\<rparr>, tr1)
        | None \<Rightarrow> hook_loop c stop once max_attempts (attempt + 1) oc (tr1\<lparr>ht_waits := ht_waits tr @ [hook_backoff c attempt]\<rparr>))"
  by pat_completeness auto
termination by (relation "measure (\<lambda>(c, stop, once, m, a, p, tr). nat (m + 1 - a))") auto

declare hook_loop.simps [simp del]

definition no_outcome :: hook_outcome where "no_outcome = \<lparr>oc_status = 0, oc_attempt = 0, oc_err = None\<rparr>"

definition hook_deliver :: "hook_client \<Rightarrow> (string \<Rightarrow> string \<Rightarrow> string) \<Rightarrow> (int \<Rightarrow> string option) \<Rightarrow> (hook_request \<Rightarrow> hook_reply) \<Rightarrow> endpoint \<Rightarrow> string \<Rightarrow> hook_outcome \<times> hook_trace" where
  "hook_deliver c hmac stop net ep body =
     (if ep_url ep = [] \<or> ep_secret ep = []
      then (no_outcome\<lparr>oc_err := Some ''delivery: URL and Secret required''\<rparr>, \<lparr>ht_requests = [], ht_waits = []\<rparr>)
      else hook_loop c stop (hook_attempt hmac net ep body) (if ep_max_attempts ep = 0 then 6 else ep_max_attempts ep) 1 no_outcome
        \<lparr>ht_requests = [], ht_waits = []\<rparr>)"

subsection \<open>Endpoints and dead letters\<close>

record hook_row =
  wh_id :: string
  wh_tenant :: string
  wh_url :: string
  wh_secret :: string
  wh_enabled :: bool
  wh_created :: time

record dead_letter =
  dl_id :: string
  dl_endpoint :: string
  dl_tenant :: string
  dl_body :: string
  dl_attempts :: int
  dl_error :: string
  dl_failed :: time

record hook_db =
  hd_endpoints :: "hook_row list"
  hd_dlq :: "dead_letter list"

definition create_endpoint :: "hook_row \<Rightarrow> hook_db \<Rightarrow> string option \<times> hook_db" where
  "create_endpoint e db =
     (if wh_id e \<in> wh_id ` set (hd_endpoints db) then (Some ''duplicate key'', db)
      else (None, db\<lparr>hd_endpoints := hd_endpoints db @ [e]\<rparr>))"

definition endpoints_of :: "string \<Rightarrow> hook_db \<Rightarrow> hook_row list" where
  "endpoints_of tenant db = filter (\<lambda>e. wh_tenant e = tenant \<and> wh_enabled e) (hd_endpoints db)"

definition record_dlq :: "dead_letter \<Rightarrow> hook_db \<Rightarrow> hook_db" where
  "record_dlq e db = (if dl_id e \<in> dl_id ` set (hd_dlq db) then db else db\<lparr>hd_dlq := hd_dlq db @ [e]\<rparr>)"

definition post_webhook :: "(string \<times> string) option \<Rightarrow> string \<Rightarrow> time \<Rightarrow> string \<Rightarrow> hook_db \<Rightarrow> (problem + string) \<times> hook_db" where
  "post_webhook body bytes now tenant db =
     (case body of
        None \<Rightarrow> (Inl (bad_request ''invalid JSON''), db)
      | Some (url, secret) \<Rightarrow>
          if url = [] \<or> secret = [] then (Inl (unprocessable ''url and secret are required''), db)
          else
            let i = ''wh-'' @ hex_string bytes in
            case create_endpoint \<lparr>wh_id = i, wh_tenant = tenant, wh_url = url, wh_secret = secret, wh_enabled = True, wh_created = now\<rparr> db of
              (Some e, db1) \<Rightarrow> (Inl (internal e), db1)
            | (None, db1) \<Rightarrow> (Inr i, db1))"

definition get_webhooks :: "string \<Rightarrow> hook_db \<Rightarrow> (string \<times> string \<times> bool \<times> time) list" where
  "get_webhooks tenant db = map (\<lambda>e. (wh_id e, wh_url e, wh_enabled e, wh_created e)) (endpoints_of tenant db)"

subsection \<open>The consumer\<close>

record notify_env =
  ne_decode :: "string \<Rightarrow> event option"
  ne_body :: "event \<Rightarrow> string"
  ne_hmac :: "string \<Rightarrow> string \<Rightarrow> string"
  ne_net :: "hook_row \<Rightarrow> hook_request \<Rightarrow> hook_reply"
  ne_stop :: "hook_row \<Rightarrow> int \<Rightarrow> string option"
  ne_fresh :: "hook_row \<Rightarrow> string"
  ne_now :: "hook_row \<Rightarrow> time"
  ne_status_text :: "int \<Rightarrow> string"
  ne_list_fails :: bool

record notify_state =
  ns_db :: hook_db
  ns_delivered :: nat
  ns_errors :: nat
  ns_requests :: "hook_request list"
  ns_published :: "bus_message list"

definition row_endpoint :: "hook_row \<Rightarrow> endpoint" where
  "row_endpoint e = \<lparr>ep_url = wh_url e, ep_secret = wh_secret e, ep_tenant = wh_tenant e, ep_max_attempts = 0\<rparr>"

definition row_outcome :: "notify_env \<Rightarrow> string \<Rightarrow> hook_row \<Rightarrow> hook_outcome \<times> hook_trace" where
  "row_outcome ne body e = hook_deliver new_hook_client (ne_hmac ne) (ne_stop ne e) (ne_net ne e) (row_endpoint e) body"

definition hook_failed :: "hook_outcome \<Rightarrow> bool" where
  "hook_failed oc \<longleftrightarrow> oc_err oc \<noteq> None \<or> 300 \<le> oc_status oc"

definition row_letter :: "notify_env \<Rightarrow> string \<Rightarrow> hook_row \<Rightarrow> hook_outcome \<Rightarrow> dead_letter" where
  "row_letter ne body e oc =
     \<lparr>dl_id = hex_string (ne_fresh ne e), dl_endpoint = wh_id e, dl_tenant = wh_tenant e, dl_body = body, dl_attempts = oc_attempt oc,
      dl_error = (case oc_err oc of Some x \<Rightarrow> x | None \<Rightarrow> ''HTTP '' @ ne_status_text ne (oc_status oc)), dl_failed = ne_now ne e\<rparr>"

definition notify_endpoint :: "notify_env \<Rightarrow> string \<Rightarrow> hook_row \<Rightarrow> notify_state \<Rightarrow> notify_state" where
  "notify_endpoint ne body e s =
     (let (oc, tr) = row_outcome ne body e; s1 = s\<lparr>ns_requests := ns_requests s @ ht_requests tr\<rparr> in
      if hook_failed oc
      then s1\<lparr>ns_errors := ns_errors s + 1, ns_db := record_dlq (row_letter ne body e oc) (ns_db s),
              ns_published := ns_published s @ [\<lparr>bm_subject = ''notifications.dlq.v1'', bm_data = body, bm_headers = []\<rparr>]\<rparr>
      else s1\<lparr>ns_delivered := ns_delivered s + 1\<rparr>)"

text \<open>A message that does not decode is skipped; an error of the query ends the handling without an error.\<close>

definition notify_message :: "notify_env \<Rightarrow> bus_message \<Rightarrow> notify_state \<Rightarrow> bool \<times> notify_state" where
  "notify_message ne m s =
     (case ne_decode ne (bm_data m) of
        None \<Rightarrow> (False, s)
      | Some ev \<Rightarrow>
          if ne_list_fails ne then (True, s)
          else (True, fold (notify_endpoint ne (ne_body ne ev)) (endpoints_of (event_tenant ev) (ns_db s)) s))"

subsection \<open>One delivery\<close>

text \<open>The last attempt: the first one that succeeds, or the last one allowed.\<close>

definition last_attempt :: "(int \<Rightarrow> hook_outcome \<times> hook_request list) \<Rightarrow> int \<Rightarrow> int \<Rightarrow> int" where
  "last_attempt once a m = (case find (\<lambda>k. hook_ok (fst (once k))) [a..m] of Some k \<Rightarrow> k | None \<Rightarrow> m)"

lemma last_attempt_step:
  "a \<le> m \<Longrightarrow> last_attempt once a m = (if hook_ok (fst (once a)) then a else last_attempt once (a + 1) m)"
  by (simp add: last_attempt_def upto_rec1 [of a m])

lemma last_attempt_end: "last_attempt once m m = m"
  by (simp add: last_attempt_def)

lemma find_upto:
  assumes "find P [a..m] = Some k"
  shows "a \<le> k \<and> k \<le> m"
proof -
  have "k \<in> set [a..m]" using assms by (auto simp: find_Some_iff in_set_conv_nth)
  then show ?thesis by simp
qed

lemma last_attempt_bounds: "a \<le> m \<Longrightarrow> a \<le> last_attempt once a m \<and> last_attempt once a m \<le> m"
  by (auto simp: last_attempt_def split: option.split dest: find_upto)

lemma hook_loop_result:
  assumes "\<And>k. stop k = None" "a \<le> m"
  shows "hook_loop c stop once m a prev tr =
    (let n = last_attempt once a m in
     (fst (once n), \<lparr>ht_requests = ht_requests tr @ concat (map (snd \<circ> once) [a..n]), ht_waits = ht_waits tr @ map (hook_backoff c) [a..n - 1]\<rparr>))"
  using assms(2)
proof (induction "nat (m - a)" arbitrary: a prev tr)
  case 0
  then have "a = m" by simp
  then show ?case by (simp add: hook_loop.simps [of c stop once m m] last_attempt_end case_prod_beta Let_def)
next
  case (Suc d)
  then have a: "a < m" by simp
  show ?case
  proof (cases "hook_ok (fst (once a))")
    case True
    then show ?thesis using a by (simp add: hook_loop.simps [of c stop once m a] last_attempt_step case_prod_beta Let_def)
  next
    case False
    define n where "n = last_attempt once (a + 1) m"
    have n: "a + 1 \<le> n" using last_attempt_bounds [of "a + 1" m once] a by (simp add: n_def)
    have r: "[a..n] = a # [a + 1..n]" "[a..n - 1] = a # [a + 1..n - 1]" using n by (simp_all add: upto_rec1)
    have "last_attempt once a m = n" using False a by (simp add: last_attempt_step n_def)
    moreover have "hook_loop c stop once m a prev tr =
        hook_loop c stop once m (a + 1) (fst (once a)) (tr\<lparr>ht_requests := ht_requests tr @ snd (once a), ht_waits := ht_waits tr @ [hook_backoff c a]\<rparr>)"
      using False a assms(1) by (simp add: hook_loop.simps [of c stop once m a] case_prod_beta Let_def)
    moreover note Suc.hyps(1) [of "a + 1" "fst (once a)" "tr\<lparr>ht_requests := ht_requests tr @ snd (once a), ht_waits := ht_waits tr @ [hook_backoff c a]\<rparr>"]
    ultimately show ?thesis using Suc.hyps(2) a by (simp add: r Let_def flip: n_def)
  qed
qed

text \<open>The waits of the client that the service uses; the shift vanishes for a large number of attempts, so the wait does, too.\<close>

lemma service_backoff: "map (hook_backoff new_hook_client) [1..5] = map (\<lambda>k. k * second) [1, 2, 4, 8, 16]"
  by code_simp

lemma service_backoff_later: "map (hook_backoff new_hook_client) [6..34] = (32 * second) # replicate 28 (60 * second)"
  by code_simp

lemma service_backoff_negative: "hook_backoff new_hook_client 35 < 0"
  by code_simp

lemma i64_multiple: "i64 (2 ^ 64 * x) = 0"
  unfolding i64_def mod_mult_self4 by simp

lemma service_backoff_vanishes:
  assumes "56 \<le> k"
  shows "hook_backoff new_hook_client k = 0"
proof -
  have "nat (k - 1) = 55 + nat (k - 56)" using assms by simp
  then have "(2::int) ^ nat (k - 1) = 2 ^ 55 * 2 ^ nat (k - 56)" by (simp only: power_add)
  then have "i64 (1000 * millisecond) * 2 ^ nat (k - 1) = 2 ^ 64 * (1953125 * 2 ^ nat (k - 56))" by (simp add: i64_def)
  also have "i64 \<dots> = 0" by (rule i64_multiple)
  finally show ?thesis by (simp add: hook_backoff_def new_hook_client_def)
qed

lemma service_waits:
  assumes "1 \<le> n" "n \<le> 6"
  shows "map (hook_backoff new_hook_client) [1..n - 1] = take (nat n - 1) (map (\<lambda>k. k * second) [1, 2, 4, 8, 16])"
proof -
  have "[1..n - 1] = take (nat n - 1) [1..5]"
    using assms by (intro nth_equalityI) (auto simp: min_def)
  then show ?thesis by (simp only: take_map service_backoff [symmetric])
qed

lemma deliver_uninterrupted:
  assumes "ep_url ep \<noteq> []" "ep_secret ep \<noteq> []" "\<And>k. stop k = None" "m = (if ep_max_attempts ep = 0 then 6 else ep_max_attempts ep)" "1 \<le> m"
  shows "hook_deliver c hmac stop net ep body =
    (let once = hook_attempt hmac net ep body; n = last_attempt once 1 m in
     (fst (once n), \<lparr>ht_requests = concat (map (snd \<circ> once) [1..n]), ht_waits = map (hook_backoff c) [1..n - 1]\<rparr>))"
  using assms hook_loop_result [of stop 1 m c "hook_attempt hmac net ep body"] by (simp add: hook_deliver_def Let_def)

text \<open>A negative number of attempts sends nothing, and its empty outcome is no failure for the consumer.\<close>

lemma negative_attempts_send_nothing:
  assumes "ep_url ep \<noteq> []" "ep_secret ep \<noteq> []" "ep_max_attempts ep < 0"
  shows "hook_deliver c hmac stop net ep body = (no_outcome, \<lparr>ht_requests = [], ht_waits = []\<rparr>) \<and> \<not> hook_failed no_outcome"
  using assms by (simp add: hook_deliver_def hook_loop.simps hook_failed_def no_outcome_def)

subsection \<open>One event\<close>

text \<open>An answer with a status below 200 is neither a success of the client nor a failure of the consumer.\<close>

definition informational :: "hook_outcome \<Rightarrow> bool" where
  "informational oc \<longleftrightarrow> oc_err oc = None \<and> oc_status oc < 200"

lemma failed_iff: "hook_failed oc \<longleftrightarrow> \<not> hook_ok oc \<and> \<not> informational oc"
  by (auto simp: hook_failed_def hook_ok_def informational_def)

lemma not_failed_split:
  "length (filter (\<lambda>e. \<not> hook_failed (f e)) eps) = length (filter (\<lambda>e. hook_ok (f e)) eps) + length (filter (\<lambda>e. informational (f e)) eps)"
  by (induction eps) (auto simp: failed_iff hook_ok_def informational_def)

definition letters :: "notify_env \<Rightarrow> string \<Rightarrow> hook_row list \<Rightarrow> dead_letter list" where
  "letters ne body eps = map (\<lambda>e. row_letter ne body e (fst (row_outcome ne body e))) (filter (\<lambda>e. hook_failed (fst (row_outcome ne body e))) eps)"

lemma notify_endpoints_result:
  assumes "distinct (map dl_id (hd_dlq (ns_db s) @ letters ne body eps))"
  shows "fold (notify_endpoint ne body) eps s =
    s\<lparr>ns_db := (ns_db s)\<lparr>hd_dlq := hd_dlq (ns_db s) @ letters ne body eps\<rparr>,
      ns_delivered := ns_delivered s + length (filter (\<lambda>e. \<not> hook_failed (fst (row_outcome ne body e))) eps),
      ns_errors := ns_errors s + length (letters ne body eps),
      ns_requests := ns_requests s @ concat (map (\<lambda>e. ht_requests (snd (row_outcome ne body e))) eps),
      ns_published := ns_published s @ map (\<lambda>l. \<lparr>bm_subject = ''notifications.dlq.v1'', bm_data = dl_body l, bm_headers = []\<rparr>) (letters ne body eps)\<rparr>"
  using assms
proof (induction eps arbitrary: s)
  case (Cons e eps)
  define oc where "oc = fst (row_outcome ne body e)"
  define s1 where "s1 = notify_endpoint ne body e s"
  have body: "dl_body (row_letter ne body e oc) = body" by (simp add: row_letter_def)
  show ?case
  proof (cases "hook_failed oc")
    case True
    define l where "l = row_letter ne body e oc"
    have ls: "letters ne body (e # eps) = l # letters ne body eps" using True by (simp add: letters_def l_def oc_def)
    have "record_dlq l (ns_db s) = (ns_db s)\<lparr>hd_dlq := hd_dlq (ns_db s) @ [l]\<rparr>" using Cons.prems by (auto simp: record_dlq_def ls)
    then have s1: "s1 = s\<lparr>ns_requests := ns_requests s @ ht_requests (snd (row_outcome ne body e)), ns_errors := ns_errors s + 1,
        ns_db := (ns_db s)\<lparr>hd_dlq := hd_dlq (ns_db s) @ [l]\<rparr>,
        ns_published := ns_published s @ [\<lparr>bm_subject = ''notifications.dlq.v1'', bm_data = body, bm_headers = []\<rparr>]\<rparr>"
      using True by (simp add: s1_def notify_endpoint_def case_prod_beta Let_def l_def oc_def)
    have "distinct (map dl_id (hd_dlq (ns_db s1) @ letters ne body eps))" using Cons.prems by (simp add: s1 ls)
    from Cons.IH [OF this] show ?thesis using True by (simp add: s1_def [symmetric] ls) (simp add: s1 oc_def l_def row_letter_def)
  next
    case False
    have ls: "letters ne body (e # eps) = letters ne body eps" using False by (simp add: letters_def oc_def)
    have s1: "s1 = s\<lparr>ns_requests := ns_requests s @ ht_requests (snd (row_outcome ne body e)), ns_delivered := ns_delivered s + 1\<rparr>"
      using False by (simp add: s1_def notify_endpoint_def case_prod_beta Let_def oc_def)
    have "distinct (map dl_id (hd_dlq (ns_db s1) @ letters ne body eps))" using Cons.prems by (simp add: s1 ls)
    from Cons.IH [OF this] show ?thesis using False by (simp add: s1_def [symmetric] ls) (simp add: s1 oc_def)
  qed
qed (simp add: letters_def)

subsection \<open>Properties\<close>

definition row_once :: "notify_env \<Rightarrow> string \<Rightarrow> hook_row \<Rightarrow> int \<Rightarrow> hook_outcome \<times> hook_request list" where
  "row_once ne body e = hook_attempt (ne_hmac ne) (ne_net ne e) (row_endpoint e) body"

lemma last_attempt_first:
  assumes "a \<le> m"
  shows "(\<forall>k \<in> {a..<last_attempt once a m}. \<not> hook_ok (fst (once k))) \<and> (hook_ok (fst (once (last_attempt once a m))) \<or> last_attempt once a m = m)"
  using assms
proof (induction "nat (m - a)" arbitrary: a)
  case 0
  then show ?case by (simp add: last_attempt_end)
next
  case (Suc d)
  have IH: "(\<forall>k \<in> {a + 1..<last_attempt once (a + 1) m}. \<not> hook_ok (fst (once k))) \<and>
      (hook_ok (fst (once (last_attempt once (a + 1) m))) \<or> last_attempt once (a + 1) m = m)"
    using Suc.hyps(2) by (intro Suc.hyps(1)) simp_all
  have ivl: "k \<in> {a..<n} \<Longrightarrow> k = a \<or> k \<in> {a + 1..<n}" for k n :: int by auto
  show ?case
  proof (cases "hook_ok (fst (once a))")
    case True
    then show ?thesis using Suc.prems by (simp add: last_attempt_step)
  next
    case False
    then have "last_attempt once a m = last_attempt once (a + 1) m" using Suc.prems by (simp add: last_attempt_step)
    then show ?thesis using IH False ivl by metis
  qed
qed

text \<open>A delivery of the service makes between one and six attempts and stops at the first one that is answered with a 2xx status:
its outcome is that of the last attempt made, which succeeded or was the sixth; it sends the signed request of each attempt once, in
order, and waits 1, 2, 4, 8 and 16 seconds between them.\<close>

theorem webhook_stops_at_first_success:
  assumes "wh_url e \<noteq> []" "wh_secret e \<noteq> []" "\<And>k. ne_stop ne e k = None"
  shows "\<exists>n. 1 \<le> n \<and> n \<le> 6 \<and> (\<forall>k \<in> {1..<n}. \<not> hook_ok (fst (row_once ne body e k))) \<and> (hook_ok (fst (row_once ne body e n)) \<or> n = 6) \<and>
    row_outcome ne body e =
      (fst (row_once ne body e n),
       \<lparr>ht_requests = concat (map (snd \<circ> row_once ne body e) [1..n]), ht_waits = take (nat n - 1) (map (\<lambda>k. k * second) [1, 2, 4, 8, 16])\<rparr>)"
proof -
  define n where "n = last_attempt (row_once ne body e) 1 6"
  have n: "1 \<le> n" "n \<le> 6" using last_attempt_bounds [of 1 6 "row_once ne body e"] by (simp_all add: n_def)
  have "row_outcome ne body e = (fst (row_once ne body e n), \<lparr>ht_requests = concat (map (snd \<circ> row_once ne body e) [1..n]),
      ht_waits = map (hook_backoff new_hook_client) [1..n - 1]\<rparr>)"
    using deliver_uninterrupted [of "row_endpoint e" "ne_stop ne e" 6 new_hook_client "ne_hmac ne" "ne_net ne e" body] assms
    by (simp add: row_outcome_def row_endpoint_def row_once_def n_def Let_def)
  moreover have "(\<forall>k \<in> {1..<n}. \<not> hook_ok (fst (row_once ne body e k))) \<and> (hook_ok (fst (row_once ne body e n)) \<or> n = 6)"
    using last_attempt_first [of 1 6 "row_once ne body e"] by (simp add: n_def)
  ultimately show ?thesis using n by (intro exI [of _ n]) (simp add: service_waits)
qed

definition flaky_env :: notify_env where
  "flaky_env = \<lparr>ne_decode = (\<lambda>_. Some \<lparr>event_id = ''e'', event_tenant = ''t'', event_stream = [], event_summary = [], event_class = [], event_rule = []\<rparr>),
     ne_body = event_id, ne_hmac = (\<lambda>k b. k),
     ne_net = (\<lambda>e r. if wh_id e = ''down'' then NoAnswer ''refused'' else if hr_attempt r < 3 then Answered 503 else Answered 200),
     ne_stop = (\<lambda>_ _. None), ne_fresh = wh_id, ne_now = (\<lambda>_. 0), ne_status_text = (\<lambda>_. []), ne_list_fails = False\<rparr>"

definition hook_row_named :: "string \<Rightarrow> hook_row" where
  "hook_row_named i = \<lparr>wh_id = i, wh_tenant = ''t'', wh_url = ''u'', wh_secret = ''s'', wh_enabled = True, wh_created = 0\<rparr>"

lemma webhook_stops_at_first_success_witness:
  "\<exists>n. 1 \<le> n \<and> n \<le> 6 \<and> hook_ok (fst (row_once flaky_env ''b'' (hook_row_named ''up'') n)) \<and>
    row_outcome flaky_env ''b'' (hook_row_named ''up'') =
      (fst (row_once flaky_env ''b'' (hook_row_named ''up'') n),
       \<lparr>ht_requests = concat (map (snd \<circ> row_once flaky_env ''b'' (hook_row_named ''up'')) [1..n]),
        ht_waits = take (nat n - 1) (map (\<lambda>k. k * second) [1, 2, 4, 8, 16])\<rparr>)"
proof -
  have "hook_ok (fst (row_once flaky_env ''b'' (hook_row_named ''up'') 6))" by code_simp
  then show ?thesis
    using webhook_stops_at_first_success [of "hook_row_named ''up''" flaky_env "''b''"] by (auto simp: hook_row_named_def flaky_env_def)
qed

text \<open>
  C24: An event that decodes is offered to every enabled endpoint of its tenant, in order, and each of them is accounted for once. An
  endpoint whose final answer is a 2xx counts as delivered. For an endpoint that failed in the end the event is kept in the
  dead-letter table and announced on the dead-letter subject. The exception, against the rule in \<open>webhook.go\<close> that everything
  but a 2xx is a failure, is an answer with a status below 200: it counts as delivered as well. When the endpoints cannot be
  queried the message is acknowledged and nothing else happens. The ids of the new letters are fresh.
\<close>

theorem event_is_delivered_or_dead_lettered:
  assumes "ne_decode ne (bm_data m) = Some ev"
    and "eps = filter (\<lambda>e. wh_tenant e = event_tenant ev \<and> wh_enabled e) (hd_endpoints (ns_db s))"
    and "accepted = filter (\<lambda>e. hook_ok (fst (row_outcome ne (ne_body ne ev) e))) eps"
    and "early = filter (\<lambda>e. informational (fst (row_outcome ne (ne_body ne ev) e))) eps"
    and "lost = filter (\<lambda>e. \<not> hook_ok (fst (row_outcome ne (ne_body ne ev) e)) \<and> \<not> informational (fst (row_outcome ne (ne_body ne ev) e))) eps"
    and "ls = map (\<lambda>e. row_letter ne (ne_body ne ev) e (fst (row_outcome ne (ne_body ne ev) e))) lost"
    and "distinct (map dl_id (hd_dlq (ns_db s) @ ls))"
  shows "notify_message ne m s =
    (True, if ne_list_fails ne then s else s\<lparr>ns_db := (ns_db s)\<lparr>hd_dlq := hd_dlq (ns_db s) @ ls\<rparr>,
      ns_delivered := ns_delivered s + length accepted + length early, ns_errors := ns_errors s + length lost,
      ns_requests := ns_requests s @ concat (map (\<lambda>e. ht_requests (snd (row_outcome ne (ne_body ne ev) e))) eps),
      ns_published := ns_published s @ map (\<lambda>l. \<lparr>bm_subject = ''notifications.dlq.v1'', bm_data = dl_body l, bm_headers = []\<rparr>) ls\<rparr>)
    \<and> length accepted + length early + length lost = length eps"
proof -
  define body where "body = ne_body ne ev"
  have e: "eps = endpoints_of (event_tenant ev) (ns_db s)" using assms(2) by (simp add: endpoints_of_def)
  have ls: "ls = letters ne body eps" using assms(5,6) by (simp add: letters_def failed_iff body_def)
  have n: "length ls = length lost" using assms(6) by simp
  have "length (filter (\<lambda>e. \<not> hook_failed (fst (row_outcome ne body e))) eps) = length accepted + length early"
    unfolding assms(3,4) body_def [symmetric] by (rule not_failed_split)
  moreover from this have "length accepted + length early + length lost = length eps"
    using sum_length_filter_compl [of "\<lambda>e. hook_failed (fst (row_outcome ne body e))" eps] n unfolding ls by (simp add: letters_def)
  ultimately show ?thesis
    using assms(1) notify_endpoints_result [OF assms(7) [unfolded ls]] n unfolding ls
    by (simp add: notify_message_def body_def flip: e)
qed

definition two_hooks :: notify_state where
  "two_hooks = \<lparr>ns_db = \<lparr>hd_endpoints = [hook_row_named ''up'', hook_row_named ''down''], hd_dlq = []\<rparr>, ns_delivered = 0, ns_errors = 0,
     ns_requests = [], ns_published = []\<rparr>"

lemma two_hooks_letters: "map dl_id (letters flaky_env ''e'' [hook_row_named ''up'', hook_row_named ''down'']) = [''646f776e'']"
  by code_simp

lemma two_hooks_outcomes:
  "map (\<lambda>e. hook_ok (fst (row_outcome flaky_env ''e'' e))) [hook_row_named ''up'', hook_row_named ''down''] = [True, False]"
  "map (\<lambda>e. informational (fst (row_outcome flaky_env ''e'' e))) [hook_row_named ''up'', hook_row_named ''down''] = [False, False]"
  by code_simp+

lemma event_is_delivered_or_dead_lettered_witness:
  "ns_delivered (snd (notify_message flaky_env \<lparr>bm_subject = ''events.v1'', bm_data = [], bm_headers = []\<rparr> two_hooks)) = 1 \<and>
   ns_errors (snd (notify_message flaky_env \<lparr>bm_subject = ''events.v1'', bm_data = [], bm_headers = []\<rparr> two_hooks)) = 1"
proof -
  let ?m = "\<lparr>bm_subject = ''events.v1'', bm_data = [], bm_headers = []\<rparr>" and ?eps = "[hook_row_named ''up'', hook_row_named ''down'']"
  let ?ev = "\<lparr>event_id = ''e'', event_tenant = ''t'', event_stream = [], event_summary = [], event_class = [], event_rule = []\<rparr>"
  have b: "ne_body flaky_env ?ev = ''e''" "ne_decode flaky_env [] = Some ?ev" "\<not> ne_list_fails flaky_env" by (simp_all add: flaky_env_def)
  have eps: "?eps = filter (\<lambda>e. wh_tenant e = event_tenant ?ev \<and> wh_enabled e) (hd_endpoints (ns_db two_hooks))"
    by (simp add: two_hooks_def hook_row_named_def)
  note all = event_is_delivered_or_dead_lettered [where ne = flaky_env and m = ?m and s = two_hooks and ev = ?ev, OF _ eps refl refl refl refl]
  show ?thesis
    using all two_hooks_outcomes b by (simp add: two_hooks_def)
qed

text \<open>A status below 200 is retried as a failure, and then counted as a delivery.\<close>

lemma informational_status_counts_as_delivered:
  "oc_err oc = None \<Longrightarrow> oc_status oc < 200 \<Longrightarrow> \<not> hook_ok oc \<and> \<not> hook_failed oc"
  by (simp add: hook_ok_def hook_failed_def)

end
