(* ===== verification/Watchdog.thy ===== *)
theory Watchdog
  imports Autonomy Bus GoUtf8
begin

section \<open>services/slo-watchdog: burn-rate signals\<close>

text \<open>
  Model of \<open>cmd/slo-watchdog/main.go\<close> (the tick, the window substitution, the routes) and of \<open>internal/store\<close>. The metrics
  server is a function from a query to the value and the error that \<open>Query\<close> returns; the JSON text of a signal is a parameter.
  The exported gauges are left out. The database refuses a duplicate key and, as a parameter says, a value that is not a number.
\<close>

subsection \<open>Targets and signals\<close>

record slo_target =
  so_id :: string
  so_tenant :: string
  so_name :: string
  so_promql :: string
  so_target :: fl
  so_window :: int
  so_paused :: bool
  so_created :: time
  so_updated :: time

record slo_signal =
  si_id :: string
  si_tenant :: string
  si_target :: string
  si_1h :: fl
  si_6h :: fl
  si_24h :: fl
  si_severity :: string
  si_emitted :: time

record slo_db =
  sl_targets :: "slo_target list"
  sl_signals :: "slo_signal list"

definition upsert_target :: "time \<Rightarrow> slo_target \<Rightarrow> slo_db \<Rightarrow> slo_db" where
  "upsert_target now t db =
     (let t1 = t\<lparr>so_created := (if so_created t = 0 then now else so_created t), so_updated := now\<rparr> in
      if so_id t \<in> so_id ` set (sl_targets db)
      then db\<lparr>sl_targets := map (\<lambda>r. if so_id r = so_id t
             then r\<lparr>so_name := so_name t1, so_promql := so_promql t1, so_target := so_target t1, so_window := so_window t1,
                    so_paused := so_paused t1, so_updated := so_updated t1\<rparr> else r) (sl_targets db)\<rparr>
      else db\<lparr>sl_targets := sl_targets db @ [t1]\<rparr>)"

definition active_targets :: "slo_db \<Rightarrow> slo_target list" where
  "active_targets db = take 1000 (sort_key (\<lambda>t. (so_tenant t, so_name t)) (filter (\<lambda>t. \<not> so_paused t) (sl_targets db)))"

definition targets_of :: "string \<Rightarrow> slo_db \<Rightarrow> slo_target list" where
  "targets_of tenant db = sort_key so_name (filter (\<lambda>t. so_tenant t = tenant) (sl_targets db))"

definition storable :: "bool \<Rightarrow> slo_signal \<Rightarrow> bool" where
  "storable keeps_nan sig \<longleftrightarrow> keeps_nan \<or> NaN \<notin> {si_1h sig, si_6h sig, si_24h sig}"

definition insert_signal :: "bool \<Rightarrow> slo_signal \<Rightarrow> slo_db \<Rightarrow> slo_db" where
  "insert_signal keeps_nan sig db =
     (if si_id sig \<in> si_id ` set (sl_signals db) \<or> \<not> storable keeps_nan sig then db
      else db\<lparr>sl_signals := sl_signals db @ [sig]\<rparr>)"

definition list_signals :: "string \<Rightarrow> time \<Rightarrow> int \<Rightarrow> slo_db \<Rightarrow> slo_signal list" where
  "list_signals tenant since limit db =
     take (nat (if limit \<le> 0 \<or> 200 < limit then 50 else limit))
       (sort_key (\<lambda>s. - si_emitted s) (filter (\<lambda>s. si_tenant s = tenant \<and> since \<le> si_emitted s) (sl_signals db)))"

definition post_target :: "string \<Rightarrow> time \<Rightarrow> slo_target option \<Rightarrow> slo_db \<Rightarrow> (problem + slo_target) \<times> slo_db" where
  "post_target tenant now body db =
     (case body of
        None \<Rightarrow> (Inl (bad_request ''invalid JSON''), db)
      | Some t \<Rightarrow>
          let t1 = t\<lparr>so_tenant := tenant, so_id := (if so_id t = [] then ''slo-'' @ print_int (unix_nano now) else so_id t),
                     so_window := (if so_window t = 0 then 28 * 24 * 3600 else so_window t),
                     so_target := (if fl_eq (so_target t) (Fin 0) then fl_round f64 (999 / 1000) else so_target t)\<rparr> in
          (Inr t1, upsert_target now t1 db))"

definition get_signals :: "time \<Rightarrow> time option \<Rightarrow> string \<Rightarrow> slo_db \<Rightarrow> slo_signal list" where
  "get_signals now since tenant db = list_signals tenant (case since of Some x \<Rightarrow> x | None \<Rightarrow> now - 24 * 60 * minute) 100 db"

subsection \<open>Windows\<close>

definition placeholder :: string where "placeholder = ''__WINDOW__''"

text \<open>The copy of a byte goes through \<open>string(b)\<close>, which is the encoding of the rune with that number.\<close>

function subst_window :: "string \<Rightarrow> string \<Rightarrow> string" where
  "subst_window window s =
     (if s = [] then []
      else if has_prefix s placeholder then window @ subst_window window (drop (length placeholder) s)
      else encode_rune (of_char (hd s)) @ subst_window window (tl s))"
  by pat_completeness auto
termination by (relation "measure (\<lambda>(w, s). length s)") (auto simp: placeholder_def)

declare subst_window.simps [simp del]

definition with_window :: "string \<Rightarrow> string \<Rightarrow> string" where
  "with_window expr window = (if \<not> str_contains expr placeholder then expr else subst_window window expr)"

subsection \<open>The tick\<close>

record watch_env =
  we_query :: "string \<Rightarrow> fl \<times> string option"
  we_now :: "slo_target \<Rightarrow> time"
  we_id_time :: "slo_target \<Rightarrow> time"
  we_json :: "slo_signal \<Rightarrow> string"
  we_keeps_nan :: bool

record watch_state =
  ws_db :: slo_db
  ws_published :: "bus_message list"

definition observe :: "watch_env \<Rightarrow> slo_target \<Rightarrow> string \<Rightarrow> fl \<times> string option" where
  "observe we t window = we_query we (with_window (so_promql t) window)"

definition slo_signal_of :: "watch_env \<Rightarrow> slo_target \<Rightarrow> slo_signal option" where
  "slo_signal_of we t =
     (let (obs1, e1) = observe we t ''1h''; (obs6, e6) = observe we t ''6h''; (obs24, e24) = observe we t ''24h'' in
      if e1 \<noteq> None \<and> e6 \<noteq> None \<and> e24 \<noteq> None then None
      else
        let b1 = burn_rate obs1 (so_target t); b6 = burn_rate obs6 (so_target t); b24 = burn_rate obs24 (so_target t);
            severity = multi_window b1 b6 b24 in
        if severity = [] then None
        else Some \<lparr>si_id = ''ss-'' @ print_int (unix_nano (we_id_time we t)), si_tenant = so_tenant t, si_target = so_id t,
                   si_1h = b1, si_6h = b6, si_24h = b24, si_severity = severity, si_emitted = we_now we t\<rparr>)"

text \<open>A signal that the encoder refuses is published without a body.\<close>

definition signal_message_of :: "watch_env \<Rightarrow> slo_signal \<Rightarrow> bus_message" where
  "signal_message_of we sig =
     \<lparr>bm_subject = ''autonomy.signal.slo.v1'',
      bm_data = (if is_number (si_1h sig) \<and> is_number (si_6h sig) \<and> is_number (si_24h sig) then we_json we sig else []),
      bm_headers = [(''tenant_id'', si_tenant sig), (''target_id'', si_target sig), (''severity'', si_severity sig)]\<rparr>"

definition watch_target :: "watch_env \<Rightarrow> slo_target \<Rightarrow> watch_state \<Rightarrow> watch_state" where
  "watch_target we t s =
     (case slo_signal_of we t of
        None \<Rightarrow> s
      | Some sig \<Rightarrow> s\<lparr>ws_db := insert_signal (we_keeps_nan we) sig (ws_db s), ws_published := ws_published s @ [signal_message_of we sig]\<rparr>)"

definition watch_tick :: "bool \<Rightarrow> watch_env \<Rightarrow> watch_state \<Rightarrow> watch_state" where
  "watch_tick have_server we s = (if \<not> have_server then s else fold (watch_target we) (active_targets (ws_db s)) s)"

subsection \<open>Burn rates follow the loss\<close>

definition severity_level :: "string \<Rightarrow> nat" where
  "severity_level s = (if s = ''critical'' then 3 else if s = ''warn'' then 2 else if s = ''info'' then 1 else 0)"

lemma fl_le_trans: "fl_le (Fin c) a \<Longrightarrow> fl_le a b \<Longrightarrow> fl_le (Fin c) b"
  by (cases a; cases b) (auto simp: fl_le_def)

lemma severity_level_mono:
  assumes "fl_le a1 b1" "fl_le a6 b6" "fl_le a24 b24"
  shows "severity_level (multi_window a1 a6 a24) \<le> severity_level (multi_window b1 b6 b24)"
proof -
  have "fl_le (Fin c) a1 \<Longrightarrow> fl_le (Fin c) b1" "fl_le (Fin c) a6 \<Longrightarrow> fl_le (Fin c) b6" "fl_le (Fin c) a24 \<Longrightarrow> fl_le (Fin c) b24" for c
    using assms fl_le_trans by blast+
  then show ?thesis by (auto simp: multi_window_def severity_level_def)
qed

lemma fl_round_mono: "x \<le> y \<Longrightarrow> fl_le (fl_round f64 x) (fl_round f64 y)"
proof -
  assume "x \<le> y"
  then have "rnd f64 x \<le> rnd f64 y" by (rule f64_mono)
  then show ?thesis by (auto simp: fl_round_def Let_def fl_le_def)
qed

lemma ratio_loss:
  assumes "0 \<le> o1" "o1 \<le> 1"
  shows "fl_sub f64 (Fin 1) (Fin o1) = Fin (rnd f64 (1 - o1))" "0 \<le> rnd f64 (1 - o1)"
proof -
  show "0 \<le> rnd f64 (1 - o1)" using assms by (intro f64_nonneg) simp
  have "1 - o1 \<le> 1" "(1 :: rat) \<le> 2 ^ 100" using assms(1) by simp_all
  then have "1 - o1 \<le> 2 ^ 100" by linarith
  then have "fl_round f64 (1 - o1) = Fin (rnd f64 (1 - o1))" using assms by (intro f64_round_nonneg) simp_all
  then show "fl_sub f64 (Fin 1) (Fin o1) = Fin (rnd f64 (1 - o1))" by (simp add: fl_sub_def)
qed

lemma burn_rate_value:
  assumes "0 \<le> t" "t \<le> 1" "0 \<le> o1" "o1 \<le> 1"
  shows "burn_rate (Fin o1) (Fin t) =
    (if rnd f64 (1 - t) \<le> 0 then Fin 0 else fl_round f64 (rnd f64 (1 - o1) / rnd f64 (1 - t)))"
  using ratio_loss [OF assms(1,2)] ratio_loss [OF assms(3,4)]
  by (auto simp: burn_rate_def fl_le_def Let_def)

lemma burn_rate_mono:
  assumes "0 \<le> t" "t \<le> 1" "0 \<le> o2" "o2 \<le> o1" "o1 \<le> 1"
  shows "fl_le (burn_rate (Fin o1) (Fin t)) (burn_rate (Fin o2) (Fin t))"
proof -
  have "rnd f64 (1 - o1) \<le> rnd f64 (1 - o2)" using assms by (intro f64_mono) simp
  then have "0 < rnd f64 (1 - t) \<Longrightarrow> fl_le (fl_round f64 (rnd f64 (1 - o1) / rnd f64 (1 - t))) (fl_round f64 (rnd f64 (1 - o2) / rnd f64 (1 - t)))"
    by (intro fl_round_mono divide_right_mono) simp_all
  then show ?thesis using assms by (auto simp: burn_rate_value fl_le_def)
qed

text \<open>A burn of the whole budget fourteen times over.\<close>

lemma total_loss_burns:
  assumes "0 \<le> t" "t \<le> 1" "0 < rnd f64 (1 - t)" "rnd f64 (1 - t) \<le> 1 / 14"
  shows "fl_le (Fin 14) (burn_rate (Fin 0) (Fin t))"
proof -
  have "14 \<le> 1 / rnd f64 (1 - t)" using assms(3,4) by (simp add: field_simps)
  then have "fl_le (fl_round f64 14) (fl_round f64 (1 / rnd f64 (1 - t)))" by (rule fl_round_mono)
  moreover have "fl_round f64 14 = Fin 14" using f64_round(1) [of 14] f64_int [of 14] by simp
  ultimately show ?thesis using assms by (simp add: burn_rate_value)
qed

subsection \<open>One tick\<close>

lemma fold_watch:
  assumes "distinct (map si_id (sl_signals (ws_db s) @ List.map_filter (slo_signal_of we) ts))"
  shows "fold (watch_target we) ts s =
    s\<lparr>ws_db := (ws_db s)\<lparr>sl_signals := sl_signals (ws_db s) @
         filter (storable (we_keeps_nan we)) (List.map_filter (slo_signal_of we) ts)\<rparr>,
      ws_published := ws_published s @ map (signal_message_of we) (List.map_filter (slo_signal_of we) ts)\<rparr>"
  using assms
proof (induction ts arbitrary: s)
  case Nil
  then show ?case by (simp add: List.map_filter_def)
next
  case (Cons t ts)
  show ?case
  proof (cases "slo_signal_of we t")
    case None
    then show ?thesis using Cons by (simp add: watch_target_def List.map_filter_simps)
  next
    case (Some g)
    define s1 where "s1 = watch_target we t s"
    have fresh: "si_id g \<notin> si_id ` set (sl_signals (ws_db s))" using Cons.prems Some by (auto simp: List.map_filter_simps)
    have s1: "s1 = s\<lparr>ws_db := (ws_db s)\<lparr>sl_signals := sl_signals (ws_db s) @ (if storable (we_keeps_nan we) g then [g] else [])\<rparr>,
        ws_published := ws_published s @ [signal_message_of we g]\<rparr>"
      using fresh Some by (auto simp: s1_def watch_target_def insert_signal_def)
    have "distinct (map si_id (sl_signals (ws_db s1) @ List.map_filter (slo_signal_of we) ts))"
      using Cons.prems Some by (auto simp: s1 List.map_filter_simps)
    from Cons.IH [OF this] show ?thesis
      using Some by (simp add: s1_def [symmetric] List.map_filter_simps) (simp add: s1)
  qed
qed

text \<open>The signal of a target, by the table of \<open>MultiWindow\<close>.\<close>

lemma slo_signal_table:
  fixes we t
  defines "b \<equiv> \<lambda>w. burn_rate (fst (we_query we (with_window (so_promql t) w))) (so_target t)"
  defines "critical \<equiv> fl_le (Fin 14) (b ''1h'') \<and> fl_le (Fin 6) (b ''6h'')"
  defines "warning \<equiv> fl_le (Fin 6) (b ''1h'') \<and> fl_le (Fin 3) (b ''6h'')"
  shows "slo_signal_of we t =
    (if (snd (we_query we (with_window (so_promql t) ''1h'')) = None \<or> snd (we_query we (with_window (so_promql t) ''6h'')) = None \<or>
        snd (we_query we (with_window (so_promql t) ''24h'')) = None) \<and>
        (critical \<or> warning \<or> fl_le (Fin 1) (b ''24h''))
     then Some \<lparr>si_id = ''ss-'' @ print_int (unix_nano (we_id_time we t)), si_tenant = so_tenant t, si_target = so_id t,
        si_1h = b ''1h'', si_6h = b ''6h'', si_24h = b ''24h'',
        si_severity = (if critical then ''critical'' else if warning then ''warn'' else ''info''), si_emitted = we_now we t\<rparr>
     else None)"
  by (auto simp: slo_signal_of_def observe_def multi_window_def b_def critical_def warning_def Let_def split: prod.split)

lemma map_filter_if: "List.map_filter (\<lambda>x. if P x then Some (f x) else None) xs = map f (filter P xs)"
  by (induction xs) (simp_all add: List.map_filter_simps)

lemma level_names: "severity_level (multi_window a b c) = 0 \<longleftrightarrow> multi_window a b c = []"
  by (simp add: multi_window_def severity_level_def)

subsection \<open>Windows are substituted\<close>

lemma subst_window_byte: "c \<noteq> CHR ''_'' \<Longrightarrow> subst_window w (c # s) = encode_rune (of_char c) @ subst_window w s"
  by (subst subst_window.simps) (simp add: has_prefix_def placeholder_def)

lemma subst_window_plain:
  "list_all (\<lambda>c. c \<noteq> CHR ''_'' \<and> of_char c < (128 :: nat)) p \<Longrightarrow> subst_window w (p @ s) = p @ subst_window w s"
  by (induction p) (simp_all add: subst_window_byte encode_rune_def Let_def)

lemma subst_window_hit: "subst_window w (placeholder @ s) = w @ subst_window w s"
proof -
  have "has_prefix (placeholder @ s) placeholder" "placeholder \<noteq> []" by (simp_all add: has_prefix_def placeholder_def)
  then show ?thesis by (subst subst_window.simps) simp
qed

text \<open>A byte outside ASCII is not copied but encoded: the two bytes of an accented letter become four.\<close>

lemma window_breaks_utf8:
  assumes "c \<noteq> CHR ''_''"
  shows "with_window (c # placeholder) ''1h'' = encode_rune (of_char c) @ ''1h''"
proof -
  have "str_contains (c # placeholder) placeholder" by (simp add: str_contains_def placeholder_def has_prefix_def)
  moreover have "subst_window ''1h'' placeholder = ''1h''" using subst_window_hit [of "''1h''" "[]"] by (simp add: subst_window.simps [of _ "[]"])
  ultimately show ?thesis using assms by (simp add: with_window_def subst_window_byte)
qed

lemma high_byte_doubles:
  assumes "128 \<le> (of_char c :: nat)"
  shows "length (encode_rune (of_char c)) = 2"
proof -
  have "of_char c < (2048 :: nat)" by (rule less_trans [OF nat_of_char_less_256]) simp
  then show ?thesis using assms by (simp add: encode_rune_def Let_def)
qed

subsection \<open>Targets of other tenants\<close>

text \<open>A target that is posted with the id of another tenant's target replaces its query and its threshold; the row stays the other's.\<close>

lemma foreign_target_is_overwritten:
  assumes "r \<in> set (sl_targets db)" "so_id t = so_id r" "so_id t \<noteq> []" "\<not> fl_eq (so_target t) (Fin 0)"
  shows "\<exists>r' \<in> set (sl_targets (snd (post_target tenant now (Some t) db))).
    so_id r' = so_id r \<and> so_tenant r' = so_tenant r \<and> so_promql r' = so_promql t \<and> so_target r' = so_target t \<and> so_paused r' = so_paused t"
proof -
  define w where "w = (if so_window t = 0 then 28 * 24 * 3600 else so_window t)"
  define f :: "slo_target \<Rightarrow> slo_target" where "f = (\<lambda>q. if so_id q = so_id t then q\<lparr>so_name := so_name t, so_promql := so_promql t, so_target := so_target t, so_window := w,
      so_paused := so_paused t, so_updated := now\<rparr> else q)"
  have "so_id t \<in> so_id ` set (sl_targets db)" using assms(1,2) by (metis image_eqI)
  then have "sl_targets (snd (post_target tenant now (Some t) db)) = map f (sl_targets db)"
    using assms(3,4) by (simp add: post_target_def upsert_target_def Let_def f_def w_def)
  then show ?thesis using assms(1,2) by (intro bexI [of _ "f r"]) (simp_all add: f_def)
qed

subsection \<open>Properties\<close>

text \<open>
  C27: A tick looks at the first 1000 targets that are not paused, by tenant and name, and signals exactly those of which a window was
  answered and whose burn rates reach a row of the table: critical from 14 over an hour and 6 over six hours, a warning from 6
  and 3, an information from 1 over a day. Each of them gets one signal with its three rates and the severity of the first row that
  it reaches, stored unless the database cannot hold a rate, and one message with the tenant, the target and the severity, in that
  order. The ids of the signals are fresh.
\<close>

theorem tick_signals_burning_targets:
  assumes "b = (\<lambda>t w. burn_rate (fst (we_query we (with_window (so_promql t) w))) (so_target t))"
    and "answered = (\<lambda>t. snd (we_query we (with_window (so_promql t) ''1h'')) = None \<or> snd (we_query we (with_window (so_promql t) ''6h'')) = None \<or>
        snd (we_query we (with_window (so_promql t) ''24h'')) = None)"
    and "critical = (\<lambda>t. fl_le (Fin 14) (b t ''1h'') \<and> fl_le (Fin 6) (b t ''6h''))"
    and "warning = (\<lambda>t. fl_le (Fin 6) (b t ''1h'') \<and> fl_le (Fin 3) (b t ''6h''))"
    and "burning = filter (\<lambda>t. answered t \<and> (critical t \<or> warning t \<or> fl_le (Fin 1) (b t ''24h'')))
      (take 1000 (sort_key (\<lambda>t. (so_tenant t, so_name t)) (filter (\<lambda>t. \<not> so_paused t) (sl_targets (ws_db s)))))"
    and "sigs = map (\<lambda>t. \<lparr>si_id = ''ss-'' @ print_int (unix_nano (we_id_time we t)), si_tenant = so_tenant t, si_target = so_id t,
        si_1h = b t ''1h'', si_6h = b t ''6h'', si_24h = b t ''24h'',
        si_severity = (if critical t then ''critical'' else if warning t then ''warn'' else ''info''), si_emitted = we_now we t\<rparr>) burning"
    and "distinct (map si_id (sl_signals (ws_db s) @ sigs))"
  shows "watch_tick True we s =
    s\<lparr>ws_db := (ws_db s)\<lparr>sl_signals := sl_signals (ws_db s) @ filter (storable (we_keeps_nan we)) sigs\<rparr>,
      ws_published := ws_published s @ map (signal_message_of we) sigs\<rparr>"
proof -
  have "slo_signal_of we t =
      (if answered t \<and> (critical t \<or> warning t \<or> fl_le (Fin 1) (b t ''24h''))
       then Some \<lparr>si_id = ''ss-'' @ print_int (unix_nano (we_id_time we t)), si_tenant = so_tenant t, si_target = so_id t,
          si_1h = b t ''1h'', si_6h = b t ''6h'', si_24h = b t ''24h'',
          si_severity = (if critical t then ''critical'' else if warning t then ''warn'' else ''info''), si_emitted = we_now we t\<rparr>
       else None)" for t
    unfolding assms(1-4) by (rule slo_signal_table)
  note table = this [THEN ext]
  have "sigs = List.map_filter (slo_signal_of we) (active_targets (ws_db s))"
    unfolding assms(5,6) active_targets_def table map_filter_if ..
  then show ?thesis using fold_watch [of s we "active_targets (ws_db s)"] assms(7) by (simp add: watch_tick_def)
qed

definition loss_target :: slo_target where
  "loss_target = \<lparr>so_id = ''x'', so_tenant = ''t'', so_name = ''n'', so_promql = ''q'', so_target = Fin (15 / 16), so_window = 1, so_paused = False,
     so_created = 1, so_updated = 1\<rparr>"

definition loss_env :: watch_env where
  "loss_env = \<lparr>we_query = (\<lambda>_. (Fin 0, None)), we_now = (\<lambda>_. 5), we_id_time = (\<lambda>_. 7), we_json = si_id, we_keeps_nan = True\<rparr>"

definition loss_state :: watch_state where
  "loss_state = \<lparr>ws_db = \<lparr>sl_targets = [loss_target], sl_signals = []\<rparr>, ws_published = []\<rparr>"

lemma sixteenth: "rnd f64 (1 / 16) = (1 / 16 :: rat)" "burn_rate (Fin 0) (Fin (15 / 16)) = Fin 16"
proof -
  have "(2 :: rat) powi (- 4) = 1 / 16" by (simp add: power_int_minus)
  then show s: "rnd f64 (1 / 16) = (1 / 16 :: rat)" using rnd_powi [of f64 "- 4"] by simp
  have "fl_round f64 16 = Fin 16" using f64_round(1) [of 16] f64_int [of 16] by simp
  moreover have "1 - 15 / 16 = (1 / 16 :: rat)" "(1 :: rat) / (1 / 16) = 16" "\<not> (1 / 16 :: rat) \<le> 0" by simp_all
  moreover have "burn_rate (Fin 0) (Fin (15 / 16)) =
      (if rnd f64 (1 - 15 / 16) \<le> 0 then Fin 0 else fl_round f64 (rnd f64 (1 - 0) / rnd f64 (1 - 15 / 16)))"
    by (rule burn_rate_value) simp_all
  ultimately show "burn_rate (Fin 0) (Fin (15 / 16)) = Fin 16" by (simp only: s if_False diff_zero f64_1)
qed

lemma tick_signals_burning_targets_witness:
  "map bm_headers (ws_published (watch_tick True loss_env loss_state)) = [[(''tenant_id'', ''t''), (''target_id'', ''x''), (''severity'', ''critical'')]]"
proof -
  have q: "burn_rate (fst (we_query loss_env x)) (so_target loss_target) = Fin 16" "snd (we_query loss_env x) = None" for x
    by (simp_all add: loss_env_def loss_target_def sixteenth)
  have t: "sl_targets (ws_db loss_state) = [loss_target]" "so_paused loss_target = False" "sl_signals (ws_db loss_state) = []" "ws_published loss_state = []"
    by (simp_all add: loss_state_def loss_target_def)
  show ?thesis
    using tick_signals_burning_targets [where we = loss_env and s = loss_state, OF refl refl refl refl refl refl]
    by (simp add: t q fl_le_def) (simp add: signal_message_of_def loss_target_def)
qed

text \<open>A query that fails counts as a success ratio of zero: when the two short windows are not answered and the long one is, whatever
it says, a target with a budget of at most one fourteenth is reported as critical.\<close>

lemma unanswered_windows_are_critical:
  assumes "so_target t = Fin x" "0 \<le> x" "x \<le> 1" "0 < rnd f64 (1 - x)" "rnd f64 (1 - x) \<le> 1 / 14"
    and "observe we t ''1h'' = (Fin 0, Some e1)" "observe we t ''6h'' = (Fin 0, Some e6)" "observe we t ''24h'' = (v, None)"
  shows "\<exists>sig. slo_signal_of we t = Some sig \<and> si_severity sig = ''critical''"
proof -
  have c: "fl_le (Fin 14) (burn_rate (Fin 0) (Fin x))" by (rule total_loss_burns [OF assms(2-5)])
  moreover have "fl_le (Fin 6) (burn_rate (Fin 0) (Fin x))"
    using c by (cases "burn_rate (Fin 0) (Fin x)") (auto simp: fl_le_def)
  ultimately show ?thesis using assms(1,6-8) by (simp add: slo_signal_of_def multi_window_def Let_def)
qed

text \<open>The severity of a target follows its loss: when no window observes a higher success ratio than before, the severity is no
lower than before.\<close>

theorem severity_follows_loss:
  assumes "0 \<le> t" "t \<le> 1" "0 \<le> p1" "p1 \<le> o1" "o1 \<le> 1" "0 \<le> p6" "p6 \<le> o6" "o6 \<le> 1" "0 \<le> p24" "p24 \<le> o24" "o24 \<le> 1"
  shows "severity_level (multi_window (burn_rate (Fin o1) (Fin t)) (burn_rate (Fin o6) (Fin t)) (burn_rate (Fin o24) (Fin t)))
    \<le> severity_level (multi_window (burn_rate (Fin p1) (Fin t)) (burn_rate (Fin p6) (Fin t)) (burn_rate (Fin p24) (Fin t)))"
  using assms by (intro severity_level_mono burn_rate_mono)

lemma severity_follows_loss_witness:
  "severity_level (multi_window (burn_rate (Fin 1) (Fin (15 / 16))) (burn_rate (Fin (1 / 2)) (Fin (15 / 16))) (burn_rate (Fin 1) (Fin (15 / 16))))
    \<le> severity_level (multi_window (burn_rate (Fin 0) (Fin (15 / 16))) (burn_rate (Fin 0) (Fin (15 / 16))) (burn_rate (Fin (1 / 2)) (Fin (15 / 16))))"
  by (rule severity_follows_loss) simp_all

text \<open>The orchestrator of autonomous sessions receives the signal: its subscription matches the subject.\<close>

lemma signal_reaches_orchestrator: "subject_match ''autonomy.signal.slo.>'' (bm_subject (signal_message_of we sig))"
  by (simp add: signal_message_of_def) code_simp

end
