(* ===== verification/Shadow.thy ===== *)
theory Shadow
  imports CanaryController Autonomy
begin

section \<open>services/shadow-inference-service: comparisons for a canary\<close>

text \<open>
  Model of \<open>internal/shadow/shadow.go\<close> and of the flush in \<open>cmd/shadow-inference-service/main.go\<close>. A frame that is selected
  starts one goroutine per assignment; it calls the candidate and then records the comparison under the lock, at some later time
  and in any order: \<open>en_tasks\<close> holds the goroutines that have not recorded yet. The key of a window, a text, is kept as its parts;
  its start is a whole minute, so the text determines them. Counters do not overflow.
\<close>

subsection \<open>State\<close>

record frame_descriptor =
  fr_tenant :: string
  fr_stream :: string
  fr_urn :: string

record baseline_result =
  bl_urn :: string
  bl_model :: string
  bl_predicted :: string
  bl_latency_ms :: int

record shadow_assignment =
  sa_plan :: string
  sa_tenant :: string
  sa_baseline :: string
  sa_candidate :: string
  sa_percent :: int

record window_acc =
  wa_end :: time
  wa_successes :: int
  wa_failures :: int
  wa_lat_sum :: int
  wa_lat_max :: int
  wa_count :: int

type_synonym window_key = "string \<times> string \<times> time"

record shadow_engine =
  en_active :: "shadow_assignment list"
  en_pending :: "(string \<times> baseline_result) list"
  en_windows :: "(window_key \<times> window_acc) list"
  en_tasks :: "(shadow_assignment \<times> frame_descriptor \<times> baseline_result) list"

definition window_dur :: duration where "window_dur = minute"

definition new_shadow_engine :: shadow_engine where
  "new_shadow_engine = \<lparr>en_active = [], en_pending = [], en_windows = [], en_tasks = []\<rparr>"

subsection \<open>Operations\<close>

definition set_active :: "shadow_assignment list \<Rightarrow> shadow_engine \<Rightarrow> shadow_engine" where
  "set_active as en = en\<lparr>en_active := as\<rparr>"

definition on_baseline :: "baseline_result \<Rightarrow> shadow_engine \<Rightarrow> shadow_engine" where
  "on_baseline br en = (if bl_urn br = [] then en else en\<lparr>en_pending := AList.update (bl_urn br) br (en_pending en)\<rparr>)"

definition selected :: "frame_descriptor \<Rightarrow> shadow_assignment \<Rightarrow> bool" where
  "selected fd a \<longleftrightarrow> \<not> (sa_tenant a \<noteq> [] \<and> sa_tenant a \<noteq> fr_tenant fd) \<and> variant (fr_stream fd) (sa_percent a) = ''candidate''"

definition on_frame :: "frame_descriptor \<Rightarrow> shadow_engine \<Rightarrow> shadow_engine" where
  "on_frame fd en =
     (case map_of (en_pending en) (fr_urn fd) of
        None \<Rightarrow> en
      | Some br \<Rightarrow> en\<lparr>en_tasks := en_tasks en @ map (\<lambda>a. (a, fd, br)) (filter (selected fd) (en_active en))\<rparr>)"

text \<open>\<open>httpInvoker\<close> sends the model and the version: the parts around the last \<open>@\<close>.\<close>

fun split_model :: "string \<Rightarrow> (string \<times> string) option" where
  "split_model [] = None"
| "split_model (c # cs) =
     (case split_model cs of
        Some (m, v) \<Rightarrow> Some (c # m, v)
      | None \<Rightarrow> if c = CHR ''@'' then Some ([], cs) else None)"

definition model_and_version :: "string \<Rightarrow> string \<times> string" where
  "model_and_version m = (case split_model m of None \<Rightarrow> (m, ''1'') | Some p \<Rightarrow> p)"

text \<open>The candidate: an error or the predicted class. Without an invoker the answer is fixed.\<close>

definition invoke_candidate :: "(string \<times> string \<Rightarrow> string \<Rightarrow> string + string) option \<Rightarrow> shadow_assignment \<Rightarrow> frame_descriptor \<Rightarrow> string + string" where
  "invoke_candidate invoker a fd =
     (case invoker of None \<Rightarrow> Inr ''agree'' | Some f \<Rightarrow> f (model_and_version (sa_candidate a)) (fr_urn fd))"

definition bucket_key :: "string \<Rightarrow> string \<Rightarrow> time \<Rightarrow> window_key" where
  "bucket_key plan var now = (plan, var, truncate_to window_dur now)"

definition new_window :: "time \<Rightarrow> window_acc" where
  "new_window now = \<lparr>wa_end = truncate_to window_dur now + window_dur, wa_successes = 0, wa_failures = 0, wa_lat_sum = 0, wa_lat_max = 0, wa_count = 0\<rparr>"

definition upd_window :: "string \<Rightarrow> string \<Rightarrow> time \<Rightarrow> (window_acc \<Rightarrow> window_acc) \<Rightarrow> shadow_engine \<Rightarrow> shadow_engine" where
  "upd_window plan var now f en =
     (let k = bucket_key plan var now; w = (case map_of (en_windows en) k of None \<Rightarrow> new_window now | Some w \<Rightarrow> w) in
      en\<lparr>en_windows := AList.update k (f w) (en_windows en)\<rparr>)"

definition count_baseline :: "baseline_result \<Rightarrow> window_acc \<Rightarrow> window_acc" where
  "count_baseline br w =
     w\<lparr>wa_count := wa_count w + 1, wa_lat_sum := wa_lat_sum w + bl_latency_ms br, wa_lat_max := max (wa_lat_max w) (bl_latency_ms br),
       wa_successes := wa_successes w + (if bl_predicted br \<noteq> [] then 1 else 0),
       wa_failures := wa_failures w + (if bl_predicted br \<noteq> [] then 0 else 1)\<rparr>"

definition count_candidate :: "string + string \<Rightarrow> int \<Rightarrow> baseline_result \<Rightarrow> window_acc \<Rightarrow> window_acc" where
  "count_candidate cand lat br w =
     (case cand of
        Inl e \<Rightarrow> w\<lparr>wa_count := wa_count w + 1, wa_failures := wa_failures w + 1\<rparr>
      | Inr p \<Rightarrow> w\<lparr>wa_count := wa_count w + 1, wa_lat_sum := wa_lat_sum w + lat, wa_lat_max := max (wa_lat_max w) lat,
                   wa_successes := wa_successes w + (if p = bl_predicted br then 1 else 0),
                   wa_failures := wa_failures w + (if p = bl_predicted br then 0 else 1)\<rparr>)"

text \<open>The two windows are chosen by two readings of the clock.\<close>

definition record_comparison :: "time \<Rightarrow> time \<Rightarrow> int \<Rightarrow> string + string \<Rightarrow> shadow_assignment \<Rightarrow> baseline_result \<Rightarrow> shadow_engine \<Rightarrow> shadow_engine" where
  "record_comparison now1 now2 lat cand a br en =
     upd_window (sa_plan a) ''candidate'' now2 (count_candidate cand lat br) (upd_window (sa_plan a) ''baseline'' now1 (count_baseline br) en)"

definition window_observation :: "window_key \<times> window_acc \<Rightarrow> canary_observation" where
  "window_observation x =
     (case x of ((plan, var, start), w) \<Rightarrow>
       \<lparr>obs_plan = plan, obs_variant = var, obs_start = start,
        obs_window = \<lparr>win_end = wa_end w, win_successes = wa_successes w, win_failures = wa_failures w,
          win_p50 = (if 0 < wa_count w then go_quot (wa_lat_sum w) (wa_count w) else 0), win_p95 = wa_lat_max w, win_p99 = wa_lat_max w\<rparr>\<rparr>)"

definition window_closed :: "time \<Rightarrow> window_key \<times> window_acc \<Rightarrow> bool" where
  "window_closed now x \<longleftrightarrow> \<not> now < wa_end (snd x)"

text \<open>The pruning of the baselines, with the order in which the map is ranged over: the length is read anew after every removal.\<close>

fun prune_loop :: "int \<Rightarrow> string list \<Rightarrow> (string \<times> baseline_result) list \<Rightarrow> (string \<times> baseline_result) list" where
  "prune_loop i [] m = m"
| "prune_loop i (k # ks) m =
     (let m1 = AList.delete k m in if int (length m1) div 2 < i + 1 then m1 else prune_loop (i + 1) ks m1)"

definition shadow_drain :: "time \<Rightarrow> string list \<Rightarrow> shadow_engine \<Rightarrow> canary_observation list \<times> shadow_engine" where
  "shadow_drain now order en =
     (map window_observation (filter (window_closed now) (en_windows en)),
      en\<lparr>en_windows := filter (\<lambda>x. \<not> window_closed now x) (en_windows en),
         en_pending := (if 100000 < length (en_pending en) then prune_loop 0 order (en_pending en) else en_pending en)\<rparr>)"

subsection \<open>The flush to the canary controller\<close>

definition post_headers :: headers where "post_headers = [(''Content-Type'', ''application/json'')]"

text \<open>The route of the controller behind its middleware, and the request that the service makes: the response is not looked at.\<close>

definition observations_route :: "headers \<Rightarrow> time \<Rightarrow> canary_observation list \<Rightarrow> controller \<Rightarrow> (problem + unit) \<times> controller" where
  "observations_route h now obs c = with_tenant h (\<lambda>_ c. (Inr (), post_observations now obs c)) c"

definition shadow_flush :: "time \<Rightarrow> time \<Rightarrow> string list \<Rightarrow> shadow_engine \<times> controller \<Rightarrow> canary_observation list \<times> shadow_engine \<times> controller" where
  "shadow_flush now cnow order s =
     (let (obs, en) = shadow_drain now order (fst s) in
      if obs = [] then ([], en, snd s) else (obs, en, snd (observations_route post_headers cnow obs (snd s))))"

definition shadow_peek :: "time \<Rightarrow> string list \<Rightarrow> shadow_engine \<Rightarrow> canary_observation list \<times> shadow_engine" where
  "shadow_peek now order en = shadow_drain (now + 60 * minute) order en"

subsection \<open>Interleavings\<close>

datatype shadow_op =
    SetActive "shadow_assignment list" | Baseline baseline_result | Frame frame_descriptor
  | Record nat time time int "string + string" | Drain time "string list"

record shadow_run =
  sr_engine :: shadow_engine
  sr_sent :: "canary_observation list"
  sr_recorded :: "string list"

text \<open>\<open>sr_sent\<close> collects the observations that were drained and \<open>sr_recorded\<close> the plans of the comparisons that were recorded.\<close>

definition shadow_step :: "shadow_op \<Rightarrow> shadow_run \<Rightarrow> shadow_run" where
  "shadow_step x r =
     (case x of
        SetActive as \<Rightarrow> r\<lparr>sr_engine := set_active as (sr_engine r)\<rparr>
      | Baseline br \<Rightarrow> r\<lparr>sr_engine := on_baseline br (sr_engine r)\<rparr>
      | Frame fd \<Rightarrow> r\<lparr>sr_engine := on_frame fd (sr_engine r)\<rparr>
      | Record i now1 now2 lat cand \<Rightarrow>
          (if length (en_tasks (sr_engine r)) \<le> i then r
           else case en_tasks (sr_engine r) ! i of (a, fd, br) \<Rightarrow>
             r\<lparr>sr_engine := record_comparison now1 now2 lat cand a br
                  ((sr_engine r)\<lparr>en_tasks := take i (en_tasks (sr_engine r)) @ drop (Suc i) (en_tasks (sr_engine r))\<rparr>),
               sr_recorded := sr_recorded r @ [sa_plan a]\<rparr>)
      | Drain now order \<Rightarrow> (case shadow_drain now order (sr_engine r) of (obs, en) \<Rightarrow> r\<lparr>sr_engine := en, sr_sent := sr_sent r @ obs\<rparr>))"

definition new_run :: shadow_run where
  "new_run = \<lparr>sr_engine = new_shadow_engine, sr_sent = [], sr_recorded = []\<rparr>"

subsection \<open>Every comparison is counted once\<close>

definition window_total :: "(window_acc \<Rightarrow> int) \<Rightarrow> string \<Rightarrow> string \<Rightarrow> shadow_engine \<Rightarrow> int" where
  "window_total f plan var en = vsum f (filter (\<lambda>e. is_arm plan var (fst e)) (en_windows en))"

lemma upd_window_total:
  assumes "distinct (map fst (en_windows en))" "\<And>w. f (g w) = f w + d" "\<And>t. f (new_window t) = 0"
  shows "window_total f plan var (upd_window p v now g en) = window_total f plan var en + (if p = plan \<and> v = var then d else 0)"
    "distinct (map fst (en_windows (upd_window p v now g en)))"
proof -
  let ?k = "bucket_key p v now" and ?P = "is_arm plan var"
  have dd: "distinct (map fst (filter (\<lambda>e. ?P (fst e)) (en_windows en)))" using assms(1) by (rule distinct_map_filter)
  have k: "?P ?k \<longleftrightarrow> p = plan \<and> v = var" by (simp add: bucket_key_def)
  define w where "w = (case map_of (en_windows en) ?k of None \<Rightarrow> new_window now | Some w \<Rightarrow> w)"
  have u: "en_windows (upd_window p v now g en) = AList.update ?k (g w) (en_windows en)" by (simp add: upd_window_def w_def Let_def)
  show "distinct (map fst (en_windows (upd_window p v now g en)))" using assms(1) unfolding u by (rule distinct_update)
  show "window_total f plan var (upd_window p v now g en) = window_total f plan var en + (if p = plan \<and> v = var then d else 0)"
    using vsum_update [OF dd, of f ?k "g w"] assms(2,3) k
    by (auto simp: window_total_def u filter_update_key map_of_filter_key w_def split: option.splits)
qed

lemma upd_window_tasks [simp]: "en_tasks (upd_window p v now g en) = en_tasks en"
  by (simp add: upd_window_def Let_def)

definition judged :: "window_acc \<Rightarrow> int" where "judged w = wa_successes w + wa_failures w"

lemma judged_counts: "judged (count_baseline br w) = judged w + 1" "judged (count_candidate cand lat br w) = judged w + 1" "judged (new_window t) = 0"
  by (simp_all add: judged_def count_baseline_def count_candidate_def new_window_def split: sum.splits)

lemma record_total:
  assumes "distinct (map fst (en_windows en))" "var = ''baseline'' \<or> var = ''candidate''"
  shows "window_total judged plan var (record_comparison now1 now2 lat cand a br en) = window_total judged plan var en + (if sa_plan a = plan then 1 else 0)"
    "distinct (map fst (en_windows (record_comparison now1 now2 lat cand a br en)))"
proof -
  let ?b = "upd_window (sa_plan a) ''baseline'' now1 (count_baseline br) en"
  note b = upd_window_total [where f = judged and d = 1 and g = "count_baseline br" and p = "sa_plan a" and v = "''baseline''" and now = now1,
    OF assms(1) judged_counts(1,3)]
  note c = upd_window_total [where f = judged and d = 1 and g = "count_candidate cand lat br" and p = "sa_plan a" and v = "''candidate''" and now = now2,
    OF b(2) judged_counts(2,3)]
  show "distinct (map fst (en_windows (record_comparison now1 now2 lat cand a br en)))" unfolding record_comparison_def by (rule c(2))
  show "window_total judged plan var (record_comparison now1 now2 lat cand a br en) = window_total judged plan var en + (if sa_plan a = plan then 1 else 0)"
    using assms(2) unfolding record_comparison_def c(1) b(1) by (elim disjE) simp_all
qed

definition sent_total :: "string \<Rightarrow> string \<Rightarrow> canary_observation list \<Rightarrow> int" where
  "sent_total plan var os = posted win_successes plan var os + posted win_failures plan var os"

lemma sent_total_append: "sent_total plan var (os @ os') = sent_total plan var os + sent_total plan var os'"
  by (simp add: sent_total_def posted_def)

lemma drain_total:
  "window_total judged plan var (snd (shadow_drain now order en)) + sent_total plan var (fst (shadow_drain now order en)) = window_total judged plan var en"
proof -
  have "sent_total plan var (map window_observation ws) = vsum judged (filter (\<lambda>e. is_arm plan var (fst e)) ws)" for ws
    by (induction ws) (auto simp: sent_total_def posted_def window_observation_def judged_def)
  moreover have "vsum judged (filter P (filter (\<lambda>x. \<not> Q x) ws)) + vsum judged (filter P (filter Q ws)) = vsum judged (filter P ws)" for P Q ws
    by (induction ws) auto
  ultimately show ?thesis by (simp add: shadow_drain_def window_total_def)
qed

definition run_inv :: "shadow_run \<Rightarrow> bool" where
  "run_inv r \<longleftrightarrow> distinct (map fst (en_windows (sr_engine r))) \<and>
     (\<forall>plan var. var = ''baseline'' \<or> var = ''candidate'' \<longrightarrow>
        window_total judged plan var (sr_engine r) + sent_total plan var (sr_sent r) = int (count_list (sr_recorded r) plan))"

lemma run_inv_start: "run_inv new_run"
  by (simp add: run_inv_def new_run_def new_shadow_engine_def window_total_def sent_total_def posted_def)

lemma run_inv_windows:
  "run_inv r \<Longrightarrow> en_windows en = en_windows (sr_engine r) \<Longrightarrow> run_inv (r\<lparr>sr_engine := en\<rparr>)"
  by (simp add: run_inv_def window_total_def)

lemma count_list_snoc: "count_list (xs @ [x]) y = count_list xs y + (if x = y then 1 else 0)"
  by (induction xs) auto

lemma run_inv_step: "run_inv r \<Longrightarrow> run_inv (shadow_step x r)"
proof (cases x)
  case (Record i now1 now2 lat cand)
  assume inv: "run_inv r"
  show ?thesis
  proof (cases "length (en_tasks (sr_engine r)) \<le> i")
    case True
    then show ?thesis using inv Record by (simp add: shadow_step_def)
  next
    case False
    obtain a fd br where t: "en_tasks (sr_engine r) ! i = (a, fd, br)" by (cases "en_tasks (sr_engine r) ! i") auto
    define en where "en = (sr_engine r)\<lparr>en_tasks := take i (en_tasks (sr_engine r)) @ drop (Suc i) (en_tasks (sr_engine r))\<rparr>"
    have w: "en_windows en = en_windows (sr_engine r)" by (simp add: en_def)
    have s: "shadow_step x r = r\<lparr>sr_engine := record_comparison now1 now2 lat cand a br en, sr_recorded := sr_recorded r @ [sa_plan a]\<rparr>"
      using False Record t by (simp add: shadow_step_def en_def)
    have d: "distinct (map fst (en_windows en))" using inv by (simp add: w run_inv_def)
    have "window_total judged plan var en = window_total judged plan var (sr_engine r)" for plan var by (simp add: window_total_def w)
    then show ?thesis using inv by (auto simp: run_inv_def s count_list_snoc record_total(1) [OF d] record_total(2) [OF d disjI1 [OF refl]])
  qed
next
  case (Drain now order)
  assume inv: "run_inv r"
  obtain obs en where d: "shadow_drain now order (sr_engine r) = (obs, en)" by fastforce
  have "en_windows en = filter (\<lambda>x. \<not> window_closed now x) (en_windows (sr_engine r))" using d by (auto simp: shadow_drain_def)
  then have "distinct (map fst (en_windows en))" using inv by (simp add: run_inv_def distinct_map_filter)
  moreover have tot: "window_total judged plan var (sr_engine r) = window_total judged plan var en + sent_total plan var obs" for plan var
    using drain_total [where now = now and order = order and en = "sr_engine r", of plan var] by (simp add: d)
  moreover have "shadow_step x r = r\<lparr>sr_engine := en, sr_sent := sr_sent r @ obs\<rparr>" by (simp add: shadow_step_def Drain d)
  ultimately show ?thesis using inv by (simp add: run_inv_def sent_total_append add.commute add.left_commute)
qed (auto simp: shadow_step_def set_active_def on_baseline_def on_frame_def intro!: run_inv_windows split: option.splits)

lemma run_inv_fold: "run_inv r \<Longrightarrow> run_inv (fold shadow_step xs r)"
  by (induction xs arbitrary: r) (simp_all add: run_inv_step)

subsection \<open>The canary that the comparisons are for\<close>

lemma no_tenant_in_post: "tenant_header post_headers = []"
  by (simp add: tenant_header_def post_headers_def header_get_def trim_space_def trim_left_def trim_right_def)

lemma flush_leaves_controller: "snd (snd (shadow_flush now cnow order s)) = snd s"
  by (simp add: shadow_flush_def observations_route_def with_tenant_def no_tenant_in_post case_prod_beta)

text \<open>The two services together, when nobody else posts observations.\<close>

inductive shadow_system :: "shadow_engine \<times> controller \<Rightarrow> shadow_engine \<times> controller \<Rightarrow> bool" for s0 where
  start: "shadow_system s0 s0"
| work: "shadow_system s0 (en, c) \<Longrightarrow> sr_engine (shadow_step x (r\<lparr>sr_engine := en\<rparr>)) = en' \<Longrightarrow> shadow_system s0 (en', c)"
| flush: "shadow_system s0 (en, c) \<Longrightarrow> shadow_flush now cnow order (en, c) = (obs, s') \<Longrightarrow> shadow_system s0 s'"
| tick: "shadow_system s0 (en, c) \<Longrightarrow> tick fails lb now wall c = Some (n, c') \<Longrightarrow> shadow_system s0 (en, c')"

definition samples_needed :: "canary_plan \<Rightarrow> bool" where
  "samples_needed p \<longleftrightarrow> (\<forall>st \<in> set (ladder p). 0 < min_samples st)"

lemma no_windows_no_evidence:
  assumes "windows c = []" "on_ladder p" "samples_needed p"
    and "aggregate_since c pid var since = Some b" "aggregate_since c pid var' since' = Some cd"
  shows "\<not> evidence p b cd" "\<not> regressed (plan_verdict p b cd)"
proof -
  have z: "b = \<lparr>successes = 0, failures = 0, p95_latency_ms = 0\<rparr>" "cd = \<lparr>successes = 0, failures = 0, p95_latency_ms = 0\<rparr>"
    using assms(1,4,5) by (auto simp: aggregate_since_def arm_windows_def Let_def split: if_splits)
  have "ladder p ! nat (current_step p) \<in> set (ladder p)" using assms(2) by (simp add: on_ladder_def nat_less_iff)
  then have "0 < min_samples (ladder p ! nat (current_step p))" using assms(3) by (simp add: samples_needed_def)
  then show "\<not> evidence p b cd" "\<not> regressed (plan_verdict p b cd)"
    by (simp_all add: evidence_def regressed_def plan_verdict_def assess_regression_def z i64_def)
qed

definition stands :: "canary_plan \<Rightarrow> canary_plan \<Rightarrow> bool" where
  "stands p q \<longleftrightarrow> plan_id q = plan_id p \<and> ladder q = ladder p \<and> current_step q = current_step p \<and>
     (plan_status q = plan_status p \<or> plan_status p = Ramping \<and> plan_status q = Holding)"

lemma tick_without_windows:
  assumes "canary_reachable c" "tick fails lb now wall c = Some (n, c')" "windows c = []" "map_of (plans c) pid = Some p" "samples_needed p"
  shows "\<exists>q. map_of (plans c') pid = Some q \<and> stands p q"
proof -
  obtain q where q: "map_of (plans c') pid = Some q" "q = p \<or> (\<exists>d. q = apply_row (wall pid) d p)"
    using tick_row(1) [OF assms(1,2,4)] by (auto split: if_splits option.splits)
  have cfg: "plan_id q = plan_id p \<and> ladder q = ladder p" using q(2) by (auto simp: apply_row_def)
  show ?thesis
  proof (cases "q = p")
    case False
    obtain b cd where e: "running p" "on_ladder p" "aggregate_since c pid ''baseline'' (now - lookback_or_default lb) = Some b"
      "aggregate_since c pid ''candidate'' (now - lookback_or_default lb) = Some cd"
      "if evidence p b cd \<and> held p now
        then current_step q = current_step p + 1 \<and>
          plan_status q = (if current_step p + 1 < int (length (ladder p)) then Ramping
                            else if auto_promote p then Promoted else Holding)
        else if regressed (plan_verdict p b cd) then current_step q = 0 \<and> plan_status q = RolledBack
        else current_step q = current_step p \<and> plan_status p = Ramping \<and> plan_status q = Holding"
      using tick_moves [OF assms(1,2,4) q(1) False] by (elim conjE exE) (rule that)
    have "\<not> evidence p b cd" "\<not> regressed (plan_verdict p b cd)" using no_windows_no_evidence [OF assms(3) e(2) assms(5) e(3,4)] by simp_all
    then show ?thesis using e(5) cfg q(1) by (auto simp: stands_def)
  qed (use q(1) in \<open>auto simp: stands_def\<close>)
qed

lemma shadow_system_stands:
  assumes "shadow_system (en0, c0) s" "canary_reachable c0" "windows c0 = []" "map_of (plans c0) pid = Some p" "samples_needed p"
  shows "canary_reachable (snd s) \<and> windows (snd s) = [] \<and> (\<exists>q. map_of (plans (snd s)) pid = Some q \<and> stands p q)"
  using assms(1)
proof (induction rule: shadow_system.induct)
  case start
  then show ?case using assms(2-4) by (auto simp: stands_def)
next
  case (flush en c now cnow order obs s')
  then show ?case using flush_leaves_controller [of now cnow order "(en, c)"] by simp
next
  case (tick en c fails lb now wall n c')
  then obtain q where q: "map_of (plans c) pid = Some q" "stands p q" and c: "canary_reachable c" "windows c = []" by auto
  have "samples_needed q" using q(2) assms(5) by (simp add: stands_def samples_needed_def)
  then obtain q' where q': "map_of (plans c') pid = Some q'" "stands q q'"
    using tick_without_windows [OF c(1) tick.hyps(2) c(2) q(1)] by blast
  have "stands p q'" using q(2) q'(2) by (auto simp: stands_def)
  moreover have "windows c' = []" using tick_plans_windows [OF tick.hyps(2) [unfolded tick_def]] c(2) by simp
  moreover have "canary_reachable c'" by (rule canary_reachable.step [OF c(1) canary_step_rel.tick [OF tick.hyps(2)]])
  ultimately show ?case using q'(1) by simp
qed simp

subsection \<open>Properties\<close>

text \<open>C28: However baselines, frames, comparisons and drains interleave, every comparison that was recorded for a plan is counted
exactly once, as a success or a failure, for the baseline and for the candidate: in an open window or in an observation that was
drained.\<close>

theorem comparisons_are_counted_once:
  assumes "var = ''baseline'' \<or> var = ''candidate''"
  shows "window_total judged plan var (sr_engine (fold shadow_step xs new_run)) + sent_total plan var (sr_sent (fold shadow_step xs new_run)) =
    int (count_list (sr_recorded (fold shadow_step xs new_run)) plan)"
  using run_inv_fold [OF run_inv_start, of xs] assms unfolding run_inv_def by blast

definition shadow_demo :: "shadow_op list" where
  "shadow_demo =
     [SetActive [\<lparr>sa_plan = ''p'', sa_tenant = [], sa_baseline = ''a'', sa_candidate = ''b@2'', sa_percent = 100\<rparr>],
      Baseline \<lparr>bl_urn = ''u'', bl_model = ''a'', bl_predicted = ''cat'', bl_latency_ms = 7\<rparr>,
      Frame \<lparr>fr_tenant = ''t'', fr_stream = ''s'', fr_urn = ''u''\<rparr>, Frame \<lparr>fr_tenant = ''t'', fr_stream = ''s'', fr_urn = ''u''\<rparr>,
      Record 1 (30 * second) (70 * second) 9 (Inr ''dog''), Drain (60 * second) [], Record 0 (70 * second) (70 * second) 8 (Inr ''cat'')]"

lemma shadow_demo_recorded: "sr_recorded (fold shadow_step shadow_demo new_run) = [''p'', ''p'']"
  by (simp add: shadow_demo_def shadow_step_def new_run_def new_shadow_engine_def set_active_def on_baseline_def on_frame_def selected_def variant_def
      record_comparison_def shadow_drain_def)

lemma comparisons_are_counted_once_witness:
  "window_total judged ''p'' ''candidate'' (sr_engine (fold shadow_step shadow_demo new_run)) +
   sent_total ''p'' ''candidate'' (sr_sent (fold shadow_step shadow_demo new_run)) = 2"
  by (subst comparisons_are_counted_once) (simp_all add: shadow_demo_recorded)

text \<open>C16: The evidence of the shadow service never reaches the canary controller: its posts carry no tenant, so the middleware of the
controller refuses them, and the refusal is not looked at. When nobody else posts observations, a plan all of whose steps need a
sample stays on its step for ever: no tick advances it or rolls it back, it only turns from ramping to holding.\<close>

theorem shadow_evidence_never_arrives:
  assumes "shadow_system (en0, c0) (en, c)" "canary_reachable c0" "windows c0 = []" "map_of (plans c0) pid = Some p" "samples_needed p"
  shows "windows c = [] \<and> (\<exists>q. map_of (plans c) pid = Some q \<and> current_step q = current_step p \<and>
    (plan_status q = plan_status p \<or> plan_status p = Ramping \<and> plan_status q = Holding))"
  using shadow_system_stands [OF assms] by (auto simp: stands_def)

definition sampled_plan :: canary_plan where
  "sampled_plan = demo_plan\<lparr>ladder := [\<lparr>candidate_percent = 10, hold_seconds = 60, min_samples = 5\<rparr>]\<rparr>"

definition sampled_row :: canary_plan where
  "sampled_row = sampled_plan\<lparr>plan_tenant := ''t'', plan_status := Ramping, last_step_at := demo_start, plan_created_at := demo_start,
     plan_updated_at := demo_start\<rparr>"

definition sampled_controller :: controller where
  "sampled_controller = \<lparr>plans = [(''cp'', sampled_row)], windows = [], published = []\<rparr>"

lemma sampled_posted: "post_plan demo_start ''t'' sampled_plan \<lparr>plans = [], windows = [], published = []\<rparr> = Some sampled_controller"
  by (simp add: post_plan_def create_plan_def sampled_controller_def sampled_row_def sampled_plan_def demo_plan_def demo_start_def is_zero_def)

definition full_engine :: shadow_engine where
  "full_engine = new_shadow_engine\<lparr>en_windows := [((''cp'', ''candidate'', 0),
     \<lparr>wa_end = minute, wa_successes = 9, wa_failures = 0, wa_lat_sum = 9, wa_lat_max = 1, wa_count = 9\<rparr>)]\<rparr>"

lemma shadow_evidence_never_arrives_witness:
  "fst (shadow_flush (2 * minute) 0 [] (full_engine, sampled_controller)) \<noteq> [] \<and>
   windows (snd (snd (shadow_flush (2 * minute) 0 [] (full_engine, sampled_controller)))) = [] \<and>
   (\<exists>q. map_of (plans (snd (snd (shadow_flush (2 * minute) 0 [] (full_engine, sampled_controller))))) ''cp'' = Some q \<and>
     current_step q = current_step sampled_row \<and>
     (plan_status q = plan_status sampled_row \<or> plan_status sampled_row = Ramping \<and> plan_status q = Holding))"
proof
  show "fst (shadow_flush (2 * minute) 0 [] (full_engine, sampled_controller)) \<noteq> []"
    by (simp add: shadow_flush_def shadow_drain_def full_engine_def new_shadow_engine_def window_closed_def)
  obtain obs en c where f: "shadow_flush (2 * minute) 0 [] (full_engine, sampled_controller) = (obs, en, c)" by (rule prod_cases3)
  have s: "shadow_system (full_engine, sampled_controller) (en, c)" by (rule shadow_system.flush [OF shadow_system.start f])
  have r: "canary_reachable sampled_controller"
    by (rule canary_reachable.step [OF canary_reachable.init canary_step_rel.post [OF sampled_posted]])
  have "windows sampled_controller = []" "map_of (plans sampled_controller) ''cp'' = Some sampled_row" "samples_needed sampled_row"
    by (simp_all add: sampled_controller_def samples_needed_def sampled_row_def sampled_plan_def)
  from shadow_evidence_never_arrives [OF s r this]
  show "windows (snd (snd (shadow_flush (2 * minute) 0 [] (full_engine, sampled_controller)))) = [] \<and>
   (\<exists>q. map_of (plans (snd (snd (shadow_flush (2 * minute) 0 [] (full_engine, sampled_controller))))) ''cp'' = Some q \<and>
     current_step q = current_step sampled_row \<and>
     (plan_status q = plan_status sampled_row \<or> plan_status sampled_row = Ramping \<and> plan_status q = Holding))"
    unfolding f by simp
qed

text \<open>A frame that is delivered twice is compared twice.\<close>

lemma repeated_frame_is_compared_again:
  "map_of (en_pending en) (fr_urn fd) = Some br \<Longrightarrow> en_tasks (on_frame fd (on_frame fd en)) =
     en_tasks en @ map (\<lambda>a. (a, fd, br)) (filter (selected fd) (en_active en)) @ map (\<lambda>a. (a, fd, br)) (filter (selected fd) (en_active en))"
  by (simp add: on_frame_def)

text \<open>Without an invoker the candidate does not agree but names a class of its own: every comparison with a real class fails.\<close>

lemma synthetic_mode_fails:
  "bl_predicted br \<noteq> ''agree'' \<Longrightarrow>
   wa_failures (count_candidate (invoke_candidate None a fd) lat br w) = wa_failures w + 1 \<and>
   wa_successes (count_candidate (invoke_candidate None a fd) lat br w) = wa_successes w"
  by (simp add: invoke_candidate_def count_candidate_def)

text \<open>Peeking drains every window that ends within the hour.\<close>

lemma peek_drains:
  "\<forall>x \<in> set (en_windows en). wa_end (snd x) \<le> now + 60 * minute \<Longrightarrow> en_windows (snd (shadow_peek now order en)) = []"
  by (simp add: shadow_peek_def shadow_drain_def window_closed_def filter_empty_conv not_less)

end
