(* ===== verification/AuditLog.thy ===== *)
theory AuditLog
  imports Http Bus Paging
begin

section \<open>services/audit-service: the append-only log\<close>

text \<open>
  Model of \<open>internal/store/sql.go\<close>, \<open>internal/consumer/consumer.go\<close> and \<open>internal/server/server.go\<close>. Decoding a body is a parameter
  that yields the fields or an error. The database refuses a duplicate key, with the text of its driver, and any statement may fail for another
  reason: \<open>fault\<close> says whether the row was written all the same, and the text of the error. The bus delivers a
  message at least once: a delivery whose handler returns an error comes again.
\<close>

subsection \<open>Store\<close>

record audit_rec =
  ar_id :: string
  ar_at :: time
  ar_service :: string
  ar_tenant :: string
  ar_request :: string
  ar_method :: string
  ar_path :: string
  ar_status :: int
  ar_outcome :: string
  ar_agent :: string
  ar_ip :: string
  ar_verb :: string
  ar_resource :: string
  ar_raw :: string

type_synonym audit_db = "audit_rec list"

type_synonym db_fault = "(bool \<times> string) option"

definition audit_append :: "sql_driver \<Rightarrow> db_fault \<Rightarrow> audit_rec \<Rightarrow> audit_db \<Rightarrow> string option \<times> audit_db" where
  "audit_append dr fault r db =
     (let dup = ar_id r \<in> ar_id ` set db; db1 = (if dup then db else db @ [r]) in
      case fault of
        None \<Rightarrow> (if dup then Some (dr_duplicate dr) else None, db1)
      | Some (applied, e) \<Rightarrow> (Some e, if applied then db1 else db))"

definition append_json :: "(string \<Rightarrow> string + audit_rec) \<Rightarrow> sql_driver \<Rightarrow> db_fault \<Rightarrow> time \<Rightarrow> string \<Rightarrow> audit_db \<Rightarrow> string option \<times> audit_db" where
  "append_json dec dr fault now body db =
     (case dec body of
        Inl e \<Rightarrow> (Some e, db)
      | Inr r \<Rightarrow>
          if ar_id r = [] then (Some ''audit: missing id'', db)
          else audit_append dr fault (r\<lparr>ar_at := (if ar_at r = 0 then now else ar_at r), ar_raw := body\<rparr>) db)"

definition list_audit :: "string \<Rightarrow> string \<Rightarrow> int \<Rightarrow> audit_db \<Rightarrow> audit_rec list" where
  "list_audit tenant outcome limit db =
     take (nat (if limit \<le> 0 then 100 else limit))
       (sort_key (\<lambda>r. - ar_at r) (filter (\<lambda>r. (tenant = [] \<or> ar_tenant r = tenant) \<and> (outcome = [] \<or> ar_outcome r = outcome)) db))"

subsection \<open>Consumer\<close>

definition is_duplicate :: "string \<Rightarrow> bool" where
  "is_duplicate e \<longleftrightarrow> str_contains e ''UNIQUE constraint failed'' \<or> str_contains e ''duplicate key value'' \<or> str_contains e ''SQLSTATE 23505''"

definition audit_handle :: "(string \<Rightarrow> string + audit_rec) \<Rightarrow> sql_driver \<Rightarrow> db_fault \<Rightarrow> time \<Rightarrow> bus_message \<Rightarrow> audit_db \<Rightarrow> string option \<times> audit_db" where
  "audit_handle dec dr fault now m db =
     (case append_json dec dr fault now (bm_data m) db of
        (None, db1) \<Rightarrow> (None, db1)
      | (Some e, db1) \<Rightarrow> if is_duplicate e then (None, db1) else (Some e, db1))"

definition audit_start :: "'h \<Rightarrow> 'h mem_bus \<Rightarrow> 'h mem_bus" where
  "audit_start h b = bus_subscribe ''audit.>'' ''audit'' h (bus_subscribe ''audit.v1'' ''audit'' h b)"

subsection \<open>Routes\<close>

text \<open>The value that \<open>strconv.Atoi\<close> returns beside its error: zero, or the nearest value of the type when the number is out of range.\<close>

definition atoi_value :: "string \<Rightarrow> int" where
  "atoi_value s =
     (case atoi s of
        Some n \<Rightarrow> n
      | None \<Rightarrow>
          let neg = (s \<noteq> [] \<and> hd s = CHR ''-''); ds = (if s \<noteq> [] \<and> (hd s = CHR ''-'' \<or> hd s = CHR ''+'') then tl s else s) in
          if ds \<noteq> [] \<and> list_all is_digit ds then (if neg then - (2 ^ 63) else 2 ^ 63 - 1) else 0)"

definition get_audit :: "string \<Rightarrow> string \<Rightarrow> string \<Rightarrow> audit_db \<Rightarrow> audit_rec list" where
  "get_audit tenant outcome limit db = list_audit tenant outcome (atoi_value limit) db"

definition post_audit :: "(string \<Rightarrow> string + audit_rec) \<Rightarrow> sql_driver \<Rightarrow> db_fault \<Rightarrow> time \<Rightarrow> string \<Rightarrow> string option \<Rightarrow> audit_db \<Rightarrow> (problem + unit) \<times> audit_db" where
  "post_audit dec dr fault now role body db =
     (if role \<noteq> ''platform-admin'' then (Inl (forbidden ''admin role required''), db)
      else case body of
        None \<Rightarrow> (Inl (bad_request ''could not read body''), db)
      | Some b \<Rightarrow> (case append_json dec dr fault now b db of (Some e, db1) \<Rightarrow> (Inl (internal e), db1) | (None, db1) \<Rightarrow> (Inr (), db1)))"

subsection \<open>The log keeps the first record of an id\<close>

text \<open>The record that a delivery carries, if it is well formed.\<close>

definition carried :: "(string \<Rightarrow> string + audit_rec) \<Rightarrow> time \<times> bus_message \<Rightarrow> audit_rec option" where
  "carried dec x =
     (case dec (bm_data (snd x)) of
        Inl _ \<Rightarrow> None
      | Inr r \<Rightarrow> if ar_id r = [] then None else Some (r\<lparr>ar_at := (if ar_at r = 0 then fst x else ar_at r), ar_raw := bm_data (snd x)\<rparr>))"

fun firsts :: "string set \<Rightarrow> audit_rec list \<Rightarrow> audit_rec list" where
  "firsts seen [] = []"
| "firsts seen (r # rs) = (if ar_id r \<in> seen then firsts seen rs else r # firsts (insert (ar_id r) seen) rs)"

text \<open>A delivery comes with what the database does to its statement; it reaches the log unless the statement failed without effect.\<close>

type_synonym delivery = "time \<times> db_fault \<times> bus_message"

definition effective :: "(string \<Rightarrow> string + audit_rec) \<Rightarrow> delivery \<Rightarrow> audit_rec option" where
  "effective dec x = (case x of (now, fault, m) \<Rightarrow> (case fault of Some (False, e) \<Rightarrow> None | _ \<Rightarrow> carried dec (now, m)))"

definition deliveries :: "(string \<Rightarrow> string + audit_rec) \<Rightarrow> sql_driver \<Rightarrow> delivery list \<Rightarrow> audit_db \<Rightarrow> audit_db" where
  "deliveries dec dr xs db = fold (\<lambda>(now, fault, m) db. snd (audit_handle dec dr fault now m db)) xs db"

lemma handle_rows:
  "snd (audit_handle dec dr fault now m db) =
     (case effective dec (now, fault, m) of None \<Rightarrow> db | Some r \<Rightarrow> if ar_id r \<in> ar_id ` set db then db else db @ [r])"
  by (auto simp: audit_handle_def append_json_def audit_append_def carried_def effective_def Let_def split: sum.splits option.splits bool.splits)

lemma carried_later: "carried dec (now, m) = Some r \<Longrightarrow> \<exists>r'. carried dec (now', m) = Some r' \<and> ar_id r' = ar_id r"
  by (auto simp: carried_def split: sum.splits if_splits)

lemma effective_carried: "effective dec (now, fault, m) = Some r \<Longrightarrow> carried dec (now, m) = Some r"
  by (auto simp: effective_def split: option.splits bool.splits)

lemma deliveries_rows:
  "deliveries dec dr xs db = db @ firsts (ar_id ` set db) (List.map_filter (effective dec) xs)"
proof (induction xs arbitrary: db)
  case (Cons x xs)
  obtain now fault m where x: "x = (now, fault, m)" by (cases x) fastforce
  have d: "deliveries dec dr (x # xs) db = deliveries dec dr xs (snd (audit_handle dec dr fault now m db))" by (simp add: deliveries_def x)
  show ?case
  proof (cases "effective dec x")
    case None
    then show ?thesis using Cons.IH unfolding d by (simp add: handle_rows x List.map_filter_simps)
  next
    case (Some r)
    then show ?thesis using Cons.IH unfolding d by (simp add: handle_rows x List.map_filter_simps image_Un)
  qed
qed (simp add: deliveries_def List.map_filter_simps)

lemma firsts_ids: "ar_id ` set (firsts seen rs) = ar_id ` set rs - seen"
  by (induction rs arbitrary: seen) auto

lemma firsts_distinct: "distinct (map ar_id (firsts seen rs))"
  by (induction rs arbitrary: seen) (auto simp: firsts_ids image_iff[symmetric] dest: arg_cong [of _ _ ar_id])

lemma handle_again:
  assumes "(t, f, m) \<in> set xs" "effective dec (t, f, m) \<noteq> None"
  shows "snd (audit_handle dec dr fault now m (deliveries dec dr xs [])) = deliveries dec dr xs []"
proof (cases "effective dec (now, fault, m)")
  case (Some r)
  obtain r' where r': "effective dec (t, f, m) = Some r'" using assms(2) by auto
  have "ar_id r' = ar_id r"
    using carried_later [OF effective_carried [OF r'], of now] effective_carried [OF Some] by auto
  moreover have "r' \<in> set (List.map_filter (effective dec) xs)" using assms(1) r' by (force simp: List.map_filter_def)
  ultimately have "ar_id r \<in> ar_id ` set (deliveries dec dr xs [])" by (simp add: deliveries_rows firsts_ids) (metis image_eqI)
  then show ?thesis using Some by (simp add: handle_rows)
qed (simp add: handle_rows)

lemma handle_acks:
  assumes "is_duplicate (dr_duplicate dr)" "carried dec (now, m) \<noteq> None"
  shows "fst (audit_handle dec dr None now m db) = None"
  using assms by (auto simp: audit_handle_def append_json_def audit_append_def carried_def Let_def split: sum.splits if_splits)

lemma handle_fault:
  assumes "carried dec (now, m) \<noteq> None" "\<not> is_duplicate e"
  shows "fst (audit_handle dec dr (Some (applied, e)) now m db) = Some e"
  using assms by (auto simp: audit_handle_def append_json_def audit_append_def carried_def Let_def split: sum.splits if_splits)

lemma duplicate_texts: "is_duplicate ''UNIQUE constraint failed: audit_records.id''" "is_duplicate ''ERROR: duplicate key value (SQLSTATE 23505)''"
  by (simp_all add: is_duplicate_def str_contains_def has_prefix_def)

text \<open>A record without an id, or one that does not decode, is an error on every delivery, so the bus brings it back for ever.\<close>

lemma unreadable_record_comes_back:
  "carried dec (now, m) = None \<Longrightarrow> \<not> is_duplicate (case dec (bm_data m) of Inl e \<Rightarrow> e | Inr _ \<Rightarrow> []) \<Longrightarrow>
   fst (audit_handle dec dr fault now m db) \<noteq> None \<and> snd (audit_handle dec dr fault now m db) = db"
  by (auto simp: carried_def audit_handle_def append_json_def is_duplicate_def str_contains_def has_prefix_def split: sum.splits if_splits)

text \<open>Two records that share an id: the second one is acknowledged and lost.\<close>

lemma second_record_of_an_id_is_lost:
  "is_duplicate (dr_duplicate dr) \<Longrightarrow> carried dec (now, m) = Some r \<Longrightarrow> ar_id r \<in> ar_id ` set db \<Longrightarrow> audit_handle dec dr None now m db = (None, db)"
  using handle_acks [of dr dec now m db] handle_rows [of dec dr None now m db] by (cases "audit_handle dec dr None now m db") (auto simp: effective_def)

subsection \<open>On the in-process bus\<close>

text \<open>Both subscriptions are in one group, so a message that both match is handled once.\<close>

lemma audit_bus_delivers_once:
  "bus_publish (audit_start h []) \<lparr>bm_subject = ''audit.v1'', bm_data = d, bm_headers = hs\<rparr> = [h]"
  "bus_publish (audit_start h []) \<lparr>bm_subject = ''audit.policy-gate.v1'', bm_data = d, bm_headers = hs\<rparr> = [h]"
  "bus_publish (audit_start h []) \<lparr>bm_subject = ''audit'', bm_data = d, bm_headers = hs\<rparr> = []"
  by (simp_all add: bus_publish_def audit_start_def bus_subscribe_def matching_subs_def subject_match_def)

subsection \<open>Properties\<close>

text \<open>C25: Whatever messages are delivered, in any order and any number of times, and whatever statements fail, with or without effect, the log
holds exactly the well-formed records whose statement took effect, the first one of each id, in the order of these deliveries. A
delivery of a message that is in the log changes nothing when it comes again, whatever its statement does, and is acknowledged when the driver reports a
duplicate in one of the known texts. A statement that fails with another text makes the handler return the error, so the bus brings the message back.\<close>

theorem audit_log_keeps_first_record:
  assumes "is_duplicate (dr_duplicate dr)" "(t, f, m) \<in> set xs" "effective dec (t, f, m) \<noteq> None"
  shows "deliveries dec dr xs [] = firsts {} (List.map_filter (effective dec) xs) \<and>
    distinct (map ar_id (deliveries dec dr xs [])) \<and>
    snd (audit_handle dec dr fault now m (deliveries dec dr xs [])) = deliveries dec dr xs [] \<and>
    audit_handle dec dr None now m (deliveries dec dr xs []) = (None, deliveries dec dr xs []) \<and>
    (\<forall>applied e n db. \<not> is_duplicate e \<longrightarrow> fst (audit_handle dec dr (Some (applied, e)) n m db) = Some e)"
proof (intro conjI allI impI)
  show d: "deliveries dec dr xs [] = firsts {} (List.map_filter (effective dec) xs)" by (simp add: deliveries_rows)
  show "distinct (map ar_id (deliveries dec dr xs []))" unfolding d by (rule firsts_distinct)
  obtain r where r: "carried dec (t, m) = Some r" using assms(3) effective_carried by blast
  have c: "carried dec (n, m) \<noteq> None" for n using carried_later [OF r, of n] by auto
  show "snd (audit_handle dec dr fault now m (deliveries dec dr xs [])) = deliveries dec dr xs []" by (rule handle_again [OF assms(2,3)])
  show "audit_handle dec dr None now m (deliveries dec dr xs []) = (None, deliveries dec dr xs [])"
    using handle_again [OF assms(2,3), of dr None now] handle_acks [OF assms(1) c] by (simp add: prod_eq_iff)
  show "fst (audit_handle dec dr (Some (applied, e)) n m db) = Some e" if "\<not> is_duplicate e" for applied e n db
    by (rule handle_fault [OF c that])
qed

definition id_decoder :: "string \<Rightarrow> string + audit_rec" where
  "id_decoder b = Inr \<lparr>ar_id = b, ar_at = 0, ar_service = [], ar_tenant = [], ar_request = [], ar_method = [], ar_path = [], ar_status = 200,
     ar_outcome = [], ar_agent = [], ar_ip = [], ar_verb = [], ar_resource = [], ar_raw = []\<rparr>"

definition sqlite_driver :: sql_driver where
  "sqlite_driver = \<lparr>dr_duplicate = ''UNIQUE constraint failed: audit_records.id'', dr_like = (\<lambda>_ _. False)\<rparr>"

definition audit_message :: "string \<Rightarrow> bus_message" where
  "audit_message b = \<lparr>bm_subject = ''audit.v1'', bm_data = b, bm_headers = []\<rparr>"

definition audit_deliveries :: "delivery list" where
  "audit_deliveries = [(1, None, audit_message ''a''), (2, Some (False, ''timeout''), audit_message ''b''), (3, None, audit_message ''a''),
     (4, Some (True, ''connection lost''), audit_message ''b''), (5, None, audit_message ''b'')]"

lemma audit_log_keeps_first_record_witness:
  "map ar_at (deliveries id_decoder sqlite_driver audit_deliveries []) = [1, 4] \<and>
   fst (audit_handle id_decoder sqlite_driver None 9 (audit_message ''a'') (deliveries id_decoder sqlite_driver audit_deliveries [])) = None"
proof -
  have "(1, None, audit_message ''a'') \<in> set audit_deliveries" "is_duplicate (dr_duplicate sqlite_driver)"
      "effective id_decoder (1, None, audit_message ''a'') \<noteq> None"
    by (simp_all add: audit_deliveries_def duplicate_texts sqlite_driver_def effective_def carried_def id_decoder_def audit_message_def)
  note r = audit_log_keeps_first_record [OF this(2,1,3), of None 9]
  have "map ar_at (firsts {} (List.map_filter (effective id_decoder) audit_deliveries)) = [1, 4]"
    by (simp add: audit_deliveries_def List.map_filter_simps effective_def carried_def id_decoder_def audit_message_def)
  then show ?thesis using r by (metis fst_conv snd_conv)
qed

end
