(* ===== verification/Training.thy ===== *)
theory Training
  imports Http Paging
begin

section \<open>services/training-orchestrator: the life of a job\<close>

text \<open>
  Model of \<open>internal/store/store.go\<close>, \<open>internal/service/service.go\<close> and \<open>internal/server/server.go\<close>. Cancelling and starting a job read
  the row and write it back with what they read, in two statements: requests run concurrently, so each of them is two steps here
  and \<open>tr_writes\<close> holds the writes that are still to come. The database refuses only a duplicate key.
\<close>

subsection \<open>Jobs\<close>

record train_job =
  tj_id :: string
  tj_tenant :: string
  tj_name :: string
  tj_base :: string
  tj_dataset :: string
  tj_version :: string
  tj_state :: string
  tj_done :: int
  tj_total :: int
  tj_metrics :: string
  tj_artifact :: string
  tj_error :: string
  tj_submitted :: time
  tj_finished :: "time option"

definition terminal_states :: "string list" where
  "terminal_states = [''succeeded'', ''failed'', ''cancelled'']"

datatype train_error = JobNotFound | JobRefused string

definition jobs_submit :: "sql_driver \<Rightarrow> time \<Rightarrow> train_job \<Rightarrow> train_job list \<Rightarrow> train_error option \<times> train_job list" where
  "jobs_submit dr now j db =
     (if tj_id j \<in> tj_id ` set db then (Some (JobRefused (dr_duplicate dr)), db)
      else (None, db @ [j\<lparr>tj_state := (if tj_state j = [] then ''pending'' else tj_state j),
                          tj_metrics := (if tj_metrics j = [] then ''{}'' else tj_metrics j), tj_submitted := now, tj_finished := None\<rparr>]))"

definition jobs_get :: "string \<Rightarrow> train_job list \<Rightarrow> train_error + train_job" where
  "jobs_get i db = (case find (\<lambda>j. tj_id j = i) db of None \<Rightarrow> Inl JobNotFound | Some j \<Rightarrow> Inr j)"

definition written :: "time \<Rightarrow> string \<Rightarrow> int \<Rightarrow> string \<Rightarrow> string \<Rightarrow> string \<Rightarrow> train_job \<Rightarrow> train_job" where
  "written now state epochs metrics artifact err j =
     j\<lparr>tj_state := state, tj_done := epochs, tj_metrics := metrics, tj_artifact := artifact, tj_error := err,
       tj_finished := (if state \<in> set terminal_states then Some now else None)\<rparr>"

definition jobs_update :: "time \<Rightarrow> string \<Rightarrow> string \<Rightarrow> int \<Rightarrow> string \<Rightarrow> string \<Rightarrow> string \<Rightarrow> train_job list \<Rightarrow> train_error option \<times> train_job list" where
  "jobs_update now i state epochs metrics artifact err db =
     (if i \<in> tj_id ` set db
      then (None, map (\<lambda>j. if tj_id j = i then written now state epochs metrics artifact err j else j) db)
      else (Some JobNotFound, db))"

definition jobs_list :: "string \<Rightarrow> train_job list \<Rightarrow> train_job list" where
  "jobs_list tenant db = sort_key (\<lambda>j. - tj_submitted j) (filter (\<lambda>j. tj_tenant j = tenant) db)"

subsection \<open>The service\<close>

definition submit_job :: "sql_driver \<Rightarrow> time \<Rightarrow> train_job \<Rightarrow> train_job list \<Rightarrow> (train_error + train_job) \<times> train_job list" where
  "submit_job dr now j db =
     (if tj_tenant j = [] \<or> tj_name j = [] \<or> tj_base j = [] \<or> tj_dataset j = []
      then (Inl (JobRefused ''tenant_id, name, base_model, dataset_id required''), db)
      else if tj_total j \<le> 0 then (Inl (JobRefused ''epochs_total must be > 0''), db)
      else
        let j1 = j\<lparr>tj_id := (if tj_id j = [] then ''tj-'' @ print_int (unix_nano now) else tj_id j), tj_state := ''pending''\<rparr> in
        case jobs_submit dr now j1 db of (Some e, db1) \<Rightarrow> (Inl e, db1) | (None, db1) \<Rightarrow> (Inr j1, db1))"

text \<open>A write that a request will do, from what it has read.\<close>

record job_write =
  jw_id :: string
  jw_state :: string
  jw_done :: int
  jw_metrics :: string
  jw_artifact :: string

definition write_of :: "string \<Rightarrow> train_job \<Rightarrow> job_write" where
  "write_of state j = \<lparr>jw_id = tj_id j, jw_state = state, jw_done = tj_done j, jw_metrics = tj_metrics j, jw_artifact = tj_artifact j\<rparr>"

definition cancel_read :: "string \<Rightarrow> train_job list \<Rightarrow> train_error + job_write option" where
  "cancel_read i db =
     (case jobs_get i db of
        Inl e \<Rightarrow> Inl e
      | Inr j \<Rightarrow> if tj_state j \<in> set terminal_states then Inr None else Inr (Some (write_of ''cancelled'' j)))"

definition run_read :: "string \<Rightarrow> train_job list \<Rightarrow> train_error + job_write option" where
  "run_read i db =
     (case jobs_get i db of
        Inl e \<Rightarrow> Inl e
      | Inr j \<Rightarrow> if tj_state j \<noteq> ''pending'' then Inl (JobRefused (''cannot run job in state '' @ tj_state j)) else Inr (Some (write_of ''running'' j)))"

definition job_finish_write :: "time \<Rightarrow> job_write \<Rightarrow> train_job list \<Rightarrow> train_error option \<times> train_job list" where
  "job_finish_write now w db = jobs_update now (jw_id w) (jw_state w) (jw_done w) (jw_metrics w) (jw_artifact w) [] db"

definition complete_success :: "time \<Rightarrow> string \<Rightarrow> string \<Rightarrow> string \<Rightarrow> int \<Rightarrow> train_job list \<Rightarrow> train_error option \<times> train_job list" where
  "complete_success now i artifact metrics epochs db = jobs_update now i ''succeeded'' epochs metrics artifact [] db"

definition complete_failure :: "time \<Rightarrow> string \<Rightarrow> string \<Rightarrow> int \<Rightarrow> train_job list \<Rightarrow> train_error option \<times> train_job list" where
  "complete_failure now i err epochs db = jobs_update now i ''failed'' epochs ''{}'' [] err db"

definition update_progress :: "time \<Rightarrow> string \<Rightarrow> string \<Rightarrow> int \<Rightarrow> string \<Rightarrow> string \<Rightarrow> string \<Rightarrow> train_job list \<Rightarrow> train_error option \<times> train_job list" where
  "update_progress now i state epochs metrics artifact err db =
     (if state \<noteq> []
      then if state \<in> set ([''pending'', ''running''] @ terminal_states) then jobs_update now i state epochs metrics artifact err db
           else (Some (JobRefused ''invalid state''), db)
      else case jobs_get i db of
        Inl e \<Rightarrow> (Some e, db)
      | Inr j \<Rightarrow> jobs_update now i (tj_state j) epochs metrics artifact err db)"

subsection \<open>Routes\<close>

definition train_error_text :: "train_error \<Rightarrow> string" where
  "train_error_text e = (case e of JobNotFound \<Rightarrow> ''training: not found'' | JobRefused s \<Rightarrow> s)"

definition post_job :: "sql_driver \<Rightarrow> string \<Rightarrow> time \<Rightarrow> train_job option \<Rightarrow> train_job list \<Rightarrow> (problem + train_job) \<times> train_job list" where
  "post_job dr tenant now body db =
     (case body of
        None \<Rightarrow> (Inl (bad_request ''invalid JSON''), db)
      | Some j \<Rightarrow> (case submit_job dr now (j\<lparr>tj_tenant := tenant\<rparr>) db of
          (Inl e, db1) \<Rightarrow> (Inl (bad_request (train_error_text e)), db1) | (Inr j1, db1) \<Rightarrow> (Inr j1, db1)))"

definition get_job :: "string \<Rightarrow> string \<Rightarrow> train_job list \<Rightarrow> problem + train_job" where
  "get_job tenant i db =
     (case jobs_get i db of
        Inl _ \<Rightarrow> Inl (not_found ''job not found'')
      | Inr j \<Rightarrow> if tenant \<noteq> [] \<and> tenant \<noteq> tj_tenant j then Inl (forbidden ''cross-tenant read denied'') else Inr j)"

record job_report =
  jr_state :: string
  jr_done :: int
  jr_metrics :: string
  jr_artifact :: string
  jr_error :: string

definition patch_job :: "time \<Rightarrow> string \<Rightarrow> string \<Rightarrow> job_report option \<Rightarrow> train_job list \<Rightarrow> (problem + unit) \<times> train_job list" where
  "patch_job now tenant i body db =
     (case body of
        None \<Rightarrow> (Inl (bad_request ''invalid JSON''), db)
      | Some r \<Rightarrow> (case update_progress now i (jr_state r) (jr_done r) (jr_metrics r) (jr_artifact r) (jr_error r) db of
          (Some e, db1) \<Rightarrow> (Inl (bad_request (train_error_text e)), db1) | (None, db1) \<Rightarrow> (Inr (), db1)))"

subsection \<open>Interleaved requests\<close>

record training =
  tr_jobs :: "train_job list"
  tr_writes :: "job_write list"

datatype train_op =
    Submit string time train_job
  | Report time string job_report
  | CancelRead string | RunRead string
  | WriteBack time nat

definition queue_write :: "train_error + job_write option \<Rightarrow> training \<Rightarrow> training" where
  "queue_write r t = (case r of Inr (Some w) \<Rightarrow> t\<lparr>tr_writes := tr_writes t @ [w]\<rparr> | _ \<Rightarrow> t)"

definition train_step :: "sql_driver \<Rightarrow> train_op \<Rightarrow> training \<Rightarrow> training" where
  "train_step dr x t =
     (case x of
        Submit tenant now j \<Rightarrow> t\<lparr>tr_jobs := snd (post_job dr tenant now (Some j) (tr_jobs t))\<rparr>
      | Report now i r \<Rightarrow> t\<lparr>tr_jobs := snd (patch_job now [] i (Some r) (tr_jobs t))\<rparr>
      | CancelRead i \<Rightarrow> queue_write (cancel_read i (tr_jobs t)) t
      | RunRead i \<Rightarrow> queue_write (run_read i (tr_jobs t)) t
      | WriteBack now n \<Rightarrow>
          (if length (tr_writes t) \<le> n then t
           else t\<lparr>tr_jobs := snd (job_finish_write now (tr_writes t ! n) (tr_jobs t)), tr_writes := take n (tr_writes t) @ drop (Suc n) (tr_writes t)\<rparr>))"

definition no_training :: training where "no_training = \<lparr>tr_jobs = [], tr_writes = []\<rparr>"

subsection \<open>The job table\<close>

definition job_ok :: "train_job \<Rightarrow> bool" where
  "job_ok j \<longleftrightarrow> tj_state j \<in> set ([''pending'', ''running''] @ terminal_states) \<and> 0 < tj_total j \<and>
     (tj_finished j \<noteq> None \<longleftrightarrow> tj_state j \<in> set terminal_states)"

definition jobs_inv :: "training \<Rightarrow> bool" where
  "jobs_inv t \<longleftrightarrow> distinct (map tj_id (tr_jobs t)) \<and> list_all job_ok (tr_jobs t) \<and> (\<forall>w \<in> set (tr_writes t). jw_state w = ''cancelled'' \<or> jw_state w = ''running'')"

lemma jobs_inv_start: "jobs_inv no_training"
  by (simp add: jobs_inv_def no_training_def)

lemma written_ok: "state \<in> set ([''pending'', ''running''] @ terminal_states) \<Longrightarrow> job_ok j \<Longrightarrow> job_ok (written now state e m a err j)"
  by (auto simp: job_ok_def written_def)

lemma update_table:
  assumes "distinct (map tj_id db)" "list_all job_ok db" "state \<in> set ([''pending'', ''running''] @ terminal_states)"
  shows "distinct (map tj_id (snd (jobs_update now i state e m a err db))) \<and> list_all job_ok (snd (jobs_update now i state e m a err db))"
proof -
  have "tj_id \<circ> (\<lambda>j. if tj_id j = i then written now state e m a err j else j) = tj_id"
    by (auto simp: written_def)
  moreover have "list_all job_ok (map (\<lambda>j. if tj_id j = i then written now state e m a err j else j) db)"
    using assms(2,3) written_ok by (auto simp: list_all_iff)
  ultimately show ?thesis using assms(1,2) by (simp add: jobs_update_def)
qed

lemma get_ok: "list_all job_ok db \<Longrightarrow> jobs_get i db = Inr j \<Longrightarrow> job_ok j \<and> tj_id j = i \<and> j \<in> set db"
  by (auto simp: jobs_get_def list_all_iff find_Some_iff split: option.splits)

lemma post_table:
  assumes "distinct (map tj_id db)" "list_all job_ok db"
  shows "distinct (map tj_id (snd (post_job dr tenant now body db))) \<and> list_all job_ok (snd (post_job dr tenant now body db))"
  using assms by (auto simp: post_job_def submit_job_def jobs_submit_def job_ok_def terminal_states_def Let_def split: option.splits)

lemma patch_table:
  assumes "distinct (map tj_id db)" "list_all job_ok db"
  shows "distinct (map tj_id (snd (patch_job now tenant i body db))) \<and> list_all job_ok (snd (patch_job now tenant i body db))"
proof (cases body)
  case (Some r)
  have p: "snd (patch_job now tenant i body db) = snd (update_progress now i (jr_state r) (jr_done r) (jr_metrics r) (jr_artifact r) (jr_error r) db)"
    by (auto simp: patch_job_def Some split: prod.splits option.splits)
  show ?thesis
  proof (cases "jr_state r = []")
    case True
    show ?thesis
    proof (cases "jobs_get i db")
      case (Inr j)
      then have "tj_state j \<in> set ([''pending'', ''running''] @ terminal_states)" using get_ok [OF assms(2) Inr] by (simp add: job_ok_def)
      then show ?thesis using update_table [OF assms] Inr True unfolding p by (simp add: update_progress_def)
    qed (use assms True in \<open>simp add: p update_progress_def\<close>)
  next
    case False
    then show ?thesis using update_table [OF assms, of "jr_state r"] assms unfolding p by (auto simp: update_progress_def)
  qed
qed (use assms in \<open>simp add: patch_job_def\<close>)

lemma train_step_inv: "jobs_inv t \<Longrightarrow> jobs_inv (train_step dr x t)"
proof (cases x)
  case (WriteBack now n)
  assume inv: "jobs_inv t"
  show ?thesis
  proof (cases "length (tr_writes t) \<le> n")
    case False
    then have "jw_state (tr_writes t ! n) = ''cancelled'' \<or> jw_state (tr_writes t ! n) = ''running''" using inv by (simp add: jobs_inv_def)
    then have "jw_state (tr_writes t ! n) \<in> set ([''pending'', ''running''] @ terminal_states)" by (auto simp: terminal_states_def)
    then show ?thesis using False WriteBack inv update_table
      by (auto simp: jobs_inv_def train_step_def job_finish_write_def dest: in_set_takeD in_set_dropD)
  qed (use inv WriteBack in \<open>simp add: train_step_def\<close>)
next
  case (Submit tenant now j)
  assume "jobs_inv t"
  then show ?thesis using post_table Submit by (simp add: jobs_inv_def train_step_def)
next
  case (Report now i r)
  assume "jobs_inv t"
  then show ?thesis using patch_table Report by (simp add: jobs_inv_def train_step_def)
next
  case (CancelRead i)
  assume "jobs_inv t"
  then show ?thesis using CancelRead
    by (auto simp: jobs_inv_def train_step_def queue_write_def cancel_read_def write_of_def split: sum.splits)
next
  case (RunRead i)
  assume "jobs_inv t"
  then show ?thesis using RunRead
    by (auto simp: jobs_inv_def train_step_def queue_write_def run_read_def write_of_def split: sum.splits)
qed

lemma train_run_inv: "jobs_inv t \<Longrightarrow> jobs_inv (fold (train_step dr) xs t)"
  by (induction xs arbitrary: t) (simp_all add: train_step_inv)

subsection \<open>A terminal state is not final\<close>

text \<open>A request that reads before it writes leaves a job alone that it finds in a terminal state.\<close>

lemma reads_respect_terminal_states:
  "jobs_get i db = Inr j \<Longrightarrow> tj_state j \<in> set terminal_states \<Longrightarrow> cancel_read i db = Inr None \<and> (\<exists>e. run_read i db = Inl e)"
  by (auto simp: cancel_read_def run_read_def terminal_states_def)

text \<open>A report of a runner, from any tenant, sets any of the five states, whatever the job's state is.\<close>

lemma report_reopens:
  assumes "distinct (map tj_id db)" "j \<in> set db" "jr_state r = ''running'' \<or> jr_state r = ''pending''"
  shows "written now (jr_state r) (jr_done r) (jr_metrics r) (jr_artifact r) (jr_error r) j \<in> set (snd (patch_job now tenant (tj_id j) (Some r) db))"
  using assms(2,3) by (auto simp: patch_job_def update_progress_def jobs_update_def image_iff)

definition stale_cancel :: "train_op list" where
  "stale_cancel =
     [Submit ''t'' 1 \<lparr>tj_id = ''j'', tj_tenant = [], tj_name = ''n'', tj_base = ''b'', tj_dataset = ''d'', tj_version = [], tj_state = [], tj_done = 0,
        tj_total = 5, tj_metrics = [], tj_artifact = [], tj_error = [], tj_submitted = 0, tj_finished = None\<rparr>,
      RunRead ''j'', WriteBack 2 0, CancelRead ''j'',
      Report 3 ''j'' \<lparr>jr_state = ''succeeded'', jr_done = 5, jr_metrics = ''m'', jr_artifact = ''oci'', jr_error = []\<rparr>,
      WriteBack 4 0]"

lemma stale_cancel_loses_the_artifact:
  "map (\<lambda>j. (tj_state j, tj_done j, tj_artifact j)) (tr_jobs (fold (train_step dr) (take 5 stale_cancel) no_training)) = [(''succeeded'', 5, ''oci'')]"
  "map (\<lambda>j. (tj_state j, tj_done j, tj_artifact j)) (tr_jobs (fold (train_step dr) stale_cancel no_training)) = [(''cancelled'', 0, [])]"
  by (simp_all add: stale_cancel_def no_training_def train_step_def post_job_def submit_job_def jobs_submit_def run_read_def jobs_get_def
      write_of_def queue_write_def job_finish_write_def jobs_update_def written_def cancel_read_def terminal_states_def patch_job_def update_progress_def)

subsection \<open>Properties\<close>

text \<open>However requests interleave, the table has one row per job id, every job is in one of the five states and has a positive
number of epochs to do, and the finishing time is set exactly while the state is terminal.\<close>

theorem finished_iff_terminal:
  assumes "j \<in> set (tr_jobs (fold (train_step dr) xs no_training))"
  shows "tj_state j \<in> {''pending'', ''running'', ''succeeded'', ''failed'', ''cancelled''} \<and> 0 < tj_total j \<and>
    (tj_finished j \<noteq> None \<longleftrightarrow> tj_state j \<in> {''succeeded'', ''failed'', ''cancelled''}) \<and>
    filter (\<lambda>k. tj_id k = tj_id j) (tr_jobs (fold (train_step dr) xs no_training)) = [j]"
proof -
  have inv: "jobs_inv (fold (train_step dr) xs no_training)" by (rule train_run_inv [OF jobs_inv_start])
  then have "job_ok j" using assms by (simp add: jobs_inv_def list_all_iff)
  moreover have "filter (\<lambda>k. tj_id k = tj_id j) (tr_jobs (fold (train_step dr) xs no_training)) = [j]"
    using inv assms by (intro filter_key_single) (simp_all add: jobs_inv_def)
  ultimately show ?thesis by (simp add: job_ok_def terminal_states_def)
qed

definition job_driver :: sql_driver where "job_driver = \<lparr>dr_duplicate = ''duplicate key value'', dr_like = (\<lambda>_ _. False)\<rparr>"

lemma finished_iff_terminal_witness:
  "\<forall>j \<in> set (tr_jobs (fold (train_step job_driver) stale_cancel no_training)). tj_finished j \<noteq> None"
proof
  fix j
  assume j: "j \<in> set (tr_jobs (fold (train_step job_driver) stale_cancel no_training))"
  have "(tj_state j, tj_done j, tj_artifact j) \<in> set [(''cancelled'', 0, [])]"
    unfolding stale_cancel_loses_the_artifact(2) [of job_driver, symmetric] using j by simp
  then show "tj_finished j \<noteq> None" using finished_iff_terminal [OF j] by simp
qed

end
