(* ===== verification/Tenants.thy ===== *)
theory Tenants
  imports Http Paging
begin

section \<open>services/tenant-service: tenants, quotas, data-subject requests\<close>

text \<open>
  Model of \<open>internal/store/store.go\<close>, \<open>internal/service/service.go\<close> and \<open>internal/server/server.go\<close>. The quota table is an association list
  from tenant and metric. The statements of a creation are not in a transaction: \<open>fails\<close> tells which quota cannot be written; all other
  statements are refused only for a duplicate key. A lifecycle message is kept as its fields.
\<close>

subsection \<open>Rows\<close>

record tenant_row =
  tn_id :: string
  tn_name :: string
  tn_tier :: string
  tn_key :: string
  tn_state :: string
  tn_created :: time
  tn_updated :: time
  tn_deleted :: "time option"

record quota_row =
  qo_soft :: int
  qo_hard :: int
  qo_updated :: time

record dsar_row =
  ds_id :: string
  ds_tenant :: string
  ds_subject :: string
  ds_kind :: string
  ds_status :: string
  ds_by :: string
  ds_artifact :: string
  ds_requested :: time
  ds_completed :: "time option"

datatype tenant_message = Lifecycle string string | DsarFiled dsar_row

record tenant_db =
  td_tenants :: "tenant_row list"
  td_quotas :: "((string \<times> string) \<times> quota_row) list"
  td_dsars :: "dsar_row list"
  td_published :: "tenant_message list"

subsection \<open>Store\<close>

text \<open>The defaults of a tier, in the order in which the map is ranged over.\<close>

definition tier_defaults :: "string \<Rightarrow> (string \<times> int \<times> int) list" where
  "tier_defaults tier =
     (if tier = ''free'' then
        [(''pipelines'', 2, 5), (''streams'', 3, 5), (''events_per_minute'', 600, 1200), (''inferences_per_second'', 5, 10), (''gpus'', 0, 0),
         (''storage_bytes'', 2 ^ 30, 5 * 2 ^ 30)]
      else if tier = ''enterprise'' then
        [(''pipelines'', 500, 1000), (''streams'', 2000, 5000), (''events_per_minute'', 1000000, 5000000),
         (''inferences_per_second'', 10000, 50000), (''gpus'', 50, 200), (''storage_bytes'', 2 ^ 50, 10 * 2 ^ 50)]
      else
        [(''pipelines'', 50, 200), (''streams'', 100, 500), (''events_per_minute'', 60000, 300000), (''inferences_per_second'', 500, 2000),
         (''gpus'', 4, 16), (''storage_bytes'', 100 * 2 ^ 30, 2 ^ 40)])"

definition store_upsert_quota :: "time \<Rightarrow> string \<Rightarrow> string \<Rightarrow> int \<Rightarrow> int \<Rightarrow> tenant_db \<Rightarrow> tenant_db" where
  "store_upsert_quota now tenant metric soft hard db =
     db\<lparr>td_quotas := AList.update (tenant, metric) \<lparr>qo_soft = soft, qo_hard = hard, qo_updated = now\<rparr> (td_quotas db)\<rparr>"

fun apply_defaults :: "(string \<Rightarrow> string option) \<Rightarrow> time \<Rightarrow> string \<Rightarrow> (string \<times> int \<times> int) list \<Rightarrow> tenant_db \<Rightarrow> string option \<times> tenant_db" where
  "apply_defaults fails now tenant [] db = (None, db)"
| "apply_defaults fails now tenant ((metric, soft, hard) # ds) db =
     (case fails metric of
        Some e \<Rightarrow> (Some e, db)
      | None \<Rightarrow> apply_defaults fails now tenant ds (store_upsert_quota now tenant metric soft hard db))"

definition store_create_tenant :: "sql_driver \<Rightarrow> (string \<Rightarrow> string option) \<Rightarrow> time \<Rightarrow> tenant_row \<Rightarrow> tenant_db \<Rightarrow> string option \<times> tenant_db" where
  "store_create_tenant dr fails now t db =
     (let tier = (if tn_tier t = [] then ''standard'' else tn_tier t);
          t1 = t\<lparr>tn_tier := tier, tn_state := (if tn_state t = [] then ''active'' else tn_state t), tn_created := now, tn_updated := now, tn_deleted := None\<rparr> in
      if tn_id t \<in> tn_id ` set (td_tenants db) then (Some (dr_duplicate dr), db)
      else apply_defaults fails now (tn_id t) (tier_defaults tier) (db\<lparr>td_tenants := td_tenants db @ [t1]\<rparr>))"

definition store_get_tenant :: "string \<Rightarrow> tenant_db \<Rightarrow> tenant_row option" where
  "store_get_tenant i db = find (\<lambda>t. tn_id t = i) (td_tenants db)"

definition store_list_tenants :: "tenant_db \<Rightarrow> tenant_row list" where
  "store_list_tenants db = sort_key tn_name (td_tenants db)"

definition store_soft_delete :: "time \<Rightarrow> string \<Rightarrow> tenant_db \<Rightarrow> bool \<times> tenant_db" where
  "store_soft_delete now i db =
     (if i \<in> tn_id ` set (td_tenants db)
      then (True, db\<lparr>td_tenants := map (\<lambda>t. if tn_id t = i then t\<lparr>tn_state := ''deleted'', tn_deleted := Some now, tn_updated := now\<rparr> else t) (td_tenants db)\<rparr>)
      else (False, db))"

definition store_list_quotas :: "string \<Rightarrow> tenant_db \<Rightarrow> (string \<times> quota_row) list" where
  "store_list_quotas tenant db = map (\<lambda>((t, m), q). (m, q)) (filter (\<lambda>((t, m), q). t = tenant) (td_quotas db))"

definition store_create_dsar :: "sql_driver \<Rightarrow> time \<Rightarrow> dsar_row \<Rightarrow> tenant_db \<Rightarrow> string option \<times> tenant_db" where
  "store_create_dsar dr now d db =
     (if ds_id d \<in> ds_id ` set (td_dsars db) then (Some (dr_duplicate dr), db)
      else (None, db\<lparr>td_dsars := td_dsars db @ [d\<lparr>ds_status := (if ds_status d = [] then ''pending'' else ds_status d), ds_requested := now,
                                                   ds_completed := None\<rparr>]\<rparr>))"

definition store_complete_dsar :: "time \<Rightarrow> string \<Rightarrow> string \<Rightarrow> tenant_db \<Rightarrow> bool \<times> tenant_db" where
  "store_complete_dsar now i artifact db =
     (if i \<in> ds_id ` set (td_dsars db)
      then (True, db\<lparr>td_dsars := map (\<lambda>d. if ds_id d = i then d\<lparr>ds_status := ''completed'', ds_completed := Some now, ds_artifact := artifact\<rparr> else d) (td_dsars db)\<rparr>)
      else (False, db))"

definition store_list_dsar :: "string \<Rightarrow> tenant_db \<Rightarrow> dsar_row list" where
  "store_list_dsar tenant db = sort_key (\<lambda>d. - ds_requested d) (filter (\<lambda>d. ds_tenant d = tenant) (td_dsars db))"

subsection \<open>Service\<close>

definition publish_tenant :: "tenant_message \<Rightarrow> tenant_db \<Rightarrow> tenant_db" where
  "publish_tenant m db = db\<lparr>td_published := td_published db @ [m]\<rparr>"

definition create_tenant :: "sql_driver \<Rightarrow> (string \<Rightarrow> string option) \<Rightarrow> string \<Rightarrow> time \<Rightarrow> tenant_row \<Rightarrow> tenant_db \<Rightarrow> (string + tenant_row) \<times> tenant_db" where
  "create_tenant dr fails rid now t db =
     (if tn_name t = [] then (Inl ''name required'', db)
      else
        let t1 = t\<lparr>tn_tier := (if tn_tier t = [] then ''standard'' else tn_tier t)\<rparr> in
        if tn_tier t1 \<notin> {''free'', ''standard'', ''enterprise''} then (Inl ''tier must be one of free|standard|enterprise'', db)
        else
          let i = (if tn_id t1 = [] then ''t-'' @ rid else tn_id t1);
              t2 = t1\<lparr>tn_id := i, tn_key := (if tn_key t1 = [] then ''vault://aegisvision/tenants/'' @ i else tn_key t1),
                      tn_state := (if tn_state t1 = [] then ''active'' else tn_state t1)\<rparr> in
          case store_create_tenant dr fails now t2 db of
            (Some e, db1) \<Rightarrow> (Inl e, db1)
          | (None, db1) \<Rightarrow> (Inr t2, publish_tenant (Lifecycle ''tenant.created'' i) db1))"

definition upsert_quota :: "time \<Rightarrow> string \<Rightarrow> string \<Rightarrow> int \<Rightarrow> int \<Rightarrow> tenant_db \<Rightarrow> string option \<times> tenant_db" where
  "upsert_quota now tenant metric soft hard db =
     (if tenant = [] \<or> metric = [] then (Some ''tenant_id and metric required'', db)
      else if soft < 0 \<or> hard < 0 then (Some ''quota limits must be >= 0'', db)
      else if 0 < hard \<and> hard < soft then (Some ''soft_limit cannot exceed hard_limit'', db)
      else (None, store_upsert_quota now tenant metric soft hard db))"

definition file_dsar :: "sql_driver \<Rightarrow> string \<Rightarrow> time \<Rightarrow> dsar_row \<Rightarrow> tenant_db \<Rightarrow> (string + dsar_row) \<times> tenant_db" where
  "file_dsar dr rid now d db =
     (if ds_tenant d = [] \<or> ds_subject d = [] then (Inl ''tenant_id and subject required'', db)
      else if ds_kind d \<noteq> ''access'' \<and> ds_kind d \<noteq> ''erasure'' then (Inl ''kind must be access|erasure'', db)
      else
        let d1 = d\<lparr>ds_id := (if ds_id d = [] then ''dsar-'' @ rid else ds_id d), ds_status := ''pending''\<rparr> in
        case store_create_dsar dr now d1 db of
          (Some e, db1) \<Rightarrow> (Inl e, db1)
        | (None, db1) \<Rightarrow> (Inr d1, publish_tenant (DsarFiled d1) db1))"

definition soft_delete :: "time \<Rightarrow> string \<Rightarrow> tenant_db \<Rightarrow> bool \<times> tenant_db" where
  "soft_delete now i db =
     (case store_soft_delete now i db of
        (True, db1) \<Rightarrow> (True, publish_tenant (Lifecycle ''tenant.deleted'' i) db1)
      | (False, db1) \<Rightarrow> (False, db1))"

subsection \<open>Routes that change the tables\<close>

datatype tenant_request =
    PostTenant string time "tenant_row option" "string \<Rightarrow> string option"
  | DeleteTenant time string
  | PutQuota time string string "(int \<times> int) option"
  | PostDsar string time string string "dsar_row option"
  | CompleteDsar time string string

definition post_dsar :: "sql_driver \<Rightarrow> string \<Rightarrow> time \<Rightarrow> string \<Rightarrow> string \<Rightarrow> string \<Rightarrow> dsar_row option \<Rightarrow> tenant_db \<Rightarrow> (problem + dsar_row) \<times> tenant_db" where
  "post_dsar dr rid now tenant subject user body db =
     (case body of
        None \<Rightarrow> (Inl (bad_request ''invalid JSON''), db)
      | Some d \<Rightarrow>
          let d1 = d\<lparr>ds_by := (if subject = [] then user else subject), ds_tenant := (if ds_tenant d = [] then tenant else ds_tenant d)\<rparr> in
          case file_dsar dr rid now d1 db of (Inl e, db1) \<Rightarrow> (Inl (bad_request e), db1) | (Inr d2, db1) \<Rightarrow> (Inr d2, db1))"

definition tenant_step :: "sql_driver \<Rightarrow> string \<Rightarrow> tenant_request \<Rightarrow> tenant_db \<Rightarrow> problem option \<times> tenant_db" where
  "tenant_step dr tenant x db =
     (case x of
        PostTenant rid now body fails \<Rightarrow>
          (case body of
             None \<Rightarrow> (Some (bad_request ''invalid JSON''), db)
           | Some t \<Rightarrow> (case create_tenant dr fails rid now t db of (Inl e, db1) \<Rightarrow> (Some (bad_request e), db1) | (Inr _, db1) \<Rightarrow> (None, db1)))
      | DeleteTenant now i \<Rightarrow> (case soft_delete now i db of (True, db1) \<Rightarrow> (None, db1) | (False, db1) \<Rightarrow> (Some (internal ''tenant: not found''), db1))
      | PutQuota now i metric body \<Rightarrow>
          (case body of
             None \<Rightarrow> (Some (bad_request ''invalid JSON''), db)
           | Some (soft, hard) \<Rightarrow> (case upsert_quota now i metric soft hard db of (Some e, db1) \<Rightarrow> (Some (bad_request e), db1) | (None, db1) \<Rightarrow> (None, db1)))
      | PostDsar rid now subject user body \<Rightarrow>
          (case post_dsar dr rid now tenant subject user body db of (Inl p, db1) \<Rightarrow> (Some p, db1) | (Inr _, db1) \<Rightarrow> (None, db1))
      | CompleteDsar now i artifact \<Rightarrow>
          (case store_complete_dsar now i artifact db of (True, db1) \<Rightarrow> (None, db1) | (False, db1) \<Rightarrow> (Some (not_found ''dsar not found''), db1)))"

definition no_tenants :: tenant_db where
  "no_tenants = \<lparr>td_tenants = [], td_quotas = [], td_dsars = [], td_published = []\<rparr>"

subsection \<open>The tables stay consistent\<close>

definition limits_ok :: "int \<Rightarrow> int \<Rightarrow> bool" where
  "limits_ok soft hard \<longleftrightarrow> 0 \<le> soft \<and> 0 \<le> hard \<and> (0 < hard \<longrightarrow> soft \<le> hard)"

definition quotas_ok :: "tenant_db \<Rightarrow> bool" where
  "quotas_ok db \<longleftrightarrow> distinct (map fst (td_quotas db)) \<and> (\<forall>q \<in> snd ` set (td_quotas db). limits_ok (qo_soft q) (qo_hard q))"

definition dsar_ok :: "dsar_row \<Rightarrow> bool" where
  "dsar_ok d \<longleftrightarrow> ds_kind d \<in> {''access'', ''erasure''} \<and> (ds_status d = ''completed'' \<and> ds_completed d \<noteq> None \<or> ds_status d = ''pending'' \<and> ds_completed d = None)"

definition tenants_inv :: "tenant_db \<Rightarrow> bool" where
  "tenants_inv db \<longleftrightarrow> distinct (map tn_id (td_tenants db)) \<and> quotas_ok db \<and> distinct (map ds_id (td_dsars db)) \<and> list_all dsar_ok (td_dsars db)"

lemma tier_defaults_ok: "list_all (\<lambda>(m, s, h). limits_ok s h) (tier_defaults tier)"
  by (simp add: tier_defaults_def limits_ok_def)

lemma upsert_ok: "quotas_ok db \<Longrightarrow> limits_ok s h \<Longrightarrow> quotas_ok (store_upsert_quota now t m s h db)"
  by (auto simp: quotas_ok_def store_upsert_quota_def distinct_update set_update_distinct)

lemma upsert_rest:
  "td_tenants (store_upsert_quota now t m s h db) = td_tenants db" "td_dsars (store_upsert_quota now t m s h db) = td_dsars db"
  by (simp_all add: store_upsert_quota_def)

lemma defaults_ok:
  "quotas_ok db \<Longrightarrow> list_all (\<lambda>(m, s, h). limits_ok s h) ds \<Longrightarrow>
   quotas_ok (snd (apply_defaults fails now t ds db)) \<and> td_tenants (snd (apply_defaults fails now t ds db)) = td_tenants db \<and>
   td_dsars (snd (apply_defaults fails now t ds db)) = td_dsars db"
  by (induction fails now t ds db rule: apply_defaults.induct) (auto simp: upsert_ok upsert_rest split: option.splits)

lemma publish_inv [simp]: "tenants_inv (publish_tenant m db) = tenants_inv db"
  by (simp add: tenants_inv_def publish_tenant_def quotas_ok_def)

lemma store_create_inv: "tenants_inv db \<Longrightarrow> tenants_inv (snd (store_create_tenant dr fails now t db))"
proof -
  assume inv: "tenants_inv db"
  show ?thesis
  proof (cases "tn_id t \<in> tn_id ` set (td_tenants db)")
    case False
    define t1 where "t1 = t\<lparr>tn_tier := (if tn_tier t = [] then ''standard'' else tn_tier t), tn_state := (if tn_state t = [] then ''active'' else tn_state t),
      tn_created := now, tn_updated := now, tn_deleted := None\<rparr>"
    define db1 where "db1 = db\<lparr>td_tenants := td_tenants db @ [t1]\<rparr>"
    have q: "quotas_ok db1" using inv by (simp add: tenants_inv_def quotas_ok_def db1_def)
    have "snd (store_create_tenant dr fails now t db) = snd (apply_defaults fails now (tn_id t) (tier_defaults (tn_tier t1)) db1)"
      using False by (simp add: store_create_tenant_def t1_def db1_def Let_def)
    moreover have "tn_id t1 = tn_id t" by (simp add: t1_def)
    ultimately show ?thesis using defaults_ok [OF q tier_defaults_ok] inv False by (simp add: tenants_inv_def db1_def)
  qed (use inv in \<open>simp add: store_create_tenant_def Let_def\<close>)
qed

lemma create_inv:
  assumes "tenants_inv db"
  shows "tenants_inv (snd (create_tenant dr fails rid now t db))"
proof -
  define h where "h = (\<lambda>t2. case store_create_tenant dr fails now t2 db of
      (Some e, db1) \<Rightarrow> (Inl e, db1) | (None, db1) \<Rightarrow> (Inr t2, publish_tenant (Lifecycle ''tenant.created'' (tn_id t2)) db1))"
  have h: "tenants_inv (snd (h t2))" for t2
    using store_create_inv [OF assms, of dr fails now t2] unfolding h_def by (auto split: prod.splits option.splits)
  show ?thesis
  proof (cases "tn_name t = []")
    case False
    define t1 where "t1 = t\<lparr>tn_tier := (if tn_tier t = [] then ''standard'' else tn_tier t)\<rparr>"
    define i where "i = (if tn_id t1 = [] then ''t-'' @ rid else tn_id t1)"
    define t2 where "t2 = t1\<lparr>tn_id := i, tn_key := (if tn_key t1 = [] then ''vault://aegisvision/tenants/'' @ i else tn_key t1),
        tn_state := (if tn_state t1 = [] then ''active'' else tn_state t1)\<rparr>"
    have id: "tn_id t2 = i" by (simp add: t2_def)
    have "create_tenant dr fails rid now t db =
        (if tn_tier t1 \<notin> {''free'', ''standard'', ''enterprise''} then (Inl ''tier must be one of free|standard|enterprise'', db) else h t2)"
      unfolding create_tenant_def h_def id if_not_P [OF False] Let_def by (fold t1_def, fold i_def, fold t2_def) (rule refl)
    then show ?thesis using h assms by simp
  qed (simp add: create_tenant_def assms)
qed

lemma soft_delete_inv: "tenants_inv db \<Longrightarrow> tenants_inv (snd (soft_delete now i db))"
proof -
  have "tn_id \<circ> (\<lambda>t :: tenant_row. if tn_id t = i then t\<lparr>tn_state := ''deleted'', tn_deleted := Some now, tn_updated := now\<rparr> else t) = tn_id" by auto
  then show "tenants_inv db \<Longrightarrow> ?thesis"
    by (simp add: soft_delete_def store_soft_delete_def) (simp add: tenants_inv_def quotas_ok_def)
qed

lemma upsert_quota_inv: "tenants_inv db \<Longrightarrow> tenants_inv (snd (upsert_quota now t m s h db))"
  by (auto simp: upsert_quota_def tenants_inv_def upsert_rest limits_ok_def intro!: upsert_ok)

lemma file_dsar_inv: "tenants_inv db \<Longrightarrow> tenants_inv (snd (file_dsar dr rid now d db))"
proof -
  assume inv: "tenants_inv db"
  show ?thesis
  proof (cases "ds_tenant d = [] \<or> ds_subject d = [] \<or> ds_kind d \<notin> {''access'', ''erasure''}")
    case False
    define d1 where "d1 = d\<lparr>ds_id := (if ds_id d = [] then ''dsar-'' @ rid else ds_id d), ds_status := ''pending''\<rparr>"
    have f: "file_dsar dr rid now d db = (case store_create_dsar dr now d1 db of (Some e, db1) \<Rightarrow> (Inl e, db1) | (None, db1) \<Rightarrow> (Inr d1, publish_tenant (DsarFiled d1) db1))"
      unfolding file_dsar_def d1_def Let_def using False by auto
    have k: "ds_kind d1 \<in> {''access'', ''erasure''}" "ds_status d1 = ''pending''" using False by (simp_all add: d1_def)
    have "tenants_inv (snd (store_create_dsar dr now d1 db))"
      using inv k by (auto simp: store_create_dsar_def tenants_inv_def quotas_ok_def dsar_ok_def)
    then show ?thesis unfolding f by (auto split: prod.splits option.splits)
  qed (use inv in \<open>auto simp: file_dsar_def\<close>)
qed

lemma complete_inv: "tenants_inv db \<Longrightarrow> tenants_inv (snd (store_complete_dsar now i a db))"
proof -
  have "ds_id \<circ> (\<lambda>d :: dsar_row. if ds_id d = i then d\<lparr>ds_status := ''completed'', ds_completed := Some now, ds_artifact := a\<rparr> else d) = ds_id" by auto
  then show "tenants_inv db \<Longrightarrow> ?thesis"
    by (auto simp: store_complete_dsar_def tenants_inv_def quotas_ok_def list_all_iff dsar_ok_def)
qed

lemma tenant_step_inv: "tenants_inv db \<Longrightarrow> tenants_inv (snd (tenant_step dr tenant x db))"
  using create_inv [of db dr] soft_delete_inv [of db] upsert_quota_inv [of db] file_dsar_inv [of db dr] complete_inv [of db]
  by (cases x) (auto simp: tenant_step_def post_dsar_def split: option.splits prod.splits sum.splits bool.splits, (metis snd_conv)+)

lemma tenant_run_inv: "tenants_inv db \<Longrightarrow> tenants_inv (fold (\<lambda>(t, x) db. snd (tenant_step dr t x db)) xs db)"
  by (induction xs arbitrary: db) (auto simp: tenant_step_inv)

subsection \<open>Creation\<close>

lemma defaults_rows:
  "distinct (map fst ds) \<Longrightarrow>
   fst (apply_defaults (\<lambda>_. None) now t ds db) = None \<and>
   map_of (td_quotas (snd (apply_defaults (\<lambda>_. None) now t ds db))) (u, m) =
     (if u = t \<and> m \<in> fst ` set ds then map_option (\<lambda>(s, h). \<lparr>qo_soft = s, qo_hard = h, qo_updated = now\<rparr>) (map_of ds m) else map_of (td_quotas db) (u, m))"
proof (induction ds arbitrary: db)
  case (Cons d ds)
  obtain m' s h where d: "d = (m', s, h)" by (cases d) auto
  have "fst (apply_defaults (\<lambda>_. None) now t ds (store_upsert_quota now t m' s h db)) = None \<and>
   map_of (td_quotas (snd (apply_defaults (\<lambda>_. None) now t ds (store_upsert_quota now t m' s h db)))) (u, m) =
     (if u = t \<and> m \<in> fst ` set ds then map_option (\<lambda>(s, h). \<lparr>qo_soft = s, qo_hard = h, qo_updated = now\<rparr>) (map_of ds m)
      else map_of (td_quotas (store_upsert_quota now t m' s h db)) (u, m))"
    using Cons.prems by (intro Cons.IH) simp_all
  moreover have "m' \<notin> fst ` set ds" using Cons.prems by (simp add: d)
  ultimately show ?case by (auto simp: d store_upsert_quota_def)
qed simp

lemma tier_defaults_distinct: "distinct (map fst (tier_defaults tier))"
  by (simp add: tier_defaults_def)

text \<open>When no quota is refused, a tenant with a new id gets the quotas of its tier and the other tenants keep theirs.\<close>

lemma created_tenant_has_tier_quotas:
  assumes "tn_id t \<notin> tn_id ` set (td_tenants db)" "tn_tier t \<noteq> []"
  shows "fst (store_create_tenant dr (\<lambda>_. None) now t db) = None \<and>
    map_of (td_quotas (snd (store_create_tenant dr (\<lambda>_. None) now t db))) (u, m) =
      (if u = tn_id t \<and> m \<in> fst ` set (tier_defaults (tn_tier t))
       then map_option (\<lambda>(s, h). \<lparr>qo_soft = s, qo_hard = h, qo_updated = now\<rparr>) (map_of (tier_defaults (tn_tier t)) m)
       else map_of (td_quotas db) (u, m))"
proof -
  define db1 where "db1 = db\<lparr>td_tenants := td_tenants db @ [t\<lparr>tn_tier := tn_tier t, tn_state := (if tn_state t = [] then ''active'' else tn_state t),
      tn_created := now, tn_updated := now, tn_deleted := None\<rparr>]\<rparr>"
  have "store_create_tenant dr (\<lambda>_. None) now t db = apply_defaults (\<lambda>_. None) now (tn_id t) (tier_defaults (tn_tier t)) db1"
    using assms by (simp add: store_create_tenant_def db1_def Let_def)
  moreover have "td_quotas db1 = td_quotas db" by (simp add: db1_def)
  ultimately show ?thesis
    using defaults_rows [of "tier_defaults (tn_tier t)" now "tn_id t" db1 u m, OF tier_defaults_distinct] by simp
qed

text \<open>When the first quota is refused, the request fails, but the tenant is there, without a quota; a second attempt is a duplicate.\<close>

lemma failed_creation_leaves_tenant:
  assumes "\<And>m. fails m = Some e" "tn_id t \<notin> tn_id ` set (td_tenants db)"
  shows "fst (store_create_tenant dr fails now t db) = Some e \<and> td_quotas (snd (store_create_tenant dr fails now t db)) = td_quotas db \<and>
    fst (store_create_tenant dr fails' now' t (snd (store_create_tenant dr fails now t db))) = Some (dr_duplicate dr)"
proof -
  have "apply_defaults fails now i (tier_defaults tier) db' = (Some e, db')" for i tier db'
    using assms(1) by (simp add: tier_defaults_def)
  then show ?thesis using assms(2) by (auto simp: store_create_tenant_def Let_def)
qed

text \<open>Nothing in a request for a quota depends on the tenant that sends it.\<close>

lemma quotas_are_anyones: "tenant_step dr tenant (PutQuota now i metric body) db = tenant_step dr tenant' (PutQuota now i metric body) db"
  by (simp add: tenant_step_def)

subsection \<open>Properties\<close>

text \<open>Whatever requests tenants send, and whichever quotas a creation fails to write, there is one row per tenant id, per tenant and
metric, and per data-subject request; no limit is negative and no soft limit exceeds a hard limit that is set; and a data-subject
request is of one of the two kinds and has a completion time exactly when it is completed.\<close>

theorem tenant_tables_are_consistent:
  fixes xs :: "(string \<times> tenant_request) list"
  assumes "db = fold (\<lambda>(t, x) db. snd (tenant_step dr t x db)) xs no_tenants"
  shows "distinct (map tn_id (td_tenants db)) \<and> distinct (map fst (td_quotas db)) \<and> distinct (map ds_id (td_dsars db)) \<and>
    (\<forall>q \<in> snd ` set (td_quotas db). 0 \<le> qo_soft q \<and> 0 \<le> qo_hard q \<and> (0 < qo_hard q \<longrightarrow> qo_soft q \<le> qo_hard q)) \<and>
    (\<forall>d \<in> set (td_dsars db). (ds_kind d = ''access'' \<or> ds_kind d = ''erasure'') \<and> (ds_completed d \<noteq> None \<longleftrightarrow> ds_status d = ''completed''))"
proof -
  have "tenants_inv no_tenants" by (simp add: tenants_inv_def no_tenants_def quotas_ok_def)
  then have inv: "tenants_inv db" unfolding assms by (rule tenant_run_inv)
  have "(ds_kind d = ''access'' \<or> ds_kind d = ''erasure'') \<and> (ds_completed d \<noteq> None \<longleftrightarrow> ds_status d = ''completed'')" if "d \<in> set (td_dsars db)" for d
  proof -
    have "dsar_ok d" using inv that by (simp add: tenants_inv_def list_all_iff)
    then show ?thesis by (auto simp: dsar_ok_def)
  qed
  then show ?thesis using inv by (simp add: tenants_inv_def quotas_ok_def limits_ok_def)
qed

definition tenant_requests :: "(string \<times> tenant_request) list" where
  "tenant_requests =
     [(''ops'', PostTenant ''1'' 1 (Some \<lparr>tn_id = [], tn_name = ''acme'', tn_tier = ''free'', tn_key = [], tn_state = [], tn_created = 0, tn_updated = 0,
        tn_deleted = None\<rparr>) (\<lambda>_. None)),
      (''t-1'', PutQuota 2 ''t-1'' ''gpus'' (Some (1, 2))), (''t-1'', PutQuota 3 ''t-1'' ''gpus'' (Some (5, 2))),
      (''t-1'', PostDsar ''2'' 4 [] ''u'' (Some \<lparr>ds_id = [], ds_tenant = [], ds_subject = ''s'', ds_kind = ''erasure'', ds_status = [], ds_by = [],
        ds_artifact = [], ds_requested = 0, ds_completed = None\<rparr>)),
      (''t-1'', CompleteDsar 5 ''dsar-2'' ''a'')]"

lemma tenant_tables_are_consistent_witness:
  "\<forall>d \<in> set (td_dsars (fold (\<lambda>(t, x) db. snd (tenant_step \<lparr>dr_duplicate = ''d'', dr_like = (\<lambda>_ _. False)\<rparr> t x db)) tenant_requests no_tenants)).
    ds_completed d \<noteq> None \<longleftrightarrow> ds_status d = ''completed''"
  using tenant_tables_are_consistent [OF refl] by blast

end
