(* ===== verification/InferenceRouter.thy ===== *)
theory InferenceRouter
  imports Metering Operators
begin

section \<open>services/inference-router: calls to the model server\<close>

text \<open>
  Model of \<open>internal/detector/triton.go\<close> (the client of the model server with its retries and the decoding of its tensors),
  \<open>internal/service/service.go\<close> (validation, the two events of an inference) and \<open>internal/server/server.go\<close>. The network is a
  function from the number of the attempt to what the HTTP client returns; the JSON decoder, the random part of a wait, the
  remaining time of the context and clock readings are arguments. The settings of the connection pool decide nothing here.
  A panic of the decoder is a result of its own, which the recovery middleware turns into a response.
\<close>

subsection \<open>Options and waits\<close>

record triton_options =
  to_timeout :: duration
  to_retries :: int
  to_initial :: duration
  to_cap :: duration

definition no_options :: triton_options where
  "no_options = \<lparr>to_timeout = 0, to_retries = 0, to_initial = 0, to_cap = 0\<rparr>"

definition with_defaults :: "triton_options \<Rightarrow> triton_options" where
  "with_defaults opt =
     \<lparr>to_timeout = (if to_timeout opt = 0 then 5 * second else to_timeout opt), to_retries = (if to_retries opt = 0 then 2 else to_retries opt),
      to_initial = (if to_initial opt = 0 then 25 * millisecond else to_initial opt),
      to_cap = (if to_cap opt = 0 then 250 * millisecond else to_cap opt)\<rparr>"

text \<open>The shift wraps around.\<close>

definition exponential_backoff :: "duration \<Rightarrow> duration \<Rightarrow> int \<Rightarrow> duration" where
  "exponential_backoff initial cap attempt = (let d = i64 (initial * 2 ^ nat attempt) in if cap < d then cap else d)"

text \<open>\<open>pick\<close> is the random choice between 0 and its argument.\<close>

definition jitter :: "(duration \<Rightarrow> duration) \<Rightarrow> duration \<Rightarrow> duration" where
  "jitter pick d = (if d \<le> 0 then 0 else pick d)"

definition retryable_fragments :: "string list" where
  "retryable_fragments = [''connection reset'', ''connection refused'', ''broken pipe'', ''EOF'', ''i/o timeout'', ''no such host'']"

definition retryable_net_err :: "bool \<Rightarrow> string \<Rightarrow> bool" where
  "retryable_net_err timeout e \<longleftrightarrow> timeout \<or> list_ex (str_contains e) retryable_fragments"

subsection \<open>Responses\<close>

record triton_tensor =
  tt_datatype :: string
  tt_shape :: "int list"
  tt_data :: "json_value list"

record triton_response =
  tr_outputs :: "triton_tensor list"
  tr_parameters :: json_members

record triton_item =
  ti_class :: string
  ti_score :: fl
  ti_box :: bounding_box

text \<open>The decoders of a response and of the items in a text, and the out-of-range conversion to an integer.\<close>

record triton_codec =
  tc_response :: "string \<Rightarrow> string + triton_response"
  tc_items :: "string \<Rightarrow> triton_item list option"
  tc_huge :: "fl \<Rightarrow> int"

datatype triton_error = TritonError string | SlicePanic

definition cache_hit :: "triton_response \<Rightarrow> bool" where
  "cache_hit r \<longleftrightarrow> json_member (tr_parameters r) ''cache_hit'' = Some (JBool True)"

definition to_float32 :: "fl \<Rightarrow> fl" where
  "to_float32 x = (case x of Fin q \<Rightarrow> fl_round f32 q | _ \<Rightarrow> x)"

definition detection_of :: "descriptor \<Rightarrow> string \<Rightarrow> string \<Rightarrow> string \<Rightarrow> fl \<Rightarrow> bounding_box \<Rightarrow> frame_detection" where
  "detection_of frame model ver cls score b =
     \<lparr>dt_tenant = [], dt_pipeline = fd_pipeline frame, dt_stream = fd_stream frame, dt_seq = fd_seq frame, dt_capture = fd_capture frame,
      dt_model = model, dt_model_version = ver, dt_class = cls, dt_score = score, dt_box = Some b, dt_track = []\<rparr>"

text \<open>A field of a row; an entry that is not a number counts as zero.\<close>

definition tensor_field :: "json_value list \<Rightarrow> int \<Rightarrow> int \<Rightarrow> fl" where
  "tensor_field xs i k = (case xs ! nat (i * 6 + k) of JNumber v \<Rightarrow> to_float32 v | _ \<Rightarrow> Fin 0)"

definition tensor_row :: "triton_codec \<Rightarrow> descriptor \<Rightarrow> string \<Rightarrow> string \<Rightarrow> json_value list \<Rightarrow> int \<Rightarrow> frame_detection" where
  "tensor_row co frame model ver xs i =
     detection_of frame model ver (''class-'' @ print_int (int64_of (tc_huge co) (tensor_field xs i 5))) (tensor_field xs i 4)
       \<lparr>bb_x = tensor_field xs i 0, bb_y = tensor_field xs i 1, bb_w = tensor_field xs i 2, bb_h = tensor_field xs i 3\<rparr>"

text \<open>A slice of \<open>n\<close> pointers can be made when its bytes fit into the address space of the runtime.\<close>

definition slice_fits :: "int \<Rightarrow> bool" where
  "slice_fits n \<longleftrightarrow> 0 \<le> n \<and> n * 8 \<le> 2 ^ 48"

fun print_shape :: "int list \<Rightarrow> string" where
  "print_shape [] = []"
| "print_shape [n] = print_int n"
| "print_shape (n # ns) = print_int n @ '' '' @ print_shape ns"

definition bytes_items :: "triton_codec \<Rightarrow> triton_tensor \<Rightarrow> triton_item list option" where
  "bytes_items co t =
     (if tt_datatype t = ''BYTES'' then case tt_data t of [JString s] \<Rightarrow> tc_items co s | _ \<Rightarrow> None else None)"

definition to_detections :: "triton_codec \<Rightarrow> descriptor \<Rightarrow> string \<Rightarrow> string \<Rightarrow> triton_response \<Rightarrow> triton_error + frame_detection list" where
  "to_detections co frame model ver r =
     (case tr_outputs r of
        [] \<Rightarrow> Inl (TritonError ''triton: empty outputs'')
      | t # _ \<Rightarrow>
          (case bytes_items co t of
             Some its \<Rightarrow> Inr (map (\<lambda>it. detection_of frame model ver (ti_class it) (ti_score it) (ti_box it)) its)
           | None \<Rightarrow>
               if tt_datatype t = ''FP32'' \<and> length (tt_shape t) = 2 \<and> tt_shape t ! 1 = 6 then
                 let n = tt_shape t ! 0 in
                 if int (length (tt_data t)) \<noteq> i64 (n * 6) then Inl (TritonError ''triton: FP32 shape mismatch'')
                 else if \<not> slice_fits n then Inl SlicePanic
                 else Inr (map (tensor_row co frame model ver (tt_data t)) [0..n - 1])
               else Inl (TritonError (''triton: unrecognized output shape '' @ tt_datatype t @ ''/['' @ print_shape (tt_shape t) @ '']''))))"

subsection \<open>The client\<close>

record triton_stats =
  ts_cache_hit :: bool
  ts_attempts :: int
  ts_latency :: duration
  ts_batch :: int

record triton_client =
  tl_base :: string
  tl_model :: string
  tl_version :: string
  tl_options :: triton_options
  tl_closed :: bool
  tl_stats :: triton_stats

definition no_stats :: triton_stats where
  "no_stats = \<lparr>ts_cache_hit = False, ts_attempts = 0, ts_latency = 0, ts_batch = 0\<rparr>"

definition trim_slashes :: "string \<Rightarrow> string" where
  "trim_slashes s = rev (dropWhile (\<lambda>c. c = CHR ''/'') (rev s))"

definition new_triton :: "string \<Rightarrow> string \<Rightarrow> string \<Rightarrow> triton_options \<Rightarrow> triton_client" where
  "new_triton base model ver opt =
     \<lparr>tl_base = trim_slashes base, tl_model = model, tl_version = ver, tl_options = with_defaults opt, tl_closed = False, tl_stats = no_stats\<rparr>"

text \<open>What the HTTP client makes of a request: it cannot be built, it fails, or it is answered with a status and a body.\<close>

datatype triton_reply = Unbuildable string | Unreached bool string | Replied int string

text \<open>The surroundings of a call: replies, random choices, the time left before the deadline, the end of the context during a wait, and
the time since the start, all by the number of the attempt.\<close>

record triton_env =
  te_reply :: "int \<Rightarrow> triton_reply"
  te_pick :: "int \<Rightarrow> duration \<Rightarrow> duration"
  te_left :: "int \<Rightarrow> duration option"
  te_cancel :: "int \<Rightarrow> string option"
  te_since :: "int \<Rightarrow> duration"

record triton_trace =
  tx_requests :: int
  tx_waits :: "duration list"

definition triton_wait :: "triton_options \<Rightarrow> triton_env \<Rightarrow> int \<Rightarrow> duration" where
  "triton_wait opt te k = jitter (te_pick te k) (exponential_backoff (to_initial opt) (to_cap opt) (k - 1))"

text \<open>A reply other than 200: whether it can be tried again, and its error.\<close>

definition reply_failure :: "triton_reply \<Rightarrow> bool \<times> string" where
  "reply_failure x =
     (case x of
        Unbuildable e \<Rightarrow> (False, e)
      | Unreached t e \<Rightarrow> (retryable_net_err t e, ''triton: '' @ e)
      | Replied n b \<Rightarrow> (500 \<le> n \<and> n \<le> 599, ''triton: status '' @ print_int n @ '': '' @ trim_space b))"

definition ok_body :: "triton_reply \<Rightarrow> string option" where
  "ok_body x = (case x of Replied n b \<Rightarrow> if n = 200 then Some b else None | _ \<Rightarrow> None)"

definition request_sent :: "triton_reply \<Rightarrow> int" where
  "request_sent x = (case x of Unbuildable _ \<Rightarrow> 0 | _ \<Rightarrow> 1)"

text \<open>The loop yields the number of the last attempt, the response or an error, and what it did.\<close>

function triton_loop :: "triton_codec \<Rightarrow> triton_options \<Rightarrow> triton_env \<Rightarrow> int \<Rightarrow> triton_trace \<Rightarrow>
    int \<times> (triton_error + triton_response) \<times> triton_trace" where
  "triton_loop co opt te k tx =
     (let x = te_reply te k; again = fst (reply_failure x); e = snd (reply_failure x); w = triton_wait opt te k;
          tx1 = tx\<lparr>tx_requests := tx_requests tx + request_sent x\<rparr> in
      case ok_body x of
        Some b \<Rightarrow> (k, (case tc_response co b of Inl d \<Rightarrow> Inl (TritonError (''triton: decode: '' @ d)) | Inr r \<Rightarrow> Inr r), tx1)
      | None \<Rightarrow>
          if \<not> again \<or> to_retries opt < k then (k, Inl (TritonError e), tx1)
          else if (case te_left te k of None \<Rightarrow> False | Some left \<Rightarrow> left < w) then (k, Inl (TritonError e), tx1)
          else case te_cancel te k of
            Some c \<Rightarrow> (k, Inl (TritonError c), tx1)
          | None \<Rightarrow> triton_loop co opt te (k + 1) (tx1\<lparr>tx_waits := tx_waits tx1 @ [w]\<rparr>))"
  by pat_completeness auto
termination by (relation "measure (\<lambda>(co, opt, te, k, tx). nat (to_retries opt + 1 - k))") auto

declare triton_loop.simps [simp del]

definition infer_url :: "triton_client \<Rightarrow> string" where
  "infer_url c = tl_base c @ ''/v2/models/'' @ tl_model c @ ''/versions/'' @ tl_version c @ ''/infer''"

definition no_trace :: triton_trace where "no_trace = \<lparr>tx_requests = 0, tx_waits = []\<rparr>"

definition triton_detect :: "triton_codec \<Rightarrow> (string \<Rightarrow> string \<Rightarrow> triton_env) \<Rightarrow> descriptor \<Rightarrow> string \<Rightarrow> triton_client \<Rightarrow>
    (triton_error + frame_detection list) \<times> triton_trace \<times> triton_client" where
  "triton_detect co net frame payload c =
     (if tl_closed c then (Inl (TritonError ''triton: client closed''), no_trace, c)
      else let te = net (infer_url c) payload in
        case triton_loop co (tl_options c) te 1 no_trace of
          (k, Inl e, tx) \<Rightarrow> (Inl e, tx, c)
        | (k, Inr r, tx) \<Rightarrow>
            (to_detections co frame (tl_model c) (tl_version c) r, tx,
             c\<lparr>tl_stats := \<lparr>ts_cache_hit = cache_hit r, ts_attempts = k, ts_latency = te_since te k, ts_batch = 1\<rparr>\<rparr>))"

text \<open>\<open>drained\<close> is the error of the context when calls are still in flight at its end.\<close>

definition triton_close :: "string option \<Rightarrow> triton_client \<Rightarrow> string option \<times> triton_client" where
  "triton_close drained c = (if tl_closed c then (None, c) else (drained, c\<lparr>tl_closed := True\<rparr>))"

definition simple_get :: "(string \<Rightarrow> triton_reply) \<Rightarrow> string \<Rightarrow> triton_client \<Rightarrow> string option" where
  "simple_get net path c =
     (case net (tl_base c @ path) of
        Unbuildable e \<Rightarrow> Some e
      | Unreached t e \<Rightarrow> Some e
      | Replied n b \<Rightarrow> if n = 200 then None else Some (''triton: '' @ path @ '' returned '' @ print_int n))"

definition health_live :: "(string \<Rightarrow> triton_reply) \<Rightarrow> triton_client \<Rightarrow> string option" where
  "health_live net = simple_get net ''/v2/health/live''"

definition health_ready :: "(string \<Rightarrow> triton_reply) \<Rightarrow> triton_client \<Rightarrow> string option" where
  "health_ready net = simple_get net ''/v2/health/ready''"

definition model_ready :: "(string \<Rightarrow> triton_reply) \<Rightarrow> triton_client \<Rightarrow> string option" where
  "model_ready net c = simple_get net (''/v2/models/'' @ tl_model c @ ''/versions/'' @ tl_version c @ ''/ready'') c"

definition repository_action :: "(string \<Rightarrow> triton_reply) \<Rightarrow> string \<Rightarrow> string \<Rightarrow> triton_client \<Rightarrow> string option" where
  "repository_action net name action c =
     (case net (tl_base c @ ''/v2/repository/models/'' @ name @ ''/'' @ action) of
        Unbuildable e \<Rightarrow> Some e
      | Unreached t e \<Rightarrow> Some (''triton: '' @ action @ '' '' @ name @ '': '' @ e)
      | Replied n b \<Rightarrow> if n = 200 then None
          else Some (''triton: '' @ action @ '' '' @ name @ '' status '' @ print_int n @ '': '' @ trim_space b))"

definition load_model :: "(string \<Rightarrow> triton_reply) \<Rightarrow> string \<Rightarrow> triton_client \<Rightarrow> string option" where
  "load_model net name = repository_action net name ''load''"

definition unload_model :: "(string \<Rightarrow> triton_reply) \<Rightarrow> string \<Rightarrow> triton_client \<Rightarrow> string option" where
  "unload_model net name = repository_action net name ''unload''"

subsection \<open>The service\<close>

record infer_service =
  iv_base :: string
  iv_timeout_seconds :: int
  iv_max_retries :: int
  iv_bus :: bool
  iv_known :: "string list"

record infer_request =
  ir_tenant :: string
  ir_model :: string
  ir_version :: string
  ir_stream :: string
  ir_pipeline :: string
  ir_seq :: int
  ir_urn :: string
  ir_capture :: time
  ir_payload :: string
  ir_frame :: descriptor

record completed_event =
  ce_tenant :: string
  ce_model :: string
  ce_version :: string
  ce_stream :: string
  ce_pipeline :: string
  ce_seq :: int
  ce_detections :: int
  ce_latency_ms :: int
  ce_cache_hit :: bool
  ce_at :: string

record baseline_event =
  be_tenant :: string
  be_stream :: string
  be_urn :: string
  be_model :: string
  be_predicted :: string
  be_confidence :: fl
  be_latency_ms :: int

text \<open>The network, two readings of the clock, the printed time of the event, and the encoders.\<close>

record infer_env =
  ie_codec :: triton_codec
  ie_net :: "string \<Rightarrow> string \<Rightarrow> triton_env"
  ie_start :: time
  ie_end :: time
  ie_at :: string
  ie_completed :: "completed_event \<Rightarrow> string"
  ie_baseline :: "baseline_event \<Rightarrow> string"
  ie_arrives :: "string \<Rightarrow> bool"

definition validate_infer :: "infer_request \<Rightarrow> string option" where
  "validate_infer rq = (if ir_model rq = [] \<or> ir_version rq = [] then Some ''model and version required'' else None)"

definition service_options :: "infer_service \<Rightarrow> triton_options" where
  "service_options s =
     no_options\<lparr>to_timeout := (if 0 < iv_timeout_seconds s then i64 (iv_timeout_seconds s * second) else 0),
       to_retries := (if 0 < iv_max_retries s then iv_max_retries s else 0)\<rparr>"

definition know_model :: "string \<Rightarrow> string \<Rightarrow> infer_service \<Rightarrow> infer_service" where
  "know_model model ver s = s\<lparr>iv_known := List.insert (model @ ''@'' @ ver) (iv_known s)\<rparr>"

definition router_synthetic :: "string \<Rightarrow> string \<Rightarrow> descriptor \<Rightarrow> frame_detection list" where
  "router_synthetic model ver frame =
     [detection_of frame model ver ''person'' (fl_round f32 (9 / 10))
        \<lparr>bb_x = Fin (1 / 2), bb_y = Fin (1 / 2), bb_w = fl_round f32 (1 / 10), bb_h = fl_round f32 (1 / 10)\<rparr>]"

definition completed_of :: "infer_env \<Rightarrow> infer_request \<Rightarrow> frame_detection list \<Rightarrow> bool \<Rightarrow> completed_event" where
  "completed_of ie rq dets hit =
     \<lparr>ce_tenant = ir_tenant rq, ce_model = ir_model rq, ce_version = ir_version rq, ce_stream = ir_stream rq, ce_pipeline = ir_pipeline rq,
      ce_seq = ir_seq rq, ce_detections = int (length dets), ce_latency_ms = go_quot (time_sub (ie_end ie) (ie_start ie)) millisecond,
      ce_cache_hit = hit, ce_at = ie_at ie\<rparr>"

definition baseline_of :: "infer_env \<Rightarrow> infer_request \<Rightarrow> frame_detection list \<Rightarrow> baseline_event" where
  "baseline_of ie rq dets =
     \<lparr>be_tenant = ir_tenant rq, be_stream = ir_stream rq, be_urn = ir_urn rq, be_model = ir_model rq,
      be_predicted = (case dets of [] \<Rightarrow> [] | d # _ \<Rightarrow> dt_class d), be_confidence = (case dets of [] \<Rightarrow> Fin 0 | d # _ \<Rightarrow> dt_score d),
      be_latency_ms = go_quot (time_sub (ie_end ie) (ie_start ie)) millisecond\<rparr>"

text \<open>
  The encoder refuses a confidence that is not a number; the error is dropped and the data is empty. A publish may fail, for which \<open>ie_arrives\<close> tells by its
  subject; the error is dropped, so the result is the messages that got on the bus.
\<close>

definition emit_inference :: "infer_env \<Rightarrow> infer_request \<Rightarrow> frame_detection list \<Rightarrow> bool \<Rightarrow> infer_service \<Rightarrow> bus_message list" where
  "emit_inference ie rq dets hit s =
     (if \<not> iv_bus s then []
      else let be = baseline_of ie rq dets in
        filter (\<lambda>m. ie_arrives ie (bm_subject m))
        [\<lparr>bm_subject = ''inference.completed.v1'', bm_data = ie_completed ie (completed_of ie rq dets hit),
          bm_headers = [(''tenant_id'', ir_tenant rq), (''model_id'', ir_model rq)]\<rparr>,
         \<lparr>bm_subject = ''inference.baseline.v1'', bm_data = (if is_number (be_confidence be) then ie_baseline ie be else []),
          bm_headers = [(''tenant_id'', ir_tenant rq), (''stream_id'', ir_stream rq)]\<rparr>])"

text \<open>A client is made for every call; it is neither kept nor closed.\<close>

definition call_detector :: "infer_env \<Rightarrow> infer_request \<Rightarrow> infer_service \<Rightarrow> (triton_error + frame_detection list) \<times> bool" where
  "call_detector ie rq s =
     (if iv_base s = [] then (Inr (router_synthetic (ir_model rq) (ir_version rq) (ir_frame rq)), False)
      else case triton_detect (ie_codec ie) (ie_net ie) (ir_frame rq) (ir_payload rq)
          (new_triton (iv_base s) (ir_model rq) (ir_version rq) (service_options s)) of
        (r, tx, c) \<Rightarrow> (r, ts_cache_hit (tl_stats c)))"

definition infer :: "infer_env \<Rightarrow> infer_request \<Rightarrow> infer_service \<Rightarrow> (triton_error + frame_detection list) \<times> bus_message list \<times> infer_service" where
  "infer ie rq s =
     (case validate_infer rq of
        Some e \<Rightarrow> (Inl (TritonError e), [], s)
      | None \<Rightarrow>
          let s1 = know_model (ir_model rq) (ir_version rq) s in
          case call_detector ie rq s1 of
            (Inl e, hit) \<Rightarrow> (Inl e, [], s1)
          | (Inr dets, hit) \<Rightarrow> (Inr dets, emit_inference ie rq dets hit s1, s1))"

definition warmup :: "string \<Rightarrow> string \<Rightarrow> infer_service \<Rightarrow> string option \<times> infer_service" where
  "warmup model ver s =
     (if model = [] \<or> ver = [] then (Some ''model and version required'', s) else (None, know_model model ver s))"

subsection \<open>Routes\<close>

definition frame_of_request :: "infer_request \<Rightarrow> descriptor" where
  "frame_of_request rq =
     \<lparr>fd_stream = ir_stream rq, fd_pipeline = ir_pipeline rq, fd_seq = ir_seq rq, fd_capture = Some (ir_capture rq), fd_width = 0, fd_height = 0,
      fd_pixel_format = [], fd_color_space = [], fd_payload = None, fd_attestations = [], fd_traceparent = []\<rparr>"

text \<open>The tenant comes from the header, whatever the body says. A panic is answered by the recovery middleware.\<close>

definition post_infer :: "infer_env \<Rightarrow> headers \<Rightarrow> infer_request option \<Rightarrow> infer_service \<Rightarrow>
    (problem + frame_detection list \<times> bus_message list) \<times> infer_service" where
  "post_infer ie h body =
     with_tenant h (\<lambda>tenant s.
       case body of
         None \<Rightarrow> (Inl (bad_request ''invalid JSON body''), s)
       | Some rq0 \<Rightarrow>
           (let rq1 = rq0\<lparr>ir_tenant := tenant\<rparr>; rq = rq1\<lparr>ir_frame := frame_of_request rq1\<rparr> in
            case infer ie rq s of
              (Inl (TritonError e), ms, s1) \<Rightarrow> (Inl (service_unavailable (''inference failed: '' @ e)), s1)
            | (Inl SlicePanic, ms, s1) \<Rightarrow> (Inl (internal ''internal server error''), s1)
            | (Inr dets, ms, s1) \<Rightarrow> (Inr (dets, ms), s1)))"

definition post_warmup :: "headers \<Rightarrow> (string \<times> string) option \<Rightarrow> infer_service \<Rightarrow> (problem + unit) \<times> infer_service" where
  "post_warmup h body =
     with_tenant h (\<lambda>tenant s.
       case body of
         None \<Rightarrow> (Inl (bad_request ''invalid JSON''), s)
       | Some (model, ver) \<Rightarrow> (case warmup model ver s of (Some e, s1) \<Rightarrow> (Inl (bad_request e), s1) | (None, s1) \<Rightarrow> (Inr (), s1)))"

definition get_models :: "headers \<Rightarrow> (string list \<Rightarrow> string list) \<Rightarrow> infer_service \<Rightarrow> (problem + string list) \<times> infer_service" where
  "get_models h rng = with_tenant h (\<lambda>tenant s. (Inr (rng (iv_known s)), s))"

subsection \<open>Retries\<close>

definition retried :: "triton_env \<Rightarrow> int \<Rightarrow> bool" where
  "retried te k \<longleftrightarrow> ok_body (te_reply te k) = None \<and> fst (reply_failure (te_reply te k))"

definition attempt_result :: "triton_codec \<Rightarrow> triton_reply \<Rightarrow> triton_error + triton_response" where
  "attempt_result co x =
     (case ok_body x of
        Some b \<Rightarrow> (case tc_response co b of Inl d \<Rightarrow> Inl (TritonError (''triton: decode: '' @ d)) | Inr r \<Rightarrow> Inr r)
      | None \<Rightarrow> Inl (TritonError (snd (reply_failure x))))"

text \<open>An attempt that is not tried again, or is the last one, ends the loop with its own result.\<close>

lemma triton_loop_ends:
  "\<not> retried te k \<or> to_retries opt < k \<Longrightarrow>
   triton_loop co opt te k tx = (k, attempt_result co (te_reply te k), tx\<lparr>tx_requests := tx_requests tx + request_sent (te_reply te k)\<rparr>)"
  by (subst triton_loop.simps) (auto simp: retried_def attempt_result_def Let_def split: option.splits)

lemma triton_loop_again:
  "retried te k \<Longrightarrow> k \<le> to_retries opt \<Longrightarrow> te_left te k = None \<Longrightarrow> te_cancel te k = None \<Longrightarrow>
   triton_loop co opt te k tx = triton_loop co opt te (k + 1)
     (tx\<lparr>tx_requests := tx_requests tx + request_sent (te_reply te k), tx_waits := tx_waits tx @ [triton_wait opt te k]\<rparr>)"
  by (subst triton_loop.simps) (simp add: retried_def Let_def)

text \<open>Whatever the deadline does, the loop is bounded, and every attempt but the last failed in a way that may pass.\<close>

lemma triton_loop_bounded:
  "triton_loop co opt te k tx = (n, r, tx') \<Longrightarrow>
   k \<le> n \<and> n \<le> max k (to_retries opt + 1) \<and> (\<forall>j \<in> {k..<n}. retried te j) \<and>
   tx_waits tx' = tx_waits tx @ map (triton_wait opt te) [k..n - 1] \<and> tx_requests tx' \<le> tx_requests tx + (n - k + 1)"
proof (induction co opt te k tx rule: triton_loop.induct)
  case (1 co opt te k tx)
  let ?tx = "tx\<lparr>tx_requests := tx_requests tx + request_sent (te_reply te k)\<rparr>"
  have s: "request_sent (te_reply te k) \<le> 1" by (simp add: request_sent_def split: triton_reply.split)
  show ?case
  proof (cases "(\<not> retried te k \<or> to_retries opt < k) \<or> (case te_left te k of None \<Rightarrow> False | Some left \<Rightarrow> left < triton_wait opt te k) \<or> te_cancel te k \<noteq> None")
    case True
    then have "n = k \<and> tx' = ?tx"
      using "1.prems" by (subst (asm) triton_loop.simps) (auto simp: retried_def Let_def split: option.splits if_splits)
    then show ?thesis using s by simp
  next
    case False
    then have r: "ok_body (te_reply te k) = None" "fst (reply_failure (te_reply te k))" "k \<le> to_retries opt" "te_cancel te k = None"
      "\<not> (case te_left te k of None \<Rightarrow> False | Some left \<Rightarrow> left < triton_wait opt te k)" by (auto simp: retried_def)
    then have e: "triton_loop co opt te (k + 1) (?tx\<lparr>tx_waits := tx_waits ?tx @ [triton_wait opt te k]\<rparr>) = (n, r, tx')"
      using "1.prems" by (subst (asm) triton_loop.simps) (simp add: Let_def)
    have ih: "k + 1 \<le> n \<and> n \<le> max (k + 1) (to_retries opt + 1) \<and> (\<forall>j \<in> {k + 1..<n}. retried te j) \<and>
        tx_waits tx' = (tx_waits tx @ [triton_wait opt te k]) @ map (triton_wait opt te) [k + 1..n - 1] \<and>
        tx_requests tx' \<le> tx_requests tx + request_sent (te_reply te k) + (n - (k + 1) + 1)"
      using "1.IH" [OF refl refl refl refl refl r(1) _ r(5) r(4) e] r(2,3) by simp
    have "[k..n - 1] = k # [k + 1..n - 1]" using ih by (intro upto_rec1) linarith
    moreover have "\<forall>j \<in> {k..<n}. retried te j"
    proof
      fix j assume "j \<in> {k..<n}"
      then show "retried te j" using ih r(1,2) by (cases "j = k") (auto simp: retried_def)
    qed
    ultimately show ?thesis using ih s r(3) by simp
  qed
qed

lemma triton_loop_last:
  assumes "\<And>j. te_left te j = None" "\<And>j. te_cancel te j = None"
  shows "triton_loop co opt te k tx = (n, r, tx') \<Longrightarrow> (\<not> retried te n \<or> to_retries opt < n) \<and> r = attempt_result co (te_reply te n)"
proof (induction "nat (to_retries opt + 1 - k)" arbitrary: k tx rule: less_induct)
  case less
  show ?case
  proof (cases "\<not> retried te k \<or> to_retries opt < k")
    case True
    then have "n = k \<and> r = attempt_result co (te_reply te k)" using less.prems triton_loop_ends [OF True, of co tx] by auto
    then show ?thesis using True by auto
  next
    case False
    then have r: "retried te k" "k \<le> to_retries opt" by simp_all
    have "nat (to_retries opt + 1 - (k + 1)) < nat (to_retries opt + 1 - k)" using r(2) by linarith
    from less.hyps [OF this] less.prems triton_loop_again [OF r assms, of co tx] show ?thesis by simp
  qed
qed

text \<open>The waits: none is longer than the ceiling, unless the shift has wrapped, and then there is no wait at all.\<close>

lemma backoff_capped:
  "exponential_backoff initial cap a \<le> cap"
  by (simp add: exponential_backoff_def Let_def)

lemma wait_bounds:
  assumes "0 \<le> to_cap opt" "\<And>d. 0 \<le> d \<Longrightarrow> 0 \<le> te_pick te k d \<and> te_pick te k d \<le> d"
  shows "0 \<le> triton_wait opt te k \<and> triton_wait opt te k \<le> to_cap opt"
  using backoff_capped [of "to_initial opt" "to_cap opt" "k - 1"] assms(1)
    assms(2) [of "exponential_backoff (to_initial opt) (to_cap opt) (k - 1)"]
  by (fastforce simp: triton_wait_def jitter_def)

lemma backoff_exact:
  assumes "0 \<le> initial" "initial * 2 ^ nat a < 2 ^ 63"
  shows "exponential_backoff initial cap a = min (initial * 2 ^ nat a) cap"
proof -
  have "0 \<le> initial * 2 ^ nat a" using assms(1) by simp
  then have "in_i64 (initial * 2 ^ nat a)" using assms(2) by (simp add: in_i64_def)
  then show ?thesis by (simp add: exponential_backoff_def Let_def min_def)
qed

lemma fortieth_wait_is_none:
  "triton_wait (with_defaults no_options) te 40 = 0"
  by (simp add: triton_wait_def jitter_def exponential_backoff_def with_defaults_def no_options_def i64_def Let_def)

text \<open>C29: A call to the model server makes at most one attempt more than the configured retries; every attempt before the last failed
with a server error or a network error that may pass; no wait is longer than the ceiling; and when neither the deadline nor the
context cuts it short, it ends at the first attempt that is not of that kind and has that attempt's result.\<close>

theorem model_server_calls_are_bounded:
  assumes "triton_loop co opt te 1 no_trace = (n, r, tx)" "0 \<le> to_retries opt" "0 \<le> to_cap opt"
    and "\<And>j d. 0 \<le> d \<Longrightarrow> 0 \<le> te_pick te j d \<and> te_pick te j d \<le> d"
  shows "1 \<le> n \<and> n \<le> to_retries opt + 1 \<and> tx_requests tx \<le> n \<and> (\<forall>j \<in> {1..<n}. retried te j) \<and>
    int (length (tx_waits tx)) = n - 1 \<and> (\<forall>w \<in> set (tx_waits tx). 0 \<le> w \<and> w \<le> to_cap opt) \<and>
    ((\<forall>j. te_left te j = None \<and> te_cancel te j = None) \<longrightarrow>
       (\<not> retried te n \<or> n = to_retries opt + 1) \<and> r = attempt_result co (te_reply te n))"
proof -
  note b = triton_loop_bounded [OF assms(1)]
  have n: "1 \<le> n" "n \<le> to_retries opt + 1" using b assms(2) by auto
  have w: "tx_waits tx = map (triton_wait opt te) [1..n - 1]" using b by (simp add: no_trace_def)
  have "(\<not> retried te n \<or> n = to_retries opt + 1) \<and> r = attempt_result co (te_reply te n)"
    if "\<forall>j. te_left te j = None \<and> te_cancel te j = None"
    using triton_loop_last [OF _ _ assms(1)] that n by force
  moreover have "\<forall>w \<in> set (tx_waits tx). 0 \<le> w \<and> w \<le> to_cap opt" unfolding w using wait_bounds [OF assms(3,4)] by auto
  moreover have "int (length (tx_waits tx)) = n - 1" unfolding w using n by simp
  ultimately show ?thesis using b n by (simp add: no_trace_def)
qed

definition flaky_server :: triton_env where
  "flaky_server = \<lparr>te_reply = (\<lambda>k. if k < 3 then Unreached True ''slow'' else Replied 200 []), te_pick = (\<lambda>k d. d), te_left = (\<lambda>k. None),
     te_cancel = (\<lambda>k. None), te_since = (\<lambda>k. 0)\<rparr>"

definition empty_codec :: triton_codec where
  "empty_codec = \<lparr>tc_response = (\<lambda>b. Inr \<lparr>tr_outputs = [], tr_parameters = []\<rparr>), tc_items = (\<lambda>s. None), tc_huge = (\<lambda>x. 0)\<rparr>"

lemma flaky_retries: "retried flaky_server k \<longleftrightarrow> k < 3"
  by (simp add: retried_def flaky_server_def ok_body_def reply_failure_def retryable_net_err_def)

lemma flaky_run: "\<exists>r tx. triton_loop empty_codec (with_defaults no_options) flaky_server 1 no_trace = (3, r, tx)"
proof -
  have f: "te_left flaky_server k = None" "te_cancel flaky_server k = None" for k by (simp_all add: flaky_server_def)
  show ?thesis
    by (simp add: triton_loop_again flaky_retries f with_defaults_def no_options_def triton_loop_ends)
qed

lemma model_server_calls_are_bounded_witness:
  "\<exists>r tx. triton_loop empty_codec (with_defaults no_options) flaky_server 1 no_trace = (3, r, tx) \<and>
     tx_requests tx \<le> 3 \<and> length (tx_waits tx) = 2 \<and> r = attempt_result empty_codec (Replied 200 [])"
proof -
  obtain r tx where run: "triton_loop empty_codec (with_defaults no_options) flaky_server 1 no_trace = (3, r, tx)" using flaky_run by blast
  have "0 \<le> to_retries (with_defaults no_options)" "0 \<le> to_cap (with_defaults no_options)" by (simp_all add: with_defaults_def no_options_def)
  from model_server_calls_are_bounded [OF run this] show ?thesis
    using run by (intro exI [of _ r] exI [of _ tx]) (simp add: flaky_server_def)
qed

subsection \<open>Tensors\<close>

lemma tensor_detections:
  assumes "tr_outputs r = t # ts" "tt_datatype t = ''FP32''" "tt_shape t = [n, 6]" "int (length (tt_data t)) = n * 6" "n * 8 \<le> 2 ^ 48"
  shows "to_detections co frame model ver r = Inr (map (tensor_row co frame model ver (tt_data t)) [0..n - 1])"
proof -
  have n: "0 \<le> n" using assms(4) by simp
  then have "in_i64 (n * 6)" using assms(5) by (simp add: in_i64_def)
  then show ?thesis using n assms by (simp add: to_detections_def bytes_items_def slice_fits_def)
qed

text \<open>The check of the length wraps around as well: no entry and a huge negative number of rows agree, and the slice cannot be made.\<close>

lemma negative_rows_panic:
  "to_detections co frame model ver \<lparr>tr_outputs = [\<lparr>tt_datatype = ''FP32'', tt_shape = [- (2 ^ 63), 6], tt_data = []\<rparr>], tr_parameters = ps\<rparr> =
     Inl SlicePanic"
  by (simp add: to_detections_def bytes_items_def slice_fits_def i64_def)

subsection \<open>What an inference is billed\<close>

text \<open>The entries that the metering subscriptions make of messages on their subjects.\<close>

definition metered :: "decoding \<Rightarrow> bus_message list \<Rightarrow> (meter_key \<times> int) list" where
  "metered de ms =
     concat (map (\<lambda>sub. List.map_filter (billable de sub) (filter (\<lambda>m. subject_match (ms_subject sub) (bm_subject m)) ms)) meter_subscriptions)"

lemma inference_subjects:
  "map (\<lambda>sub. subject_match (ms_subject sub) ''inference.completed.v1'') meter_subscriptions = [False, False, True, False, False]"
  "map (\<lambda>sub. subject_match (ms_subject sub) ''inference.baseline.v1'') meter_subscriptions = [False, False, False, False, False]"
  by code_simp+

lemma emitted_is_metered:
  assumes "iv_bus s" "ir_tenant rq \<noteq> []"
  shows "metered de (emit_inference ie rq dets hit s) =
    (if ie_arrives ie ''inference.completed.v1'' then [((ir_tenant rq, ''inferences''), 1)] else [])"
  using assms inference_subjects
  by (simp add: metered_def meter_subscriptions_def emit_inference_def Let_def List.map_filter_def billable_def message_count_def header_get_def)

lemma infer_emits:
  "infer ie rq s = (Inr dets, ms, s') \<Longrightarrow> \<exists>hit. ms = emit_inference ie rq dets hit s'"
  by (auto simp: infer_def Let_def split: option.splits prod.splits sum.splits)

lemma infer_keeps_bus: "iv_bus (snd (snd (infer ie rq s))) = iv_bus s"
  by (auto simp: infer_def know_model_def Let_def split: option.splits prod.splits sum.splits)

text \<open>C18: An inference that is answered is billed once, to the tenant of the request's header, whatever tenant its body names and
whether or not the model server had the answer in its cache, unless the publish of the completed event failed, whose error the
service drops: then it is not billed at all.\<close>

theorem answered_inference_is_billed_once:
  assumes "post_infer ie h body s = (Inr (dets, ms), s')" "iv_bus s"
  shows "metered de ms = (if ie_arrives ie ''inference.completed.v1'' then [((tenant_header h, ''inferences''), 1)] else []) \<and>
    map bm_subject ms = filter (ie_arrives ie) [''inference.completed.v1'', ''inference.baseline.v1'']"
proof -
  obtain rq0 where body: "body = Some rq0" and t: "tenant_header h \<noteq> []"
    using assms(1) by (auto simp: post_infer_def with_tenant_def split: if_splits option.splits)
  define rq1 where "rq1 = rq0\<lparr>ir_tenant := tenant_header h\<rparr>"
  define rq where "rq = rq1\<lparr>ir_frame := frame_of_request rq1\<rparr>"
  have "infer ie rq s = (Inr dets, ms, s')"
    using assms(1) body t unfolding post_infer_def with_tenant_def
    by (auto simp: rq_def rq1_def Let_def split: prod.splits sum.splits triton_error.splits)
  moreover from this have "iv_bus s'" using infer_keeps_bus [of ie rq s] assms(2) by simp
  moreover have "ir_tenant rq = tenant_header h" by (simp add: rq_def rq1_def)
  ultimately obtain hit where "ms = emit_inference ie rq dets hit s'" "iv_bus s'" "ir_tenant rq = tenant_header h" using infer_emits by blast
  then show ?thesis using emitted_is_metered [of s' rq] t by (simp add: emit_inference_def Let_def)
qed

definition router_request :: infer_request where
  "router_request = \<lparr>ir_tenant = ''other'', ir_model = ''yolo'', ir_version = ''1'', ir_stream = ''s'', ir_pipeline = ''p'', ir_seq = 1, ir_urn = ''u'',
     ir_capture = 0, ir_payload = [], ir_frame = \<lparr>fd_stream = [], fd_pipeline = [], fd_seq = 0, fd_capture = None, fd_width = 0, fd_height = 0,
       fd_pixel_format = [], fd_color_space = [], fd_payload = None, fd_attestations = [], fd_traceparent = []\<rparr>\<rparr>"

definition router_env :: infer_env where
  "router_env = \<lparr>ie_codec = empty_codec, ie_net = (\<lambda>u p. flaky_server), ie_start = 0, ie_end = 0, ie_at = [], ie_completed = (\<lambda>e. ''c''),
     ie_baseline = (\<lambda>e. ''b''), ie_arrives = (\<lambda>t. True)\<rparr>"

definition router_service :: infer_service where
  "router_service = \<lparr>iv_base = [], iv_timeout_seconds = 0, iv_max_retries = 0, iv_bus = True, iv_known = []\<rparr>"

lemma router_tenant: "tenant_header [(''X-Tenant-Id'', ''acme'')] = ''acme''"
  by code_simp

lemma answered_inference_is_billed_once_witness:
  "\<exists>dets ms s'. post_infer router_env [(''X-Tenant-Id'', ''acme'')] (Some router_request) router_service = (Inr (dets, ms), s') \<and>
     metered \<lparr>de_json = \<lambda>s. None, de_huge = \<lambda>x. 0\<rparr> ms = [((''acme'', ''inferences''), 1)]"
proof -
  obtain dets ms s' where run: "post_infer router_env [(''X-Tenant-Id'', ''acme'')] (Some router_request) router_service = (Inr (dets, ms), s')"
    by (simp add: post_infer_def with_tenant_def router_tenant infer_def validate_infer_def router_request_def call_detector_def know_model_def
        router_service_def Let_def)
  have "iv_bus router_service" by (simp add: router_service_def)
  from answered_inference_is_billed_once [OF run this] have "metered \<lparr>de_json = \<lambda>s. None, de_huge = \<lambda>x. 0\<rparr> ms = [((''acme'', ''inferences''), 1)]"
    unfolding router_tenant by (simp add: router_env_def)
  with run show ?thesis by blast
qed

text \<open>A request without a model is answered as if the model server were away.\<close>

lemma missing_model_is_unavailable:
  "tenant_header h \<noteq> [] \<Longrightarrow> ir_model rq = [] \<Longrightarrow>
   post_infer ie h (Some rq) s = (Inl (service_unavailable ''inference failed: model and version required''), s)"
  by (simp add: post_infer_def with_tenant_def infer_def validate_infer_def Let_def)

text \<open>Two models can share their entry of the list.\<close>

lemma known_names_collide:
  "iv_known (know_model ''a'' ''b@c'' s) = iv_known (know_model ''a@b'' ''c'' s)"
  by (simp add: know_model_def)

lemma known_models_grow:
  "set (iv_known s) \<subseteq> set (iv_known (snd (snd (infer ie rq s))))" "distinct (iv_known s) \<Longrightarrow> distinct (iv_known (snd (snd (infer ie rq s))))"
  by (auto simp: infer_def know_model_def Let_def split: option.splits prod.splits sum.splits)

end
