(* ===== verification/Spec2Isabelle.thy ===== *)
theory Spec2Isabelle
  imports GpuLedger EdgeQueue CanaryController EventRing Agent Middleware AgentService RuleEngine Orchestrator DagCompiler Authn Metering Gateway Runner ModelRegistry Hub Notify Watchdog Shadow AuditLog Training Tenants InferenceRouter
begin

section \<open>AegisVision: the control plane and its edges\<close>

text \<open>
  AegisVision runs computer-vision pipelines: cameras feed a data plane of operators, events flow over a message bus,
  and a control plane of small Go services keeps pipelines, rules, models and budgets, and lets an agent act within
  bounds. The library models the parts of the Go code under \<open>src/pkg\<close> and \<open>src/services\<close> that decide something:
  what an agent may do, which GPU a session gets, when a canary is promoted or rolled back, which events a rule raises,
  what a queue keeps, which subscriber and which webhook hears of an event, who is let in.

  \<^bold>\<open>How the parts interact.\<close> A signal or a schedule reaches \<open>autonomy-orchestrator\<close>, which starts a session in
  \<open>agent-service\<close>. The session runs the loop of \<open>pkg/agent\<close>: the model proposes tool calls, those within the autonomy
  ceiling are executed, the others open a gate in \<open>policy-gate-service\<close> and suspend the session. A decision is announced
  on the bus and resumes it. Requests enter through the middleware of \<open>pkg/platform\<close>, which authenticates them,
  limits their rate and makes retries idempotent. Detections become events in \<open>rule-engine\<close>; \<open>event-service\<close> keeps the
  latest ones and serves searches and subscribers; \<open>edge-gateway\<close> stores what it cannot forward. \<open>canary-controller\<close>
  moves traffic between two models by the evidence it ingests, which \<open>shadow-inference-service\<close> is meant to supply by running
  a candidate beside the stable model; \<open>model-registry\<close> decides by its gates which version may become stable, with the
  runs of \<open>training-orchestrator\<close> as a source of candidates, and \<open>gpu-scheduler\<close> places model instances on devices.
  Events go out to browsers through \<open>realtime-hub\<close> and to webhooks through \<open>notification-service\<close>; \<open>slo-watchdog\<close> turns
  burning error budgets into signals for the agents; \<open>audit-service\<close> keeps the records and \<open>tenant-service\<close> the
  organisations, projects and sites the others refer to.
  Pipelines are compiled into stages by \<open>pkg/dataplane/dag\<close>. A stream that is created through \<open>api-gateway\<close> and
  \<open>stream-manager\<close> is announced on the bus of \<open>pkg/bus\<close> and started by a \<open>dataplane-runner\<close>, whose chain of operators
  writes payloads behind locators, detects, tracks, applies a dwell rule and publishes events; \<open>metering-service\<close>
  counts what the bus carries.

  \<^bold>\<open>Theories and code.\<close> Every definition keeps the name of the function it translates where Isabelle allows it.

  \<^item> \<^verbatim>\<open>Prelude\<close>: Go's \<open>int\<close> and \<open>int64\<close> (\<open>i64\<close> wraps), durations and times, maps as association lists, package
    \<open>strings\<close>, sorting. \<^verbatim>\<open>GoFloat\<close>: IEEE 754 arithmetic on rationals with rounding to nearest even. \<^verbatim>\<open>GoUtf8\<close>: runes of
    a byte string. \<^verbatim>\<open>Http\<close>: requests, responses and \<open>pkg/platform/problem\<close>.
  \<^item> \<^verbatim>\<open>Agent\<close>: \<open>pkg/agent/agent.go\<close>, the loop, with the in-memory session sink and gateway of the package. The locales
    \<open>session_sink\<close> and \<open>gateway\<close> are the interfaces \<open>SessionSink\<close> and \<open>Gateway\<close>; the memory implementations are
    their first interpretations.
  \<^item> \<^verbatim>\<open>PolicyGate\<close>: \<open>services/policy-gate-service\<close>, its table, handlers and announcements.
  \<^item> \<^verbatim>\<open>AgentService\<close>: \<open>services/agent-service\<close>: the session tables as an implementation of the sink, the HTTP client of the
    gate service as an implementation of the gateway (second interpretations of the two locales), handlers and
    the resumption by bus messages.
  \<^item> \<^verbatim>\<open>Autonomy\<close>, \<^verbatim>\<open>Orchestrator\<close>: \<open>pkg/autonomy\<close> (cron expressions, scheduler, signal router) and
    \<open>services/autonomy-orchestrator\<close>.
  \<^item> \<^verbatim>\<open>GpuLedger\<close>: \<open>services/gpu-scheduler/internal\<close>; the locale \<open>placement_backend\<close> is what the service asks of a ledger. Its
    properties range over any sequence of calls.
  \<^item> \<^verbatim>\<open>BoundedLog\<close>: the locale \<open>bounded_log\<close>, the contract that \<^verbatim>\<open>EdgeQueue\<close> (\<open>services/edge-gateway/internal/queue\<close>) and
    \<^verbatim>\<open>EventRing\<close> (\<open>services/event-service\<close>: ring, search and subscriptions) share.
  \<^item> \<^verbatim>\<open>Canary\<close>, \<^verbatim>\<open>CanaryController\<close>: \<open>pkg/canary\<close> (split, regression test, state machine) and \<open>services/canary-controller\<close>,
    whose ticks alternate with whatever requests are served between them.
  \<^item> \<^verbatim>\<open>RuleEngine\<close>: \<open>services/rule-engine\<close>: evaluation, timers, loader and bus handler.
  \<^item> \<^verbatim>\<open>Middleware\<close>: \<open>pkg/platform/middleware\<close> and \<open>pkg/platform/idempotency\<close>; the locale \<open>idem_store\<close> is the store the
    idempotency middleware relies on; its requests are interleaved at their lookup, handler and insertion. \<^verbatim>\<open>Authn\<close>: bearer tokens and the JWKS cache (\<open>jwt.go\<close>).
  \<^item> \<^verbatim>\<open>DagCompiler\<close>: \<open>pkg/dataplane/dag/compiler.go\<close>.
  \<^item> \<^verbatim>\<open>Bus\<close>: \<open>pkg/bus\<close>, the in-process bus and the routing of \<open>DualBus\<close>. \<^verbatim>\<open>GoJson\<close>: JSON values as Go decodes them.
    \<^verbatim>\<open>Metering\<close>: \<open>services/metering-service\<close>; the locale \<open>incrementer\<close> is what the consumer asks of a store.
  \<^item> \<^verbatim>\<open>Paging\<close>: keyset pages; the locale \<open>paged_listing\<close> is the contract of a listing, interpreted five times, for the memory
    and SQL stores of \<^verbatim>\<open>PipelineService\<close> (\<open>services/pipeline-service\<close>) and \<^verbatim>\<open>StreamService\<close> (\<open>services/stream-manager\<close>)
    and for the models of \<^verbatim>\<open>ModelRegistry\<close> (\<open>services/model-registry\<close>: models, versions, evaluations, gates, promotion).
    \<^verbatim>\<open>GoBase64\<close> and \<^verbatim>\<open>Gateway\<close>: \<open>pkg/platform/pagination\<close> and the pipelines and streams of \<open>services/api-gateway\<close>.
  \<^item> \<^verbatim>\<open>ClaimCheck\<close>, \<^verbatim>\<open>Operators\<close>, \<^verbatim>\<open>Tracking\<close>: \<open>pkg/dataplane/claimcheck\<close> and \<open>pkg/dataplane/operators\<close>; an operator is a function
    on streams of envelopes. \<^verbatim>\<open>Runner\<close>: \<open>services/dataplane-runner\<close>, which composes them.
  \<^item> \<^verbatim>\<open>Hub\<close>: \<open>services/realtime-hub\<close>, with the steps of subscribers and publishers interleaved as the locks allow.
    \<^verbatim>\<open>Notify\<close>: \<open>services/notification-service\<close>: routes, webhook retries, the consumer and its dead letters.
  \<^item> \<^verbatim>\<open>Watchdog\<close>: \<open>services/slo-watchdog\<close>. \<^verbatim>\<open>Shadow\<close>: \<open>services/shadow-inference-service\<close>, composed with the controller of
    \<^verbatim>\<open>CanaryController\<close>.
  \<^item> \<^verbatim>\<open>AuditLog\<close>, \<^verbatim>\<open>Training\<close>, \<^verbatim>\<open>Tenants\<close>: \<open>services/audit-service\<close>, \<open>services/training-orchestrator\<close> and
    \<open>services/tenant-service\<close>, their tables and handlers.
  \<^item> \<^verbatim>\<open>InferenceRouter\<close>: \<open>services/inference-router\<close>: the client of the model server, its retries and tensors, the events of an
    inference, composed with the subscriptions of \<^verbatim>\<open>Metering\<close>.

  \<^bold>\<open>State, effects, errors.\<close> A component's state is a record with the fields of its struct or its tables; an operation
  takes it and returns it. A returned error is \<open>Inl\<close> of its text or a constructor of an error datatype. Locks
  make the operations atomic, so concurrency is the order in which operations are applied, and theorems about many
  operations quantify over lists of them. Clock readings, random bytes, replies of other machines and the order in which a
  map is ranged over are arguments; where a result should not depend on them, a lemma says so.

  \<^bold>\<open>What is shown.\<close> Each theory first has its definitions, then lemmas that describe each operation, then an
  invariant and its preservation, then the properties. The properties, numbered C1, C2, ... in the order of their
  importance over all theories, stand under a text that states them; their witnesses apply them to concrete runs.

  \<^bold>\<open>Bounds and fuel.\<close> The agent's loop, the cron search and Kahn's algorithm terminate with measures; none of them has
  fuel. The scanning loops of the cron search end after the horizon that the code sets. Machine integers wrap where the
  code could overflow; floats are exact IEEE values.

  \<^bold>\<open>Not modelled.\<close> Start-up and wiring in the \<open>main\<close> functions, metrics, logging and tracing; SQL engines (a table is an
  association list and a statement its effect); JSON encoding, except that values survive it; TLS, cryptography and X.509,
  which are parameters; interleavings inside a critical section. The services that only store rows and
  relay them, generated protobuf code, and the Python, TypeScript and
  infrastructure parts of the repository are left out; the manifest lists them one by one.
\<close>

end
